(* ===== verification/Prelude.thy ===== *)
theory Prelude
  imports Complex_Main "HOL-Library.Word" "HOL-Library.Char_ord" "HOL-Library.List_Lexorder"
begin

text \<open>
  Shared vocabulary of the development: the machine types, the fallible-result type, the
  collections that drive the automation, and generic lemmas on lists and options that several
  components use.

  \<^item> \<open>i64\<close> and \<open>u64\<close> are the values of \<^verbatim>\<open>std::int64_t\<close> and \<^verbatim>\<open>std::uint64_t\<close> where the code only
    compares or stores them; \<open>w8\<close>, \<open>w32\<close>, \<open>w64\<close> are the word types, used where the code shifts,
    masks, multiplies or may wrap.
  \<^item> \<open>'e + 'a\<close> is \<^verbatim>\<open>expected<T, E>\<close>: \<open>Inl\<close> an error, \<open>Inr\<close> a value.
  \<^item> \<^verbatim>\<open>std::string\<close> is \<open>string\<close>, a list of bytes; \<open><\<close> on it is the byte-wise lexicographic
    order of \<^verbatim>\<open>std::string::compare\<close>.
\<close>

type_synonym i64 = int
type_synonym u64 = nat
type_synonym w8 = "8 word"
type_synonym w32 = "32 word"
type_synonym w64 = "64 word"

named_theorems chr_simps \<open>character classes of the C locale\<close>
named_theorems codec_simps \<open>what a decoder returns on the output of its encoder\<close>
named_theorems bounds_intro \<open>ranges of the values an operation returns\<close>

definition INT64_MAX :: int where "INT64_MAX = 2 ^ 63 - 1"
definition INT64_MIN :: int where "INT64_MIN = - (2 ^ 63)"
definition UINT64_MAX :: nat where "UINT64_MAX = 2 ^ 64 - 1"

section \<open>Fallible results\<close>

definition ebind :: "'e + 'a \<Rightarrow> ('a \<Rightarrow> 'e + 'b) \<Rightarrow> 'e + 'b" where
  "ebind r f = (case r of Inl e \<Rightarrow> Inl e | Inr a \<Rightarrow> f a)"

lemma ebind_simps [simp]:
  "ebind (Inl e) f = Inl e" "ebind (Inr a) f = f a"
  by (simp_all add: ebind_def)

lemma ebind_Inr_conv: "ebind r f = Inr b \<longleftrightarrow> (\<exists>a. r = Inr a \<and> f a = Inr b)"
  by (cases r) auto

section \<open>Runs of characters\<close>

text \<open>The scanning loops of the code, \<^verbatim>\<open>while (pos < size && P(input[pos])) ++pos\<close>.\<close>

lemma takeWhile_run:
  assumes "\<forall>c \<in> set xs. P c" and "ys = [] \<or> \<not> P (hd ys)"
  shows "takeWhile P (xs @ ys) = xs"
  using assms by (cases ys) (auto simp: takeWhile_append2)

lemma dropWhile_run:
  assumes "\<forall>c \<in> set xs. P c" and "ys = [] \<or> \<not> P (hd ys)"
  shows "dropWhile P (xs @ ys) = ys"
  using assms by (cases ys) (auto simp: dropWhile_append2)

lemma run_stop:
  assumes "r = [] \<or> \<not> P (hd r)"
  shows "takeWhile P (w @ r) = takeWhile P w" "dropWhile P (w @ r) = dropWhile P w @ r"
  using assms by (induction w) (cases r; simp)+

lemma length_dropWhile_less: "xs \<noteq> [] \<Longrightarrow> P (hd xs) \<Longrightarrow> length (dropWhile P xs) < length xs"
  by (cases xs) (auto simp: length_dropWhile_le le_imp_less_Suc)

lemma takeWhile_all: "c \<in> set (takeWhile P xs) \<Longrightarrow> P c"
  by (rule set_takeWhileD [THEN conjunct2])

section \<open>Association lists as \<^verbatim>\<open>std::map\<close>\<close>

text \<open>
  \<open>al_put\<close> is \<^verbatim>\<open>m[k] = v\<close>, \<open>al_emplace\<close> is \<^verbatim>\<open>m.emplace(k, v)\<close>, which keeps an existing entry.
  Lookup is \<open>map_of\<close>.
\<close>

fun al_put :: "'k \<Rightarrow> 'v \<Rightarrow> ('k \<times> 'v) list \<Rightarrow> ('k \<times> 'v) list" where
  "al_put k v [] = [(k, v)]"
| "al_put k v ((k', v') # m) = (if k = k' then (k, v) # m else (k', v') # al_put k v m)"

definition al_emplace :: "'k \<Rightarrow> 'v \<Rightarrow> ('k \<times> 'v) list \<Rightarrow> ('k \<times> 'v) list" where
  "al_emplace k v m = (if map_of m k = None then m @ [(k, v)] else m)"

lemma map_of_al_put [simp]: "map_of (al_put k v m) = (map_of m)(k \<mapsto> v)"
  by (induction k v m rule: al_put.induct) auto

lemma map_of_al_emplace [simp]:
  "map_of (al_emplace k v m) = (if map_of m k = None then (map_of m)(k \<mapsto> v) else map_of m)"
  by (auto simp: al_emplace_def fun_eq_iff map_add_def split: option.splits)

lemma keys_al_put [simp]: "fst ` set (al_put k v m) = insert k (fst ` set m)"
  by (induction k v m rule: al_put.induct) auto

lemma distinct_al_put [simp]: "distinct (map fst m) \<Longrightarrow> distinct (map fst (al_put k v m))"
  by (induction k v m rule: al_put.induct) simp_all

lemma distinct_al_emplace [simp]:
  "distinct (map fst m) \<Longrightarrow> distinct (map fst (al_emplace k v m))"
  by (auto simp: al_emplace_def map_of_eq_None_iff)

lemma in_set_map_of: "distinct (map fst m) \<Longrightarrow> (k, v) \<in> set m \<longleftrightarrow> map_of m k = Some v"
  by simp

end
