(* ===== verification/Cstd.thy ===== *)
theory Cstd
  imports Prelude
begin

text \<open>
  What the sources use of the C and C++ standard library: the character classes of the C locale,
  \<^verbatim>\<open>std::to_string\<close>, \<^verbatim>\<open>std::from_chars\<close> and \<^verbatim>\<open>std::stod\<close>, the \<^verbatim>\<open>%f\<close> and \<^verbatim>\<open>%g\<close> renderings of a
  double, and the conversion of a 64-bit integer to \<^verbatim>\<open>double\<close>.

  A finite \<^verbatim>\<open>double\<close> is modelled by the rational it stands for (\<open>f64\<close>), so comparisons are exact;
  \<open>-0.0\<close> is identified with \<open>0.0\<close>, and infinities and NaN, which neither a query literal nor a JSON
  document can hold, have no representation.
\<close>

type_synonym f64 = rat

section \<open>Characters\<close>

definition code_of :: "char \<Rightarrow> nat" where "code_of c = of_char c"

definition is_digit :: "char \<Rightarrow> bool" where
  "is_digit c \<longleftrightarrow> 48 \<le> code_of c \<and> code_of c \<le> 57"
definition is_alpha :: "char \<Rightarrow> bool" where
  "is_alpha c \<longleftrightarrow> (65 \<le> code_of c \<and> code_of c \<le> 90) \<or> (97 \<le> code_of c \<and> code_of c \<le> 122)"
definition is_space :: "char \<Rightarrow> bool" where
  "is_space c \<longleftrightarrow> code_of c = 32 \<or> (9 \<le> code_of c \<and> code_of c \<le> 13)"
definition is_xdigit :: "char \<Rightarrow> bool" where
  "is_xdigit c \<longleftrightarrow> is_digit c \<or> (65 \<le> code_of c \<and> code_of c \<le> 70)
                             \<or> (97 \<le> code_of c \<and> code_of c \<le> 102)"
definition is_alnum :: "char \<Rightarrow> bool" where "is_alnum c \<longleftrightarrow> is_alpha c \<or> is_digit c"

definition to_lower :: "char \<Rightarrow> char" where
  "to_lower c = (if 65 \<le> code_of c \<and> code_of c \<le> 90 then char_of (code_of c + 32) else c)"

definition digit_char :: "nat \<Rightarrow> char" where "digit_char d = char_of (48 + d)"
definition digit_val :: "char \<Rightarrow> nat" where "digit_val c = code_of c - 48"

lemma digit_char_is_digit [simp]: "d < 10 \<Longrightarrow> is_digit (digit_char d)"
  by (simp add: digit_char_def is_digit_def code_of_def)

lemma digit_val_char [simp]: "d < 10 \<Longrightarrow> digit_val (digit_char d) = d"
  by (simp add: digit_char_def digit_val_def code_of_def)

lemma digit_char_neq [simp]:
  "d < 10 \<Longrightarrow> digit_char d \<noteq> c" if "\<not> is_digit c"
  using that digit_char_is_digit by metis

section \<open>Decimal text of integers\<close>

fun show_nat :: "nat \<Rightarrow> string" where
  "show_nat n = (if n < 10 then [digit_char n] else show_nat (n div 10) @ [digit_char (n mod 10)])"

declare show_nat.simps [simp del]

definition show_int :: "int \<Rightarrow> string" where
  "show_int i = (if i < 0 then CHR ''-'' # show_nat (nat (- i)) else show_nat (nat i))"

definition nat_of_digits :: "string \<Rightarrow> nat" where
  "nat_of_digits ds = foldl (\<lambda>a c. 10 * a + digit_val c) 0 ds"

lemma show_nat_digits: "\<forall>c \<in> set (show_nat n). is_digit c"
proof (induction n rule: show_nat.induct)
  case (1 n)
  then show ?case by (subst show_nat.simps) (auto simp: not_less)
qed

lemma show_nat_ne [simp]: "show_nat n \<noteq> []"
  by (subst show_nat.simps) simp

lemma nat_of_digits_show [simp]: "nat_of_digits (show_nat n) = n"
proof (induction n rule: show_nat.induct)
  case (1 n)
  show ?case
  proof (cases "n < 10")
    case True
    then show ?thesis by (subst show_nat.simps) (simp add: nat_of_digits_def)
  next
    case False
    with 1 have "nat_of_digits (show_nat (n div 10)) = n div 10" by simp
    with False show ?thesis by (subst show_nat.simps) (simp add: nat_of_digits_def)
  qed
qed

lemma show_nat_inj: "show_nat m = show_nat n \<longleftrightarrow> m = n"
  by (metis nat_of_digits_show)

lemma hd_show_nat_digit: "is_digit (hd (show_nat n))"
  using show_nat_digits [of n] by (meson hd_in_set show_nat_ne)

text \<open>
  \<^verbatim>\<open>std::from_chars(first, last, v)\<close>: an optional minus for a signed type, then the longest run of
  digits; no leading blanks, no plus sign, and what follows the digits is ignored.
  \<open>None\<close> is a nonzero error code (no digits, or out of range).
\<close>

definition from_chars_u64 :: "string \<Rightarrow> u64 option" where
  "from_chars_u64 s =
     (let ds = takeWhile is_digit s; v = nat_of_digits ds
      in if ds = [] \<or> UINT64_MAX < v then None else Some v)"

definition from_chars_i64 :: "string \<Rightarrow> i64 option" where
  "from_chars_i64 s =
     (let neg = (s \<noteq> [] \<and> hd s = CHR ''-'');
          ds = takeWhile is_digit (if neg then tl s else s);
          v = (if neg then - int (nat_of_digits ds) else int (nat_of_digits ds))
      in if ds = [] \<or> v < INT64_MIN \<or> INT64_MAX < v then None else Some v)"

lemma takeWhile_show_nat: "takeWhile is_digit (show_nat n) = show_nat n"
  using show_nat_digits by (simp add: takeWhile_eq_all_conv)

lemma from_chars_u64_show [codec_simps]:
  "n \<le> UINT64_MAX \<Longrightarrow> from_chars_u64 (show_nat n) = Some n"
  by (simp add: from_chars_u64_def takeWhile_show_nat Let_def)

lemma from_chars_i64_show_nat [codec_simps]:
  assumes "int n \<le> INT64_MAX"
  shows "from_chars_i64 (show_nat n) = Some (int n)"
proof -
  have "hd (show_nat n) \<noteq> CHR ''-''"
    using hd_show_nat_digit [of n] by (auto simp: is_digit_def code_of_def)
  with assms show ?thesis
    by (simp add: from_chars_i64_def takeWhile_show_nat INT64_MIN_def)
qed

lemma from_chars_i64_show_int [codec_simps]:
  assumes "INT64_MIN \<le> i" "i \<le> INT64_MAX"
  shows "from_chars_i64 (show_int i) = Some i"
proof (cases "i < 0")
  case True
  with assms show ?thesis
    by (simp add: show_int_def from_chars_i64_def takeWhile_show_nat Let_def INT64_MAX_def)
next
  case False
  with assms show ?thesis
    using from_chars_i64_show_nat [of "nat i"] by (simp add: show_int_def)
qed

lemma from_chars_i64_range:
  "from_chars_i64 s = Some v \<Longrightarrow> INT64_MIN \<le> v \<and> v \<le> INT64_MAX"
  by (auto simp: from_chars_i64_def Let_def split: if_splits)

section \<open>Doubles\<close>

fun bit_len :: "nat \<Rightarrow> nat" where
  "bit_len n = (if n = 0 then 0 else Suc (bit_len (n div 2)))"

declare bit_len.simps [simp del]

text \<open>Division rounded to the nearest integer, ties to even: the rounding mode of the FPU and of
  \<^verbatim>\<open>printf\<close>.\<close>

definition rhe_div :: "nat \<Rightarrow> nat \<Rightarrow> nat" where
  "rhe_div n d =
     (let q = n div d; r = n mod d
      in if 2 * r < d then q else if d < 2 * r then q + 1 else if even q then q else q + 1)"

text \<open>\<^verbatim>\<open>static_cast<double>\<close> of an integer: 53 significant bits are kept.\<close>

definition f64_of_nat :: "nat \<Rightarrow> nat" where
  "f64_of_nat n = (let k = bit_len n - 53 in rhe_div n (2 ^ k) * 2 ^ k)"

definition f64_of_int :: "int \<Rightarrow> f64" where
  "f64_of_int i = rat_of_int (sgn i * int (f64_of_nat (nat \<bar>i\<bar>)))"

text \<open>The double nearest to the positive rational \<open>num / den\<close>; \<open>None\<close> where \<^verbatim>\<open>strtod\<close> sets
  \<^verbatim>\<open>ERANGE\<close> (overflow, or an inexact subnormal), on which \<^verbatim>\<open>std::stod\<close> throws.\<close>

definition scale_num :: "int \<Rightarrow> nat \<Rightarrow> nat" where
  "scale_num k num = (if 0 \<le> k then num else num * 2 ^ nat (- k))"
definition scale_den :: "int \<Rightarrow> nat \<Rightarrow> nat" where
  "scale_den k den = (if 0 \<le> k then den * 2 ^ nat k else den)"

definition round_f64 :: "nat \<Rightarrow> nat \<Rightarrow> f64 option" where
  "round_f64 num den =
     (if num = 0 then Some 0
      else let k0 = int (bit_len num) - int (bit_len den) - 53;
               k1 = (if 2 ^ 53 * scale_den k0 den \<le> scale_num k0 num then k0 + 1 else k0);
               k = max k1 (- 1074);
               q = rhe_div (scale_num k num) (scale_den k den);
               v = (if 0 \<le> k then of_nat (q * 2 ^ nat k) else of_nat q / 2 ^ nat (- k))
           in if 2 ^ 1024 \<le> v then None
              else if v < 1 / 2 ^ 1022 \<and> q * scale_den k den \<noteq> scale_num k num then None
              else Some v)"

definition stod :: "string \<Rightarrow> f64 option" where
  "stod s0 =
     (let s = dropWhile is_space s0;
          neg = (s \<noteq> [] \<and> hd s = CHR ''-'');
          s = (if s \<noteq> [] \<and> (hd s = CHR ''-'' \<or> hd s = CHR ''+'') then tl s else s);
          ip = takeWhile is_digit s; r1 = dropWhile is_digit s;
          (fp, r2) = (if r1 \<noteq> [] \<and> hd r1 = CHR ''.''
                      then (takeWhile is_digit (tl r1), dropWhile is_digit (tl r1)) else ([], r1));
          e = (if r2 \<noteq> [] \<and> (hd r2 = CHR ''e'' \<or> hd r2 = CHR ''E'') then
                 (let t = tl r2; eneg = (t \<noteq> [] \<and> hd t = CHR ''-'');
                      t = (if t \<noteq> [] \<and> (hd t = CHR ''-'' \<or> hd t = CHR ''+'') then tl t else t);
                      ds = takeWhile is_digit t
                  in if ds = [] then 0 else if eneg then - int (nat_of_digits ds)
                     else int (nat_of_digits ds))
               else 0);
          m = nat_of_digits (ip @ fp); x = e - int (length fp)
      in if ip = [] \<and> fp = [] then None
         else map_option (\<lambda>v. if neg then - v else v)
                (if 0 \<le> x then round_f64 (m * 10 ^ nat x) 1 else round_f64 m (10 ^ nat (- x))))"

definition f64_num :: "f64 \<Rightarrow> nat" where "f64_num r = nat \<bar>fst (quotient_of r)\<bar>"
definition f64_den :: "f64 \<Rightarrow> nat" where "f64_den r = nat (snd (quotient_of r))"

definition pad0 :: "nat \<Rightarrow> nat \<Rightarrow> string" where
  "pad0 w n = replicate (w - length (show_nat n)) (CHR ''0'') @ show_nat n"

text \<open>\<^verbatim>\<open>std::to_string(double)\<close>, i.e.\ \<^verbatim>\<open>printf("%f")\<close>: six decimals.\<close>

definition fmt_f :: "f64 \<Rightarrow> string" where
  "fmt_f r =
     (let m = rhe_div (f64_num r * 10 ^ 6) (f64_den r)
      in (if r < 0 then ''-'' else []) @ show_nat (m div 10 ^ 6) @ ''.'' @ pad0 6 (m mod 10 ^ 6))"

definition rstrip0 :: "string \<Rightarrow> string" where
  "rstrip0 s = rev (dropWhile (\<lambda>c. c = CHR ''0'') (rev s))"

definition with_frac :: "string \<Rightarrow> string \<Rightarrow> string" where
  "with_frac i f = (if f = [] then i else i @ ''.'' @ f)"

text \<open>\<^verbatim>\<open>ostream << double\<close> with the default format, i.e.\ \<^verbatim>\<open>printf("%g")\<close>: six significant
  digits, trailing zeros dropped, an exponent when it is below -4 or at least 6.\<close>

definition fmt_g :: "f64 \<Rightarrow> string" where
  "fmt_g r =
     (if r = 0 then ''0'' else
      let a = f64_num r; b = f64_den r;
          x0 = (if b \<le> a then int (length (show_nat (a div b))) - 1
                else - int (length (show_nat ((b + a - 1) div a - 1))));
          m0 = (if 5 \<le> x0 then rhe_div a (b * 10 ^ nat (x0 - 5))
                else rhe_div (a * 10 ^ nat (5 - x0)) b);
          (m, x) = (if m0 = 10 ^ 6 then (10 ^ 5, x0 + 1) else (m0, x0));
          ds = show_nat m
      in (if r < 0 then ''-'' else []) @
         (if - 4 \<le> x \<and> x < 6 then
            (if 0 \<le> x then with_frac (take (nat x + 1) ds) (rstrip0 (drop (nat x + 1) ds))
             else ''0.'' @ replicate (nat (- x) - 1) (CHR ''0'') @ rstrip0 ds)
          else with_frac (take 1 ds) (rstrip0 (drop 1 ds)) @ ''e'' @ (if x < 0 then ''-'' else ''+'')
               @ pad0 2 (nat \<bar>x\<bar>)))"

subsection \<open>The integer conversion is exact up to \<open>2 ^ 53\<close> and monotone beyond\<close>

lemma bit_len_0 [simp]: "bit_len 0 = 0"
  by (simp add: bit_len.simps)

lemma bit_len_upper: "n < 2 ^ bit_len n"
proof (induction n rule: bit_len.induct)
  case (1 n)
  then show ?case by (subst bit_len.simps) auto
qed

lemma bit_len_lower: "0 < n \<Longrightarrow> 2 ^ (bit_len n - 1) \<le> n"
proof (induction n rule: bit_len.induct)
  case (1 n)
  show ?case
  proof (cases "n div 2 = 0")
    case True
    with 1 have "n = 1" by arith
    then show ?thesis by (simp add: bit_len.simps)
  next
    case False
    with 1 have ih: "2 ^ (bit_len (n div 2) - 1) \<le> n div 2" by simp
    have "bit_len (n div 2) \<noteq> 0" using False bit_len.simps by simp
    with 1 have "(2::nat) ^ (bit_len n - 1) = 2 * 2 ^ (bit_len (n div 2) - 1)"
      by (subst bit_len.simps) (cases "bit_len (n div 2)", simp_all)
    with ih show ?thesis by simp
  qed
qed

lemma bit_len_le: "n < 2 ^ k \<Longrightarrow> bit_len n \<le> k"
proof (rule ccontr)
  assume n: "n < 2 ^ k" and "\<not> bit_len n \<le> k"
  then have k: "k \<le> bit_len n - 1" and "0 < n" by (auto intro: ccontr)
  from k have "(2::nat) ^ k \<le> 2 ^ (bit_len n - 1)" by (rule power_increasing) simp
  with bit_len_lower [OF \<open>0 < n\<close>] n show False by linarith
qed

lemma bit_len_mono: "n \<le> m \<Longrightarrow> bit_len n \<le> bit_len m"
  using bit_len_upper [of m] by (auto intro: bit_len_le)

lemma rhe_div_bounds: "n div d \<le> rhe_div n d" "rhe_div n d \<le> n div d + 1"
  by (simp_all add: rhe_div_def Let_def)

lemma rhe_div_mono:
  assumes "n \<le> m" shows "rhe_div n d \<le> rhe_div m d"
proof (cases "n div d < m div d")
  case True
  with rhe_div_bounds [of n d] rhe_div_bounds [of m d] show ?thesis by linarith
next
  case False
  with div_le_mono [OF assms, of d] have q: "n div d = m div d" by simp
  have "d * (n div d) = d * (m div d)" by (simp add: q)
  then have "n mod d \<le> m mod d"
    using assms mult_div_mod_eq [of d n] mult_div_mod_eq [of d m] by linarith
  with q show ?thesis by (simp add: rhe_div_def Let_def)
qed

lemma rhe_div_exact: "0 < d \<Longrightarrow> rhe_div (a * d) d = a"
  by (simp add: rhe_div_def)

lemma rhe_div_power: "k \<le> b \<Longrightarrow> rhe_div (2 ^ b) (2 ^ k) * 2 ^ k = (2::nat) ^ b"
proof -
  assume "k \<le> b"
  then have "(2::nat) ^ b = 2 ^ (b - k) * 2 ^ k" by (simp flip: power_add)
  then show ?thesis using rhe_div_exact [of "2 ^ k" "2 ^ (b - k)"] by simp
qed

lemma f64_of_nat_exact: "n \<le> 2 ^ 53 \<Longrightarrow> f64_of_nat n = n"
proof (cases "n = 2 ^ 53")
  case True
  have "bit_len (2 ^ 53) = 54" by (simp add: bit_len.simps)
  with True show ?thesis by (simp add: f64_of_nat_def rhe_div_def)
next
  case False
  assume "n \<le> 2 ^ 53"
  with False have "bit_len n \<le> 53" by (intro bit_len_le) simp
  then show ?thesis by (simp add: f64_of_nat_def rhe_div_def)
qed

lemma f64_of_nat_mono:
  assumes "n \<le> m" shows "f64_of_nat n \<le> f64_of_nat m"
proof (cases "bit_len n - 53 = bit_len m - 53")
  case True
  then show ?thesis using rhe_div_mono [OF assms] by (simp add: f64_of_nat_def Let_def)
next
  case False
  let ?k = "bit_len n - 53" and ?l = "bit_len m - 53"
  from False bit_len_mono [OF assms] have lt: "bit_len n < bit_len m" "53 < bit_len m" by simp_all
  have "f64_of_nat n \<le> rhe_div (2 ^ bit_len n) (2 ^ ?k) * 2 ^ ?k"
    using rhe_div_mono [of n "2 ^ bit_len n"] bit_len_upper [of n]
    by (simp add: f64_of_nat_def Let_def)
  also have "\<dots> = 2 ^ bit_len n" by (rule rhe_div_power) simp
  also have "\<dots> \<le> 2 ^ (bit_len m - 1)" using lt by (intro power_increasing) simp_all
  also have "\<dots> = rhe_div (2 ^ (bit_len m - 1)) (2 ^ ?l) * 2 ^ ?l"
    by (rule rhe_div_power [symmetric]) simp
  also have "\<dots> \<le> f64_of_nat m"
    using rhe_div_mono [of "2 ^ (bit_len m - 1)" m] bit_len_lower [of m] lt(2)
    by (cases "m = 0") (simp_all add: f64_of_nat_def Let_def)
  finally show ?thesis .
qed

lemma f64_of_int_exact: "\<bar>i\<bar> \<le> 2 ^ 53 \<Longrightarrow> f64_of_int i = of_int i"
  by (simp add: f64_of_int_def f64_of_nat_exact nat_le_iff mult_sgn_abs)

lemma f64_of_int_mono: "i \<le> j \<Longrightarrow> f64_of_int i \<le> f64_of_int j"
proof -
  assume ij: "i \<le> j"
  have "sgn i * int (f64_of_nat (nat \<bar>i\<bar>)) \<le> sgn j * int (f64_of_nat (nat \<bar>j\<bar>))"
    using ij f64_of_nat_mono [of "nat i" "nat j"] f64_of_nat_mono [of "nat (- j)" "nat (- i)"]
    by (cases i "0 :: int" rule: linorder_cases; cases j "0 :: int" rule: linorder_cases) auto
  then show ?thesis unfolding f64_of_int_def by (simp only: of_int_le_iff)
qed

text \<open>\<^verbatim>\<open>std::stoull\<close> and \<^verbatim>\<open>std::stoll\<close>: leading blanks and a sign are accepted, a minus negates
  modulo \<open>2 ^ 64\<close> in the unsigned case; \<open>None\<close> is the exception.\<close>

definition strto_split :: "string \<Rightarrow> bool \<times> string" where
  "strto_split s0 =
     (let s = dropWhile is_space s0;
          neg = (s \<noteq> [] \<and> hd s = CHR ''-'');
          s = (if s \<noteq> [] \<and> (hd s = CHR ''-'' \<or> hd s = CHR ''+'') then tl s else s)
      in (neg, takeWhile is_digit s))"

definition stoull :: "string \<Rightarrow> u64 option" where
  "stoull s =
     (let (neg, ds) = strto_split s; n = nat_of_digits ds
      in if ds = [] \<or> UINT64_MAX < n then None
         else Some (if neg then (2 ^ 64 - n) mod 2 ^ 64 else n))"

definition stoll :: "string \<Rightarrow> i64 option" where
  "stoll s =
     (let (neg, ds) = strto_split s; v = (if neg then - int (nat_of_digits ds) else int (nat_of_digits ds))
      in if ds = [] \<or> v < INT64_MIN \<or> INT64_MAX < v then None else Some v)"

lemma strto_split_show_nat: "strto_split (show_nat n) = (False, show_nat n)"
proof -
  obtain c cs where s: "show_nat n = c # cs" by (cases "show_nat n") (use show_nat_ne in auto)
  have "is_digit c" using hd_show_nat_digit [of n] s by simp
  then have "\<not> is_space c" "c \<noteq> CHR ''-''" "c \<noteq> CHR ''+''"
    by (auto simp: is_digit_def is_space_def code_of_def)
  moreover have "takeWhile is_digit (c # cs) = c # cs" using takeWhile_show_nat [of n] s by simp
  ultimately show ?thesis by (simp add: s strto_split_def Let_def)
qed

lemma strto_split_show_int: "strto_split (show_int i) = (i < 0, show_nat (nat \<bar>i\<bar>))"
proof (cases "i < 0")
  case True
  have "\<not> is_space (CHR ''-'')" by (simp add: is_space_def code_of_def)
  with True show ?thesis by (simp add: show_int_def strto_split_def Let_def takeWhile_show_nat)
qed (simp add: show_int_def strto_split_show_nat)

lemma stoull_show_nat [codec_simps]: "n \<le> UINT64_MAX \<Longrightarrow> stoull (show_nat n) = Some n"
  by (simp add: stoull_def strto_split_show_nat)

lemma stoull_show_int [codec_simps]: "0 \<le> i \<Longrightarrow> nat i \<le> UINT64_MAX \<Longrightarrow> stoull (show_int i) = Some (nat i)"
  by (simp add: stoull_def strto_split_show_int)

lemma stoll_show_int [codec_simps]: "INT64_MIN \<le> i \<Longrightarrow> i \<le> INT64_MAX \<Longrightarrow> stoll (show_int i) = Some i"
  by (auto simp: stoll_def strto_split_show_int)

lemma stoll_show_nat [codec_simps]: "int n \<le> INT64_MAX \<Longrightarrow> stoll (show_nat n) = Some (int n)"
  by (simp add: stoll_def strto_split_show_nat INT64_MIN_def)

end
