(* ===== verification/Json.thy ===== *)
theory Json
  imports Cstd
begin

text \<open>
  The JSON layer (\<^verbatim>\<open>json/json_value.h\<close>, \<^verbatim>\<open>json/json_value.cpp\<close>, \<^verbatim>\<open>core/common/field_ref.h\<close>): a
  parsed event, the typed accessors of \<^verbatim>\<open>JsonValue\<close> and the dotted-path walk \<^verbatim>\<open>JsonValue::at\<close>.

  Parsing itself is done by simdjson, which is not part of the repository. A number element is
  therefore described by what simdjson's accessors answer on it (\<open>dom_num\<close>); the documented
  relation between the three answers is the predicate \<open>dom_num_ok\<close>, used as a hypothesis where
  a property needs it. A \<^verbatim>\<open>JsonValue\<close> is \<open>json option\<close>: \<open>None\<close> is an invalid value
  (\<^verbatim>\<open>exists() == false\<close>).
\<close>

record dom_num =
  dom_i64 :: "i64 option"
  dom_u64 :: "u64 option"
  dom_f64 :: "f64 option"

datatype json =
    JNull
  | JBool bool
  | JNum dom_num
  | JString string
  | JArray "json list"
  | JObject "(string \<times> json) list"

type_synonym json_value = "json option"

definition dom_num_ok :: "dom_num \<Rightarrow> bool" where
  "dom_num_ok n \<longleftrightarrow>
     (case dom_i64 n of
        Some i \<Rightarrow> INT64_MIN \<le> i \<and> i \<le> INT64_MAX
                  \<and> dom_u64 n = (if 0 \<le> i then Some (nat i) else None)
                  \<and> dom_f64 n \<in> {None, Some (f64_of_int i)}
      | None \<Rightarrow> (case dom_u64 n of
            Some u \<Rightarrow> INT64_MAX < int u \<and> u \<le> UINT64_MAX \<and> dom_f64 n \<in> {None, Some (f64_of_int (int u))}
          | None \<Rightarrow> dom_f64 n \<noteq> None))"

definition num_of_int :: "int \<Rightarrow> dom_num" where
  "num_of_int i =
     \<lparr>dom_i64 = (if i \<le> INT64_MAX then Some i else None),
      dom_u64 = (if 0 \<le> i then Some (nat i) else None), dom_f64 = Some (f64_of_int i)\<rparr>"

definition num_of_f64 :: "f64 \<Rightarrow> dom_num" where
  "num_of_f64 r = \<lparr>dom_i64 = None, dom_u64 = None, dom_f64 = Some r\<rparr>"

section \<open>Accessors\<close>

fun is_null :: "json_value \<Rightarrow> bool" where
  "is_null None = True" | "is_null (Some JNull) = True" | "is_null _ = False"
fun is_bool :: "json_value \<Rightarrow> bool" where
  "is_bool (Some (JBool _)) = True" | "is_bool _ = False"
fun is_string :: "json_value \<Rightarrow> bool" where
  "is_string (Some (JString _)) = True" | "is_string _ = False"
fun is_uint :: "json_value \<Rightarrow> bool" where
  "is_uint (Some (JNum n)) = (dom_u64 n \<noteq> None)" | "is_uint _ = False"
fun is_int :: "json_value \<Rightarrow> bool" where
  "is_int (Some (JNum n)) = (dom_i64 n \<noteq> None)" | "is_int _ = False"
fun is_number :: "json_value \<Rightarrow> bool" where
  "is_number (Some (JNum n)) = (dom_i64 n \<noteq> None \<or> dom_u64 n \<noteq> None \<or> dom_f64 n \<noteq> None)"
| "is_number _ = False"
fun is_object :: "json_value \<Rightarrow> bool" where
  "is_object (Some (JObject _)) = True" | "is_object _ = False"
fun is_array :: "json_value \<Rightarrow> bool" where
  "is_array (Some (JArray _)) = True" | "is_array _ = False"

text \<open>\<^verbatim>\<open>operator[](key)\<close> and \<^verbatim>\<open>operator[](index)\<close>.\<close>

fun obj_get :: "json_value \<Rightarrow> string \<Rightarrow> json_value" where
  "obj_get (Some (JObject ms)) k = map_of ms k"
| "obj_get _ k = None"

fun idx_get :: "json_value \<Rightarrow> nat \<Rightarrow> json_value" where
  "idx_get (Some (JArray xs)) i = (if i < length xs then Some (xs ! i) else None)"
| "idx_get _ i = None"

text \<open>\<^verbatim>\<open>get<T>()\<close> with the default value \<^verbatim>\<open>T{}\<close>.\<close>

fun get_bool :: "json_value \<Rightarrow> bool" where
  "get_bool (Some (JBool b)) = b" | "get_bool _ = False"
fun get_string :: "json_value \<Rightarrow> string" where
  "get_string (Some (JString s)) = s" | "get_string _ = []"
fun get_u64 :: "json_value \<Rightarrow> u64" where
  "get_u64 (Some (JNum n)) =
     (case dom_u64 n of Some u \<Rightarrow> u
      | None \<Rightarrow> (case dom_i64 n of Some i \<Rightarrow> if 0 \<le> i then nat i else 0 | None \<Rightarrow> 0))"
| "get_u64 _ = 0"
fun get_i64 :: "json_value \<Rightarrow> i64" where
  "get_i64 (Some (JNum n)) =
     (case dom_i64 n of Some i \<Rightarrow> i
      | None \<Rightarrow> (case dom_u64 n of Some u \<Rightarrow> if int u \<le> INT64_MAX then int u else 0 | None \<Rightarrow> 0))"
| "get_i64 _ = 0"
fun get_f64 :: "json_value \<Rightarrow> f64" where
  "get_f64 (Some (JNum n)) =
     (case dom_f64 n of Some r \<Rightarrow> r
      | None \<Rightarrow> (case dom_i64 n of Some i \<Rightarrow> f64_of_int i
          | None \<Rightarrow> (case dom_u64 n of Some u \<Rightarrow> f64_of_int (int u) | None \<Rightarrow> 0)))"
| "get_f64 _ = 0"

section \<open>The path walk\<close>

text \<open>\<^verbatim>\<open>idx = idx * 10 + d\<close> on a 64-bit \<^verbatim>\<open>size_t\<close>.\<close>

definition path_index :: "string \<Rightarrow> nat" where
  "path_index ds = foldl (\<lambda>a c. (a * 10 + digit_val c) mod 2 ^ 64) 0 ds"

text \<open>
  The flat-key fallback: \<open>rest\<close> starts at the dot behind the segment \<open>key\<close>, \<open>run\<close> is its part
  before the first bracket. The candidate keys are \<open>key\<close> followed by a prefix of \<open>run\<close>: the
  whole run first, then every prefix that ends right before a dot, longest first.
\<close>

fun flat_key :: "json_value \<Rightarrow> string \<Rightarrow> string \<Rightarrow> nat \<Rightarrow> (json \<times> nat) option" where
  "flat_key cur key run 0 = None"
| "flat_key cur key run (Suc n) =
     (if Suc n = length run \<or> (Suc n < length run \<and> run ! Suc n = CHR ''.'')
      then (case obj_get cur (key @ take (Suc n) run) of
              Some v \<Rightarrow> Some (v, Suc n)
            | None \<Rightarrow> flat_key cur key run n)
      else flat_key cur key run n)"

definition step_key :: "json_value \<Rightarrow> string \<Rightarrow> string \<Rightarrow> json_value \<times> nat" where
  "step_key cur key rest =
     (let nxt = obj_get cur key;
          nxt = (if nxt = None \<and> is_array cur \<and> key \<noteq> [] \<and> list_all is_digit key
                 then idx_get cur (path_index key) else nxt)
      in if nxt = None \<and> is_object cur \<and> rest \<noteq> [] \<and> hd rest = CHR ''.''
         then (let run = takeWhile (\<lambda>c. c \<noteq> CHR ''['') rest
               in case flat_key cur key run (length run) of
                    Some (v, n) \<Rightarrow> (Some v, n) | None \<Rightarrow> (None, 0))
         else (nxt, 0))"

definition key_char :: "char \<Rightarrow> bool" where
  "key_char c \<longleftrightarrow> c \<noteq> CHR ''.'' \<and> c \<noteq> CHR ''[''"

definition after_bracket :: "string \<Rightarrow> string" where
  "after_bracket s = (if s \<noteq> [] \<and> hd s = CHR '']'' then tl s else s)"

lemma length_after_bracket: "length (after_bracket s) \<le> length s"
  by (simp add: after_bracket_def)

lemma length_bracket_rest: "length (after_bracket (dropWhile P p)) \<le> length p"
  using length_after_bracket length_dropWhile_le order_trans by blast

function at_loop :: "json_value \<Rightarrow> string \<Rightarrow> json_value" where
  "at_loop cur [] = cur"
| "at_loop cur (c # p) =
     (if c = CHR ''.'' then at_loop cur p
      else if c = CHR ''['' then
        (let ds = takeWhile is_digit p; q = after_bracket (dropWhile is_digit p);
             nxt = idx_get cur (path_index ds)
         in if ds = [] then None else if nxt = None then None else at_loop nxt q)
      else
        (let key = takeWhile key_char (c # p); rest = dropWhile key_char (c # p);
             (nxt, n) = step_key cur key rest
         in if nxt = None then None else at_loop nxt (drop n rest)))"
  by pat_completeness auto

termination
proof (relation "measure (\<lambda>(cur, p). length p)", goal_cases)
  case (3 cur c p ds q nxt)
  then show ?case using length_bracket_rest [of is_digit p] by simp
next
  case (4 cur c p key rest pr nxt n)
  then have "key_char c" by (simp add: key_char_def)
  with 4 show ?case
    using length_dropWhile_le [of key_char p] by (simp add: le_imp_less_Suc diff_le_self le_diff_conv)
qed simp_all

text \<open>\<^verbatim>\<open>at(const std::string&)\<close> passes \<^verbatim>\<open>c_str()\<close>, which ends at the first NUL byte.\<close>

definition at_path :: "json_value \<Rightarrow> string \<Rightarrow> json_value" where
  "at_path v path = (if v = None then None else at_loop v (takeWhile (\<lambda>c. c \<noteq> CHR 0x00) path))"

declare at_loop.simps(2) [simp del]

section \<open>Field references\<close>

definition ARGS_PREFIX :: string where "ARGS_PREFIX = ''args.''"

definition strip_args_prefix :: "string \<Rightarrow> string" where
  "strip_args_prefix f =
     (if length ARGS_PREFIX < length f \<and> take (length ARGS_PREFIX) f = ARGS_PREFIX
      then drop (length ARGS_PREFIX) f else f)"

definition has_args_prefix :: "string \<Rightarrow> bool" where
  "has_args_prefix f \<longleftrightarrow> strip_args_prefix f \<noteq> f"

lemma has_args_prefix_iff:
  "has_args_prefix f \<longleftrightarrow> (\<exists>k. k \<noteq> [] \<and> f = ''args.'' @ k)"
proof
  assume "has_args_prefix f"
  then have l: "5 < length f" and t: "take 5 f = ''args.''"
    by (simp_all add: has_args_prefix_def strip_args_prefix_def ARGS_PREFIX_def eval_nat_numeral
          split: if_splits)
  then have "f = ''args.'' @ drop 5 f" by (metis append_take_drop_id)
  with l show "\<exists>k. k \<noteq> [] \<and> f = ''args.'' @ k" by (intro exI [of _ "drop 5 f"]) simp
next
  assume "\<exists>k. k \<noteq> [] \<and> f = ''args.'' @ k"
  then show "has_args_prefix f"
    by (auto simp: has_args_prefix_def strip_args_prefix_def ARGS_PREFIX_def)
qed

subsection \<open>What the walk returns\<close>

lemma is_object_conv: "is_object v \<longleftrightarrow> (\<exists>ms. v = Some (JObject ms))"
  by (cases v rule: is_object.cases) auto

text \<open>A path without dots and brackets is one member lookup.\<close>

lemma at_loop_plain:
  assumes "k \<noteq> []" "\<forall>c \<in> set k. key_char c" "is_object cur"
  shows "at_loop cur k = obj_get cur k"
proof -
  obtain c p where k: "k = c # p" using assms(1) by (cases k) auto
  have tw: "takeWhile key_char k = k" "dropWhile key_char k = []"
    using takeWhile_run [of k key_char "[]"] dropWhile_run [of k key_char "[]"] assms(2) by auto
  obtain ms where cur: "cur = Some (JObject ms)" using assms(3) by (auto simp: is_object_conv)
  have c: "c \<noteq> CHR ''.''" "c \<noteq> CHR ''[''" using assms(2) by (simp_all add: k key_char_def)
  have "step_key cur k [] = (obj_get cur k, 0)" by (simp add: step_key_def cur)
  with tw c show ?thesis
    unfolding k by (subst at_loop.simps) (simp add: Let_def)
qed

lemma at_path_plain:
  assumes "k \<noteq> []" "\<forall>c \<in> set k. key_char c \<and> c \<noteq> CHR 0x00" "is_object cur"
  shows "at_path cur k = obj_get cur k"
proof -
  have tw: "takeWhile (\<lambda>c. c \<noteq> CHR 0x00) k = k" using assms(2) by (simp add: takeWhile_eq_all_conv)
  have "cur \<noteq> None" using assms(3) by (auto simp: is_object_conv)
  then show ?thesis unfolding at_path_def tw using assms by (simp add: at_loop_plain)
qed

end
