(* ===== verification/Bytes.thy ===== *)
theory Bytes
  imports Prelude
begin

unbundle bit_operations_syntax

text \<open>
  Byte buffers: the little-endian 32-bit codec of \<^verbatim>\<open>core/common/little_endian.h\<close> and the loads and
  stores of 32-bit words that the filters make through a cast pointer (on a little-endian host), the
  FNV-1a hash of \<^verbatim>\<open>core/common/hash/fnv1a.h\<close> and its incremental form.

  A read outside of the buffer, undefined in C++, gives 0 here; the properties are about buffers
  on which it does not happen. \<open>tbit bs k\<close> is bit \<open>k\<close> of the buffer, the view in which loads and
  stores commute.
\<close>

type_synonym bytes = "w8 list"

definition byte_at :: "bytes \<Rightarrow> nat \<Rightarrow> w8" where
  "byte_at bs i = (if i < length bs then bs ! i else 0)"

definition tbit :: "bytes \<Rightarrow> nat \<Rightarrow> bool" where
  "tbit bs k = bit (byte_at bs (k div 8)) (k mod 8)"

section \<open>Little-endian words\<close>

definition write_u32_le :: "w32 \<Rightarrow> bytes" where
  "write_u32_le v =
     [ucast (v AND 0xFF), ucast (drop_bit 8 v AND 0xFF), ucast (drop_bit 16 v AND 0xFF),
      ucast (drop_bit 24 v AND 0xFF)]"

definition load_u32 :: "bytes \<Rightarrow> nat \<Rightarrow> w32" where
  "load_u32 bs off =
     ucast (byte_at bs off) OR push_bit 8 (ucast (byte_at bs (off + 1)))
     OR push_bit 16 (ucast (byte_at bs (off + 2))) OR push_bit 24 (ucast (byte_at bs (off + 3)))"

definition read_u32_le :: "bytes \<Rightarrow> w32" where "read_u32_le bs = load_u32 bs 0"

definition store_u32 :: "bytes \<Rightarrow> nat \<Rightarrow> w32 \<Rightarrow> bytes" where
  "store_u32 bs off v =
     (let w = write_u32_le v
      in bs[off := w ! 0, off + 1 := w ! 1, off + 2 := w ! 2, off + 3 := w ! 3])"

lemma length_write_u32_le [simp]: "length (write_u32_le v) = 4"
  by (simp add: write_u32_le_def)

lemma length_store_u32 [simp]: "length (store_u32 bs off v) = length bs"
  by (simp add: store_u32_def Let_def)

lemma byte_at_append [simp]:
  "i < length xs \<Longrightarrow> byte_at (xs @ ys) i = byte_at xs i"
  "byte_at (xs @ ys) (length xs + i) = byte_at ys i"
  by (simp_all add: byte_at_def nth_append)

lemma w8_high: "8 \<le> k \<Longrightarrow> \<not> bit (b :: w8) k"
  using bit_imp_le_length [of b k] by auto

lemmas load_simps = load_u32_def bit_or_iff bit_push_bit_iff bit_ucast_iff w8_high

lemma bit_load_u32:
  assumes "n < 32" shows "bit (load_u32 bs off) n = bit (byte_at bs (off + n div 8)) (n mod 8)"
proof -
  consider (1) "n < 8" | (2) "8 \<le> n" "n < 16" | (3) "16 \<le> n" "n < 24" | (4) "24 \<le> n" using assms by linarith
  then show ?thesis
  proof cases
    case 1
    then show ?thesis by (simp add: load_simps)
  next
    case 2
    then have "n div 8 = 1" by auto
    with minus_mult_div_eq_mod [of n 8] have "n mod 8 = n - 8" "n div 8 = 1" by simp_all
    with 2 show ?thesis by (auto simp: load_simps)
  next
    case 3
    then have "n div 8 = 2" by auto
    with minus_mult_div_eq_mod [of n 8] have "n mod 8 = n - 16" "n div 8 = 2" by simp_all
    with 3 show ?thesis by (auto simp: load_simps)
  next
    case 4
    with assms have "n div 8 = 3" by auto
    with minus_mult_div_eq_mod [of n 8] have "n mod 8 = n - 24" "n div 8 = 3" by simp_all
    with 4 assms show ?thesis by (auto simp: load_simps)
  qed
qed

lemma bit_write_u32:
  assumes "i < 4" "j < 8" shows "bit (write_u32_le v ! i) j = bit v (8 * i + j)"
proof -
  have m: "bit (0xFF :: w32) j" using assms(2) by (auto simp: less_Suc_eq numeral_eq_Suc)
  consider "i = 0" | "i = 1" | "i = 2" | "i = 3" using assms(1) by linarith
  then show ?thesis using m assms(2) by cases (simp_all add: write_u32_le_def bit_simps ac_simps)
qed

lemma tbit_load: "n < 32 \<Longrightarrow> bit (load_u32 bs (4 * w)) n = tbit bs (32 * w + n)"
proof -
  assume "n < 32"
  moreover have "(8 * (4 * w) + n) div 8 = 4 * w + n div 8" "(8 * (4 * w) + n) mod 8 = n mod 8"
    by (simp, rule mod_mult_self4)
  ultimately show ?thesis by (simp add: bit_load_u32 tbit_def)
qed

lemma tbit_store:
  assumes "4 * w + 4 \<le> length bs"
  shows "tbit (store_u32 bs (4 * w) v) k = (if k div 32 = w then bit v (k mod 32) else tbit bs k)"
proof -
  define q r where "q = k div 32" and "r = k mod 32"
  then have k: "k = 8 * (4 * q) + r" "r < 32" by simp_all
  have k8: "k div 8 = 4 * q + r div 8" "k mod 8 = r mod 8"
    unfolding k by (simp, rule mod_mult_self4)
  have b: "byte_at (store_u32 bs (4 * w) v) i
      = (if i div 4 = w then write_u32_le v ! (i mod 4) else byte_at bs i)" for i
  proof (cases "i div 4 = w")
    case True
    then consider "i = 4 * w" | "i = 4 * w + 1" | "i = 4 * w + 2" | "i = 4 * w + 3" by linarith
    moreover have "Suc (4 * w) div 4 = w" "Suc (Suc (4 * w)) div 4 = w" "Suc (Suc (4 * w)) mod 4 = 2"
      by presburger+
    ultimately show ?thesis
      using assms by cases (simp_all add: byte_at_def store_u32_def Let_def)
  next
    case False
    then have "i \<noteq> 4 * w" "i \<noteq> 4 * w + 1" "i \<noteq> 4 * w + 2" "i \<noteq> 4 * w + 3" by auto
    with False show ?thesis by (simp add: byte_at_def store_u32_def Let_def)
  qed
  have r8: "r div 8 < 4" "8 * (r div 8) + r mod 8 = r" using k(2) by simp_all
  then have "k div 8 div 4 = q" "k div 8 mod 4 = r div 8" by (simp_all add: k8)
  with bit_write_u32 [of "r div 8" "r mod 8" v] r8 show ?thesis
    by (simp add: tbit_def b k8 flip: q_def r_def)
qed

lemma read_write_u32 [codec_simps]: "read_u32_le (write_u32_le v @ bs) = v"
proof (rule bit_word_eqI)
  fix n assume "n < LENGTH(32)"
  then have n: "n < 32" "n div 8 < 4" "n mod 8 < 8" "8 * (n div 8) + n mod 8 = n" by auto
  then show "bit (read_u32_le (write_u32_le v @ bs)) n = bit v n"
    using bit_write_u32 [of "n div 8" "n mod 8" v]
    by (simp add: read_u32_le_def bit_load_u32 byte_at_def nth_append)
qed

section \<open>FNV-1a\<close>

definition FNV1A_OFFSET_BASIS :: w64 where "FNV1A_OFFSET_BASIS = 0xcbf29ce484222325"
definition FNV1A_PRIME :: w64 where "FNV1A_PRIME = 0x00000100000001b3"
definition GOLDEN_RATIO :: w64 where "GOLDEN_RATIO = 0x9e3779b97f4a7c15"
definition SPLITMIX64_MUL1 :: w64 where "SPLITMIX64_MUL1 = 0xbf58476d1ce4e5b9"
definition SPLITMIX64_MUL2 :: w64 where "SPLITMIX64_MUL2 = 0x94d049bb133111eb"

definition fnv1a_step :: "w64 \<Rightarrow> char \<Rightarrow> w64" where
  "fnv1a_step h c = (h XOR of_char c) * FNV1A_PRIME"

definition fnv1a_hash :: "string \<Rightarrow> w64" where
  "fnv1a_hash s = foldl fnv1a_step FNV1A_OFFSET_BASIS s"

definition fnv1a_mix :: "w64 \<Rightarrow> w64" where
  "fnv1a_mix h =
     (let h = h XOR drop_bit 33 h; h = h * 0xff51afd7ed558ccd;
          h = h XOR drop_bit 33 h; h = h * 0xc4ceb9fe1a85ec53
      in h XOR drop_bit 33 h)"

definition hash_combine :: "w64 \<Rightarrow> w64 \<Rightarrow> w64" where
  "hash_combine seed v = seed XOR (v + GOLDEN_RATIO + push_bit 6 seed + drop_bit 2 seed)"

text \<open>The incremental hasher: its state and the hash reported so far.\<close>

record hasher =
  hs_state :: w64
  hs_current :: w64

definition hasher_reset :: hasher where
  "hasher_reset = \<lparr>hs_state = FNV1A_OFFSET_BASIS, hs_current = 0\<rparr>"

definition hasher_update :: "hasher \<Rightarrow> string \<Rightarrow> hasher" where
  "hasher_update h s =
     (let st = foldl fnv1a_step (hs_state h) s in \<lparr>hs_state = st, hs_current = st\<rparr>)"

lemma hasher_chunks: "hasher_update (hasher_update h a) b = hasher_update h (a @ b)"
  by (simp add: hasher_update_def Let_def)

lemma hasher_whole: "hs_current (hasher_update hasher_reset s) = fnv1a_hash s"
  by (simp add: hasher_update_def hasher_reset_def fnv1a_hash_def Let_def)

section \<open>Little-endian values of any width\<close>

text \<open>The loop \<^verbatim>\<open>for i < n: push_back((v >> (i * 8)) & 0xFF)\<close> and its inverse.\<close>

definition write_le :: "nat \<Rightarrow> w64 \<Rightarrow> bytes" where
  "write_le n v = map (\<lambda>i. ucast (drop_bit (i * 8) v AND 0xFF)) [0..<n]"

fun read_le :: "bytes \<Rightarrow> w64" where
  "read_le [] = 0"
| "read_le (b # bs) = ucast b OR push_bit 8 (read_le bs)"

lemma length_write_le [simp]: "length (write_le n v) = n"
  by (simp add: write_le_def)

lemma write_le_Suc: "write_le (Suc n) v = ucast (v AND 0xFF) # write_le n (drop_bit 8 v)"
proof -
  have "[0..<Suc n] = 0 # map Suc [0..<n]" by (simp add: upt_conv_Cons map_Suc_upt del: upt_Suc)
  then show ?thesis by (simp add: write_le_def o_def ac_simps del: upt_Suc)
qed

lemma bit_0xFF: "bit (0xFF :: w64) n \<longleftrightarrow> n < 8" "bit (0xFF :: int) n \<longleftrightarrow> n < 8"
proof -
  have "(0xFF :: w64) = Bit_Operations.mask 8" "(0xFF :: int) = Bit_Operations.mask 8"
    by (simp_all add: mask_eq_exp_minus_1)
  then show "bit (0xFF :: w64) n \<longleftrightarrow> n < 8" "bit (0xFF :: int) n \<longleftrightarrow> n < 8"
    by (auto simp only: bit_mask_iff) simp_all
qed

lemma read_write_le: "read_le (write_le n v) = take_bit (8 * n) v"
proof (induction n arbitrary: v)
  case (Suc n)
  show ?case
  proof (rule bit_word_eqI)
    fix k assume "k < LENGTH(64)"
    then show "bit (read_le (write_le (Suc n) v)) k = bit (take_bit (8 * Suc n) v) k"
      by (cases "k < 8")
         (auto simp: write_le_Suc Suc.IH bit_or_iff bit_push_bit_iff bit_ucast_iff bit_and_iff bit_0xFF
           bit_take_bit_iff bit_drop_bit_eq)
  qed
qed (simp add: write_le_def)

lemma read_write_u64 [codec_simps]: "read_le (write_le 8 v) = v"
  by (rule bit_word_eqI) (simp add: read_write_le bit_take_bit_iff)

text \<open>The bytes of a text, and the text of a byte range.\<close>

definition text_bytes :: "string \<Rightarrow> bytes" where "text_bytes s = map of_char s"
definition bytes_text :: "bytes \<Rightarrow> string" where "bytes_text bs = map (\<lambda>b. char_of (unat b)) bs"

lemma length_text_bytes [simp]: "length (text_bytes s) = length s"
  by (simp add: text_bytes_def)

lemma bytes_text_bytes [codec_simps, simp]: "bytes_text (text_bytes s) = s"
proof -
  have "char_of (unat (of_char c :: w8)) = c" for c
  proof -
    have "(of_char c :: nat) < 2 ^ 8" using nat_of_char_less_256 [of c] by simp
    then have "unat (of_nat (of_char c) :: w8) = of_char c" by (simp only: unat_of_nat) (simp add: take_bit_nat_eq_self)
    then show ?thesis by (simp only: of_nat_of_char char_of_char)
  qed
  then show ?thesis by (simp add: text_bytes_def bytes_text_def o_def)
qed

end
