(* ===== verification/Histograms.thy ===== *)
theory Histograms
  imports Json Bytes
begin

text \<open>
  The two histograms of \<^verbatim>\<open>utilities/common/statistics\<close>: the sparse timestamp histogram with its
  varint codec (\<^verbatim>\<open>timestamp_histogram.cpp\<close>) and the log2 histogram (\<^verbatim>\<open>log2_histogram.cpp\<close>). Indices
  and counters are 64-bit words, so every sum wraps as it does in the code.

  Both are sketches that count values by bin; the interface they share, and what a stream of
  observations and merges amounts to, is the locale \<open>counting_sketch\<close>. \<^verbatim>\<open>std::lower_bound\<close> on the
  sorted bins is the split at the first bin that is not below the index.
\<close>

section \<open>The interface of a counting sketch\<close>

locale counting_sketch =
  fixes observe :: "'v \<Rightarrow> 's \<Rightarrow> 's"
    and merge :: "'s \<Rightarrow> 's \<Rightarrow> 's"
    and weight :: "'s \<Rightarrow> 'b \<Rightarrow> w64"
    and total :: "'s \<Rightarrow> w64"
    and bin :: "'v \<Rightarrow> 'b"
    and ok :: "'s \<Rightarrow> bool"
  assumes observe_ok: "ok s \<Longrightarrow> ok (observe v s)"
    and merge_ok: "ok s \<Longrightarrow> ok t \<Longrightarrow> ok (merge s t)"
    and observe_weight: "ok s \<Longrightarrow> weight (observe v s) b = weight s b + (if b = bin v then 1 else 0)"
    and merge_weight: "ok s \<Longrightarrow> ok t \<Longrightarrow> weight (merge s t) b = weight s b + weight t b"
    and observe_total: "ok s \<Longrightarrow> total (observe v s) = total s + 1"
    and merge_total: "ok s \<Longrightarrow> ok t \<Longrightarrow> total (merge s t) = total s + total t"
begin

definition observe_all :: "'v list \<Rightarrow> 's \<Rightarrow> 's" where "observe_all vs s = fold observe vs s"

lemma observe_all_ok: "ok s \<Longrightarrow> ok (observe_all vs s)"
  by (induction vs arbitrary: s) (simp_all add: observe_all_def observe_ok)

lemma observe_all_weight:
  "ok s \<Longrightarrow> weight (observe_all vs s) b = weight s b + of_nat (count_list (map bin vs) b)"
proof (induction vs arbitrary: s)
  case (Cons v vs)
  have "observe_all (v # vs) s = observe_all vs (observe v s)" by (simp add: observe_all_def)
  with Cons show ?case by (simp add: observe_ok observe_weight)
qed (simp add: observe_all_def)

lemma observe_all_total: "ok s \<Longrightarrow> total (observe_all vs s) = total s + of_nat (length vs)"
proof (induction vs arbitrary: s)
  case (Cons v vs)
  have "observe_all (v # vs) s = observe_all vs (observe v s)" by (simp add: observe_all_def)
  with Cons show ?case by (simp add: observe_ok observe_total)
qed (simp add: observe_all_def)

text \<open>Sketching the parts of a stream and merging is sketching the stream.\<close>

lemma merge_is_append:
  assumes "ok s" "ok e" "\<And>b. weight e b = 0" "total e = 0"
  shows "weight (merge (observe_all vs s) (observe_all ws e)) b = weight (observe_all (vs @ ws) s) b"
    and "total (merge (observe_all vs s) (observe_all ws e)) = total (observe_all (vs @ ws) s)"
  using assms by (simp_all add: merge_weight merge_total observe_all_ok observe_all_weight
      observe_all_total)

end

section \<open>The timestamp histogram\<close>

record ts_hist =
  th_bins :: "(w64 \<times> w64) list"
  th_total :: w64

definition BIN_WIDTH_US :: w64 where "BIN_WIDTH_US = 100000"

definition ts_bin_index :: "w64 \<Rightarrow> w64" where "ts_bin_index ts = ts div BIN_WIDTH_US"

definition ts_empty :: ts_hist where "ts_empty = \<lparr>th_bins = [], th_total = 0\<rparr>"

fun bump_bin :: "w64 \<Rightarrow> (w64 \<times> w64) list \<Rightarrow> (w64 \<times> w64) list" where
  "bump_bin idx [] = [(idx, 1)]"
| "bump_bin idx ((i, c) # bs) =
     (if i < idx then (i, c) # bump_bin idx bs
      else if i = idx then (i, c + 1) # bs
      else (idx, 1) # (i, c) # bs)"

definition ts_add :: "w64 \<Rightarrow> ts_hist \<Rightarrow> ts_hist" where
  "ts_add ts h = \<lparr>th_bins = bump_bin (ts_bin_index ts) (th_bins h), th_total = th_total h + 1\<rparr>"

fun merge_bins :: "(w64 \<times> w64) list \<Rightarrow> (w64 \<times> w64) list \<Rightarrow> (w64 \<times> w64) list" where
  "merge_bins [] bs = bs"
| "merge_bins as [] = as"
| "merge_bins ((i, c) # as) ((j, d) # bs) =
     (if i < j then (i, c) # merge_bins as ((j, d) # bs)
      else if j < i then (j, d) # merge_bins ((i, c) # as) bs
      else (i, c + d) # merge_bins as bs)"

definition ts_merge :: "ts_hist \<Rightarrow> ts_hist \<Rightarrow> ts_hist" where
  "ts_merge h other =
     (if th_bins other = [] then h
      else \<lparr>th_bins = merge_bins (th_bins h) (th_bins other), th_total = th_total h + th_total other\<rparr>)"

definition ts_count_in_range :: "ts_hist \<Rightarrow> w64 \<Rightarrow> w64 \<Rightarrow> w64" where
  "ts_count_in_range h s e =
     (if th_bins h = [] \<or> e \<le> s then 0
      else let start_bin = ts_bin_index s; end_bin = ts_bin_index (e - 1);
               bs = takeWhile (\<lambda>(i, c). i \<le> end_bin) (dropWhile (\<lambda>(i, c). i < start_bin) (th_bins h))
           in sum_list (map snd bs))"

subsection \<open>Varints\<close>

function encode_varint :: "w64 \<Rightarrow> bytes" where
  "encode_varint v =
     (if 0x80 \<le> v then ucast (v OR 0x80) # encode_varint (drop_bit 7 v) else [ucast v])"
  by pat_completeness auto
termination
proof (relation "measure unat", goal_cases)
  case (2 v)
  then have "0x80 \<le> unat v" by (simp add: word_le_nat_alt)
  moreover have "unat (drop_bit 7 v) = unat v div 2 ^ 7" by (simp add: drop_bit_eq_div unat_div)
  ultimately show ?case by simp
qed simp

declare encode_varint.simps [simp del]

text \<open>\<open>decode_varint shift result data\<close>: the value and the unread bytes. A shift of 64 or more,
  undefined in C++ and reached only by an over-long varint, contributes nothing here.\<close>

fun decode_varint_from :: "nat \<Rightarrow> w64 \<Rightarrow> bytes \<Rightarrow> w64 \<times> bytes" where
  "decode_varint_from shift result [] = (result, [])"
| "decode_varint_from shift result (b # data) =
     (let result = result OR push_bit shift (ucast (b AND 0x7F))
      in if b AND 0x80 = 0 then (result, data) else decode_varint_from (shift + 7) result data)"

definition decode_varint :: "bytes \<Rightarrow> w64 \<times> bytes" where
  "decode_varint data = decode_varint_from 0 0 data"

fun encode_bins :: "w64 \<Rightarrow> (w64 \<times> w64) list \<Rightarrow> bytes" where
  "encode_bins prev [] = []"
| "encode_bins prev ((i, c) # bs) = encode_varint (i - prev) @ encode_varint c @ encode_bins i bs"

definition ts_serialize :: "ts_hist \<Rightarrow> bytes" where
  "ts_serialize h =
     encode_varint (th_total h) @ encode_varint (of_nat (length (th_bins h))) @ encode_bins 0 (th_bins h)"

fun decode_bins :: "nat \<Rightarrow> w64 \<Rightarrow> bytes \<Rightarrow> (w64 \<times> w64) list" where
  "decode_bins 0 prev data = []"
| "decode_bins (Suc n) prev data =
     (if data = [] then []
      else let (delta, data) = decode_varint data; (c, data) = decode_varint data; prev = prev + delta
           in (prev, c) # decode_bins n prev data)"

definition ts_deserialize :: "bytes \<Rightarrow> ts_hist" where
  "ts_deserialize data =
     (if data = [] then ts_empty
      else let (total, data) = decode_varint data; (n, data) = decode_varint data
           in \<lparr>th_bins = decode_bins (unat n) 0 data, th_total = total\<rparr>)"

section \<open>The log2 histogram\<close>

record log2_hist =
  lh_bins :: "w64 list"
  lh_total :: w64

definition NUM_BINS :: nat where "NUM_BINS = 65"

definition log2_empty :: log2_hist where "log2_empty = \<lparr>lh_bins = replicate NUM_BINS 0, lh_total = 0\<rparr>"

definition log2_bin_index :: "w64 \<Rightarrow> nat" where "log2_bin_index v = bit_len (unat v)"

definition log2_bin_lower :: "nat \<Rightarrow> w64" where
  "log2_bin_lower b = (if b = 0 then 0 else if b = 1 then 1 else push_bit (b - 1) 1)"

definition log2_bin_upper :: "nat \<Rightarrow> w64" where
  "log2_bin_upper b = (if b = 0 then 0 else if 64 \<le> b then - 1 else push_bit b 1)"

definition log2_add :: "w64 \<Rightarrow> w64 \<Rightarrow> log2_hist \<Rightarrow> log2_hist" where
  "log2_add v n h =
     (let i = log2_bin_index v
      in \<lparr>lh_bins = (lh_bins h)[i := lh_bins h ! i + n], lh_total = lh_total h + n\<rparr>)"

definition log2_merge :: "log2_hist \<Rightarrow> log2_hist \<Rightarrow> log2_hist" where
  "log2_merge h other =
     \<lparr>lh_bins = map2 (+) (lh_bins h) (lh_bins other), lh_total = lh_total h + lh_total other\<rparr>"

text \<open>\<^verbatim>\<open>from_json\<close> behind the JSON parser: elements that are not a pair of \<^verbatim>\<open>uint64\<close> are skipped.\<close>

fun json_u64 :: "json \<Rightarrow> u64 option" where
  "json_u64 (JNum n) = dom_u64 n" | "json_u64 _ = None"

definition log2_from_pair :: "json \<Rightarrow> log2_hist \<Rightarrow> log2_hist" where
  "log2_from_pair p h =
     (case p of
        JArray [a, b] \<Rightarrow>
          (case (json_u64 a, json_u64 b) of
             (Some i, Some c) \<Rightarrow>
               if i < NUM_BINS
               then \<lparr>lh_bins = (lh_bins h)[i := lh_bins h ! i + of_nat c], lh_total = lh_total h + of_nat c\<rparr>
               else h
           | _ \<Rightarrow> h)
      | _ \<Rightarrow> h)"

definition log2_from_json :: "json_value \<Rightarrow> log2_hist" where
  "log2_from_json v =
     (case v of Some (JArray ps) \<Rightarrow> fold log2_from_pair ps log2_empty | _ \<Rightarrow> log2_empty)"

text \<open>The array that \<^verbatim>\<open>to_json\<close> prints: the non-empty bins as pairs.\<close>

definition log2_pairs :: "log2_hist \<Rightarrow> (nat \<times> w64) list" where
  "log2_pairs h = filter (\<lambda>(i, c). c \<noteq> 0) (enumerate 0 (lh_bins h))"

fun pairs_json_text :: "(nat \<times> w64) list \<Rightarrow> string" where
  "pairs_json_text [] = []"
| "pairs_json_text ((i, c) # ps) =
     ''['' @ show_nat i @ '','' @ show_nat (unat c) @ '']''
     @ (if ps = [] then [] else '','' @ pairs_json_text ps)"

definition log2_to_json :: "log2_hist \<Rightarrow> string" where
  "log2_to_json h = ''['' @ pairs_json_text (log2_pairs h) @ '']''"

text \<open>\<^verbatim>\<open>format_count\<close>: a comma before every group of three digits.\<close>

fun group_digits :: "bool \<Rightarrow> string \<Rightarrow> string" where
  "group_digits first [] = []"
| "group_digits first (c # cs) =
     (if \<not> first \<and> (length cs + 1) mod 3 = 0 then [CHR '',''] else []) @ c # group_digits False cs"

definition format_count :: "nat \<Rightarrow> string" where
  "format_count n = (if n < 1000 then show_nat n else group_digits True (show_nat n))"


section \<open>The timestamp histogram counts\<close>

definition sorted_bins :: "(w64 \<times> w64) list \<Rightarrow> bool" where
  "sorted_bins bs \<longleftrightarrow> sorted_wrt (<) (map fst bs)"

definition bin_weight :: "(w64 \<times> w64) list \<Rightarrow> w64 \<Rightarrow> w64" where
  "bin_weight bs i = (case map_of bs i of None \<Rightarrow> 0 | Some c \<Rightarrow> c)"

definition ts_ok :: "ts_hist \<Rightarrow> bool" where
  "ts_ok h \<longleftrightarrow> sorted_bins (th_bins h) \<and> th_total h = sum_list (map snd (th_bins h))"

lemma sorted_bins_Cons: "sorted_bins ((i, c) # bs) \<longleftrightarrow> sorted_bins bs \<and> (\<forall>j \<in> fst ` set bs. i < j)"
  by (auto simp: sorted_bins_def)

lemma bin_weight_above: "\<forall>j \<in> fst ` set bs. (i :: w64) < j \<Longrightarrow> map_of bs i = None"
  unfolding map_of_eq_None_iff by blast

lemma bump_bin_fst: "fst ` set (bump_bin i bs) = insert i (fst ` set bs)"
  by (induction i bs rule: bump_bin.induct) auto

lemma bump_bin_spec:
  "sorted_bins bs \<Longrightarrow> sorted_bins (bump_bin i bs)
    \<and> bin_weight (bump_bin i bs) b = bin_weight bs b + (if b = i then 1 else 0)
    \<and> sum_list (map snd (bump_bin i bs)) = sum_list (map snd bs) + 1"
proof (induction i bs rule: bump_bin.induct)
  case (2 idx i c bs)
  consider "i < idx" | "i = idx" | "idx < i" by (rule linorder_cases)
  then show ?case
  proof cases
    case 1
    with 2 show ?thesis by (auto simp: sorted_bins_Cons bump_bin_fst bin_weight_def)
  next
    case 2
    with "2.prems" show ?thesis by (auto simp: sorted_bins_Cons bin_weight_def)
  next
    case 3
    with "2.prems" have "map_of bs idx = None"
      by (intro bin_weight_above) (force simp: sorted_bins_Cons)
    with 3 "2.prems" show ?thesis by (force simp: sorted_bins_Cons bin_weight_def)
  qed
qed (simp add: sorted_bins_def bin_weight_def)

lemma merge_bins_fst: "fst ` set (merge_bins as bs) = fst ` set as \<union> fst ` set bs"
  by (induction as bs rule: merge_bins.induct) auto

lemma merge_bins_spec:
  "sorted_bins as \<Longrightarrow> sorted_bins bs \<Longrightarrow> sorted_bins (merge_bins as bs)
    \<and> bin_weight (merge_bins as bs) b = bin_weight as b + bin_weight bs b
    \<and> sum_list (map snd (merge_bins as bs)) = sum_list (map snd as) + sum_list (map snd bs)"
proof (induction as bs rule: merge_bins.induct)
  case (3 i c as j d bs)
  consider "i < j" | "j < i" | "i = j" by (meson linorder_cases)
  then show ?case
  proof cases
    case 1
    then have "map_of ((j, d) # bs) i = None"
      using "3.prems"(2) by (intro bin_weight_above) (force simp: sorted_bins_Cons)
    with 1 3 show ?thesis
      by (force simp: sorted_bins_Cons merge_bins_fst bin_weight_def)
  next
    case 2
    then have "map_of ((i, c) # as) j = None"
      using "3.prems"(1) by (intro bin_weight_above) (force simp: sorted_bins_Cons)
    with 2 3 show ?thesis
      by (force simp: sorted_bins_Cons merge_bins_fst bin_weight_def)
  next
    case 3
    with "3.prems" "3.IH"(3) show ?thesis
      by (auto simp: sorted_bins_Cons merge_bins_fst bin_weight_def)
  qed
qed (auto simp: sorted_bins_def bin_weight_def)

lemma ts_ok_empty: "ts_ok ts_empty"
  by (simp add: ts_ok_def ts_empty_def sorted_bins_def)

interpretation ts: counting_sketch ts_add ts_merge "\<lambda>h. bin_weight (th_bins h)" th_total ts_bin_index ts_ok
proof unfold_locales
  fix s t :: ts_hist and v b :: w64
  assume s: "ts_ok s"
  then have sb: "sorted_bins (th_bins s)" by (simp add: ts_ok_def)
  show "ts_ok (ts_add v s)" "bin_weight (th_bins (ts_add v s)) b
      = bin_weight (th_bins s) b + (if b = ts_bin_index v then 1 else 0)" "th_total (ts_add v s) = th_total s + 1"
    using bump_bin_spec [OF sb, of "ts_bin_index v" b] s by (simp_all add: ts_ok_def ts_add_def)
  assume t: "ts_ok t"
  then have "sorted_bins (th_bins t)" by (simp add: ts_ok_def)
  from merge_bins_spec [OF sb this, of b] s t
  show "ts_ok (ts_merge s t)" "bin_weight (th_bins (ts_merge s t)) b
      = bin_weight (th_bins s) b + bin_weight (th_bins t) b"
    "th_total (ts_merge s t) = th_total s + th_total t"
    by (simp_all add: ts_ok_def ts_merge_def bin_weight_def)
qed

section \<open>The log2 histogram counts\<close>

definition log2_ok :: "log2_hist \<Rightarrow> bool" where
  "log2_ok h \<longleftrightarrow> length (lh_bins h) = NUM_BINS \<and> lh_total h = sum_list (lh_bins h)"

definition log2_weight :: "log2_hist \<Rightarrow> nat \<Rightarrow> w64" where
  "log2_weight h b = (if b < length (lh_bins h) then lh_bins h ! b else 0)"

lemma log2_bin_index_bound: "log2_bin_index v < NUM_BINS"
proof -
  have "unat v < 2 ^ LENGTH(64)" by (rule unsigned_less)
  then have "bit_len (unat v) \<le> 64" by (intro bit_len_le) simp
  then show ?thesis by (simp add: log2_bin_index_def NUM_BINS_def)
qed

lemma sum_list_update_word: "i < length (xs :: w64 list) \<Longrightarrow> sum_list (xs[i := xs ! i + n]) = sum_list xs + n"
  by (induction xs arbitrary: i) (auto simp: nth_Cons add.assoc add.left_commute split: nat.splits)

lemma sum_list_map2_word: "length xs = length (ys :: w64 list) \<Longrightarrow> sum_list (map2 (+) xs ys) = sum_list xs + sum_list ys"
  by (induction xs ys rule: list_induct2) (simp_all add: algebra_simps)

lemma log2_add_spec:
  assumes "log2_ok h"
  shows "log2_ok (log2_add v n h)"
    "log2_weight (log2_add v n h) b = log2_weight h b + (if b = log2_bin_index v then n else 0)"
    "lh_total (log2_add v n h) = lh_total h + n"
  using assms log2_bin_index_bound [of v]
  by (auto simp: log2_ok_def log2_add_def Let_def log2_weight_def sum_list_update_word)

lemma log2_merge_spec:
  assumes "log2_ok h" "log2_ok k"
  shows "log2_ok (log2_merge h k)" "log2_weight (log2_merge h k) b = log2_weight h b + log2_weight k b"
    "lh_total (log2_merge h k) = lh_total h + lh_total k"
  using assms by (auto simp: log2_ok_def log2_merge_def log2_weight_def sum_list_map2_word)

interpretation log2: counting_sketch "\<lambda>v. log2_add v 1" log2_merge log2_weight lh_total log2_bin_index log2_ok
  by unfold_locales (simp_all add: log2_add_spec log2_merge_spec)

section \<open>Varints round-trip\<close>

lemma bit_0x80: "bit (0x80 :: w8) n \<longleftrightarrow> n = 7" "bit (0x80 :: w64) n \<longleftrightarrow> n = 7" "bit (0x80 :: int) n \<longleftrightarrow> n = 7"
proof -
  have "bit (2 ^ 7 :: w8) n \<longleftrightarrow> n = 7" "bit (2 ^ 7 :: w64) n \<longleftrightarrow> n = 7" "bit (2 ^ 7 :: int) n \<longleftrightarrow> n = 7"
    by (auto simp only: bit_exp_iff) (simp_all add: exp_eq_zero_iff)
  then show "bit (0x80 :: w8) n \<longleftrightarrow> n = 7" "bit (0x80 :: w64) n \<longleftrightarrow> n = 7" "bit (0x80 :: int) n \<longleftrightarrow> n = 7"
    by simp_all
qed

lemma bit_0x7F: "bit (0x7F :: w8) n \<longleftrightarrow> n < 7" "bit (0x7F :: w64) n \<longleftrightarrow> n < 7" "bit (0x7F :: int) n \<longleftrightarrow> n < 7"
proof -
  have "(0x7F :: w8) = Bit_Operations.mask 7" "(0x7F :: w64) = Bit_Operations.mask 7"
    "(0x7F :: int) = Bit_Operations.mask 7"
    by (simp_all add: mask_eq_exp_minus_1)
  then show "bit (0x7F :: w8) n \<longleftrightarrow> n < 7" "bit (0x7F :: w64) n \<longleftrightarrow> n < 7" "bit (0x7F :: int) n \<longleftrightarrow> n < 7"
    by (auto simp only: bit_mask_iff) simp_all
qed

lemmas byte_bits = bit_0x80 bit_0x7F bit_and_iff bit_or_iff bit_ucast_iff bit_take_bit_iff bit_push_bit_iff
  bit_drop_bit_eq o_def

lemma varint_more:
  "(ucast (v OR 0x80) :: w8) AND 0x80 \<noteq> 0"
  "(ucast ((ucast (v OR 0x80) :: w8) AND 0x7F) :: w64) = take_bit 7 (v :: w64)"
proof -
  have "bit ((ucast (v OR 0x80) :: w8) AND 0x80) 7"
    by (simp add: byte_bits)
  then show "(ucast (v OR 0x80) :: w8) AND 0x80 \<noteq> 0" by (metis bit_0_eq bot_apply bot_bool_def)
  show "(ucast ((ucast (v OR 0x80) :: w8) AND 0x7F) :: w64) = take_bit 7 v"
    by (rule bit_word_eqI) (auto simp: byte_bits)
qed

lemma varint_last:
  assumes "\<not> (0x80 :: w64) \<le> v"
  shows "(ucast v :: w8) AND 0x80 = 0" "(ucast ((ucast v :: w8) AND 0x7F) :: w64) = v"
proof -
  have "unat v < 2 ^ 7" using assms by (simp add: word_le_nat_alt)
  then have "take_bit 7 (unat v) = unat v" by (simp add: take_bit_nat_eq_self)
  then have t: "take_bit 7 v = v" by (metis unsigned_take_bit_eq word_unat_eq_iff)
  then have hi: "bit v n \<Longrightarrow> n < 7" for n by (metis bit_take_bit_iff)
  then have lo: "bit v n \<Longrightarrow> n < 8" for n by fastforce
  show "(ucast v :: w8) AND 0x80 = 0"
    by (rule bit_word_eqI) (auto simp: byte_bits dest: hi)
  show "(ucast ((ucast v :: w8) AND 0x7F) :: w64) = v"
    by (rule bit_word_eqI) (auto simp: byte_bits dest: hi lo)
qed

lemma push_split: "push_bit k (take_bit 7 v) OR push_bit (k + 7) (drop_bit 7 v) = push_bit k (v :: w64)"
proof (rule bit_word_eqI)
  fix n assume "n < LENGTH(64)"
  then show "bit (push_bit k (take_bit 7 v) OR push_bit (k + 7) (drop_bit 7 v)) n = bit (push_bit k v) n"
    by (cases "n < k + 7") (auto simp: byte_bits)
qed

lemma decode_encode_from:
  "decode_varint_from k r (encode_varint v @ rest) = (r OR push_bit k v, rest)"
proof (induction v arbitrary: k r rule: encode_varint.induct)
  case (1 v)
  show ?case
  proof (cases "0x80 \<le> v")
    case True
    then have "encode_varint v = ucast (v OR 0x80) # encode_varint (drop_bit 7 v)"
      by (subst encode_varint.simps) simp
    with "1.IH" [OF True] varint_more [of v] show ?thesis
      by (simp add: Let_def or.assoc push_split)
  next
    case False
    then have "encode_varint v = [ucast v]" by (subst encode_varint.simps) simp
    with varint_last [OF False] show ?thesis by (simp add: Let_def)
  qed
qed

lemma decode_encode_varint [codec_simps]: "decode_varint (encode_varint v @ rest) = (v, rest)"
  by (simp add: decode_varint_def decode_encode_from)

lemma encode_varint_ne [simp]: "encode_varint v \<noteq> []"
  by (subst encode_varint.simps) simp

lemma encode_bins_decode: "decode_bins (length bs) prev (encode_bins prev bs) = bs"
  by (induction bs arbitrary: prev) (auto simp: codec_simps Let_def)

lemma ts_blob:
  assumes "length (th_bins h) < 2 ^ 64" shows "ts_deserialize (ts_serialize h) = h"
proof -
  have "unat (of_nat (length (th_bins h)) :: w64) = length (th_bins h)"
    using assms by (simp add: unat_of_nat take_bit_nat_eq_self)
  then show ?thesis
    by (simp add: ts_deserialize_def ts_serialize_def codec_simps Let_def encode_bins_decode)
qed

lemma encode_varint_length: "unat v < 2 ^ (7 * n) \<Longrightarrow> 0 < n \<Longrightarrow> length (encode_varint v) \<le> n"
proof (induction n arbitrary: v)
  case (Suc n)
  show ?case
  proof (cases "0x80 \<le> v")
    case True
    have "unat (drop_bit 7 v) = unat v div 2 ^ 7" by (simp add: drop_bit_eq_div unat_div)
    moreover have "unat v div 2 ^ 7 < 2 ^ (7 * n)"
      using Suc.prems(1) by (simp add: less_mult_imp_div_less power_add mult.commute)
    moreover have "0 < n"
    proof (rule ccontr)
      assume "\<not> 0 < n"
      with Suc.prems(1) True show False by (simp add: word_le_nat_alt)
    qed
    ultimately have "length (encode_varint (drop_bit 7 v)) \<le> n" using Suc.IH by simp
    with True show ?thesis by (subst encode_varint.simps) simp
  qed (subst encode_varint.simps, simp)
qed simp

section \<open>Range counts\<close>

definition range_sum :: "w64 \<Rightarrow> w64 \<Rightarrow> (w64 \<times> w64) list \<Rightarrow> w64" where
  "range_sum lo hi bs = sum_list (map snd (filter (\<lambda>(i, c). lo \<le> i \<and> i \<le> hi) bs))"

lemma range_bins_filter:
  "sorted_bins bs \<Longrightarrow> takeWhile (\<lambda>(i, c). i \<le> hi) (dropWhile (\<lambda>(i, c). i < lo) bs)
     = filter (\<lambda>(i, c). lo \<le> i \<and> i \<le> hi) bs"
proof (induction bs)
  case (Cons b bs)
  obtain i c where b: "b = (i, c)" by (cases b)
  with Cons.prems have s: "sorted_bins bs" "\<forall>j \<in> fst ` set bs. i < j" by (simp_all add: sorted_bins_Cons)
  show ?case
  proof (cases "i < lo")
    case True
    with Cons.IH s b show ?thesis by auto
  next
    case False
    with s(2) have "\<forall>(j, d) \<in> set bs. \<not> j < lo" by force
    then have d: "dropWhile (\<lambda>(i, c). i < lo) bs = bs" by (cases bs) auto
    show ?thesis
    proof (cases "i \<le> hi")
      case True
      with False Cons.IH s d b show ?thesis by auto
    next
      case hi: False
      with s(2) have "\<forall>(j, d) \<in> set bs. \<not> j \<le> hi" by force
      then have "filter (\<lambda>(i, c). lo \<le> i \<and> i \<le> hi) bs = []" by (force simp: filter_empty_conv)
      with False hi b show ?thesis by simp
    qed
  qed
qed simp

lemma range_sum_bump:
  "range_sum lo hi (bump_bin i bs) = range_sum lo hi bs + (if lo \<le> i \<and> i \<le> hi then 1 else 0)"
  by (induction i bs rule: bump_bin.induct) (auto simp: range_sum_def)

lemma range_sum_observed:
  "range_sum lo hi (th_bins (ts.observe_all vs h))
     = range_sum lo hi (th_bins h) + of_nat (length (filter (\<lambda>v. lo \<le> ts_bin_index v \<and> ts_bin_index v \<le> hi) vs))"
proof (induction vs arbitrary: h)
  case (Cons v vs)
  have s: "ts.observe_all (v # vs) h = ts.observe_all vs (ts_add v h)" by (simp add: ts.observe_all_def)
  show ?case unfolding s Cons.IH by (simp add: ts_add_def range_sum_bump)
qed (simp add: ts.observe_all_def)

lemma ts_count_range:
  assumes "ts_ok h" "s < e"
  shows "ts_count_in_range h s e = range_sum (ts_bin_index s) (ts_bin_index (e - 1)) (th_bins h)"
  using assms range_bins_filter
  by (auto simp: ts_count_in_range_def Let_def range_sum_def ts_ok_def)

lemma ts_bin_mono: "a \<le> b \<Longrightarrow> ts_bin_index a \<le> ts_bin_index b"
  by (simp add: ts_bin_index_def word_le_nat_alt unat_div div_le_mono)

section \<open>Log2 bins\<close>

lemma bit_len_bounds:
  assumes "0 < n" shows "2 ^ (bit_len n - 1) \<le> n" "n < 2 ^ bit_len n" "0 < bit_len n"
  using bit_len_lower [OF assms] bit_len_upper [of n] assms by (auto intro: ccontr)

lemma unat_exp:
  assumes "k < 64" shows "unat (push_bit k 1 :: w64) = 2 ^ k"
proof -
  have "(2 :: nat) ^ k < 2 ^ 64" using assms by (intro power_strict_increasing) simp_all
  then have "unat (of_nat (2 ^ k) :: w64) = 2 ^ k" by (simp only: unat_of_nat) (simp add: take_bit_nat_eq_self)
  then show ?thesis by (simp add: push_bit_eq_mult)
qed

lemma log2_bin_bounds:
  "log2_bin_lower (log2_bin_index v) \<le> v
    \<and> (if v = 0 then log2_bin_index v = 0 else if log2_bin_index v < 64 then v < log2_bin_upper (log2_bin_index v)
       else v \<le> log2_bin_upper (log2_bin_index v))"
proof -
  define k where "k = log2_bin_index v"
  have k: "bit_len (unat v) = k" "k \<le> 64"
    using log2_bin_index_bound [of v] by (simp_all add: k_def log2_bin_index_def NUM_BINS_def)
  show ?thesis
  proof (cases "v = 0")
    case True
    then show ?thesis by (simp add: log2_bin_lower_def log2_bin_index_def)
  next
    case False
    then have "0 < unat v" by (simp add: unat_gt_0)
    from bit_len_bounds [OF this] k
    have b: "2 ^ (k - 1) \<le> unat v" "unat v < 2 ^ k" "0 < k" by simp_all
    have "log2_bin_lower k = push_bit (k - 1) 1" using b(3) by (simp add: log2_bin_lower_def)
    moreover have "log2_bin_upper k = (if k < 64 then push_bit k 1 else - 1)"
      using b(3) k(2) by (simp add: log2_bin_upper_def)
    ultimately show ?thesis
      unfolding k_def [symmetric]
      using False b k(2) unat_exp [of k] unat_exp [of "k - 1"]
      by (auto simp: word_le_nat_alt [of "push_bit _ 1"] word_less_nat_alt log2_bin_upper_def simp del: push_bit_of_1)
  qed
qed

lemma group_digits_text: "CHR '','' \<notin> set s \<Longrightarrow> filter (\<lambda>c. c \<noteq> CHR '','') (group_digits b s) = s"
  by (induction b s rule: group_digits.induct) auto

fun group_sizes :: "string \<Rightarrow> nat list" where
  "group_sizes [] = [0]"
| "group_sizes (c # cs) = (if c = CHR '','' then 0 # group_sizes cs
     else case group_sizes cs of n # ns \<Rightarrow> Suc n # ns)"

lemma group_sizes_digits:
  "CHR '','' \<notin> set s \<Longrightarrow>
    group_sizes (group_digits False s) = (length s mod 3) # replicate (length s div 3) 3"
proof (induction s)
  case (Cons c s)
  then have ih: "group_sizes (group_digits False s) = (length s mod 3) # replicate (length s div 3) 3" by simp
  have "length s mod 3 = 0 \<or> length s mod 3 = 1 \<or> length s mod 3 = 2" by linarith
  then show ?case using Cons.prems ih by (auto simp: mod_Suc div_Suc)
qed simp

lemma show_nat_no_comma: "CHR '','' \<notin> set (show_nat n)"
  using show_nat_digits [of n] by (auto simp: is_digit_def code_of_def)

lemma show_nat_length: "n < 10 ^ k \<Longrightarrow> 0 < k \<Longrightarrow> length (show_nat n) \<le> k"
proof (induction k arbitrary: n)
  case (Suc k)
  show ?case
  proof (cases "n < 10")
    case False
    with Suc.prems have "0 < k" "n div 10 < 10 ^ k" by (auto intro: ccontr)
    with Suc.IH False show ?thesis by (subst show_nat.simps) simp
  qed (subst show_nat.simps, simp)
qed simp

text \<open>
  \<^verbatim>\<open>format_count\<close> prints the decimal digits of the count with commas that leave groups of three
  digits after a first group of one to three.\<close>

theorem format_count_groups:
  "filter (\<lambda>c. c \<noteq> CHR '','') (format_count n) = show_nat n
    \<and> (\<exists>f k. group_sizes (format_count n) = f # replicate k 3 \<and> 1 \<le> f \<and> f \<le> 3)"
proof -
  obtain c cs where s: "show_nat n = c # cs" by (cases "show_nat n") (use show_nat_ne in auto)
  have nc: "CHR '','' \<notin> set (c # cs)" using show_nat_no_comma [of n] s by simp
  have g: "group_sizes (group_digits True (c # cs)) = Suc (length cs mod 3) # replicate (length cs div 3) 3"
    using nc group_sizes_digits [of cs] by auto
  have small: "group_sizes (c # cs) = Suc (length cs) # []"
  proof -
    have "CHR '','' \<notin> set w \<Longrightarrow> group_sizes w = [length w]" for w by (induction w) auto
    from this [of cs] nc show ?thesis by auto
  qed
  have "length cs \<le> 2" if "n < 1000" using show_nat_length [of n 3] that s by simp
  then have "\<exists>f k. group_sizes (format_count n) = f # replicate k 3 \<and> 1 \<le> f \<and> f \<le> 3"
    using s g small by (auto simp: format_count_def Suc_le_eq)
  moreover have "filter (\<lambda>c. c \<noteq> CHR '','') (format_count n) = show_nat n"
    using nc group_digits_text [of "show_nat n" True] s by (auto simp: format_count_def filter_id_conv)
  ultimately show ?thesis by blast
qed

section \<open>What the histograms guarantee\<close>

lemma range_sum_merge:
  "range_sum lo hi (merge_bins as bs) = range_sum lo hi as + range_sum lo hi bs"
  by (induction as bs rule: merge_bins.induct) (auto simp: range_sum_def)

definition ts_of :: "w64 list \<Rightarrow> ts_hist" where "ts_of vs = fold ts_add vs ts_empty"

lemma ts_of_observe: "ts_of vs = ts.observe_all vs ts_empty"
  by (simp add: ts_of_def ts.observe_all_def)

lemma ts_of_ok: "ts_ok (ts_of vs)"
  by (simp add: ts_of_observe ts.observe_all_ok ts_ok_empty)

lemma range_sum_merged:
  "range_sum lo hi (th_bins (ts_merge (ts_of vs) (ts_of ws)))
     = of_nat (length (filter (\<lambda>v. lo \<le> ts_bin_index v \<and> ts_bin_index v \<le> hi) (vs @ ws)))"
proof -
  have e: "range_sum lo hi (th_bins ts_empty) = 0" by (simp add: range_sum_def ts_empty_def)
  have "range_sum lo hi (th_bins (ts_merge (ts_of vs) (ts_of ws)))
      = range_sum lo hi (th_bins (ts_of vs)) + range_sum lo hi (th_bins (ts_of ws))"
    by (auto simp: ts_merge_def range_sum_merge) (simp add: range_sum_def)
  then show ?thesis by (simp add: ts_of_observe range_sum_observed e)
qed

text \<open>
  C19 Two partial timestamp histograms that were filled separately and merged answer a range query
  \<open>[s, e)\<close> with exactly the number of events of both streams whose bin overlaps the bins of the
  range, and so with at least the number of events in the range.\<close>

theorem ts_merged_range_count:
  assumes "s < e" "length vs + length ws < 2 ^ 64"
  shows "unat (ts_count_in_range (ts_merge (ts_of vs) (ts_of ws)) s e)
       = length (filter (\<lambda>v. ts_bin_index s \<le> ts_bin_index v \<and> ts_bin_index v \<le> ts_bin_index (e - 1)) (vs @ ws))
     \<and> length (filter (\<lambda>v. s \<le> v \<and> v < e) (vs @ ws))
       \<le> unat (ts_count_in_range (ts_merge (ts_of vs) (ts_of ws)) s e)"
proof -
  let ?P = "\<lambda>v. ts_bin_index s \<le> ts_bin_index v \<and> ts_bin_index v \<le> ts_bin_index (e - 1)"
  have le: "v \<le> e - 1" if "v < e" for v :: w64
  proof -
    have "0 < unat e" using that by (simp add: word_less_nat_alt)
    then have "unat (e - 1) = unat e - 1" by (simp add: unat_minus_one unat_gt_0)
    with that show ?thesis by (simp add: word_le_nat_alt word_less_nat_alt)
  qed
  have sub: "length (filter Q xs) \<le> length (filter P xs)" if "\<And>v. Q v \<Longrightarrow> P v" for P Q and xs :: "w64 list"
    using that by (induction xs) (auto intro: le_SucI)
  have b: "length (filter ?P (vs @ ws)) < 2 ^ 64"
    using assms(2) length_filter_le [of ?P "vs @ ws"] by (simp only: length_append)
  have "ts_count_in_range (ts_merge (ts_of vs) (ts_of ws)) s e = of_nat (length (filter ?P (vs @ ws)))"
    using ts_count_range [OF ts.merge_ok [OF ts_of_ok ts_of_ok] assms(1)] by (simp only: range_sum_merged)
  then have "unat (ts_count_in_range (ts_merge (ts_of vs) (ts_of ws)) s e) = length (filter ?P (vs @ ws))"
    using b by (simp only: unat_of_nat) (simp add: take_bit_nat_eq_self)
  moreover have "length (filter (\<lambda>v. s \<le> v \<and> v < e) (vs @ ws)) \<le> length (filter ?P (vs @ ws))"
    by (rule sub) (auto simp: ts_bin_mono le)
  ultimately show ?thesis by simp
qed

theorem ts_merged_range_count_witness:
  "unat (ts_count_in_range (ts_merge (ts_of [50000, 250000]) (ts_of [260000])) 200000 300001) = 2"
proof -
  have "(200000 :: w64) < 300001" "length [50000, 250000 :: w64] + length [260000 :: w64] < 2 ^ 64" by simp_all
  note ts_merged_range_count [OF this]
  moreover have "length (filter (\<lambda>v. ts_bin_index 200000 \<le> ts_bin_index v
      \<and> ts_bin_index v \<le> ts_bin_index (300001 - 1)) ([50000, 250000] @ [260000])) = 2" by code_simp
  ultimately show ?thesis by simp
qed

text \<open>
  The serialised blob of a timestamp histogram reads back as the histogram, whatever its bins and
  counts, and every varint in it takes at most ten bytes.\<close>

theorem ts_blob_roundtrip:
  assumes "length (th_bins h) < 2 ^ 64"
  shows "ts_deserialize (ts_serialize h) = h \<and> (\<forall>v. length (encode_varint v) \<le> 10)"
proof -
  have "length (encode_varint v) \<le> 10" for v
  proof (rule encode_varint_length)
    have "unat v < 2 ^ LENGTH(64)" by (rule unsigned_less)
    then show "unat v < 2 ^ (7 * 10)" by simp
  qed simp
  with ts_blob [OF assms] show ?thesis by simp
qed

theorem ts_blob_roundtrip_witness:
  "ts_deserialize (ts_serialize (ts_of [50000, 250000, 99999])) = ts_of [50000, 250000, 99999]"
proof -
  have "ts_of [50000, 250000, 99999] = \<lparr>th_bins = [(0, 2), (2, 1)], th_total = 3\<rparr>" by code_simp
  with ts_blob_roundtrip [of "ts_of [50000, 250000, 99999]"] show ?thesis by simp
qed

definition log2_of :: "w64 list \<Rightarrow> log2_hist" where "log2_of vs = fold (\<lambda>v. log2_add v 1) vs log2_empty"

lemma log2_of_observe: "log2_of vs = log2.observe_all vs log2_empty"
  by (simp add: log2_of_def log2.observe_all_def)

lemma log2_empty_ok: "log2_ok log2_empty" "log2_weight log2_empty b = 0" "lh_total log2_empty = 0"
  by (simp_all add: log2_ok_def log2_empty_def log2_weight_def sum_list_replicate)

lemma log2_of_ok: "log2_ok (log2_of vs)"
  by (simp add: log2_of_observe log2.observe_all_ok log2_empty_ok)

lemma log2_eqI:
  assumes "log2_ok h" "log2_ok k" "\<And>b. log2_weight h b = log2_weight k b"
  shows "h = k"
proof -
  have "lh_bins h ! b = lh_bins k ! b" if "b < NUM_BINS" for b
    using assms(3) [of b] assms(1,2) that by (simp add: log2_ok_def log2_weight_def)
  then have "lh_bins h = lh_bins k"
    using assms(1,2) by (intro nth_equalityI) (simp_all add: log2_ok_def)
  with assms(1,2) show ?thesis by (simp add: log2_ok_def)
qed

text \<open>
  Filling two log2 histograms separately and merging them is filling one with both streams; the
  counter of each bin is the number of values in it modulo \<open>2 ^ 64\<close>, and every value lies between
  the bounds that are reported for its bin.\<close>

theorem log2_merge_is_append:
  "log2_merge (log2_of vs) (log2_of ws) = log2_of (vs @ ws)
    \<and> (\<forall>b. log2_weight (log2_of vs) b = of_nat (count_list (map log2_bin_index vs) b))
    \<and> log2_bin_lower (log2_bin_index v) \<le> v \<and> v \<le> log2_bin_upper (log2_bin_index v)"
proof (intro conjI allI)
  show "log2_merge (log2_of vs) (log2_of ws) = log2_of (vs @ ws)"
    using log2.merge_is_append(1) [OF log2_empty_ok(1) log2_empty_ok]
    by (intro log2_eqI log2.merge_ok log2_of_ok) (simp add: log2_of_observe)
  show "log2_weight (log2_of vs) b = of_nat (count_list (map log2_bin_index vs) b)" for b
    by (simp add: log2_of_observe log2.observe_all_weight log2_empty_ok)
  show "log2_bin_lower (log2_bin_index v) \<le> v" using log2_bin_bounds [of v] by blast
  show "v \<le> log2_bin_upper (log2_bin_index v)"
    using log2_bin_bounds [of v] by (cases "v = 0") (auto simp: log2_bin_upper_def split: if_splits)
qed

definition pair_json :: "nat \<times> w64 \<Rightarrow> json" where
  "pair_json p = JArray [JNum (num_of_int (int (fst p))), JNum (num_of_int (int (unat (snd p))))]"

lemma log2_from_pair_json:
  "i < NUM_BINS \<Longrightarrow> log2_from_pair (pair_json (i, c)) h
     = \<lparr>lh_bins = (lh_bins h)[i := lh_bins h ! i + c], lh_total = lh_total h + c\<rparr>"
  by (simp add: log2_from_pair_def pair_json_def num_of_int_def)

lemma log2_from_pairs:
  assumes "length ys + length xs = NUM_BINS" "lh_bins h = ys @ replicate (length xs) 0"
  shows "fold log2_from_pair (map pair_json (filter (\<lambda>(i, c). c \<noteq> 0) (enumerate (length ys) xs))) h
     = \<lparr>lh_bins = ys @ xs, lh_total = lh_total h + sum_list xs\<rparr>"
  using assms
proof (induction xs arbitrary: ys h)
  case (Cons x xs)
  let ?h = "if x = 0 then h else log2_from_pair (pair_json (length ys, x)) h"
  have h: "?h = \<lparr>lh_bins = (ys @ [x]) @ replicate (length xs) 0, lh_total = lh_total h + x\<rparr>"
    using Cons.prems by (auto simp: log2_from_pair_json nth_append list_update_append)
  from Cons.IH [of "ys @ [x]" ?h] Cons.prems(1)
  have "fold log2_from_pair (map pair_json (filter (\<lambda>(i, c). c \<noteq> 0) (enumerate (length (ys @ [x])) xs))) ?h
     = \<lparr>lh_bins = (ys @ [x]) @ xs, lh_total = lh_total ?h + sum_list xs\<rparr>"
    by (simp add: h)
  then show ?case using h by (auto simp: add.assoc split: if_splits)
qed simp

text \<open>
  The array of non-empty bins that a log2 histogram prints, read as the JSON document it denotes,
  restores the histogram.\<close>

theorem log2_json_roundtrip:
  assumes "log2_ok h"
  shows "log2_from_json (Some (JArray (map pair_json (log2_pairs h)))) = h"
  using log2_from_pairs [of "[]" "lh_bins h" log2_empty] assms
  by (simp add: log2_from_json_def log2_pairs_def log2_ok_def log2_empty_def)

theorem log2_json_roundtrip_witness:
  "log2_from_json (Some (JArray (map pair_json (log2_pairs (log2_of [0, 7, 9, 7]))))) = log2_of [0, 7, 9, 7]"
  by (rule log2_json_roundtrip [OF log2_of_ok])

end
