(* ===== verification/Bloom.thy ===== *)
theory Bloom
  imports Cstd Bytes
begin

text \<open>
  The Bloom filters of \<^verbatim>\<open>trace/indexing/bloom_filter.{h,cpp}\<close> and
  \<^verbatim>\<open>trace/indexing/scalable_bloom_filter.{h,cpp}\<close>: a split block filter over a byte buffer, and a
  chain of such filters of growing capacity.

  The sizing formulas go through \<^verbatim>\<open>std::log\<close>, whose rounding the language does not fix: the two
  intermediate results are the parameter \<open>bloom_math\<close>; the clamping and rounding around them is the
  code's. The chain is sorted with \<open>sort_key\<close>, which is one of the orders \<^verbatim>\<open>std::sort\<close> may give to
  levels of equal capacity.

  The interface is the locale \<open>membership_filter\<close>: what has been added is reported. Both filters
  interpret it.
\<close>

record bloom_math =
  bm_bits :: "nat \<Rightarrow> f64 \<Rightarrow> nat"
  bm_hashes :: "nat \<Rightarrow> nat \<Rightarrow> nat"

section \<open>The interface of a membership filter\<close>

locale membership_filter =
  fixes add :: "'v \<Rightarrow> 'f \<Rightarrow> 'f"
    and contains :: "'f \<Rightarrow> 'v \<Rightarrow> bool"
    and ok :: "'f \<Rightarrow> bool"
  assumes add_ok: "ok f \<Longrightarrow> ok (add v f)"
    and add_contains: "ok f \<Longrightarrow> contains (add v f) v"
    and add_keeps: "ok f \<Longrightarrow> contains f w \<Longrightarrow> contains (add v f) w"
begin

definition add_all :: "'v list \<Rightarrow> 'f \<Rightarrow> 'f" where "add_all vs f = foldl (\<lambda>f v. add v f) f vs"

lemma add_all_ok: "ok f \<Longrightarrow> ok (add_all vs f)"
  by (induction vs arbitrary: f) (simp_all add: add_all_def add_ok)

lemma add_all_keeps: "ok f \<Longrightarrow> contains f w \<Longrightarrow> contains (add_all vs f) w"
  by (induction vs arbitrary: f) (simp_all add: add_all_def add_ok add_keeps)

lemma add_all_contains: "ok f \<Longrightarrow> v \<in> set vs \<Longrightarrow> contains (add_all vs f) v"
proof (induction vs arbitrary: f)
  case (Cons w vs)
  have step: "add_all (w # vs) f = add_all vs (add w f)" by (simp add: add_all_def)
  show ?case
  proof (cases "v = w")
    case True
    then show ?thesis using Cons.prems by (simp add: step add_all_keeps add_ok add_contains)
  next
    case False
    with Cons show ?thesis by (simp add: step add_ok)
  qed
qed simp

end

text \<open>A filter that can also be united with another one.\<close>

locale mergeable_filter = membership_filter add contains ok
  for add :: "'v \<Rightarrow> 'f \<Rightarrow> 'f" and contains :: "'f \<Rightarrow> 'v \<Rightarrow> bool" and ok :: "'f \<Rightarrow> bool" +
  fixes merge :: "'f \<Rightarrow> 'f \<Rightarrow> 'e + 'f"
  assumes merge_ok: "ok f \<Longrightarrow> ok g \<Longrightarrow> merge f g = Inr h \<Longrightarrow> ok h"
    and merge_contains: "ok f \<Longrightarrow> ok g \<Longrightarrow> merge f g = Inr h \<Longrightarrow>
      contains f v \<or> contains g v \<Longrightarrow> contains h v"
begin

lemma merge_all_contains:
  assumes "ok f" "ok g" "merge (add_all vs f) (add_all ws g) = Inr h" "v \<in> set vs \<union> set ws"
  shows "contains h v"
  using assms merge_contains [OF add_all_ok add_all_ok] add_all_contains by blast

end

section \<open>The split block filter\<close>

definition HEADER_SIZE :: nat where "HEADER_SIZE = 12"
definition BLOCK_BYTES :: nat where "BLOCK_BYTES = 32"
definition BLOCK_BITS :: nat where "BLOCK_BITS = BLOCK_BYTES * 8"
definition BLOCK_WORDS :: nat where "BLOCK_WORDS = BLOCK_BYTES div 4"
definition LAST_VALUE_CAP :: nat where "LAST_VALUE_CAP = 64"

definition SALT :: "w32 list" where
  "SALT = [0x47b6137b, 0x44974d91, 0x8824ad5b, 0xa2b7289d,
           0x705495c7, 0x2df1424b, 0x9efc4947, 0x5c6bfb31]"

definition block_index :: "w64 \<Rightarrow> nat \<Rightarrow> nat" where
  "block_index h1 num_blocks = (unat h1 * num_blocks) div 2 ^ 64"

definition compute_block_mask :: "w64 \<Rightarrow> w32 list" where
  "compute_block_mask h2 =
     (let h32 = (ucast (h2 XOR drop_bit 32 h2) :: w32)
      in map (\<lambda>s. push_bit (unat (drop_bit 27 (h32 * s))) 1) SALT)"

definition compute_hashes :: "string \<Rightarrow> w64 \<times> w64" where
  "compute_hashes v =
     (let raw = hs_current (hasher_update hasher_reset v);
          h1 = raw;
          h1 = (h1 XOR drop_bit 30 h1) * SPLITMIX64_MUL1;
          h1 = (h1 XOR drop_bit 27 h1) * SPLITMIX64_MUL2;
          h1 = h1 XOR drop_bit 31 h1;
          h2 = raw + GOLDEN_RATIO;
          h2 = (h2 XOR drop_bit 30 h2) * SPLITMIX64_MUL1;
          h2 = (h2 XOR drop_bit 27 h2) * SPLITMIX64_MUL2;
          h2 = h2 XOR drop_bit 31 h2
      in (h1, h2))"

text \<open>\<open>bf_last_buf\<close> is the first \<^verbatim>\<open>last_value_size_\<close> bytes of the cache.\<close>

record bloom =
  bf_bits :: bytes
  bf_num_bits :: nat
  bf_num_hashes :: nat
  bf_num_entries :: nat
  bf_last_buf :: string
  bf_last_valid :: bool

definition optimal_num_bits :: "bloom_math \<Rightarrow> nat \<Rightarrow> f64 \<Rightarrow> nat" where
  "optimal_num_bits B n p =
     (let n = (if n = 0 then 1 else n);
          p = (if p \<le> 0 then 1 / 1000 else p);
          p = (if 1 \<le> p then 1 / 2 else p);
          m = max (bm_bits B n p) BLOCK_BITS
      in ((m + BLOCK_BITS - 1) div BLOCK_BITS) * BLOCK_BITS)"

definition optimal_num_hashes :: "bloom_math \<Rightarrow> nat \<Rightarrow> nat \<Rightarrow> nat" where
  "optimal_num_hashes B m n = (let n = (if n = 0 then 1 else n) in max (bm_hashes B m n) 1)"

definition new_bloom :: "bloom_math \<Rightarrow> nat \<Rightarrow> f64 \<Rightarrow> bloom" where
  "new_bloom B expected rate =
     (let nb = optimal_num_bits B expected rate
      in \<lparr>bf_bits = replicate (nb div 8) 0, bf_num_bits = nb,
          bf_num_hashes = optimal_num_hashes B nb expected, bf_num_entries = 0,
          bf_last_buf = [], bf_last_valid = False\<rparr>)"

text \<open>Word \<open>i\<close> of the block that the value's first hash selects, as a 32-bit word index.\<close>

definition block_word :: "nat \<Rightarrow> w64 \<Rightarrow> nat \<Rightarrow> nat" where
  "block_word num_bits h1 i = block_index h1 (num_bits div BLOCK_BITS) * BLOCK_WORDS + i"

definition bloom_add :: "string \<Rightarrow> bloom \<Rightarrow> bloom" where
  "bloom_add v f =
     (if bf_last_valid f \<and> v = bf_last_buf f
      then f\<lparr>bf_num_entries := bf_num_entries f + 1\<rparr>
      else
        let (h1, h2) = compute_hashes v; ms = compute_block_mask h2;
            f = f\<lparr>bf_bits := fold (\<lambda>i bs. let off = 4 * block_word (bf_num_bits f) h1 i
                               in store_u32 bs off (load_u32 bs off OR ms ! i))
                             [0..<BLOCK_WORDS] (bf_bits f),
                  bf_num_entries := bf_num_entries f + 1\<rparr>
        in if length v \<le> LAST_VALUE_CAP then f\<lparr>bf_last_buf := v, bf_last_valid := True\<rparr>
           else f\<lparr>bf_last_valid := False\<rparr>)"

definition bloom_contains :: "bloom \<Rightarrow> string \<Rightarrow> bool" where
  "bloom_contains f v =
     (let (h1, h2) = compute_hashes v; ms = compute_block_mask h2
      in list_all (\<lambda>i. load_u32 (bf_bits f) (4 * block_word (bf_num_bits f) h1 i) AND ms ! i
                        = ms ! i) [0..<BLOCK_WORDS])"

datatype bloom_error =
    IncompatibleParameters | HeaderTooSmall | TruncatedLevelHeader | TruncatedLevelPayload

text \<open>The words are or-ed eight bytes at a time; bytes behind the last whole word are left alone.\<close>

definition bloom_merge :: "bloom \<Rightarrow> bloom \<Rightarrow> bloom_error + bloom" where
  "bloom_merge f g =
     (if length (bf_bits f) \<noteq> length (bf_bits g) \<or> bf_num_bits f \<noteq> bf_num_bits g
         \<or> bf_num_hashes f \<noteq> bf_num_hashes g
      then Inl IncompatibleParameters
      else let n = 8 * (length (bf_bits f) div 8)
           in Inr (f\<lparr>bf_bits := take n (map2 (OR) (bf_bits f) (bf_bits g)) @ drop n (bf_bits f),
                     bf_num_entries := bf_num_entries f + bf_num_entries g\<rparr>))"

definition bloom_serialize :: "bloom \<Rightarrow> bytes" where
  "bloom_serialize f =
     write_u32_le (of_nat (bf_num_hashes f)) @ write_u32_le (of_nat (bf_num_entries f))
     @ write_u32_le (of_nat (bf_num_bits f)) @ bf_bits f"

definition bloom_from_blob :: "bytes \<Rightarrow> bloom_error + bloom" where
  "bloom_from_blob data =
     (if length data < HEADER_SIZE then Inl HeaderTooSmall
      else Inr \<lparr>bf_bits = drop HEADER_SIZE data,
                bf_num_bits = unat (read_u32_le (drop 8 data)),
                bf_num_hashes = unat (read_u32_le data),
                bf_num_entries = unat (read_u32_le (drop 4 data)),
                bf_last_buf = [], bf_last_valid = False\<rparr>)"

section \<open>No false negatives\<close>

text \<open>The bits of the buffer that a value sets and that a test of it reads.\<close>

definition value_bits :: "nat \<Rightarrow> string \<Rightarrow> nat set" where
  "value_bits num_bits v =
     (let (h1, h2) = compute_hashes v
      in {32 * block_word num_bits h1 i + n | i n.
            i < BLOCK_WORDS \<and> n < 32 \<and> bit (compute_block_mask h2 ! i) n})"

definition bloom_wf :: "bloom \<Rightarrow> bool" where
  "bloom_wf f \<longleftrightarrow> 0 < bf_num_bits f \<and> BLOCK_BITS dvd bf_num_bits f
     \<and> length (bf_bits f) = bf_num_bits f div 8"

definition bloom_ok :: "bloom \<Rightarrow> bool" where
  "bloom_ok f \<longleftrightarrow> bloom_wf f \<and> (bf_last_valid f \<longrightarrow> bloom_contains f (bf_last_buf f))"

lemma block_consts: "BLOCK_BITS = 256" "BLOCK_WORDS = 8" "BLOCK_BYTES = 32"
  by (simp_all add: BLOCK_BITS_def BLOCK_WORDS_def BLOCK_BYTES_def)

lemma block_word_bound:
  assumes "bloom_wf f" "i < BLOCK_WORDS"
  shows "4 * block_word (bf_num_bits f) h1 i + 4 \<le> length (bf_bits f)"
proof -
  let ?nb = "bf_num_bits f div BLOCK_BITS"
  have nb: "bf_num_bits f = 256 * ?nb" "0 < ?nb"
    using assms(1) by (auto simp: bloom_wf_def block_consts elim!: dvdE)
  have "unat h1 < 2 ^ LENGTH(64)" by (rule unsigned_less)
  then have "unat h1 < 2 ^ 64" by simp
  then have "unat h1 * ?nb < ?nb * 2 ^ 64" using nb(2) by (simp add: mult.commute)
  then have "block_index h1 ?nb < ?nb" unfolding block_index_def by (rule less_mult_imp_div_less)
  then have "block_index h1 ?nb * 8 + 8 \<le> 8 * ?nb" by linarith
  with assms(2) nb show ?thesis using assms(1) by (auto simp: bloom_wf_def block_word_def block_consts)
qed

lemma contains_iff: "bloom_contains f v \<longleftrightarrow> value_bits (bf_num_bits f) v \<subseteq> {k. tbit (bf_bits f) k}"
proof -
  obtain h1 h2 where h: "compute_hashes v = (h1, h2)" by (cases "compute_hashes v")
  let ?m = "compute_block_mask h2" and ?w = "block_word (bf_num_bits f) h1"
  have "load_u32 bs (4 * w) AND m = m \<longleftrightarrow> (\<forall>n < 32. bit m n \<longrightarrow> tbit bs (32 * w + n))" for bs w and m :: w32
    by (auto simp: bit_eq_iff bit_simps tbit_load dest: bit_imp_le_length)
  then have "bloom_contains f v \<longleftrightarrow>
      (\<forall>i < BLOCK_WORDS. \<forall>n < 32. bit (?m ! i) n \<longrightarrow> tbit (bf_bits f) (32 * ?w i + n))"
    by (simp add: bloom_contains_def h list_all_iff Let_def atLeast0LessThan Ball_def)
  also have "\<dots> \<longleftrightarrow> value_bits (bf_num_bits f) v \<subseteq> {k. tbit (bf_bits f) k}"
    unfolding value_bits_def h by auto
  finally show ?thesis .
qed


lemma tbit_store_or:
  assumes "4 * w + 4 \<le> length bs"
  shows "tbit (store_u32 bs (4 * w) (load_u32 bs (4 * w) OR m)) k
    \<longleftrightarrow> tbit bs k \<or> (k div 32 = w \<and> bit m (k mod 32))"
proof -
  have "bit (load_u32 bs (4 * w)) (k mod 32) = tbit bs k" if "k div 32 = w"
    using tbit_load [of "k mod 32" bs w] that by auto
  then show ?thesis by (auto simp: tbit_store [OF assms] bit_simps)
qed

definition or_words :: "(nat \<Rightarrow> nat) \<Rightarrow> w32 list \<Rightarrow> nat list \<Rightarrow> bytes \<Rightarrow> bytes" where
  "or_words w ms is bs =
     fold (\<lambda>i bs. let off = 4 * w i in store_u32 bs off (load_u32 bs off OR ms ! i)) is bs"

lemma or_words_spec:
  assumes "\<forall>i \<in> set is. 4 * w i + 4 \<le> length bs"
  shows "length (or_words w ms is bs) = length bs
    \<and> {k. tbit (or_words w ms is bs) k}
      = {k. tbit bs k} \<union> {32 * w i + n | i n. i \<in> set is \<and> n < 32 \<and> bit (ms ! i) n}"
  using assms
proof (induction "is" arbitrary: bs)
  case (Cons i js)
  let ?bs = "store_u32 bs (4 * w i) (load_u32 bs (4 * w i) OR ms ! i)"
  have t: "{k. tbit ?bs k} = {k. tbit bs k} \<union> {32 * w i + n | n. n < 32 \<and> bit (ms ! i) n}"
  proof -
    have "(k div 32 = w i \<and> bit (ms ! i) (k mod 32)) \<longleftrightarrow> (\<exists>n. k = 32 * w i + n \<and> n < 32 \<and> bit (ms ! i) n)" for k
    proof
      assume "k div 32 = w i \<and> bit (ms ! i) (k mod 32)"
      then show "\<exists>n. k = 32 * w i + n \<and> n < 32 \<and> bit (ms ! i) n"
        by (metis mult_div_mod_eq mod_less_divisor zero_less_numeral)
    qed auto
    then show ?thesis using Cons.prems by (auto simp: tbit_store_or)
  qed
  have s: "or_words w ms (i # js) bs = or_words w ms js ?bs" by (simp add: or_words_def Let_def)
  from Cons.IH [of ?bs] Cons.prems show ?case unfolding s using t by auto
qed (simp add: or_words_def)

lemma bloom_add_cases:
  "bloom_add v f =
     (if bf_last_valid f \<and> v = bf_last_buf f then f\<lparr>bf_num_entries := bf_num_entries f + 1\<rparr>
      else f\<lparr>bf_bits := or_words (block_word (bf_num_bits f) (fst (compute_hashes v)))
                 (compute_block_mask (snd (compute_hashes v))) [0..<BLOCK_WORDS] (bf_bits f),
             bf_num_entries := bf_num_entries f + 1,
             bf_last_buf := (if length v \<le> LAST_VALUE_CAP then v else bf_last_buf f),
             bf_last_valid := (length v \<le> LAST_VALUE_CAP)\<rparr>)"
  by (cases "compute_hashes v") (simp add: bloom_add_def or_words_def Let_def)

lemma bloom_add_bits:
  assumes "bloom_ok f"
  shows "bf_num_bits (bloom_add v f) = bf_num_bits f"
    "length (bf_bits (bloom_add v f)) = length (bf_bits f)"
    "{k. tbit (bf_bits (bloom_add v f)) k} = {k. tbit (bf_bits f) k} \<union> value_bits (bf_num_bits f) v"
proof -
  have wf: "bloom_wf f" using assms by (simp add: bloom_ok_def)
  show "bf_num_bits (bloom_add v f) = bf_num_bits f" by (simp add: bloom_add_cases)
  let ?w = "block_word (bf_num_bits f) (fst (compute_hashes v))"
  let ?m = "compute_block_mask (snd (compute_hashes v))"
  have o: "length (or_words ?w ?m [0..<BLOCK_WORDS] (bf_bits f)) = length (bf_bits f)
      \<and> {k. tbit (or_words ?w ?m [0..<BLOCK_WORDS] (bf_bits f)) k}
        = {k. tbit (bf_bits f) k} \<union> value_bits (bf_num_bits f) v"
    using or_words_spec [of "[0..<BLOCK_WORDS]" ?w "bf_bits f" ?m] block_word_bound [OF wf]
    by (auto simp: value_bits_def split: prod.splits)
  show "length (bf_bits (bloom_add v f)) = length (bf_bits f)" using o by (simp add: bloom_add_cases)
  show "{k. tbit (bf_bits (bloom_add v f)) k} = {k. tbit (bf_bits f) k} \<union> value_bits (bf_num_bits f) v"
  proof (cases "bf_last_valid f \<and> v = bf_last_buf f")
    case True
    then have "bloom_contains f v" using assms by (simp add: bloom_ok_def)
    then have "value_bits (bf_num_bits f) v \<subseteq> {k. tbit (bf_bits f) k}" by (simp add: contains_iff)
    with True show ?thesis by (auto simp: bloom_add_cases)
  next
    case False
    then show ?thesis using o by (auto simp: bloom_add_cases)
  qed
qed

lemma bloom_add_contains: "bloom_ok f \<Longrightarrow> bloom_contains (bloom_add v f) v"
  by (auto simp: contains_iff bloom_add_bits)

lemma bloom_add_keeps: "bloom_ok f \<Longrightarrow> bloom_contains f w \<Longrightarrow> bloom_contains (bloom_add v f) w"
  by (auto simp: contains_iff bloom_add_bits)

lemma bloom_add_ok: "bloom_ok f \<Longrightarrow> bloom_ok (bloom_add v f)"
proof -
  assume ok: "bloom_ok f"
  then have "bloom_wf (bloom_add v f)" using bloom_add_bits(1,2) [OF ok, of v] by (simp add: bloom_ok_def bloom_wf_def)
  moreover have "bloom_contains (bloom_add v f) (bf_last_buf (bloom_add v f))" if "bf_last_valid (bloom_add v f)"
    using that bloom_add_contains [OF ok, of v] ok
    by (auto simp: bloom_add_cases split: if_splits)
  ultimately show ?thesis by (simp add: bloom_ok_def)
qed

lemma new_bloom_ok: "bloom_ok (new_bloom B n p)"
proof -
  have "256 \<le> max (bm_bits B n' p') 256 + 255" for n' p' by simp
  then show ?thesis
    by (auto simp: bloom_ok_def bloom_wf_def new_bloom_def Let_def optimal_num_bits_def block_consts
        div_greater_zero_iff)
qed

lemma tbit_map2_or:
  assumes "length a = length b"
  shows "tbit (map2 (OR) a b) k \<longleftrightarrow> tbit a k \<or> tbit b k"
  using assms by (auto simp: tbit_def byte_at_def bit_simps)

lemma bloom_merge_bits:
  assumes "bloom_wf f" "bloom_merge f g = Inr h"
  shows "bf_num_bits h = bf_num_bits f" "bf_num_bits g = bf_num_bits f"
    "length (bf_bits h) = length (bf_bits f)"
    "tbit (bf_bits h) k \<longleftrightarrow> tbit (bf_bits f) k \<or> tbit (bf_bits g) k"
    "bf_last_buf h = bf_last_buf f" "bf_last_valid h = bf_last_valid f"
proof -
  have "length (bf_bits f) mod 8 = 0"
    using assms(1) by (auto simp: bloom_wf_def block_consts elim!: dvdE)
  then have n: "8 * (length (bf_bits f) div 8) = length (bf_bits f)" by auto
  from assms(2) have l: "length (bf_bits f) = length (bf_bits g)" and b: "bf_num_bits f = bf_num_bits g"
    and h: "h = f\<lparr>bf_bits := map2 (OR) (bf_bits f) (bf_bits g),
                  bf_num_entries := bf_num_entries f + bf_num_entries g\<rparr>"
    using n by (auto simp: bloom_merge_def Let_def split: if_splits)
  show "bf_num_bits h = bf_num_bits f" "bf_num_bits g = bf_num_bits f"
    "length (bf_bits h) = length (bf_bits f)" "bf_last_buf h = bf_last_buf f"
    "bf_last_valid h = bf_last_valid f" using l b by (simp_all add: h)
  show "tbit (bf_bits h) k \<longleftrightarrow> tbit (bf_bits f) k \<or> tbit (bf_bits g) k"
    using tbit_map2_or [OF l] by (simp add: h)
qed

lemma bloom_merge_contains:
  assumes "bloom_ok f" "bloom_merge f g = Inr h" "bloom_contains f v \<or> bloom_contains g v"
  shows "bloom_contains h v"
  using assms(3) bloom_merge_bits [OF _ assms(2)] assms(1) by (auto simp: contains_iff bloom_ok_def)

lemma bloom_merge_ok:
  assumes "bloom_ok f" "bloom_merge f g = Inr h" shows "bloom_ok h"
  using assms bloom_merge_bits [OF _ assms(2)] bloom_merge_contains [OF assms]
  by (auto simp: bloom_ok_def bloom_wf_def)

interpretation blm: mergeable_filter bloom_add bloom_contains bloom_ok bloom_merge
  by unfold_locales
     (auto intro: bloom_add_ok bloom_add_contains bloom_add_keeps bloom_merge_ok bloom_merge_contains)

section \<open>Serialization of the block filter\<close>

lemma read_u32_drop [simp]:
  "length a = 4 \<Longrightarrow> read_u32_le (drop 4 (a @ b)) = read_u32_le b"
  "length a = 4 \<Longrightarrow> length b = 4 \<Longrightarrow> read_u32_le (drop 8 (a @ b @ c)) = read_u32_le c"
  by simp_all

lemma bloom_blob:
  assumes "bf_num_hashes f < 2 ^ 32" "bf_num_entries f < 2 ^ 32" "bf_num_bits f < 2 ^ 32"
  shows "bloom_from_blob (bloom_serialize f) = Inr (f\<lparr>bf_last_buf := [], bf_last_valid := False\<rparr>)"
proof -
  have u: "unat (of_nat n :: w32) = n" if "n < 2 ^ 32" for n
    using that by (simp add: unat_of_nat take_bit_nat_eq_self)
  have "drop 12 (bloom_serialize f) = bf_bits f" by (simp add: bloom_serialize_def)
  then show ?thesis
    using assms by (simp add: bloom_from_blob_def HEADER_SIZE_def bloom_serialize_def codec_simps u)
qed

lemma bloom_wf_blob: "bloom_wf f \<Longrightarrow> bloom_ok (f\<lparr>bf_last_buf := [], bf_last_valid := False\<rparr>)"
  by (simp add: bloom_ok_def bloom_wf_def)

section \<open>The scalable filter\<close>

record level =
  lv_filter :: bloom
  lv_capacity :: nat
  lv_distinct :: nat

record scalable =
  sb_levels :: "level list"
  sb_initial :: nat
  sb_rate :: f64
  sb_distinct :: nat

definition MAGIC :: bytes where "MAGIC = [0x53, 0x42, 0x46, 0x31]"
definition CHAIN_HEADER_SIZE :: nat where "CHAIN_HEADER_SIZE = 8"
definition GROWTH_FACTOR :: nat where "GROWTH_FACTOR = 4"
definition TIGHTENING_RATIO :: f64 where "TIGHTENING_RATIO = 1 / 2"

definition open_level :: "bloom_math \<Rightarrow> nat \<Rightarrow> scalable \<Rightarrow> scalable" where
  "open_level B cap s =
     (let rate = foldl (\<lambda>r _. r * TIGHTENING_RATIO) (sb_rate s) (sb_levels s)
      in s\<lparr>sb_levels := sb_levels s @
             [\<lparr>lv_filter = new_bloom B cap rate, lv_capacity = cap, lv_distinct = 0\<rparr>]\<rparr>)"

definition new_scalable :: "bloom_math \<Rightarrow> nat \<Rightarrow> f64 \<Rightarrow> scalable" where
  "new_scalable B cap rate =
     (let cap = (if 0 < cap then cap else 1)
      in open_level B cap \<lparr>sb_levels = [], sb_initial = cap, sb_rate = rate, sb_distinct = 0\<rparr>)"

definition scalable_contains :: "scalable \<Rightarrow> string \<Rightarrow> bool" where
  "scalable_contains s v = list_ex (\<lambda>l. bloom_contains (lv_filter l) v) (sb_levels s)"

definition scalable_add :: "bloom_math \<Rightarrow> string \<Rightarrow> scalable \<Rightarrow> scalable" where
  "scalable_add B v s =
     (if scalable_contains s v then s
      else
        let active = last (sb_levels s);
            active = active\<lparr>lv_filter := bloom_add v (lv_filter active),
                            lv_distinct := lv_distinct active + 1\<rparr>;
            s = s\<lparr>sb_levels := butlast (sb_levels s) @ [active], sb_distinct := sb_distinct s + 1\<rparr>
        in if lv_capacity active \<le> lv_distinct active
           then open_level B (lv_capacity active * GROWTH_FACTOR) s else s)"

definition same_geometry :: "level \<Rightarrow> level \<Rightarrow> bool" where
  "same_geometry src dst \<longleftrightarrow>
     lv_capacity dst = lv_capacity src
     \<and> bf_num_bits (lv_filter dst) = bf_num_bits (lv_filter src)
     \<and> bf_num_hashes (lv_filter dst) = bf_num_hashes (lv_filter src)"

text \<open>One iteration of the merge loop: the first level of the same geometry, or a new level.\<close>

fun merge_level :: "level \<Rightarrow> level list \<Rightarrow> bloom_error + level list" where
  "merge_level src [] = Inr [src]"
| "merge_level src (dst # ls) =
     (if same_geometry src dst
      then ebind (bloom_merge (lv_filter dst) (lv_filter src))
             (\<lambda>h. Inr (dst\<lparr>lv_filter := h, lv_distinct := lv_distinct dst + lv_distinct src\<rparr> # ls))
      else ebind (merge_level src ls) (\<lambda>ls. Inr (dst # ls)))"

fun merge_levels :: "level list \<Rightarrow> level list \<Rightarrow> bloom_error + level list" where
  "merge_levels [] ls = Inr ls"
| "merge_levels (src # srcs) ls = ebind (merge_level src ls) (merge_levels srcs)"

definition scalable_merge :: "bloom_math \<Rightarrow> scalable \<Rightarrow> scalable \<Rightarrow> bloom_error + scalable" where
  "scalable_merge B s other =
     ebind (merge_levels (sb_levels other) (sb_levels s))
       (\<lambda>ls. let ls = sort_key lv_capacity ls;
                 s = s\<lparr>sb_levels := ls, sb_distinct := sb_distinct s + sb_distinct other\<rparr>
             in Inr (if lv_capacity (last ls) \<le> lv_distinct (last ls)
                     then open_level B (lv_capacity (last ls) * GROWTH_FACTOR) s else s))"

definition serialize_level :: "level \<Rightarrow> bytes" where
  "serialize_level l =
     (let blob = bloom_serialize (lv_filter l) in write_u32_le (of_nat (length blob)) @ blob)"

definition scalable_serialize :: "scalable \<Rightarrow> bytes" where
  "scalable_serialize s =
     MAGIC @ write_u32_le (of_nat (length (sb_levels s))) @ concat (map serialize_level (sb_levels s))"

definition has_chain_magic :: "bytes \<Rightarrow> bool" where
  "has_chain_magic data \<longleftrightarrow> CHAIN_HEADER_SIZE \<le> length data \<and> take 4 data = MAGIC"

definition blob_level :: "bloom \<Rightarrow> level" where
  "blob_level f =
     (let entries = bf_num_entries f
      in \<lparr>lv_filter = f, lv_capacity = (if 0 < entries then entries else 1), lv_distinct = entries\<rparr>)"

text \<open>The loop over the levels; \<open>data\<close> is what the cursor has not passed.\<close>

fun read_levels :: "nat \<Rightarrow> bytes \<Rightarrow> bloom_error + level list" where
  "read_levels 0 data = Inr []"
| "read_levels (Suc n) data =
     (if length data < 4 then Inl TruncatedLevelHeader
      else let size = unat (read_u32_le data); rest = drop 4 data
           in if length rest < size then Inl TruncatedLevelPayload
              else ebind (bloom_from_blob (take size rest))
                     (\<lambda>f. ebind (read_levels n (drop size rest)) (\<lambda>ls. Inr (blob_level f # ls))))"

definition scalable_from_blob :: "bloom_math \<Rightarrow> bytes \<Rightarrow> bloom_error + scalable" where
  "scalable_from_blob B data =
     (let s = \<lparr>sb_levels = [], sb_initial = 1024, sb_rate = 1 / 100, sb_distinct = 0\<rparr> in
      if \<not> has_chain_magic data then
        ebind (bloom_from_blob data)
          (\<lambda>f. Inr (s\<lparr>sb_levels := [blob_level f], sb_distinct := bf_num_entries f\<rparr>))
      else
        ebind (read_levels (unat (read_u32_le (drop 4 data))) (drop CHAIN_HEADER_SIZE data))
          (\<lambda>ls. let s = s\<lparr>sb_levels := ls, sb_distinct := sum_list (map lv_distinct ls)\<rparr>
                in Inr (if ls = [] then open_level B (sb_initial s) s else s)))"

section \<open>The chain reports what was added\<close>

definition scalable_ok :: "scalable \<Rightarrow> bool" where
  "scalable_ok s \<longleftrightarrow> sb_levels s \<noteq> [] \<and> (\<forall>l \<in> set (sb_levels s). bloom_ok (lv_filter l))"

lemma open_level_spec:
  "set (sb_levels (open_level B c s)) = set (sb_levels s) \<union> {last (sb_levels (open_level B c s))}"
  "bloom_ok (lv_filter (last (sb_levels (open_level B c s))))" "sb_levels (open_level B c s) \<noteq> []"
  by (auto simp: open_level_def Let_def new_bloom_ok)

lemma open_level_ok: "(\<forall>l \<in> set (sb_levels s). bloom_ok (lv_filter l)) \<Longrightarrow> scalable_ok (open_level B c s)"
  by (auto simp: scalable_ok_def open_level_def Let_def new_bloom_ok)

lemma open_level_keeps: "scalable_contains s v \<Longrightarrow> scalable_contains (open_level B c s) v"
  by (auto simp: scalable_contains_def open_level_def Let_def)

lemma new_scalable_ok: "scalable_ok (new_scalable B cap rate)"
  by (auto simp: new_scalable_def Let_def intro!: open_level_ok)

definition add_active :: "string \<Rightarrow> scalable \<Rightarrow> scalable" where
  "add_active v s =
     s\<lparr>sb_levels := butlast (sb_levels s) @
          [(last (sb_levels s))\<lparr>lv_filter := bloom_add v (lv_filter (last (sb_levels s))),
                                lv_distinct := lv_distinct (last (sb_levels s)) + 1\<rparr>],
       sb_distinct := sb_distinct s + 1\<rparr>"

lemma scalable_add_alt:
  "scalable_add B v s =
     (if scalable_contains s v then s
      else if lv_capacity (last (sb_levels s)) \<le> lv_distinct (last (sb_levels s)) + 1
           then open_level B (lv_capacity (last (sb_levels s)) * GROWTH_FACTOR) (add_active v s)
           else add_active v s)"
  by (simp add: scalable_add_def add_active_def Let_def)

lemma add_active_ok:
  assumes "scalable_ok s" shows "\<forall>l \<in> set (sb_levels (add_active v s)). bloom_ok (lv_filter l)"
    "sb_levels (add_active v s) \<noteq> []" "scalable_contains (add_active v s) v"
    "scalable_contains s w \<Longrightarrow> scalable_contains (add_active v s) w"
proof -
  obtain ls l where s: "sb_levels s = ls @ [l]" using assms by (cases "sb_levels s" rule: rev_cases) (auto simp: scalable_ok_def)
  have ok: "bloom_ok (lv_filter l)" using assms by (simp add: scalable_ok_def s)
  show "\<forall>l \<in> set (sb_levels (add_active v s)). bloom_ok (lv_filter l)"
    using assms ok by (auto simp: scalable_ok_def add_active_def s intro: blm.add_ok)
  show "sb_levels (add_active v s) \<noteq> []" by (simp add: add_active_def)
  show "scalable_contains (add_active v s) v"
    using ok by (simp add: scalable_contains_def add_active_def s blm.add_contains)
  show "scalable_contains s w \<Longrightarrow> scalable_contains (add_active v s) w"
    using ok by (auto simp: scalable_contains_def add_active_def s blm.add_keeps)
qed


lemma scalable_add_ok: "scalable_ok s \<Longrightarrow> scalable_ok (scalable_add B v s)"
proof -
  assume s: "scalable_ok s"
  note a = add_active_ok(1,2) [OF s, of v]
  from open_level_ok [OF a(1)] a s show ?thesis by (simp add: scalable_add_alt) (simp add: scalable_ok_def)
qed

lemma scalable_add_contains: "scalable_ok s \<Longrightarrow> scalable_contains (scalable_add B v s) v"
  using add_active_ok(3) [of s v] by (auto simp: scalable_add_alt intro: open_level_keeps)

lemma scalable_add_keeps:
  "scalable_ok s \<Longrightarrow> scalable_contains s w \<Longrightarrow> scalable_contains (scalable_add B v s) w"
  using add_active_ok(4) [of s w v] by (auto simp: scalable_add_alt intro: open_level_keeps)

definition levels_contain :: "level list \<Rightarrow> string \<Rightarrow> bool" where
  "levels_contain ls v \<longleftrightarrow> (\<exists>l \<in> set ls. bloom_contains (lv_filter l) v)"

definition levels_ok :: "level list \<Rightarrow> bool" where
  "levels_ok ls \<longleftrightarrow> (\<forall>l \<in> set ls. bloom_ok (lv_filter l))"

lemma scalable_contains_levels: "scalable_contains s v = levels_contain (sb_levels s) v"
  by (simp add: scalable_contains_def levels_contain_def list_ex_iff)

lemma merge_level_spec:
  assumes "merge_level src ls = Inr ls'" "levels_ok ls" "bloom_ok (lv_filter src)"
  shows "levels_ok ls' \<and> ls' \<noteq> [] \<and>
    (levels_contain ls v \<or> bloom_contains (lv_filter src) v \<longrightarrow> levels_contain ls' v)"
  using assms
proof (induction src ls arbitrary: ls' rule: merge_level.induct)
  case (2 src dst ls)
  show ?case
  proof (cases "same_geometry src dst")
    case True
    with "2.prems" obtain h where h: "bloom_merge (lv_filter dst) (lv_filter src) = Inr h"
        "ls' = dst\<lparr>lv_filter := h, lv_distinct := lv_distinct dst + lv_distinct src\<rparr> # ls"
      by (auto simp: ebind_Inr_conv)
    have "bloom_ok (lv_filter dst)" using "2.prems" by (simp add: levels_ok_def)
    with h "2.prems" blm.merge_ok [OF _ _ h(1)] blm.merge_contains [OF _ _ h(1)] show ?thesis
      by (auto simp: levels_ok_def levels_contain_def)
  next
    case False
    with "2.prems" obtain ks where ks: "merge_level src ls = Inr ks" "ls' = dst # ks"
      by (auto simp: ebind_Inr_conv)
    with False "2.IH" [OF False ks(1)] "2.prems" show ?thesis
      by (auto simp: levels_ok_def levels_contain_def)
  qed
qed (auto simp: levels_ok_def levels_contain_def)

lemma merge_levels_spec:
  assumes "merge_levels srcs ls = Inr ls'" "levels_ok ls" "levels_ok srcs" "ls \<noteq> []"
  shows "levels_ok ls' \<and> ls' \<noteq> [] \<and>
    (levels_contain ls v \<or> levels_contain srcs v \<longrightarrow> levels_contain ls' v)"
  using assms
proof (induction srcs ls arbitrary: ls' rule: merge_levels.induct)
  case (2 src srcs ls)
  then obtain ks where ks: "merge_level src ls = Inr ks" "merge_levels srcs ks = Inr ls'"
    by (auto simp: ebind_Inr_conv)
  have ok: "bloom_ok (lv_filter src)" "levels_ok srcs" using "2.prems" by (auto simp: levels_ok_def)
  from merge_level_spec [OF ks(1) "2.prems"(2) ok(1)] "2.IH" [OF ks(2) _ ok(2)]
  show ?case by (auto simp: levels_contain_def)
qed (auto simp: levels_contain_def)

lemma scalable_merge_spec:
  assumes "scalable_merge B s t = Inr u" "scalable_ok s" "scalable_ok t"
  shows "scalable_ok u \<and> (scalable_contains s v \<or> scalable_contains t v \<longrightarrow> scalable_contains u v)"
proof -
  from assms(1) obtain ls where ls: "merge_levels (sb_levels t) (sb_levels s) = Inr ls"
    and u: "u = (let ls' = sort_key lv_capacity ls;
                 s' = s\<lparr>sb_levels := ls', sb_distinct := sb_distinct s + sb_distinct t\<rparr>
             in if lv_capacity (last ls') \<le> lv_distinct (last ls')
                then open_level B (lv_capacity (last ls') * GROWTH_FACTOR) s' else s')"
    by (auto simp: scalable_merge_def ebind_Inr_conv Let_def)
  have "levels_ok (sb_levels s)" "levels_ok (sb_levels t)" "sb_levels s \<noteq> []"
    using assms(2,3) by (simp_all add: scalable_ok_def levels_ok_def)
  from merge_levels_spec [OF ls this, of v]
  have l: "levels_ok ls" "ls \<noteq> []"
    and c: "levels_contain (sb_levels s) v \<or> levels_contain (sb_levels t) v \<longrightarrow> levels_contain ls v"
    by auto
  let ?s = "s\<lparr>sb_levels := sort_key lv_capacity ls, sb_distinct := sb_distinct s + sb_distinct t\<rparr>"
  have ok: "scalable_ok ?s"
    using l by (simp add: scalable_ok_def levels_ok_def) (metis length_0_conv length_sort)
  have k: "levels_contain ls v \<longrightarrow> scalable_contains ?s v"
    by (simp add: scalable_contains_levels levels_contain_def)
  have "scalable_ok (open_level B cap ?s)" for cap
    using ok by (intro open_level_ok) (simp add: scalable_ok_def)
  with ok k c open_level_keeps show ?thesis
    by (simp add: u Let_def scalable_contains_levels)
qed

interpretation sbf: mergeable_filter "scalable_add B" scalable_contains scalable_ok "scalable_merge B" for B
  using scalable_merge_spec
  by unfold_locales (auto intro: scalable_add_ok scalable_add_contains scalable_add_keeps)

subsection \<open>Serialization\<close>

definition forget_cache :: "bloom \<Rightarrow> bloom" where
  "forget_cache f = f\<lparr>bf_last_buf := [], bf_last_valid := False\<rparr>"

lemma forget_contains [simp]: "bloom_contains (forget_cache f) v = bloom_contains f v"
  by (simp add: contains_iff forget_cache_def)

definition level_fits :: "level \<Rightarrow> bool" where
  "level_fits l \<longleftrightarrow> bf_num_hashes (lv_filter l) < 2 ^ 32 \<and> bf_num_entries (lv_filter l) < 2 ^ 32
     \<and> bf_num_bits (lv_filter l) < 2 ^ 32 \<and> length (bf_bits (lv_filter l)) + HEADER_SIZE < 2 ^ 32"

lemma unat_of_nat_32: "n < 2 ^ 32 \<Longrightarrow> unat (of_nat n :: w32) = n"
  by (simp add: unat_of_nat take_bit_nat_eq_self)

lemma length_bloom_serialize: "length (bloom_serialize f) = length (bf_bits f) + HEADER_SIZE"
  by (simp add: bloom_serialize_def HEADER_SIZE_def)

lemma read_levels_serialized:
  "\<forall>l \<in> set ls. level_fits l \<Longrightarrow>
   read_levels (length ls) (concat (map serialize_level ls) @ r)
     = Inr (map (\<lambda>l. blob_level (forget_cache (lv_filter l))) ls)"
proof (induction ls)
  case (Cons l ls)
  let ?blob = "bloom_serialize (lv_filter l)"
  let ?size = "write_u32_le (of_nat (length ?blob))"
  let ?rest = "concat (map serialize_level ls) @ r"
  have fit: "level_fits l" using Cons.prems by simp
  have d: "concat (map serialize_level (l # ls)) @ r = ?size @ ?blob @ ?rest"
    by (simp add: serialize_level_def Let_def)
  have n: "unat (read_u32_le (?size @ ?blob @ ?rest)) = length ?blob"
    using fit unat_of_nat_32 [of "length ?blob"]
    by (simp only: codec_simps) (simp add: level_fits_def length_bloom_serialize)
  have "bloom_from_blob ?blob = Inr (forget_cache (lv_filter l))"
    using fit bloom_blob [of "lv_filter l"] by (simp add: level_fits_def forget_cache_def)
  with Cons n show ?case unfolding d by (simp add: Let_def)
qed simp

lemma scalable_blob:
  assumes "scalable_ok s" "\<forall>l \<in> set (sb_levels s). level_fits l" "length (sb_levels s) < 2 ^ 32"
  shows "\<exists>t. scalable_from_blob B (scalable_serialize s) = Inr t \<and> scalable_ok t
    \<and> length (sb_levels t) = length (sb_levels s) \<and> (\<forall>v. scalable_contains t v = scalable_contains s v)"
proof -
  let ?ls = "map (\<lambda>l. blob_level (forget_cache (lv_filter l))) (sb_levels s)"
  have m: "has_chain_magic (scalable_serialize s)"
    by (simp add: has_chain_magic_def scalable_serialize_def CHAIN_HEADER_SIZE_def MAGIC_def)
  have "unat (read_u32_le (drop 4 (scalable_serialize s))) = length (sb_levels s)"
    using assms(3) unat_of_nat_32 by (simp add: scalable_serialize_def MAGIC_def codec_simps)
  moreover have "drop CHAIN_HEADER_SIZE (scalable_serialize s) = concat (map serialize_level (sb_levels s))"
    by (simp add: scalable_serialize_def CHAIN_HEADER_SIZE_def MAGIC_def)
  ultimately have r: "scalable_from_blob B (scalable_serialize s) = Inr
      \<lparr>sb_levels = ?ls, sb_initial = 1024, sb_rate = 1 / 100, sb_distinct = sum_list (map lv_distinct ?ls)\<rparr>"
    using m read_levels_serialized [OF assms(2), of "[]"] assms(1)
    by (simp add: scalable_from_blob_def Let_def scalable_ok_def)
  have "bloom_ok (forget_cache (lv_filter l))" if "l \<in> set (sb_levels s)" for l
    using assms(1) that bloom_wf_blob by (simp add: scalable_ok_def forget_cache_def bloom_ok_def)
  with r assms(1) show ?thesis
    by (auto simp: scalable_ok_def scalable_contains_levels levels_contain_def blob_level_def Let_def)
qed


section \<open>Histories of a filter\<close>

text \<open>
  \<open>sbf_history B s V\<close>: the filter \<open>s\<close> can have arisen by constructing, adding, uniting and reloading
  from a blob, and \<open>V\<close> are the values added on the way.
\<close>

inductive sbf_history :: "bloom_math \<Rightarrow> scalable \<Rightarrow> string set \<Rightarrow> bool" for B where
  construct: "sbf_history B (new_scalable B cap rate) {}"
| added: "sbf_history B s V \<Longrightarrow> sbf_history B (scalable_add B v s) (insert v V)"
| united: "sbf_history B s V \<Longrightarrow> sbf_history B t W \<Longrightarrow> scalable_merge B s t = Inr u \<Longrightarrow>
    sbf_history B u (V \<union> W)"
| reloaded: "sbf_history B s V \<Longrightarrow> list_all level_fits (sb_levels s) \<Longrightarrow>
    length (sb_levels s) < 2 ^ 32 \<Longrightarrow> scalable_from_blob B (scalable_serialize s) = Inr t \<Longrightarrow>
    sbf_history B t V"

lemma sbf_history_sound:
  "sbf_history B s V \<Longrightarrow> scalable_ok s \<and> (\<forall>v \<in> V. scalable_contains s v)"
proof (induction rule: sbf_history.induct)
  case (construct cap rate)
  show ?case by (simp add: new_scalable_ok)
next
  case (added s V v)
  then show ?case by (simp add: sbf.add_ok sbf.add_contains sbf.add_keeps)
next
  case (united s V t W u)
  then show ?case using sbf.merge_ok sbf.merge_contains by blast
next
  case (reloaded s V t)
  then show ?case using scalable_blob [of s B] by (auto simp: list_all_iff)
qed

section \<open>Properties\<close>

text \<open>
  C14 No false negatives: after any sequence of constructing, adding, uniting and reloading from a
  serialized blob, a scalable Bloom filter reports every value that was ever added to it.
\<close>
theorem scalable_no_false_negative:
  assumes "sbf_history B s V" "v \<in> V" shows "scalable_contains s v"
  using sbf_history_sound [OF assms(1)] assms(2) by blast

definition ex_math :: bloom_math where
  "ex_math = \<lparr>bm_bits = (\<lambda>n p. 12 * n), bm_hashes = (\<lambda>m n. 8)\<rparr>"

lemma scalable_no_false_negative_witness:
  "scalable_contains (scalable_add ex_math ''open64'' (scalable_add ex_math ''read'' (new_scalable ex_math 1 (1 / 100)))) ''read''"
proof (rule scalable_no_false_negative)
  show "sbf_history ex_math (scalable_add ex_math ''open64'' (scalable_add ex_math ''read'' (new_scalable ex_math 1 (1 / 100))))
      {''open64'', ''read''}"
    by (intro sbf_history.intros)
qed simp

text \<open>
  A serialized filter loads back as an equivalent one: same number of levels, same answer for
  every value.
\<close>
theorem scalable_blob_roundtrip:
  assumes "scalable_ok s" "list_all level_fits (sb_levels s)" "length (sb_levels s) < 2 ^ 32"
  shows "\<exists>t. scalable_from_blob B (scalable_serialize s) = Inr t
    \<and> length (sb_levels t) = length (sb_levels s) \<and> (\<forall>v. scalable_contains t v = scalable_contains s v)"
  using scalable_blob [of s B] assms by (auto simp: list_all_iff)

lemma scalable_blob_roundtrip_witness:
  "\<exists>t. scalable_from_blob ex_math (scalable_serialize (new_scalable ex_math 1 (1 / 100))) = Inr t
    \<and> length (sb_levels t) = 1 \<and> (\<forall>v. scalable_contains t v = scalable_contains (new_scalable ex_math 1 (1 / 100)) v)"
proof -
  let ?s = "new_scalable ex_math 1 (1 / 100)"
  have s: "list_all level_fits (sb_levels ?s)" "length (sb_levels ?s) = 1"
    by (simp_all add: new_scalable_def open_level_def Let_def level_fits_def new_bloom_def
        optimal_num_bits_def optimal_num_hashes_def ex_math_def block_consts HEADER_SIZE_def)
  with scalable_blob_roundtrip [OF new_scalable_ok, of ex_math 1 "1 / 100" ex_math] show ?thesis by simp
qed

text \<open>
  The union of two block filters sets exactly the bits of both: a value is reported iff each of
  its eight bits is set in one of them.
\<close>
theorem bloom_merge_exact:
  assumes "bloom_ok f" "bloom_merge f g = Inr h"
  shows "bloom_contains h v \<longleftrightarrow>
    value_bits (bf_num_bits f) v \<subseteq> {k. tbit (bf_bits f) k} \<union> {k. tbit (bf_bits g) k}"
  using bloom_merge_bits [OF _ assms(2)] assms(1) by (auto simp: contains_iff bloom_ok_def)

lemma bloom_merge_exact_witness:
  "\<exists>h. bloom_merge (new_bloom ex_math 1 (1 / 2)) (bloom_add ''x'' (new_bloom ex_math 1 (1 / 2))) = Inr h
     \<and> (bloom_contains h ''x'' \<longleftrightarrow> value_bits 256 ''x'' \<subseteq> {k. tbit (bf_bits (new_bloom ex_math 1 (1 / 2))) k}
          \<union> {k. tbit (bf_bits (bloom_add ''x'' (new_bloom ex_math 1 (1 / 2)))) k})"
proof -
  let ?f = "new_bloom ex_math 1 (1 / 2)"
  have b: "bf_num_bits ?f = 256" by (simp add: new_bloom_def Let_def optimal_num_bits_def ex_math_def block_consts)
  have "\<exists>h. bloom_merge ?f (bloom_add ''x'' ?f) = Inr h"
    using bloom_add_bits [OF new_bloom_ok, of "''x''" ex_math 1 "1 / 2"]
    by (simp add: bloom_merge_def Let_def) (simp add: bloom_add_cases)
  then obtain h where h: "bloom_merge ?f (bloom_add ''x'' ?f) = Inr h" by blast
  with bloom_merge_exact [OF new_bloom_ok h, of "''x''"] b show ?thesis by auto
qed

end
