(* ===== verification/DimStats.thy ===== *)
theory DimStats
  imports Histograms Bloom Cstd
begin

text \<open>
  The per-dimension statistics of a chunk (\<^verbatim>\<open>trace/indexing/chunk_dimension_stats.cpp\<close>) and the rules
  by which the index build observes and merges them (\<^verbatim>\<open>trace/visitors/bloom_core.cpp\<close>): the
  value-count dictionary with its binary form, and the min/max texts of a typed dimension.

  The dictionary is an association list, in the iteration order of the hash map. \<open>ds_last\<close> is the
  key behind the cached counter pointer, by which a repeated value skips the lookup.
\<close>

definition canonical_number_text :: "f64 \<Rightarrow> string" where
  "canonical_number_text v =
     (if v = of_int \<lfloor>v\<rfloor> \<and> - (2 ^ 63) \<le> v \<and> v < 2 ^ 63 then show_int \<lfloor>v\<rfloor> else fmt_f v)"

text \<open>\<^verbatim>\<open>std::from_chars\<close> leaves the initial 0 in place when it fails.\<close>

definition chars_u64 :: "string \<Rightarrow> u64" where
  "chars_u64 s = (case from_chars_u64 s of Some v \<Rightarrow> v | None \<Rightarrow> 0)"
definition chars_i64 :: "string \<Rightarrow> i64" where
  "chars_i64 s = (case from_chars_i64 s of Some v \<Rightarrow> v | None \<Rightarrow> 0)"

text \<open>\<open>None\<close>: \<^verbatim>\<open>std::stod\<close> threw.\<close>

definition dimension_value_less :: "string \<Rightarrow> string \<Rightarrow> string \<Rightarrow> bool option" where
  "dimension_value_less a b vtype =
     (if vtype = ''uint'' then Some (chars_u64 a < chars_u64 b)
      else if vtype = ''int'' then Some (chars_i64 a < chars_i64 b)
      else if vtype = ''double'' then
        (case stod a of None \<Rightarrow> None
         | Some x \<Rightarrow> (case stod b of None \<Rightarrow> None | Some y \<Rightarrow> Some (x < y)))
      else Some (a < b))"

record dim_stats =
  ds_dimension :: string
  ds_distinct :: w64
  ds_min :: string
  ds_max :: string
  ds_type :: string
  ds_counts :: "(string \<times> w64) list option"
  ds_last :: "string option"

definition new_dim_stats :: "string \<Rightarrow> string \<Rightarrow> dim_stats" where
  "new_dim_stats name vtype =
     \<lparr>ds_dimension = name, ds_distinct = 0, ds_min = [], ds_max = [], ds_type = vtype,
      ds_counts = None, ds_last = None\<rparr>"

section \<open>Observing values\<close>

text \<open>\<^verbatim>\<open>it->second++\<close> through an iterator or the cached pointer.\<close>

definition incr_count :: "string \<Rightarrow> (string \<times> w64) list \<Rightarrow> (string \<times> w64) list" where
  "incr_count k vc = map (\<lambda>(k', c). if k' = k then (k', c + 1) else (k', c)) vc"

definition observe_text_bounds :: "string \<Rightarrow> dim_stats \<Rightarrow> dim_stats" where
  "observe_text_bounds v s =
     s\<lparr>ds_min := (if ds_min s = [] \<or> v < ds_min s then v else ds_min s),
       ds_max := (if ds_max s = [] \<or> ds_max s < v then v else ds_max s)\<rparr>"

definition observe_bounds :: "string \<Rightarrow> dim_stats \<Rightarrow> dim_stats" where
  "observe_bounds v s =
     (case (if ds_type s = ''uint'' then from_chars_u64 v else None) of
        Some n \<Rightarrow>
          (if ds_min s = [] then s\<lparr>ds_min := v, ds_max := v\<rparr>
           else s\<lparr>ds_min := (if n < chars_u64 (ds_min s) then v else ds_min s),
                  ds_max := (if chars_u64 (ds_max s) < n then v else ds_max s)\<rparr>)
      | None \<Rightarrow> observe_text_bounds v s)"

definition ds_observe :: "string \<Rightarrow> dim_stats \<Rightarrow> dim_stats" where
  "ds_observe v s =
     (if ds_last s = Some v then s\<lparr>ds_counts := map_option (incr_count v) (ds_counts s)\<rparr>
      else let vc = (case ds_counts s of None \<Rightarrow> [] | Some m \<Rightarrow> m)
           in if map_of vc v \<noteq> None then s\<lparr>ds_counts := Some (incr_count v vc), ds_last := Some v\<rparr>
              else observe_bounds v
                     (s\<lparr>ds_counts := Some (vc @ [(v, 1)]), ds_distinct := of_nat (Suc (length vc)),
                        ds_last := Some v\<rparr>))"

definition observe_range_only :: "w64 \<Rightarrow> dim_stats \<Rightarrow> dim_stats" where
  "observe_range_only v s0 =
     (let s = s0\<lparr>ds_distinct := ds_distinct s0 + 1\<rparr>; str = show_nat (unat v)
      in if ds_min s = [] then s\<lparr>ds_min := str, ds_max := str\<rparr>
         else s\<lparr>ds_min := (if unat v < chars_u64 (ds_min s) then str else ds_min s),
                ds_max := (if chars_u64 (ds_max s) < unat v then str else ds_max s)\<rparr>)"

text \<open>The typed observation of an extra dimension.\<close>

definition join_value_types :: "string \<Rightarrow> string \<Rightarrow> string" where
  "join_value_types a b =
     (if a = [] \<or> a = b then b else if b = [] then a
      else if a = ''mixed'' \<or> b = ''mixed'' then ''mixed''
      else if (a = ''int'' \<or> a = ''double'') \<and> (b = ''int'' \<or> b = ''double'') then ''double''
      else ''mixed'')"

definition observe_stats :: "string \<Rightarrow> string \<Rightarrow> dim_stats \<Rightarrow> dim_stats option" where
  "observe_stats text vtype s0 =
     (if ds_type s0 = ''mixed'' then Some s0
      else let joined = join_value_types (ds_type s0) vtype; s = s0\<lparr>ds_type := joined\<rparr>
           in if joined = ''mixed'' then Some (s\<lparr>ds_min := [], ds_max := []\<rparr>)
              else case (if ds_min s = [] then Some True else dimension_value_less text (ds_min s) joined) of
                     None \<Rightarrow> None
                   | Some lo \<Rightarrow>
                       let s = (if lo then s\<lparr>ds_min := text\<rparr> else s)
                       in (case (if ds_max s = [] then Some True
                                 else dimension_value_less (ds_max s) text joined) of
                             None \<Rightarrow> None
                           | Some hi \<Rightarrow> Some (if hi then s\<lparr>ds_max := text\<rparr> else s)))"

definition observe_value_i64 :: "i64 \<Rightarrow> dim_stats \<Rightarrow> dim_stats option" where
  "observe_value_i64 v = observe_stats (show_int v) ''int''"
definition observe_value_f64 :: "f64 \<Rightarrow> dim_stats \<Rightarrow> dim_stats option" where
  "observe_value_f64 v = observe_stats (canonical_number_text v) ''double''"
definition observe_value_str :: "string \<Rightarrow> dim_stats \<Rightarrow> dim_stats option" where
  "observe_value_str v = observe_stats v ''string''"

definition add_counts :: "(string \<times> w64) list \<Rightarrow> (string \<times> w64) list \<Rightarrow> (string \<times> w64) list" where
  "add_counts dst src =
     foldl (\<lambda>m (k, c). al_put k ((case map_of m k of None \<Rightarrow> 0 | Some d \<Rightarrow> d) + c) m) dst src"

definition merge_counts :: "dim_stats \<Rightarrow> dim_stats \<Rightarrow> dim_stats" where
  "merge_counts dst src =
     (case ds_counts src of None \<Rightarrow> dst
      | Some sc \<Rightarrow>
          let m = add_counts (case ds_counts dst of None \<Rightarrow> [] | Some m \<Rightarrow> m) sc
          in dst\<lparr>ds_counts := Some m, ds_distinct := of_nat (length m)\<rparr>)"

definition merge_dimension_stats :: "dim_stats \<Rightarrow> dim_stats \<Rightarrow> dim_stats option" where
  "merge_dimension_stats dst0 src =
     (let dst1 = merge_counts dst0 src;
          joined = join_value_types (ds_type dst1) (ds_type src);
          retype = (ds_type src \<noteq> [] \<and> ds_type dst1 \<noteq> ds_type src);
          dst = (if retype then dst1\<lparr>ds_type := joined\<rparr> else dst1)
      in if retype \<and> joined = ''mixed'' then Some (dst\<lparr>ds_min := [], ds_max := []\<rparr>)
         else if ds_min src = [] \<and> ds_max src = [] then Some dst
         else case (if ds_min dst = [] then Some True
                    else if ds_min src = [] then Some False
                    else dimension_value_less (ds_min src) (ds_min dst) (ds_type dst)) of
                None \<Rightarrow> None
              | Some lo \<Rightarrow>
                  let dst = (if lo then dst\<lparr>ds_min := ds_min src\<rparr> else dst)
                  in (case (if ds_max dst = [] then Some True
                            else if ds_max src = [] then Some False
                            else dimension_value_less (ds_max dst) (ds_max src) (ds_type dst)) of
                        None \<Rightarrow> None
                      | Some hi \<Rightarrow> Some (if hi then dst\<lparr>ds_max := ds_max src\<rparr> else dst)))"

section \<open>The binary form of the dictionary\<close>

definition KEY_CAP :: nat where "KEY_CAP = 0xFFFF"

definition serialize_entry :: "string \<times> w64 \<Rightarrow> bytes" where
  "serialize_entry kc =
     (let key_len = min (length (fst kc)) KEY_CAP
      in write_le 2 (of_nat key_len) @ text_bytes (take key_len (fst kc)) @ write_le 8 (snd kc))"

definition serialize_value_counts :: "dim_stats \<Rightarrow> bytes" where
  "serialize_value_counts s =
     (case ds_counts s of
        None \<Rightarrow> []
      | Some vc \<Rightarrow>
          if vc = [] then []
          else write_le 4 (of_nat (length vc)) @ concat (map serialize_entry vc))"

fun read_entries :: "nat \<Rightarrow> bytes \<Rightarrow> (string \<times> w64) list \<Rightarrow> (string \<times> w64) list" where
  "read_entries 0 d result = result"
| "read_entries (Suc n) d result =
     (if length d < 2 then result
      else let key_len = unat (read_le (take 2 d)); d = drop 2 d
           in if length d < key_len + 8 then result
              else read_entries n (drop (key_len + 8) d)
                     (al_put (bytes_text (take key_len d)) (read_le (take 8 (drop key_len d))) result))"

definition deserialize_value_counts :: "bytes \<Rightarrow> (string \<times> w64) list" where
  "deserialize_value_counts d =
     (if length d < 4 then [] else read_entries (unat (read_le (take 4 d))) (drop 4 d) [])"

section \<open>The dictionary counts\<close>

definition counts_of :: "dim_stats \<Rightarrow> (string \<times> w64) list" where
  "counts_of s = (case ds_counts s of None \<Rightarrow> [] | Some m \<Rightarrow> m)"

definition count_of :: "dim_stats \<Rightarrow> string \<Rightarrow> w64" where
  "count_of s k = (case map_of (counts_of s) k of None \<Rightarrow> 0 | Some c \<Rightarrow> c)"

definition counts_total :: "dim_stats \<Rightarrow> w64" where
  "counts_total s = sum_list (map snd (counts_of s))"

definition dict_ok :: "dim_stats \<Rightarrow> bool" where
  "dict_ok s \<longleftrightarrow> distinct (map fst (counts_of s))
     \<and> (\<forall>k. ds_last s = Some k \<longrightarrow> map_of (counts_of s) k \<noteq> None)"

lemma observe_bounds_counts [simp]:
  "ds_counts (observe_bounds v s) = ds_counts s" "ds_last (observe_bounds v s) = ds_last s"
  "ds_type (observe_bounds v s) = ds_type s" "ds_distinct (observe_bounds v s) = ds_distinct s"
  by (simp_all add: observe_bounds_def observe_text_bounds_def split: option.splits)

lemma map_fst_incr [simp]: "map fst (incr_count k vc) = map fst vc"
  by (auto simp: incr_count_def)

lemma keys_incr [simp]: "fst ` set (incr_count k vc) = fst ` set vc"
  by (simp flip: set_map)

lemma map_of_incr: "map_of (incr_count k vc) x = (if x = k then map_option (\<lambda>c. c + 1) (map_of vc x) else map_of vc x)"
  by (induction vc) (auto simp: incr_count_def)

lemma sum_incr: "distinct (map fst vc) \<Longrightarrow> map_of vc k \<noteq> None \<Longrightarrow>
    sum_list (map snd (incr_count k vc)) = sum_list (map snd vc) + (1 :: w64)"
proof (induction vc)
  case (Cons p vc)
  obtain k' c where p: "p = (k', c)" by (cases p)
  have inc: "incr_count k (p # vc) = (if k' = k then (k', c + 1) else (k', c)) # incr_count k vc"
    by (simp add: incr_count_def p)
  show ?case
  proof (cases "k' = k")
    case True
    with Cons.prems(1) have "map_of vc k = None" by (auto simp: p map_of_eq_None_iff)
    then have "incr_count k vc = vc"
      by (auto simp: incr_count_def map_of_eq_None_iff rev_image_eqI intro!: map_idI)
    with True inc show ?thesis by (simp add: p algebra_simps)
  next
    case False
    with Cons inc show ?thesis by (auto simp: p algebra_simps)
  qed
qed simp

text \<open>The cached counter and the lookup give the same counts.\<close>

lemma ds_observe_counts:
  "dict_ok s \<Longrightarrow> counts_of (ds_observe v s)
     = (if map_of (counts_of s) v \<noteq> None then incr_count v (counts_of s) else counts_of s @ [(v, 1)])
       \<and> ds_last (ds_observe v s) = Some v"
  by (auto simp: ds_observe_def counts_of_def dict_ok_def Let_def split: option.splits)

lemma ds_observe_ok: "dict_ok s \<Longrightarrow> dict_ok (ds_observe v s)"
  using ds_observe_counts [of s v]
  by (auto simp: dict_ok_def map_of_incr map_add_def map_of_eq_None_iff split: if_splits option.splits)

lemma count_of_observe: "dict_ok s \<Longrightarrow> count_of (ds_observe v s) k = count_of s k + (if k = v then 1 else 0)"
  using ds_observe_counts [of s v]
  by (auto simp: count_of_def map_of_incr map_add_def split: if_splits option.splits)

lemma counts_total_observe: "dict_ok s \<Longrightarrow> counts_total (ds_observe v s) = counts_total s + 1"
  using ds_observe_counts [of s v] sum_incr [of "counts_of s" v]
  by (auto simp: counts_total_def dict_ok_def split: if_splits)

lemma sum_al_put:
  "distinct (map fst m) \<Longrightarrow>
    sum_list (map snd (al_put k ((case map_of m k of None \<Rightarrow> 0 | Some d \<Rightarrow> d) + c) m)) = sum_list (map snd m) + (c :: w64)"
proof (induction m)
  case (Cons p m)
  then show ?case by (cases p) (auto simp: algebra_simps)
qed simp

lemma add_counts_spec:
  "distinct (map fst dst) \<Longrightarrow> distinct (map fst src) \<Longrightarrow>
    distinct (map fst (add_counts dst src))
    \<and> (\<forall>k. (case map_of (add_counts dst src) k of None \<Rightarrow> 0 | Some c \<Rightarrow> c)
        = (case map_of dst k of None \<Rightarrow> 0 | Some c \<Rightarrow> c) + (case map_of src k of None \<Rightarrow> 0 | Some c \<Rightarrow> c))
    \<and> (\<forall>k. map_of (add_counts dst src) k = None \<longleftrightarrow> map_of dst k = None \<and> map_of src k = None)
    \<and> sum_list (map snd (add_counts dst src)) = sum_list (map snd dst) + sum_list (map snd src)"
proof (induction src arbitrary: dst)
  case (Cons p src)
  obtain k c where p: "p = (k, c)" by (cases p)
  define dst' where "dst' = al_put k ((case map_of dst k of None \<Rightarrow> 0 | Some d \<Rightarrow> d) + c) dst"
  have step: "add_counts dst ((k, c) # src) = add_counts dst' src" by (simp add: add_counts_def dst'_def)
  have d: "distinct (map fst dst')" "distinct (map fst src)" "map_of src k = None"
    using Cons.prems by (auto simp: p map_of_eq_None_iff dst'_def)
  have m: "map_of dst' = (map_of dst)(k \<mapsto> (case map_of dst k of None \<Rightarrow> 0 | Some d \<Rightarrow> d) + c)"
    "sum_list (map snd dst') = sum_list (map snd dst) + c"
    using sum_al_put [OF Cons.prems(1), of k c] by (simp_all add: dst'_def)
  from Cons.IH [OF d(1,2)] d(3) show ?case
    unfolding p step by (auto simp: m)
qed (simp add: add_counts_def)

lemma merge_counts_counts:
  "dict_ok s \<Longrightarrow> dict_ok t \<Longrightarrow> counts_of (merge_counts s t) = add_counts (counts_of s) (counts_of t)
     \<and> ds_last (merge_counts s t) = ds_last s"
  by (auto simp: merge_counts_def counts_of_def add_counts_def Let_def split: option.splits)

interpretation dict: counting_sketch ds_observe merge_counts count_of counts_total "\<lambda>v. v" dict_ok
proof unfold_locales
  fix s t :: dim_stats and v b :: string
  assume s: "dict_ok s"
  show "dict_ok (ds_observe v s)" "count_of (ds_observe v s) b = count_of s b + (if b = v then 1 else 0)"
    "counts_total (ds_observe v s) = counts_total s + 1"
    by (simp_all add: s ds_observe_ok count_of_observe counts_total_observe)
  assume t: "dict_ok t"
  note a = add_counts_spec [of "counts_of s" "counts_of t"]
  from s t a merge_counts_counts [OF s t] show "dict_ok (merge_counts s t)"
    by (auto simp: dict_ok_def)
  from s t a merge_counts_counts [OF s t] show "count_of (merge_counts s t) b = count_of s b + count_of t b"
    "counts_total (merge_counts s t) = counts_total s + counts_total t"
    by (auto simp: dict_ok_def count_of_def counts_total_def)
qed

lemma ds_observe_dom: "dict_ok s \<Longrightarrow> fst ` set (counts_of (ds_observe v s)) = insert v (fst ` set (counts_of s))"
  using ds_observe_counts [of s v] map_fst_incr [of v "counts_of s"]
  by (auto simp flip: set_map simp: map_of_eq_None_iff split: if_splits)

lemma observed_dom:
  "dict_ok s \<Longrightarrow> fst ` set (counts_of (dict.observe_all vs s)) = set vs \<union> fst ` set (counts_of s)"
proof (induction vs arbitrary: s)
  case (Cons v vs)
  have "dict.observe_all (v # vs) s = dict.observe_all vs (ds_observe v s)" by (simp add: dict.observe_all_def)
  with Cons show ?case by (simp add: ds_observe_ok ds_observe_dom)
qed (simp add: dict.observe_all_def)

section \<open>The dictionary blob\<close>

lemma al_put_new: "k \<notin> fst ` set m \<Longrightarrow> al_put k v m = m @ [(k, v)]"
  by (induction m rule: al_put.induct [of _ k v]) auto

lemma unat_le_count: "n < 2 ^ (8 * b) \<Longrightarrow> b \<le> 8 \<Longrightarrow> unat (read_le (write_le b (of_nat n))) = n"
proof -
  assume n: "n < 2 ^ (8 * b)" and b: "b \<le> 8"
  have "(2 :: nat) ^ (8 * b) \<le> 2 ^ 64" using b by (intro power_increasing) simp_all
  with n have "n < 2 ^ 64" by linarith
  then have "unat (of_nat n :: w64) = n" by (simp only: unat_of_nat) (simp add: take_bit_nat_eq_self)
  then have "unat (take_bit (8 * b) (of_nat n :: w64)) = n"
    using n by (simp add: unsigned_take_bit_eq take_bit_nat_eq_self)
  then show ?thesis by (simp add: read_write_le)
qed

lemma key_len_read: "n \<le> KEY_CAP \<Longrightarrow> unat (read_le (write_le 2 (of_nat n))) = n"
  by (rule unat_le_count) (simp_all add: KEY_CAP_def)

lemma read_entries_serialized:
  assumes "\<forall>(k, c) \<in> set vc. length k \<le> KEY_CAP" "distinct (map fst (res @ vc))"
  shows "read_entries (length vc) (concat (map serialize_entry vc) @ rest) res = res @ vc"
  using assms
proof (induction vc arbitrary: res)
  case (Cons p vc)
  obtain k c where p: "p = (k, c)" by (cases p)
  with Cons.prems have k: "length k \<le> KEY_CAP" "k \<notin> fst ` set res"
    "\<forall>(k, c) \<in> set vc. length k \<le> KEY_CAP" "distinct (map fst ((res @ [(k, c)]) @ vc))" by auto
  let ?d = "concat (map serialize_entry vc) @ rest"
  have "read_entries (Suc (length vc)) (serialize_entry (k, c) @ ?d) res
      = read_entries (length vc) ?d (al_put k c res)"
    using k(1) by (simp add: serialize_entry_def Let_def key_len_read min_def codec_simps)
  with Cons.IH [OF k(3,4)] k(2) show ?case by (simp add: p al_put_new)
qed simp

text \<open>
  The dictionary of a dimension survives its binary form: distinct keys of at most 65535 bytes
  and fewer than \<open>2 ^ 32\<close> of them are read back with their counts, in order.\<close>

theorem value_counts_roundtrip:
  assumes "dict_ok s" "length (counts_of s) < 2 ^ 32" "\<forall>(k, c) \<in> set (counts_of s). length k \<le> KEY_CAP"
  shows "deserialize_value_counts (serialize_value_counts s) = counts_of s"
proof (cases "counts_of s = []")
  case True
  then show ?thesis
    by (auto simp: counts_of_def serialize_value_counts_def deserialize_value_counts_def split: option.splits)
next
  case False
  then have "serialize_value_counts s
      = write_le 4 (of_nat (length (counts_of s))) @ concat (map serialize_entry (counts_of s))"
    by (auto simp: counts_of_def serialize_value_counts_def split: option.splits)
  moreover have "unat (read_le (write_le 4 (of_nat (length (counts_of s))))) = length (counts_of s)"
    using assms(2) by (intro unat_le_count) simp_all
  ultimately show ?thesis
    using read_entries_serialized [of "counts_of s" "[]" "[]"] assms(1,3)
    by (simp add: deserialize_value_counts_def dict_ok_def)
qed

definition ex_names :: dim_stats where
  "ex_names = fold ds_observe [''read'', ''write'', ''read''] (new_dim_stats ''name'' ''string'')"

lemma new_dict_ok: "dict_ok (new_dim_stats d t)" "counts_of (new_dim_stats d t) = []"
  by (simp_all add: dict_ok_def new_dim_stats_def counts_of_def)

lemma ex_names_counts: "counts_of ex_names = [(''read'', 2), (''write'', 1)]"
  by code_simp

theorem value_counts_roundtrip_witness:
  "deserialize_value_counts (serialize_value_counts ex_names) = [(''read'', 2), (''write'', 1)]"
proof -
  have "ex_names = dict.observe_all [''read'', ''write'', ''read''] (new_dim_stats ''name'' ''string'')"
    by (simp add: ex_names_def dict.observe_all_def)
  then have "dict_ok ex_names" by (metis dict.observe_all_ok new_dict_ok(1))
  then show ?thesis using value_counts_roundtrip [of ex_names] by (simp add: ex_names_counts KEY_CAP_def)
qed

text \<open>
  Counting the values of two slices of a chunk and merging the dictionaries is counting the whole
  chunk; every count is the number of occurrences, although repeated values go through the cached
  pointer and not through the lookup, and the dictionary holds exactly the observed values.\<close>

theorem dictionary_merge_counts:
  "count_of (merge_counts (fold ds_observe vs (new_dim_stats d t)) (fold ds_observe ws (new_dim_stats d t))) k
     = of_nat (count_list (vs @ ws) k)
    \<and> fst ` set (counts_of (fold ds_observe vs (new_dim_stats d t))) = set vs"
proof -
  have z: "\<And>b. count_of (new_dim_stats d t) b = 0" "counts_total (new_dim_stats d t) = 0"
    by (simp_all add: count_of_def counts_total_def new_dict_ok)
  have "dict.observe_all xs s = fold ds_observe xs s" for xs s by (simp add: dict.observe_all_def)
  then show ?thesis
    using dict.merge_is_append(1) [OF new_dict_ok(1) new_dict_ok(1) z, where vs = vs and ws = ws and b = k]
      dict.observe_all_weight [OF new_dict_ok(1), where vs = "vs @ ws" and b = k] observed_dom [OF new_dict_ok(1), of vs]
    by (simp add: z new_dict_ok)
qed

section \<open>The bounds cover what was observed\<close>

definition between :: "'a::linorder option \<Rightarrow> 'a option \<Rightarrow> 'a option \<Rightarrow> bool" where
  "between lo x hi \<longleftrightarrow>
     (case (lo, x, hi) of (Some l, Some v, Some h) \<Rightarrow> l \<le> v \<and> v \<le> h | _ \<Rightarrow> False)"

lemma between_Some [simp]: "between (Some l) (Some v) (Some h) \<longleftrightarrow> l \<le> v \<and> v \<le> h"
  by (simp add: between_def)

definition uint_bounds :: "dim_stats \<Rightarrow> nat \<Rightarrow> nat \<Rightarrow> bool" where
  "uint_bounds s a b \<longleftrightarrow> ds_min s = show_nat a \<and> ds_max s = show_nat b \<and> a \<le> b \<and> b \<le> UINT64_MAX"

definition uint_ok :: "dim_stats \<Rightarrow> bool" where
  "uint_ok s \<longleftrightarrow> (ds_min s = [] \<and> ds_max s = []) \<or> (\<exists>a b. uint_bounds s a b)"

definition uint_covers :: "dim_stats \<Rightarrow> w64 \<Rightarrow> bool" where
  "uint_covers s v \<longleftrightarrow> (\<exists>a b. uint_bounds s a b \<and> a \<le> unat v \<and> unat v \<le> b)"

lemma unat_UINT64_MAX: "unat (v :: w64) \<le> UINT64_MAX"
proof -
  have "unat v < 2 ^ LENGTH(64)" by (rule unsigned_less)
  then show ?thesis by (simp add: UINT64_MAX_def)
qed

lemma chars_u64_show [simp]: "n \<le> UINT64_MAX \<Longrightarrow> chars_u64 (show_nat n) = n"
  by (simp add: chars_u64_def codec_simps)

lemma uint_bounds_observe:
  "uint_bounds s a b \<Longrightarrow> uint_bounds (observe_range_only v s) (min a (unat v)) (max b (unat v))"
  using unat_UINT64_MAX [of v] by (auto simp: uint_bounds_def observe_range_only_def Let_def min_def max_def)

lemma uint_first_observe:
  "ds_min s = [] \<Longrightarrow> uint_bounds (observe_range_only v s) (unat v) (unat v)"
  using unat_UINT64_MAX [of v] by (simp add: uint_bounds_def observe_range_only_def Let_def)

interpretation rng: membership_filter observe_range_only uint_covers uint_ok
proof unfold_locales
  fix s :: dim_stats and v w :: w64
  assume ok: "uint_ok s"
  show "uint_ok (observe_range_only v s)"
    using ok uint_bounds_observe uint_first_observe unfolding uint_ok_def by blast
  have "uint_bounds s a b \<Longrightarrow> uint_covers (observe_range_only v s) v" for a b
    using uint_bounds_observe [of s a b v] by (auto simp: uint_covers_def intro!: exI)
  moreover have "ds_min s = [] \<Longrightarrow> uint_covers (observe_range_only v s) v"
    using uint_first_observe [of s v] by (auto simp: uint_covers_def)
  ultimately show "uint_covers (observe_range_only v s) v" using ok unfolding uint_ok_def by blast
  assume "uint_covers s w"
  then obtain a b where ab: "uint_bounds s a b" "a \<le> unat w" "unat w \<le> b" by (auto simp: uint_covers_def)
  with uint_bounds_observe [OF ab(1), of v] show "uint_covers (observe_range_only v s) w"
    unfolding uint_covers_def by (intro exI [of _ "min a (unat v)"] exI [of _ "max b (unat v)"]) auto
qed

definition int_bounds :: "dim_stats \<Rightarrow> int \<Rightarrow> int \<Rightarrow> bool" where
  "int_bounds s a b \<longleftrightarrow> ds_type s = ''int'' \<and> ds_min s = show_int a \<and> ds_max s = show_int b
     \<and> INT64_MIN \<le> a \<and> a \<le> b \<and> b \<le> INT64_MAX"

definition int_ok :: "dim_stats \<Rightarrow> bool" where
  "int_ok s \<longleftrightarrow> (ds_type s = [] \<and> ds_min s = [] \<and> ds_max s = []) \<or> (\<exists>a b. int_bounds s a b)"

definition int_covers :: "dim_stats \<Rightarrow> w64 \<Rightarrow> bool" where
  "int_covers s v \<longleftrightarrow> (\<exists>a b. int_bounds s a b \<and> a \<le> sint v \<and> sint v \<le> b)"

definition observe_int :: "w64 \<Rightarrow> dim_stats \<Rightarrow> dim_stats" where
  "observe_int v s = (case observe_value_i64 (sint v) s of None \<Rightarrow> s | Some t \<Rightarrow> t)"

definition merge_stats :: "dim_stats \<Rightarrow> dim_stats \<Rightarrow> unit + dim_stats" where
  "merge_stats s t = (case merge_dimension_stats s t of None \<Rightarrow> Inl () | Some u \<Rightarrow> Inr u)"

lemma sint_range: "INT64_MIN \<le> sint (v :: w64)" "sint v \<le> INT64_MAX"
  using sint_ge [of v] sint_lt [of v] by (simp_all add: INT64_MIN_def INT64_MAX_def)

lemma show_int_ne [simp]: "show_int i \<noteq> []" "[] \<noteq> show_int i"
proof -
  show "show_int i \<noteq> []" by (simp add: show_int_def)
  then show "[] \<noteq> show_int i" by metis
qed

lemma less_int_texts [simp]:
  "INT64_MIN \<le> a \<Longrightarrow> a \<le> INT64_MAX \<Longrightarrow> INT64_MIN \<le> b \<Longrightarrow> b \<le> INT64_MAX \<Longrightarrow>
    dimension_value_less (show_int a) (show_int b) ''int'' = Some (a < b)"
  by (simp add: dimension_value_less_def chars_i64_def codec_simps)

lemma join_int [simp]: "join_value_types ''int'' ''int'' = ''int''" "join_value_types [] ''int'' = ''int''"
  by (simp_all add: join_value_types_def)

lemma int_first_observe:
  "ds_type s = [] \<Longrightarrow> ds_min s = [] \<Longrightarrow> ds_max s = [] \<Longrightarrow> int_bounds (observe_int v s) (sint v) (sint v)"
  using sint_range [of v]
  by (simp add: observe_int_def observe_value_i64_def observe_stats_def Let_def int_bounds_def)

lemma int_bounds_observe:
  "int_bounds s a b \<Longrightarrow> int_bounds (observe_int v s) (min a (sint v)) (max b (sint v))"
  using sint_range [of v]
  by (auto simp: observe_int_def observe_value_i64_def observe_stats_def Let_def int_bounds_def min_def max_def)

lemma merge_counts_fields [simp]:
  "ds_type (merge_counts s t) = ds_type s" "ds_min (merge_counts s t) = ds_min s"
  "ds_max (merge_counts s t) = ds_max s"
  by (simp_all add: merge_counts_def Let_def split: option.splits)

lemma int_merge_bounds:
  assumes "int_bounds s a b" "int_bounds t c d" "merge_stats s t = Inr u"
  shows "int_bounds u (min a c) (max b d)"
  using assms by (auto simp: merge_stats_def merge_dimension_stats_def Let_def int_bounds_def min_def max_def)

lemma int_merge_defined:
  assumes "int_ok s" "int_ok t" shows "\<exists>u. merge_dimension_stats s t = Some u"
proof -
  consider "ds_min t = [] \<and> ds_max t = []" "ds_type t = []" | "ds_type t = ''int''" "ds_min s = []" "ds_max s = []" "ds_type s = []"
    | a b c d where "int_bounds s a b" "int_bounds t c d"
    | "ds_type t = []" "ds_min t = []" "ds_max t = []"
    using assms unfolding int_ok_def int_bounds_def by blast
  then show ?thesis
    by cases (simp_all add: merge_dimension_stats_def Let_def int_bounds_def join_value_types_def)
qed

lemma int_merge_empty:
  assumes "int_ok s" "int_ok t" "merge_stats s t = Inr u" "ds_min s = [] \<or> ds_min t = []"
  shows "ds_min s = [] \<and> ds_type u = ds_type t \<and> ds_min u = ds_min t \<and> ds_max u = ds_max t
    \<or> ds_min t = [] \<and> ds_type u = ds_type s \<and> ds_min u = ds_min s \<and> ds_max u = ds_max s"
  using assms
  by (auto simp: int_ok_def int_bounds_def merge_stats_def merge_dimension_stats_def Let_def join_value_types_def
      split: if_splits)

lemma int_covers_cong:
  "ds_type u = ds_type t \<and> ds_min u = ds_min t \<and> ds_max u = ds_max t \<Longrightarrow> int_covers u w = int_covers t w"
  by (simp add: int_covers_def int_bounds_def)

lemma int_covers_empty: "ds_min s = [] \<Longrightarrow> \<not> int_covers s w"
  by (auto simp: int_covers_def int_bounds_def)

interpretation ival: mergeable_filter observe_int int_covers int_ok merge_stats
proof unfold_locales
  fix s t u :: dim_stats and v w :: w64
  assume ok: "int_ok s"
  show "int_ok (observe_int v s)"
    using ok int_bounds_observe int_first_observe unfolding int_ok_def by blast
  have "int_bounds s a b \<Longrightarrow> int_covers (observe_int v s) v" for a b
    using int_bounds_observe [of s a b v] by (auto simp: int_covers_def intro!: exI)
  moreover have "ds_type s = [] \<and> ds_min s = [] \<and> ds_max s = [] \<Longrightarrow> int_covers (observe_int v s) v"
    using int_first_observe [of s v] by (auto simp: int_covers_def)
  ultimately show "int_covers (observe_int v s) v" using ok unfolding int_ok_def by blast
  {
    assume "int_covers s w"
    then obtain a b where ab: "int_bounds s a b" "a \<le> sint w" "sint w \<le> b" by (auto simp: int_covers_def)
    with int_bounds_observe [OF ab(1), of v] show "int_covers (observe_int v s) w"
      unfolding int_covers_def by (intro exI [of _ "min a (sint v)"] exI [of _ "max b (sint v)"]) auto
  }
  assume ok': "int_ok t" and m: "merge_stats s t = Inr u"
  show "int_ok u"
  proof (cases "ds_min s = [] \<or> ds_min t = []")
    case True
    from int_merge_empty [OF ok ok' m True] ok ok' show ?thesis
      by (auto simp: int_ok_def int_bounds_def)
  next
    case False
    with ok ok' obtain a b c d where "int_bounds s a b" "int_bounds t c d" by (auto simp: int_ok_def)
    from int_merge_bounds [OF this m] show ?thesis by (auto simp: int_ok_def)
  qed
  assume "int_covers s w \<or> int_covers t w"
  then show "int_covers u w"
  proof (cases "ds_min s = [] \<or> ds_min t = []")
    case True
    from int_merge_empty [OF ok ok' m True] show ?thesis
    proof
      assume a: "ds_min s = [] \<and> ds_type u = ds_type t \<and> ds_min u = ds_min t \<and> ds_max u = ds_max t"
      with \<open>int_covers s w \<or> int_covers t w\<close> have "int_covers t w" using int_covers_empty by simp
      with a int_covers_cong [of u t w] show ?thesis by simp
    next
      assume a: "ds_min t = [] \<and> ds_type u = ds_type s \<and> ds_min u = ds_min s \<and> ds_max u = ds_max s"
      with \<open>int_covers s w \<or> int_covers t w\<close> have "int_covers s w" using int_covers_empty by simp
      with a int_covers_cong [of u s w] show ?thesis by simp
    qed
  next
    case False
    with ok ok' obtain a b c d where ab: "int_bounds s a b" "int_bounds t c d" by (auto simp: int_ok_def)
    have inj: "int_bounds x e f \<Longrightarrow> int_bounds x g h \<Longrightarrow> e = g \<and> f = h" for x e f g h
      by (auto simp: int_bounds_def) (metis from_chars_i64_show_int option.inject order_trans)+
    have "a \<le> sint w \<and> sint w \<le> b" if "int_covers s w"
      using that inj [OF ab(1)] by (auto simp: int_covers_def)
    moreover have "c \<le> sint w \<and> sint w \<le> d" if "int_covers t w"
      using that inj [OF ab(2)] by (auto simp: int_covers_def)
    ultimately have "min a c \<le> sint w \<and> sint w \<le> max b d"
      using \<open>int_covers s w \<or> int_covers t w\<close> by auto
    with int_merge_bounds [OF ab m] show ?thesis unfolding int_covers_def by blast
  qed
qed

text \<open>
  After any sequence of range-only observations the stored bounds are the texts of two numbers
  between which every observed timestamp or duration lies.\<close>

theorem range_only_covers:
  assumes "v \<in> set vs"
  shows "uint_covers (foldl (\<lambda>s v. observe_range_only v s) (new_dim_stats d ''uint'') vs) v"
proof -
  have "uint_ok (new_dim_stats d ''uint'')" by (simp add: uint_ok_def new_dim_stats_def)
  from rng.add_all_contains [OF this assms] show ?thesis by (simp add: rng.add_all_def)
qed

theorem range_only_covers_witness:
  "uint_covers (foldl (\<lambda>s v. observe_range_only v s) (new_dim_stats ''ts'' ''uint'') [90, 100, 9]) 100"
  by (rule range_only_covers) simp

text \<open>
  An integer dimension that is observed in two slices and merged keeps bounds that cover every
  value of both slices; a merge of integer dimensions does not fail.\<close>

theorem int_stats_merge_covers:
  assumes "v \<in> set vs \<union> set ws"
  shows "\<exists>u. merge_dimension_stats (foldl (\<lambda>s v. observe_int v s) (new_dim_stats d []) vs)
              (foldl (\<lambda>s v. observe_int v s) (new_dim_stats d []) ws) = Some u \<and> int_covers u v"
proof -
  let ?s = "\<lambda>vs. foldl (\<lambda>s v. observe_int v s) (new_dim_stats d []) vs"
  have ok: "int_ok (new_dim_stats d [])" by (simp add: int_ok_def new_dim_stats_def)
  have all: "ival.add_all xs (new_dim_stats d []) = ?s xs" for xs by (simp add: ival.add_all_def)
  have oks: "int_ok (?s xs)" for xs using ival.add_all_ok [OF ok, of xs] by (simp only: all)
  obtain u where u: "merge_dimension_stats (?s vs) (?s ws) = Some u"
    using int_merge_defined [OF oks oks] by blast
  then have "merge_stats (?s vs) (?s ws) = Inr u" by (simp add: merge_stats_def)
  from ival.merge_all_contains [OF ok ok, unfolded all, OF this assms] u show ?thesis by blast
qed

theorem int_stats_merge_covers_witness:
  "\<exists>u. merge_dimension_stats (foldl (\<lambda>s v. observe_int v s) (new_dim_stats ''n'' []) [5, - 3])
        (foldl (\<lambda>s v. observe_int v s) (new_dim_stats ''n'' []) [40]) = Some u \<and> int_covers u (- 3)"
  by (rule int_stats_merge_covers) simp

end
