(* ===== verification/Query.thy ===== *)
theory Query
  imports Json
begin

text \<open>
  The query AST (\<^verbatim>\<open>query/ast.h\<close>), its rendering to DSL text (\<^verbatim>\<open>query/ast_string.h\<close>), the fields
  it references (\<^verbatim>\<open>query/ast.cpp\<close>) and the expression builder (\<^verbatim>\<open>query/builder.h\<close>).

  \<^verbatim>\<open>FieldNode\<close>, \<^verbatim>\<open>LiteralNode\<close> and \<^verbatim>\<open>ArrayNode\<close> wrap one member each and are represented by it.
  A compiled regular expression is determined by its source text and the icase flag, which is
  what \<open>compiled\<close> holds.
\<close>

datatype compare_op = EQ | NE | GT | LT | GE | LE

datatype match_op = LIKE | ILIKE | REGEX | IREGEX | ICONTAINS

datatype literal = LStr string | LI64 i64 | LU64 u64 | LF64 f64 | LBool bool

datatype compiled = Compiled (cp_icase: bool) (cp_src: string)

datatype query_node =
    CompareNode string compare_op literal
  | InNode string "literal list"
  | NotInNode string "literal list"
  | MatchNode string match_op string bool "compiled option"
  | AndNode query_node query_node
  | OrNode query_node query_node
  | NotNode query_node

text \<open>The representable range of the two integer alternatives of \<^verbatim>\<open>LiteralValue\<close>.\<close>

fun lit_wf :: "literal \<Rightarrow> bool" where
  "lit_wf (LI64 i) = (INT64_MIN \<le> i \<and> i \<le> INT64_MAX)"
| "lit_wf (LU64 n) = (n \<le> UINT64_MAX)"
| "lit_wf _ = True"

fun query_wf :: "query_node \<Rightarrow> bool" where
  "query_wf (CompareNode f op v) = lit_wf v"
| "query_wf (InNode f vs) = list_all lit_wf vs"
| "query_wf (NotInNode f vs) = list_all lit_wf vs"
| "query_wf (MatchNode f op p neg c) = True"
| "query_wf (AndNode a b) = (query_wf a \<and> query_wf b)"
| "query_wf (OrNode a b) = (query_wf a \<and> query_wf b)"
| "query_wf (NotNode a) = query_wf a"

section \<open>Rendering\<close>

fun compare_op_str :: "compare_op \<Rightarrow> string" where
  "compare_op_str EQ = ''==''"
| "compare_op_str NE = ''!=''"
| "compare_op_str GT = ''>''"
| "compare_op_str LT = ''<''"
| "compare_op_str GE = ''>=''"
| "compare_op_str LE = ''<=''"

fun match_op_str :: "match_op \<Rightarrow> bool \<Rightarrow> string" where
  "match_op_str LIKE neg = (if neg then ''not like'' else ''like'')"
| "match_op_str ILIKE neg = (if neg then ''not ilike'' else ''ilike'')"
| "match_op_str REGEX neg = (if neg then ''!~'' else ''~'')"
| "match_op_str IREGEX neg = (if neg then ''!~*'' else ''~*'')"
| "match_op_str ICONTAINS neg = ''??''"

definition quote :: "string \<Rightarrow> string" where "quote s = ''\"'' @ s @ ''\"''"

fun literal_to_string :: "literal \<Rightarrow> string" where
  "literal_to_string (LStr s) = quote s"
| "literal_to_string (LBool b) = (if b then ''true'' else ''false'')"
| "literal_to_string (LI64 i) = show_int i"
| "literal_to_string (LU64 n) = show_nat n"
| "literal_to_string (LF64 r) = fmt_g r"

fun array_elems_to_string :: "literal list \<Rightarrow> string" where
  "array_elems_to_string [] = []"
| "array_elems_to_string [v] = literal_to_string v"
| "array_elems_to_string (v # w # vs) =
     literal_to_string v @ '', '' @ array_elems_to_string (w # vs)"

definition array_to_string :: "literal list \<Rightarrow> string" where
  "array_to_string vs = ''['' @ array_elems_to_string vs @ '']''"

fun node_to_string :: "query_node \<Rightarrow> string" where
  "node_to_string (CompareNode f op v) =
     f @ '' '' @ compare_op_str op @ '' '' @ literal_to_string v"
| "node_to_string (InNode f vs) = f @ '' in '' @ array_to_string vs"
| "node_to_string (NotInNode f vs) = f @ '' not in '' @ array_to_string vs"
| "node_to_string (MatchNode f op p neg c) =
     (if op = ICONTAINS
      then quote p @ (if neg then '' not in '' else '' in '') @ f
      else f @ '' '' @ match_op_str op neg @ '' '' @ quote p)"
| "node_to_string (AndNode a b) =
     ''('' @ node_to_string a @ '' and '' @ node_to_string b @ '')''"
| "node_to_string (OrNode a b) =
     ''('' @ node_to_string a @ '' or '' @ node_to_string b @ '')''"
| "node_to_string (NotNode a) = ''not ('' @ node_to_string a @ '')''"

section \<open>Referenced fields\<close>

fun collect_fields :: "query_node \<Rightarrow> string set" where
  "collect_fields (CompareNode f op v) = {f}"
| "collect_fields (InNode f vs) = {f}"
| "collect_fields (NotInNode f vs) = {f}"
| "collect_fields (MatchNode f op p neg c) = {f}"
| "collect_fields (AndNode a b) = collect_fields a \<union> collect_fields b"
| "collect_fields (OrNode a b) = collect_fields a \<union> collect_fields b"
| "collect_fields (NotNode a) = collect_fields a"

fun literals_of :: "query_node \<Rightarrow> literal set" where
  "literals_of (CompareNode f op v) = {v}"
| "literals_of (InNode f vs) = set vs"
| "literals_of (NotInNode f vs) = set vs"
| "literals_of (MatchNode f op p neg c) = {}"
| "literals_of (AndNode a b) = literals_of a \<union> literals_of b"
| "literals_of (OrNode a b) = literals_of a \<union> literals_of b"
| "literals_of (NotNode a) = literals_of a"

section \<open>The expression builder\<close>

text \<open>
  \<^verbatim>\<open>detail::literal\<close> for an integral argument casts it to \<^verbatim>\<open>int64_t\<close> first, so a 64-bit argument
  is given by its bit pattern.
\<close>

definition lit_of_integral :: "w64 \<Rightarrow> literal" where
  "lit_of_integral w = (let s = sint w in if 0 \<le> s then LU64 (nat s) else LI64 s)"

definition lit_of_bool :: "bool \<Rightarrow> literal" where "lit_of_bool b = LBool b"
definition lit_of_string :: "string \<Rightarrow> literal" where "lit_of_string s = LStr s"
definition lit_of_floating :: "f64 \<Rightarrow> literal" where "lit_of_floating r = LF64 r"

definition field_cmp :: "string \<Rightarrow> compare_op \<Rightarrow> literal \<Rightarrow> query_node" where
  "field_cmp name op v = CompareNode name op v"

definition field_in_i64 :: "string \<Rightarrow> w64 list \<Rightarrow> query_node" where
  "field_in_i64 name vs = InNode name (map lit_of_integral vs)"
definition field_in_str :: "string \<Rightarrow> string list \<Rightarrow> query_node" where
  "field_in_str name vs = InNode name (map LStr vs)"
definition field_not_in_i64 :: "string \<Rightarrow> w64 list \<Rightarrow> query_node" where
  "field_not_in_i64 name vs = NotInNode name (map lit_of_integral vs)"
definition field_not_in_str :: "string \<Rightarrow> string list \<Rightarrow> query_node" where
  "field_not_in_str name vs = NotInNode name (map LStr vs)"

definition field_match :: "string \<Rightarrow> match_op \<Rightarrow> string \<Rightarrow> bool \<Rightarrow> query_node" where
  "field_match name op p neg = MatchNode name op p neg None"

definition all_of :: "query_node \<Rightarrow> query_node \<Rightarrow> query_node" where "all_of a b = AndNode a b"
definition any_of :: "query_node \<Rightarrow> query_node \<Rightarrow> query_node" where "any_of a b = OrNode a b"
definition negate :: "query_node \<Rightarrow> query_node" where "negate a = NotNode a"

definition resolved_field :: "string \<Rightarrow> string" where
  "resolved_field name = ''resolved.'' @ name"

lemma lit_of_integral_wf [bounds_intro]: "lit_wf (lit_of_integral w)"
proof -
  have "- (2 ^ 63) \<le> sint w" "sint w < 2 ^ 63"
    using sint_ge [of w] sint_lt [of w] by simp_all
  then show ?thesis
    by (auto simp: lit_of_integral_def Let_def INT64_MIN_def INT64_MAX_def UINT64_MAX_def
        nat_le_iff)
qed

lemma finite_collect_fields: "finite (collect_fields q)"
  by (induction q) simp_all

end
