(* ===== verification/QueryLexer.thy ===== *)
theory QueryLexer
  imports Query
begin

text \<open>
  The tokenizer of the query DSL (\<^verbatim>\<open>tokenize\<close> in \<^verbatim>\<open>query/parser.cpp\<close>) and its error record.
  The scanner works on the rest of the input and the position it starts at; one iteration of the
  main loop is \<open>lex_one\<close>, which returns the token and the number of characters it consumed.
\<close>

record query_error =
  qe_message :: string
  qe_column :: nat
  qe_source :: string
  qe_indicator :: string

datatype token_kind =
    TK_IDENT | TK_STRING | TK_INT | TK_FLOAT | TK_BOOL
  | OP_EQ | OP_NE | OP_GT | OP_LT | OP_GE | OP_LE
  | OP_REGEX | OP_IREGEX | OP_NREGEX | OP_NIREGEX
  | KW_AND | KW_OR | KW_NOT | KW_IN | KW_LIKE | KW_ILIKE | KW_TRUE | KW_FALSE
  | LPAREN | RPAREN | LBRACKET | RBRACKET | COMMA | END

datatype token = Token (tk_kind: token_kind) (tk_text: string) (tk_column: nat)

definition query_error_format :: "query_error \<Rightarrow> string" where
  "query_error_format e =
     ''Query parse error at column '' @ show_nat (qe_column e) @ '':\<newline>''
     @ ''  '' @ qe_source e @ ''\<newline>'' @ ''  '' @ qe_indicator e @ ''\<newline>''
     @ ''  '' @ qe_message e @ ''\<newline>''"

section \<open>Character and word tests\<close>

definition is_ident_start :: "char \<Rightarrow> bool" where
  "is_ident_start c \<longleftrightarrow> is_alpha c \<or> c = CHR ''_''"

definition is_ident_char :: "char \<Rightarrow> bool" where
  "is_ident_char c \<longleftrightarrow> is_alnum c \<or> c = CHR ''_'' \<or> c = CHR ''.''"

definition iequals :: "string \<Rightarrow> string \<Rightarrow> bool" where
  "iequals a b \<longleftrightarrow> length a = length b \<and> map to_lower a = map to_lower b"

definition mk_error :: "string \<Rightarrow> nat \<Rightarrow> nat \<Rightarrow> string \<Rightarrow> query_error" where
  "mk_error source col len msg =
     \<lparr>qe_message = msg, qe_column = col, qe_source = source,
      qe_indicator = replicate col (CHR '' '') @
        (if 0 < len then ''^'' @ replicate (len - 1) (CHR ''~'') else ''^'')\<rparr>"

section \<open>One token\<close>

text \<open>Operators and punctuation, in the order the code tests them.\<close>

definition lex_operator :: "char \<Rightarrow> string \<Rightarrow> (token_kind \<times> nat) option" where
  "lex_operator c r =
     (if c = CHR ''='' \<and> r \<noteq> [] \<and> hd r = CHR ''='' then Some (OP_EQ, 2)
      else if c = CHR ''!'' \<and> r \<noteq> [] \<and> hd r = CHR ''='' then Some (OP_NE, 2)
      else if c = CHR ''!'' \<and> r \<noteq> [] \<and> hd r = CHR ''~'' then
        (if tl r \<noteq> [] \<and> hd (tl r) = CHR ''*'' then Some (OP_NIREGEX, 3) else Some (OP_NREGEX, 2))
      else if c = CHR ''>'' \<and> r \<noteq> [] \<and> hd r = CHR ''='' then Some (OP_GE, 2)
      else if c = CHR ''<'' \<and> r \<noteq> [] \<and> hd r = CHR ''='' then Some (OP_LE, 2)
      else if c = CHR ''>'' then Some (OP_GT, 1)
      else if c = CHR ''<'' then Some (OP_LT, 1)
      else if c = CHR ''~'' then
        (if r \<noteq> [] \<and> hd r = CHR ''*'' then Some (OP_IREGEX, 2) else Some (OP_REGEX, 1))
      else if c = CHR ''('' then Some (LPAREN, 1)
      else if c = CHR '')'' then Some (RPAREN, 1)
      else if c = CHR ''['' then Some (LBRACKET, 1)
      else if c = CHR '']'' then Some (RBRACKET, 1)
      else if c = CHR '','' then Some (COMMA, 1)
      else None)"

text \<open>
  The body of a string literal behind its opening quote: the number of characters before the
  closing quote, \<open>None\<close> when there is none. A backslash hides the character after it.
\<close>

fun scan_string :: "char \<Rightarrow> string \<Rightarrow> nat option" where
  "scan_string q [] = None"
| "scan_string q (c # r) =
     (if c = q then Some 0
      else if c = CHR 0x5C \<and> r \<noteq> [] then map_option (\<lambda>n. n + 2) (scan_string q (tl r))
      else map_option Suc (scan_string q r))"

definition is_number_char :: "char \<Rightarrow> bool" where
  "is_number_char c \<longleftrightarrow> is_digit c \<or> c \<in> {CHR ''.'', CHR ''e'', CHR ''E'', CHR ''+'', CHR ''-''}"

definition is_float_char :: "char \<Rightarrow> bool" where
  "is_float_char c \<longleftrightarrow> c \<in> {CHR ''.'', CHR ''e'', CHR ''E''}"

text \<open>The loop over \<^verbatim>\<open>[digits]\<close> groups abutting an identifier: the characters it consumes.\<close>

function scan_brackets :: "string \<Rightarrow> nat" where
  "scan_brackets s =
     (if s \<noteq> [] \<and> hd s = CHR ''['' then
        (let ds = takeWhile is_digit (tl s); r = dropWhile is_digit (tl s)
         in if ds \<noteq> [] \<and> r \<noteq> [] \<and> hd r = CHR '']''
            then length ds + 2 + scan_brackets (tl r) else 0)
      else 0)"
  by pat_completeness auto
termination
proof (relation "measure length", goal_cases)
  case (2 s ds r)
  have "length (dropWhile is_digit (tl s)) \<le> length (tl s)" by (rule length_dropWhile_le)
  with 2 show ?case by (cases s) (auto simp: le_diff_conv less_Suc_eq_le)
qed simp

declare scan_brackets.simps [simp del]

definition keyword_kind :: "string \<Rightarrow> token_kind" where
  "keyword_kind t =
     (if iequals t ''and'' then KW_AND else if iequals t ''or'' then KW_OR
      else if iequals t ''not'' then KW_NOT else if iequals t ''in'' then KW_IN
      else if iequals t ''like'' then KW_LIKE else if iequals t ''ilike'' then KW_ILIKE
      else if iequals t ''true'' then KW_TRUE else if iequals t ''false'' then KW_FALSE
      else TK_IDENT)"

text \<open>
  One iteration of the loop at a non-blank character \<open>c\<close> at position \<open>start\<close>, with \<open>r\<close> behind it:
  the token and the characters consumed.
\<close>

definition lex_one :: "string \<Rightarrow> nat \<Rightarrow> char \<Rightarrow> string \<Rightarrow> query_error + (token \<times> nat)" where
  "lex_one input start c r =
     (case lex_operator c r of
        Some (k, n) \<Rightarrow> Inr (Token k (take n (c # r)) start, n)
      | None \<Rightarrow>
        if c = CHR 0x22 \<or> c = CHR 0x27 then
          (case scan_string c r of
             Some n \<Rightarrow> Inr (Token TK_STRING (take n r) start, n + 2)
           | None \<Rightarrow> Inl (mk_error input start (length (c # r)) ''Unterminated string literal''))
        else if is_digit c \<or> (c = CHR ''-'' \<and> r \<noteq> [] \<and> is_digit (hd r)) then
          (let t = takeWhile is_number_char r
           in Inr (Token (if list_ex is_float_char t then TK_FLOAT else TK_INT) (c # t) start,
                   length t + 1))
        else if is_ident_start c then
          (let t = takeWhile is_ident_char r;
               n = 1 + length t + scan_brackets (dropWhile is_ident_char r);
               txt = take n (c # r)
           in Inr (Token (keyword_kind txt) txt start, n))
        else Inl (mk_error input start 1 (''Unexpected character '' @ [CHR 0x27, c, CHR 0x27])))"

lemma lex_operator_pos: "lex_operator c r = Some (k, n) \<Longrightarrow> 0 < n"
  by (auto simp: lex_operator_def split: if_splits)

lemma lex_one_pos: "lex_one input start c r = Inr (t, n) \<Longrightarrow> 0 < n"
  by (auto simp: lex_one_def Let_def dest: lex_operator_pos split: option.splits if_splits)

section \<open>The token stream\<close>

function lex_loop :: "string \<Rightarrow> nat \<Rightarrow> string \<Rightarrow> query_error + token list" where
  "lex_loop input pos [] = Inr [Token END [] (length input)]"
| "lex_loop input pos (c # r) =
     (if is_space c then lex_loop input (pos + 1) r
      else (case lex_one input pos c r of
              Inl e \<Rightarrow> Inl e
            | Inr (t, n) \<Rightarrow>
                (case lex_loop input (pos + n) (drop n (c # r)) of
                   Inl e \<Rightarrow> Inl e | Inr ts \<Rightarrow> Inr (t # ts))))"
  by pat_completeness auto
termination
  by (relation "measure (\<lambda>(input, pos, s). length s)") (auto dest!: sym [of "Inr _"] lex_one_pos)

declare lex_loop.simps(2) [simp del]

definition tokenize :: "string \<Rightarrow> query_error + token list" where
  "tokenize input = lex_loop input 0 input"

end
