(* ===== verification/QueryParser.thy ===== *)
theory QueryParser
  imports QueryLexer
begin

text \<open>
  The recursive-descent parser of \<^verbatim>\<open>query/parser.cpp\<close> and the \<^verbatim>\<open>Query\<close> class of
  \<^verbatim>\<open>query/query.cpp\<close>. The parser's position is the list of tokens it has not consumed; reading
  behind the last token is undefined in C++ and answers \<open>END\<close> here, which no production consumes.

  The productions call each other on the same token, so they carry fuel: \<open>None\<close> is "out of fuel",
  \<open>Some\<close> of a sum the value the C++ function returns. \<open>parse_tokens\<close> supplies six units per token
  plus four, and \<open>parse_tokens_total\<close> shows that this is always enough.

  \<^verbatim>\<open>std::regex\<close> is a parameter: what its constructor throws for a flag and a source text, and
  what \<^verbatim>\<open>std::regex_search\<close> answers on a subject.
\<close>

record regex_lib =
  rx_error :: "bool \<Rightarrow> string \<Rightarrow> string option"
  rx_search :: "bool \<Rightarrow> string \<Rightarrow> string \<Rightarrow> bool"

section \<open>Patterns\<close>

definition escaped_chars :: "char list" where
  "escaped_chars = [CHR ''.'', CHR 0x5C, CHR ''+'', CHR ''*'', CHR ''?'', CHR ''('', CHR '')'',
     CHR ''['', CHR '']'', CHR ''{'', CHR ''}'', CHR ''^'', CHR ''$'', CHR ''|'']"

definition append_escaped :: "char \<Rightarrow> string" where
  "append_escaped c = (if c \<in> set escaped_chars then [CHR 0x5C, c] else [c])"

definition like_to_regex :: "string \<Rightarrow> string" where
  "like_to_regex like =
     ''^'' @ concat (map (\<lambda>c. if c = CHR ''%'' then ''.*'' else if c = CHR ''_'' then ''.''
                              else append_escaped c) like) @ ''$''"

definition contains_to_regex :: "string \<Rightarrow> string" where
  "contains_to_regex sub = concat (map append_escaped sub)"

fun pattern_source :: "match_op \<Rightarrow> string \<Rightarrow> string" where
  "pattern_source LIKE p = like_to_regex p"
| "pattern_source ILIKE p = like_to_regex p"
| "pattern_source REGEX p = p"
| "pattern_source IREGEX p = p"
| "pattern_source ICONTAINS p = contains_to_regex p"

definition pattern_icase :: "match_op \<Rightarrow> bool" where
  "pattern_icase op \<longleftrightarrow> op \<in> {ILIKE, IREGEX, ICONTAINS}"

definition compile_pattern :: "regex_lib \<Rightarrow> match_op \<Rightarrow> string \<Rightarrow> string + compiled" where
  "compile_pattern R op p =
     (case rx_error R (pattern_icase op) (pattern_source op p) of
        None \<Rightarrow> Inr (Compiled (pattern_icase op) (pattern_source op p))
      | Some w \<Rightarrow> Inl w)"

section \<open>Token access\<close>

definition cur :: "token list \<Rightarrow> token" where
  "cur ts = (case ts of [] \<Rightarrow> Token END [] 0 | t # _ \<Rightarrow> t)"

abbreviation cur_kind :: "token list \<Rightarrow> token_kind" where "cur_kind ts \<equiv> tk_kind (cur ts)"
abbreviation cur_text :: "token list \<Rightarrow> string" where "cur_text ts \<equiv> tk_text (cur ts)"

lemma cur_simps [simp]: "cur [] = Token END [] 0" "cur (t # ts) = t"
  by (simp_all add: cur_def)

definition sq :: "string \<Rightarrow> string" where "sq s = [CHR 0x27] @ s @ [CHR 0x27]"

definition tok_len :: "token \<Rightarrow> nat" where
  "tok_len t = (if tk_text t = [] then 1 else length (tk_text t))"

definition perror :: "string \<Rightarrow> token list \<Rightarrow> string \<Rightarrow> query_error" where
  "perror src ts msg = mk_error src (tk_column (cur ts)) (tok_len (cur ts)) msg"

section \<open>The leaves of the grammar\<close>

definition parse_comp_op :: "string \<Rightarrow> token list \<Rightarrow> query_error + compare_op \<times> token list" where
  "parse_comp_op src ts =
     (case cur_kind ts of
        OP_EQ \<Rightarrow> Inr (EQ, tl ts) | OP_NE \<Rightarrow> Inr (NE, tl ts) | OP_GT \<Rightarrow> Inr (GT, tl ts)
      | OP_LT \<Rightarrow> Inr (LT, tl ts) | OP_GE \<Rightarrow> Inr (GE, tl ts) | OP_LE \<Rightarrow> Inr (LE, tl ts)
      | _ \<Rightarrow> Inl (perror src ts
          (''Expected comparison operator (==, !=, >, <, >=, <=), got '' @ sq (cur_text ts))))"

definition parse_value :: "string \<Rightarrow> token list \<Rightarrow> query_error + literal \<times> token list" where
  "parse_value src ts =
     (case cur_kind ts of
        TK_STRING \<Rightarrow> Inr (LStr (cur_text ts), tl ts)
      | TK_INT \<Rightarrow>
          (case from_chars_i64 (cur_text ts) of
             None \<Rightarrow> Inl (perror src ts (''Invalid integer: '' @ sq (cur_text ts)))
           | Some v \<Rightarrow> Inr (if 0 \<le> v then LU64 (nat v) else LI64 v, tl ts))
      | TK_FLOAT \<Rightarrow>
          (case stod (cur_text ts) of
             None \<Rightarrow> Inl (perror src ts (''Invalid float: '' @ sq (cur_text ts)))
           | Some v \<Rightarrow> Inr (LF64 v, tl ts))
      | KW_TRUE \<Rightarrow> Inr (LBool True, tl ts)
      | KW_FALSE \<Rightarrow> Inr (LBool False, tl ts)
      | _ \<Rightarrow> Inl (perror src ts
          (''Expected value (string, number, or bool), got '' @ sq (cur_text ts))))"

lemma parse_value_rest: "parse_value src ts = Inr (v, ts') \<Longrightarrow> ts' = tl ts"
  by (auto simp: parse_value_def split: token_kind.splits option.splits)

text \<open>\<^verbatim>\<open>while (match(COMMA)) ... parse_value()\<close>.\<close>

function parse_commas ::
    "string \<Rightarrow> token list \<Rightarrow> query_error + literal list \<times> token list" where
  "parse_commas src ts =
     (if cur_kind ts = COMMA then
        (case parse_value src (tl ts) of
           Inl e \<Rightarrow> Inl e
         | Inr (v, ts') \<Rightarrow>
             (case parse_commas src ts' of
                Inl e \<Rightarrow> Inl e | Inr (vs, ts'') \<Rightarrow> Inr (v # vs, ts'')))
      else Inr ([], ts))"
  by pat_completeness auto
termination
proof (relation "measure (\<lambda>(src, ts). length ts)", goal_cases)
  case (2 src ts pr v ts')
  then have "ts' = tl (tl ts)" by (auto dest!: sym [of "Inr _"] parse_value_rest)
  with 2 show ?case by (cases ts) (auto simp: less_Suc_eq_le)
qed simp

declare parse_commas.simps [simp del]

definition parse_array :: "string \<Rightarrow> token list \<Rightarrow> query_error + literal list \<times> token list" where
  "parse_array src ts =
     (if cur_kind ts \<noteq> LBRACKET then Inl (perror src ts (''Expected '' @ sq ''[''))
      else
        let ts = tl ts in
        ebind (if cur_kind ts \<noteq> RBRACKET
               then ebind (parse_value src ts)
                      (\<lambda>(v, ts). ebind (parse_commas src ts) (\<lambda>(vs, ts). Inr (v # vs, ts)))
               else Inr ([], ts))
          (\<lambda>(vs, ts). if cur_kind ts = RBRACKET then Inr (vs, tl ts)
                      else Inl (perror src ts (''Expected '' @ sq '']'' @ '' or '' @ sq '',''))))"

definition match_node :: "regex_lib \<Rightarrow> string \<Rightarrow> string \<Rightarrow> match_op \<Rightarrow> bool \<Rightarrow> token \<Rightarrow>
    query_error + query_node" where
  "match_node R src field op neg tok =
     (case compile_pattern R op (tk_text tok) of
        Inl w \<Rightarrow> Inl (mk_error src (tk_column tok) (tok_len tok) (''Invalid pattern: '' @ w))
      | Inr cp \<Rightarrow> Inr (MatchNode field op (tk_text tok) neg (Some cp)))"

definition parse_match :: "regex_lib \<Rightarrow> string \<Rightarrow> string \<Rightarrow> match_op \<Rightarrow> bool \<Rightarrow> token list \<Rightarrow>
    query_error + query_node \<times> token list" where
  "parse_match R src field op neg ts =
     (if cur_kind ts \<noteq> TK_STRING
      then Inl (perror src ts (''Expected string pattern, got '' @ sq (cur_text ts)))
      else ebind (match_node R src field op neg (cur ts)) (\<lambda>q. Inr (q, tl ts)))"

definition parse_contains :: "regex_lib \<Rightarrow> string \<Rightarrow> token list \<Rightarrow>
    query_error + query_node \<times> token list" where
  "parse_contains R src ts =
     (let tok = cur ts; ts = tl ts in
      ebind (if cur_kind ts = KW_NOT then
               (if tl ts \<noteq> [] \<and> cur_kind (tl ts) = KW_IN then Inr (True, tl (tl ts))
                else Inl (perror src ts (''Expected '' @ sq ''in'' @ '' after '' @ sq ''not'')))
             else if cur_kind ts = KW_IN then Inr (False, tl ts)
             else Inl (perror src ts (''Expected '' @ sq ''in'' @ '' after string literal, got ''
                                      @ sq (cur_text ts))))
        (\<lambda>(neg, ts).
           if cur_kind ts \<noteq> TK_IDENT
           then Inl (perror src ts (''Expected field name after '' @ sq ''in'' @ '', got ''
                                    @ sq (cur_text ts)))
           else ebind (match_node R src (cur_text ts) ICONTAINS neg tok) (\<lambda>q. Inr (q, tl ts))))"

text \<open>\<^verbatim>\<open>parse_primary\<close> behind its test for an opening parenthesis.\<close>

definition parse_leaf :: "regex_lib \<Rightarrow> string \<Rightarrow> token list \<Rightarrow>
    query_error + query_node \<times> token list" where
  "parse_leaf R src ts =
     (if cur_kind ts = TK_STRING then parse_contains R src ts
      else if cur_kind ts \<noteq> TK_IDENT
      then Inl (perror src ts (''Expected field name, string, or '' @ sq ''('' @ '', got ''
                               @ sq (cur_text ts)))
      else
        let field = cur_text ts; ts = tl ts;
            nxt = (if cur_kind ts = KW_NOT \<and> tl ts \<noteq> [] then cur_kind (tl ts) else END) in
        if cur_kind ts = KW_IN
        then ebind (parse_array src (tl ts)) (\<lambda>(vs, ts). Inr (InNode field vs, ts))
        else if nxt = KW_IN
        then ebind (parse_array src (tl (tl ts))) (\<lambda>(vs, ts). Inr (NotInNode field vs, ts))
        else if nxt = KW_LIKE \<or> nxt = KW_ILIKE
        then parse_match R src field (if nxt = KW_LIKE then LIKE else ILIKE) True (tl (tl ts))
        else (case cur_kind ts of
            KW_LIKE \<Rightarrow> parse_match R src field LIKE False (tl ts)
          | KW_ILIKE \<Rightarrow> parse_match R src field ILIKE False (tl ts)
          | OP_REGEX \<Rightarrow> parse_match R src field REGEX False (tl ts)
          | OP_IREGEX \<Rightarrow> parse_match R src field IREGEX False (tl ts)
          | OP_NREGEX \<Rightarrow> parse_match R src field REGEX True (tl ts)
          | OP_NIREGEX \<Rightarrow> parse_match R src field IREGEX True (tl ts)
          | _ \<Rightarrow> ebind (parse_comp_op src ts)
                   (\<lambda>(op, ts). ebind (parse_value src ts)
                      (\<lambda>(v, ts). Inr (CompareNode field op v, ts)))))"

section \<open>The recursive productions\<close>

definition pbind :: "('e + 'a) option \<Rightarrow> ('a \<Rightarrow> ('e + 'b) option) \<Rightarrow> ('e + 'b) option" where
  "pbind r f = (case r of None \<Rightarrow> None | Some (Inl e) \<Rightarrow> Some (Inl e) | Some (Inr a) \<Rightarrow> f a)"

lemma pbind_simps [simp]:
  "pbind None f = None" "pbind (Some (Inl e)) f = Some (Inl e)" "pbind (Some (Inr a)) f = f a"
  by (simp_all add: pbind_def)

type_synonym parse_result = "(query_error + query_node \<times> token list) option"

text \<open>
  The mutual recursion is tied by \<open>run\<close>: a production is given what the productions it calls
  return (\<open>call\<close>), and \<open>run\<close> spends one unit of fuel per call. The two \<^verbatim>\<open>while\<close> loops are
  productions of their own, carrying the left operand built so far.
\<close>

datatype production =
    P_or | P_or_loop query_node | P_and | P_and_loop query_node | P_not | P_primary

type_synonym call = "production \<Rightarrow> token list \<Rightarrow> parse_result"

definition parse_or :: "call \<Rightarrow> token list \<Rightarrow> parse_result" where
  "parse_or call ts = pbind (call P_and ts) (\<lambda>(l, ts). call (P_or_loop l) ts)"

definition or_loop :: "call \<Rightarrow> query_node \<Rightarrow> token list \<Rightarrow> parse_result" where
  "or_loop call l ts =
     (if cur_kind ts = KW_OR
      then pbind (call P_and (tl ts)) (\<lambda>(r, ts). call (P_or_loop (OrNode l r)) ts)
      else Some (Inr (l, ts)))"

definition parse_and :: "call \<Rightarrow> token list \<Rightarrow> parse_result" where
  "parse_and call ts = pbind (call P_not ts) (\<lambda>(l, ts). call (P_and_loop l) ts)"

definition and_loop :: "call \<Rightarrow> query_node \<Rightarrow> token list \<Rightarrow> parse_result" where
  "and_loop call l ts =
     (if cur_kind ts = KW_AND
      then pbind (call P_not (tl ts)) (\<lambda>(r, ts). call (P_and_loop (AndNode l r)) ts)
      else Some (Inr (l, ts)))"

definition parse_not :: "call \<Rightarrow> token list \<Rightarrow> parse_result" where
  "parse_not call ts =
     (if cur_kind ts = KW_NOT
      then pbind (call P_not (tl ts)) (\<lambda>(a, ts). Some (Inr (NotNode a, ts)))
      else call P_primary ts)"

definition parse_primary :: "regex_lib \<Rightarrow> string \<Rightarrow> call \<Rightarrow> token list \<Rightarrow> parse_result" where
  "parse_primary R src call ts =
     (if cur_kind ts = LPAREN
      then pbind (call P_or (tl ts))
             (\<lambda>(q, ts). Some (if cur_kind ts = RPAREN then Inr (q, tl ts)
                              else Inl (perror src ts (''Expected '' @ sq '')''))))
      else Some (parse_leaf R src ts))"

fun production_body ::
    "regex_lib \<Rightarrow> string \<Rightarrow> call \<Rightarrow> production \<Rightarrow> token list \<Rightarrow> parse_result" where
  "production_body R src call P_or ts = parse_or call ts"
| "production_body R src call (P_or_loop l) ts = or_loop call l ts"
| "production_body R src call P_and ts = parse_and call ts"
| "production_body R src call (P_and_loop l) ts = and_loop call l ts"
| "production_body R src call P_not ts = parse_not call ts"
| "production_body R src call P_primary ts = parse_primary R src call ts"

primrec run :: "regex_lib \<Rightarrow> string \<Rightarrow> nat \<Rightarrow> production \<Rightarrow> token list \<Rightarrow> parse_result" where
  "run R src 0 = (\<lambda>p ts. None)"
| "run R src (Suc n) = production_body R src (run R src n)"

definition parse_fuel :: "token list \<Rightarrow> nat" where "parse_fuel ts = 6 * length ts + 4"

definition parse_tokens :: "regex_lib \<Rightarrow> token list \<Rightarrow> string \<Rightarrow>
    (query_error + query_node) option" where
  "parse_tokens R toks src =
     pbind (run R src (parse_fuel toks) P_or toks)
       (\<lambda>(q, ts). Some (if cur_kind ts = END then Inr q
           else Inl (perror src ts (''Expected '' @ sq ''and'' @ '', '' @ sq ''or''
                                    @ '', or end of query, got '' @ sq (cur_text ts)))))"

definition parse :: "regex_lib \<Rightarrow> string \<Rightarrow> (query_error + query_node) option" where
  "parse R input =
     (case tokenize input of Inl e \<Rightarrow> Some (Inl e) | Inr toks \<Rightarrow> parse_tokens R toks input)"

section \<open>The Query class\<close>

record query =
  q_root :: query_node
  q_source :: string
  q_fields :: "string set"

definition query_from_string :: "regex_lib \<Rightarrow> string \<Rightarrow> (query_error + query) option" where
  "query_from_string R input =
     pbind (parse R input)
       (\<lambda>q. Some (Inr \<lparr>q_root = q, q_source = input, q_fields = collect_fields q\<rparr>))"

text \<open>The copy constructor re-parses the source text; \<open>Inl\<close> is the exception it throws.\<close>

definition query_copy :: "regex_lib \<Rightarrow> query \<Rightarrow> (query_error + query) option" where
  "query_copy R other =
     pbind (parse R (q_source other))
       (\<lambda>q. Some (Inr \<lparr>q_root = q, q_source = q_source other, q_fields = q_fields other\<rparr>))"

definition try_parse :: "regex_lib \<Rightarrow> string \<Rightarrow> query option option" where
  "try_parse R input =
     map_option (\<lambda>r. case r of Inl e \<Rightarrow> None | Inr q \<Rightarrow> Some q) (query_from_string R input)"

section \<open>Every production returns\<close>

named_theorems rest_shorter \<open>what a production leaves is no longer than its input\<close>

lemma length_tl_le: "length (tl ts) \<le> length ts"
  by (cases ts) auto

lemma parse_commas_rest [rest_shorter]:
  "parse_commas src ts = Inr (vs, ts') \<Longrightarrow> length ts' \<le> length ts"
proof (induction src ts arbitrary: vs ts' rule: parse_commas.induct)
  case (1 src ts)
  show ?case
  proof (cases "cur_kind ts = COMMA")
    case True
    with "1.prems" obtain v ts1 vs1 where v: "parse_value src (tl ts) = Inr (v, ts1)"
        and c: "parse_commas src ts1 = Inr (vs1, ts')"
      by (auto simp: parse_commas.simps [of src ts] split: sum.splits prod.splits)
    from "1.IH" [OF True v refl c] v show ?thesis
      using length_tl_le [of ts] length_tl_le [of "tl ts"] by (auto dest!: parse_value_rest)
  next
    case False
    with "1.prems" show ?thesis by (simp add: parse_commas.simps [of src ts])
  qed
qed

lemma ebind_split_InrE:
  assumes "ebind r f = Inr b" obtains a where "r = Inr a" "f a = Inr b"
  using assms by (auto simp: ebind_Inr_conv)

lemma pbind_Inr_conv: "pbind r f = Some (Inr b) \<longleftrightarrow> (\<exists>a. r = Some (Inr a) \<and> f a = Some (Inr b))"
  by (auto simp: pbind_def split: option.splits sum.splits)

lemma parse_array_rest [rest_shorter]:
  assumes "parse_array src ts = Inr (vs, ts')" shows "length ts' \<le> length ts"
proof -
  obtain vs0 ts0 where e: "(if cur_kind (tl ts) \<noteq> RBRACKET
               then ebind (parse_value src (tl ts))
                      (\<lambda>(v, ts). ebind (parse_commas src ts) (\<lambda>(vs, ts). Inr (v # vs, ts)))
               else Inr ([], tl ts)) = Inr (vs0, ts0)" and t: "ts' = tl ts0"
    using assms by (auto simp: parse_array_def Let_def ebind_Inr_conv split: if_splits)
  have "length ts0 \<le> length ts"
  proof (cases "cur_kind (tl ts) = RBRACKET")
    case False
    with e obtain v ts1 vs1 where "parse_value src (tl ts) = Inr (v, ts1)"
        "parse_commas src ts1 = Inr (vs1, ts0)"
      by (auto simp: ebind_Inr_conv)
    then show ?thesis
      using parse_commas_rest [of src ts1 vs1 ts0] by (auto dest!: parse_value_rest)
  qed (use e in auto)
  with t show ?thesis using length_tl_le [of ts0] by simp
qed

lemma parse_match_rest [rest_shorter]:
  "parse_match R src f op neg ts = Inr (q, ts') \<Longrightarrow> length ts' \<le> length ts"
  by (auto simp: parse_match_def ebind_Inr_conv split: if_splits)

lemma parse_contains_rest [rest_shorter]:
  "parse_contains R src ts = Inr (q, ts') \<Longrightarrow> length ts' \<le> length ts"
  by (auto simp: parse_contains_def Let_def ebind_Inr_conv split: if_splits)

lemma parse_comp_op_rest: "parse_comp_op src ts = Inr (op, ts') \<Longrightarrow> ts' = tl ts"
  by (auto simp: parse_comp_op_def split: token_kind.splits)

lemma parse_cmp_rest [rest_shorter]:
  "ebind (parse_comp_op src ts) (\<lambda>(op, ts). ebind (parse_value src ts)
      (\<lambda>(v, ts). Inr (CompareNode field op v, ts))) = Inr (q, ts') \<Longrightarrow> length ts' \<le> length ts"
  by (auto simp: ebind_Inr_conv dest!: parse_value_rest parse_comp_op_rest)

lemma parse_leaf_rest [rest_shorter]:
  assumes "parse_leaf R src ts = Inr (q, ts')" shows "length ts' \<le> length ts"
proof (cases "cur_kind ts = TK_STRING \<or> cur_kind ts \<noteq> TK_IDENT")
  case True
  with assms parse_contains_rest show ?thesis by (auto simp: parse_leaf_def split: if_splits)
next
  case False
  let ?n = "if cur_kind (tl ts) = KW_NOT \<and> tl (tl ts) \<noteq> [] then cur_kind (tl (tl ts)) else END"
  note d = assms [unfolded parse_leaf_def Let_def]
  have l: "length (tl ts) \<le> length ts" "length (tl (tl ts)) \<le> length ts"
      "length (tl (tl (tl ts))) \<le> length ts" by simp_all
  show ?thesis
  proof (cases "cur_kind (tl ts) = KW_IN \<or> ?n = KW_IN \<or> ?n = KW_LIKE \<or> ?n = KW_ILIKE")
    case True
    with False d l show ?thesis
      by (auto simp: ebind_Inr_conv split: if_splits dest!: rest_shorter)
  next
    case no: False
    with False d l show ?thesis
      apply (simp split: token_kind.splits if_splits)
      apply (auto dest!: rest_shorter)
      done
  qed
qed

lemma run_rest: "run R src n p ts = Some (Inr (q, ts')) \<Longrightarrow> length ts' \<le> length ts"
proof (induction n arbitrary: p ts q ts')
  case (Suc n)
  note ih = Suc.IH and prem = Suc.prems
  have tl: "length (tl ts) \<le> length ts" by simp
  show ?case
  proof (cases p)
    case P_primary
    show ?thesis
    proof (cases "cur_kind ts = LPAREN")
      case True
      with prem P_primary obtain q1 ts1 where "run R src n P_or (tl ts) = Some (Inr (q1, ts1))"
          "ts' = tl ts1"
        by (auto simp: parse_primary_def pbind_Inr_conv split: if_splits)
      with ih [of P_or "tl ts" q1 ts1] tl show ?thesis by simp
    qed (use prem P_primary in \<open>auto simp: parse_primary_def dest: parse_leaf_rest\<close>)
  qed (use prem in \<open>auto simp: parse_or_def or_loop_def parse_and_def and_loop_def parse_not_def
         pbind_Inr_conv split: if_splits dest!: ih\<close>)
qed simp

fun fuel_need :: "production \<Rightarrow> nat" where
  "fuel_need P_or = 4"
| "fuel_need (P_or_loop l) = 1"
| "fuel_need P_and = 3"
| "fuel_need (P_and_loop l) = 1"
| "fuel_need P_not = 2"
| "fuel_need P_primary = 1"

lemma fuel_need_pos [simp]: "fuel_need p \<noteq> 0"
  by (cases p) simp_all

lemma cur_kind_not_END: "cur_kind ts \<noteq> END \<Longrightarrow> ts \<noteq> []"
  by auto

lemma pbind_ne_None: "r \<noteq> None \<Longrightarrow> (\<And>a. r = Some (Inr a) \<Longrightarrow> f a \<noteq> None) \<Longrightarrow> pbind r f \<noteq> None"
  by (auto simp: pbind_def split: sum.splits)

lemma run_enough: "6 * length ts + fuel_need p \<le> n \<Longrightarrow> run R src n p ts \<noteq> None"
proof (induction n arbitrary: p ts)
  case (Suc n)
  have step: "6 * length us + fuel_need p' \<le> n \<Longrightarrow> run R src n p' us \<noteq> None" for us p'
    by (rule Suc.IH)
  have chain: "pbind (run R src n p1 us) (\<lambda>(l, vs). run R src n (p2 l) vs) \<noteq> None"
    if "6 * length us + fuel_need p1 \<le> n" "\<And>l. 6 * length us + fuel_need (p2 l) \<le> n"
    for p1 p2 us
  proof (rule pbind_ne_None [OF step [OF that(1)]])
    fix a assume a: "run R src n p1 us = Some (Inr a)"
    obtain l vs where lv: "a = (l, vs)" by (cases a)
    with a run_rest [of R src n p1 us l vs] have "length vs \<le> length us" by simp
    with that(2) [of l] have "run R src n (p2 l) vs \<noteq> None" by (intro step) simp
    with lv show "(\<lambda>(l, vs). run R src n (p2 l) vs) a \<noteq> None" by simp
  qed
  have tl: "6 * length (tl ts) + 6 = 6 * length ts" if "cur_kind ts \<noteq> END"
    using cur_kind_not_END [OF that] by (cases ts) simp_all
  show ?case
  proof (cases p)
    case P_or
    with Suc.prems chain [of ts P_and P_or_loop] show ?thesis by (simp add: parse_or_def)
  next
    case (P_or_loop l)
    with Suc.prems tl chain [of "tl ts" P_and "\<lambda>r. P_or_loop (OrNode l r)"] show ?thesis
      by (auto simp: or_loop_def)
  next
    case P_and
    with Suc.prems chain [of ts P_not P_and_loop] show ?thesis by (simp add: parse_and_def)
  next
    case (P_and_loop l)
    with Suc.prems tl chain [of "tl ts" P_not "\<lambda>r. P_and_loop (AndNode l r)"] show ?thesis
      by (auto simp: and_loop_def)
  next
    case P_not
    with Suc.prems tl step [of ts P_primary]
      pbind_ne_None [OF step [of "tl ts" P_not], of "\<lambda>(a, ts). Some (Inr (NotNode a, ts))"]
    show ?thesis by (auto simp: parse_not_def split: prod.splits)
  next
    case P_primary
    have "pbind (run R src n P_or (tl ts)) (\<lambda>(q, ts). Some (g q ts)) \<noteq> None"
      if "cur_kind ts = LPAREN" for g :: "query_node \<Rightarrow> token list \<Rightarrow> _"
      using Suc.prems P_primary tl that by (intro pbind_ne_None step) (auto split: prod.splits)
    from this [of "\<lambda>q ts. if cur_kind ts = RPAREN then Inr (q, tl ts) else _ ts"] P_primary
    show ?thesis by (auto simp: parse_primary_def)
  qed
qed simp

lemma parse_tokens_total: "parse_tokens R toks src \<noteq> None"
  unfolding parse_tokens_def parse_fuel_def
  by (rule pbind_ne_None [OF run_enough]) auto

text \<open>More fuel does not change a result.\<close>

lemma pbind_mono:
  "pbind r f = Some x \<Longrightarrow> (\<And>y. r = Some y \<Longrightarrow> r' = Some y) \<Longrightarrow>
   (\<And>a y. f a = Some y \<Longrightarrow> g a = Some y) \<Longrightarrow> pbind r' g = Some x"
  by (auto simp: pbind_def split: option.splits sum.splits)

lemma run_Suc: "run R src n p ts = Some x \<Longrightarrow> run R src (Suc n) p ts = Some x"
proof (induction n arbitrary: p ts x)
  case (Suc n)
  note up = Suc.IH
  from Suc.prems have "production_body R src (run R src n) p ts = Some x" by simp
  then have "production_body R src (run R src (Suc n)) p ts = Some x"
    by (cases p)
       (auto simp: parse_or_def or_loop_def parse_and_def and_loop_def parse_not_def
          parse_primary_def simp del: run.simps split: if_splits elim!: pbind_mono dest: up)
  then show ?case by simp
qed simp

lemma run_mono: "n \<le> m \<Longrightarrow> run R src n p ts = Some x \<Longrightarrow> run R src m p ts = Some x"
  by (induction m rule: dec_induct) (simp_all del: run.simps add: run_Suc)

lemma parse_tokens_run:
  assumes "run R src n P_or toks = Some (Inr (q, ts))" "cur_kind ts = END"
  shows "parse_tokens R toks src = Some (Inr q)"
proof -
  obtain y where y: "run R src (parse_fuel toks) P_or toks = Some y"
    using run_enough [of toks P_or "parse_fuel toks" R src] by (auto simp: parse_fuel_def)
  have "y = Inr (q, ts)"
    using run_mono [OF max.cobounded1 y, of n] run_mono [OF max.cobounded2 assms(1), of "parse_fuel toks"]
    by simp
  with y assms(2) show ?thesis by (simp add: parse_tokens_def)
qed

end
