(* ===== verification/QueryRoundtrip.thy ===== *)
theory QueryRoundtrip
  imports QueryParser
begin

text \<open>
  Rendering and parsing are inverse (\<^verbatim>\<open>query/ast_string.h\<close> against \<^verbatim>\<open>query/parser.cpp\<close>). The
  proof goes through the token level: \<open>node_pattern\<close> is the token sequence a query renders to,
  \<open>parse_pattern\<close> parses it back with the derivation rules of the grammar, and \<open>lexes_node\<close> shows
  that the scanner finds exactly these tokens in the text. \<open>renderable\<close> says which queries this
  holds for: field names the scanner reads as one identifier, strings it can quote, integers in
  the form the parser gives them, doubles whose \<^verbatim>\<open>%g\<close> text reads back as the same double, and
  patterns that compile.
\<close>

section \<open>Tokens of a rendered query\<close>

type_synonym tok_pattern = "(token_kind \<times> string) list"

definition tok_match :: "token list \<Rightarrow> tok_pattern \<Rightarrow> bool" where
  "tok_match ts p \<longleftrightarrow> map (\<lambda>t. (tk_kind t, tk_text t)) ts = p"

fun compare_op_kind :: "compare_op \<Rightarrow> token_kind" where
  "compare_op_kind EQ = OP_EQ" | "compare_op_kind NE = OP_NE" | "compare_op_kind GT = OP_GT"
| "compare_op_kind LT = OP_LT" | "compare_op_kind GE = OP_GE" | "compare_op_kind LE = OP_LE"

fun literal_pattern :: "literal \<Rightarrow> tok_pattern" where
  "literal_pattern (LStr s) = [(TK_STRING, s)]"
| "literal_pattern (LBool b) = [(if b then KW_TRUE else KW_FALSE, if b then ''true'' else ''false'')]"
| "literal_pattern (LI64 i) = [(TK_INT, show_int i)]"
| "literal_pattern (LU64 n) = [(TK_INT, show_nat n)]"
| "literal_pattern (LF64 r) = [(TK_FLOAT, fmt_g r)]"

fun elems_pattern :: "literal list \<Rightarrow> tok_pattern" where
  "elems_pattern [] = []"
| "elems_pattern [v] = literal_pattern v"
| "elems_pattern (v # w # vs) = literal_pattern v @ (COMMA, '','') # elems_pattern (w # vs)"

definition array_pattern :: "literal list \<Rightarrow> tok_pattern" where
  "array_pattern vs = (LBRACKET, ''['') # elems_pattern vs @ [(RBRACKET, '']'')]"

fun match_op_pattern :: "match_op \<Rightarrow> bool \<Rightarrow> tok_pattern" where
  "match_op_pattern LIKE neg = (if neg then [(KW_NOT, ''not''), (KW_LIKE, ''like'')] else [(KW_LIKE, ''like'')])"
| "match_op_pattern ILIKE neg = (if neg then [(KW_NOT, ''not''), (KW_ILIKE, ''ilike'')] else [(KW_ILIKE, ''ilike'')])"
| "match_op_pattern REGEX neg = (if neg then [(OP_NREGEX, ''!~'')] else [(OP_REGEX, ''~'')])"
| "match_op_pattern IREGEX neg = (if neg then [(OP_NIREGEX, ''!~*'')] else [(OP_IREGEX, ''~*'')])"
| "match_op_pattern ICONTAINS neg = []"

fun node_pattern :: "query_node \<Rightarrow> tok_pattern" where
  "node_pattern (CompareNode f op v) =
     (TK_IDENT, f) # (compare_op_kind op, compare_op_str op) # literal_pattern v"
| "node_pattern (InNode f vs) = (TK_IDENT, f) # (KW_IN, ''in'') # array_pattern vs"
| "node_pattern (NotInNode f vs) =
     (TK_IDENT, f) # (KW_NOT, ''not'') # (KW_IN, ''in'') # array_pattern vs"
| "node_pattern (MatchNode f op p neg c) =
     (if op = ICONTAINS
      then (TK_STRING, p) # (if neg then [(KW_NOT, ''not'')] else []) @ [(KW_IN, ''in''), (TK_IDENT, f)]
      else (TK_IDENT, f) # match_op_pattern op neg @ [(TK_STRING, p)])"
| "node_pattern (AndNode a b) =
     (LPAREN, ''('') # node_pattern a @ (KW_AND, ''and'') # node_pattern b @ [(RPAREN, '')'')]"
| "node_pattern (OrNode a b) =
     (LPAREN, ''('') # node_pattern a @ (KW_OR, ''or'') # node_pattern b @ [(RPAREN, '')'')]"
| "node_pattern (NotNode a) =
     (KW_NOT, ''not'') # (LPAREN, ''('') # node_pattern a @ [(RPAREN, '')'')]"

lemma tok_match_simps [simp]:
  "tok_match ts [] \<longleftrightarrow> ts = []"
  "tok_match ts ((k, s) # p) \<longleftrightarrow> (\<exists>c ts'. ts = Token k s c # ts' \<and> tok_match ts' p)"
  "tok_match ts (p @ p') \<longleftrightarrow> (\<exists>us vs. ts = us @ vs \<and> tok_match us p \<and> tok_match vs p')"
  by (auto simp: tok_match_def map_eq_Cons_conv map_eq_append_conv) (metis token.collapse)

section \<open>Which queries render to text that means them\<close>

definition quotable :: "string \<Rightarrow> bool" where
  "quotable s \<longleftrightarrow> scan_string (CHR 0x22) (s @ [CHR 0x22]) = Some (length s)"

definition number_text :: "string \<Rightarrow> bool" where
  "number_text t \<longleftrightarrow>
     (case t of [] \<Rightarrow> False
      | c # r \<Rightarrow> (is_digit c \<or> (c = CHR ''-'' \<and> r \<noteq> [] \<and> is_digit (hd r))) \<and> list_all is_number_char r)"

definition f64_renderable :: "f64 \<Rightarrow> bool" where
  "f64_renderable r \<longleftrightarrow>
     number_text (fmt_g r) \<and> list_ex is_float_char (tl (fmt_g r)) \<and> stod (fmt_g r) = Some r"

fun lit_renderable :: "literal \<Rightarrow> bool" where
  "lit_renderable (LStr s) = quotable s"
| "lit_renderable (LBool b) = True"
| "lit_renderable (LI64 i) = (INT64_MIN \<le> i \<and> i < 0)"
| "lit_renderable (LU64 n) = (int n \<le> INT64_MAX)"
| "lit_renderable (LF64 r) = f64_renderable r"

definition field_renderable :: "string \<Rightarrow> bool" where
  "field_renderable f \<longleftrightarrow>
     (case f of [] \<Rightarrow> False
      | c # r \<Rightarrow> is_ident_start c
          \<and> scan_brackets (dropWhile is_ident_char r) = length (dropWhile is_ident_char r))
     \<and> keyword_kind f = TK_IDENT"

fun renderable :: "regex_lib \<Rightarrow> query_node \<Rightarrow> bool" where
  "renderable R (CompareNode f op v) = (field_renderable f \<and> lit_renderable v)"
| "renderable R (InNode f vs) = (field_renderable f \<and> list_all lit_renderable vs)"
| "renderable R (NotInNode f vs) = (field_renderable f \<and> list_all lit_renderable vs)"
| "renderable R (MatchNode f op p neg c) =
     (field_renderable f \<and> quotable p
      \<and> (case compile_pattern R op p of Inl _ \<Rightarrow> False | Inr cp \<Rightarrow> c = Some cp))"
| "renderable R (AndNode a b) = (renderable R a \<and> renderable R b)"
| "renderable R (OrNode a b) = (renderable R a \<and> renderable R b)"
| "renderable R (NotNode a) = renderable R a"

section \<open>Parsing the tokens of a rendered query\<close>

definition derives :: "regex_lib \<Rightarrow> string \<Rightarrow> production \<Rightarrow> token list \<Rightarrow> query_node \<Rightarrow>
    token list \<Rightarrow> bool" where
  "derives R src p ts q vs \<longleftrightarrow> (\<exists>n. run R src n p ts = Some (Inr (q, vs)))"

text \<open>A production whose body, given what it calls, returns \<open>(q, vs)\<close>.\<close>

lemma derives_call:
  assumes "derives R src p1 ts1 l us"
    and "\<And>call. call p1 ts1 = Some (Inr (l, us)) \<Longrightarrow>
           production_body R src call p ts = Some (Inr (q, vs))"
  shows "derives R src p ts q vs"
proof -
  from assms(1) obtain n where "run R src n p1 ts1 = Some (Inr (l, us))" by (auto simp: derives_def)
  from assms(2) [of "run R src n", OF this] have "run R src (Suc n) p ts = Some (Inr (q, vs))" by simp
  then show ?thesis unfolding derives_def by blast
qed

lemma derives_chain:
  assumes "derives R src p1 ts1 l us" "derives R src p2 us q vs"
    and "\<And>call. call p1 ts1 = Some (Inr (l, us)) \<Longrightarrow> call p2 us = Some (Inr (q, vs)) \<Longrightarrow>
           production_body R src call p ts = Some (Inr (q, vs))"
  shows "derives R src p ts q vs"
proof -
  from assms(1,2) obtain n m where "run R src n p1 ts1 = Some (Inr (l, us))"
      "run R src m p2 us = Some (Inr (q, vs))" by (auto simp: derives_def)
  from run_mono [OF max.cobounded1 this(1), of m] run_mono [OF max.cobounded2 this(2), of n]
  have "production_body R src (run R src (max n m)) p ts = Some (Inr (q, vs))"
    by (rule assms(3) [of "run R src (max n m)"])
  then have "run R src (Suc (max n m)) p ts = Some (Inr (q, vs))" by simp
  then show ?thesis unfolding derives_def by blast
qed

lemma derives_base:
  "(\<And>call. production_body R src call p ts = Some (Inr (q, vs))) \<Longrightarrow> derives R src p ts q vs"
  unfolding derives_def by (rule exI [of _ "Suc 0"]) simp

lemma derives_or:
  assumes "derives R src P_and ts l us" "derives R src (P_or_loop l) us q vs"
  shows "derives R src P_or ts q vs"
  using assms by (rule derives_chain) (simp add: parse_or_def)

lemma derives_and:
  assumes "derives R src P_not ts l us" "derives R src (P_and_loop l) us q vs"
  shows "derives R src P_and ts q vs"
  using assms by (rule derives_chain) (simp add: parse_and_def)

lemma derives_or_loop:
  assumes "cur_kind ts = KW_OR" "derives R src P_and (tl ts) r us"
    "derives R src (P_or_loop (OrNode l r)) us q vs"
  shows "derives R src (P_or_loop l) ts q vs"
  using assms(2,3) by (rule derives_chain) (simp add: or_loop_def assms(1))

lemma derives_and_loop:
  assumes "cur_kind ts = KW_AND" "derives R src P_not (tl ts) r us"
    "derives R src (P_and_loop (AndNode l r)) us q vs"
  shows "derives R src (P_and_loop l) ts q vs"
  using assms(2,3) by (rule derives_chain) (simp add: and_loop_def assms(1))

lemma derives_loop_end:
  "cur_kind ts \<noteq> KW_OR \<Longrightarrow> derives R src (P_or_loop l) ts l ts"
  "cur_kind ts \<noteq> KW_AND \<Longrightarrow> derives R src (P_and_loop l) ts l ts"
  by (simp_all add: derives_base or_loop_def and_loop_def)

lemma derives_primary:
  "cur_kind ts \<noteq> KW_NOT \<Longrightarrow> derives R src P_primary ts q vs \<Longrightarrow> derives R src P_not ts q vs"
  by (erule derives_call) (simp add: parse_not_def)

lemma derives_not:
  "cur_kind ts = KW_NOT \<Longrightarrow> derives R src P_not (tl ts) q vs \<Longrightarrow> derives R src P_not ts (NotNode q) vs"
  by (erule derives_call) (simp add: parse_not_def)

lemma derives_paren:
  assumes "cur_kind ts = LPAREN" "derives R src P_or (tl ts) q us" "cur_kind us = RPAREN"
  shows "derives R src P_not ts q (tl us)"
proof (rule derives_primary)
  show "derives R src P_primary ts q (tl us)"
    using assms(2) by (rule derives_call) (simp add: parse_primary_def assms)
qed (simp add: assms)

lemma derives_leaf:
  assumes "cur_kind ts = TK_IDENT \<or> cur_kind ts = TK_STRING" "parse_leaf R src ts = Inr (q, vs)"
  shows "derives R src P_not ts q vs"
proof (rule derives_primary)
  show "derives R src P_primary ts q vs"
    using assms by (intro derives_base) (auto simp: parse_primary_def)
qed (use assms in auto)

lemma parse_value_literal [codec_simps]:
  assumes "tok_match us (literal_pattern v)" "lit_renderable v"
  shows "parse_value src (us @ vs) = Inr (v, vs)"
proof (cases v)
  case (LI64 i)
  with assms show ?thesis
    using from_chars_i64_show_int [of i] by (auto simp: parse_value_def INT64_MAX_def)
next
  case (LU64 n)
  with assms show ?thesis
    using from_chars_i64_show_nat [of n] by (auto simp: parse_value_def)
qed (use assms in \<open>auto simp: parse_value_def f64_renderable_def split: if_splits\<close>)

lemma literal_pattern_not: "tok_match us (literal_pattern v) \<Longrightarrow>
    us \<noteq> [] \<and> cur_kind (us @ vs) \<noteq> RBRACKET"
  by (cases v) (auto split: if_splits)

lemma parse_commas_elems:
  assumes "list_all lit_renderable (v # ws)" "tok_match us (elems_pattern (v # ws))"
    "cur_kind vs \<noteq> COMMA"
  shows "\<exists>us1. parse_value src (us @ vs) = Inr (v, us1) \<and> parse_commas src us1 = Inr (ws, vs)"
  using assms
proof (induction ws arbitrary: v us)
  case Nil
  then show ?case by (simp add: parse_value_literal parse_commas.simps [of src vs])
next
  case (Cons w ws)
  then obtain us0 us' c where us: "us = us0 @ Token COMMA '','' c # us'"
      "tok_match us0 (literal_pattern v)" "tok_match us' (elems_pattern (w # ws))" by auto
  from Cons.IH [OF _ us(3)] Cons.prems obtain us1 where
      "parse_value src (us' @ vs) = Inr (w, us1)" "parse_commas src us1 = Inr (ws, vs)" by auto
  with us Cons.prems show ?case
    by (simp add: parse_value_literal parse_commas.simps [of src "Token _ _ _ # _"])
qed

lemma parse_array_pattern [codec_simps]:
  assumes "list_all lit_renderable vs" "tok_match us (array_pattern vs)"
  shows "parse_array src (us @ rest) = Inr (vs, rest)"
proof (cases vs)
  case Nil
  with assms show ?thesis by (auto simp: parse_array_def array_pattern_def)
next
  case (Cons v ws)
  with assms obtain c us' d where us: "us = Token LBRACKET ''['' c # us' @ [Token RBRACKET '']'' d]"
      "tok_match us' (elems_pattern (v # ws))" by (auto simp: array_pattern_def)
  let ?r = "Token RBRACKET '']'' d # rest"
  obtain us1 where "parse_value src (us' @ ?r) = Inr (v, us1)" "parse_commas src us1 = Inr (ws, ?r)"
    using parse_commas_elems [of v ws us' ?r src] assms(1) us Cons by auto
  moreover have "cur_kind (us' @ ?r) \<noteq> RBRACKET"
    using us(2) literal_pattern_not [of _ v] by (cases ws) fastforce+
  ultimately show ?thesis using us Cons by (simp add: parse_array_def)
qed

lemma derives_or_single:
  assumes "derives R src P_not ts q us" "cur_kind us \<noteq> KW_AND" "cur_kind us \<noteq> KW_OR"
  shows "derives R src P_or ts q us"
  by (rule derives_or [OF derives_and [OF assms(1) derives_loop_end(2)] derives_loop_end(1)])
     (use assms in auto)

lemma derives_or_and:
  assumes "derives R src P_not ts a us" "cur_kind us = KW_AND" "derives R src P_not (tl us) b ws"
    and "cur_kind ws \<noteq> KW_AND" "cur_kind ws \<noteq> KW_OR"
  shows "derives R src P_or ts (AndNode a b) ws"
  by (rule derives_or [OF derives_and [OF assms(1) derives_and_loop [OF assms(2,3)]]])
     (use assms in \<open>auto intro: derives_loop_end\<close>)

lemma derives_or_or:
  assumes "derives R src P_not ts a us" "cur_kind us = KW_OR" "derives R src P_not (tl us) b ws"
    and "cur_kind ws \<noteq> KW_AND" "cur_kind ws \<noteq> KW_OR"
  shows "derives R src P_or ts (OrNode a b) ws"
proof (rule derives_or)
  show "derives R src P_and ts a us"
    using assms(2) by (intro derives_and [OF assms(1)] derives_loop_end) simp
  have "derives R src P_and (tl us) b ws"
    using assms(4) by (intro derives_and [OF assms(3)] derives_loop_end)
  then show "derives R src (P_or_loop a) us (OrNode a b) ws"
    by (rule derives_or_loop [OF assms(2)]) (rule derives_loop_end(1) [OF assms(5)])
qed

lemma pattern_ident_leaf:
  assumes "q = CompareNode f op v \<or> q = InNode f ws \<or> q = NotInNode f ws" "renderable R q"
    "tok_match us (node_pattern q)"
  shows "derives R src P_not (us @ vs) q vs"
proof (rule derives_leaf)
  show "cur_kind (us @ vs) = TK_IDENT \<or> cur_kind (us @ vs) = TK_STRING" using assms by auto
  show "parse_leaf R src (us @ vs) = Inr (q, vs)"
    using assms(1)
  proof (elim disjE)
    assume q: "q = CompareNode f op v"
    with assms(2,3) show ?thesis
      by (cases op) (auto simp: parse_leaf_def parse_comp_op_def parse_value_literal)
  qed (use assms in \<open>auto simp: parse_leaf_def parse_array_pattern\<close>)
qed

lemma parse_match_pattern:
  assumes "compile_pattern R op p = Inr cp"
  shows "parse_match R src f op neg (Token TK_STRING p c # vs) = Inr (MatchNode f op p neg (Some cp), vs)"
  by (simp add: parse_match_def match_node_def assms)

lemma parse_contains_pattern:
  assumes "compile_pattern R ICONTAINS p = Inr cp"
    and "tok_match us ((if neg then [(KW_NOT, ''not'')] else []) @ [(KW_IN, ''in''), (TK_IDENT, f)])"
  shows "parse_contains R src (Token TK_STRING p c # us @ vs)
           = Inr (MatchNode f ICONTAINS p neg (Some cp), vs)"
  using assms(2)
  by (cases neg) (auto simp: parse_contains_def match_node_def assms(1))

lemma parse_leaf_match:
  assumes "op \<noteq> ICONTAINS" "tok_match us (match_op_pattern op neg)"
  shows "parse_leaf R src (Token TK_IDENT f c # us @ Token TK_STRING p d # vs)
           = parse_match R src f op neg (Token TK_STRING p d # vs)"
  using assms by (cases op; cases neg) (auto simp: parse_leaf_def)

lemma pattern_match_leaf:
  assumes "q = MatchNode f op p neg c" "renderable R q" "tok_match us (node_pattern q)"
  shows "derives R src P_not (us @ vs) q vs"
proof (rule derives_leaf)
  show "cur_kind (us @ vs) = TK_IDENT \<or> cur_kind (us @ vs) = TK_STRING"
    using assms(1,3) by (cases "op = ICONTAINS") auto
  obtain cp where cp: "compile_pattern R op p = Inr cp" "c = Some cp"
    using assms(1,2) by (auto split: sum.splits)
  show "parse_leaf R src (us @ vs) = Inr (q, vs)"
  proof (cases "op = ICONTAINS")
    case True
    with assms(1,3) obtain d us' where "us = Token TK_STRING p d # us'"
        "tok_match us' ((if neg then [(KW_NOT, ''not'')] else []) @ [(KW_IN, ''in''), (TK_IDENT, f)])"
      by (simp del: tok_match_simps(3)) blast
    with cp True assms(1) show ?thesis by (simp add: parse_leaf_def parse_contains_pattern)
  next
    case False
    with assms(1,3) obtain d us' e where "us = Token TK_IDENT f d # us' @ [Token TK_STRING p e]"
        "tok_match us' (match_op_pattern op neg)" by auto
    with cp False assms(1) show ?thesis by (simp add: parse_leaf_match parse_match_pattern)
  qed
qed

lemma parse_pattern:
  "renderable R q \<Longrightarrow> tok_match us (node_pattern q) \<Longrightarrow> derives R src P_not (us @ vs) q vs"
proof (induction q arbitrary: us vs)
  case (AndNode a b)
  then obtain c1 ua c2 ub c3 where us: "us = Token LPAREN ''('' c1 # ua @ Token KW_AND ''and'' c2 # ub
        @ [Token RPAREN '')'' c3]"
      and m: "tok_match ua (node_pattern a)" "tok_match ub (node_pattern b)" by auto
  let ?e = "Token RPAREN '')'' c3 # vs"
  have "derives R src P_not (ua @ Token KW_AND ''and'' c2 # ub @ ?e) a
          (Token KW_AND ''and'' c2 # ub @ ?e)" "derives R src P_not (ub @ ?e) b ?e"
    using AndNode m by simp_all
  then have "derives R src P_or (ua @ Token KW_AND ''and'' c2 # ub @ ?e) (AndNode a b) ?e"
    by (auto intro: derives_or_and)
  then show ?case
    using derives_paren [of "us @ vs" R src "AndNode a b" ?e] by (simp add: us)
next
  case (OrNode a b)
  then obtain c1 ua c2 ub c3 where us: "us = Token LPAREN ''('' c1 # ua @ Token KW_OR ''or'' c2 # ub
        @ [Token RPAREN '')'' c3]"
      and m: "tok_match ua (node_pattern a)" "tok_match ub (node_pattern b)" by auto
  let ?e = "Token RPAREN '')'' c3 # vs"
  have "derives R src P_not (ua @ Token KW_OR ''or'' c2 # ub @ ?e) a
          (Token KW_OR ''or'' c2 # ub @ ?e)" "derives R src P_not (ub @ ?e) b ?e"
    using OrNode m by simp_all
  then have "derives R src P_or (ua @ Token KW_OR ''or'' c2 # ub @ ?e) (OrNode a b) ?e"
    by (auto intro: derives_or_or)
  then show ?case
    using derives_paren [of "us @ vs" R src "OrNode a b" ?e] by (simp add: us)
next
  case (NotNode a)
  then obtain c0 c1 ua c3 where us: "us = Token KW_NOT ''not'' c0 # Token LPAREN ''('' c1 # ua
        @ [Token RPAREN '')'' c3]" and m: "tok_match ua (node_pattern a)" by auto
  let ?e = "Token RPAREN '')'' c3 # vs"
  have "derives R src P_not (ua @ ?e) a ?e" using NotNode m by simp
  then have "derives R src P_or (ua @ ?e) a ?e"
    by (auto intro: derives_or_single)
  then show ?case
    using derives_paren [of "tl us @ vs" R src a ?e]
    by (intro derives_not) (simp_all add: us)
next
  case (CompareNode f op v)
  then show ?case by (intro pattern_ident_leaf [where f = f]) auto
next
  case (InNode f ws)
  then show ?case by (intro pattern_ident_leaf [where f = f]) auto
next
  case (NotInNode f ws)
  then show ?case by (intro pattern_ident_leaf [where f = f]) auto
next
  case (MatchNode f op p neg c)
  show ?case by (rule pattern_match_leaf [OF refl MatchNode])
qed

lemma parse_tokens_pattern:
  assumes "renderable R q" "tok_match us (node_pattern q)" "tk_kind e = END"
  shows "parse_tokens R (us @ [e]) src = Some (Inr q)"
proof -
  have "derives R src P_not (us @ [e]) q [e]" using assms(1,2) by (rule parse_pattern)
  with assms(3) have "derives R src P_or (us @ [e]) q [e]"
    by (auto intro: derives_or_single)
  with assms(3) show ?thesis by (auto simp: derives_def intro: parse_tokens_run)
qed

section \<open>Lexing a rendered query\<close>

text \<open>
  \<open>lexes b s p\<close>: wherever \<open>s\<close> stands in an input, its tokens are those of the pattern \<open>p\<close> and the
  scanner goes on behind it; when \<open>b\<close> holds, only if a delimiter follows.
\<close>

definition delim :: "string \<Rightarrow> bool" where
  "delim r \<longleftrightarrow> r = [] \<or> hd r \<in> {CHR '' '', CHR '')'', CHR '','', CHR '']''}"

definition lexes :: "bool \<Rightarrow> string \<Rightarrow> tok_pattern \<Rightarrow> bool" where
  "lexes b s p \<longleftrightarrow>
     (\<forall>input pos r. (b \<longrightarrow> delim r) \<longrightarrow>
        (\<exists>us. tok_match us p \<and>
              lex_loop input pos (s @ r) = map_sum id ((@) us) (lex_loop input (pos + length s) r)))"

lemma map_sum_append: "map_sum id ((@) []) x = x"
  "map_sum id ((@) us) (map_sum id ((@) vs) x) = map_sum id ((@) (us @ vs)) x"
  by (cases x; simp)+

lemma lexesI1:
  assumes "\<not> is_space c"
    and "\<And>input pos r. (b \<Longrightarrow> delim r) \<Longrightarrow>
           lex_one input pos c (s' @ r) = Inr (Token k txt pos, length (c # s'))"
  shows "lexes b (c # s') [(k, txt)]"
  unfolding lexes_def
proof (intro allI impI)
  fix input pos r assume "b \<longrightarrow> delim r"
  with assms(2) have one: "lex_one input pos c (s' @ r) = Inr (Token k txt pos, length (c # s'))"
    by blast
  have "lex_loop input pos ((c # s') @ r)
      = map_sum id ((@) [Token k txt pos]) (lex_loop input (pos + length (c # s')) r)"
    using assms(1) one
    by (cases "lex_loop input (pos + length (c # s')) r") (simp_all add: lex_loop.simps(2))
  then show "\<exists>us. tok_match us [(k, txt)] \<and> lex_loop input pos ((c # s') @ r)
      = map_sum id ((@) us) (lex_loop input (pos + length (c # s')) r)"
    by (intro exI [of _ "[Token k txt pos]"]) simp
qed

lemma lexes_weaken: "lexes False s p \<Longrightarrow> lexes b s p"
  by (auto simp: lexes_def)

lemma lexes_append_gen:
  assumes "lexes b s p" "lexes b' s' p'" "b \<Longrightarrow> s' \<noteq> [] \<and> delim s'"
  shows "lexes b' (s @ s') (p @ p')"
  unfolding lexes_def
proof (intro allI impI)
  fix input pos r assume r: "b' \<longrightarrow> delim r"
  have d: "b \<longrightarrow> delim (s' @ r)" using assms(3) by (auto simp: delim_def)
  obtain us where us: "tok_match us p"
      "lex_loop input pos (s @ s' @ r) = map_sum id ((@) us) (lex_loop input (pos + length s) (s' @ r))"
    using assms(1) d unfolding lexes_def by blast
  obtain vs where vs: "tok_match vs p'"
      "lex_loop input (pos + length s) (s' @ r)
         = map_sum id ((@) vs) (lex_loop input (pos + length s + length s') r)"
    using assms(2) r unfolding lexes_def by blast
  show "\<exists>us. tok_match us (p @ p') \<and> lex_loop input pos ((s @ s') @ r)
      = map_sum id ((@) us) (lex_loop input (pos + length (s @ s')) r)"
    using us vs by (intro exI [of _ "us @ vs"])
      (simp add: add.assoc map_sum_append; blast)
qed

lemmas lexes_append = lexes_append_gen [where b = False, simplified]

lemma lexes_append_delim:
  "lexes True s p \<Longrightarrow> lexes b s' p' \<Longrightarrow> delim s' \<Longrightarrow> s' \<noteq> [] \<Longrightarrow> lexes b (s @ s') (p @ p')"
  by (rule lexes_append_gen) auto

lemma lexes_space: "lexes False '' '' []"
  by (auto simp: lexes_def lex_loop.simps(2) is_space_def code_of_def map_sum_append)

lemma lexes_spaced:
  assumes "lexes True s p" "lexes b s' p'" shows "lexes b (s @ '' '' @ s') (p @ p')"
  using lexes_append_delim [OF assms(1) lexes_append [OF lexes_space assms(2)]]
  by (simp add: delim_def)

lemma lexes_tokenize:
  assumes "lexes True s p"
  shows "\<exists>us. tok_match us p \<and> tokenize s = Inr (us @ [Token END [] (length s)])"
proof -
  obtain us where "tok_match us p"
      "lex_loop s 0 (s @ []) = map_sum id ((@) us) (lex_loop s (0 + length s) [])"
    using assms unfolding lexes_def delim_def by blast
  then show ?thesis by (auto simp: tokenize_def)
qed

subsection \<open>Single tokens\<close>

lemma delim_hd:
  assumes "delim r"
  shows "r = [] \<or> \<not> is_ident_char (hd r)" "r = [] \<or> \<not> is_number_char (hd r)"
    "r = [] \<or> hd r \<noteq> CHR ''[''" "r = [] \<or> hd r \<noteq> CHR ''=''" "r = [] \<or> hd r \<noteq> CHR ''*''"
  using assms by (auto simp: delim_def is_ident_char_def is_number_char_def is_alnum_def is_alpha_def
      is_digit_def code_of_def)

lemma lexes_punct:
  "lexes False ''('' [(LPAREN, ''('')]" "lexes False '')'' [(RPAREN, '')'')]"
  "lexes False ''['' [(LBRACKET, ''['')]" "lexes False '']'' [(RBRACKET, '']'')]"
  "lexes False '','' [(COMMA, '','')]"
  by (rule lexesI1; simp add: lex_one_def lex_operator_def is_space_def code_of_def)+

lemma lexes_compare_op: "lexes True (compare_op_str op) [(compare_op_kind op, compare_op_str op)]"
  by (cases op; simp only: compare_op_str.simps compare_op_kind.simps; rule lexesI1; use delim_hd(4) in \<open>auto simp: lex_one_def lex_operator_def is_space_def code_of_def\<close>)

lemma lexes_match_op:
  "lexes True ''~'' [(OP_REGEX, ''~'')]" "lexes True ''!~'' [(OP_NREGEX, ''!~'')]"
  "lexes True ''~*'' [(OP_IREGEX, ''~*'')]" "lexes True ''!~*'' [(OP_NIREGEX, ''!~*'')]"
  by (rule lexesI1; use delim_hd(5) in \<open>auto simp: lex_one_def lex_operator_def is_space_def code_of_def\<close>)+


lemma scan_brackets_append:
  "scan_brackets t = length t \<Longrightarrow> r = [] \<or> hd r \<noteq> CHR ''['' \<Longrightarrow> scan_brackets (t @ r) = length t"
proof (induction t rule: scan_brackets.induct)
  case (1 t)
  show ?case
  proof (cases t)
    case Nil
    with 1 show ?thesis by (auto simp: scan_brackets.simps [of r])
  next
    case (Cons c s)
    let ?ds = "takeWhile is_digit s" and ?q = "dropWhile is_digit s"
    from "1.prems"(1) Cons have c: "c = CHR ''[''" "?ds \<noteq> []" "?q \<noteq> []" "hd ?q = CHR '']''"
        and l: "length ?ds + 2 + scan_brackets (tl ?q) = length t"
      by (auto simp: scan_brackets.simps [of "c # s"] Let_def split: if_splits)
    have "length ?ds + length ?q = length s"
      by (metis length_append takeWhile_dropWhile_id)
    with l c Cons have sb: "scan_brackets (tl ?q) = length (tl ?q)" by (cases ?q) auto
    with "1.IH" [OF _ refl refl _] "1.prems"(2) Cons c
    have ih: "scan_brackets (tl ?q @ r) = length (tl ?q)" by auto
    obtain q where q: "?q = CHR '']'' # q" using c by (cases ?q) auto
    have ds: "\<forall>x\<in>set ?ds. is_digit x" by (auto dest: takeWhile_all)
    have nd: "CHR '']'' # q @ r = [] \<or> \<not> is_digit (hd (CHR '']'' # q @ r))"
      by (simp add: is_digit_def code_of_def)
    have "s @ r = ?ds @ CHR '']'' # q @ r" by (metis q takeWhile_dropWhile_id append.assoc append_Cons)
    then have "takeWhile is_digit (s @ r) = ?ds \<and> dropWhile is_digit (s @ r) = CHR '']'' # q @ r"
      using takeWhile_run [OF ds nd] dropWhile_run [OF ds nd] by metis
    with c(1,2) q have "scan_brackets (t @ r) = length ?ds + 2 + scan_brackets (q @ r)"
      by (subst scan_brackets.simps) (simp add: Cons)
    with ih l q sb show ?thesis by simp
  qed
qed

lemma lex_operator_None:
  "c \<notin> {CHR ''='', CHR ''!'', CHR ''>'', CHR ''<'', CHR ''~'', CHR ''('', CHR '')'', CHR ''['', CHR '']'', CHR '',''}
   \<Longrightarrow> lex_operator c r = None"
  by (simp add: lex_operator_def)

lemma ident_start_conv: "is_ident_start c \<Longrightarrow>
    \<not> is_space c \<and> lex_operator c r = None \<and> c \<noteq> CHR 0x22 \<and> c \<noteq> CHR 0x27 \<and> \<not> is_digit c \<and> c \<noteq> CHR ''-''"
  by (intro conjI lex_operator_None)
     (auto simp: is_ident_start_def is_alpha_def is_space_def is_digit_def code_of_def)

lemma lexes_word:
  assumes "is_ident_start c" "scan_brackets (dropWhile is_ident_char w) = length (dropWhile is_ident_char w)"
  shows "lexes True (c # w) [(keyword_kind (c # w), c # w)]"
proof (rule lexesI1)
  show "\<not> is_space c" using ident_start_conv [OF assms(1)] by simp
  fix input pos r assume "True \<Longrightarrow> delim r"
  then have r: "r = [] \<or> \<not> is_ident_char (hd r)" "r = [] \<or> hd r \<noteq> CHR ''[''"
    using delim_hd by auto
  let ?t = "takeWhile is_ident_char w" and ?b = "dropWhile is_ident_char w"
  note run = run_stop [where P = is_ident_char, OF r(1), of w]
  have len: "length ?t + length ?b = length w" by (metis length_append takeWhile_dropWhile_id)
  note n = scan_brackets_append [OF assms(2) r(2)]
  show "lex_one input pos c (w @ r) = Inr (Token (keyword_kind (c # w)) (c # w) pos, length (c # w))"
    using ident_start_conv [OF assms(1), of "w @ r"] assms(1)
    by (simp add: lex_one_def run n len Let_def)
qed

lemma lexes_field: "field_renderable f \<Longrightarrow> lexes True f [(TK_IDENT, f)]"
  using lexes_word [of "hd f" "tl f"] by (cases f) (simp_all add: field_renderable_def)

lemma scan_brackets_nil [simp]: "scan_brackets [] = 0"
  by (simp add: scan_brackets.simps)

lemmas word_simps = is_ident_start_def is_ident_char_def is_alnum_def is_alpha_def is_digit_def
  code_of_def keyword_kind_def iequals_def to_lower_def

lemma lexes_keyword:
  "lexes True ''and'' [(KW_AND, ''and'')]" "lexes True ''or'' [(KW_OR, ''or'')]"
  "lexes True ''not'' [(KW_NOT, ''not'')]" "lexes True ''in'' [(KW_IN, ''in'')]"
  "lexes True ''like'' [(KW_LIKE, ''like'')]" "lexes True ''ilike'' [(KW_ILIKE, ''ilike'')]"
  "lexes True ''true'' [(KW_TRUE, ''true'')]" "lexes True ''false'' [(KW_FALSE, ''false'')]"
  using lexes_word [of "CHR ''a''" "''nd''"] lexes_word [of "CHR ''o''" "''r''"]
    lexes_word [of "CHR ''n''" "''ot''"] lexes_word [of "CHR ''i''" "''n''"]
    lexes_word [of "CHR ''l''" "''ike''"] lexes_word [of "CHR ''i''" "''like''"]
    lexes_word [of "CHR ''t''" "''rue''"] lexes_word [of "CHR ''f''" "''alse''"]
  by (simp_all add: word_simps)

lemma scan_string_append:
  "scan_string q s = Some n \<Longrightarrow> scan_string q (s @ r) = Some n"
proof (induction q s arbitrary: n rule: scan_string.induct)
  case (2 q c s)
  then show ?case by (cases s) (auto split: if_splits)
qed simp

lemma lexes_quote:
  assumes "quotable s" shows "lexes False (quote s) [(TK_STRING, s)]"
proof -
  have "scan_string (CHR 0x22) ((s @ [CHR 0x22]) @ r) = Some (length s)" for r
    using assms unfolding quotable_def by (rule scan_string_append)
  then have "lexes False (CHR 0x22 # s @ [CHR 0x22]) [(TK_STRING, s)]"
    by (intro lexesI1) (simp_all add: lex_one_def lex_operator_def is_space_def code_of_def)
  then show ?thesis by (simp add: quote_def)
qed

lemma lexes_number:
  assumes "number_text t"
  shows "lexes True t [(if list_ex is_float_char (tl t) then TK_FLOAT else TK_INT, t)]"
proof -
  obtain c w where t: "t = c # w" and c: "is_digit c \<or> (c = CHR ''-'' \<and> w \<noteq> [] \<and> is_digit (hd w))"
      and w: "list_all is_number_char w"
    using assms by (auto simp: number_text_def split: list.splits)
  have c': "48 \<le> code_of c \<and> code_of c \<le> 57 \<or> code_of c = 45"
    using c by (auto simp: is_digit_def code_of_def)
  then have sp: "\<not> is_space c" "lex_operator c r = None" "c \<noteq> CHR 0x22" "c \<noteq> CHR 0x27" for r
    by (auto simp: is_space_def code_of_def intro!: lex_operator_None)
  have "lexes True (c # w) [(if list_ex is_float_char w then TK_FLOAT else TK_INT, c # w)]"
  proof (rule lexesI1)
    fix input pos r assume "True \<Longrightarrow> delim r"
    then have "takeWhile is_number_char (w @ r) = w"
      using w delim_hd(2) [of r] by (intro takeWhile_run) (auto simp: list_all_iff)
    with c show "lex_one input pos c (w @ r)
        = Inr (Token (if list_ex is_float_char w then TK_FLOAT else TK_INT) (c # w) pos, length (c # w))"
      by (auto simp: lex_one_def sp Let_def)
  qed (fact sp)
  with t show ?thesis by simp
qed

lemma digits_number:
  "list_all is_digit w \<Longrightarrow> list_all is_number_char w \<and> \<not> list_ex is_float_char w"
  by (induction w) (auto simp: is_number_char_def is_float_char_def is_digit_def code_of_def)

lemma lexes_show_nat: "lexes True (show_nat n) [(TK_INT, show_nat n)]"
proof -
  obtain c w where n: "show_nat n = c # w" by (cases "show_nat n") auto
  have "list_all is_digit (c # w)" using show_nat_digits [of n] by (simp add: n list_all_iff)
  with lexes_number [of "c # w"] digits_number [of w] show ?thesis by (simp add: n number_text_def is_number_char_def)
qed

lemma lexes_show_int:
  assumes "i < 0" shows "lexes True (show_int i) [(TK_INT, show_int i)]"
proof -
  let ?d = "show_nat (nat (- i))"
  have "list_all is_digit ?d" "is_digit (hd ?d)"
    using show_nat_digits [of "nat (- i)"] hd_show_nat_digit by (simp_all add: list_all_iff)
  with lexes_number [of "show_int i"] digits_number [of ?d] assms show ?thesis
    by (simp add: number_text_def show_int_def is_number_char_def)
qed

lemma lexes_literal: "lit_renderable v \<Longrightarrow> lexes True (literal_to_string v) (literal_pattern v)"
proof (cases v)
  case (LF64 r)
  assume "lit_renderable v"
  with LF64 lexes_number [of "fmt_g r"] show ?thesis by (simp add: f64_renderable_def)
qed (simp_all add: lexes_show_int lexes_show_nat lexes_keyword(7,8) lexes_weaken [OF lexes_quote])

lemma lexes_elems:
  "vs \<noteq> [] \<Longrightarrow> list_all lit_renderable vs \<Longrightarrow> lexes True (array_elems_to_string vs) (elems_pattern vs)"
proof (induction vs rule: elems_pattern.induct)
  case (3 v w vs)
  then have "lexes True ('','' @ '' '' @ array_elems_to_string (w # vs))
      ([(COMMA, '','')] @ [] @ elems_pattern (w # vs))"
    by (intro lexes_append lexes_punct lexes_space) simp
  with 3 lexes_append_delim [OF lexes_literal [of v] this] show ?case by (simp add: delim_def)
qed (simp_all add: lexes_literal)

lemma lexes_array:
  assumes "list_all lit_renderable vs"
  shows "lexes False (array_to_string vs) (array_pattern vs)"
proof (cases "vs = []")
  case True
  then show ?thesis
    using lexes_append [OF lexes_punct(3) lexes_punct(4)] by (simp add: array_to_string_def array_pattern_def)
next
  case False
  have "lexes False (array_elems_to_string vs @ '']'') (elems_pattern vs @ [(RBRACKET, '']'')])"
    by (rule lexes_append_delim [OF lexes_elems [OF False assms] lexes_punct(4)]) (simp_all add: delim_def)
  from lexes_append [OF lexes_punct(3) this] show ?thesis
    by (simp add: array_to_string_def array_pattern_def)
qed

lemma lexes_in:
  "list_all lit_renderable vs \<Longrightarrow> lexes True (''in '' @ array_to_string vs) ((KW_IN, ''in'') # array_pattern vs)"
  using lexes_spaced [OF lexes_keyword(4) lexes_weaken [OF lexes_array]] by simp

lemma lexes_match_op_str:
  "op \<noteq> ICONTAINS \<Longrightarrow> lexes True (match_op_str op neg) (match_op_pattern op neg)"
  using lexes_match_op lexes_keyword(5,6) lexes_spaced [OF lexes_keyword(3) lexes_keyword(5)]
    lexes_spaced [OF lexes_keyword(3) lexes_keyword(6)]
  by (cases op) auto

lemma lexes_paren:
  assumes "lexes True s p" shows "lexes b (''('' @ s @ '')'') ((LPAREN, ''('') # p @ [(RPAREN, '')'')])"
proof -
  have "lexes b (s @ '')'') (p @ [(RPAREN, '')'')])"
    by (rule lexes_append_delim [OF assms lexes_weaken [OF lexes_punct(2)]]) (simp_all add: delim_def)
  from lexes_append [OF lexes_punct(1) this] show ?thesis by simp
qed

lemma lexes_node: "renderable R q \<Longrightarrow> lexes True (node_to_string q) (node_pattern q)"
proof (induction q)
  case (CompareNode f op v)
  then show ?case
    using lexes_spaced [OF lexes_field lexes_spaced [OF lexes_compare_op lexes_literal], of f v op] by simp
next
  case (InNode f vs)
  then show ?case using lexes_spaced [OF lexes_field lexes_in, of f vs] by simp
next
  case (NotInNode f vs)
  then show ?case
    using lexes_spaced [OF lexes_field lexes_spaced [OF lexes_keyword(3) lexes_in], of f vs] by simp
next
  case (MatchNode f op p neg c)
  then have f: "lexes True f [(TK_IDENT, f)]" and p: "lexes b (quote p) [(TK_STRING, p)]" for b
    by (simp_all add: lexes_field lexes_weaken [OF lexes_quote])
  show ?case
  proof (cases "op = ICONTAINS")
    case True
    then show ?thesis
      using lexes_spaced [OF p lexes_spaced [OF lexes_keyword(4) f]]
        lexes_spaced [OF p lexes_spaced [OF lexes_keyword(3) lexes_spaced [OF lexes_keyword(4) f]]]
      by simp
  next
    case False
    then show ?thesis using lexes_spaced [OF f lexes_spaced [OF lexes_match_op_str p]] by simp
  qed
next
  case (AndNode a b)
  then show ?case
    using lexes_paren [OF lexes_spaced [OF _ lexes_spaced [OF lexes_keyword(1)]]] by simp
next
  case (OrNode a b)
  then show ?case
    using lexes_paren [OF lexes_spaced [OF _ lexes_spaced [OF lexes_keyword(2)]]] by simp
next
  case (NotNode a)
  then show ?case
    using lexes_spaced [OF lexes_keyword(3) lexes_paren, of "node_to_string a" "node_pattern a"] by simp
qed

lemma parse_render:
  assumes "renderable R q" shows "parse R (node_to_string q) = Some (Inr q)"
proof -
  obtain us where "tok_match us (node_pattern q)"
      "tokenize (node_to_string q) = Inr (us @ [Token END [] (length (node_to_string q))])"
    using lexes_tokenize [OF lexes_node [OF assms]] by blast
  with parse_tokens_pattern [OF assms] show ?thesis by (simp add: parse_def)
qed

text \<open>Rendering is injective on renderable queries.\<close>

lemma node_to_string_inj:
  "renderable R q \<Longrightarrow> renderable R q' \<Longrightarrow> node_to_string q = node_to_string q' \<longleftrightarrow> q = q'"
  by (metis parse_render option.inject sum.inject(2))

section \<open>What the parser guarantees of a query\<close>

fun lit_parsed :: "literal \<Rightarrow> bool" where
  "lit_parsed (LI64 i) = (INT64_MIN \<le> i \<and> i < 0)"
| "lit_parsed (LU64 n) = (int n \<le> INT64_MAX)"
| "lit_parsed _ = True"

fun query_parsed :: "regex_lib \<Rightarrow> query_node \<Rightarrow> bool" where
  "query_parsed R (CompareNode f op v) = lit_parsed v"
| "query_parsed R (InNode f vs) = list_all lit_parsed vs"
| "query_parsed R (NotInNode f vs) = list_all lit_parsed vs"
| "query_parsed R (MatchNode f op p neg c) =
     (c = Some (Compiled (pattern_icase op) (pattern_source op p))
      \<and> rx_error R (pattern_icase op) (pattern_source op p) = None)"
| "query_parsed R (AndNode a b) = (query_parsed R a \<and> query_parsed R b)"
| "query_parsed R (OrNode a b) = (query_parsed R a \<and> query_parsed R b)"
| "query_parsed R (NotNode a) = query_parsed R a"

lemma parse_value_ok: "parse_value src ts = Inr (v, ts') \<Longrightarrow> lit_parsed v"
  using from_chars_i64_range
  by (fastforce simp: parse_value_def split: token_kind.splits option.splits if_splits)

lemma parse_commas_ok: "parse_commas src ts = Inr (vs, ts') \<Longrightarrow> list_all lit_parsed vs"
proof (induction src ts arbitrary: vs ts' rule: parse_commas.induct)
  case (1 src ts)
  show ?case
  proof (cases "cur_kind ts = COMMA")
    case True
    with "1.prems" obtain v ts1 vs1 where v: "parse_value src (tl ts) = Inr (v, ts1)"
        and c: "parse_commas src ts1 = Inr (vs1, ts')" and vs: "vs = v # vs1"
      by (auto simp: parse_commas.simps [of src ts] split: sum.splits prod.splits)
    from "1.IH" [OF True v refl c] parse_value_ok [OF v] vs show ?thesis by simp
  next
    case False
    with "1.prems" show ?thesis by (simp add: parse_commas.simps [of src ts])
  qed
qed

lemma parse_array_ok: "parse_array src ts = Inr (vs, ts') \<Longrightarrow> list_all lit_parsed vs"
  by (auto simp: parse_array_def Let_def ebind_Inr_conv split: if_splits
      dest: parse_value_ok parse_commas_ok)

lemma match_node_ok: "match_node R src f op neg t = Inr q \<Longrightarrow> query_parsed R q"
  by (auto simp: match_node_def compile_pattern_def split: sum.splits option.splits)

lemma parse_match_ok: "parse_match R src f op neg ts = Inr (q, ts') \<Longrightarrow> query_parsed R q"
  by (auto simp: parse_match_def ebind_Inr_conv split: if_splits dest: match_node_ok)

lemma parse_contains_ok: "parse_contains R src ts = Inr (q, ts') \<Longrightarrow> query_parsed R q"
  by (auto simp: parse_contains_def Let_def ebind_Inr_conv split: if_splits dest: match_node_ok)

lemma parse_cmp_ok:
  "ebind (parse_comp_op src ts) (\<lambda>(op, ts). ebind (parse_value src ts)
      (\<lambda>(v, ts). Inr (CompareNode field op v, ts))) = Inr (q, ts') \<Longrightarrow> query_parsed R q"
  by (auto simp: ebind_Inr_conv dest: parse_value_ok)

lemma parse_in_ok:
  "ebind (parse_array src ts) (\<lambda>(vs, ts). Inr (InNode f vs, ts)) = Inr (q, ts') \<Longrightarrow> query_parsed R q"
  "ebind (parse_array src ts) (\<lambda>(vs, ts). Inr (NotInNode f vs, ts)) = Inr (q, ts') \<Longrightarrow> query_parsed R q"
  by (auto simp: ebind_Inr_conv dest: parse_array_ok)

lemma parse_leaf_ok:
  assumes "parse_leaf R src ts = Inr (q, ts')" shows "query_parsed R q"
proof (cases "cur_kind ts = TK_IDENT")
  case False
  with assms parse_contains_ok show ?thesis by (auto simp: parse_leaf_def split: if_splits)
next
  case True
  show ?thesis
    using assms True unfolding parse_leaf_def Let_def
    by (simp split: token_kind.splits if_splits)
       (auto dest: parse_in_ok parse_match_ok parse_cmp_ok)
qed

fun operand_ok :: "regex_lib \<Rightarrow> production \<Rightarrow> bool" where
  "operand_ok R (P_or_loop l) = query_parsed R l"
| "operand_ok R (P_and_loop l) = query_parsed R l"
| "operand_ok R _ = True"

lemma run_ok: "run R src n p ts = Some (Inr (q, ts')) \<Longrightarrow> operand_ok R p \<Longrightarrow> query_parsed R q"
proof (induction n arbitrary: p ts q ts')
  case (Suc n)
  from Suc.prems show ?case
    by (cases p)
       (auto simp: parse_or_def or_loop_def parse_and_def and_loop_def parse_not_def
          parse_primary_def pbind_Inr_conv split: if_splits dest: parse_leaf_ok dest!: Suc.IH)
qed simp

lemma parse_ok: "parse R s = Some (Inr q) \<Longrightarrow> query_parsed R q"
  by (auto simp: parse_def parse_tokens_def pbind_Inr_conv split: sum.splits if_splits dest: run_ok)

section \<open>Building a query from an expression\<close>

text \<open>\<^verbatim>\<open>Expr::build\<close> renders and parses; the pattern matchers are compiled by the parser.\<close>

definition expr_build :: "regex_lib \<Rightarrow> query_node \<Rightarrow> (query_error + query) option" where
  "expr_build R e = query_from_string R (node_to_string e)"

fun compile_node :: "regex_lib \<Rightarrow> query_node \<Rightarrow> query_node" where
  "compile_node R (MatchNode f op p neg c) =
     MatchNode f op p neg (case compile_pattern R op p of Inl _ \<Rightarrow> None | Inr cp \<Rightarrow> Some cp)"
| "compile_node R (AndNode a b) = AndNode (compile_node R a) (compile_node R b)"
| "compile_node R (OrNode a b) = OrNode (compile_node R a) (compile_node R b)"
| "compile_node R (NotNode a) = NotNode (compile_node R a)"
| "compile_node R q = q"

lemma compile_node_same [simp]:
  "node_to_string (compile_node R q) = node_to_string q"
  "collect_fields (compile_node R q) = collect_fields q"
  by (induction q) simp_all

section \<open>Properties\<close>

text \<open>C16 The parser returns on every input: a syntax tree or an error.\<close>
theorem parse_returns: "\<exists>r. parse R s = Some r"
  using parse_tokens_total by (auto simp: parse_def split: sum.splits)

text \<open>
  C4 An expression built with the builder API becomes the query with exactly this syntax tree, its
  patterns compiled, whenever its text can be read back: rendering and parsing are inverse.
\<close>
theorem expr_build_roundtrip:
  assumes "renderable R (compile_node R e)"
  shows "expr_build R e = Some (Inr \<lparr>q_root = compile_node R e, q_source = node_to_string e,
                                    q_fields = collect_fields e\<rparr>)"
  using parse_render [OF assms] by (simp add: expr_build_def query_from_string_def)

definition rt_lib :: regex_lib where
  "rt_lib = \<lparr>rx_error = (\<lambda>_ _. None), rx_search = (\<lambda>_ _ _. False)\<rparr>"

definition rt_expr :: query_node where
  "rt_expr =
     all_of (any_of (field_cmp ''args.ret[0]'' LT (lit_of_integral (- 5))) (field_match ''name'' LIKE ''%read_'' True))
       (negate (all_of (field_in_str ''cat'' [''POSIX'', ''STDIO'']) (field_cmp ''dur'' GE (LBool True))))"

lemma expr_build_roundtrip_witness:
  "expr_build rt_lib rt_expr = Some (Inr \<lparr>q_root = compile_node rt_lib rt_expr,
     q_source = ''((args.ret[0] < -5 or name not like \"%read_\") and not ((cat in [\"POSIX\", \"STDIO\"] and dur >= true)))'',
     q_fields = {''args.ret[0]'', ''name'', ''cat'', ''dur''}\<rparr>)"
proof -
  have "renderable rt_lib (compile_node rt_lib rt_expr)" by code_simp
  moreover have "node_to_string rt_expr = ''((args.ret[0] < -5 or name not like \"%read_\") and not ((cat in [\"POSIX\", \"STDIO\"] and dur >= true)))''" by code_simp
  moreover have "collect_fields rt_expr = {''args.ret[0]'', ''name'', ''cat'', ''dur''}"
    by (simp add: rt_expr_def all_of_def any_of_def negate_def field_cmp_def field_match_def field_in_str_def insert_commute)
  ultimately show ?thesis using expr_build_roundtrip [of rt_lib rt_expr] by simp
qed

text \<open>
  C15 What the parser returns is well-formed: integer literals are non-negative \<^verbatim>\<open>uint64_t\<close> within
  \<^verbatim>\<open>int64_t\<close> or negative \<^verbatim>\<open>int64_t\<close>, every pattern has been compiled with the flags of its operator,
  the field set is the set of the tree, and copying the query gives the same query.
\<close>
theorem query_from_string_wf:
  assumes "query_from_string R s = Some (Inr q)"
  shows "query_parsed R (q_root q) \<and> q_source q = s \<and> q_fields q = collect_fields (q_root q)
         \<and> query_copy R q = Some (Inr q)"
proof -
  obtain t where "parse R s = Some (Inr t)"
      "q = \<lparr>q_root = t, q_source = s, q_fields = collect_fields t\<rparr>"
    using assms by (auto simp: query_from_string_def pbind_Inr_conv)
  then show ?thesis by (simp add: parse_ok query_copy_def)
qed

lemma query_from_string_wf_witness:
  "\<exists>q. query_from_string rt_lib ''dur > 10'' = Some (Inr q) \<and> query_copy rt_lib q = Some (Inr q)"
proof -
  have "parse rt_lib ''dur > 10'' = Some (Inr (CompareNode ''dur'' GT (LU64 10)))" by code_simp
  then have "query_from_string rt_lib ''dur > 10'' = Some (Inr \<lparr>q_root = CompareNode ''dur'' GT (LU64 10),
      q_source = ''dur > 10'', q_fields = {''dur''}\<rparr>)" by (simp add: query_from_string_def)
  with query_from_string_wf [OF this] show ?thesis by blast
qed

text \<open>
  A string literal with a double quote, which a query can write in single quotes, is rendered
  without escaping, and the text does not parse.
\<close>
theorem rendered_quote_not_parsed:
  "\<exists>q e. parse R ''n == 'a\"b' '' = Some (Inr q) \<and> parse R (node_to_string q) = Some (Inl e)"
proof -
  have "parse R ''n == 'a\"b' '' = Some (Inr (CompareNode ''n'' EQ (LStr ''a\"b'')))" by code_simp
  moreover have "(case parse R ''n == \"a\"b\"'' of Some (Inl e) \<Rightarrow> True | _ \<Rightarrow> False)" by code_simp
  then have "\<exists>e. parse R ''n == \"a\"b\"'' = Some (Inl e)" by (auto split: option.splits sum.splits)
  ultimately show ?thesis by (auto simp: quote_def)
qed

end
