(* ===== verification/ChunkPruner.thy ===== *)
theory ChunkPruner
  imports DimStats QueryEval
begin

text \<open>
  Chunk pruning (\<^verbatim>\<open>trace/indexing/chunk_pruner_utility.cpp\<close>): from the dictionaries, bounds, bloom
  filters, timestamp histograms and name postings that the index holds for a file, the set of
  chunks that may hold an event matching a query.

  The index database is the record \<open>index_db\<close> of the answers to the queries the pruner makes; the
  outer \<open>None\<close> of every query stands for one that threw, on which the pruner assumes a match. The
  reads that loading makes are threaded through as options; those of names and hashes happen
  while the query is evaluated, and \<open>file_throws\<close> and \<open>node_throws\<close> say, in the order of the code and
  with its short cuts, whether one of them threw. \<open>BatchPrune\<close> builds the record from the store. The decompressor of
  libdeflate is its field \<open>db_inflate\<close>. The memo tables of \<^verbatim>\<open>PrunerContext\<close> only cache answers of
  the read-only database and are left out; so is the bloom cache that the pruner fills for others.
  \<^verbatim>\<open>std::set\<close> of checkpoint numbers is \<open>nat set\<close>.
\<close>

section \<open>The index\<close>

datatype hash_type = FILE | HOST | STRING

record dim_row =
  dr_checkpoint :: nat
  dr_dimension :: string
  dr_min :: string
  dr_max :: string
  dr_type :: string
  dr_counts :: "(string \<times> w64) list option"
  dr_compressed :: bytes

record index_db =
  db_fid :: "string \<Rightarrow> int option"
  db_dim_rows :: "int \<Rightarrow> dim_row list option"
  db_histograms :: "int \<Rightarrow> (nat \<times> ts_hist) list option"
  db_dimensions :: "int \<Rightarrow> string list option"
  db_chunk_blooms :: "int \<Rightarrow> string list \<Rightarrow> (string \<times> (nat \<times> bytes) list) list option"
  db_file_blooms :: "int \<Rightarrow> string list \<Rightarrow> (string \<times> bytes) list option"
  db_hash_of :: "hash_type \<Rightarrow> string \<Rightarrow> string option option"
  db_name_id :: "string \<Rightarrow> nat option option"
  db_name_files :: "string \<Rightarrow> int list option"
  db_name_chunks :: "string \<Rightarrow> int \<Rightarrow> nat list option"
  db_inflate :: "bytes \<Rightarrow> nat \<Rightarrow> bytes option"

definition decompress_value_counts :: "index_db \<Rightarrow> bytes \<Rightarrow> (string \<times> w64) list" where
  "decompress_value_counts db d =
     (if length d < 4 then []
      else let decoded_len = unat (read_u32_le d)
           in case db_inflate db (drop 4 d) decoded_len of
                None \<Rightarrow> []
              | Some out \<Rightarrow> if length out \<noteq> decoded_len then [] else deserialize_value_counts out)"

text \<open>\<^verbatim>\<open>has_value_counts_payload\<close> and \<^verbatim>\<open>ensure_value_counts_decoded\<close>.\<close>

definition row_dict :: "index_db \<Rightarrow> dim_row \<Rightarrow> (string \<times> w64) list option" where
  "row_dict db r =
     (case dr_counts r of
        Some vc \<Rightarrow> Some vc
      | None \<Rightarrow> if dr_compressed r = [] then None else Some (decompress_value_counts db (dr_compressed r)))"

type_synonym chunk_meta = "string \<rightharpoonup> dim_row"

record pruner_ctx =
  pc_db :: index_db
  pc_fid :: int
  pc_all :: "nat set"
  pc_chunks :: "nat \<rightharpoonup> chunk_meta"
  pc_blooms :: "string \<rightharpoonup> (nat \<rightharpoonup> scalable)"
  pc_hists :: "nat \<rightharpoonup> ts_hist"
  pc_file_blooms :: "string \<rightharpoonup> scalable"

section \<open>Values and names\<close>

definition HASH_DIMENSIONS :: "string list" where "HASH_DIMENSIONS = [''hhash'', ''fhash'', ''shash'']"

definition looks_like_hash :: "string \<Rightarrow> bool" where
  "looks_like_hash v \<longleftrightarrow> 16 \<le> length v \<and> list_all is_xdigit v"

definition dim_to_hash_type :: "string \<Rightarrow> hash_type option" where
  "dim_to_hash_type d =
     (if d = ''fhash'' then Some FILE else if d = ''hhash'' then Some HOST
      else if d = ''shash'' then Some STRING else None)"

definition resolve_hashes :: "pruner_ctx \<Rightarrow> string \<Rightarrow> string \<Rightarrow> string list" where
  "resolve_hashes ctx d v =
     (if d \<notin> set HASH_DIMENSIONS \<or> looks_like_hash v then []
      else case dim_to_hash_type d of
             None \<Rightarrow> []
           | Some t \<Rightarrow> (case db_hash_of (pc_db ctx) t v of Some (Some h) \<Rightarrow> [h] | _ \<Rightarrow> []))"

definition resolve_name_chunks :: "pruner_ctx \<Rightarrow> string \<Rightarrow> nat set" where
  "resolve_name_chunks ctx v =
     (if pc_fid ctx < 0 then {}
      else case db_name_chunks (pc_db ctx) v (pc_fid ctx) of None \<Rightarrow> {} | Some cs \<Rightarrow> set cs)"

definition file_contains_name :: "pruner_ctx \<Rightarrow> string \<Rightarrow> bool option" where
  "file_contains_name ctx v =
     (if pc_fid ctx < 0 then None
      else case db_name_id (pc_db ctx) v of
             Some (Some n) \<Rightarrow>
               Some (case db_name_files (pc_db ctx) v of None \<Rightarrow> False | Some fs \<Rightarrow> pc_fid ctx \<in> set fs)
           | _ \<Rightarrow> None)"

fun literal_text :: "literal \<Rightarrow> string" where
  "literal_text (LStr s) = s"
| "literal_text (LBool b) = (if b then ''true'' else ''false'')"
| "literal_text (LI64 i) = show_int i"
| "literal_text (LU64 n) = show_nat n"
| "literal_text (LF64 r) = canonical_number_text r"

section \<open>Dictionaries and bounds\<close>

definition dict_of :: "index_db \<Rightarrow> chunk_meta \<Rightarrow> string \<Rightarrow> (string \<times> w64) list option" where
  "dict_of db meta d = (case meta d of None \<Rightarrow> None | Some r \<Rightarrow> row_dict db r)"

definition dict_contains :: "index_db \<Rightarrow> chunk_meta \<Rightarrow> string \<Rightarrow> string \<Rightarrow> bool option" where
  "dict_contains db meta d v =
     (case dict_of db meta d of None \<Rightarrow> None | Some vc \<Rightarrow> Some (map_of vc v \<noteq> None))"

definition dict_excludes :: "index_db \<Rightarrow> chunk_meta \<Rightarrow> string \<Rightarrow> string \<Rightarrow> bool option" where
  "dict_excludes db meta d v =
     (case dict_of db meta d of None \<Rightarrow> None | Some vc \<Rightarrow> Some (length vc = 1 \<and> map_of vc v \<noteq> None))"

definition dict_lacks :: "index_db \<Rightarrow> chunk_meta \<Rightarrow> string \<Rightarrow> string \<Rightarrow> bool option" where
  "dict_lacks db meta d v =
     (case dict_of db meta d of None \<Rightarrow> None | Some vc \<Rightarrow> Some (map_of vc v = None))"

definition is_numeric_type :: "string \<Rightarrow> bool" where
  "is_numeric_type t \<longleftrightarrow> t = ''uint'' \<or> t = ''int'' \<or> t = ''double''"

text \<open>Texts that do not parse as the type are compared bytewise: the exception is swallowed.\<close>

definition compare_parsed :: "('a::linorder) option \<Rightarrow> 'a option \<Rightarrow> string \<Rightarrow> string \<Rightarrow> int" where
  "compare_parsed x y a b =
     (case (x, y) of (Some u, Some v) \<Rightarrow> three_way u v | _ \<Rightarrow> three_way a b)"

definition compare_values :: "string \<Rightarrow> string \<Rightarrow> string \<Rightarrow> int" where
  "compare_values a b vtype =
     (if vtype = ''uint'' then compare_parsed (stoull a) (stoull b) a b
      else if vtype = ''int'' then compare_parsed (stoll a) (stoll b) a b
      else if vtype = ''double'' then compare_parsed (stod a) (stod b) a b
      else three_way a b)"

definition is_fixed_dimension :: "string \<Rightarrow> bool" where
  "is_fixed_dimension d \<longleftrightarrow>
     d \<in> set [''name'', ''cat'', ''pid'', ''tid'', ''pid_tid'', ''hhash'', ''fhash'', ''shash'', ''ts'', ''dur'']"

definition corrupt_bounds :: "dim_row \<Rightarrow> bool" where
  "corrupt_bounds r \<longleftrightarrow>
     (case (stod (dr_min r), stod (dr_max r)) of (Some lo, Some hi) \<Rightarrow> hi < lo | _ \<Rightarrow> True)"

definition range_may_match :: "chunk_meta \<Rightarrow> string \<Rightarrow> compare_op \<Rightarrow> string \<Rightarrow> bool" where
  "range_may_match meta d op v =
     (case meta d of
        None \<Rightarrow> True
      | Some r \<Rightarrow>
          if dr_min r = [] \<and> dr_max r = [] then True
          else if is_numeric_type (dr_type r) \<and> dr_min r \<noteq> [] \<and> dr_max r \<noteq> [] \<and> corrupt_bounds r then True
          else case op of
                 GT \<Rightarrow> 0 < compare_values (dr_max r) v (dr_type r)
               | GE \<Rightarrow> 0 \<le> compare_values (dr_max r) v (dr_type r)
               | LT \<Rightarrow> compare_values (dr_min r) v (dr_type r) < 0
               | LE \<Rightarrow> compare_values (dr_min r) v (dr_type r) \<le> 0
               | _ \<Rightarrow> True)"

definition range_all_match :: "chunk_meta \<Rightarrow> string \<Rightarrow> compare_op \<Rightarrow> string \<Rightarrow> bool" where
  "range_all_match meta d op v =
     (case meta d of
        None \<Rightarrow> False
      | Some r \<Rightarrow>
          if dr_min r = [] \<or> dr_max r = [] then False
          else if is_numeric_type (dr_type r) \<and> corrupt_bounds r then False
          else case op of
                 GT \<Rightarrow> 0 < compare_values (dr_min r) v (dr_type r)
               | GE \<Rightarrow> 0 \<le> compare_values (dr_min r) v (dr_type r)
               | LT \<Rightarrow> compare_values (dr_max r) v (dr_type r) < 0
               | LE \<Rightarrow> compare_values (dr_max r) v (dr_type r) \<le> 0
               | _ \<Rightarrow> False)"

section \<open>Filters and histograms\<close>

definition bloom_probe :: "pruner_ctx \<Rightarrow> string \<Rightarrow> nat \<Rightarrow> string \<Rightarrow> bool" where
  "bloom_probe ctx d ckpt v =
     (case pc_blooms ctx d of
        None \<Rightarrow> True
      | Some m \<Rightarrow> (case m ckpt of None \<Rightarrow> True | Some b \<Rightarrow> scalable_contains b v))"

definition bloom_may_contain :: "pruner_ctx \<Rightarrow> string \<Rightarrow> nat \<Rightarrow> string \<Rightarrow> bool" where
  "bloom_may_contain ctx d ckpt v =
     (let hs = resolve_hashes ctx d v
      in if hs \<noteq> [] then list_ex (bloom_probe ctx d ckpt) hs else bloom_probe ctx d ckpt v)"

definition histogram_has_events :: "pruner_ctx \<Rightarrow> nat \<Rightarrow> compare_op \<Rightarrow> w64 \<Rightarrow> bool" where
  "histogram_has_events ctx ckpt op v =
     (case pc_hists ctx ckpt of
        None \<Rightarrow> True
      | Some h \<Rightarrow>
          if th_bins h = [] then True
          else case op of
                 GT \<Rightarrow> 0 < ts_count_in_range h (v + 1) (- 1)
               | GE \<Rightarrow> 0 < ts_count_in_range h v (- 1)
               | LT \<Rightarrow> 0 < ts_count_in_range h 0 v
               | LE \<Rightarrow> 0 < ts_count_in_range h 0 (v + 1)
               | _ \<Rightarrow> True)"

definition file_bloom_may_contain :: "pruner_ctx \<Rightarrow> string \<Rightarrow> string \<Rightarrow> bool" where
  "file_bloom_may_contain ctx d v =
     (case pc_file_blooms ctx d of
        None \<Rightarrow> True
      | Some b \<Rightarrow>
          let hs = resolve_hashes ctx d v
          in if hs \<noteq> [] then list_ex (scalable_contains b) hs else scalable_contains b v)"

fun file_may_match :: "pruner_ctx \<Rightarrow> query_node \<Rightarrow> bool" where
  "file_may_match ctx (CompareNode f op v) =
     (if op \<noteq> EQ then True else file_bloom_may_contain ctx f (literal_text v))"
| "file_may_match ctx (InNode f vs) = list_ex (\<lambda>v. file_bloom_may_contain ctx f (literal_text v)) vs"
| "file_may_match ctx (AndNode a b) = (file_may_match ctx a \<and> file_may_match ctx b)"
| "file_may_match ctx (OrNode a b) = (file_may_match ctx a \<or> file_may_match ctx b)"
| "file_may_match ctx _ = True"

fun collect_bloom_dimensions :: "query_node \<Rightarrow> string list \<Rightarrow> string list" where
  "collect_bloom_dimensions (CompareNode f op v) out = (if op = EQ then List.insert f out else out)"
| "collect_bloom_dimensions (InNode f vs) out = List.insert f out"
| "collect_bloom_dimensions (AndNode a b) out = collect_bloom_dimensions b (collect_bloom_dimensions a out)"
| "collect_bloom_dimensions (OrNode a b) out = collect_bloom_dimensions b (collect_bloom_dimensions a out)"
| "collect_bloom_dimensions (NotNode a) out = collect_bloom_dimensions a out"
| "collect_bloom_dimensions _ out = out"

section \<open>May-match and all-match sets\<close>

definition meta_of :: "pruner_ctx \<Rightarrow> nat \<Rightarrow> chunk_meta" where
  "meta_of ctx c = (case pc_chunks ctx c of None \<Rightarrow> Map.empty | Some m \<Rightarrow> m)"

definition chunk_may_compare :: "pruner_ctx \<Rightarrow> string \<Rightarrow> compare_op \<Rightarrow> literal \<Rightarrow> nat \<Rightarrow> bool" where
  "chunk_may_compare ctx f op lit c =
     (let meta = meta_of ctx c; db = pc_db ctx; v = literal_text lit
      in case op of
           EQ \<Rightarrow>
             (case dict_contains db meta f v of
                Some b \<Rightarrow> b
              | None \<Rightarrow>
                  if \<not> is_fixed_dimension f
                     \<and> (\<not> range_may_match meta f GE v \<or> \<not> range_may_match meta f LE v)
                  then False else bloom_may_contain ctx f c v)
         | NE \<Rightarrow> dict_excludes db meta f v \<noteq> Some True
         | _ \<Rightarrow>
             if \<not> range_may_match meta f op v then False
             else if f = ''ts'' then
               (case stoull v of
                  None \<Rightarrow> True
                | Some ts \<Rightarrow> histogram_has_events ctx c op (of_nat ts))
             else True)"

definition may_compare :: "pruner_ctx \<Rightarrow> string \<Rightarrow> compare_op \<Rightarrow> literal \<Rightarrow> nat set" where
  "may_compare ctx f op lit =
     (let v = literal_text lit;
          exact = (if f = ''name'' \<and> op = EQ then
                     (case file_contains_name ctx v of
                        None \<Rightarrow> None
                      | Some False \<Rightarrow> Some {}
                      | Some True \<Rightarrow>
                          if resolve_name_chunks ctx v \<noteq> {} then Some (resolve_name_chunks ctx v) else None)
                   else None)
      in case exact of Some r \<Rightarrow> r
         | None \<Rightarrow> {c \<in> pc_all ctx. chunk_may_compare ctx f op lit c})"

fun in_postings :: "pruner_ctx \<Rightarrow> literal list \<Rightarrow> nat set" where
  "in_postings ctx [] = {}"
| "in_postings ctx (v # vs) =
     (if file_contains_name ctx (literal_text v) = Some True
      then resolve_name_chunks ctx (literal_text v) \<union> in_postings ctx vs
      else in_postings ctx vs)"

definition chunk_may_in :: "pruner_ctx \<Rightarrow> string \<Rightarrow> literal list \<Rightarrow> nat \<Rightarrow> bool" where
  "chunk_may_in ctx f vs c =
     list_ex (\<lambda>lit. case dict_contains (pc_db ctx) (meta_of ctx c) f (literal_text lit) of
                      Some b \<Rightarrow> b
                    | None \<Rightarrow> bloom_may_contain ctx f c (literal_text lit)) vs"

definition may_in :: "pruner_ctx \<Rightarrow> string \<Rightarrow> literal list \<Rightarrow> nat set" where
  "may_in ctx f vs =
     (let r = (if f = ''name'' then in_postings ctx vs else {})
      in if r \<noteq> {} then r else {c \<in> pc_all ctx. chunk_may_in ctx f vs c})"

definition may_not_in :: "pruner_ctx \<Rightarrow> string \<Rightarrow> literal list \<Rightarrow> nat set" where
  "may_not_in ctx f vs =
     {c \<in> pc_all ctx.
        case dict_of (pc_db ctx) (meta_of ctx c) f of
          None \<Rightarrow> True
        | Some vc \<Rightarrow> \<not> list_all (\<lambda>(val, n). list_ex (\<lambda>lit. literal_text lit = val) vs) vc}"

definition chunk_all_compare :: "pruner_ctx \<Rightarrow> string \<Rightarrow> compare_op \<Rightarrow> literal \<Rightarrow> nat \<Rightarrow> bool" where
  "chunk_all_compare ctx f op lit c =
     (case pc_chunks ctx c of
        None \<Rightarrow> False
      | Some meta \<Rightarrow>
          let v = literal_text lit
          in case op of
               EQ \<Rightarrow> (case dict_of (pc_db ctx) meta f of
                        None \<Rightarrow> False | Some vc \<Rightarrow> length vc = 1 \<and> map_of vc v \<noteq> None)
             | NE \<Rightarrow> dict_lacks (pc_db ctx) meta f v = Some True
             | _ \<Rightarrow> range_all_match meta f op v)"

definition all_match_compare :: "pruner_ctx \<Rightarrow> string \<Rightarrow> compare_op \<Rightarrow> literal \<Rightarrow> nat set" where
  "all_match_compare ctx f op lit = {c \<in> pc_all ctx. chunk_all_compare ctx f op lit c}"

definition all_match_in :: "pruner_ctx \<Rightarrow> literal list \<Rightarrow> string \<Rightarrow> bool \<Rightarrow> nat set" where
  "all_match_in ctx vs f want_in =
     (let wanted = map literal_text vs
      in {c \<in> pc_all ctx.
            case pc_chunks ctx c of
              None \<Rightarrow> False
            | Some meta \<Rightarrow>
                (case dict_of (pc_db ctx) meta f of
                   None \<Rightarrow> False
                 | Some vc \<Rightarrow> vc \<noteq> [] \<and> list_all (\<lambda>(val, n). (val \<in> set wanted) = want_in) vc)})"

fun evaluate_node :: "pruner_ctx \<Rightarrow> query_node \<Rightarrow> nat set"
  and evaluate_all_match :: "pruner_ctx \<Rightarrow> query_node \<Rightarrow> nat set" where
  "evaluate_node ctx (CompareNode f op v) = may_compare ctx f op v"
| "evaluate_node ctx (InNode f vs) = may_in ctx f vs"
| "evaluate_node ctx (NotInNode f vs) = may_not_in ctx f vs"
| "evaluate_node ctx (AndNode a b) = evaluate_node ctx a \<inter> evaluate_node ctx b"
| "evaluate_node ctx (OrNode a b) = evaluate_node ctx a \<union> evaluate_node ctx b"
| "evaluate_node ctx (NotNode a) = pc_all ctx - evaluate_all_match ctx a"
| "evaluate_node ctx (MatchNode f op p neg c) = pc_all ctx"
| "evaluate_all_match ctx (CompareNode f op v) = all_match_compare ctx f op v"
| "evaluate_all_match ctx (InNode f vs) = all_match_in ctx vs f True"
| "evaluate_all_match ctx (NotInNode f vs) = all_match_in ctx vs f False"
| "evaluate_all_match ctx (AndNode a b) = evaluate_all_match ctx a \<inter> evaluate_all_match ctx b"
| "evaluate_all_match ctx (OrNode a b) = evaluate_all_match ctx a \<union> evaluate_all_match ctx b"
| "evaluate_all_match ctx (NotNode a) = pc_all ctx - evaluate_node ctx a"
| "evaluate_all_match ctx (MatchNode f op p neg c) = {}"

section \<open>Reads that throw while a query is evaluated\<close>

definition hashes_throw :: "pruner_ctx \<Rightarrow> string \<Rightarrow> string \<Rightarrow> bool" where
  "hashes_throw ctx d v \<longleftrightarrow>
     \<not> (d \<notin> set HASH_DIMENSIONS \<or> looks_like_hash v)
     \<and> (case dim_to_hash_type d of None \<Rightarrow> False | Some t \<Rightarrow> db_hash_of (pc_db ctx) t v = None)"

definition name_chunks_throw :: "pruner_ctx \<Rightarrow> string \<Rightarrow> bool" where
  "name_chunks_throw ctx v \<longleftrightarrow> \<not> pc_fid ctx < 0 \<and> db_name_chunks (pc_db ctx) v (pc_fid ctx) = None"

definition file_names_throw :: "pruner_ctx \<Rightarrow> string \<Rightarrow> bool" where
  "file_names_throw ctx v \<longleftrightarrow>
     \<not> pc_fid ctx < 0
     \<and> (case db_name_id (pc_db ctx) v of
          None \<Rightarrow> True | Some None \<Rightarrow> False | Some (Some n) \<Rightarrow> db_name_files (pc_db ctx) v = None)"

definition file_bloom_throws :: "pruner_ctx \<Rightarrow> string \<Rightarrow> string \<Rightarrow> bool" where
  "file_bloom_throws ctx d v \<longleftrightarrow> pc_file_blooms ctx d \<noteq> None \<and> hashes_throw ctx d v"

fun file_in_throws :: "pruner_ctx \<Rightarrow> string \<Rightarrow> literal list \<Rightarrow> bool" where
  "file_in_throws ctx f [] \<longleftrightarrow> False"
| "file_in_throws ctx f (v # vs) \<longleftrightarrow>
     file_bloom_throws ctx f (literal_text v)
     \<or> \<not> file_bloom_may_contain ctx f (literal_text v) \<and> file_in_throws ctx f vs"

fun file_throws :: "pruner_ctx \<Rightarrow> query_node \<Rightarrow> bool" where
  "file_throws ctx (CompareNode f op v) \<longleftrightarrow> op = EQ \<and> file_bloom_throws ctx f (literal_text v)"
| "file_throws ctx (InNode f vs) \<longleftrightarrow> file_in_throws ctx f vs"
| "file_throws ctx (AndNode a b) \<longleftrightarrow> file_throws ctx a \<or> file_may_match ctx a \<and> file_throws ctx b"
| "file_throws ctx (OrNode a b) \<longleftrightarrow> file_throws ctx a \<or> \<not> file_may_match ctx a \<and> file_throws ctx b"
| "file_throws ctx _ \<longleftrightarrow> False"

text \<open>The hashes of a chunk's filter are resolved before the filter is looked up.\<close>

definition chunk_throws :: "pruner_ctx \<Rightarrow> string \<Rightarrow> literal \<Rightarrow> nat \<Rightarrow> bool" where
  "chunk_throws ctx f lit c \<longleftrightarrow>
     (let meta = meta_of ctx c; v = literal_text lit
      in dict_contains (pc_db ctx) meta f v = None
         \<and> \<not> (\<not> is_fixed_dimension f \<and> (\<not> range_may_match meta f GE v \<or> \<not> range_may_match meta f LE v))
         \<and> hashes_throw ctx f v)"

definition compare_throws :: "pruner_ctx \<Rightarrow> string \<Rightarrow> compare_op \<Rightarrow> literal \<Rightarrow> bool" where
  "compare_throws ctx f op lit \<longleftrightarrow>
     op = EQ
     \<and> (let v = literal_text lit;
            scan = (\<exists>c \<in> pc_all ctx. chunk_throws ctx f lit c)
        in if f = ''name'' then
             file_names_throw ctx v
             \<or> (case file_contains_name ctx v of
                  None \<Rightarrow> scan
                | Some False \<Rightarrow> False
                | Some True \<Rightarrow> name_chunks_throw ctx v \<or> resolve_name_chunks ctx v = {} \<and> scan)
           else scan)"

fun in_chunk_throws :: "pruner_ctx \<Rightarrow> string \<Rightarrow> literal list \<Rightarrow> nat \<Rightarrow> bool" where
  "in_chunk_throws ctx f [] c \<longleftrightarrow> False"
| "in_chunk_throws ctx f (lit # lits) c \<longleftrightarrow>
     (case dict_contains (pc_db ctx) (meta_of ctx c) f (literal_text lit) of
        Some b \<Rightarrow> \<not> b \<and> in_chunk_throws ctx f lits c
      | None \<Rightarrow> hashes_throw ctx f (literal_text lit)
          \<or> \<not> bloom_may_contain ctx f c (literal_text lit) \<and> in_chunk_throws ctx f lits c)"

definition in_throws :: "pruner_ctx \<Rightarrow> string \<Rightarrow> literal list \<Rightarrow> bool" where
  "in_throws ctx f vs \<longleftrightarrow>
     f = ''name'' \<and> list_ex (\<lambda>v. file_names_throw ctx (literal_text v)
          \<or> file_contains_name ctx (literal_text v) = Some True \<and> name_chunks_throw ctx (literal_text v)) vs
     \<or> (f \<noteq> ''name'' \<or> in_postings ctx vs = {}) \<and> (\<exists>c \<in> pc_all ctx. in_chunk_throws ctx f vs c)"

text \<open>The sets of chunks where every event matches read no names and no hashes but below a negation.\<close>

fun node_throws :: "pruner_ctx \<Rightarrow> query_node \<Rightarrow> bool"
  and all_match_throws :: "pruner_ctx \<Rightarrow> query_node \<Rightarrow> bool" where
  "node_throws ctx (CompareNode f op v) \<longleftrightarrow> compare_throws ctx f op v"
| "node_throws ctx (InNode f vs) \<longleftrightarrow> in_throws ctx f vs"
| "node_throws ctx (AndNode a b) \<longleftrightarrow> node_throws ctx a \<or> node_throws ctx b"
| "node_throws ctx (OrNode a b) \<longleftrightarrow> node_throws ctx a \<or> node_throws ctx b"
| "node_throws ctx (NotNode a) \<longleftrightarrow> all_match_throws ctx a"
| "node_throws ctx _ \<longleftrightarrow> False"
| "all_match_throws ctx (AndNode a b) \<longleftrightarrow> all_match_throws ctx a \<or> all_match_throws ctx b"
| "all_match_throws ctx (OrNode a b) \<longleftrightarrow> all_match_throws ctx a \<or> all_match_throws ctx b"
| "all_match_throws ctx (NotNode a) \<longleftrightarrow> node_throws ctx a"
| "all_match_throws ctx _ \<longleftrightarrow> False"

section \<open>Pruning a file\<close>

record prune_output =
  po_may_match :: bool
  po_candidates :: "nat list"
  po_total :: nat
  po_success :: bool

definition assume_match :: prune_output where
  "assume_match = \<lparr>po_may_match = True, po_candidates = [], po_total = 0, po_success = True\<rparr>"

definition definite_miss :: prune_output where
  "definite_miss = \<lparr>po_may_match = False, po_candidates = [], po_total = 0, po_success = True\<rparr>"

definition new_ctx :: "index_db \<Rightarrow> int \<Rightarrow> pruner_ctx" where
  "new_ctx db fid =
     \<lparr>pc_db = db, pc_fid = fid, pc_all = {}, pc_chunks = Map.empty, pc_blooms = Map.empty,
      pc_hists = Map.empty, pc_file_blooms = Map.empty\<rparr>"

text \<open>A blob that does not parse throws, and the pruner assumes a match.\<close>

fun load_file_blooms :: "bloom_math \<Rightarrow> (string \<times> bytes) list \<Rightarrow> pruner_ctx \<Rightarrow> pruner_ctx option" where
  "load_file_blooms B [] ctx = Some ctx"
| "load_file_blooms B ((d, blob) # bs) ctx =
     (case scalable_from_blob B blob of
        Inl e \<Rightarrow> None
      | Inr f \<Rightarrow>
          load_file_blooms B bs
            (if pc_file_blooms ctx d = None then ctx\<lparr>pc_file_blooms := (pc_file_blooms ctx)(d \<mapsto> f)\<rparr> else ctx))"

definition file_survives_file_blooms :: "bloom_math \<Rightarrow> query_node \<Rightarrow> pruner_ctx \<Rightarrow> (bool \<times> pruner_ctx) option" where
  "file_survives_file_blooms B q ctx =
     (let dims = collect_bloom_dimensions q []
      in if dims = [] then Some (True, ctx)
         else case db_file_blooms (pc_db ctx) (pc_fid ctx) dims of
                None \<Rightarrow> None
              | Some bs \<Rightarrow>
                  (case load_file_blooms B bs ctx of
                     None \<Rightarrow> None
                   | Some ctx \<Rightarrow> if file_throws ctx q then None else Some (file_may_match ctx q, ctx)))"

definition load_row :: "dim_row \<Rightarrow> pruner_ctx \<Rightarrow> pruner_ctx" where
  "load_row r ctx =
     ctx\<lparr>pc_all := insert (dr_checkpoint r) (pc_all ctx),
         pc_chunks := (pc_chunks ctx)(dr_checkpoint r \<mapsto> (meta_of ctx (dr_checkpoint r))(dr_dimension r \<mapsto> r))\<rparr>"

definition load_histogram :: "nat \<times> ts_hist \<Rightarrow> pruner_ctx \<Rightarrow> pruner_ctx" where
  "load_histogram ch ctx =
     (if th_bins (snd ch) = [] then ctx else ctx\<lparr>pc_hists := (pc_hists ctx)(fst ch \<mapsto> snd ch)\<rparr>)"

fun load_blooms_of :: "bloom_math \<Rightarrow> string \<Rightarrow> (nat \<times> bytes) list \<Rightarrow> pruner_ctx \<Rightarrow> pruner_ctx option" where
  "load_blooms_of B d [] ctx = Some ctx"
| "load_blooms_of B d ((c, blob) # bs) ctx =
     (case scalable_from_blob B blob of
        Inl e \<Rightarrow> None
      | Inr f \<Rightarrow>
          load_blooms_of B d bs
            (ctx\<lparr>pc_all := insert c (pc_all ctx),
                 pc_blooms := (pc_blooms ctx)(d \<mapsto>
                   (case pc_blooms ctx d of None \<Rightarrow> Map.empty | Some m \<Rightarrow> m)(c \<mapsto> f))\<rparr>))"

fun load_chunk_blooms :: "bloom_math \<Rightarrow> (string \<times> (nat \<times> bytes) list) list \<Rightarrow> pruner_ctx \<Rightarrow> pruner_ctx option" where
  "load_chunk_blooms B [] ctx = Some ctx"
| "load_chunk_blooms B ((d, bs) # ds) ctx =
     (case load_blooms_of B d bs ctx of None \<Rightarrow> None | Some ctx \<Rightarrow> load_chunk_blooms B ds ctx)"

definition load_index :: "bloom_math \<Rightarrow> dim_row list \<Rightarrow> (nat \<times> ts_hist) list \<Rightarrow> pruner_ctx \<Rightarrow> pruner_ctx option" where
  "load_index B rows hists ctx =
     (let ctx = fold load_histogram hists (fold load_row rows ctx)
      in case db_dimensions (pc_db ctx) (pc_fid ctx) of
           None \<Rightarrow> None
         | Some dims \<Rightarrow>
             (case db_chunk_blooms (pc_db ctx) (pc_fid ctx) dims of
                None \<Rightarrow> None
              | Some cbs \<Rightarrow> load_chunk_blooms B cbs ctx))"

definition prune_candidates :: "query_node \<Rightarrow> pruner_ctx \<Rightarrow> prune_output" where
  "prune_candidates q ctx =
     (if pc_all ctx = {} then assume_match
      else let cs = sorted_list_of_set (evaluate_node ctx q)
           in \<lparr>po_may_match = (cs \<noteq> []), po_candidates = cs, po_total = Max (pc_all ctx) + 1, po_success = True\<rparr>)"

definition prune_loaded :: "query_node \<Rightarrow> pruner_ctx \<Rightarrow> prune_output option" where
  "prune_loaded q ctx =
     (if pc_all ctx \<noteq> {} \<and> node_throws ctx q then None else Some (prune_candidates q ctx))"

definition prune_fid :: "bloom_math \<Rightarrow> index_db \<Rightarrow> int \<Rightarrow> query_node \<Rightarrow> prune_output option" where
  "prune_fid B db fid q =
     (case file_survives_file_blooms B q (new_ctx db fid) of
        None \<Rightarrow> None
      | Some (False, ctx) \<Rightarrow> Some definite_miss
      | Some (True, ctx) \<Rightarrow>
          (case db_dim_rows db fid of
             None \<Rightarrow> None
           | Some rows \<Rightarrow>
               (case db_histograms db fid of
                  None \<Rightarrow> None
                | Some hists \<Rightarrow> Option.bind (load_index B rows hists ctx) (prune_loaded q))))"

definition prune_file :: "bloom_math \<Rightarrow> index_db \<Rightarrow> string \<Rightarrow> query_node \<Rightarrow> prune_output" where
  "prune_file B db path q =
     (case db_fid db path of
        None \<Rightarrow> assume_match
      | Some fid \<Rightarrow>
          if fid < 0 then assume_match
          else (case prune_fid B db fid q of None \<Rightarrow> assume_match | Some out \<Rightarrow> out))"

text \<open>
  The items of \<^verbatim>\<open>process_batch\<close>, with the rows and statistics that were read for all files at once. The
  histograms of a file are moved out of the shared scan, so a second item for the same file finds
  them empty. \<open>BatchPrune\<close> has the scans and the batch itself.
\<close>

type_synonym row_map = "int \<rightharpoonup> dim_row list"
type_synonym hist_map = "int \<rightharpoonup> (nat \<times> ts_hist) list"

definition take_histograms :: "int \<Rightarrow> hist_map \<Rightarrow> hist_map" where
  "take_histograms fid hists =
     (case hists fid of None \<Rightarrow> hists | Some hs \<Rightarrow> hists(fid \<mapsto> map (\<lambda>(c, h). (c, h\<lparr>th_bins := []\<rparr>)) hs))"

definition prune_batch_item ::
  "bloom_math \<Rightarrow> index_db \<Rightarrow> row_map \<Rightarrow> hist_map \<Rightarrow> int \<Rightarrow> query_node \<Rightarrow> prune_output \<times> hist_map" where
  "prune_batch_item B db rows hists fid q =
     (if fid < 0 then (assume_match, hists)
      else case file_survives_file_blooms B q (new_ctx db fid) of
             None \<Rightarrow> (assume_match, hists)
           | Some (False, ctx) \<Rightarrow> (definite_miss, hists)
           | Some (True, ctx) \<Rightarrow>
               (case Option.bind (load_index B (case rows fid of None \<Rightarrow> [] | Some rs \<Rightarrow> rs)
                       (case hists fid of None \<Rightarrow> [] | Some hs \<Rightarrow> hs) ctx) (prune_loaded q) of
                  None \<Rightarrow> assume_match
                | Some out \<Rightarrow> out, take_histograms fid hists))"

fun prune_items ::
  "bloom_math \<Rightarrow> index_db \<Rightarrow> row_map \<Rightarrow> hist_map \<Rightarrow> (int \<times> query_node) list \<Rightarrow> prune_output list" where
  "prune_items B db rows hists [] = []"
| "prune_items B db rows hists ((fid, q) # items) =
     (let (out, hists) = prune_batch_item B db rows hists fid q
      in out # prune_items B db rows hists items)"

end
