(* ===== verification/Subsumption.thy ===== *)
theory Subsumption
  imports QueryEval
begin

text \<open>
  Predicate subsumption for materialized views (\<^verbatim>\<open>query/subsumption.cpp\<close>): a conjunction is split
  into numeric intervals, value sets and opaque residuals, and containment is decided on these.
  \<^verbatim>\<open>std::map\<close> is an association list, \<^verbatim>\<open>std::set\<close> of residual texts a list.

  The main lemma is soundness: if the test answers true, every event of the query is an event of
  the view. It holds for queries inside a stated fragment (\<open>lits_ok\<close>, \<open>mv_ok\<close>); two theorems show
  what goes wrong outside of it.
\<close>

fun as_number :: "literal \<Rightarrow> f64 option" where
  "as_number (LI64 i) = Some (f64_of_int i)"
| "as_number (LU64 n) = Some (f64_of_int (int n))"
| "as_number (LF64 r) = Some r"
| "as_number _ = None"

fun literal_key :: "literal \<Rightarrow> string" where
  "literal_key (LStr s) = ''s:'' @ s"
| "literal_key (LBool b) = (if b then ''b:1'' else ''b:0'')"
| "literal_key (LI64 i) = ''n:'' @ fmt_f (f64_of_int i)"
| "literal_key (LU64 n) = ''n:'' @ fmt_f (f64_of_int (int n))"
| "literal_key (LF64 r) = ''n:'' @ fmt_f r"

section \<open>Intervals\<close>

record bound =
  b_val :: f64
  b_strict :: bool

record interval =
  iv_lo :: "bound option"
  iv_hi :: "bound option"

definition empty_interval :: interval where "empty_interval = \<lparr>iv_lo = None, iv_hi = None\<rparr>"

definition tighten_lo :: "bound option \<Rightarrow> bound \<Rightarrow> bound option" where
  "tighten_lo old cand =
     (case old of None \<Rightarrow> Some cand
      | Some c \<Rightarrow>
          if b_val c < b_val cand \<or> (b_val cand = b_val c \<and> b_strict cand \<and> \<not> b_strict c)
          then Some cand else old)"

definition tighten_hi :: "bound option \<Rightarrow> bound \<Rightarrow> bound option" where
  "tighten_hi old cand =
     (case old of None \<Rightarrow> Some cand
      | Some c \<Rightarrow>
          if b_val cand < b_val c \<or> (b_val cand = b_val c \<and> b_strict cand \<and> \<not> b_strict c)
          then Some cand else old)"

definition lo_within :: "bound option \<Rightarrow> bound option \<Rightarrow> bool" where
  "lo_within q mv =
     (case mv of None \<Rightarrow> True | Some m \<Rightarrow>
        (case q of None \<Rightarrow> False | Some c \<Rightarrow>
           if b_val c \<noteq> b_val m then b_val m < b_val c
           else (if b_strict m then 1 else 0 :: nat) \<le> (if b_strict c then 1 else 0)))"

definition hi_within :: "bound option \<Rightarrow> bound option \<Rightarrow> bool" where
  "hi_within q mv =
     (case mv of None \<Rightarrow> True | Some m \<Rightarrow>
        (case q of None \<Rightarrow> False | Some c \<Rightarrow>
           if b_val c \<noteq> b_val m then b_val c < b_val m
           else (if b_strict c then 0 else 1 :: nat) \<le> (if b_strict m then 0 else 1)))"

definition point_in :: "f64 \<Rightarrow> interval \<Rightarrow> bool" where
  "point_in v iv \<longleftrightarrow>
     \<not> (case iv_lo iv of None \<Rightarrow> False | Some b \<Rightarrow> v < b_val b \<or> (v = b_val b \<and> b_strict b))
     \<and> \<not> (case iv_hi iv of None \<Rightarrow> False | Some b \<Rightarrow> b_val b < v \<or> (v = b_val b \<and> b_strict b))"

definition as_point :: "interval \<Rightarrow> f64 option" where
  "as_point iv =
     (case (iv_lo iv, iv_hi iv) of
        (Some l, Some h) \<Rightarrow>
          if \<not> b_strict l \<and> \<not> b_strict h \<and> b_val l = b_val h then Some (b_val l) else None
      | _ \<Rightarrow> None)"

section \<open>Buckets\<close>

type_synonym value_set = "(string \<times> f64 option) list"

record buckets =
  bk_intervals :: "(string \<times> interval) list"
  bk_sets :: "(string \<times> value_set) list"
  bk_residual :: "string list"

definition empty_buckets :: buckets where
  "empty_buckets = \<lparr>bk_intervals = [], bk_sets = [], bk_residual = []\<rparr>"

definition the_interval :: "buckets \<Rightarrow> string \<Rightarrow> interval" where
  "the_interval b f = (case map_of (bk_intervals b) f of None \<Rightarrow> empty_interval | Some iv \<Rightarrow> iv)"

definition the_set :: "buckets \<Rightarrow> string \<Rightarrow> value_set" where
  "the_set b f = (case map_of (bk_sets b) f of None \<Rightarrow> [] | Some vs \<Rightarrow> vs)"

definition put_interval :: "buckets \<Rightarrow> string \<Rightarrow> interval \<Rightarrow> buckets" where
  "put_interval b f iv = b\<lparr>bk_intervals := al_put f iv (bk_intervals b)\<rparr>"

text \<open>\<^verbatim>\<open>b.sets[field].emplace(key, num)\<close>.\<close>

definition emplace_set :: "buckets \<Rightarrow> string \<Rightarrow> string \<Rightarrow> f64 option \<Rightarrow> buckets" where
  "emplace_set b f k num = b\<lparr>bk_sets := al_put f (al_emplace k num (the_set b f)) (bk_sets b)\<rparr>"

definition add_set_value :: "string \<Rightarrow> literal \<Rightarrow> buckets \<Rightarrow> buckets" where
  "add_set_value f v b = emplace_set b f (literal_key v) (as_number v)"

definition add_residual :: "query_node \<Rightarrow> buckets \<Rightarrow> buckets" where
  "add_residual node b = b\<lparr>bk_residual := List.insert (node_to_string node) (bk_residual b)\<rparr>"

text \<open>\<open>or_to_set node field vals\<close>: \<open>None\<close> where the code returns false.\<close>

fun or_to_set :: "query_node \<Rightarrow> string \<Rightarrow> value_set \<Rightarrow> (string \<times> value_set) option" where
  "or_to_set (OrNode l r) field vals =
     (case or_to_set l field vals of None \<Rightarrow> None
      | Some (field', vals') \<Rightarrow> or_to_set r field' vals')"
| "or_to_set (CompareNode f op v) field vals =
     (if op \<noteq> EQ then None
      else if field = [] \<or> field = f
      then Some (f, al_emplace (literal_key v) (as_number v) vals) else None)"
| "or_to_set (InNode f vs) field vals =
     (if field = [] \<or> field = f
      then Some (f, foldl (\<lambda>m v. al_emplace (literal_key v) (as_number v) m) vals vs) else None)"
| "or_to_set _ field vals = None"

definition flatten_compare :: "query_node \<Rightarrow> string \<Rightarrow> compare_op \<Rightarrow> literal \<Rightarrow> buckets \<Rightarrow> buckets" where
  "flatten_compare node f op v b =
     (let iv = the_interval b f in
      case as_number v of
        Some x \<Rightarrow>
          (if op = EQ then
             put_interval b f
               (iv\<lparr>iv_lo := tighten_lo (iv_lo iv) \<lparr>b_val = x, b_strict = False\<rparr>,
                   iv_hi := tighten_hi (iv_hi iv) \<lparr>b_val = x, b_strict = False\<rparr>\<rparr>)
           else if op = GT \<or> op = GE then
             put_interval b f (iv\<lparr>iv_lo := tighten_lo (iv_lo iv) \<lparr>b_val = x, b_strict = (op = GT)\<rparr>\<rparr>)
           else if op = LT \<or> op = LE then
             put_interval b f (iv\<lparr>iv_hi := tighten_hi (iv_hi iv) \<lparr>b_val = x, b_strict = (op = LT)\<rparr>\<rparr>)
           else add_residual node b)
      | None \<Rightarrow> if op = EQ then add_set_value f v b else add_residual node b)"

fun flatten :: "query_node \<Rightarrow> buckets \<Rightarrow> buckets" where
  "flatten (AndNode l r) b = flatten r (flatten l b)"
| "flatten (CompareNode f op v) b = flatten_compare (CompareNode f op v) f op v b"
| "flatten (InNode f vs) b = foldl (\<lambda>b v. add_set_value f v b) b vs"
| "flatten (OrNode l r) b =
     (case or_to_set (OrNode l r) [] [] of
        Some (field, vals) \<Rightarrow> foldl (\<lambda>b (k, num). emplace_set b field k num) b vals
      | None \<Rightarrow> add_residual (OrNode l r) b)"
| "flatten node b = add_residual node b"

definition set_within_interval :: "value_set \<Rightarrow> interval \<Rightarrow> bool" where
  "set_within_interval vals iv \<longleftrightarrow>
     list_all (\<lambda>(key, num). case num of None \<Rightarrow> False | Some x \<Rightarrow> point_in x iv) vals"

section \<open>The test\<close>

definition interval_covered :: "buckets \<Rightarrow> string \<Rightarrow> interval \<Rightarrow> bool" where
  "interval_covered Q f m_iv \<longleftrightarrow>
     (case map_of (bk_intervals Q) f of None \<Rightarrow> False
      | Some q \<Rightarrow> lo_within (iv_lo q) (iv_lo m_iv) \<and> hi_within (iv_hi q) (iv_hi m_iv))
     \<or> (case map_of (bk_sets Q) f of None \<Rightarrow> False | Some vs \<Rightarrow> set_within_interval vs m_iv)"

definition set_covered :: "buckets \<Rightarrow> string \<Rightarrow> value_set \<Rightarrow> bool" where
  "set_covered Q f m_set \<longleftrightarrow>
     (case map_of (bk_sets Q) f of None \<Rightarrow> False
      | Some vs \<Rightarrow> list_all (\<lambda>(key, num). map_of m_set key \<noteq> None) vs)
     \<or> (case map_of (bk_intervals Q) f of None \<Rightarrow> False
        | Some q \<Rightarrow> (case as_point q of None \<Rightarrow> False
            | Some p \<Rightarrow> list_ex (\<lambda>(key, num). num = Some p) m_set))"

definition conj_subsumes :: "query_node \<Rightarrow> query_node \<Rightarrow> bool" where
  "conj_subsumes mv query =
     (let M = flatten mv empty_buckets; Q = flatten query empty_buckets
      in list_all (\<lambda>(f, iv). interval_covered Q f iv) (bk_intervals M)
         \<and> list_all (\<lambda>(f, vals). set_covered Q f vals) (bk_sets M)
         \<and> list_all (\<lambda>r. r \<in> set (bk_residual Q)) (bk_residual M))"

function query_subsumes :: "query_node \<Rightarrow> query_node \<Rightarrow> bool" where
  "query_subsumes mv query =
     (case query of
        OrNode l r \<Rightarrow> query_subsumes mv l \<and> query_subsumes mv r
      | _ \<Rightarrow>
        if conj_subsumes mv query then True
        else (case mv of
                OrNode l r \<Rightarrow> query_subsumes l query \<or> query_subsumes r query
              | _ \<Rightarrow> False))"
  by pat_completeness auto
termination by (relation "measure (\<lambda>(mv, query). size mv + size query)") auto

declare query_subsumes.simps [simp del]

section \<open>What the comparisons mean\<close>

fun lit_exact :: "literal \<Rightarrow> bool" where
  "lit_exact (LI64 i) = (\<bar>i\<bar> < 2 ^ 53)"
| "lit_exact (LU64 n) = (n < 2 ^ 53)"
| "lit_exact _ = True"

definition num_val :: "json_value \<Rightarrow> f64 option" where
  "num_val fv = (if is_number fv then Some (get_f64 fv) else None)"

lemma three_way_eq_0 [simp]: "three_way a b = 0 \<longleftrightarrow> a = b"
  by (auto simp: three_way_def)

lemma three_way_f64_of_int:
  assumes "\<bar>v\<bar> < 2 ^ 53" shows "three_way (f64_of_int i) (f64_of_int v) = three_way i v"
proof -
  have up: "f64_of_int v < f64_of_int i" if "v < i"
  proof -
    have "f64_of_int v < of_int (v + 1)" using assms f64_of_int_exact [of v] by simp
    also have "\<dots> = f64_of_int (v + 1)" using assms by (intro f64_of_int_exact [symmetric]) simp
    also have "\<dots> \<le> f64_of_int i" using that by (intro f64_of_int_mono) simp
    finally show ?thesis .
  qed
  have down: "f64_of_int i < f64_of_int v" if "i < v"
  proof -
    have "f64_of_int i \<le> f64_of_int (v - 1)" using that by (intro f64_of_int_mono) simp
    also have "\<dots> = of_int (v - 1)" using assms by (intro f64_of_int_exact) simp
    also have "\<dots> < f64_of_int v" using assms f64_of_int_exact [of v] by simp
    finally show ?thesis .
  qed
  from up down show ?thesis
    by (cases i v rule: linorder_cases) (auto simp: three_way_def)
qed

lemma three_way_nat: "0 \<le> i \<Longrightarrow> three_way (nat i) v = three_way i (int v)"
  by (auto simp: three_way_def zless_nat_eq_int_zless nat_less_iff)

lemma three_way_int: "three_way (int u) (int v) = three_way u v"
  by (simp add: three_way_def)

lemma compare_value_number:
  assumes "value_ok fv" "as_number lit = Some x" "lit_exact lit"
  shows "compare_value fv lit = map_option (\<lambda>v. three_way v x) (num_val fv)"
proof (cases "\<exists>n. fv = Some (JNum n)")
  case True
  then obtain n where fv: "fv = Some (JNum n)" by blast
  with assms(1) have ok: "dom_num_ok n" by simp
  show ?thesis
  proof (cases "dom_i64 n")
    case (Some i)
    with ok have d: "dom_f64 n \<in> {None, Some (f64_of_int i)}" "dom_u64 n = (if 0 \<le> i then Some (nat i) else None)"
      by (simp_all add: dom_num_ok_def)
    then have g: "get_f64 fv = f64_of_int i" by (auto simp: fv Some)
    show ?thesis
    proof (cases lit)
      case (LU64 v)
      have c: "three_way (f64_of_int i) (f64_of_int (int v)) = three_way i (int v)"
        using assms(3) LU64 by (intro three_way_f64_of_int) simp
      have x: "x = f64_of_int (int v)" using assms(2) LU64 by simp
      show ?thesis
      proof (cases "0 \<le> i")
        case True
        with d(2) g show ?thesis by (simp add: fv Some LU64 num_val_def x c three_way_nat)
      next
        case False
        then have "three_way i (int v) = - 1" by (simp add: three_way_def)
        with False d(2) g show ?thesis by (simp add: fv Some LU64 num_val_def x c)
      qed
    qed (use assms(2,3) three_way_f64_of_int g in \<open>auto simp: fv Some num_val_def\<close>)
  next
    case None
    note i = None
    show ?thesis
    proof (cases "dom_u64 n")
      case (Some u)
      with ok i have d: "dom_f64 n \<in> {None, Some (f64_of_int (int u))}"
        by (simp add: dom_num_ok_def)
      then have g: "get_f64 fv = f64_of_int (int u)" by (auto simp: fv Some i)
      show ?thesis
      proof (cases lit)
        case (LI64 v)
        with assms(2,3) three_way_f64_of_int [of v "int u"] g show ?thesis
          using three_way_int [of u "nat v"] by (auto simp: fv Some i num_val_def three_way_def)
      next
        case (LU64 v)
        with assms(2,3) three_way_f64_of_int [of "int v" "int u"] g three_way_int [of u v] show ?thesis
          by (auto simp: fv Some i num_val_def)
      qed (use assms(2,3) g in \<open>auto simp: fv Some i num_val_def\<close>)
    next
      case None
      with ok i obtain r where "dom_f64 n = Some r" by (auto simp: dom_num_ok_def)
      with None i assms(2) show ?thesis by (cases lit) (auto simp: fv num_val_def)
    qed
  qed
next
  case False
  then have "\<not> is_number fv" "\<not> is_int fv" "\<not> is_uint fv"
    by (cases fv rule: is_number.cases; auto)+
  with assms(2) show ?thesis by (cases lit) (auto simp: num_val_def)
qed

definition lit_equiv :: "literal \<Rightarrow> literal \<Rightarrow> bool" where
  "lit_equiv a b \<longleftrightarrow> as_number a = as_number b \<and> (as_number a = None \<longrightarrow> a = b)"

lemma compare_value_equiv:
  assumes "value_ok fv" "lit_exact a" "lit_exact b" "lit_equiv a b"
  shows "compare_value fv a = Some 0 \<longleftrightarrow> compare_value fv b = Some 0"
proof (cases "as_number a")
  case None
  with assms(4) show ?thesis by (simp add: lit_equiv_def)
next
  case (Some x)
  with assms(4) have "as_number b = Some x" by (simp add: lit_equiv_def)
  with Some assms show ?thesis by (simp add: compare_value_number)
qed

lemma compare_value_null: "is_null fv \<Longrightarrow> compare_value fv v = None"
  by (cases fv rule: is_null.cases; cases v) auto

lemma eval_compare_conv:
  "eval_compare ev f op v \<longleftrightarrow> apply_compare op (compare_value (resolve_field ev f) v)"
  by (auto simp: eval_compare_def Let_def compare_value_null)

lemma eval_in_conv:
  "eval_in ev f vs \<longleftrightarrow> (\<exists>v \<in> set vs. compare_value (resolve_field ev f) v = Some 0)"
  by (auto simp: eval_in_def Let_def compare_value_null list_ex_iff)

section \<open>Intervals as sets of numbers\<close>

definition lo_ok :: "f64 \<Rightarrow> bound option \<Rightarrow> bool" where
  "lo_ok v b \<longleftrightarrow> \<not> (case b of None \<Rightarrow> False | Some b \<Rightarrow> v < b_val b \<or> (v = b_val b \<and> b_strict b))"
definition hi_ok :: "f64 \<Rightarrow> bound option \<Rightarrow> bool" where
  "hi_ok v b \<longleftrightarrow> \<not> (case b of None \<Rightarrow> False | Some b \<Rightarrow> b_val b < v \<or> (v = b_val b \<and> b_strict b))"

lemma bound_ok_Some [simp]:
  "lo_ok v (Some c) \<longleftrightarrow> b_val c < v \<or> (v = b_val c \<and> \<not> b_strict c)"
  "hi_ok v (Some c) \<longleftrightarrow> v < b_val c \<or> (v = b_val c \<and> \<not> b_strict c)"
  by (auto simp: lo_ok_def hi_ok_def)

lemma point_in_conv: "point_in v iv \<longleftrightarrow> lo_ok v (iv_lo iv) \<and> hi_ok v (iv_hi iv)"
  by (simp add: point_in_def lo_ok_def hi_ok_def)

lemma lo_ok_tighten [simp]: "lo_ok v (tighten_lo b c) \<longleftrightarrow> lo_ok v b \<and> lo_ok v (Some c)"
  by (auto simp: tighten_lo_def lo_ok_def split: option.splits)
lemma hi_ok_tighten [simp]: "hi_ok v (tighten_hi b c) \<longleftrightarrow> hi_ok v b \<and> hi_ok v (Some c)"
  by (auto simp: tighten_hi_def hi_ok_def split: option.splits)

lemma lo_within_ok: "lo_within q m \<Longrightarrow> lo_ok v q \<Longrightarrow> lo_ok v m"
  by (auto simp: lo_within_def lo_ok_def split: option.splits if_splits)
lemma hi_within_ok: "hi_within q m \<Longrightarrow> hi_ok v q \<Longrightarrow> hi_ok v m"
  by (auto simp: hi_within_def hi_ok_def split: option.splits if_splits)

lemma as_point_ok: "as_point iv = Some p \<Longrightarrow> point_in v iv \<Longrightarrow> v = p"
  by (auto simp: as_point_def point_in_def split: option.splits if_splits)

section \<open>What the buckets hold\<close>

definition lit_entry :: "literal \<Rightarrow> string \<times> f64 option" where
  "lit_entry v = (literal_key v, as_number v)"

definition emplace_all :: "string \<Rightarrow> value_set \<Rightarrow> buckets \<Rightarrow> buckets" where
  "emplace_all f kvs b = foldl (\<lambda>b (k, num). emplace_set b f k num) b kvs"

lemma set_al_emplace_subset: "set (al_emplace k v m) \<subseteq> insert (k, v) (set m)"
  by (auto simp: al_emplace_def)

lemma dom_al_emplace: "dom (map_of (al_emplace k v m)) = insert k (dom (map_of m))"
  by (auto simp: al_emplace_def dom_map_of_conv_image_fst map_of_eq_None_iff)

lemma emplace_all_spec:
  "bk_intervals (emplace_all f kvs b) = bk_intervals b
   \<and> bk_residual (emplace_all f kvs b) = bk_residual b
   \<and> (kvs \<noteq> [] \<longrightarrow> (\<exists>s. map_of (bk_sets (emplace_all f kvs b)) = (map_of (bk_sets b))(f \<mapsto> s)
        \<and> dom (map_of s) = dom (map_of (the_set b f)) \<union> fst ` set kvs
        \<and> set s \<subseteq> set (the_set b f) \<union> set kvs))"
proof (induction kvs arbitrary: b)
  case (Cons kv kvs)
  obtain k num where kv: "kv = (k, num)" by (cases kv)
  let ?b = "emplace_set b f k num"
  have b: "bk_intervals ?b = bk_intervals b" "bk_residual ?b = bk_residual b"
    "map_of (bk_sets ?b) = (map_of (bk_sets b))(f \<mapsto> al_emplace k num (the_set b f))"
    "the_set ?b f = al_emplace k num (the_set b f)"
    by (simp_all add: emplace_set_def the_set_def)
  have e: "emplace_all f (kv # kvs) b = emplace_all f kvs ?b" by (simp add: emplace_all_def kv)
  show ?case
  proof (cases "kvs = []")
    case True
    then show ?thesis
      using b set_al_emplace_subset [of k num "the_set b f"]
      by (simp add: e kv emplace_all_def dom_al_emplace)
         (rule exI [of _ "al_emplace k num (the_set b f)"], simp add: dom_al_emplace del: map_of_al_emplace)
  next
    case False
    with Cons.IH [of ?b] obtain s where s: "map_of (bk_sets (emplace_all f kvs ?b)) = (map_of (bk_sets ?b))(f \<mapsto> s)"
        "dom (map_of s) = dom (map_of (the_set ?b f)) \<union> fst ` set kvs"
        "set s \<subseteq> set (the_set ?b f) \<union> set kvs" by blast
    have "set s \<subseteq> set (the_set b f) \<union> set (kv # kvs)"
      using s(3) b(4) set_al_emplace_subset [of k num "the_set b f"] by (auto simp: kv)
    moreover have "map_of (bk_sets (emplace_all f (kv # kvs) b)) = (map_of (bk_sets b))(f \<mapsto> s)"
      using s(1) b(3) by (simp add: e)
    moreover have "dom (map_of s) = dom (map_of (the_set b f)) \<union> fst ` set (kv # kvs)"
      using s(2) b(4) by (simp add: kv dom_al_emplace del: map_of_al_emplace)
    ultimately show ?thesis using Cons.IH [of ?b] b e by auto
  qed
qed (simp add: emplace_all_def)

lemma flatten_In: "flatten (InNode f vs) b = emplace_all f (map lit_entry vs) b"
  by (simp add: emplace_all_def foldl_map add_set_value_def lit_entry_def)

lemma flatten_or_set:
  "or_to_set (OrNode l r) [] [] = Some (f, vals) \<Longrightarrow> flatten (OrNode l r) b = emplace_all f vals b"
  by (simp add: emplace_all_def del: or_to_set.simps)

lemma add_set_value_all: "add_set_value f v b = emplace_all f [lit_entry v] b"
  by (simp add: emplace_all_def add_set_value_def lit_entry_def)

lemma foldl_emplace_spec:
  "dom (map_of (foldl (\<lambda>m v. al_emplace (literal_key v) (as_number v) m) vals vs))
     = dom (map_of vals) \<union> literal_key ` set vs
   \<and> set (foldl (\<lambda>m v. al_emplace (literal_key v) (as_number v) m) vals vs)
     \<subseteq> set vals \<union> lit_entry ` set vs"
proof (induction vs arbitrary: vals)
  case (Cons v vs)
  from Cons.IH [of "al_emplace (literal_key v) (as_number v) vals"] show ?case
    using set_al_emplace_subset [of "literal_key v" "as_number v" vals]
    by (auto simp: dom_al_emplace lit_entry_def)
qed simp

lemma or_to_set_spec:
  assumes "or_to_set q f0 v0 = Some (f, v)" "\<forall>g \<in> collect_fields q. g \<noteq> []"
  shows "f \<noteq> [] \<and> (f0 = [] \<or> f0 = f)
    \<and> dom (map_of v) = dom (map_of v0) \<union> literal_key ` literals_of q
    \<and> set v \<subseteq> set v0 \<union> lit_entry ` literals_of q
    \<and> (\<forall>ev. evaluate R q ev \<longleftrightarrow>
          (\<exists>a \<in> literals_of q. compare_value (resolve_field ev f) a = Some 0))"
  using assms
proof (induction q f0 v0 arbitrary: f v rule: or_to_set.induct)
  case (1 l r field vals)
  then obtain f1 v1 where l: "or_to_set l field vals = Some (f1, v1)" and r: "or_to_set r f1 v1 = Some (f, v)"
    by (auto split: option.splits)
  from "1.IH"(1) [OF l] "1.prems"(2) have L: "f1 \<noteq> [] \<and> (field = [] \<or> field = f1)
    \<and> dom (map_of v1) = dom (map_of vals) \<union> literal_key ` literals_of l
    \<and> set v1 \<subseteq> set vals \<union> lit_entry ` literals_of l
    \<and> (\<forall>ev. evaluate R l ev \<longleftrightarrow> (\<exists>a \<in> literals_of l. compare_value (resolve_field ev f1) a = Some 0))"
    by simp
  from "1.IH"(2) [OF l refl r] "1.prems"(2) have Rr: "f \<noteq> [] \<and> (f1 = [] \<or> f1 = f)
    \<and> dom (map_of v) = dom (map_of v1) \<union> literal_key ` literals_of r
    \<and> set v \<subseteq> set v1 \<union> lit_entry ` literals_of r
    \<and> (\<forall>ev. evaluate R r ev \<longleftrightarrow> (\<exists>a \<in> literals_of r. compare_value (resolve_field ev f) a = Some 0))"
    by simp
  from L Rr have "f1 = f" by auto
  with L Rr show ?case by (auto simp: image_Un)
next
  case (2 g op w field vals)
  then show ?case
    using set_al_emplace_subset [of "literal_key w" "as_number w" vals]
    by (auto simp: dom_al_emplace lit_entry_def eval_compare_conv split: if_splits option.splits
        elim: apply_compare.elims)
next
  case (3 g ws field vals)
  then show ?case
    using foldl_emplace_spec [of vals ws]
    by (auto simp: eval_in_conv split: if_splits)
qed simp_all

lemma or_to_set_Or:
  assumes "or_to_set (OrNode l r) [] [] = Some (f, v)" "\<forall>g \<in> collect_fields (OrNode l r). g \<noteq> []"
  shows "dom (map_of v) = literal_key ` literals_of (OrNode l r)"
    "set v \<subseteq> lit_entry ` literals_of (OrNode l r)"
    "evaluate R (OrNode l r) ev \<longleftrightarrow>
       (\<exists>a \<in> literals_of (OrNode l r). compare_value (resolve_field ev f) a = Some 0)"
  using or_to_set_spec [OF assms, of R] by simp_all

section \<open>Which events satisfy the buckets\<close>

definition sat_iv :: "json_value \<Rightarrow> interval \<Rightarrow> bool" where
  "sat_iv fv iv \<longleftrightarrow> (\<exists>v. num_val fv = Some v \<and> point_in v iv)"

definition sat_set :: "literal set \<Rightarrow> json_value \<Rightarrow> value_set \<Rightarrow> bool" where
  "sat_set L fv vals \<longleftrightarrow>
     (\<exists>a \<in> L. compare_value fv a = Some 0 \<and> literal_key a \<in> dom (map_of vals))"

definition bk_sat :: "regex_lib \<Rightarrow> literal set \<Rightarrow> json_value \<Rightarrow> buckets \<Rightarrow> bool" where
  "bk_sat R L ev b \<longleftrightarrow>
     (\<forall>f iv. map_of (bk_intervals b) f = Some iv \<longrightarrow> sat_iv (resolve_field ev f) iv)
     \<and> (\<forall>f vals. map_of (bk_sets b) f = Some vals \<longrightarrow> sat_set L (resolve_field ev f) vals)
     \<and> (\<forall>r \<in> set (bk_residual b). \<exists>q. renderable R q \<and> node_to_string q = r \<and> evaluate R q ev)"

definition bk_inv :: "literal set \<Rightarrow> buckets \<Rightarrow> bool" where
  "bk_inv L b \<longleftrightarrow> (\<forall>f vals. map_of (bk_sets b) f = Some vals \<longrightarrow> set vals \<subseteq> lit_entry ` L)"

lemma bk_inv_emplace:
  assumes "bk_inv L b" "set kvs \<subseteq> lit_entry ` L" shows "bk_inv L (emplace_all f kvs b)"
proof (cases "kvs = []")
  case False
  then obtain s where s: "map_of (bk_sets (emplace_all f kvs b)) = (map_of (bk_sets b))(f \<mapsto> s)"
      "set s \<subseteq> set (the_set b f) \<union> set kvs" using emplace_all_spec [of f kvs b] by blast
  have "set (the_set b f) \<subseteq> lit_entry ` L"
    using assms(1) by (cases "map_of (bk_sets b) f") (simp_all add: the_set_def bk_inv_def)
  with s assms show ?thesis by (auto simp: bk_inv_def)
qed (use assms in \<open>simp add: emplace_all_def\<close>)

lemma bk_sat_emplace:
  assumes "bk_sat R L ev b" "a \<in> L" "compare_value (resolve_field ev f) a = Some 0"
    "literal_key a \<in> fst ` set kvs"
  shows "bk_sat R L ev (emplace_all f kvs b)"
proof -
  have "kvs \<noteq> []" using assms(4) by auto
  then obtain s where s: "map_of (bk_sets (emplace_all f kvs b)) = (map_of (bk_sets b))(f \<mapsto> s)"
      "dom (map_of s) = dom (map_of (the_set b f)) \<union> fst ` set kvs"
    using emplace_all_spec [of f kvs b] by blast
  have "sat_set L (resolve_field ev f) s"
    using assms s(2) unfolding sat_set_def by blast
  with assms(1) s emplace_all_spec [of f kvs b] show ?thesis by (auto simp: bk_sat_def)
qed

lemma bk_sat_put:
  assumes "bk_sat R L ev b" "sat_iv (resolve_field ev f) iv" shows "bk_sat R L ev (put_interval b f iv)"
  using assms by (auto simp: bk_sat_def put_interval_def)

lemma bk_sat_residual:
  "bk_sat R L ev b \<Longrightarrow> renderable R q \<Longrightarrow> evaluate R q ev \<Longrightarrow> bk_sat R L ev (add_residual q b)"
  by (auto simp: bk_sat_def add_residual_def)

lemma bk_inv_simps [simp]:
  "bk_inv L (put_interval b f iv) = bk_inv L b" "bk_inv L (add_residual q b) = bk_inv L b"
  by (simp_all add: bk_inv_def put_interval_def add_residual_def)

lemma the_interval_sat: "bk_sat R L ev b \<Longrightarrow> num_val (resolve_field ev f) = Some v \<Longrightarrow>
    point_in v (the_interval b f)"
  by (cases "map_of (bk_intervals b) f")
     (fastforce simp: bk_sat_def the_interval_def sat_iv_def empty_interval_def point_in_conv
        lo_ok_def hi_ok_def)+

section \<open>Soundness\<close>

text \<open>The fragment: integer literals are below \<open>2 ^ 53\<close>, and literals with one key are one value.\<close>

definition lits_ok :: "literal set \<Rightarrow> bool" where
  "lits_ok L \<longleftrightarrow> (\<forall>a \<in> L. lit_exact a)
     \<and> (\<forall>a \<in> L. \<forall>b \<in> L. literal_key a = literal_key b \<longrightarrow> lit_equiv a b)"

text \<open>No field of the view's conjunction carries two value sets, and no value set is empty.\<close>

fun set_fields :: "query_node \<Rightarrow> string list" where
  "set_fields (AndNode a b) = set_fields a @ set_fields b"
| "set_fields (CompareNode f op v) = (if op = EQ \<and> as_number v = None then [f] else [])"
| "set_fields (InNode f vs) = [f]"
| "set_fields (OrNode a b) =
     (case or_to_set (OrNode a b) [] [] of None \<Rightarrow> [] | Some (f, vals) \<Rightarrow> [f])"
| "set_fields _ = []"

fun sets_nonempty :: "query_node \<Rightarrow> bool" where
  "sets_nonempty (AndNode a b) = (sets_nonempty a \<and> sets_nonempty b)"
| "sets_nonempty (InNode f vs) = (vs \<noteq> [])"
| "sets_nonempty (OrNode a b) =
     (case or_to_set (OrNode a b) [] [] of None \<Rightarrow> True | Some (f, vals) \<Rightarrow> vals \<noteq> [])"
| "sets_nonempty _ = True"

definition conj_ok :: "query_node \<Rightarrow> bool" where
  "conj_ok m \<longleftrightarrow> distinct (set_fields m) \<and> sets_nonempty m"

fun mv_ok :: "query_node \<Rightarrow> bool" where
  "mv_ok (OrNode a b) = (conj_ok (OrNode a b) \<and> mv_ok a \<and> mv_ok b)"
| "mv_ok m = conj_ok m"

lemma renderable_fields: "renderable R q \<Longrightarrow> g \<in> collect_fields q \<Longrightarrow> g \<noteq> []"
  by (induction q) (auto simp: field_renderable_def)

lemma fst_lit_entry [simp]: "fst (lit_entry v) = literal_key v"
  by (simp add: lit_entry_def)

lemma flatten_query:
  assumes "evaluate R q ev" "value_ok ev" "literals_of q \<subseteq> L" "\<forall>a \<in> L. lit_exact a"
    "renderable R q" "bk_sat R L ev b" "bk_inv L b"
  shows "bk_sat R L ev (flatten q b) \<and> bk_inv L (flatten q b)"
  using assms
proof (induction q b rule: flatten.induct)
  case (2 f op v b)
  then have ev: "apply_compare op (compare_value (resolve_field ev f) v)" and vL: "v \<in> L"
    by (simp_all add: eval_compare_conv)
  show ?case
  proof (cases "as_number v")
    case None
    show ?thesis
    proof (cases "op = EQ")
      case True
      with ev have "compare_value (resolve_field ev f) v = Some 0"
        by (cases "compare_value (resolve_field ev f) v") auto
      then show ?thesis
        using True None 2 vL bk_sat_emplace [of R L ev b v f "[lit_entry v]"] bk_inv_emplace [of L b "[lit_entry v]"]
        by (simp add: flatten_compare_def add_set_value_all)
    qed (use None 2 in \<open>simp add: flatten_compare_def bk_sat_residual\<close>)
  next
    case (Some x)
    have ok: "value_ok (resolve_field ev f)" using 2 by (simp add: resolve_field_ok)
    have cmp: "compare_value (resolve_field ev f) v = map_option (\<lambda>w. three_way w x) (num_val (resolve_field ev f))"
      using compare_value_number [OF ok Some] 2 vL by simp
    with ev obtain w where w: "num_val (resolve_field ev f) = Some w" "apply_compare op (Some (three_way w x))"
      by (cases "num_val (resolve_field ev f)") auto
    have pt: "point_in w (the_interval b f)" using the_interval_sat 2 w by blast
    show ?thesis
    proof (cases "op = NE")
      case True
      then show ?thesis using Some 2 by (simp add: flatten_compare_def bk_sat_residual)
    next
      case False
      have sat: "sat_iv (resolve_field ev f) iv" if "point_in w iv" for iv
        using that w(1) by (auto simp: sat_iv_def)
      show ?thesis
        using w(2) False pt Some 2(6,7)
        by (cases op)
           (auto simp: flatten_compare_def Let_def point_in_conv three_way_def split: if_splits intro!: bk_sat_put sat)
    qed
  qed
next
  case (3 f vs b)
  then obtain a where a: "a \<in> set vs" "compare_value (resolve_field ev f) a = Some 0"
    by (auto simp: eval_in_conv)
  have "set (map lit_entry vs) \<subseteq> lit_entry ` L" using 3 by auto
  moreover have "literal_key a \<in> fst ` set (map lit_entry vs)" using a by force
  ultimately show ?case
    using a 3 bk_sat_emplace [of R L ev b a f "map lit_entry vs"] bk_inv_emplace
    by (auto simp: flatten_In simp del: flatten.simps)
next
  case (4 l r b)
  note prems = "4.prems"
  show ?case
  proof (cases "or_to_set (OrNode l r) [] []")
    case None
    with prems show ?thesis by (simp add: bk_sat_residual del: or_to_set.simps)
  next
    case (Some p)
    obtain f vals where p: "or_to_set (OrNode l r) [] [] = Some (f, vals)" using Some by (cases p) simp
    note s = or_to_set_Or [OF p] and ne = renderable_fields [OF prems(5)]
    from s(3) [of R ev] ne prems(1) obtain a where a: "a \<in> literals_of (OrNode l r)"
        "compare_value (resolve_field ev f) a = Some 0" by blast
    have "literal_key a \<in> fst ` set vals"
      using a(1) s(1) ne by (auto simp: dom_map_of_conv_image_fst)
    moreover have "set vals \<subseteq> lit_entry ` L" using s(2) ne prems(3) by blast
    ultimately show ?thesis
      using a prems bk_sat_emplace [of R L ev b a f vals] bk_inv_emplace [of L b vals f]
        flatten_or_set [OF p, of b] by auto
  qed
qed (simp_all add: bk_sat_residual)


lemma flatten_set_fields:
  "renderable R q \<Longrightarrow> dom (map_of (bk_sets (flatten q b))) \<subseteq> dom (map_of (bk_sets b)) \<union> set (set_fields q)"
proof (induction q b rule: flatten.induct)
  case (2 f op v b)
  then show ?case
    using emplace_all_spec [of f "[lit_entry v]" b]
    by (auto simp: flatten_compare_def Let_def put_interval_def add_residual_def add_set_value_all
        split: option.splits if_splits)
next
  case (3 f vs b)
  show ?case
  proof (cases "vs = []")
    case False
    then show ?thesis
      using emplace_all_spec [of f "map lit_entry vs" b] by (auto simp: flatten_In simp del: flatten.simps)
  qed auto
next
  case (4 l r b)
  show ?case
  proof (cases "or_to_set (OrNode l r) [] []")
    case None
    then show ?thesis by (simp add: add_residual_def del: or_to_set.simps)
  next
    case (Some p)
    obtain f vals where p: "or_to_set (OrNode l r) [] [] = Some (f, vals)" using Some by (cases p) simp
    show ?thesis
    proof (cases "vals = []")
      case True
      then show ?thesis using flatten_or_set [OF p, of b] by (auto simp: emplace_all_def)
    next
      case False
      then show ?thesis
        using emplace_all_spec [of f vals b] flatten_or_set [OF p, of b] p
        by (auto simp del: or_to_set.simps flatten.simps)
    qed
  qed
qed (fastforce simp: add_residual_def)+

lemma bk_sat_emplaceD:
  assumes "bk_sat R L ev (emplace_all f kvs b)" "f \<notin> dom (map_of (bk_sets b))" "kvs \<noteq> []"
  shows "bk_sat R L ev b
    \<and> (\<exists>a \<in> L. compare_value (resolve_field ev f) a = Some 0 \<and> literal_key a \<in> fst ` set kvs)"
proof -
  obtain s where s: "map_of (bk_sets (emplace_all f kvs b)) = (map_of (bk_sets b))(f \<mapsto> s)"
      "dom (map_of s) = dom (map_of (the_set b f)) \<union> fst ` set kvs"
    using emplace_all_spec [of f kvs b] assms(3) by blast
  have none: "map_of (bk_sets b) f = None" using assms(2) by auto
  then have "the_set b f = []" by (simp add: the_set_def)
  with s(2) have d: "dom (map_of s) = fst ` set kvs" by simp
  have "sat_set L (resolve_field ev f) s" using assms(1) s(1) by (auto simp: bk_sat_def)
  moreover have "bk_sat R L ev b"
    unfolding bk_sat_def
  proof (intro conjI allI impI)
    fix g vals assume g: "map_of (bk_sets b) g = Some vals"
    with none have "g \<noteq> f" by auto
    with g have "map_of (bk_sets (emplace_all f kvs b)) g = Some vals" by (simp add: s)
    with assms(1) show "sat_set L (resolve_field ev g) vals" by (auto simp: bk_sat_def)
  qed (use assms(1) emplace_all_spec [of f kvs b] in \<open>auto simp: bk_sat_def\<close>)
  ultimately show ?thesis using d by (auto simp: sat_set_def)
qed

lemma bk_sat_putD:
  assumes "bk_sat R L ev (put_interval b f iv)" "\<And>v. point_in v iv \<Longrightarrow> point_in v (the_interval b f)"
  shows "bk_sat R L ev b \<and> (\<exists>v. num_val (resolve_field ev f) = Some v \<and> point_in v iv)"
proof -
  have s: "sat_iv (resolve_field ev g) (if g = f then iv else iv')"
    if "map_of (bk_intervals b) g = Some iv' \<or> g = f" for g iv'
    using assms(1) that by (auto simp: bk_sat_def put_interval_def)
  have "sat_iv (resolve_field ev g) iv'" if g: "map_of (bk_intervals b) g = Some iv'" for g iv'
  proof (cases "g = f")
    case True
    with g have "the_interval b f = iv'" by (simp add: the_interval_def)
    with s [of f] assms(2) True show ?thesis by (auto simp: sat_iv_def)
  qed (use s [of g iv'] g in simp)
  then have "bk_sat R L ev b" using assms(1) by (auto simp: bk_sat_def put_interval_def)
  with s [of f] show ?thesis by (simp add: sat_iv_def)
qed

lemma residualD:
  assumes "bk_sat R L ev (add_residual q b)" "renderable R q"
  shows "evaluate R q ev \<and> bk_sat R L ev b"
proof -
  obtain q' where "renderable R q'" "node_to_string q' = node_to_string q" "evaluate R q' ev"
    using assms(1) by (auto simp: bk_sat_def add_residual_def)
  with assms(2) have "q' = q" using node_to_string_inj by blast
  with \<open>evaluate R q' ev\<close> assms(1) show ?thesis by (auto simp: bk_sat_def add_residual_def)
qed

lemma same_key_equal:
  assumes "lits_ok L" "a \<in> L" "b \<in> L" "literal_key a = literal_key b" "value_ok fv"
    "compare_value fv a = Some 0"
  shows "compare_value fv b = Some 0"
proof -
  from assms(1-4) have "lit_exact a" "lit_exact b" "lit_equiv a b" unfolding lits_ok_def by blast+
  with compare_value_equiv [OF assms(5), of a b] assms(6) show ?thesis by simp
qed

lemma flatten_compare_view:
  assumes "bk_sat R L ev (flatten_compare (CompareNode f op v) f op v b)" "value_ok ev"
    "v \<in> L" "lits_ok L" "renderable R (CompareNode f op v)"
    "op = EQ \<and> as_number v = None \<Longrightarrow> f \<notin> dom (map_of (bk_sets b))"
  shows "eval_compare ev f op v \<and> bk_sat R L ev b"
proof (cases "as_number v")
  case None
  have ok: "value_ok (resolve_field ev f)" using assms(2) by (rule resolve_field_ok)
  show ?thesis
  proof (cases "op = EQ")
    case True
    with None assms(1) have "bk_sat R L ev (emplace_all f [lit_entry v] b)"
      by (simp add: flatten_compare_def add_set_value_all)
    from bk_sat_emplaceD [OF this] assms(6) True None
    obtain a where "a \<in> L" "compare_value (resolve_field ev f) a = Some 0"
        "literal_key a = literal_key v" and b: "bk_sat R L ev b" by auto
    with same_key_equal [OF assms(4) _ assms(3) _ ok] b True show ?thesis
      by (simp add: eval_compare_conv)
  next
    case False
    with None assms(1) have "bk_sat R L ev (add_residual (CompareNode f op v) b)"
      by (simp add: flatten_compare_def)
    from residualD [OF this assms(5)] show ?thesis by simp
  qed
next
  case (Some x)
  have ok: "value_ok (resolve_field ev f)" using assms(2) by (rule resolve_field_ok)
  have cmp: "compare_value (resolve_field ev f) v
      = map_option (\<lambda>w. three_way w x) (num_val (resolve_field ev f))"
    using compare_value_number [OF ok Some] assms(3,4) by (simp add: lits_ok_def)
  show ?thesis
  proof (cases "op = NE")
    case True
    with Some assms(1) have "bk_sat R L ev (add_residual (CompareNode f op v) b)"
      by (simp add: flatten_compare_def)
    from residualD [OF this assms(5)] show ?thesis by simp
  next
    case False
    then obtain iv where iv: "flatten_compare (CompareNode f op v) f op v b = put_interval b f iv"
        and pt: "\<And>w. point_in w iv \<longleftrightarrow> point_in w (the_interval b f) \<and> apply_compare op (Some (three_way w x))"
      using Some
      by (cases op)
         (auto simp: flatten_compare_def Let_def point_in_conv three_way_def that split: if_splits)
    from bk_sat_putD [of R L ev b f iv] assms(1) iv pt show ?thesis
      by (auto simp: eval_compare_conv cmp)
  qed
qed

lemma residual_view:
  "bk_sat R L ev (flatten m b) \<Longrightarrow> flatten m b = add_residual m b \<Longrightarrow> renderable R m \<Longrightarrow>
   evaluate R m ev \<and> bk_sat R L ev b"
  using residualD [of R L ev m b] by simp

lemma flatten_view:
  assumes "bk_sat R L ev (flatten m b)" "value_ok ev" "literals_of m \<subseteq> L" "lits_ok L"
    "renderable R m" "sets_nonempty m" "distinct (set_fields m)"
    "set (set_fields m) \<inter> dom (map_of (bk_sets b)) = {}"
  shows "evaluate R m ev \<and> bk_sat R L ev b"
  using assms
proof (induction m b rule: flatten.induct)
  case (1 l r b)
  have "dom (map_of (bk_sets (flatten l b))) \<subseteq> dom (map_of (bk_sets b)) \<union> set (set_fields l)"
    using "1.prems" by (intro flatten_set_fields [of R]) simp
  then have "set (set_fields r) \<inter> dom (map_of (bk_sets (flatten l b))) = {}"
    using "1.prems"(7,8) by auto
  with "1.IH"(2) "1.prems" have "evaluate R r ev \<and> bk_sat R L ev (flatten l b)" by simp
  with "1.IH"(1) "1.prems" show ?case by auto
next
  case (2 f op v b)
  then show ?case using flatten_compare_view [of R L ev f op v b] by auto
next
  case (3 f vs b)
  have ok: "value_ok (resolve_field ev f)" using "3.prems"(2) by (rule resolve_field_ok)
  have "f \<notin> dom (map_of (bk_sets b))" "map lit_entry vs \<noteq> []" using "3.prems" by auto
  from bk_sat_emplaceD [OF _ this, of R L ev] "3.prems"(1)
  obtain a w where a: "a \<in> L" "compare_value (resolve_field ev f) a = Some 0"
      and w: "w \<in> set vs" "literal_key a = literal_key w" and b: "bk_sat R L ev b"
    by (auto simp: flatten_In image_image simp del: flatten.simps)
  have "compare_value (resolve_field ev f) w = Some 0"
    using same_key_equal [OF "3.prems"(4) a(1) _ w(2) ok a(2)] "3.prems"(3) w(1) by auto
  with w(1) b show ?case by (auto simp: eval_in_conv)
next
  case (4 l r b)
  note prems = "4.prems"
  show ?case
  proof (cases "or_to_set (OrNode l r) [] []")
    case None
    then have "bk_sat R L ev (add_residual (OrNode l r) b)" using prems(1) by simp
    from residualD [OF this prems(5)] show ?thesis by simp
  next
    case (Some p)
    obtain f vals where p: "or_to_set (OrNode l r) [] [] = Some (f, vals)" using Some by (cases p) simp
    have ne: "vals \<noteq> []" "f \<notin> dom (map_of (bk_sets b))"
      using prems(6,8) p by (auto simp del: or_to_set.simps)
    note s = or_to_set_Or [OF p] and rf = renderable_fields [OF prems(5)]
    from bk_sat_emplaceD [of R L ev f vals b] ne prems(1) flatten_or_set [OF p, of b]
    obtain a where a: "a \<in> L" "compare_value (resolve_field ev f) a = Some 0"
        and k: "literal_key a \<in> fst ` set vals" and b: "bk_sat R L ev b" by auto
    from k s(1) rf obtain w where w: "w \<in> literals_of (OrNode l r)" "literal_key a = literal_key w"
      by (auto simp: dom_map_of_conv_image_fst)
    have "value_ok (resolve_field ev f)" using prems(2) by (rule resolve_field_ok)
    from same_key_equal [OF prems(4) a(1) _ w(2) this a(2)] prems(3) w(1)
    have "compare_value (resolve_field ev f) w = Some 0" by auto
    with s(3) [of R ev] rf w(1) b show ?thesis by blast
  qed
qed (rule residual_view, assumption, simp, assumption)+

lemma flatten_inv:
  "bk_inv L b \<Longrightarrow> literals_of m \<subseteq> L \<Longrightarrow> renderable R m \<Longrightarrow> bk_inv L (flatten m b)"
proof (induction m b rule: flatten.induct)
  case (2 f op v b)
  then show ?case
    using bk_inv_emplace [of L b "[lit_entry v]" f]
    by (auto simp: flatten_compare_def Let_def add_set_value_all split: option.splits)
next
  case (3 f vs b)
  then show ?case
    using bk_inv_emplace [of L b "map lit_entry vs" f] by (auto simp: flatten_In simp del: flatten.simps)
next
  case (4 l r b)
  show ?case
  proof (cases "or_to_set (OrNode l r) [] []")
    case None
    with 4 show ?thesis by (simp del: or_to_set.simps)
  next
    case (Some p)
    obtain f vals where p: "or_to_set (OrNode l r) [] [] = Some (f, vals)" using Some by (cases p) simp
    then have "set vals \<subseteq> lit_entry ` L"
      using or_to_set_Or(2) [OF p] renderable_fields [OF "4.prems"(3)] "4.prems"(2) by blast
    with bk_inv_emplace [OF "4.prems"(1)] flatten_or_set [OF p] show ?thesis by simp
  qed
qed simp_all

lemma interval_covered_sat:
  assumes "interval_covered Q f iv" "bk_sat R L ev Q" "bk_inv L Q" "lits_ok L" "value_ok ev"
  shows "sat_iv (resolve_field ev f) iv"
proof -
  have ok: "value_ok (resolve_field ev f)" using assms(5) by (rule resolve_field_ok)
  from assms(1) consider
      q where "map_of (bk_intervals Q) f = Some q" "lo_within (iv_lo q) (iv_lo iv)" "hi_within (iv_hi q) (iv_hi iv)"
    | vs where "map_of (bk_sets Q) f = Some vs" "set_within_interval vs iv"
    unfolding interval_covered_def by (auto split: option.splits)
  then show ?thesis
  proof cases
    case 1
    then have "sat_iv (resolve_field ev f) q" using assms(2) by (simp add: bk_sat_def)
    with 1 show ?thesis by (auto simp: sat_iv_def point_in_conv intro: lo_within_ok hi_within_ok)
  next
    case 2
    then obtain a where a: "a \<in> L" "compare_value (resolve_field ev f) a = Some 0"
        "literal_key a \<in> dom (map_of vs)" 
      using assms(2) unfolding bk_sat_def sat_set_def by blast
    then obtain num where n: "(literal_key a, num) \<in> set vs" by (auto dest: map_of_SomeD)
    then obtain x where x: "num = Some x" "point_in x iv"
      using 2(2) by (fastforce simp: set_within_interval_def list_all_iff split: option.splits)
    have "set vs \<subseteq> lit_entry ` L" using assms(3) 2(1) by (simp add: bk_inv_def)
    with n obtain w where w: "w \<in> L" "literal_key w = literal_key a" "as_number w = Some x"
      using x(1) by (auto simp: lit_entry_def)
    have "compare_value (resolve_field ev f) w = Some 0"
      using same_key_equal [OF assms(4) a(1) w(1) _ ok a(2)] w(2) by simp
    with compare_value_number [OF ok w(3)] w(1) assms(4) have "num_val (resolve_field ev f) = Some x"
      by (cases "num_val (resolve_field ev f)") (auto simp: lits_ok_def)
    with x(2) show ?thesis by (simp add: sat_iv_def)
  qed
qed

lemma set_covered_sat:
  assumes "set_covered Q f m_set" "bk_sat R L ev Q" "set m_set \<subseteq> lit_entry ` L" "lits_ok L" "value_ok ev"
  shows "sat_set L (resolve_field ev f) m_set"
proof -
  have ok: "value_ok (resolve_field ev f)" using assms(5) by (rule resolve_field_ok)
  from assms(1) consider
      vs where "map_of (bk_sets Q) f = Some vs" "\<forall>(k, n) \<in> set vs. map_of m_set k \<noteq> None"
    | q p where "map_of (bk_intervals Q) f = Some q" "as_point q = Some p" "(\<exists>k. (k, Some p) \<in> set m_set)"
    unfolding set_covered_def by (auto simp: list_all_iff list_ex_iff split: option.splits)
  then show ?thesis
  proof cases
    case 1
    then obtain a where a: "a \<in> L" "compare_value (resolve_field ev f) a = Some 0"
        "literal_key a \<in> dom (map_of vs)" 
      using assms(2) unfolding bk_sat_def sat_set_def by blast
    then have "literal_key a \<in> dom (map_of m_set)" using 1(2) by (auto dest: map_of_SomeD)
    with a show ?thesis unfolding sat_set_def by blast
  next
    case 2
    then have "sat_iv (resolve_field ev f) q" using assms(2) by (simp add: bk_sat_def)
    with 2(2) have nv: "num_val (resolve_field ev f) = Some p" by (auto simp: sat_iv_def dest: as_point_ok)
    from 2(3) assms(3) obtain w where w: "w \<in> L" "as_number w = Some p" "lit_entry w \<in> set m_set"
      by (auto simp: lit_entry_def)
    then have "compare_value (resolve_field ev f) w = Some 0"
      using compare_value_number [OF ok w(2)] assms(4) nv by (simp add: lits_ok_def)
    moreover have "literal_key w \<in> dom (map_of m_set)"
      using w(3) fst_lit_entry [of w] unfolding dom_map_of_conv_image_fst by (metis image_eqI)
    ultimately show ?thesis using w(1) unfolding sat_set_def by blast
  qed
qed

lemma conj_subsumes_sound:
  assumes "conj_subsumes mv q" "evaluate R q ev" "value_ok ev"
    "lits_ok (literals_of mv \<union> literals_of q)" "renderable R mv" "renderable R q" "conj_ok mv"
  shows "evaluate R mv ev"
proof -
  let ?L = "literals_of mv \<union> literals_of q"
  let ?M = "flatten mv empty_buckets" and ?Q = "flatten q empty_buckets"
  have base: "bk_sat R ?L ev empty_buckets" "bk_inv ?L empty_buckets"
    by (simp_all add: bk_sat_def bk_inv_def empty_buckets_def)
  have ex: "\<forall>a \<in> ?L. lit_exact a" using assms(4) unfolding lits_ok_def by blast
  have Q: "bk_sat R ?L ev ?Q"
    using flatten_query [OF assms(2,3) _ ex assms(6) base] by simp
  have Qi: "bk_inv ?L ?Q" using flatten_query [OF assms(2,3) _ ex assms(6) base] by simp
  have Mi: "bk_inv ?L ?M" using base(2) assms(5) by (intro flatten_inv) auto
  have cov: "\<forall>(f, iv) \<in> set (bk_intervals ?M). interval_covered ?Q f iv"
      "\<forall>(f, vals) \<in> set (bk_sets ?M). set_covered ?Q f vals"
      "\<forall>r \<in> set (bk_residual ?M). r \<in> set (bk_residual ?Q)"
    using assms(1) by (simp_all add: conj_subsumes_def Let_def list_all_iff)
  have "bk_sat R ?L ev ?M"
    unfolding bk_sat_def
  proof (intro conjI allI impI ballI)
    fix f iv assume "map_of (bk_intervals ?M) f = Some iv"
    then have "interval_covered ?Q f iv" using cov(1) by (auto dest: map_of_SomeD)
    then show "sat_iv (resolve_field ev f) iv"
      using Q Qi assms(3,4) by (intro interval_covered_sat)
  next
    fix f vals assume m: "map_of (bk_sets ?M) f = Some vals"
    then have "set_covered ?Q f vals" using cov(2) by (auto dest: map_of_SomeD)
    moreover have "set vals \<subseteq> lit_entry ` ?L" using Mi m by (simp add: bk_inv_def)
    ultimately show "sat_set ?L (resolve_field ev f) vals"
      using Q assms(3,4) by (intro set_covered_sat)
  next
    fix r assume "r \<in> set (bk_residual ?M)"
    with cov(3) Q show "\<exists>q. renderable R q \<and> node_to_string q = r \<and> evaluate R q ev"
      by (simp add: bk_sat_def)
  qed
  moreover have "set (set_fields mv) \<inter> dom (map_of (bk_sets empty_buckets)) = {}"
    by (simp add: empty_buckets_def)
  ultimately show ?thesis
    using flatten_view [of R ?L ev mv empty_buckets] assms by (simp add: conj_ok_def)
qed

lemma lits_ok_mono: "lits_ok L \<Longrightarrow> L' \<subseteq> L \<Longrightarrow> lits_ok L'"
  unfolding lits_ok_def by blast

lemma mv_ok_conj: "mv_ok m \<Longrightarrow> conj_ok m"
  by (cases m) auto

lemma subsumes_sound_aux:
  assumes "query_subsumes mv q" "evaluate R q ev" "value_ok ev"
    "lits_ok (literals_of mv \<union> literals_of q)" "renderable R mv" "renderable R q" "mv_ok mv"
  shows "evaluate R mv ev"
  using assms
proof (induction "size mv + size q" arbitrary: mv q rule: less_induct)
  case less
  note prems = less.prems
  show ?case
  proof (cases "\<exists>l r. q = OrNode l r")
    case True
    then obtain l r where q: "q = OrNode l r" by blast
    have "lits_ok (literals_of mv \<union> literals_of l)" "lits_ok (literals_of mv \<union> literals_of r)"
      using prems(4) by (auto simp: q elim!: lits_ok_mono)
    then show ?thesis
      using prems less.hyps [of mv l] less.hyps [of mv r]
      by (auto simp: q query_subsumes.simps [of mv "OrNode l r"])
  next
    case False
    then have s: "query_subsumes mv q \<longleftrightarrow> conj_subsumes mv q \<or>
        (case mv of OrNode l r \<Rightarrow> query_subsumes l q \<or> query_subsumes r q | _ \<Rightarrow> False)"
      by (subst query_subsumes.simps) (auto split: query_node.splits)
    show ?thesis
    proof (cases "conj_subsumes mv q")
      case True
      then show ?thesis using prems conj_subsumes_sound mv_ok_conj by blast
    next
      case nc: False
      with s prems(1) obtain l r where mv: "mv = OrNode l r"
          and or: "query_subsumes l q \<or> query_subsumes r q"
        by (auto split: query_node.splits)
      have "lits_ok (literals_of l \<union> literals_of q)" "lits_ok (literals_of r \<union> literals_of q)"
        using prems(4) by (auto simp: mv elim!: lits_ok_mono)
      with or prems less.hyps [of l q] less.hyps [of r q] show ?thesis by (auto simp: mv)
    qed
  qed
qed

text \<open>Integer, string and boolean literals never collide.\<close>

fun lit_plain :: "literal \<Rightarrow> bool" where
  "lit_plain (LF64 r) = False"
| "lit_plain v = lit_exact v"

lemma fmt_f_of_int:
  "fmt_f (of_int i) = (if i < 0 then ''-'' else []) @ show_nat (nat \<bar>i\<bar>) @ ''.000000''"
proof -
  have "f64_num (of_int i) = nat \<bar>i\<bar>" "f64_den (of_int i) = 1"
    by (simp_all add: f64_num_def f64_den_def)
  moreover have "pad0 6 0 = ''000000''" by code_simp
  moreover have "rhe_div (n * 10 ^ 6) 1 = n * 10 ^ 6" for n by (simp add: rhe_div_def)
  ultimately show ?thesis by (simp add: fmt_f_def Let_def)
qed

lemma fmt_f_of_int_inj: "fmt_f (of_int i) = fmt_f (of_int j) \<longleftrightarrow> i = j"
proof -
  have "show_nat n \<noteq> CHR ''-'' # xs" for n xs
    using hd_show_nat_digit [of n] by (auto simp: is_digit_def code_of_def)
  then show ?thesis by (auto simp: fmt_f_of_int show_nat_inj) (metis append_Cons)+
qed

lemma lits_ok_plain: "\<forall>a \<in> L. lit_plain a \<Longrightarrow> lits_ok L"
proof -
  assume L: "\<forall>a \<in> L. lit_plain a"
  have num: "\<exists>i. as_number a = Some (of_int i) \<and> literal_key a = ''n:'' @ fmt_f (of_int i)"
    if "lit_plain a" "as_number a \<noteq> None" for a
  proof (cases a)
    case (LI64 i)
    with that show ?thesis by (intro exI [of _ i]) (simp add: f64_of_int_exact)
  next
    case (LU64 n)
    with that have "f64_of_int (int n) = of_int (int n)" by (intro f64_of_int_exact) simp
    with LU64 show ?thesis by (intro exI [of _ "int n"]) (simp only: as_number.simps literal_key.simps)
  qed (use that in auto)
  have other: "literal_key a = literal_key b \<longleftrightarrow> a = b" "literal_key a \<noteq> ''n:'' @ s"
    if "as_number a = None" "as_number b = None" for a b s
    using that by (cases a; cases b; auto)+
  have "lit_equiv a b" if ab: "lit_plain a" "lit_plain b" and k: "literal_key a = literal_key b" for a b
  proof (cases "as_number a = None \<or> as_number b = None")
    case True
    with num [of a] num [of b] ab k have "as_number a = None" "as_number b = None"
      using other(2) [of a a] other(2) [of b b] by metis+
    with other(1) k show ?thesis by (auto simp: lit_equiv_def)
  next
    case False
    with num [of a] num [of b] ab k show ?thesis
      by (auto simp: lit_equiv_def fmt_f_of_int_inj)
  qed
  moreover have "lit_exact a" if "lit_plain a" for a using that by (cases a) auto
  ultimately show ?thesis using L by (auto simp: lits_ok_def)
qed


section \<open>Properties\<close>

text \<open>
  C3 Whenever the subsumption test accepts a query against a view, every event that the query
  matches is matched by the view: for renderable queries whose integer literals are below
  \<open>2 ^ 53\<close> and whose literal keys do not collide, if no conjunction of the view has two value sets
  on one field or an empty one.
\<close>
theorem query_subsumes_sound:
  assumes "query_subsumes mv q" "evaluate R q ev" "value_ok ev"
    "lits_ok (literals_of mv \<union> literals_of q)" "renderable R mv" "renderable R q" "mv_ok mv"
  shows "evaluate R mv ev"
  using assms by (rule subsumes_sound_aux)

definition ex_lib :: regex_lib where
  "ex_lib = \<lparr>rx_error = (\<lambda>_ _. None), rx_search = (\<lambda>_ _ _. False)\<rparr>"

definition ex_event :: json where
  "ex_event = JObject [(''cat'', JString ''A''), (''dur'', JNum (num_of_int 25))]"

definition ex_mv :: query_node where
  "ex_mv = AndNode (CompareNode ''dur'' GE (LU64 10)) (InNode ''cat'' [LStr ''A'', LStr ''B''])"
definition ex_query :: query_node where
  "ex_query = AndNode (CompareNode ''cat'' EQ (LStr ''A'')) (CompareNode ''dur'' GT (LU64 20))"

lemma ex_facts:
  "query_subsumes ex_mv ex_query" "evaluate ex_lib ex_query (Some ex_event)" "value_ok (Some ex_event)"
  "renderable ex_lib ex_mv" "renderable ex_lib ex_query" "mv_ok ex_mv"
  by code_simp+

lemma query_subsumes_sound_witness:
  "query_subsumes ex_mv ex_query \<and> evaluate ex_lib ex_mv (Some ex_event)"
proof -
  have "lits_ok (literals_of ex_mv \<union> literals_of ex_query)"
    by (rule lits_ok_plain) (simp add: ex_mv_def ex_query_def)
  with query_subsumes_sound [of ex_mv ex_query ex_lib "Some ex_event"] ex_facts show ?thesis by simp
qed

text \<open>
  Outside that fragment the test is not sound: two value sets on one field of a view are united
  instead of intersected, so the view \<open>n in [a, b] and n in [b, c]\<close> is said to hold every event of
  the query \<open>n == a\<close>, which it does not.
\<close>
theorem subsumption_unites_sets:
  "let mv = AndNode (InNode ''n'' [LStr ''a'', LStr ''b'']) (InNode ''n'' [LStr ''b'', LStr ''c'']);
       q = CompareNode ''n'' EQ (LStr ''a''); ev = Some (JObject [(''n'', JString ''a'')])
   in query_subsumes mv q \<and> evaluate R q ev \<and> \<not> evaluate R mv ev"
proof -
  let ?mv = "AndNode (InNode ''n'' [LStr ''a'', LStr ''b'']) (InNode ''n'' [LStr ''b'', LStr ''c''])"
  let ?q = "CompareNode ''n'' EQ (LStr ''a'')" and ?ev = "Some (JObject [(''n'', JString ''a'')])"
  have "query_subsumes ?mv ?q" "eval_compare ?ev ''n'' EQ (LStr ''a'')"
    "\<not> eval_in ?ev ''n'' [LStr ''b'', LStr ''c'']" by code_simp+
  then show ?thesis by simp
qed

end
