(* ===== verification/PrunerSound.thy ===== *)
theory PrunerSound
  imports ChunkPruner Subsumption
begin

text \<open>
  What the index must say about the events of a chunk (\<open>describes\<close>), for which queries the pruner
  is then sound (\<open>prunable\<close>), and the proof that it is: an event that matches is in a chunk that is
  kept, and a chunk that is reported as all-matching holds matching events only.
\<close>

section \<open>Texts of values and literals\<close>

text \<open>The text under which the index records a value; \<open>None\<close> for what it does not record.\<close>

fun value_text :: "json_value \<Rightarrow> string option" where
  "value_text (Some (JString s)) = Some s"
| "value_text (Some (JNum n)) =
     (case dom_i64 n of Some i \<Rightarrow> Some (show_int i)
      | None \<Rightarrow> (case dom_u64 n of Some u \<Rightarrow> Some (show_nat u)
          | None \<Rightarrow> map_option canonical_number_text (dom_f64 n)))"
| "value_text _ = None"

text \<open>Literals whose number is below \<open>2 ^ 53\<close>, so that it is exact as a \<^verbatim>\<open>double\<close>.\<close>

fun lit_small :: "literal \<Rightarrow> bool" where
  "lit_small (LStr s) = True"
| "lit_small (LBool b) = False"
| "lit_small (LI64 i) = (\<bar>i\<bar> < 2 ^ 53)"
| "lit_small (LU64 n) = (n < 2 ^ 53)"
| "lit_small (LF64 r) = (\<bar>r\<bar> < 2 ^ 53)"

definition typed :: "json_value \<Rightarrow> literal \<Rightarrow> bool" where
  "typed fv lit \<longleftrightarrow> is_null fv \<or> (case lit of LStr s \<Rightarrow> is_string fv | _ \<Rightarrow> is_number fv)"

lemma lit_small_exact: "lit_small lit \<Longrightarrow> lit_exact lit"
  by (cases lit) auto

lemma f64_of_int_small:
  assumes "\<bar>f64_of_int i\<bar> < 2 ^ 53" shows "f64_of_int i = of_int i" "\<bar>i\<bar> < 2 ^ 53"
proof -
  have "i < 2 ^ 53"
  proof (rule ccontr)
    assume "\<not> i < 2 ^ 53"
    then have "f64_of_int (2 ^ 53) \<le> f64_of_int i" by (intro f64_of_int_mono) simp
    with assms show False by (simp add: f64_of_int_exact)
  qed
  moreover have "- (2 ^ 53) < i"
  proof (rule ccontr)
    assume "\<not> - (2 ^ 53) < i"
    then have "f64_of_int i \<le> f64_of_int (- (2 ^ 53))" by (intro f64_of_int_mono) simp
    with assms show False by (simp add: f64_of_int_exact)
  qed
  ultimately show "\<bar>i\<bar> < 2 ^ 53" by simp
  then show "f64_of_int i = of_int i" by (intro f64_of_int_exact) simp
qed

lemma canonical_of_int:
  assumes "\<bar>i\<bar> < 2 ^ 53" shows "canonical_number_text (of_int i) = show_int i"
proof -
  have "\<bar>of_int i :: rat\<bar> < 2 ^ 53" using assms by (metis of_int_abs of_int_less_iff of_int_numeral of_int_power)
  then have "- (2 ^ 63) \<le> (of_int i :: rat)" "(of_int i :: rat) < 2 ^ 63" by (simp_all add: abs_less_iff)
  then show ?thesis unfolding canonical_number_text_def by (simp only: floor_of_int simp_thms if_True)
qed

lemma lit_canon:
  assumes "lit_small lit" "as_number lit = Some x"
  shows "literal_text lit = canonical_number_text x" "\<bar>x\<bar> < 2 ^ 53"
proof -
  have c: "literal_text lit = canonical_number_text x \<and> \<bar>x\<bar> < 2 ^ 53"
  proof (cases lit)
    case (LI64 i)
    then have i: "\<bar>i\<bar> < 2 ^ 53" "x = of_int i" using assms by (simp_all add: f64_of_int_exact)
    then have "\<bar>x\<bar> < 2 ^ 53" by (metis of_int_abs of_int_less_iff of_int_numeral of_int_power)
    with i LI64 show ?thesis by (simp add: canonical_of_int)
  next
    case (LU64 n)
    then have i: "\<bar>int n\<bar> < 2 ^ 53" "x = of_int (int n)" using assms by (auto simp: f64_of_int_exact)
    then have "\<bar>x\<bar> < 2 ^ 53" by (metis of_int_abs of_int_less_iff of_int_numeral of_int_power)
    with i LU64 show ?thesis by (simp add: canonical_of_int show_int_def del: of_int_of_nat_eq)
  qed (use assms in auto)
  then show "literal_text lit = canonical_number_text x" "\<bar>x\<bar> < 2 ^ 53" by simp_all
qed

lemma num_val_text:
  assumes "value_ok fv" "num_val fv = Some x" "\<bar>x\<bar> < 2 ^ 53"
  shows "value_text fv = Some (canonical_number_text x)"
proof -
  obtain n where fv: "fv = Some (JNum n)" and x: "x = get_f64 fv"
    using assms(2) by (cases fv rule: is_number.cases) (auto simp: num_val_def split: if_splits)
  have ok: "dom_num_ok n" using assms(1) fv by simp
  show ?thesis
  proof (cases "dom_i64 n")
    case (Some i)
    with ok x fv have "x = f64_of_int i" by (auto simp: dom_num_ok_def)
    with f64_of_int_small [of i] assms(3) Some fv show ?thesis by (simp add: canonical_of_int)
  next
    case None
    note i = None
    show ?thesis
    proof (cases "dom_u64 n")
      case (Some u)
      with ok i x fv have "x = f64_of_int (int u)" "INT64_MAX < int u" by (auto simp: dom_num_ok_def)
      with f64_of_int_small [of "int u"] assms(3) show ?thesis by (simp add: INT64_MAX_def)
    next
      case None
      with i ok x fv show ?thesis by (auto simp: dom_num_ok_def)
    qed
  qed
qed

lemma eq_text:
  assumes "value_ok fv" "typed fv lit" "lit_small lit" "compare_value fv lit = Some 0"
  shows "value_text fv = Some (literal_text lit)"
proof (cases "as_number lit")
  case None
  then obtain s where "lit = LStr s" using assms(3) by (cases lit) auto
  with assms(4) show ?thesis by (cases fv rule: is_string.cases) (auto split: if_splits)
next
  case (Some x)
  with compare_value_number [OF assms(1) Some lit_small_exact [OF assms(3)]] assms(4)
  have "num_val fv = Some x" by (cases "num_val fv") auto
  with num_val_text [OF assms(1)] lit_canon [OF assms(3) Some] show ?thesis by simp
qed

lemma show_int_inj: "show_int i = show_int j \<longleftrightarrow> i = j"
proof -
  have m: "hd (show_nat n) \<noteq> CHR ''-''" for n
    using hd_show_nat_digit [of n] by (auto simp: is_digit_def code_of_def)
  have "show_nat n \<noteq> CHR ''-'' # w" for n w using m [of n] by auto
  then show ?thesis by (auto simp: show_int_def show_nat_inj dest: sym)
qed

lemma show_nat_int: "show_nat n = show_int (int n)"
  by (simp add: show_int_def)

lemma canonical_eq_show_nat:
  assumes "canonical_number_text x = show_nat u" shows "x = of_nat u"
proof (cases "x = of_int \<lfloor>x\<rfloor> \<and> - (2 ^ 63) \<le> x \<and> x < 2 ^ 63")
  case True
  with assms have "show_int \<lfloor>x\<rfloor> = show_int (int u)" by (simp add: canonical_number_text_def flip: show_nat_int)
  with True show ?thesis by (simp add: show_int_inj)
next
  case False
  have dot: "CHR ''.'' \<in> set (fmt_f x)" by (simp add: fmt_f_def Let_def)
  from False have "fmt_f x = show_nat u" using assms unfolding canonical_number_text_def by (simp only: if_False)
  with dot have "CHR ''.'' \<in> set (show_nat u)" by simp
  with show_nat_digits [of u] show ?thesis by (auto simp: is_digit_def code_of_def)
qed

lemma text_eq:
  assumes "value_ok fv" "typed fv lit" "\<not> is_null fv" "lit_small lit" "is_string fv \<or> is_uint fv"
    "value_text fv = Some (literal_text lit)"
  shows "compare_value fv lit = Some 0"
proof (cases "as_number lit")
  case None
  then obtain s where "lit = LStr s" using assms(4) by (cases lit) auto
  with assms show ?thesis by (cases fv rule: is_string.cases) (auto simp: typed_def)
next
  case (Some x)
  then have num: "is_number fv" using assms(2,3,4) by (cases lit) (auto simp: typed_def)
  then obtain n where fv: "fv = Some (JNum n)" by (cases fv rule: is_number.cases) auto
  then obtain u where u: "dom_u64 n = Some u" using assms(5) by auto
  have ok: "dom_num_ok n" using assms(1) fv by simp
  have t: "value_text fv = Some (show_nat u)" and g: "get_f64 fv = f64_of_int (int u)"
    using ok u by (auto simp: fv dom_num_ok_def show_nat_int split: option.splits if_splits)
  with assms(6) lit_canon [OF assms(4) Some] canonical_eq_show_nat [of x u] have x: "x = of_nat u" "\<bar>x\<bar> < 2 ^ 53"
    by simp_all
  then have "\<bar>int u\<bar> \<le> 2 ^ 53"
    by (metis abs_of_nat less_imp_le of_int_abs of_int_le_iff of_int_numeral of_int_of_nat_eq of_int_power)
  then have "num_val fv = Some x" using num g x(1) by (simp add: num_val_def f64_of_int_exact)
  with compare_value_number [OF assms(1) Some lit_small_exact [OF assms(4)]] show ?thesis by simp
qed

section \<open>Bounds\<close>

text \<open>What the bounds of a row say of a value of its dimension.\<close>

definition row_covers :: "dim_row \<Rightarrow> json_value \<Rightarrow> bool" where
  "row_covers r fv \<longleftrightarrow>
     (dr_min r = [] \<and> dr_max r = [])
     \<or> (if dr_type r = ''uint'' then is_uint fv \<and> between (stoull (dr_min r)) (Some (get_u64 fv)) (stoull (dr_max r))
        else if dr_type r = ''int'' then is_int fv \<and> between (stoll (dr_min r)) (Some (get_i64 fv)) (stoll (dr_max r))
        else if dr_type r = ''double'' then
          is_number fv \<and> (\<exists>t. value_text fv = Some t \<and> between (stod (dr_min r)) (stod t) (stod (dr_max r)))
        else is_string fv \<and> dr_min r \<le> get_string fv \<and> get_string fv \<le> dr_max r)"

text \<open>Literals that a range comparison on such a row is sound for: no double-typed dimension, and on
  an unsigned one (and on the histogram of \<open>ts\<close>) no negative number and no double.\<close>

definition range_fits :: "string \<Rightarrow> string \<Rightarrow> literal \<Rightarrow> bool" where
  "range_fits f vtype lit \<longleftrightarrow> vtype \<noteq> ''double'' \<and>
     (case lit of
        LI64 i \<Rightarrow> vtype = ''uint'' \<or> f = ''ts'' \<longrightarrow> 0 \<le> i
      | LF64 r \<Rightarrow> vtype \<noteq> ''uint'' \<and> vtype \<noteq> ''int'' \<and> f \<noteq> ''ts''
      | _ \<Rightarrow> True)"

definition is_range :: "compare_op \<Rightarrow> bool" where "is_range op \<longleftrightarrow> op \<noteq> EQ \<and> op \<noteq> NE"

definition may_side :: "compare_op \<Rightarrow> int \<Rightarrow> int \<Rightarrow> bool" where
  "may_side op lo hi =
     (case op of GT \<Rightarrow> 0 < hi | GE \<Rightarrow> 0 \<le> hi | LT \<Rightarrow> lo < 0 | LE \<Rightarrow> lo \<le> 0 | _ \<Rightarrow> True)"

definition all_side :: "compare_op \<Rightarrow> int \<Rightarrow> int \<Rightarrow> bool" where
  "all_side op lo hi =
     (case op of GT \<Rightarrow> 0 < lo | GE \<Rightarrow> 0 \<le> lo | LT \<Rightarrow> hi < 0 | LE \<Rightarrow> hi \<le> 0 | _ \<Rightarrow> False)"

lemma may_arith:
  "a \<le> x \<Longrightarrow> x \<le> b \<Longrightarrow> apply_compare op (Some (three_way x v)) \<Longrightarrow> may_side op (three_way a v) (three_way b v)"
  by (cases op) (auto simp: may_side_def three_way_def split: if_splits)

lemma all_arith:
  "a \<le> x \<Longrightarrow> x \<le> b \<Longrightarrow> all_side op (three_way a v) (three_way b v) \<Longrightarrow> apply_compare op (Some (three_way x v))"
  by (cases op) (auto simp: all_side_def three_way_def split: if_splits)

lemma range_may_match_side:
  "meta d = Some r \<Longrightarrow>
    may_side op (compare_values (dr_min r) v (dr_type r)) (compare_values (dr_max r) v (dr_type r)) \<Longrightarrow>
    range_may_match meta d op v"
  by (cases op) (auto simp: range_may_match_def may_side_def)

lemma range_all_match_side:
  "meta d = Some r \<Longrightarrow> range_all_match meta d op v \<Longrightarrow>
    all_side op (compare_values (dr_min r) v (dr_type r)) (compare_values (dr_max r) v (dr_type r))
    \<and> dr_min r \<noteq> []"
  by (cases op) (auto simp: range_all_match_def all_side_def split: if_splits)

fun lit_int :: "literal \<Rightarrow> int option" where
  "lit_int (LI64 i) = Some i" | "lit_int (LU64 n) = Some (int n)" | "lit_int _ = None"

lemma compare_uint:
  assumes "value_ok fv" "is_uint fv" "lit_small lit" "lit_int lit = Some j"
  shows "compare_value fv lit = Some (three_way (int (get_u64 fv)) j)"
proof -
  obtain n u where fv: "fv = Some (JNum n)" "dom_u64 n = Some u"
    using assms(2) by (cases fv rule: is_uint.cases) auto
  then have g: "get_f64 fv = f64_of_int (int u)"
    using assms(1) by (auto simp: dom_num_ok_def split: option.splits if_splits)
  from assms(3,4) have l: "as_number lit = Some (f64_of_int j)" "\<bar>j\<bar> < 2 ^ 53" by (cases lit; auto)+
  from compare_value_number [OF assms(1) l(1) lit_small_exact [OF assms(3)]] g fv
  show ?thesis by (simp add: num_val_def three_way_f64_of_int [OF l(2)])
qed

lemma compare_int:
  assumes "value_ok fv" "is_int fv" "lit_small lit" "lit_int lit = Some j"
  shows "compare_value fv lit = Some (three_way (get_i64 fv) j)"
proof -
  obtain n i where fv: "fv = Some (JNum n)" "dom_i64 n = Some i"
    using assms(2) by (cases fv rule: is_int.cases) auto
  then have g: "get_f64 fv = f64_of_int i"
    using assms(1) by (auto simp: dom_num_ok_def)
  from assms(3,4) have l: "as_number lit = Some (f64_of_int j)" "\<bar>j\<bar> < 2 ^ 53" by (cases lit; auto)+
  from compare_value_number [OF assms(1) l(1) lit_small_exact [OF assms(3)]] g fv
  show ?thesis by (simp add: num_val_def three_way_f64_of_int [OF l(2)])
qed

lemma stoull_lit:
  "lit_small lit \<Longrightarrow> lit_int lit = Some j \<Longrightarrow> 0 \<le> j \<Longrightarrow> stoull (literal_text lit) = Some (nat j)"
  by (cases lit) (auto simp: stoull_show_int stoull_show_nat UINT64_MAX_def nat_le_iff)

lemma stoll_lit: "lit_small lit \<Longrightarrow> lit_int lit = Some j \<Longrightarrow> stoll (literal_text lit) = Some j"
  by (cases lit) (auto simp: stoll_show_int stoll_show_nat INT64_MIN_def INT64_MAX_def)

lemma compare_None_typed: "typed fv lit \<Longrightarrow> \<not> is_null fv \<Longrightarrow> is_string fv \<Longrightarrow> lit_small lit \<Longrightarrow> \<exists>s. lit = LStr s"
  by (cases lit; cases fv rule: is_string.cases) (auto simp: typed_def)

lemma typed_number: "typed fv lit \<Longrightarrow> \<not> is_null fv \<Longrightarrow> is_number fv \<Longrightarrow> lit \<noteq> LStr s"
  by (cases fv rule: is_number.cases) (auto simp: typed_def)

lemma int_uint_number: "is_uint fv \<or> is_int fv \<Longrightarrow> is_number fv"
  by (cases fv rule: is_number.cases) auto

lemma three_way_int_nat: "0 \<le> j \<Longrightarrow> three_way (int u) j = three_way u (nat j)"
  by (auto simp: three_way_def)

text \<open>On a covered value, the comparison of the event and the comparisons of the bounds order the
  same three numbers, or the same three strings.\<close>

lemma range_views:
  assumes "row_covers r fv" "\<not> (dr_min r = [] \<and> dr_max r = [])" "value_ok fv" "\<not> is_null fv" "typed fv lit"
    "lit_small lit" "range_fits f (dr_type r) lit"
  shows "(\<exists>a x b v. compare_value fv lit = Some (three_way x (v :: int)) \<and> a \<le> x \<and> x \<le> b
      \<and> compare_values (dr_min r) (literal_text lit) (dr_type r) = three_way a v
      \<and> compare_values (dr_max r) (literal_text lit) (dr_type r) = three_way b v)
    \<or> (\<exists>a x b v. compare_value fv lit = Some (three_way x (v :: string)) \<and> a \<le> x \<and> x \<le> b
      \<and> compare_values (dr_min r) (literal_text lit) (dr_type r) = three_way a v
      \<and> compare_values (dr_max r) (literal_text lit) (dr_type r) = three_way b v)"
proof -
  consider "dr_type r = ''uint''" | "dr_type r = ''int''" | "dr_type r \<noteq> ''uint''" "dr_type r \<noteq> ''int''" by blast
  then show ?thesis
  proof cases
    case 1
    with assms(1,2) have u: "is_uint fv" "between (stoull (dr_min r)) (Some (get_u64 fv)) (stoull (dr_max r))"
      by (auto simp: row_covers_def)
    then obtain a b where ab: "stoull (dr_min r) = Some a" "stoull (dr_max r) = Some b" "a \<le> get_u64 fv" "get_u64 fv \<le> b"
      by (auto simp: between_def split: option.splits)
    have "\<And>s. lit \<noteq> LStr s" using typed_number [OF assms(5,4)] int_uint_number u(1) by blast
    with assms(6,7) 1 obtain j where j: "lit_int lit = Some j" "0 \<le> j"
      by (cases lit) (auto simp: range_fits_def)
    have s: "stoull (literal_text lit) = Some (nat j)" by (rule stoull_lit [OF assms(6) j])
    have "compare_values (dr_min r) (literal_text lit) (dr_type r) = three_way (int a) j"
      "compare_values (dr_max r) (literal_text lit) (dr_type r) = three_way (int b) j"
      using s ab(1,2) 1 j(2) by (simp_all add: compare_values_def compare_parsed_def three_way_int_nat)
    with compare_uint [OF assms(3) u(1) assms(6) j(1)] ab(3,4) show ?thesis
      by (intro disjI1 exI [of _ "int a"] exI [of _ "int (get_u64 fv)"] exI [of _ "int b"] exI [of _ j]) simp
  next
    case 2
    with assms(1,2) have u: "is_int fv" "between (stoll (dr_min r)) (Some (get_i64 fv)) (stoll (dr_max r))"
      by (auto simp: row_covers_def)
    then obtain a b where ab: "stoll (dr_min r) = Some a" "stoll (dr_max r) = Some b" "a \<le> get_i64 fv" "get_i64 fv \<le> b"
      by (auto simp: between_def split: option.splits)
    have "\<And>s. lit \<noteq> LStr s" using typed_number [OF assms(5,4)] int_uint_number u(1) by blast
    with assms(6,7) 2 obtain j where j: "lit_int lit = Some j"
      by (cases lit) (auto simp: range_fits_def)
    have s: "stoll (literal_text lit) = Some j" by (rule stoll_lit [OF assms(6) j])
    have "compare_values (dr_min r) (literal_text lit) (dr_type r) = three_way a j"
      "compare_values (dr_max r) (literal_text lit) (dr_type r) = three_way b j"
      using s ab(1,2) 2 by (simp_all add: compare_values_def compare_parsed_def)
    with compare_int [OF assms(3) u(1) assms(6) j] ab(3,4) show ?thesis by blast
  next
    case 3
    with assms(1,2,7) have st: "is_string fv" "dr_min r \<le> get_string fv" "get_string fv \<le> dr_max r"
      "dr_type r \<noteq> ''double''" by (auto simp: row_covers_def range_fits_def)
    with compare_None_typed [OF assms(5,4) st(1) assms(6)] obtain s where s: "lit = LStr s" by blast
    have "compare_value fv lit = Some (three_way (get_string fv) s)" using st(1) s by simp
    moreover have "compare_values (dr_min r) (literal_text lit) (dr_type r) = three_way (dr_min r) s"
      "compare_values (dr_max r) (literal_text lit) (dr_type r) = three_way (dr_max r) s"
      using 3 st(4) s by (simp_all add: compare_values_def)
    ultimately show ?thesis using st(2,3) by blast
  qed
qed

lemma range_may_sound:
  assumes "\<And>r. meta f = Some r \<Longrightarrow> row_covers r fv \<and> range_fits f (dr_type r) lit"
    "value_ok fv" "\<not> is_null fv" "typed fv lit" "lit_small lit"
    "apply_compare op (compare_value fv lit)"
  shows "range_may_match meta f op (literal_text lit)"
proof (cases "meta f")
  case (Some r)
  show ?thesis
  proof (cases "dr_min r = [] \<and> dr_max r = []")
    case False
    from assms(1) [OF Some] have rc: "row_covers r fv" "range_fits f (dr_type r) lit" by simp_all
    from range_views [OF rc(1) False assms(2,3,4,5) rc(2)] assms(6)
    have "may_side op (compare_values (dr_min r) (literal_text lit) (dr_type r))
        (compare_values (dr_max r) (literal_text lit) (dr_type r))" by (auto intro: may_arith)
    with Some show ?thesis by (rule range_may_match_side)
  qed (simp add: range_may_match_def Some)
qed (simp add: range_may_match_def)

lemma range_all_sound:
  assumes "\<And>r. meta f = Some r \<Longrightarrow> row_covers r fv \<and> range_fits f (dr_type r) lit"
    "value_ok fv" "\<not> is_null fv" "typed fv lit" "lit_small lit"
    "range_all_match meta f op (literal_text lit)"
  shows "apply_compare op (compare_value fv lit)"
proof (cases "meta f")
  case (Some r)
  from range_all_match_side [OF Some assms(6)]
  have s: "all_side op (compare_values (dr_min r) (literal_text lit) (dr_type r))
        (compare_values (dr_max r) (literal_text lit) (dr_type r))"
    and "\<not> (dr_min r = [] \<and> dr_max r = [])" by auto
  from assms(1) [OF Some] have rc: "row_covers r fv" "range_fits f (dr_type r) lit" by simp_all
  from range_views [OF rc(1) \<open>\<not> (dr_min r = [] \<and> dr_max r = [])\<close> assms(2,3,4,5) rc(2)] s
  show ?thesis by (auto intro: all_arith)
qed (use assms(6) in \<open>simp add: range_all_match_def\<close>)

lemma text_bounds:
  assumes "row_covers r fv" "value_ok fv" "value_text fv = Some t" "\<not> (dr_min r = [] \<and> dr_max r = [])"
  shows "0 \<le> compare_values (dr_max r) t (dr_type r)" "compare_values (dr_min r) t (dr_type r) \<le> 0"
proof -
  have tw: "x \<le> y \<Longrightarrow> 0 \<le> three_way y x" "x \<le> y \<Longrightarrow> three_way x y \<le> 0" for x y :: "'a::linorder"
    by (auto simp: three_way_def)
  have "0 \<le> compare_values (dr_max r) t (dr_type r) \<and> compare_values (dr_min r) t (dr_type r) \<le> 0"
  proof -
    consider "dr_type r = ''uint''" | "dr_type r = ''int''" | "dr_type r = ''double''"
      | "dr_type r \<noteq> ''uint''" "dr_type r \<noteq> ''int''" "dr_type r \<noteq> ''double''" by blast
    then show ?thesis
    proof cases
      case 1
      with assms(1,4) have u: "is_uint fv" "between (stoull (dr_min r)) (Some (get_u64 fv)) (stoull (dr_max r))"
        by (auto simp: row_covers_def)
      then obtain n v where n: "fv = Some (JNum n)" "dom_u64 n = Some v" by (cases fv rule: is_uint.cases) auto
      with assms(2,3) have "t = show_nat v" "v \<le> UINT64_MAX"
        by (auto simp: dom_num_ok_def show_nat_int UINT64_MAX_def INT64_MAX_def split: option.splits if_splits)
      with n have "stoull t = Some (get_u64 fv)" by (simp add: codec_simps)
      with u(2) 1 show ?thesis by (auto simp: between_def compare_values_def compare_parsed_def tw split: option.splits)
    next
      case 2
      with assms(1,4) have u: "is_int fv" "between (stoll (dr_min r)) (Some (get_i64 fv)) (stoll (dr_max r))"
        by (auto simp: row_covers_def)
      then obtain n i where n: "fv = Some (JNum n)" "dom_i64 n = Some i" by (cases fv rule: is_int.cases) auto
      with assms(2,3) have "stoll t = Some i" by (auto simp: dom_num_ok_def codec_simps)
      with u(2) 2 n show ?thesis by (auto simp: between_def compare_values_def compare_parsed_def tw split: option.splits)
    next
      case 3
      with assms(1,3,4) have "between (stod (dr_min r)) (stod t) (stod (dr_max r))" by (auto simp: row_covers_def)
      with 3 show ?thesis by (auto simp: between_def compare_values_def compare_parsed_def tw split: option.splits)
    next
      case 4
      with assms(1,4) have "is_string fv" "dr_min r \<le> get_string fv" "get_string fv \<le> dr_max r"
        by (auto simp: row_covers_def)
      moreover with assms(3) have "t = get_string fv" by (cases fv rule: is_string.cases) auto
      ultimately show ?thesis using 4 by (simp add: compare_values_def tw)
    qed
  qed
  then show "0 \<le> compare_values (dr_max r) t (dr_type r)" "compare_values (dr_min r) t (dr_type r) \<le> 0" by simp_all
qed

lemma eq_bounds_pass:
  assumes "\<And>r. meta f = Some r \<Longrightarrow> row_covers r fv" "value_ok fv" "value_text fv = Some t"
  shows "range_may_match meta f GE t" "range_may_match meta f LE t"
  using text_bounds [OF assms(1) assms(2,3)] by (auto simp: range_may_match_def split: option.splits)

section \<open>What the index records of a chunk\<close>

definition field_of :: "json \<Rightarrow> string \<Rightarrow> json_value" where "field_of e d = resolve_field (Some e) d"

text \<open>A name is posted, or the file has no name postings at all.\<close>

definition name_posted :: "pruner_ctx \<Rightarrow> nat \<Rightarrow> string \<Rightarrow> bool" where
  "name_posted ctx c t \<longleftrightarrow>
     (file_contains_name ctx t = Some True \<and> c \<in> resolve_name_chunks ctx t)
     \<or> (\<forall>v. file_contains_name ctx v = None)"

text \<open>A value of dimension \<open>d\<close> is within the bounds, in the dictionary, in the filters of the chunk and
  the file, in the timestamp histogram and in the name postings, where the index has these; and a
  value of a hash dimension is not itself a name that stands for a hash.\<close>

definition recorded :: "pruner_ctx \<Rightarrow> nat \<Rightarrow> string \<Rightarrow> json_value \<Rightarrow> bool" where
  "recorded ctx c d fv \<longleftrightarrow>
     (\<forall>r. meta_of ctx c d = Some r \<longrightarrow> row_covers r fv)
     \<and> (\<forall>vc. dict_of (pc_db ctx) (meta_of ctx c) d = Some vc \<longrightarrow>
          (is_string fv \<or> is_uint fv) \<and> (\<exists>t. value_text fv = Some t \<and> map_of vc t \<noteq> None))
     \<and> (\<forall>t. value_text fv = Some t \<longrightarrow>
          resolve_hashes ctx d t = [] \<and> bloom_probe ctx d c t
          \<and> (\<forall>b. pc_file_blooms ctx d = Some b \<longrightarrow> scalable_contains b t)
          \<and> (d = ''name'' \<longrightarrow> name_posted ctx c t))
     \<and> (d = ''ts'' \<longrightarrow> (\<forall>h. pc_hists ctx c = Some h \<longrightarrow>
          is_uint fv \<and> (\<exists>vs. h = ts_of vs \<and> of_nat (get_u64 fv) \<in> set vs \<and> length vs < 2 ^ 64)))"

definition describes :: "pruner_ctx \<Rightarrow> nat \<Rightarrow> json list \<Rightarrow> bool" where
  "describes ctx c evs \<longleftrightarrow>
     c \<in> pc_all ctx
     \<and> (\<forall>e \<in> set evs. json_ok e \<and> (\<forall>d. \<not> is_null (field_of e d) \<longrightarrow> recorded ctx c d (field_of e d)))"

text \<open>The queries for which pruning is sound: literals have the type of the field's values and are
  small, range literals fit the bounds, and (\<open>pol = False\<close>, under an odd number of negations) every
  event carries the field.\<close>

definition lit_fits :: "json list \<Rightarrow> string \<Rightarrow> literal \<Rightarrow> bool" where
  "lit_fits evs f v \<longleftrightarrow> lit_small v \<and> (\<forall>e \<in> set evs. typed (field_of e f) v)"

definition carried :: "json list \<Rightarrow> string \<Rightarrow> bool" where
  "carried evs f \<longleftrightarrow> (\<forall>e \<in> set evs. \<not> is_null (field_of e f))"

definition range_ok :: "pruner_ctx \<Rightarrow> nat \<Rightarrow> string \<Rightarrow> literal \<Rightarrow> bool" where
  "range_ok ctx c f v \<longleftrightarrow>
     (f = ''ts'' \<longrightarrow> range_fits f [] v) \<and> (\<forall>r. meta_of ctx c f = Some r \<longrightarrow> range_fits f (dr_type r) v)"

fun prunable :: "pruner_ctx \<Rightarrow> nat \<Rightarrow> json list \<Rightarrow> bool \<Rightarrow> query_node \<Rightarrow> bool" where
  "prunable ctx c evs pol (CompareNode f op v) =
     (lit_fits evs f v \<and> (\<not> pol \<longrightarrow> carried evs f) \<and> (is_range op \<longrightarrow> range_ok ctx c f v))"
| "prunable ctx c evs pol (InNode f vs) = (list_all (lit_fits evs f) vs \<and> (\<not> pol \<longrightarrow> carried evs f))"
| "prunable ctx c evs pol (NotInNode f vs) = (list_all (lit_fits evs f) vs \<and> (\<not> pol \<longrightarrow> carried evs f))"
| "prunable ctx c evs pol (MatchNode f op p neg cp) = True"
| "prunable ctx c evs pol (AndNode a b) = (prunable ctx c evs pol a \<and> prunable ctx c evs pol b)"
| "prunable ctx c evs pol (OrNode a b) = (prunable ctx c evs pol a \<and> prunable ctx c evs pol b)"
| "prunable ctx c evs pol (NotNode a) = prunable ctx c evs (\<not> pol) a"

section \<open>Leaves\<close>

lemma bloom_may_recorded:
  "recorded ctx c d fv \<Longrightarrow> value_text fv = Some t \<Longrightarrow> bloom_may_contain ctx d c t \<and> file_bloom_may_contain ctx d t"
  by (simp add: recorded_def bloom_may_contain_def file_bloom_may_contain_def Let_def split: option.splits)

lemma dict_contains_recorded:
  "recorded ctx c d fv \<Longrightarrow> value_text fv = Some t \<Longrightarrow> dict_contains (pc_db ctx) (meta_of ctx c) d t \<noteq> Some False"
  by (auto simp: recorded_def dict_contains_def split: option.splits)

lemma hist_counts:
  assumes "h = ts_of vs" "u \<in> set vs" "length vs < 2 ^ 64" "s \<le> u" "u < e \<or> ts_bin_index u \<le> ts_bin_index (e - 1)" "s < e"
  shows "0 < ts_count_in_range h s e"
proof -
  let ?P = "\<lambda>v. ts_bin_index s \<le> ts_bin_index v \<and> ts_bin_index v \<le> ts_bin_index (e - 1)"
  have "u \<le> e - 1" if "u < e"
  proof -
    have "0 < unat e" using that by (simp add: word_less_nat_alt)
    then have "unat (e - 1) = unat e - 1" by (simp add: unat_minus_one unat_gt_0)
    with that show ?thesis by (simp add: word_le_nat_alt word_less_nat_alt)
  qed
  with assms(4,5) have "?P u" using ts_bin_mono by blast
  with assms(2) have "u \<in> set (filter ?P vs)" by simp
  then have pos: "0 < length (filter ?P vs)" by (rule length_pos_if_in_set)
  have "range_sum (ts_bin_index s) (ts_bin_index (e - 1)) (th_bins (ts_of vs)) = of_nat (length (filter ?P vs))"
  proof -
    have "range_sum lo hi (th_bins ts_empty) = 0" for lo hi by (simp add: range_sum_def ts_empty_def)
    then show ?thesis by (simp only: ts_of_observe range_sum_observed add_0)
  qed
  with ts_count_range [OF ts_of_ok assms(6), of vs] assms(1)
  have c: "ts_count_in_range h s e = of_nat (length (filter ?P vs))" by simp
  have "length (filter ?P vs) < 2 ^ 64" using length_filter_le [of ?P vs] assms(3) by (rule le_less_trans)
  then have "unat (of_nat (length (filter ?P vs)) :: w64) = length (filter ?P vs)"
    by (simp only: unat_of_nat) (simp add: take_bit_nat_eq_self)
  then have "unat (ts_count_in_range h s e) \<noteq> 0" using pos c by simp
  then show ?thesis by (simp add: word_less_nat_alt)
qed

lemma describesD:
  assumes "describes ctx c evs" "e \<in> set evs"
  shows "c \<in> pc_all ctx" "value_ok (field_of e d)" "\<not> is_null (field_of e d) \<Longrightarrow> recorded ctx c d (field_of e d)"
  using assms by (auto simp: describes_def field_of_def intro: resolve_field_ok)

lemma recorded_row: "recorded ctx c d fv \<Longrightarrow> meta_of ctx c d = Some r \<Longrightarrow> row_covers r fv"
  by (simp add: recorded_def)

lemma recorded_dict:
  "recorded ctx c d fv \<Longrightarrow> dict_of (pc_db ctx) (meta_of ctx c) d = Some vc \<Longrightarrow>
    (is_string fv \<or> is_uint fv) \<and> (\<exists>t. value_text fv = Some t \<and> map_of vc t \<noteq> None)"
  by (simp add: recorded_def)

lemma lit_fitsD: "lit_fits evs f v \<Longrightarrow> e \<in> set evs \<Longrightarrow> lit_small v \<and> typed (field_of e f) v"
  by (simp add: lit_fits_def)

lemma compare_ne_eq:
  "typed fv lit \<Longrightarrow> \<not> is_null fv \<Longrightarrow> lit_small lit \<Longrightarrow> compare_value fv lit \<noteq> None"
  by (cases lit; cases fv rule: is_number.cases) (auto simp: typed_def)

lemma hist_range_sound:
  assumes "recorded ctx c ''ts'' fv" "value_ok fv" "\<not> is_null fv" "typed fv lit" "lit_small lit"
    "range_fits ''ts'' [] lit" "stoull (literal_text lit) = Some t" "is_range op"
    "apply_compare op (compare_value fv lit)"
  shows "histogram_has_events ctx c op (of_nat t)"
proof (cases "pc_hists ctx c")
  case (Some h)
  with assms(1) obtain vs where u: "is_uint fv" and h: "h = ts_of vs" "of_nat (get_u64 fv) \<in> set vs" "length vs < 2 ^ 64"
    unfolding recorded_def by blast
  have "\<And>s. lit \<noteq> LStr s" using typed_number [OF assms(4,3)] int_uint_number u by blast
  with assms(5,6) obtain j where j: "lit_int lit = Some j" "0 \<le> j" "j < 2 ^ 53"
    by (cases lit) (auto simp: range_fits_def)
  have "t = nat j" using stoull_lit [OF assms(5) j(1,2)] assms(7) by simp
  with j have t: "int t = j" "t < 2 ^ 53" by auto
  define w :: w64 where "w = of_nat t"
  define x :: w64 where "x = of_nat (get_u64 fv)"
  have g: "get_u64 fv < 2 ^ 64"
    using u assms(2) by (cases fv rule: is_uint.cases) (auto simp: dom_num_ok_def INT64_MAX_def UINT64_MAX_def split: option.splits if_splits)
  have ux: "unat x = get_u64 fv" using g by (simp add: x_def unat_of_nat take_bit_nat_eq_self)
  have uw: "unat w = t" using t(2) by (simp add: w_def unat_of_nat take_bit_nat_eq_self)
  have uw1: "unat (w + 1) = t + 1"
  proof -
    have "w + 1 = of_nat (t + 1)" by (simp add: w_def)
    moreover have "t + 1 < 2 ^ 64" using t(2) by simp
    ultimately show ?thesis by (simp only: unat_of_nat) (simp add: take_bit_nat_eq_self)
  qed
  have m1: "unat (- 1 :: w64) = 2 ^ 64 - 1" by (simp add: unsigned_minus_1_eq_mask mask_eq_exp_minus_1)
  have cmp: "compare_value fv lit = Some (three_way (int (get_u64 fv)) j)"
    by (rule compare_uint [OF assms(2) u assms(5) j(1)])
  have top: "ts_bin_index x \<le> ts_bin_index (- 1 - 1)" 
  proof -
    have "unat (- 1 - 1 :: w64) = 2 ^ 64 - 2" by simp
    moreover have "get_u64 fv div 100000 \<le> (2 ^ 64 - 2) div (100000 :: nat)" using g by simp
    ultimately show ?thesis by (simp add: ts_bin_index_def BIN_WIDTH_US_def word_le_nat_alt unat_div ux)
  qed
  then have top': "unat (ts_bin_index x) \<le> unat (ts_bin_index (- 2))" by (simp add: word_le_nat_alt)
  have goal: "0 < ts_count_in_range h (w + 1) (- 1)" if "op = GT"
    using that assms(9) cmp t ux uw1 m1
    by (intro hist_counts [OF h(1) h(2) [folded x_def] h(3)])
       (auto simp: three_way_def word_le_nat_alt word_less_nat_alt top' split: if_splits)
  have goal2: "0 < ts_count_in_range h w (- 1)" if "op = GE"
    using that assms(9) cmp t ux uw m1
    by (intro hist_counts [OF h(1) h(2) [folded x_def] h(3)])
       (auto simp: three_way_def word_le_nat_alt word_less_nat_alt top' split: if_splits)
  have goal3: "0 < ts_count_in_range h 0 w" if "op = LT"
    using that assms(9) cmp t ux uw
    by (intro hist_counts [OF h(1) h(2) [folded x_def] h(3)])
       (auto simp: three_way_def word_le_nat_alt word_less_nat_alt split: if_splits)
  have goal4: "0 < ts_count_in_range h 0 (w + 1)" if "op = LE"
    using that assms(9) cmp t ux uw1
    by (intro hist_counts [OF h(1) h(2) [folded x_def] h(3)])
       (auto simp: three_way_def word_le_nat_alt word_less_nat_alt split: if_splits)
  from goal goal2 goal3 goal4 assms(8) Some show ?thesis
    by (cases op) (auto simp: histogram_has_events_def w_def is_range_def)
qed (simp add: histogram_has_events_def)

lemma chunk_may_sound:
  assumes "describes ctx c evs" "e \<in> set evs" "lit_fits evs f v" "is_range op \<longrightarrow> range_ok ctx c f v"
    "QueryEval.eval_compare (Some e) f op v"
  shows "chunk_may_compare ctx f op v c"
proof -
  define fv where "fv = field_of e f"
  from assms(5) have nn: "\<not> is_null fv" and cmp: "apply_compare op (compare_value fv v)"
    by (auto simp: eval_compare_def fv_def field_of_def Let_def split: if_splits)
  note ok = describesD(2) [OF assms(1,2), of f, folded fv_def]
  note rec = describesD(3) [OF assms(1,2) nn [unfolded fv_def], folded fv_def]
  have lit: "lit_small v" "typed fv v" using lit_fitsD [OF assms(3,2)] by (simp_all add: fv_def)
  show ?thesis
  proof (cases "is_range op")
    case True
    with assms(4) have r: "range_ok ctx c f v" by simp
    have "range_may_match (meta_of ctx c) f op (literal_text v)"
      by (rule range_may_sound [OF _ ok nn lit(2,1) cmp]) (use r recorded_row [OF rec] in \<open>auto simp: range_ok_def\<close>)
    moreover have "histogram_has_events ctx c op (of_nat t)" if "f = ''ts''" "stoull (literal_text v) = Some t" for t
      using hist_range_sound [OF rec [unfolded that(1)] ok nn lit(2,1) _ that(2) True cmp] r that(1)
      by (simp add: range_ok_def)
    ultimately show ?thesis using True
      by (cases op) (auto simp: chunk_may_compare_def is_range_def split: option.splits)
  next
    case False
    then consider "op = EQ" | "op = NE" by (auto simp: is_range_def)
    then show ?thesis
    proof cases
      case 1
      with cmp have "compare_value fv v = Some 0" by (cases "compare_value fv v") auto
      then have t: "value_text fv = Some (literal_text v)" by (rule eq_text [OF ok lit(2,1)])
      from dict_contains_recorded [OF rec t] bloom_may_recorded [OF rec t]
        eq_bounds_pass [OF recorded_row [OF rec] ok t] 1 show ?thesis
        by (auto simp: chunk_may_compare_def Let_def split: option.splits)
    next
      case 2
      have "dict_excludes (pc_db ctx) (meta_of ctx c) f (literal_text v) \<noteq> Some True"
      proof
        assume "dict_excludes (pc_db ctx) (meta_of ctx c) f (literal_text v) = Some True"
        then obtain vc k n where d: "dict_of (pc_db ctx) (meta_of ctx c) f = Some vc" "vc = [(k, n)]" "literal_text v = k"
          by (auto simp: dict_excludes_def length_Suc_conv split: option.splits if_splits)
        with recorded_dict [OF rec d(1)] have "value_text fv = Some (literal_text v)" "is_string fv \<or> is_uint fv"
          by (auto split: if_splits)
        with text_eq [OF ok lit(2) nn lit(1)] cmp 2 show False by simp
      qed
      with 2 show ?thesis by (simp add: chunk_may_compare_def Let_def)
    qed
  qed
qed

lemma may_compare_sound:
  assumes "describes ctx c evs" "e \<in> set evs" "lit_fits evs f v" "is_range op \<longrightarrow> range_ok ctx c f v"
    "QueryEval.eval_compare (Some e) f op v"
  shows "c \<in> may_compare ctx f op v"
proof -
  have m: "c \<in> {c \<in> pc_all ctx. chunk_may_compare ctx f op v c}"
    using chunk_may_sound [OF assms] describesD(1) [OF assms(1,2)] by simp
  show ?thesis
  proof (cases "f = ''name'' \<and> op = EQ")
    case True
    define fv where "fv = field_of e f"
    from assms(5) have nn: "\<not> is_null fv" and cmp: "apply_compare op (compare_value fv v)"
      by (auto simp: eval_compare_def fv_def field_of_def Let_def split: if_splits)
    with True have "compare_value fv v = Some 0" by (cases "compare_value fv v") auto
    with eq_text [OF describesD(2) [OF assms(1,2), of f, folded fv_def]] lit_fitsD [OF assms(3,2)]
    have "value_text fv = Some (literal_text v)" by (simp add: fv_def)
    with describesD(3) [OF assms(1,2) nn [unfolded fv_def], folded fv_def] True
    have "name_posted ctx c (literal_text v)" by (simp add: recorded_def)
    with m show ?thesis by (auto simp: may_compare_def Let_def name_posted_def split: option.splits bool.splits)
  qed (use m in \<open>auto simp: may_compare_def Let_def\<close>)
qed

lemma eval_in_text:
  assumes "describes ctx c evs" "e \<in> set evs" "list_all (lit_fits evs f) vs" "QueryEval.eval_in (Some e) f vs"
  obtains v where "v \<in> set vs" "value_text (field_of e f) = Some (literal_text v)" "\<not> is_null (field_of e f)"
proof -
  from assms(4) obtain v where v: "v \<in> set vs" "compare_value (field_of e f) v = Some 0" "\<not> is_null (field_of e f)"
    by (auto simp: eval_in_def field_of_def Let_def list_ex_iff split: if_splits)
  with assms(3) have "lit_fits evs f v" by (simp add: list_all_iff)
  from lit_fitsD [OF this assms(2)] eq_text [OF describesD(2) [OF assms(1,2)] _ _ v(2)] v that show ?thesis by blast
qed

lemma in_postings_mem:
  "v \<in> set vs \<Longrightarrow> file_contains_name ctx (literal_text v) = Some True \<Longrightarrow> c \<in> resolve_name_chunks ctx (literal_text v) \<Longrightarrow>
    c \<in> in_postings ctx vs"
  by (induction vs) auto

lemma in_postings_none: "(\<And>t. file_contains_name ctx t = None) \<Longrightarrow> in_postings ctx vs = {}"
  by (induction vs) auto

lemma may_in_sound:
  assumes "describes ctx c evs" "e \<in> set evs" "list_all (lit_fits evs f) vs" "QueryEval.eval_in (Some e) f vs"
  shows "c \<in> may_in ctx f vs"
proof -
  obtain v where v: "v \<in> set vs" "value_text (field_of e f) = Some (literal_text v)" "\<not> is_null (field_of e f)"
    by (rule eval_in_text [OF assms])
  note rec = describesD(3) [OF assms(1,2) v(3)]
  from dict_contains_recorded [OF rec v(2)] bloom_may_recorded [OF rec v(2)] v(1)
  have "chunk_may_in ctx f vs c"
    by (fastforce simp: chunk_may_in_def list_ex_iff split: option.splits)
  then have m: "c \<in> {c \<in> pc_all ctx. chunk_may_in ctx f vs c}" using describesD(1) [OF assms(1,2)] by simp
  show ?thesis
  proof (cases "f = ''name''")
    case True
    with rec v(2) have "name_posted ctx c (literal_text v)" by (simp add: recorded_def)
    then show ?thesis
      using m in_postings_mem [OF v(1)] in_postings_none [of ctx vs] True
      by (auto simp: may_in_def Let_def name_posted_def)
  qed (use m in \<open>simp add: may_in_def Let_def\<close>)
qed

lemma may_not_in_sound:
  assumes "describes ctx c evs" "e \<in> set evs" "list_all (lit_fits evs f) vs" "QueryEval.eval_not_in (Some e) f vs"
  shows "c \<in> may_not_in ctx f vs"
proof -
  define fv where "fv = field_of e f"
  from assms(4) have nn: "\<not> is_null fv" and ne: "\<forall>v \<in> set vs. compare_value fv v \<noteq> Some 0"
    by (auto simp: eval_not_in_def field_of_def Let_def list_ex_iff fv_def split: if_splits)
  note rec = describesD(3) [OF assms(1,2) nn [unfolded fv_def], folded fv_def]
  have "\<not> list_all (\<lambda>(val, n). list_ex (\<lambda>lit. literal_text lit = val) vs) vc"
    if d: "dict_of (pc_db ctx) (meta_of ctx c) f = Some vc" for vc
  proof
    assume all: "list_all (\<lambda>(val, n). list_ex (\<lambda>lit. literal_text lit = val) vs) vc"
    from recorded_dict [OF rec d] obtain t n where t: "is_string fv \<or> is_uint fv" "value_text fv = Some t" "map_of vc t = Some n"
      by auto
    with all map_of_SomeD [OF t(3)] obtain v where v: "v \<in> set vs" "literal_text v = t"
      by (auto simp: list_all_iff list_ex_iff)
    with assms(3) have "lit_fits evs f v" by (simp add: list_all_iff)
    from lit_fitsD [OF this assms(2)] text_eq [OF describesD(2) [OF assms(1,2)], of f v] t v nn ne
    show False by (simp add: fv_def)
  qed
  with describesD(1) [OF assms(1,2)] show ?thesis by (auto simp: may_not_in_def split: option.splits)
qed

lemma meta_of_Some: "pc_chunks ctx c = Some meta \<Longrightarrow> meta_of ctx c = meta"
  by (simp add: meta_of_def)

lemma all_compare_sound:
  assumes "describes ctx c evs" "e \<in> set evs" "lit_fits evs f v" "carried evs f" "is_range op \<longrightarrow> range_ok ctx c f v"
    "c \<in> all_match_compare ctx f op v"
  shows "QueryEval.eval_compare (Some e) f op v"
proof -
  define fv where "fv = field_of e f"
  have nn: "\<not> is_null fv" using assms(2,4) by (simp add: carried_def fv_def)
  note ok = describesD(2) [OF assms(1,2), of f, folded fv_def]
  note rec = describesD(3) [OF assms(1,2) nn [unfolded fv_def], folded fv_def]
  have lit: "lit_small v" "typed fv v" using lit_fitsD [OF assms(3,2)] by (simp_all add: fv_def)
  from assms(6) obtain meta where meta: "pc_chunks ctx c = Some meta" "meta_of ctx c = meta"
    and all: "chunk_all_compare ctx f op v c"
    by (auto simp: all_match_compare_def chunk_all_compare_def meta_of_Some split: option.splits)
  have "apply_compare op (compare_value fv v)"
  proof (cases "is_range op")
    case True
    with all meta have "range_all_match (meta_of ctx c) f op (literal_text v)"
      by (cases op) (auto simp: chunk_all_compare_def is_range_def Let_def)
    then show ?thesis
      by (rule range_all_sound [OF _ ok nn lit(2,1), rotated])
         (use assms(5) True recorded_row [OF rec] in \<open>auto simp: range_ok_def\<close>)
  next
    case False
    then consider "op = EQ" | "op = NE" by (auto simp: is_range_def)
    then show ?thesis
    proof cases
      case 1
      with all meta obtain vc k n where d: "dict_of (pc_db ctx) (meta_of ctx c) f = Some vc" "vc = [(k, n)]" "literal_text v = k"
        by (auto simp: chunk_all_compare_def length_Suc_conv Let_def split: option.splits if_splits)
      with recorded_dict [OF rec d(1)] have "value_text fv = Some (literal_text v)" "is_string fv \<or> is_uint fv"
        by (auto split: if_splits)
      with text_eq [OF ok lit(2) nn lit(1)] 1 show ?thesis by simp
    next
      case 2
      with all meta obtain vc where d: "dict_of (pc_db ctx) (meta_of ctx c) f = Some vc" "map_of vc (literal_text v) = None"
        by (auto simp: chunk_all_compare_def dict_lacks_def Let_def split: option.splits)
      with recorded_dict [OF rec d(1)] have "value_text fv \<noteq> Some (literal_text v)" by auto
      then have "compare_value fv v \<noteq> Some 0" using eq_text [OF ok lit(2,1)] by blast
      moreover obtain k where "compare_value fv v = Some k" using compare_ne_eq [OF lit(2) nn lit(1)] by blast
      ultimately show ?thesis using 2 by simp
    qed
  qed
  with nn show ?thesis by (simp add: eval_compare_def fv_def field_of_def Let_def)
qed

lemma all_match_in_dict:
  assumes "describes ctx c evs" "e \<in> set evs" "carried evs f" "c \<in> all_match_in ctx vs f want"
  obtains t where "value_text (field_of e f) = Some t" "is_string (field_of e f) \<or> is_uint (field_of e f)"
    "(t \<in> literal_text ` set vs) = want" "\<not> is_null (field_of e f)"
proof -
  have nn: "\<not> is_null (field_of e f)" using assms(2,3) by (simp add: carried_def)
  note rec = describesD(3) [OF assms(1,2) nn]
  from assms(4) obtain meta vc where "pc_chunks ctx c = Some meta"
    and d: "dict_of (pc_db ctx) meta f = Some vc" "list_all (\<lambda>(val, n). (val \<in> literal_text ` set vs) = want) vc"
    by (auto simp: all_match_in_def Let_def split: option.splits)
  then have "dict_of (pc_db ctx) (meta_of ctx c) f = Some vc" by (simp add: meta_of_Some)
  from recorded_dict [OF rec this] obtain t n where "value_text (field_of e f) = Some t" "map_of vc t = Some n"
    "is_string (field_of e f) \<or> is_uint (field_of e f)" by auto
  moreover with d(2) have "(t \<in> literal_text ` set vs) = want" by (auto simp: list_all_iff dest!: map_of_SomeD)
  ultimately show ?thesis using that nn by blast
qed

lemma all_in_sound:
  assumes "describes ctx c evs" "e \<in> set evs" "carried evs f" "list_all (lit_fits evs f) vs"
  shows "c \<in> all_match_in ctx vs f True \<Longrightarrow> QueryEval.eval_in (Some e) f vs"
    and "c \<in> all_match_in ctx vs f False \<Longrightarrow> QueryEval.eval_not_in (Some e) f vs"
proof -
  note ok = describesD(2) [OF assms(1,2), of f]
  assume "c \<in> all_match_in ctx vs f True"
  then obtain t where t: "value_text (field_of e f) = Some t" "is_string (field_of e f) \<or> is_uint (field_of e f)"
    "(t \<in> literal_text ` set vs) = True" "\<not> is_null (field_of e f)"
    by (rule all_match_in_dict [OF assms(1,2,3)])
  then obtain v where v: "v \<in> set vs" "t = literal_text v" by auto
  with assms(4) have "lit_fits evs f v" by (simp add: list_all_iff)
  from lit_fitsD [OF this assms(2)] text_eq [OF ok _ t(4)] t(1,2) v(2)
  have "compare_value (field_of e f) v = Some 0" by blast
  with v(1) t(4) show "QueryEval.eval_in (Some e) f vs"
    by (auto simp: eval_in_def field_of_def Let_def list_ex_iff)
next
  note ok = describesD(2) [OF assms(1,2), of f]
  assume "c \<in> all_match_in ctx vs f False"
  then obtain t where t: "value_text (field_of e f) = Some t" "is_string (field_of e f) \<or> is_uint (field_of e f)"
    "(t \<in> literal_text ` set vs) = False" "\<not> is_null (field_of e f)"
    by (rule all_match_in_dict [OF assms(1,2,3)])
  have "compare_value (field_of e f) v \<noteq> Some 0" if v: "v \<in> set vs" for v
  proof
    assume z: "compare_value (field_of e f) v = Some 0"
    from v assms(4) have "lit_fits evs f v" by (simp add: list_all_iff)
    from lit_fitsD [OF this assms(2)] eq_text [OF ok _ _ z] t v show False by auto
  qed
  with t(4) show "QueryEval.eval_not_in (Some e) f vs"
    by (auto simp: eval_not_in_def field_of_def Let_def list_ex_iff)
qed

section \<open>Soundness\<close>

lemma prune_sound_aux:
  assumes "describes ctx c evs"
  shows "(prunable ctx c evs True q \<longrightarrow> (\<forall>e \<in> set evs. evaluate R q (Some e) \<longrightarrow> c \<in> evaluate_node ctx q))
    \<and> (prunable ctx c evs False q \<longrightarrow> c \<in> evaluate_all_match ctx q \<longrightarrow> (\<forall>e \<in> set evs. evaluate R q (Some e)))"
proof (induction q)
  case (CompareNode f op v)
  then show ?case using may_compare_sound [OF assms] all_compare_sound [OF assms] by auto
next
  case (InNode f vs)
  then show ?case using may_in_sound [OF assms] all_in_sound(1) [OF assms] by auto
next
  case (NotInNode f vs)
  then show ?case using may_not_in_sound [OF assms] all_in_sound(2) [OF assms] by auto
next
  case (MatchNode f op p neg cp)
  then show ?case using describesD(1) [OF assms] by auto
next
  case (NotNode q)
  then show ?case using describesD(1) [OF assms] by auto
qed auto

lemma file_may_sound:
  assumes "describes ctx c evs" "e \<in> set evs"
  shows "prunable ctx c evs True q \<Longrightarrow> evaluate R q (Some e) \<Longrightarrow> file_may_match ctx q"
proof (induction q)
  case (CompareNode f op v)
  show ?case
  proof (cases "op = EQ")
    case True
    from CompareNode have v: "lit_fits evs f v" "\<not> is_null (field_of e f)" "apply_compare op (compare_value (field_of e f) v)"
      by (auto simp: eval_compare_def field_of_def Let_def split: if_splits)
    with True have "compare_value (field_of e f) v = Some 0" by (cases "compare_value (field_of e f) v") auto
    with eq_text [OF describesD(2) [OF assms]] lit_fitsD [OF v(1) assms(2)]
    have "value_text (field_of e f) = Some (literal_text v)" by blast
    with bloom_may_recorded [OF describesD(3) [OF assms v(2)]] True show ?thesis by simp
  qed simp
next
  case (InNode f vs)
  then obtain v where v: "v \<in> set vs" "value_text (field_of e f) = Some (literal_text v)" "\<not> is_null (field_of e f)"
    using eval_in_text [OF assms, of f vs] by auto
  with bloom_may_recorded [OF describesD(3) [OF assms v(3)] v(2)] show ?case by (auto simp: list_ex_iff)
qed auto

end
