(* ===== verification/PrunerFile.thy ===== *)
theory PrunerFile
  imports PrunerSound
begin

text \<open>
  The properties of \<^verbatim>\<open>ChunkPrunerUtility\<close> as a whole: no matching chunk of a described file is dropped
  and a definite miss has evidence; and the inputs on which
  pruning does drop matches (a negated comparison of a missing field, a negative bound).
\<close>

section \<open>Pruning a file\<close>

text \<open>The context that a query is evaluated in, when every read of the index succeeds.\<close>

definition loaded_ctx :: "bloom_math \<Rightarrow> index_db \<Rightarrow> int \<Rightarrow> query_node \<Rightarrow> pruner_ctx option" where
  "loaded_ctx B db fid q =
     (case file_survives_file_blooms B q (new_ctx db fid) of
        None \<Rightarrow> None
      | Some (s, ctx) \<Rightarrow>
          (case (db_dim_rows db fid, db_histograms db fid) of
             (Some rows, Some hists) \<Rightarrow>
               Option.bind (load_index B rows hists ctx) (\<lambda>ctx. if pc_all ctx \<noteq> {} \<and> node_throws ctx q then None else Some ctx)
           | _ \<Rightarrow> None))"

definition same_files :: "pruner_ctx \<Rightarrow> pruner_ctx \<Rightarrow> bool" where
  "same_files a b \<longleftrightarrow> pc_db a = pc_db b \<and> pc_file_blooms a = pc_file_blooms b \<and> (finite (pc_all a) \<longrightarrow> finite (pc_all b))"

lemma same_files_trans: "same_files a b \<Longrightarrow> same_files b c \<Longrightarrow> same_files a c"
  by (simp add: same_files_def)

lemma file_may_match_cong: "same_files a b \<Longrightarrow> file_may_match a q = file_may_match b q"
  by (induction q) (auto simp: same_files_def file_bloom_may_contain_def resolve_hashes_def Let_def split: option.splits)

lemma load_rows_files: "same_files ctx (fold load_row rows ctx)"
proof (induction rows arbitrary: ctx)
  case (Cons r rows)
  have "same_files ctx (load_row r ctx)" by (simp add: same_files_def load_row_def)
  with Cons show ?case by (auto intro: same_files_trans)
qed (simp add: same_files_def)

lemma load_histograms_files: "same_files ctx (fold load_histogram hs ctx)"
proof (induction hs arbitrary: ctx)
  case (Cons h hs)
  have "same_files ctx (load_histogram h ctx)" by (simp add: same_files_def load_histogram_def)
  with Cons show ?case by (auto intro: same_files_trans)
qed (simp add: same_files_def)

lemma load_blooms_of_files: "load_blooms_of B d bs ctx = Some ctx' \<Longrightarrow> same_files ctx ctx'"
  by (induction B d bs ctx rule: load_blooms_of.induct) (auto simp: same_files_def split: sum.splits)

lemma load_chunk_blooms_files: "load_chunk_blooms B ds ctx = Some ctx' \<Longrightarrow> same_files ctx ctx'"
proof (induction B ds ctx rule: load_chunk_blooms.induct)
  case (2 B d bs ds ctx)
  then show ?case by (auto split: option.splits intro: same_files_trans dest: load_blooms_of_files)
qed (simp add: same_files_def)

lemma load_index_files: "load_index B rows hists ctx = Some ctx' \<Longrightarrow> same_files ctx ctx'"
  using same_files_trans [OF load_rows_files [of ctx rows] load_histograms_files [of _ hists]]
  by (auto simp: load_index_def Let_def split: option.splits intro: same_files_trans dest!: load_chunk_blooms_files)

lemma load_file_blooms_all: "load_file_blooms B bs ctx = Some ctx' \<Longrightarrow> pc_all ctx' = pc_all ctx"
  by (induction B bs ctx rule: load_file_blooms.induct) (auto split: sum.splits if_splits)

lemma survives_spec:
  assumes "file_survives_file_blooms B q (new_ctx db fid) = Some (s, ctx)"
  shows "finite (pc_all ctx)" "\<not> s \<Longrightarrow> \<not> file_may_match ctx q"
  using assms load_file_blooms_all
  by (auto simp: file_survives_file_blooms_def new_ctx_def Let_def split: if_splits option.splits)

lemma finite_in_postings: "finite (in_postings ctx vs)"
  by (induction vs) (auto simp: resolve_name_chunks_def split: option.split)

lemma finite_evaluate:
  "finite (pc_all ctx) \<Longrightarrow> finite (evaluate_node ctx q) \<and> finite (evaluate_all_match ctx q)"
proof (induction q)
  case (CompareNode f op v)
  then show ?case
    by (auto simp: may_compare_def all_match_compare_def Let_def resolve_name_chunks_def split: option.splits bool.splits)
next
  case (InNode f vs)
  then show ?case by (auto simp: may_in_def all_match_in_def Let_def finite_in_postings)
next
  case (NotInNode f vs)
  then show ?case by (auto simp: may_not_in_def all_match_in_def Let_def)
qed auto

lemma prune_file_keeps:
  assumes "db_fid db path = Some fid" "0 \<le> fid" "loaded_ctx B db fid q = Some ctx"
    "describes ctx c evs" "prunable ctx c evs True q" "e \<in> set evs" "evaluate R q (Some e)"
  shows "po_may_match (prune_file B db path q) \<and> c \<in> set (po_candidates (prune_file B db path q))"
proof -
  from assms(3) obtain s ctx0 rows hists where s: "file_survives_file_blooms B q (new_ctx db fid) = Some (s, ctx0)"
    and l: "db_dim_rows db fid = Some rows" "db_histograms db fid = Some hists" "load_index B rows hists ctx0 = Some ctx"
      "\<not> (pc_all ctx \<noteq> {} \<and> node_throws ctx q)"
    by (auto simp: loaded_ctx_def bind_eq_Some_conv split: option.splits if_splits)
  note same = load_index_files [OF l(3)]
  have "file_may_match ctx q" by (rule file_may_sound [OF assms(4,6,5,7)])
  then have "s" using survives_spec(2) [OF s] file_may_match_cong [OF same] by blast
  then have out: "prune_file B db path q = prune_candidates q ctx"
    using assms(1,2) s l by (auto simp: prune_file_def prune_fid_def prune_loaded_def)
  have c: "c \<in> evaluate_node ctx q"
    using prune_sound_aux [OF assms(4), of q R] assms(5,6,7) by blast
  have "finite (evaluate_node ctx q)"
    using survives_spec(1) [OF s] same finite_evaluate by (auto simp: same_files_def)
  with c have "c \<in> set (sorted_list_of_set (evaluate_node ctx q))" by simp
  moreover have "pc_all ctx \<noteq> {}" using describesD(1) [OF assms(4,6)] by blast
  ultimately show ?thesis unfolding out prune_candidates_def by (auto simp: Let_def)
qed

text \<open>
  C1 Pruning never drops a matching event: when the index of a file describes the events of a chunk
  and the query is one that pruning is sound for, then a chunk that holds a matching event is among
  the candidates, and the file is reported as a possible match.\<close>

theorem prune_keeps_matches:
  assumes "db_fid db path = Some fid" "0 \<le> fid" "loaded_ctx B db fid q = Some ctx"
    "describes ctx c evs" "prunable ctx c evs True q" "e \<in> set evs" "evaluate R q (Some e)"
  shows "po_may_match (prune_file B db path q) \<and> c \<in> set (po_candidates (prune_file B db path q))"
  by (rule prune_file_keeps [OF assms])

definition ex_row :: dim_row where
  "ex_row = \<lparr>dr_checkpoint = 0, dr_dimension = ''name'', dr_min = ''read'', dr_max = ''read'', dr_type = ''string'',
     dr_counts = Some [(''read'', 1)], dr_compressed = []\<rparr>"
definition ex_dur :: dim_row where
  "ex_dur = \<lparr>dr_checkpoint = 0, dr_dimension = ''dur'', dr_min = ''10'', dr_max = ''10'', dr_type = ''uint'',
     dr_counts = None, dr_compressed = []\<rparr>"
definition ex_db :: index_db where
  "ex_db = \<lparr>db_fid = (\<lambda>p. Some 1), db_dim_rows = (\<lambda>f. Some [ex_row, ex_dur]), db_histograms = (\<lambda>f. Some []),
     db_dimensions = (\<lambda>f. Some []), db_chunk_blooms = (\<lambda>f ds. Some []), db_file_blooms = (\<lambda>f ds. Some []),
     db_hash_of = (\<lambda>t s. Some None), db_name_id = (\<lambda>s. Some None), db_name_files = (\<lambda>s. Some []),
     db_name_chunks = (\<lambda>s f. Some []),
     db_inflate = (\<lambda>d n. None)\<rparr>"
definition ex_read :: json where
  "ex_read = JObject [(''name'', JString ''read''), (''dur'', JNum (num_of_int 10))]"
definition ex_ctx :: pruner_ctx where
  "ex_ctx = \<lparr>pc_db = ex_db, pc_fid = 1, pc_all = {0},
     pc_chunks = Map.empty(0 \<mapsto> Map.empty(''name'' \<mapsto> ex_row, ''dur'' \<mapsto> ex_dur)),
     pc_blooms = Map.empty, pc_hists = Map.empty, pc_file_blooms = Map.empty\<rparr>"
definition ex_prune :: query_node where
  "ex_prune = AndNode (CompareNode ''name'' EQ (LStr ''read'')) (NotNode (CompareNode ''dur'' GT (LI64 20)))"

lemma ex_loaded: "loaded_ctx B ex_db 1 ex_prune = Some ex_ctx"
  by (simp add: loaded_ctx_def file_survives_file_blooms_def ex_prune_def ex_db_def new_ctx_def load_index_def
      load_row_def ex_row_def ex_dur_def meta_of_def ex_ctx_def Let_def file_bloom_throws_def hashes_throw_def HASH_DIMENSIONS_def
      compare_throws_def file_names_throw_def file_contains_name_def chunk_throws_def dict_contains_def dict_of_def row_dict_def)

lemma ex_fields: "field_of ex_read ''name'' = Some (JString ''read'')" "field_of ex_read ''dur'' = Some (JNum (num_of_int 10))"
  by code_simp+

lemma ex_bounds: "row_covers ex_row (Some (JString ''read''))" "row_covers ex_dur (Some (JNum (num_of_int 10)))"
proof -
  have "''10'' = show_nat 10" by code_simp
  then have "stoull ''10'' = Some 10" by (simp add: stoull_show_nat UINT64_MAX_def)
  then show "row_covers ex_dur (Some (JNum (num_of_int 10)))"
    by (simp add: row_covers_def ex_dur_def num_of_int_def INT64_MAX_def)
qed (simp add: row_covers_def ex_row_def)

lemma ex_meta: "meta_of ex_ctx 0 d = (if d = ''dur'' then Some ex_dur else if d = ''name'' then Some ex_row else None)"
  by (simp add: ex_ctx_def meta_of_def)

lemma ex_dict: "row_dict db ex_row = Some [(''read'', 1)]" "row_dict db ex_dur = None"
  by (simp_all add: row_dict_def ex_row_def ex_dur_def)

lemma ex_always: "resolve_hashes ex_ctx d t = []" "bloom_probe ex_ctx d 0 t" "pc_file_blooms ex_ctx d = None"
  "name_posted ex_ctx 0 t" "pc_hists ex_ctx 0 = None"
  by (auto simp: ex_ctx_def ex_db_def resolve_hashes_def bloom_probe_def name_posted_def file_contains_name_def
      split: option.splits)

lemma ex_describes: "describes ex_ctx 0 [ex_read]"
proof -
  have "recorded ex_ctx 0 d (field_of ex_read d)" for d
    using ex_fields ex_bounds unfolding recorded_def by (simp add: ex_meta dict_of_def ex_dict ex_always)
  moreover have "json_ok ex_read" by code_simp
  ultimately show ?thesis by (simp add: describes_def ex_ctx_def)
qed

lemma ex_prunable: "prunable ex_ctx 0 [ex_read] True ex_prune" "evaluate ex_lib ex_prune (Some ex_read)"
proof -
  show "prunable ex_ctx 0 [ex_read] True ex_prune"
    using ex_fields
    by (auto simp: ex_prune_def lit_fits_def typed_def carried_def range_ok_def range_fits_def num_of_int_def
        is_range_def ex_ctx_def meta_of_def ex_dur_def ex_row_def INT64_MAX_def)
  show "evaluate ex_lib ex_prune (Some ex_read)" by code_simp
qed

theorem prune_keeps_matches_witness:
  "0 \<in> set (po_candidates (prune_file ex_math ex_db ''trace.pfw'' ex_prune))"
  using prune_keeps_matches [OF _ _ ex_loaded ex_describes ex_prunable(1) _ ex_prunable(2), where path = "''trace.pfw''"]
  by (simp add: ex_db_def)

lemma ex_stod: "stod ''10'' = Some 10"
proof -
  have d: "is_digit (CHR ''1'')" "is_digit (CHR ''0'')" "\<not> is_space (CHR ''1'')"
    by (simp_all add: is_digit_def is_space_def code_of_def)
  have n: "nat_of_digits ''10'' = 10" by (simp add: nat_of_digits_def digit_val_def code_of_def)
  have b: "bit_len 10 = 4" "bit_len (Suc 0) = 1" by (simp_all add: bit_len.simps)
  have "round_f64 10 1 = Some 10"
    by (simp add: round_f64_def b scale_num_def scale_den_def rhe_div_def)
  then show ?thesis by (simp add: stod_def d n Let_def)
qed

lemma prune_file_loaded:
  assumes "db_fid db path = Some fid" "0 \<le> fid" "loaded_ctx B db fid q = Some ctx"
  shows "prune_file B db path q \<in> {definite_miss, prune_candidates q ctx}"
  using assms
  by (auto simp: prune_file_def prune_fid_def loaded_ctx_def prune_loaded_def bind_eq_Some_conv split: option.splits bool.splits prod.splits if_splits)


text \<open>
  C20 A file is reported as a definite miss only on evidence. The file was found, the filters of its fields
  were read and parsed, and no read threw while they were probed; then either the filters ruled it out, or
  the rows, histograms, dimensions and chunk filters were read and parsed too, there was a chunk, no look-up
  of a name or hash threw during the evaluation, and it ruled out every chunk. Whatever throws is answered
  with "may match". A stored dictionary that does not inflate throws nothing: it counts as an empty one, and
  may be the evidence (\<open>corrupt_dictionary_is_evidence\<close>).\<close>

theorem prune_miss_has_evidence:
  assumes "\<not> po_may_match (prune_file B db path q)"
  shows "\<exists>fid s ctx. db_fid db path = Some fid \<and> 0 \<le> fid
    \<and> file_survives_file_blooms B q (new_ctx db fid) = Some (s, ctx)
    \<and> (\<not> s \<or> (\<exists>rows hists ctx'. db_dim_rows db fid = Some rows \<and> db_histograms db fid = Some hists
                \<and> load_index B rows hists ctx = Some ctx' \<and> pc_all ctx' \<noteq> {}
                \<and> \<not> node_throws ctx' q \<and> evaluate_node ctx' q = {}))"
proof -
  obtain fid out where f: "db_fid db path = Some fid" "0 \<le> fid" "prune_fid B db fid q = Some out" "\<not> po_may_match out"
    using assms by (auto simp: prune_file_def assume_match_def split: option.splits if_splits)
  then obtain s ctx where s: "file_survives_file_blooms B q (new_ctx db fid) = Some (s, ctx)"
    by (auto simp: prune_fid_def split: option.splits)
  show ?thesis
  proof (cases s)
    case True
    with f(3,4) s obtain rows hists ctx' where l: "db_dim_rows db fid = Some rows" "db_histograms db fid = Some hists"
      "load_index B rows hists ctx = Some ctx'" "prune_loaded q ctx' = Some out"
      by (auto simp: prune_fid_def bind_eq_Some_conv split: option.splits)
    have fin: "finite (evaluate_node ctx' q)"
      using survives_spec(1) [OF s] load_index_files [OF l(3)] finite_evaluate by (auto simp: same_files_def)
    from l(4) f(4) have "pc_all ctx' \<noteq> {}" "\<not> node_throws ctx' q" "sorted_list_of_set (evaluate_node ctx' q) = []"
      by (auto simp: prune_loaded_def prune_candidates_def assume_match_def Let_def split: if_splits)
    with fin l f s show ?thesis by auto
  qed (use f s in auto)
qed

theorem prune_miss_has_evidence_witness:
  "evaluate_node ex_ctx (CompareNode ''name'' EQ (LStr ''write'')) = {}"
proof -
  have l: "loaded_ctx B ex_db 1 (CompareNode ''name'' EQ (LStr ''write'')) = Some ex_ctx" for B
    by (simp add: loaded_ctx_def file_survives_file_blooms_def ex_db_def new_ctx_def load_index_def
        load_row_def ex_row_def ex_dur_def meta_of_def ex_ctx_def Let_def file_bloom_throws_def hashes_throw_def HASH_DIMENSIONS_def
        compare_throws_def file_names_throw_def file_contains_name_def chunk_throws_def dict_contains_def dict_of_def row_dict_def)
  have e: "evaluate_node ex_ctx (CompareNode ''name'' EQ (LStr ''write'')) = {}"
    by (simp add: may_compare_def chunk_may_compare_def ex_ctx_def meta_of_def dict_contains_def dict_of_def row_dict_def
        ex_row_def file_contains_name_def ex_db_def Let_def)
  have "\<not> po_may_match (prune_file ex_math ex_db ''t'' (CompareNode ''name'' EQ (LStr ''write'')))"
  proof -
    have fid: "db_fid ex_db ''t'' = Some 1" "pc_all ex_ctx = {0}" by (simp_all add: ex_db_def ex_ctx_def)
    then have "prune_file ex_math ex_db ''t'' (CompareNode ''name'' EQ (LStr ''write''))
        \<in> {definite_miss, prune_candidates (CompareNode ''name'' EQ (LStr ''write'')) ex_ctx}"
      by (intro prune_file_loaded [OF _ _ l]) simp_all
    moreover have "\<not> po_may_match (prune_candidates (CompareNode ''name'' EQ (LStr ''write'')) ex_ctx)"
      unfolding prune_candidates_def e fid(2) by simp
    ultimately show ?thesis by (auto simp: definite_miss_def)
  qed
  from prune_miss_has_evidence [OF this] e show ?thesis by simp
qed

text \<open>A dictionary blob that does not inflate: the chunk holds an event named \<^verbatim>\<open>read\<close>, and is dropped.\<close>

definition ex_corrupt :: index_db where
  "ex_corrupt = ex_db\<lparr>db_dim_rows := (\<lambda>f. Some [ex_row\<lparr>dr_counts := None, dr_compressed := [5, 0, 0, 0, 1]\<rparr>])\<rparr>"

lemma corrupt_dictionary_is_evidence: "prune_fid B ex_corrupt 1 (CompareNode ''name'' EQ (LStr ''read''))
    = Some \<lparr>po_may_match = False, po_candidates = [], po_total = 1, po_success = True\<rparr>"
  by (simp add: prune_fid_def file_survives_file_blooms_def new_ctx_def load_index_def load_row_def prune_loaded_def
      prune_candidates_def compare_throws_def chunk_throws_def file_names_throw_def file_contains_name_def may_compare_def
      chunk_may_compare_def dict_contains_def dict_of_def row_dict_def meta_of_def decompress_value_counts_def Let_def
      ex_corrupt_def ex_db_def ex_row_def file_bloom_throws_def file_bloom_may_contain_def)

section \<open>Where pruning is not sound\<close>

definition ex_bare :: json where "ex_bare = JObject [(''dur'', JNum (num_of_int 10))]"

text \<open>
  The field must be present under a negation: the index describes a chunk with an event that has
  no \<^verbatim>\<open>name\<close>; the evaluator counts that event as a match of \<open>not (name == "read")\<close>, since a
  comparison with a missing field is false, but the pruner drops the chunk, since every recorded
  name is \<^verbatim>\<open>read\<close>.\<close>

theorem negation_of_missing_field_dropped:
  "describes ex_ctx 0 [ex_read, ex_bare]
    \<and> evaluate R (NotNode (CompareNode ''name'' EQ (LStr ''read''))) (Some ex_bare)
    \<and> evaluate_node ex_ctx (NotNode (CompareNode ''name'' EQ (LStr ''read''))) = {}"
proof (intro conjI)
  have f: "field_of ex_bare ''name'' = None" "field_of ex_bare ''dur'' = Some (JNum (num_of_int 10))" by code_simp+


  have "recorded ex_ctx 0 d (field_of ex_bare d)" if "\<not> is_null (field_of ex_bare d)" for d
    using that ex_bounds f ex_always unfolding recorded_def by (auto simp: ex_meta dict_of_def ex_dict)
  moreover have "json_ok ex_bare" by code_simp
  ultimately show "describes ex_ctx 0 [ex_read, ex_bare]"
    using ex_describes by (simp add: describes_def)
  show "evaluate R (NotNode (CompareNode ''name'' EQ (LStr ''read''))) (Some ex_bare)"
    using f(1) by (simp add: eval_compare_def field_of_def)
  show "evaluate_node ex_ctx (NotNode (CompareNode ''name'' EQ (LStr ''read''))) = {}"
    by (auto simp: all_match_compare_def chunk_all_compare_def ex_ctx_def dict_of_def row_dict_def ex_row_def)
qed

text \<open>
  A negative bound on an unsigned dimension drops matching chunks: the duration 10 is greater than
  \<open>-5\<close>, but the pruner reads the literal with \<^verbatim>\<open>std::stoull\<close>, which negates modulo \<open>2 ^ 64\<close>.\<close>

theorem negative_bound_dropped:
  "describes ex_ctx 0 [ex_read]
    \<and> evaluate R (CompareNode ''dur'' GT (LI64 (- 5))) (Some ex_read)
    \<and> evaluate_node ex_ctx (CompareNode ''dur'' GT (LI64 (- 5))) = {}"
proof (intro conjI)
  show "describes ex_ctx 0 [ex_read]" by (rule ex_describes)
  show "evaluate R (CompareNode ''dur'' GT (LI64 (- 5))) (Some ex_read)"
    using ex_fields(2) by (simp add: eval_compare_def field_of_def num_of_int_def three_way_def INT64_MAX_def)
  have s: "strto_split (show_int (- 5)) = (True, show_nat 5)" by (simp add: strto_split_show_int)
  have "''10'' = show_nat 10" by code_simp
  then have "compare_values ''10'' (show_int (- 5)) ''uint'' = - 1"
    by (simp add: compare_values_def compare_parsed_def stoull_show_nat UINT64_MAX_def three_way_def)
       (simp add: stoull_def s UINT64_MAX_def three_way_def)
  with ex_stod show "evaluate_node ex_ctx (CompareNode ''dur'' GT (LI64 (- 5))) = {}"
    by (simp add: may_compare_def chunk_may_compare_def range_may_match_def ex_ctx_def meta_of_def ex_dur_def
        corrupt_bounds_def Let_def)
qed

end
