(* ===== verification/Codec.thy ===== *)
theory Codec
  imports Bytes "HOL-Library.Sublist"
begin

text \<open>
  Binary encodings of the index: the big-endian integers of \<^verbatim>\<open>core/rocksdb/key_codec.cpp\<close>, the
  writers and the reader of \<^verbatim>\<open>utilities/common/serialization/binary_codec.h\<close> and those of
  \<^verbatim>\<open>utilities/indexer/internal/payload_codec.h\<close>.

  A reader position is the rest of the buffer; \<open>None\<close> is the exception for truncated data. A
  varint of more than ten bytes, which no writer produces, shifts by 64 or more: C++ leaves that
  undefined, here the shifted bits are lost. The locale \<open>prefix_codec\<close> is the contract of an encoder and its reader, from which the round trips
  of lists, pairs and whole records follow, and with them that no encoding is a proper prefix of
  another.
\<close>

section \<open>Writers\<close>

text \<open>
  \<^verbatim>\<open>for (shift = 8*(n-1); shift >= 0; shift -= 8) push_back((v >> shift) & 0xFF)\<close>; the unrolled
  \<^verbatim>\<open>put_be16\<close>, \<^verbatim>\<open>put_be32\<close> and \<^verbatim>\<open>put_be64\<close> push the same bytes.
\<close>

definition put_be :: "nat \<Rightarrow> w64 \<Rightarrow> bytes" where
  "put_be n v = map (\<lambda>i. ucast (drop_bit (8 * (n - 1 - i)) v AND 0xFF)) [0..<n]"

definition put_u8 :: "w8 \<Rightarrow> bytes" where "put_u8 v = [v]"
definition put_be16 :: "16 word \<Rightarrow> bytes" where "put_be16 v = put_be 2 (ucast v)"
definition put_be32 :: "w32 \<Rightarrow> bytes" where "put_be32 v = put_be 4 (ucast v)"
definition put_be64 :: "w64 \<Rightarrow> bytes" where "put_be64 v = put_be 8 v"

text \<open>The length of a string is cut to 16 bits, its bytes are not.\<close>

definition put_str :: "bytes \<Rightarrow> bytes" where "put_str s = put_be16 (of_nat (length s)) @ s"
definition put_blob :: "bytes \<Rightarrow> bytes" where "put_blob s = put_be32 (of_nat (length s)) @ s"

function put_varint :: "w64 \<Rightarrow> bytes" where
  "put_varint v =
     (if 0x80 \<le> v then ucast (v OR 0x80) # put_varint (drop_bit 7 v) else [ucast v])"
  by pat_completeness auto
termination
proof (relation "measure unat", goal_cases)
  case (2 v)
  then have "0 < unat v" by (auto simp: word_le_nat_alt)
  moreover have "unat (drop_bit 7 v) = unat v div 2 ^ 7" by (simp only: unat_drop_bit_eq) (simp only: drop_bit_eq_div)
  ultimately show ?case by simp
qed simp

declare put_varint.simps [simp del]

section \<open>The reader\<close>

definition take_bytes :: "nat \<Rightarrow> bytes \<Rightarrow> (bytes \<times> bytes) option" where
  "take_bytes n bs = (if length bs < n then None else Some (take n bs, drop n bs))"

text \<open>\<^verbatim>\<open>v = (v << 8) | byte\<close> over the bytes taken.\<close>

definition be_value :: "bytes \<Rightarrow> w64" where
  "be_value bs = foldl (\<lambda>v b. push_bit 8 v OR ucast b) 0 bs"

definition get_be :: "nat \<Rightarrow> bytes \<Rightarrow> (w64 \<times> bytes) option" where
  "get_be n bs = map_option (\<lambda>(s, r). (be_value s, r)) (take_bytes n bs)"

definition get_u8 :: "bytes \<Rightarrow> (w8 \<times> bytes) option" where
  "get_u8 bs = map_option (\<lambda>(s, r). (hd s, r)) (take_bytes 1 bs)"
definition get_be16 :: "bytes \<Rightarrow> (16 word \<times> bytes) option" where
  "get_be16 bs = map_option (\<lambda>(v, r). (ucast v, r)) (get_be 2 bs)"
definition get_be32 :: "bytes \<Rightarrow> (w32 \<times> bytes) option" where
  "get_be32 bs = map_option (\<lambda>(v, r). (ucast v, r)) (get_be 4 bs)"
definition get_be64 :: "bytes \<Rightarrow> (w64 \<times> bytes) option" where "get_be64 bs = get_be 8 bs"

definition get_str :: "bytes \<Rightarrow> (bytes \<times> bytes) option" where
  "get_str bs = (case get_be16 bs of None \<Rightarrow> None | Some (n, r) \<Rightarrow> take_bytes (unat n) r)"
definition get_blob :: "bytes \<Rightarrow> (bytes \<times> bytes) option" where
  "get_blob bs = (case get_be32 bs of None \<Rightarrow> None | Some (n, r) \<Rightarrow> take_bytes (unat n) r)"

definition skip_bytes :: "nat \<Rightarrow> bytes \<Rightarrow> bytes option" where
  "skip_bytes n bs = map_option snd (take_bytes n bs)"
definition skip_blob :: "bytes \<Rightarrow> bytes option" where
  "skip_blob bs = (case get_be32 bs of None \<Rightarrow> None | Some (n, r) \<Rightarrow> skip_bytes (unat n) r)"

fun varint_from :: "w64 \<Rightarrow> nat \<Rightarrow> bytes \<Rightarrow> (w64 \<times> bytes) option" where
  "varint_from v sh [] = None"
| "varint_from v sh (b # r) =
     (let v' = v OR push_bit sh (ucast (b AND 0x7F))
      in if b AND 0x80 = 0 then Some (v', r) else varint_from v' (sh + 7) r)"

definition get_varint :: "bytes \<Rightarrow> (w64 \<times> bytes) option" where
  "get_varint bs = varint_from 0 0 bs"

text \<open>\<^verbatim>\<open>for (i = 0; i < n; ++i)\<close> around a reader.\<close>

fun get_many :: "(bytes \<Rightarrow> ('a \<times> bytes) option) \<Rightarrow> nat \<Rightarrow> bytes \<Rightarrow> ('a list \<times> bytes) option" where
  "get_many get 0 bs = Some ([], bs)"
| "get_many get (Suc n) bs =
     (case get bs of None \<Rightarrow> None
      | Some (x, r) \<Rightarrow> map_option (\<lambda>(xs, r'). (x # xs, r')) (get_many get n r))"

definition get_pair ::
    "(bytes \<Rightarrow> ('a \<times> bytes) option) \<Rightarrow> (bytes \<Rightarrow> ('b \<times> bytes) option) \<Rightarrow> bytes
       \<Rightarrow> (('a \<times> 'b) \<times> bytes) option" where
  "get_pair f g bs =
     (case f bs of None \<Rightarrow> None
      | Some (a, r) \<Rightarrow> map_option (\<lambda>(b, r'). ((a, b), r')) (g r))"

section \<open>The contract\<close>

locale prefix_codec =
  fixes put :: "'a \<Rightarrow> bytes" and get :: "bytes \<Rightarrow> ('a \<times> bytes) option" and ok :: "'a \<Rightarrow> bool"
  assumes get_put: "ok a \<Longrightarrow> get (put a @ r) = Some (a, r)"
begin

lemma prefix_free: "ok a \<Longrightarrow> ok b \<Longrightarrow> put a @ r = put b @ s \<longleftrightarrow> a = b \<and> r = s"
  by (metis get_put option.inject prod.inject)

lemma put_inj: "inj_on put (Collect ok)"
  by (rule inj_onI) (metis append_Nil2 mem_Collect_eq prefix_free)

lemma not_proper_prefix: "ok a \<Longrightarrow> ok b \<Longrightarrow> prefix (put a) (put b) \<Longrightarrow> a = b"
  by (metis append_Nil2 prefix_def prefix_free)

lemma many: "\<forall>a \<in> set xs. ok a \<Longrightarrow> get_many get (length xs) (concat (map put xs) @ r) = Some (xs, r)"
  by (induction xs) (auto simp: get_put)

lemma many_inj:
  assumes "\<forall>a \<in> set xs. ok a" "\<forall>a \<in> set ys. ok a" "length xs = length ys"
    and "concat (map put xs) @ r = concat (map put ys) @ s"
  shows "xs = ys \<and> r = s"
proof -
  have "get_many get (length ys) (concat (map put ys) @ s) = Some (xs, r)"
    using many [OF assms(1), of r] unfolding assms(3,4) .
  then show ?thesis using many [OF assms(2), of s] by (metis option.inject prod.inject)
qed

end

section \<open>Integers\<close>

lemma length_put_be [simp]: "length (put_be n v) = n"
  by (simp add: put_be_def)

lemma length_put_be_n [simp]:
  "length (put_be16 a) = 2" "length (put_be32 b) = 4" "length (put_be64 c) = 8"
  by (simp_all add: put_be16_def put_be32_def put_be64_def)

lemma put_be_rev: "put_be n v = rev (write_le n v)"
  by (rule nth_equalityI) (auto simp: put_be_def write_le_def rev_nth ac_simps)

lemma be_value_rev: "be_value (rev bs) = read_le bs"
  by (induction bs) (simp_all add: be_value_def ac_simps)

lemma be_value_put_be: "be_value (put_be n v) = take_bit (8 * n) v"
  by (simp add: put_be_rev be_value_rev read_write_le)

lemma get_be_put [codec_simps]: "get_be n (put_be n v @ r) = Some (take_bit (8 * n) v, r)"
  by (simp add: get_be_def take_bytes_def be_value_put_be)

lemma ucast_take_16: "ucast (take_bit 16 (ucast (v :: 16 word) :: w64)) = v"
  by (rule bit_word_eqI) (simp add: bit_ucast_iff bit_take_bit_iff)

lemma ucast_take_32: "ucast (take_bit 32 (ucast (v :: w32) :: w64)) = v"
  by (rule bit_word_eqI) (simp add: bit_ucast_iff bit_take_bit_iff)

lemma take_bit_64: "take_bit 64 (v :: w64) = v"
  by (rule bit_word_eqI) (simp add: bit_take_bit_iff)

lemmas ucast_take_ucast = ucast_take_16 ucast_take_32 take_bit_64

interpretation u8: prefix_codec put_u8 get_u8 "\<lambda>_. True"
  by unfold_locales (simp add: put_u8_def get_u8_def take_bytes_def)

interpretation be16: prefix_codec put_be16 get_be16 "\<lambda>_. True"
  by unfold_locales (simp add: put_be16_def get_be16_def get_be_put ucast_take_ucast)

interpretation be32: prefix_codec put_be32 get_be32 "\<lambda>_. True"
  by unfold_locales (simp add: put_be32_def get_be32_def get_be_put ucast_take_ucast)

interpretation be64: prefix_codec put_be64 get_be64 "\<lambda>_. True"
  by unfold_locales (simp add: put_be64_def get_be64_def get_be_put ucast_take_ucast)

interpretation str: prefix_codec put_str get_str "\<lambda>s. length s < 2 ^ 16"
  by unfold_locales
     (simp add: put_str_def get_str_def be16.get_put take_bytes_def unat_of_nat take_bit_nat_eq_self)

interpretation blob: prefix_codec put_blob get_blob "\<lambda>s. length s < 2 ^ 32"
  by unfold_locales
     (simp add: put_blob_def get_blob_def be32.get_put take_bytes_def unat_of_nat take_bit_nat_eq_self)

section \<open>Variable-length integers\<close>

lemma bit_7F: "bit (0x7F :: w8) n \<longleftrightarrow> n < 7" "bit (0x80 :: w8) n \<longleftrightarrow> n = 7" "bit (0x80 :: w64) n \<longleftrightarrow> n = 7"
proof -
  have "(0x7F :: w8) = Bit_Operations.mask 7" by (simp add: mask_eq_exp_minus_1)
  then show "bit (0x7F :: w8) n \<longleftrightarrow> n < 7" by (auto simp only: bit_mask_iff) simp_all
  have "(0x80 :: w8) = push_bit 7 1" "(0x80 :: w64) = push_bit 7 1" by simp_all
  then show "bit (0x80 :: w8) n \<longleftrightarrow> n = 7" "bit (0x80 :: w64) n \<longleftrightarrow> n = 7"
    by (auto simp only: bit_push_bit_iff bit_1_iff) simp_all
qed

lemma small_bits: "v < 0x80 \<Longrightarrow> bit (v :: w64) n \<Longrightarrow> n < 7"
proof (rule ccontr)
  assume "v < 0x80" "bit v n" "\<not> n < 7"
  then have "unat v < 2 ^ 7" by (simp add: word_less_nat_alt)
  also have "(2 :: nat) ^ 7 \<le> 2 ^ n" using \<open>\<not> n < 7\<close> by (intro power_increasing) auto
  finally have "\<not> bit (unat v) n" by (simp add: bit_iff_odd)
  moreover have "bit (unat v) n" using \<open>bit v n\<close> by (simp add: bit_unsigned_iff)
  ultimately show False by simp
qed

lemma put_varint_last: "v < 0x80 \<Longrightarrow> ucast (ucast v AND (0x7F :: w8)) = (v :: w64) \<and> ucast v AND (0x80 :: w8) = 0"
proof (rule conjI)
  assume v: "v < 0x80"
  show "ucast (ucast v AND (0x7F :: w8)) = v"
    using small_bits [OF v]
    by (intro bit_word_eqI) (simp only: bit_ucast_iff bit_and_iff bit_7F, force)
  show "ucast v AND (0x80 :: w8) = 0"
    using small_bits [OF v] by (intro bit_word_eqI) (auto simp only: bit_ucast_iff bit_and_iff bit_7F bit_0_eq bot_apply bot_bool_def)
qed

lemma put_varint_more: "ucast ((v :: w64) OR 0x80) AND (0x80 :: w8) \<noteq> 0"
proof
  assume "ucast (v OR 0x80) AND (0x80 :: w8) = 0"
  then have "\<not> bit (ucast (v OR 0x80) AND (0x80 :: w8)) 7" by (metis bit_0_eq bot_apply bot_bool_def)
  then show False by (simp only: bit_ucast_iff bit_and_iff bit_or_iff bit_7F) simp
qed

lemma varint_split:
  "push_bit sh (ucast (ucast (v OR 0x80) AND (0x7F :: w8))) OR push_bit (sh + 7) (drop_bit 7 v) = push_bit sh (v :: w64)"
proof (rule bit_word_eqI)
  fix n assume n: "n < LENGTH(64)"
  have "bit (ucast (ucast (v OR 0x80) AND (0x7F :: w8)) :: w64) m \<longleftrightarrow> m < 7 \<and> bit v m" for m
    by (simp only: bit_ucast_iff bit_and_iff bit_or_iff bit_7F) auto
  then have "bit (push_bit sh (ucast (ucast (v OR 0x80) AND (0x7F :: w8))) OR push_bit (sh + 7) (drop_bit 7 v)) n
      \<longleftrightarrow> sh \<le> n \<and> (n - sh < 7 \<and> bit v (n - sh)) \<or> sh + 7 \<le> n \<and> bit v (7 + (n - (sh + 7)))"
    using n by (simp only: bit_or_iff bit_push_bit_iff bit_drop_bit_eq o_def) simp
  also have "\<dots> \<longleftrightarrow> sh \<le> n \<and> bit v (n - sh)"
  proof (cases "sh + 7 \<le> n")
    case True
    then have "7 + (n - (sh + 7)) = n - sh" by simp
    with True show ?thesis by auto
  qed auto
  finally show "bit (push_bit sh (ucast (ucast (v OR 0x80) AND (0x7F :: w8))) OR push_bit (sh + 7) (drop_bit 7 v)) n
      = bit (push_bit sh v) n" using n by (simp only: bit_push_bit_iff) simp
qed

lemma varint_from_put: "varint_from v0 sh (put_varint v @ r) = Some (v0 OR push_bit sh v, r)"
proof (induction v arbitrary: v0 sh rule: put_varint.induct)
  case (1 v)
  show ?case
  proof (cases "0x80 \<le> v")
    case True
    have "varint_from v0 sh (put_varint v @ r)
        = varint_from (v0 OR push_bit sh (ucast (ucast (v OR 0x80) AND (0x7F :: w8)))) (sh + 7) (put_varint (drop_bit 7 v) @ r)"
      using put_varint_more [of v] by (simp only: put_varint.simps [of v] True if_True append_Cons varint_from.simps Let_def if_False)
    then show ?thesis unfolding 1 [OF True] or.assoc varint_split .
  next
    case False
    then have "put_varint v = [ucast v]" by (subst put_varint.simps) simp
    with put_varint_last [of v] False show ?thesis by (simp add: Let_def not_le)
  qed
qed

interpretation varint: prefix_codec put_varint get_varint "\<lambda>_. True"
  by unfold_locales (simp add: get_varint_def varint_from_put)

lemma pair_codec:
  assumes "prefix_codec p f a" "prefix_codec q g b"
  shows "prefix_codec (\<lambda>(x, y). p x @ q y) (get_pair f g) (\<lambda>(x, y). a x \<and> b y)"
  using assms by (auto simp: prefix_codec_def get_pair_def)

section \<open>Keys sort like numbers\<close>

text \<open>The store orders keys byte by byte, which is \<open><\<close> on lists of bytes.\<close>

fun be_nat :: "bytes \<Rightarrow> nat" where
  "be_nat [] = 0"
| "be_nat (b # bs) = unat b * 256 ^ length bs + be_nat bs"

lemma be_nat_less: "be_nat bs < 256 ^ length bs"
proof (induction bs)
  case (Cons b bs)
  have "unat b * 256 ^ length bs + be_nat bs < (unat b + 1) * 256 ^ length bs"
    using Cons.IH by (simp add: algebra_simps)
  also have "\<dots> \<le> 256 * 256 ^ length bs" using unsigned_less [of b, where 'a = nat] by (intro mult_right_mono) auto
  finally show ?case by simp
qed simp

lemma be_nat_mono: "length xs = length ys \<Longrightarrow> xs < ys \<longleftrightarrow> be_nat xs < be_nat ys"
proof (induction xs ys rule: list_induct2)
  case (Cons x xs y ys)
  let ?k = "256 ^ length ys :: nat"
  note b = be_nat_less [of xs] be_nat_less [of ys] Cons.hyps
  consider "x < y" | "x = y" | "y < x" by (rule linorder_cases)
  then show ?case
  proof cases
    case 1
    then have "Suc (unat x) * ?k \<le> unat y * ?k" by (intro mult_right_mono) (auto simp: word_less_nat_alt)
    with 1 b show ?thesis by (simp add: Cons_less_Cons)
  next
    case 2
    with Cons show ?thesis by (simp add: Cons_less_Cons)
  next
    case 3
    then have "Suc (unat y) * ?k \<le> unat x * ?k" by (intro mult_right_mono) (auto simp: word_less_nat_alt)
    with 3 b show ?thesis by (auto simp: Cons_less_Cons)
  qed
qed simp

lemma put_be_Suc: "put_be (Suc n) v = ucast (drop_bit (8 * n) v AND 0xFF) # put_be n v"
proof -
  have "map (\<lambda>i. ucast (drop_bit (8 * (n - Suc i)) v AND 0xFF) :: w8) [0..<n]
      = map (\<lambda>i. ucast (drop_bit (8 * (n - 1 - i)) v AND 0xFF)) [0..<n]" by simp
  moreover have "[0..<Suc n] = 0 # map Suc [0..<n]" by (simp add: upt_conv_Cons map_Suc_upt del: upt_Suc)
  ultimately show ?thesis by (simp add: put_be_def o_def del: upt_Suc)
qed

lemma be_nat_put_be: "be_nat (put_be n v) = unat v mod 256 ^ n"
proof (induction n)
  case (Suc n)
  have "ucast (drop_bit (8 * n) v AND 0xFF) = (ucast (drop_bit (8 * n) v) :: w8)"
    by (rule bit_word_eqI) (simp only: bit_ucast_iff bit_and_iff bit_0xFF, simp)
  then have "unat (ucast (drop_bit (8 * n) v AND 0xFF) :: w8) = unat v div 256 ^ n mod 256"
    by (simp only: unsigned_ucast_eq unat_drop_bit_eq) (simp add: drop_bit_eq_div take_bit_eq_mod power_mult)
  moreover have "unat v mod 256 ^ Suc n = (unat v div 256 ^ n mod 256) * 256 ^ n + unat v mod 256 ^ n"
    using mod_mult2_eq [of "unat v" "256 ^ n" 256] by (simp add: mult.commute)
  ultimately show ?case by (simp add: put_be_Suc Suc.IH)
qed (simp add: put_be_def)

lemma be64_less: "put_be64 a < put_be64 b \<longleftrightarrow> a < b"
proof -
  have "unat v < 256 ^ 8" for v :: w64 using unsigned_less [of v, where 'a = nat] by simp
  then show ?thesis
    by (simp add: put_be64_def be_nat_mono be_nat_put_be word_less_nat_alt)
qed

lemma be32_less: "put_be32 a < put_be32 b \<longleftrightarrow> a < b"
proof -
  have "unat (ucast v :: w64) = unat v" for v :: w32
  proof -
    have "unat v < 2 ^ LENGTH(64)" using unsigned_less [of v, where 'a = nat] by simp
    then show ?thesis unfolding unsigned_ucast_eq by (rule take_bit_nat_eq_self)
  qed
  moreover have "unat v < 256 ^ 4" for v :: w32 using unsigned_less [of v, where 'a = nat] by simp
  ultimately show ?thesis
    by (simp add: put_be32_def be_nat_mono be_nat_put_be word_less_nat_alt)
qed

lemma append_less: "length xs = length ys \<Longrightarrow> xs @ a < ys @ b \<longleftrightarrow> xs < ys \<or> xs = ys \<and> a < (b :: bytes)"
  by (induction xs ys rule: list_induct2) (auto simp: Cons_less_Cons)

end
