(* ===== verification/IndexKeys.thy ===== *)
theory IndexKeys
  imports Codec
begin

text \<open>
  Keys and values of the index database: \<^verbatim>\<open>indexer/internal/index_encoding.cpp\<close>, the registry codec
  \<^verbatim>\<open>internal/registry_codec.h\<close> and the decoders of \<^verbatim>\<open>indexer/index_database.cpp\<close>.

  A file id is the C++ \<open>int\<close> as its 32 bits (\<open>sint\<close> is its value), a dimension or a path is its
  bytes. A decoder's \<open>None\<close> is the \<^verbatim>\<open>IndexerError\<close> it throws. The locale \<open>file_keys\<close> is what the scans
  and the deletion of a file rely on: different entries have different keys, and the keys of a file
  are those that start with its prefix.
\<close>

type_synonym file_id = w32

section \<open>Keys\<close>

definition prefix_for_file :: "file_id \<Rightarrow> bytes" where "prefix_for_file f = put_be32 f"
definition metadata_key :: "file_id \<Rightarrow> bytes" where "metadata_key f = prefix_for_file f"

definition gzip_member_prefix :: "file_id \<Rightarrow> bytes" where
  "gzip_member_prefix f = text_bytes ''m|'' @ put_be32 f"
definition gzip_member_key :: "file_id \<Rightarrow> w64 \<Rightarrow> bytes" where
  "gzip_member_key f i = gzip_member_prefix f @ put_be64 i"

definition make_dimension_key :: "file_id \<Rightarrow> bytes \<Rightarrow> bytes" where
  "make_dimension_key f dm = text_bytes ''d|'' @ put_be32 f @ dm"
definition make_column_key :: "file_id \<Rightarrow> bytes \<Rightarrow> bytes" where
  "make_column_key f col = text_bytes ''c|'' @ put_be32 f @ col"

definition chunk_bloom_key :: "file_id \<Rightarrow> bytes \<Rightarrow> w64 \<Rightarrow> bytes" where
  "chunk_bloom_key f dm i = prefix_for_file f @ dm @ [0] @ put_be64 i"
definition file_bloom_key :: "file_id \<Rightarrow> bytes \<Rightarrow> bytes" where
  "file_bloom_key f dm = prefix_for_file f @ dm"
definition chunk_stats_key :: "file_id \<Rightarrow> w64 \<Rightarrow> bytes" where
  "chunk_stats_key f i = prefix_for_file f @ put_be64 i"
definition chunk_dim_stats_key :: "file_id \<Rightarrow> w64 \<Rightarrow> bytes \<Rightarrow> bytes" where
  "chunk_dim_stats_key f i dm = prefix_for_file f @ put_be64 i @ dm"

text \<open>The summaries of a file: \<^verbatim>\<open>file_scalar_stats_key\<close>, \<^verbatim>\<open>file_category_counts_key\<close>,
  \<^verbatim>\<open>file_pid_tid_counts_key\<close> and \<^verbatim>\<open>file_name_counts_key\<close> are its prefix.\<close>

definition file_summary_key :: "file_id \<Rightarrow> bytes" where "file_summary_key f = prefix_for_file f"

definition name_lookup_key :: "bytes \<Rightarrow> bytes" where "name_lookup_key name = text_bytes ''s|'' @ name"
definition name_reverse_key :: "w64 \<Rightarrow> bytes" where "name_reverse_key nid = text_bytes ''i|'' @ put_be64 nid"
definition name_file_posting_key :: "w64 \<Rightarrow> file_id \<Rightarrow> bytes" where
  "name_file_posting_key nid f = text_bytes ''n|'' @ put_be64 nid @ put_be32 f"
definition name_file_owner_prefix :: "file_id \<Rightarrow> bytes" where
  "name_file_owner_prefix f = text_bytes ''o|'' @ put_be32 f"
definition name_file_owner_key :: "file_id \<Rightarrow> w64 \<Rightarrow> bytes" where
  "name_file_owner_key f nid = name_file_owner_prefix f @ put_be64 nid"
definition name_chunk_posting_key :: "w64 \<Rightarrow> file_id \<Rightarrow> w64 \<Rightarrow> bytes" where
  "name_chunk_posting_key nid f i = text_bytes ''n|'' @ put_be64 nid @ put_be32 f @ put_be64 i"
definition name_chunk_owner_prefix :: "file_id \<Rightarrow> bytes" where
  "name_chunk_owner_prefix f = text_bytes ''o|'' @ put_be32 f"
definition name_chunk_owner_key :: "file_id \<Rightarrow> w64 \<Rightarrow> w64 \<Rightarrow> bytes" where
  "name_chunk_owner_key f nid i = name_chunk_owner_prefix f @ put_be64 nid @ put_be64 i"

definition hash_table_forward_key :: "w8 \<Rightarrow> bytes \<Rightarrow> bytes" where "hash_table_forward_key ty h = ty # h"
definition hash_table_reverse_key :: "w8 \<Rightarrow> bytes \<Rightarrow> bytes" where "hash_table_reverse_key ty name = (ty + 4) # name"

section \<open>Values\<close>

record gzip_member =
  gm_idx :: w64
  gm_c_offset :: w64
  gm_c_size :: w64
  gm_uc_offset :: w64
  gm_uc_size :: w64
  gm_first_line :: w64
  gm_last_line :: w64

definition encode_gzip_member_value :: "gzip_member \<Rightarrow> bytes" where
  "encode_gzip_member_value m =
     put_be64 (gm_c_offset m) @ put_be64 (gm_c_size m) @ put_be64 (gm_uc_offset m) @ put_be64 (gm_uc_size m)
     @ put_be64 (gm_first_line m) @ put_be64 (gm_last_line m)"

text \<open>\<^verbatim>\<open>cursor.u64()\<close> as often as the record has fields.\<close>

definition decode_gzip_member :: "bytes \<Rightarrow> bytes \<Rightarrow> gzip_member option" where
  "decode_gzip_member key v =
     (if length key \<noteq> 14 then None
      else case get_many get_be64 6 v of None \<Rightarrow> None
        | Some (xs, r) \<Rightarrow>
            Some \<lparr>gm_idx = be_value (drop 6 key), gm_c_offset = xs ! 0, gm_c_size = xs ! 1, gm_uc_offset = xs ! 2,
                  gm_uc_size = xs ! 3, gm_first_line = xs ! 4, gm_last_line = xs ! 5\<rparr>)"

definition encode_metadata_record :: "w64 \<Rightarrow> w64 \<Rightarrow> w64 \<Rightarrow> bytes" where
  "encode_metadata_record ckpt lines uc = put_be64 ckpt @ put_be64 lines @ put_be64 uc"
definition decode_metadata_record :: "bytes \<Rightarrow> w64 list option" where
  "decode_metadata_record v = map_option fst (get_many get_be64 3 v)"

text \<open>A bloom filter's blob after its entry count; it has no length of its own.\<close>

definition encode_bloom_value :: "bytes \<Rightarrow> w64 \<Rightarrow> bytes" where "encode_bloom_value blob n = put_be64 n @ blob"

record chunk_bloom =
  cb_checkpoint :: w64
  cb_entries :: w64
  cb_data :: bytes

definition find_zero :: "bytes \<Rightarrow> nat \<Rightarrow> nat option" where
  "find_zero key from =
     (let n = length (takeWhile (\<lambda>b. b \<noteq> 0) (drop from key))
      in if from + n < length key then Some (from + n) else None)"

definition decode_chunk_bloom :: "bytes \<Rightarrow> bytes \<Rightarrow> nat \<Rightarrow> chunk_bloom option" where
  "decode_chunk_bloom key v prefix_size =
     (case find_zero key prefix_size of None \<Rightarrow> None
      | Some pos \<Rightarrow>
          if length key < pos + 1 + 8 \<or> length v < 8 then None
          else Some \<lparr>cb_checkpoint = be_value (take 8 (drop (pos + 1) key)), cb_entries = be_value (take 8 v),
                     cb_data = drop 8 v\<rparr>)"

definition decode_file_bloom :: "bytes \<Rightarrow> (w64 \<times> bytes) option" where
  "decode_file_bloom v = (if length v < 8 then None else Some (be_value (take 8 v), drop 8 v))"

text \<open>Chunk statistics of a dimension; the counts are compressed already, or left out over the cap.\<close>

record dim_stats_row =
  dr_distinct :: w64
  dr_min :: bytes
  dr_max :: bytes
  dr_type :: bytes
  dr_counts :: "bytes option"

definition encode_chunk_dimension_stats_value :: "dim_stats_row \<Rightarrow> bytes" where
  "encode_chunk_dimension_stats_value d =
     put_be64 (dr_distinct d) @ put_blob (dr_min d) @ put_blob (dr_max d) @ put_blob (dr_type d)
     @ (case dr_counts d of None \<Rightarrow> put_u8 0 | Some z \<Rightarrow> put_u8 1 @ put_blob z)"

definition decode_chunk_dimension_stats_value :: "bytes \<Rightarrow> bytes \<Rightarrow> (w64 \<times> bytes \<times> dim_stats_row) option" where
  "decode_chunk_dimension_stats_value key v =
     (if length key < 12 then None
      else case get_be64 v of None \<Rightarrow> None | Some (n, r1) \<Rightarrow>
      (case get_many get_blob 3 r1 of None \<Rightarrow> None | Some (ss, r2) \<Rightarrow>
      (case get_u8 r2 of None \<Rightarrow> None | Some (flag, r3) \<Rightarrow>
      (case (if flag \<noteq> 0 then map_option (\<lambda>(z, r). Some z) (get_blob r3) else Some None) of None \<Rightarrow> None
       | Some z \<Rightarrow>
           Some (be_value (take 8 (drop 4 key)), drop 12 key,
             \<lparr>dr_distinct = n, dr_min = ss ! 0, dr_max = ss ! 1, dr_type = ss ! 2, dr_counts = z\<rparr>)))))"

text \<open>A count map is written in the order its table is walked in.\<close>

definition put_count :: "bytes \<times> w64 \<Rightarrow> bytes" where "put_count e = put_blob (fst e) @ put_be64 (snd e)"
definition get_count :: "bytes \<Rightarrow> ((bytes \<times> w64) \<times> bytes) option" where
  "get_count bs = get_pair get_blob get_be64 bs"

definition encode_count_map_value :: "(bytes \<times> w64) list \<Rightarrow> bytes" where
  "encode_count_map_value counts = put_be32 (of_nat (length counts)) @ concat (map put_count counts)"

text \<open>Entries are emplaced: the first of a repeated key stays.\<close>

definition decode_count_map_value :: "bytes \<Rightarrow> (bytes \<Rightarrow> w64 option) option" where
  "decode_count_map_value v =
     (case get_be32 v of None \<Rightarrow> None
      | Some (n, r) \<Rightarrow> map_option (\<lambda>(es, r'). map_of es) (get_many get_count (unat n) r))"

record name_summary =
  ns_other :: w64
  ns_unique :: w64
  ns_counts :: "bytes \<Rightarrow> w64 option"

definition encode_name_summary_value :: "(bytes \<times> w64) list \<Rightarrow> w64 \<Rightarrow> w64 \<Rightarrow> bytes" where
  "encode_name_summary_value counts other unique =
     put_be32 (of_nat (length counts)) @ put_be64 other @ put_be64 unique @ concat (map put_count counts)"

definition decode_name_summary_value :: "bytes \<Rightarrow> name_summary option" where
  "decode_name_summary_value v =
     (case get_be32 v of None \<Rightarrow> None
      | Some (n, r) \<Rightarrow>
          (case get_many get_be64 2 r of None \<Rightarrow> None
           | Some (xs, r') \<Rightarrow>
               map_option (\<lambda>(es, r''). \<lparr>ns_other = xs ! 0, ns_unique = xs ! 1, ns_counts = map_of es\<rparr>)
                 (get_many get_count (unat n) r')))"

section \<open>The file registry\<close>

definition CAP_NONE :: w8 where "CAP_NONE = 0"
definition CAP_BLOOM :: w8 where "CAP_BLOOM = 1"
definition CAP_MANIFEST :: w8 where "CAP_MANIFEST = 2"
definition CAP_FILE_SUMMARY :: w8 where "CAP_FILE_SUMMARY = 4"
definition CAP_MEMBERS :: w8 where "CAP_MEMBERS = 8"
definition CAP_INDEXING_COMPLETE :: w8 where "CAP_INDEXING_COMPLETE = 16"

definition has_capability :: "w8 \<Rightarrow> w8 \<Rightarrow> bool" where "has_capability caps flag \<longleftrightarrow> caps AND flag \<noteq> CAP_NONE"

definition file_lookup_key :: "bytes \<Rightarrow> bytes" where "file_lookup_key name = text_bytes ''f|'' @ name"
definition file_reverse_key :: "file_id \<Rightarrow> bytes" where "file_reverse_key f = text_bytes ''r|'' @ put_be32 f"
definition schema_version_key :: bytes where "schema_version_key = text_bytes ''_schema_version''"
definition next_file_id_key :: bytes where "next_file_id_key = text_bytes ''_next_file_id''"

definition encode_file_record :: "file_id \<Rightarrow> w64 \<Rightarrow> w8 \<Rightarrow> w64 \<Rightarrow> w64 \<Rightarrow> bytes" where
  "encode_file_record f h caps mtime sz =
     put_be32 f @ [caps] @ replicate 7 0 @ put_be64 mtime @ put_be64 h @ put_be64 sz"

definition decode_file_capabilities :: "bytes \<Rightarrow> w8" where
  "decode_file_capabilities r = (if length r < 5 then CAP_NONE else r ! 4)"
definition decode_file_id :: "bytes \<Rightarrow> file_id option" where
  "decode_file_id r = (if length r < 4 then None else Some (ucast (be_value (take 4 r))))"
definition decode_prefixed_file_id :: "bytes \<Rightarrow> file_id option" where
  "decode_prefixed_file_id key = (if length key < 4 then None else Some (ucast (be_value (take 4 key))))"
definition decode_file_hash :: "bytes \<Rightarrow> w64 option" where
  "decode_file_hash r = (if length r < 28 then None else Some (be_value (take 8 (drop 20 r))))"
definition decode_file_mtime :: "bytes \<Rightarrow> w64 option" where
  "decode_file_mtime r = (if length r < 36 then None else Some (be_value (take 8 (drop 12 r))))"
definition decode_file_size :: "bytes \<Rightarrow> w64 option" where
  "decode_file_size r = (if length r < 36 then None else Some (be_value (take 8 (drop 28 r))))"

section \<open>Read back\<close>

lemma be_value_4 [simp]: "ucast (be_value (put_be32 f)) = (f :: w32)"
  by (simp add: put_be32_def be_value_put_be ucast_take_ucast)

lemma be_value_8 [simp]: "be_value (put_be64 i) = i"
  by (simp add: put_be64_def be_value_put_be take_bit_64)

lemma length_text2 [simp]: "length (text_bytes [a, b]) = 2" by simp

lemma find_zero_key:
  assumes "0 \<notin> set dm" and "length p \<le> from" "from \<le> length p + length dm"
  shows "find_zero (p @ dm @ 0 # r) from = Some (length p + length dm)"
proof -
  define ys where "ys = drop (from - length p) dm"
  have d: "drop from (p @ dm @ 0 # r) = ys @ 0 # r" using assms(2,3) by (simp add: ys_def)
  have "\<forall>b \<in> set ys. b \<noteq> 0" using assms(1) set_drop_subset [of "from - length p" dm] by (auto simp: ys_def)
  then have t: "takeWhile (\<lambda>b. b \<noteq> 0) (ys @ 0 # r) = ys" by (rule takeWhile_run) simp
  have l: "length ys = length p + length dm - from" using assms(2,3) by (simp add: ys_def)
  show ?thesis unfolding find_zero_def d Let_def t l using assms(2,3) by simp
qed

lemma decode_chunk_bloom_key:
  assumes "0 \<notin> set dm"
  shows "decode_chunk_bloom (chunk_bloom_key f dm i) (encode_bloom_value blob n) (4 + length dm)
    = Some \<lparr>cb_checkpoint = i, cb_entries = n, cb_data = blob\<rparr>"
proof -
  have z: "find_zero (chunk_bloom_key f dm i) (4 + length dm) = Some (4 + length dm)"
    using find_zero_key [of dm "prefix_for_file f" "4 + length dm" "put_be64 i"] assms
    by (simp add: chunk_bloom_key_def prefix_for_file_def)
  show ?thesis
    unfolding decode_chunk_bloom_def z
    by (simp add: chunk_bloom_key_def prefix_for_file_def encode_bloom_value_def)
qed

lemma decode_file_bloom_value: "decode_file_bloom (encode_bloom_value blob n) = Some (n, blob)"
  by (simp add: decode_file_bloom_def encode_bloom_value_def)

lemma get_be64s: "get_many get_be64 (length xs) (concat (map put_be64 xs) @ r) = Some (xs, r)"
  by (rule be64.many) simp

lemma decode_gzip_member_value:
  "decode_gzip_member (gzip_member_key f (gm_idx m)) (encode_gzip_member_value m) = Some m"
proof -
  have "get_many get_be64 6 (encode_gzip_member_value m)
      = Some ([gm_c_offset m, gm_c_size m, gm_uc_offset m, gm_uc_size m, gm_first_line m, gm_last_line m], [])"
    using get_be64s [of "[gm_c_offset m, gm_c_size m, gm_uc_offset m, gm_uc_size m, gm_first_line m, gm_last_line m]" "[]"]
    by (simp add: encode_gzip_member_value_def eval_nat_numeral del: get_many.simps)
  then show ?thesis by (simp add: decode_gzip_member_def gzip_member_key_def gzip_member_prefix_def)
qed

lemma decode_metadata_value: "decode_metadata_record (encode_metadata_record a b c) = Some [a, b, c]"
  using get_be64s [of "[a, b, c]" "[]"] by (simp add: decode_metadata_record_def encode_metadata_record_def numeral_3_eq_3)

definition dim_row_ok :: "dim_stats_row \<Rightarrow> bool" where
  "dim_row_ok d \<longleftrightarrow> length (dr_min d) < 2 ^ 32 \<and> length (dr_max d) < 2 ^ 32 \<and> length (dr_type d) < 2 ^ 32
     \<and> (\<forall>z. dr_counts d = Some z \<longrightarrow> length z < 2 ^ 32)"

lemma decode_chunk_dim_stats_value:
  assumes "dim_row_ok d"
  shows "decode_chunk_dimension_stats_value (chunk_dim_stats_key f i dm) (encode_chunk_dimension_stats_value d)
    = Some (i, dm, d)"
proof -
  let ?ss = "[dr_min d, dr_max d, dr_type d]"
  have "get_many get_blob (length ?ss) (concat (map put_blob ?ss) @ r) = Some (?ss, r)" for r
    using assms by (intro blob.many) (simp add: dim_row_ok_def)
  then have "get_many get_blob 3 (put_blob (dr_min d) @ put_blob (dr_max d) @ put_blob (dr_type d) @ r) = Some (?ss, r)" for r
    by (simp add: numeral_3_eq_3)
  moreover have "get_blob (put_blob z) = Some (z, [])" if "dr_counts d = Some z" for z
    using blob.get_put [of z "[]"] that assms by (simp add: dim_row_ok_def)
  moreover have "get_u8 (put_u8 b @ r) = Some (b, r)" for b r by (simp add: u8.get_put)
  moreover from this [of _ "[]"] have "get_u8 (put_u8 b) = Some (b, [])" for b by simp
  ultimately show ?thesis
    by (simp add: decode_chunk_dimension_stats_value_def encode_chunk_dimension_stats_value_def be64.get_put
        chunk_dim_stats_key_def prefix_for_file_def split: option.split)
qed

interpretation count: prefix_codec put_count get_count "\<lambda>e. length (fst e) < 2 ^ 32"
  by unfold_locales (simp add: put_count_def get_count_def get_pair_def blob.get_put be64.get_put)

lemma decode_count_map_encode:
  assumes "\<forall>e \<in> set counts. length (fst e) < 2 ^ 32" and "length counts < 2 ^ 32"
  shows "decode_count_map_value (encode_count_map_value counts) = Some (map_of counts)"
  using assms count.many [OF assms(1), of "[]"]
  by (simp add: decode_count_map_value_def encode_count_map_value_def be32.get_put unat_of_nat take_bit_nat_eq_self)

lemma decode_name_summary_encode:
  assumes "\<forall>e \<in> set counts. length (fst e) < 2 ^ 32" and "length counts < 2 ^ 32"
  shows "decode_name_summary_value (encode_name_summary_value counts other unique)
    = Some \<lparr>ns_other = other, ns_unique = unique, ns_counts = map_of counts\<rparr>"
proof -
  have "get_many get_be64 2 (put_be64 other @ put_be64 unique @ r) = Some ([other, unique], r)" for r
    using get_be64s [of "[other, unique]" r] by (simp add: numeral_2_eq_2)
  then show ?thesis
    using assms count.many [OF assms(1), of "[]"]
    by (simp add: decode_name_summary_value_def encode_name_summary_value_def be32.get_put unat_of_nat take_bit_nat_eq_self)
qed

lemma file_record_fields [simp]:
  "decode_file_id (encode_file_record f h caps mt sz) = Some f"
  "decode_file_hash (encode_file_record f h caps mt sz) = Some h"
  "decode_file_capabilities (encode_file_record f h caps mt sz) = caps"
  "decode_file_mtime (encode_file_record f h caps mt sz) = Some mt"
  "decode_file_size (encode_file_record f h caps mt sz) = Some sz"
  by (simp_all add: encode_file_record_def decode_file_id_def decode_file_hash_def decode_file_capabilities_def
      decode_file_mtime_def decode_file_size_def nth_append)

lemma length_file_record [simp]: "length (encode_file_record f h caps mt sz) = 36"
  by (simp add: encode_file_record_def)

section \<open>The keys of a file\<close>

locale file_keys =
  fixes key :: "'a \<Rightarrow> bytes" and pre :: "file_id \<Rightarrow> bytes" and owned :: "'a \<Rightarrow> file_id \<Rightarrow> bool" and ok :: "'a \<Rightarrow> bool"
  assumes key_inj: "ok a \<Longrightarrow> ok b \<Longrightarrow> key a = key b \<Longrightarrow> a = b"
    and key_owner: "ok a \<Longrightarrow> prefix (pre f) (key a) \<longleftrightarrow> owned a f"

lemma put_be32_eq: "put_be32 f @ r = put_be32 g @ s \<longleftrightarrow> f = g \<and> r = s"
  by (rule be32.prefix_free) simp_all

lemma put_be64_eq: "put_be64 f @ r = put_be64 g @ s \<longleftrightarrow> f = g \<and> r = s"
  by (rule be64.prefix_free) simp_all

lemma put_be64_inj [simp]: "put_be64 f = put_be64 g \<longleftrightarrow> f = g"
  using put_be64_eq [of f "[]" g "[]"] by simp

lemma put_be32_inj [simp]: "put_be32 f = put_be32 g \<longleftrightarrow> f = g"
  using put_be32_eq [of f "[]" g "[]"] by simp

lemma prefix_be32: "prefix (put_be32 f) (put_be32 g @ r) \<longleftrightarrow> f = g"
  by (auto simp: prefix_def put_be32_eq)

lemma zero_split:
  assumes "0 \<notin> set xs" "0 \<notin> set ys" "xs @ 0 # r = ys @ (0 :: w8) # s" shows "xs = ys \<and> r = s"
proof -
  have "takeWhile (\<lambda>b. b \<noteq> 0) (zs @ 0 # t) = zs" if "0 \<notin> set zs" for zs t :: bytes
    using that by (intro takeWhile_run) auto
  then have "xs = ys" using assms by metis
  with assms(3) show ?thesis by simp
qed

interpretation chunk_blooms: file_keys "\<lambda>(f, dm, i). chunk_bloom_key f dm i" prefix_for_file
    "\<lambda>(f, dm, i) g. f = g" "\<lambda>(f, dm, i). 0 \<notin> set dm"
  by unfold_locales (auto simp: chunk_bloom_key_def prefix_for_file_def put_be32_eq prefix_be32 dest!: zero_split)

interpretation file_blooms: file_keys "\<lambda>(f, dm). file_bloom_key f dm" prefix_for_file "\<lambda>(f, dm) g. f = g" "\<lambda>_. True"
  by unfold_locales (auto simp: file_bloom_key_def prefix_for_file_def put_be32_eq prefix_be32)

interpretation chunk_stats: file_keys "\<lambda>(f, i). chunk_stats_key f i" prefix_for_file "\<lambda>(f, i) g. f = g" "\<lambda>_. True"
  by unfold_locales (auto simp: chunk_stats_key_def prefix_for_file_def put_be32_eq prefix_be32)

interpretation dim_stats: file_keys "\<lambda>(f, i, dm). chunk_dim_stats_key f i dm" prefix_for_file
    "\<lambda>(f, i, dm) g. f = g" "\<lambda>_. True"
  by unfold_locales (auto simp: chunk_dim_stats_key_def prefix_for_file_def put_be32_eq put_be64_eq prefix_be32)

interpretation summaries: file_keys file_summary_key prefix_for_file "\<lambda>f g. f = g" "\<lambda>_. True"
  by unfold_locales (use prefix_be32 [of _ _ "[]"] in \<open>auto simp: file_summary_key_def prefix_for_file_def\<close>)

interpretation members: file_keys "\<lambda>(f, i). gzip_member_key f i" gzip_member_prefix "\<lambda>(f, i) g. f = g" "\<lambda>_. True"
  by unfold_locales (auto simp: gzip_member_key_def gzip_member_prefix_def put_be32_eq prefix_be32)

text \<open>A column name shares the column family of the dimensions but not their prefix.\<close>

interpretation dimensions: file_keys
    "\<lambda>a. case a of Inl (f, dm) \<Rightarrow> make_dimension_key f dm | Inr (f, col) \<Rightarrow> make_column_key f col"
    "\<lambda>f. text_bytes ''d|'' @ prefix_for_file f" "\<lambda>a g. case a of Inl (f, dm) \<Rightarrow> f = g | Inr _ \<Rightarrow> False" "\<lambda>_. True"
  by unfold_locales
     (auto simp: make_dimension_key_def make_column_key_def prefix_for_file_def put_be32_eq prefix_be32 text_bytes_def
       split: sum.splits)

end
