(* ===== verification/IndexStore.thy ===== *)
theory IndexStore
  imports IndexKeys "HOL-Library.Product_Lexorder"
begin

text \<open>
  The index database: the writer context \<^verbatim>\<open>indexer/index_database_writer_context.cpp\<close> and the queries
  of \<^verbatim>\<open>indexer/index_database.cpp\<close>, with the scans of \<^verbatim>\<open>internal/scan_prefix.h\<close>,
  \<^verbatim>\<open>internal/count_map_scan.h\<close> and \<^verbatim>\<open>internal/batch_scan.h\<close>.

  RocksDB is not part of the repository: the record \<open>rocks\<close> holds its operations as functions on a
  database of unknown type, and \<open>rocks_ok\<close> states what its documentation promises of them: a batch
  applies its writes in order, and an iterator sought to a key visits the entries from it on in
  byte-wise order. I/O errors, at which every operation throws, are left out.
\<close>

datatype cf = Cf_default | Cf_members | Cf_metadata | Cf_chunk_bloom | Cf_file_bloom | Cf_chunk_stats
  | Cf_dimensions | Cf_chunk_dim_stats | Cf_file_scalar_stats | Cf_file_cat_counts | Cf_file_name_counts
  | Cf_file_pid_tid_counts | Cf_root_scalar_stats | Cf_root_cat_counts | Cf_root_name_counts
  | Cf_root_pid_tid_counts | Cf_name_dictionary | Cf_name_file_postings | Cf_name_chunk_postings
  | Cf_manifest | Cf_provenance | Cf_aggregation | Cf_system_metrics | Cf_hash_tables | Cf_rollup

datatype db_write = Put (wr_cf: cf) (wr_key: bytes) bytes | Del (wr_cf: cf) (wr_key: bytes)

record 'db rocks =
  rk_get :: "'db \<Rightarrow> cf \<Rightarrow> bytes \<Rightarrow> bytes option"
  rk_seek :: "'db \<Rightarrow> cf \<Rightarrow> bytes \<Rightarrow> (bytes \<times> bytes) list"
  rk_commit :: "'db \<Rightarrow> db_write list \<Rightarrow> 'db"

definition write_value :: "db_write \<Rightarrow> bytes option" where
  "write_value w = (case w of Put c k v \<Rightarrow> Some v | Del c k \<Rightarrow> None)"

text \<open>What key \<open>k\<close> of family \<open>c\<close> holds after the writes, when it held \<open>v0\<close> before.\<close>

definition written :: "db_write list \<Rightarrow> cf \<Rightarrow> bytes \<Rightarrow> bytes option \<Rightarrow> bytes option" where
  "written ws c k v0 = fold (\<lambda>w v. if wr_cf w = c \<and> wr_key w = k then write_value w else v) ws v0"

definition rocks_ok :: "'db rocks \<Rightarrow> bool" where
  "rocks_ok R \<longleftrightarrow>
     (\<forall>db ws c k. rk_get R (rk_commit R db ws) c k = written ws c k (rk_get R db c k))
     \<and> (\<forall>db c p. sorted_wrt (<) (map fst (rk_seek R db c p))
          \<and> (\<forall>k v. (k, v) \<in> set (rk_seek R db c p) \<longleftrightarrow> p \<le> k \<and> rk_get R db c k = Some v))"

section \<open>Scans\<close>

definition scan_prefix :: "'db rocks \<Rightarrow> 'db \<Rightarrow> cf \<Rightarrow> bytes \<Rightarrow> (bytes \<times> bytes) list" where
  "scan_prefix R db c p = takeWhile (\<lambda>e. prefix p (fst e)) (rk_seek R db c p)"

text \<open>
  The rows of the wanted files from the first one's prefix on; \<open>None\<close> is the exception for a key
  too short to hold a file id. Ids are compared as signed integers.
\<close>

fun files_in_rows :: "int \<Rightarrow> file_id set \<Rightarrow> (bytes \<times> bytes) list \<Rightarrow> (file_id \<times> bytes \<times> bytes) list option" where
  "files_in_rows maxid wanted [] = Some []"
| "files_in_rows maxid wanted ((k, v) # rows) =
     (case decode_prefixed_file_id k of None \<Rightarrow> None
      | Some f \<Rightarrow>
          if maxid < sint f then Some []
          else if f \<in> wanted then map_option (\<lambda>xs. (f, k, v) # xs) (files_in_rows maxid wanted rows)
          else files_in_rows maxid wanted rows)"

definition for_each_file_in_range ::
    "'db rocks \<Rightarrow> 'db \<Rightarrow> cf \<Rightarrow> bytes \<Rightarrow> int \<Rightarrow> file_id set \<Rightarrow> (file_id \<times> bytes \<times> bytes) list option" where
  "for_each_file_in_range R db c min_prefix maxid wanted = files_in_rows maxid wanted (rk_seek R db c min_prefix)"

definition for_each_file_in_batch ::
    "'db rocks \<Rightarrow> 'db \<Rightarrow> cf \<Rightarrow> file_id list \<Rightarrow> (file_id \<times> bytes \<times> bytes) list option" where
  "for_each_file_in_batch R db c fs =
     (if fs = [] then Some []
      else let lo = Min (set (map sint fs)); hi = Max (set (map sint fs))
           in for_each_file_in_range R db c (prefix_for_file (word_of_int lo)) hi (set fs))"

section \<open>The writer\<close>

record 'db writer =
  wr_db :: 'db
  wr_batch :: "db_write list"
  wr_committed :: bool
  wr_cached_next :: "w32 option"

definition begin_write :: "'db \<Rightarrow> 'db writer" where
  "begin_write db = \<lparr>wr_db = db, wr_batch = [], wr_committed = False, wr_cached_next = None\<rparr>"

definition commit :: "'db rocks \<Rightarrow> 'db writer \<Rightarrow> 'db writer" where
  "commit R w =
     (if wr_committed w then w
      else w\<lparr>wr_db := rk_commit R (wr_db w) (wr_batch w), wr_committed := True\<rparr>)"

definition stage :: "db_write list \<Rightarrow> 'db writer \<Rightarrow> 'db writer" where
  "stage ws w = w\<lparr>wr_batch := wr_batch w @ ws\<rparr>"

definition insert_file_metadata :: "file_id \<Rightarrow> w64 \<Rightarrow> w64 \<Rightarrow> w64 \<Rightarrow> 'db writer \<Rightarrow> 'db writer" where
  "insert_file_metadata f ckpt lines uc = stage [Put Cf_metadata (metadata_key f) (encode_metadata_record ckpt lines uc)]"
definition insert_chunk_bloom_filter :: "file_id \<Rightarrow> w64 \<Rightarrow> bytes \<Rightarrow> bytes \<Rightarrow> w64 \<Rightarrow> 'db writer \<Rightarrow> 'db writer" where
  "insert_chunk_bloom_filter f i dm blob n = stage [Put Cf_chunk_bloom (chunk_bloom_key f dm i) (encode_bloom_value blob n)]"
definition insert_file_bloom_filter :: "file_id \<Rightarrow> bytes \<Rightarrow> bytes \<Rightarrow> w64 \<Rightarrow> 'db writer \<Rightarrow> 'db writer" where
  "insert_file_bloom_filter f dm blob n = stage [Put Cf_file_bloom (file_bloom_key f dm) (encode_bloom_value blob n)]"
definition insert_chunk_dimension_stats :: "file_id \<Rightarrow> w64 \<Rightarrow> bytes \<Rightarrow> dim_stats_row \<Rightarrow> 'db writer \<Rightarrow> 'db writer" where
  "insert_chunk_dimension_stats f i dm row =
     stage [Put Cf_chunk_dim_stats (chunk_dim_stats_key f i dm) (encode_chunk_dimension_stats_value row)]"
definition insert_gzip_member :: "file_id \<Rightarrow> gzip_member \<Rightarrow> 'db writer \<Rightarrow> 'db writer" where
  "insert_gzip_member f m = stage [Put Cf_members (gzip_member_key f (gm_idx m)) (encode_gzip_member_value m)]"
definition insert_index_dimension :: "file_id \<Rightarrow> bytes \<Rightarrow> 'db writer \<Rightarrow> 'db writer" where
  "insert_index_dimension f dm = stage [Put Cf_dimensions (make_dimension_key f dm) []]"
definition insert_column :: "file_id \<Rightarrow> bytes \<Rightarrow> bytes \<Rightarrow> 'db writer \<Rightarrow> 'db writer" where
  "insert_column f col ty = stage [Put Cf_dimensions (make_column_key f col) ty]"
definition insert_name_file_posting :: "w64 \<Rightarrow> file_id \<Rightarrow> 'db writer \<Rightarrow> 'db writer" where
  "insert_name_file_posting nid f =
     stage [Put Cf_name_file_postings (name_file_posting_key nid f) [], Put Cf_name_file_postings (name_file_owner_key f nid) []]"
definition insert_name_chunk_posting :: "w64 \<Rightarrow> file_id \<Rightarrow> w64 \<Rightarrow> 'db writer \<Rightarrow> 'db writer" where
  "insert_name_chunk_posting nid f i =
     stage [Put Cf_name_chunk_postings (name_chunk_posting_key nid f i) [],
            Put Cf_name_chunk_postings (name_chunk_owner_key f nid i) []]"
definition insert_name_dictionary_entry :: "w64 \<Rightarrow> bytes \<Rightarrow> 'db writer \<Rightarrow> 'db writer" where
  "insert_name_dictionary_entry nid name =
     stage [Put Cf_name_dictionary (name_lookup_key name) (put_be64 nid), Put Cf_name_dictionary (name_reverse_key nid) name]"
definition insert_hash_table_entry :: "w8 \<Rightarrow> bytes \<Rightarrow> bytes \<Rightarrow> 'db writer \<Rightarrow> 'db writer" where
  "insert_hash_table_entry ty h name =
     stage [Put Cf_hash_tables (hash_table_forward_key ty h) name, Put Cf_hash_tables (hash_table_reverse_key ty name) h]"
definition insert_file_counts :: "cf \<Rightarrow> file_id \<Rightarrow> (bytes \<times> w64) list \<Rightarrow> 'db writer \<Rightarrow> 'db writer" where
  "insert_file_counts c f counts = stage [Put c (file_summary_key f) (encode_count_map_value counts)]"
definition insert_file_name_counts :: "file_id \<Rightarrow> (bytes \<times> w64) list \<Rightarrow> 'db writer \<Rightarrow> 'db writer" where
  "insert_file_name_counts f counts =
     stage [Put Cf_file_name_counts (file_summary_key f) (encode_name_summary_value counts 0 (of_nat (length counts)))]"

section \<open>Deleting a file\<close>

text \<open>The keys to delete are those of the database, not those staged in the batch.\<close>

definition prefix_dels :: "'db rocks \<Rightarrow> 'db \<Rightarrow> cf \<Rightarrow> bytes \<Rightarrow> db_write list" where
  "prefix_dels R db c p = map (\<lambda>e. Del c (fst e)) (scan_prefix R db c p)"

definition delete_prefix :: "'db rocks \<Rightarrow> cf \<Rightarrow> bytes \<Rightarrow> 'db writer \<Rightarrow> 'db writer" where
  "delete_prefix R c p w = stage (prefix_dels R (wr_db w) c p) w"

definition owner_dels :: "cf \<Rightarrow> file_id \<Rightarrow> bytes \<Rightarrow> bool \<Rightarrow> bytes \<Rightarrow> db_write list" where
  "owner_dels c f p chunk_level owner_key =
     (let payload = drop (length p) owner_key
      in if length owner_key < length p + 4 then []
         else if (\<not> chunk_level \<and> length payload \<noteq> 4) \<or> (chunk_level \<and> length payload \<noteq> 12) then []
         else [Del c (text_bytes ''n|'' @ take 4 payload @ put_be32 f @ (if chunk_level then drop 4 payload else [])),
               Del c owner_key])"

definition delete_name_postings_by_owner ::
    "'db rocks \<Rightarrow> cf \<Rightarrow> file_id \<Rightarrow> bytes \<Rightarrow> bool \<Rightarrow> 'db writer \<Rightarrow> 'db writer" where
  "delete_name_postings_by_owner R c f p chunk_level w =
     stage (concat (map (\<lambda>e. owner_dels c f p chunk_level (fst e)) (scan_prefix R (wr_db w) c p))) w"

definition delete_file_contents :: "'db rocks \<Rightarrow> file_id \<Rightarrow> 'db writer \<Rightarrow> 'db writer" where
  "delete_file_contents R f w =
     fold (\<lambda>g w. g w)
       [delete_prefix R Cf_members (prefix_for_file f), delete_prefix R Cf_members (gzip_member_prefix f),
        delete_prefix R Cf_metadata (prefix_for_file f), delete_prefix R Cf_chunk_bloom (prefix_for_file f),
        delete_prefix R Cf_file_bloom (prefix_for_file f), delete_prefix R Cf_chunk_stats (prefix_for_file f),
        delete_prefix R Cf_chunk_dim_stats (prefix_for_file f), delete_prefix R Cf_file_scalar_stats (prefix_for_file f),
        delete_prefix R Cf_file_cat_counts (prefix_for_file f), delete_prefix R Cf_file_name_counts (prefix_for_file f),
        delete_prefix R Cf_file_pid_tid_counts (prefix_for_file f),
        delete_name_postings_by_owner R Cf_name_file_postings f (name_file_owner_prefix f) False,
        delete_name_postings_by_owner R Cf_name_chunk_postings f (name_chunk_owner_prefix f) True,
        delete_prefix R Cf_dimensions (text_bytes ''d|'' @ prefix_for_file f)] w"

definition delete_chunk_statistics :: "'db rocks \<Rightarrow> file_id \<Rightarrow> 'db writer \<Rightarrow> 'db writer" where
  "delete_chunk_statistics R f = delete_prefix R Cf_chunk_stats (prefix_for_file f)"

section \<open>Queries\<close>

text \<open>A query's \<open>None\<close> is the exception for a corrupt row.\<close>

definition query_chunk_bloom_filters :: "'db rocks \<Rightarrow> 'db \<Rightarrow> file_id \<Rightarrow> bytes \<Rightarrow> chunk_bloom list option" where
  "query_chunk_bloom_filters R db f dm =
     (let p = prefix_for_file f @ dm @ [0]
      in those (map (\<lambda>(k, v). decode_chunk_bloom k v (length p - 1)) (scan_prefix R db Cf_chunk_bloom p)))"

definition query_file_bloom_filter :: "'db rocks \<Rightarrow> 'db \<Rightarrow> file_id \<Rightarrow> bytes \<Rightarrow> (w64 \<times> bytes) option option" where
  "query_file_bloom_filter R db f dm =
     (case rk_get R db Cf_file_bloom (file_bloom_key f dm) of None \<Rightarrow> Some None
      | Some v \<Rightarrow> map_option Some (decode_file_bloom v))"

definition query_index_dimensions :: "'db rocks \<Rightarrow> 'db \<Rightarrow> file_id \<Rightarrow> bytes list" where
  "query_index_dimensions R db f =
     (let p = text_bytes ''d|'' @ put_be32 f
      in map (\<lambda>(k, v). drop (length p) k) (scan_prefix R db Cf_dimensions p))"

definition query_all_columns :: "'db rocks \<Rightarrow> 'db \<Rightarrow> bytes list" where
  "query_all_columns R db =
     sort (remdups (map (drop 6)
       (filter (\<lambda>k. 6 < length k) (map fst (scan_prefix R db Cf_dimensions (text_bytes ''c|''))))))"

definition query_gzip_members :: "'db rocks \<Rightarrow> 'db \<Rightarrow> file_id \<Rightarrow> gzip_member list option" where
  "query_gzip_members R db f =
     map_option (sort_key gm_idx)
       (those (map (\<lambda>(k, v). decode_gzip_member k v) (scan_prefix R db Cf_members (gzip_member_prefix f))))"

definition query_chunk_dimension_stats :: "'db rocks \<Rightarrow> 'db \<Rightarrow> file_id \<Rightarrow> (w64 \<times> bytes \<times> dim_stats_row) list option" where
  "query_chunk_dimension_stats R db f =
     map_option (sort_key (\<lambda>(i, dm, row). (i, dm)))
       (those (map (\<lambda>(k, v). decode_chunk_dimension_stats_value k v)
          (scan_prefix R db Cf_chunk_dim_stats (prefix_for_file f))))"

definition query_chunk_dimension_stats_for_dimension ::
    "'db rocks \<Rightarrow> 'db \<Rightarrow> file_id \<Rightarrow> bytes \<Rightarrow> (w64 \<times> bytes \<times> dim_stats_row) list option" where
  "query_chunk_dimension_stats_for_dimension R db f dm =
     map_option (\<lambda>xs. sort_key fst (filter (\<lambda>(i, d', row). d' = dm) xs))
       (those (map (\<lambda>(k, v). decode_chunk_dimension_stats_value k v)
          (scan_prefix R db Cf_chunk_dim_stats (prefix_for_file f))))"

definition query_chunk_dimension_stats_batch ::
    "'db rocks \<Rightarrow> 'db \<Rightarrow> file_id list \<Rightarrow> (file_id \<Rightarrow> (w64 \<times> bytes \<times> dim_stats_row) list) option" where
  "query_chunk_dimension_stats_batch R db fs =
     (case for_each_file_in_batch R db Cf_chunk_dim_stats fs of None \<Rightarrow> None
      | Some rows \<Rightarrow>
          map_option (\<lambda>xs f. sort_key (\<lambda>(i, dm, row). (i, dm)) (map snd (filter (\<lambda>e. fst e = f) xs)))
            (those (map (\<lambda>(f, k, v). map_option (Pair f) (decode_chunk_dimension_stats_value k v)) rows)))"

definition get_metadata_field :: "'db rocks \<Rightarrow> 'db \<Rightarrow> file_id \<Rightarrow> nat \<Rightarrow> w64 option" where
  "get_metadata_field R db f idx =
     (case rk_get R db Cf_metadata (metadata_key f) of None \<Rightarrow> Some 0
      | Some v \<Rightarrow> map_option (\<lambda>xs. xs ! idx) (decode_metadata_record v))"

definition decode_be64 :: "bytes \<Rightarrow> w64 option" where
  "decode_be64 v = (if length v \<noteq> 8 then None else Some (be_value v))"
definition decode_be32 :: "bytes \<Rightarrow> w32 option" where
  "decode_be32 v = (if length v \<noteq> 4 then None else Some (ucast (be_value v)))"

definition query_name_id :: "'db rocks \<Rightarrow> 'db \<Rightarrow> bytes \<Rightarrow> w64 option option" where
  "query_name_id R db name =
     (case rk_get R db Cf_name_dictionary (name_lookup_key name) of None \<Rightarrow> Some None
      | Some v \<Rightarrow> map_option Some (decode_be64 v))"

definition query_name_file_postings :: "'db rocks \<Rightarrow> 'db \<Rightarrow> bytes \<Rightarrow> file_id list option" where
  "query_name_file_postings R db name =
     map_option (\<lambda>r. case r of None \<Rightarrow> []
       | Some nid \<Rightarrow>
           map (\<lambda>k. ucast (be_value (drop 10 k)))
             (filter (\<lambda>k. length k = 14)
               (map fst (scan_prefix R db Cf_name_file_postings (text_bytes ''n|'' @ put_be64 nid)))))
       (query_name_id R db name)"

definition query_name_chunk_postings :: "'db rocks \<Rightarrow> 'db \<Rightarrow> bytes \<Rightarrow> file_id \<Rightarrow> w64 list option" where
  "query_name_chunk_postings R db name f =
     map_option (\<lambda>r. case r of None \<Rightarrow> []
       | Some nid \<Rightarrow>
           map (\<lambda>k. be_value (drop 14 k))
             (filter (\<lambda>k. length k = 22)
               (map fst (scan_prefix R db Cf_name_chunk_postings (text_bytes ''n|'' @ put_be64 nid @ put_be32 f)))))
       (query_name_id R db name)"

section \<open>What a scan sees\<close>

lemma prefix_between: "p \<le> h \<Longrightarrow> h \<le> p @ r \<Longrightarrow> prefix p (h :: bytes)"
proof (induction p arbitrary: h)
  case (Cons a p)
  then show ?case by (cases h) (auto simp: Cons_le_Cons)
qed simp

lemma le_append: "p \<le> p @ (r :: bytes)"
  by (induction p) (simp_all add: Cons_le_Cons)

lemma prefix_le: "prefix p k \<Longrightarrow> p \<le> (k :: bytes)"
  by (auto simp: prefix_def le_append)

lemma takeWhile_prefix:
  assumes "sorted_wrt (<) (map fst xs)" "\<forall>e \<in> set xs. p \<le> (fst e :: bytes)"
  shows "takeWhile (\<lambda>e. prefix p (fst e)) xs = filter (\<lambda>e. prefix p (fst e)) xs"
  using assms
proof (induction xs)
  case (Cons e xs)
  show ?case
  proof (cases "prefix p (fst e)")
    case False
    have "\<not> prefix p (fst e')" if e': "e' \<in> set xs" for e'
    proof
      assume "prefix p (fst e')"
      then obtain r where "fst e' = p @ r" by (auto simp: prefix_def)
      moreover have "fst e < fst e'" using Cons.prems(1) e' by simp
      ultimately have "prefix p (fst e)" using Cons.prems(2) by (intro prefix_between [of p _ r]) auto
      with False show False ..
    qed
    with False show ?thesis by (simp add: filter_False)
  qed (use Cons in simp)
qed simp

lemma scan_ok:
  assumes "rocks_ok R"
  shows "set (scan_prefix R db c p) = {(k, v). prefix p k \<and> rk_get R db c k = Some v}"
    and "sorted_wrt (<) (map fst (scan_prefix R db c p))"
proof -
  let ?xs = "rk_seek R db c p"
  have s: "sorted_wrt (<) (map fst ?xs)" and m: "(k, v) \<in> set ?xs \<longleftrightarrow> p \<le> k \<and> rk_get R db c k = Some v" for k v
    using assms by (simp_all add: rocks_ok_def)
  have e: "scan_prefix R db c p = filter (\<lambda>e. prefix p (fst e)) ?xs"
    unfolding scan_prefix_def using s m by (intro takeWhile_prefix) auto
  show "set (scan_prefix R db c p) = {(k, v). prefix p k \<and> rk_get R db c k = Some v}"
    by (auto simp: e m prefix_le)
  show "sorted_wrt (<) (map fst (scan_prefix R db c p))"
    using s by (simp add: e filter_map sorted_wrt_map sorted_wrt_filter)
qed

lemma get_commit: "rocks_ok R \<Longrightarrow> rk_get R (rk_commit R db ws) c k = written ws c k (rk_get R db c k)"
  by (simp add: rocks_ok_def)

lemma written_Nil [simp]: "written [] c k v = v"
  by (simp add: written_def)

lemma written_append: "written (xs @ ys) c k v = written ys c k (written xs c k v)"
  by (simp add: written_def)

lemma written_Cons: "written (w # ws) c k v = written ws c k (if wr_cf w = c \<and> wr_key w = k then write_value w else v)"
  by (simp add: written_def)

lemma written_filter: "written (filter (\<lambda>w. wr_cf w = c) ws) c k v = written ws c k v"
  by (induction ws arbitrary: v) (simp_all add: written_Cons)

lemma written_dels: "written (map (Del c) ks) c k v = (if k \<in> set ks then None else v)"
  by (induction ks arbitrary: v) (auto simp: written_Cons write_value_def)

lemma written_prefix_dels:
  assumes "rocks_ok R"
  shows "written (prefix_dels R db c p) c k v = (if prefix p k \<and> rk_get R db c k \<noteq> None then None else v)"
proof -
  have e: "prefix_dels R db c p = map (Del c) (map fst (scan_prefix R db c p))" by (simp add: prefix_dels_def)
  have m: "k \<in> set (map fst (scan_prefix R db c p)) \<longleftrightarrow> prefix p k \<and> rk_get R db c k \<noteq> None"
    using scan_ok(1) [OF assms, of db c p] by (auto simp: image_iff)
  show ?thesis by (simp only: e written_dels m)
qed

section \<open>A column family as a map\<close>

text \<open>
  \<open>column_holds key val M g\<close>: the entries of \<open>M\<close>, with their keys and values encoded, are what the
  family holds. A session puts entries and clears files; the keys it clears are looked up in the
  database it started from.
\<close>

definition column_holds :: "('a \<Rightarrow> bytes) \<Rightarrow> ('x \<Rightarrow> bytes) \<Rightarrow> ('a \<Rightarrow> 'x option) \<Rightarrow> (bytes \<Rightarrow> bytes option) \<Rightarrow> bool" where
  "column_holds key val M g \<longleftrightarrow> (\<forall>k v. g k = Some v \<longleftrightarrow> (\<exists>a x. M a = Some x \<and> key a = k \<and> val x = v))"

datatype ('a, 'x) col_op = Col_put 'a 'x | Col_clear file_id

definition col_abs :: "('a \<Rightarrow> file_id \<Rightarrow> bool) \<Rightarrow> ('a, 'x) col_op \<Rightarrow> ('a \<Rightarrow> 'x option) \<Rightarrow> 'a \<Rightarrow> 'x option" where
  "col_abs owned op M =
     (case op of Col_put a x \<Rightarrow> M(a \<mapsto> x) | Col_clear f \<Rightarrow> (\<lambda>a. if owned a f then None else M a))"

definition col_writes ::
    "'db rocks \<Rightarrow> 'db \<Rightarrow> cf \<Rightarrow> ('a \<Rightarrow> bytes) \<Rightarrow> ('x \<Rightarrow> bytes) \<Rightarrow> (file_id \<Rightarrow> bytes) \<Rightarrow> ('a, 'x) col_op \<Rightarrow> db_write list" where
  "col_writes R db c key val pre op =
     (case op of Col_put a x \<Rightarrow> [Put c (key a) (val x)] | Col_clear f \<Rightarrow> prefix_dels R db c (pre f))"

lemma col_op_simps [simp]:
  "col_abs owned (Col_put a x) M = M(a \<mapsto> x)"
  "col_abs owned (Col_clear f) M = (\<lambda>a. if owned a f then None else M a)"
  "col_writes R db c key val pre (Col_put a x) = [Put c (key a) (val x)]"
  "col_writes R db c key val pre (Col_clear f) = prefix_dels R db c (pre f)"
  by (simp_all add: col_abs_def col_writes_def)

fun clears_first :: "('a \<Rightarrow> file_id \<Rightarrow> bool) \<Rightarrow> ('a, 'x) col_op list \<Rightarrow> bool" where
  "clears_first owned [] = True"
| "clears_first owned (op # ops) =
     ((case op of Col_put a x \<Rightarrow> \<forall>f. Col_clear f \<in> set ops \<longrightarrow> \<not> owned a f | Col_clear f \<Rightarrow> True)
      \<and> clears_first owned ops)"

lemma clears_first_append:
  "clears_first owned (xs @ ys) \<longleftrightarrow>
     clears_first owned xs \<and> clears_first owned ys
     \<and> (\<forall>a x f. Col_put a x \<in> set xs \<and> Col_clear f \<in> set ys \<longrightarrow> \<not> owned a f)"
proof (induction xs)
  case (Cons op xs)
  then show ?case by (cases op) (simp_all, blast+)
qed simp

context file_keys
begin

lemma holds_put:
  assumes "column_holds key val M g" "dom M \<subseteq> Collect ok" "ok a"
  shows "column_holds key val (M(a \<mapsto> x)) (\<lambda>k. if key a = k then Some (val x) else g k)"
  unfolding column_holds_def
proof (intro allI)
  fix k v
  show "(if key a = k then Some (val x) else g k) = Some v \<longleftrightarrow>
      (\<exists>b y. (M(a \<mapsto> x)) b = Some y \<and> key b = k \<and> val y = v)"
  proof (cases "key a = k")
    case True
    have "b = a" if b: "(M(a \<mapsto> x)) b = Some y" and k: "key b = k" for b y
    proof -
      have "ok b" using b assms(2,3) by (cases "b = a") auto
      then show ?thesis using key_inj [OF _ assms(3)] k True by metis
    qed
    with True show ?thesis by (metis (no_types) fun_upd_same option.inject)
  next
    case False
    with assms(1) show ?thesis by (auto simp: column_holds_def)
  qed
qed

lemma holds_clear:
  assumes "column_holds key val M g" "dom M \<subseteq> Collect ok"
  shows "column_holds key val (\<lambda>a. if owned a f then None else M a) (\<lambda>k. if prefix (pre f) k then None else g k)"
  unfolding column_holds_def
proof (intro allI)
  fix k v
  have "owned a f \<longleftrightarrow> prefix (pre f) (key a)" if "M a = Some x" for a x
    using that assms(2) key_owner [of a f] by auto
  with assms(1) show "(if prefix (pre f) k then None else g k) = Some v \<longleftrightarrow>
      (\<exists>a x. (if owned a f then None else M a) = Some x \<and> key a = k \<and> val x = v)"
    unfolding column_holds_def by (smt (verit, best) option.distinct(1))
qed

text \<open>A session leaves the family holding what the operations make of the map.\<close>

lemma session:
  assumes "rocks_ok R" "column_holds key val M (rk_get R db c)" "dom M \<subseteq> Collect ok"
    and "clears_first owned ops" "\<forall>a x. Col_put a x \<in> set ops \<longrightarrow> ok a"
  shows "column_holds key val (fold (col_abs owned) ops M)
      (\<lambda>k. written (concat (map (col_writes R db c key val pre) ops)) c k (rk_get R db c k))
    \<and> dom (fold (col_abs owned) ops M) \<subseteq> Collect ok
    \<and> (\<forall>k. (\<forall>a x. Col_put a x \<in> set ops \<longrightarrow> key a \<noteq> k) \<longrightarrow>
         written (concat (map (col_writes R db c key val pre) ops)) c k (rk_get R db c k) \<in> {None, rk_get R db c k})"
  using assms(4,5)
proof (induction ops rule: rev_induct)
  case Nil
  then show ?case using assms(2,3) by (simp add: eta_contract_eq)
next
  case (snoc op ops)
  let ?g = "\<lambda>k. written (concat (map (col_writes R db c key val pre) ops)) c k (rk_get R db c k)"
  let ?M = "fold (col_abs owned) ops M"
  from snoc have IH: "column_holds key val ?M ?g" "dom ?M \<subseteq> Collect ok"
      "\<And>k. (\<forall>a x. Col_put a x \<in> set ops \<longrightarrow> key a \<noteq> k) \<Longrightarrow> ?g k \<in> {None, rk_get R db c k}"
    by (auto simp: clears_first_append)
  show ?case
  proof (cases op)
    case (Col_put a x)
    then have a: "ok a" using snoc.prems(2) by auto
    have W: "written (concat (map (col_writes R db c key val pre) (ops @ [op]))) c k (rk_get R db c k)
        = (if key a = k then Some (val x) else ?g k)" for k
      by (simp add: Col_put written_append written_Cons write_value_def)
    have F: "fold (col_abs owned) (ops @ [op]) M = ?M(a \<mapsto> x)" by (simp add: Col_put)
    show ?thesis
      unfolding W F
    proof (intro conjI allI impI)
      show "column_holds key val (?M(a \<mapsto> x)) (\<lambda>k. if key a = k then Some (val x) else ?g k)"
        by (rule holds_put [OF IH(1,2) a])
      show "dom (?M(a \<mapsto> x)) \<subseteq> Collect ok" using IH(2) a by simp
      fix k assume "\<forall>b y. Col_put b y \<in> set (ops @ [op]) \<longrightarrow> key b \<noteq> k"
      then show "(if key a = k then Some (val x) else ?g k) \<in> {None, rk_get R db c k}"
        using IH(3) [of k] by (auto simp: Col_put)
    qed
  next
    case (Col_clear f)
    have new: "\<forall>k. prefix (pre f) k \<longrightarrow> (\<forall>a x. Col_put a x \<in> set ops \<longrightarrow> key a \<noteq> k)"
      using snoc.prems key_owner by (fastforce simp: Col_clear clears_first_append)
    have W: "written (concat (map (col_writes R db c key val pre) (ops @ [op]))) c k (rk_get R db c k)
        = (if prefix (pre f) k then None else ?g k)" for k
      using new IH(3) [of k] by (auto simp: Col_clear written_append written_prefix_dels [OF assms(1)])
    have F: "fold (col_abs owned) (ops @ [op]) M = (\<lambda>a. if owned a f then None else ?M a)" by (simp add: Col_clear)
    show ?thesis
      unfolding W F
    proof (intro conjI allI impI)
      show "column_holds key val (\<lambda>a. if owned a f then None else ?M a) (\<lambda>k. if prefix (pre f) k then None else ?g k)"
        by (rule holds_clear [OF IH(1,2)])
      show "dom (\<lambda>a. if owned a f then None else ?M a) \<subseteq> Collect ok"
        by (rule subset_trans [OF _ IH(2)]) (auto split: if_splits)
      fix k assume "\<forall>b y. Col_put b y \<in> set (ops @ [op]) \<longrightarrow> key b \<noteq> k"
      then show "(if prefix (pre f) k then None else ?g k) \<in> {None, rk_get R db c k}"
        using IH(3) [of k] by (auto simp: Col_clear)
    qed
  qed
qed

lemma scan_holds:
  assumes "rocks_ok R" "column_holds key val M (rk_get R db c)" "dom M \<subseteq> Collect ok"
  shows "set (scan_prefix R db c (pre f)) = {(key a, val x) | a x. M a = Some x \<and> owned a f}"
proof -
  have "prefix (pre f) (key a) \<longleftrightarrow> owned a f" if "M a = Some x" for a x
    using that assms(3) key_owner [of a f] by auto
  then show ?thesis
    using assms(2) by (auto simp: scan_ok(1) [OF assms(1)] column_holds_def)
qed

end

lemma holds_get:
  assumes "column_holds key val M g" "inj key"
  shows "g (key a) = map_option val (M a)"
proof (cases "M a")
  case None
  then have "g (key a) \<noteq> Some v" for v using assms by (auto simp: column_holds_def dest: injD)
  with None show ?thesis by (cases "g (key a)") auto
next
  case (Some x)
  then have "g (key a) = Some (val x)" using assms(1) by (auto simp: column_holds_def)
  with Some show ?thesis by simp
qed

section \<open>The index as maps\<close>

text \<open>
  What the index promises: per file, the blooms of its chunks by dimension and checkpoint, the blooms
  of the file, the statistics of a dimension per checkpoint, the members, the metadata, and the
  names of the dimensions and of the columns.
\<close>

record index_view =
  iv_blooms :: "file_id \<times> bytes \<times> w64 \<Rightarrow> (w64 \<times> bytes) option"
  iv_file_blooms :: "file_id \<times> bytes \<Rightarrow> (w64 \<times> bytes) option"
  iv_dim_stats :: "file_id \<times> w64 \<times> bytes \<Rightarrow> dim_stats_row option"
  iv_members :: "file_id \<times> w64 \<Rightarrow> gzip_member option"
  iv_metadata :: "file_id \<Rightarrow> (w64 \<times> w64 \<times> w64) option"
  iv_names :: "(file_id \<times> bytes) + (file_id \<times> bytes) \<Rightarrow> bytes option"

definition view_empty :: index_view where
  "view_empty = \<lparr>iv_blooms = \<lambda>_. None, iv_file_blooms = \<lambda>_. None, iv_dim_stats = \<lambda>_. None, iv_members = \<lambda>_. None,
     iv_metadata = \<lambda>_. None, iv_names = \<lambda>_. None\<rparr>"

datatype index_op =
    Op_chunk_bloom file_id w64 bytes bytes w64
  | Op_file_bloom file_id bytes bytes w64
  | Op_dim_stats file_id w64 bytes dim_stats_row
  | Op_member file_id gzip_member
  | Op_metadata file_id w64 w64 w64
  | Op_dimension file_id bytes
  | Op_column file_id bytes bytes
  | Op_clear file_id

definition run_op :: "'db rocks \<Rightarrow> index_op \<Rightarrow> 'db writer \<Rightarrow> 'db writer" where
  "run_op R op =
     (case op of
        Op_chunk_bloom f i dm blob n \<Rightarrow> insert_chunk_bloom_filter f i dm blob n
      | Op_file_bloom f dm blob n \<Rightarrow> insert_file_bloom_filter f dm blob n
      | Op_dim_stats f i dm row \<Rightarrow> insert_chunk_dimension_stats f i dm row
      | Op_member f m \<Rightarrow> insert_gzip_member f m
      | Op_metadata f a b c \<Rightarrow> insert_file_metadata f a b c
      | Op_dimension f dm \<Rightarrow> insert_index_dimension f dm
      | Op_column f col ty \<Rightarrow> insert_column f col ty
      | Op_clear f \<Rightarrow> delete_file_contents R f)"

text \<open>One writer: its operations, then its commit.\<close>

definition run_session :: "'db rocks \<Rightarrow> 'db \<Rightarrow> index_op list \<Rightarrow> 'db" where
  "run_session R db ops = wr_db (commit R (fold (run_op R) ops (begin_write db)))"

definition run_sessions :: "'db rocks \<Rightarrow> 'db \<Rightarrow> index_op list list \<Rightarrow> 'db" where
  "run_sessions R db ss = foldl (run_session R) db ss"

definition apply_view :: "index_op \<Rightarrow> index_view \<Rightarrow> index_view" where
  "apply_view op v =
     (case op of
        Op_chunk_bloom f i dm blob n \<Rightarrow> v\<lparr>iv_blooms := (iv_blooms v)((f, dm, i) \<mapsto> (n, blob))\<rparr>
      | Op_file_bloom f dm blob n \<Rightarrow> v\<lparr>iv_file_blooms := (iv_file_blooms v)((f, dm) \<mapsto> (n, blob))\<rparr>
      | Op_dim_stats f i dm row \<Rightarrow> v\<lparr>iv_dim_stats := (iv_dim_stats v)((f, i, dm) \<mapsto> row)\<rparr>
      | Op_member f m \<Rightarrow> v\<lparr>iv_members := (iv_members v)((f, gm_idx m) \<mapsto> m)\<rparr>
      | Op_metadata f a b c \<Rightarrow> v\<lparr>iv_metadata := (iv_metadata v)(f \<mapsto> (a, b, c))\<rparr>
      | Op_dimension f dm \<Rightarrow> v\<lparr>iv_names := (iv_names v)(Inl (f, dm) \<mapsto> [])\<rparr>
      | Op_column f col ty \<Rightarrow> v\<lparr>iv_names := (iv_names v)(Inr (f, col) \<mapsto> ty)\<rparr>
      | Op_clear f \<Rightarrow>
          v\<lparr>iv_blooms := (\<lambda>(g, a). if g = f then None else iv_blooms v (g, a)),
            iv_file_blooms := (\<lambda>(g, a). if g = f then None else iv_file_blooms v (g, a)),
            iv_dim_stats := (\<lambda>(g, a). if g = f then None else iv_dim_stats v (g, a)),
            iv_members := (\<lambda>(g, a). if g = f then None else iv_members v (g, a)),
            iv_metadata := (\<lambda>g. if g = f then None else iv_metadata v g),
            iv_names := (\<lambda>a. case a of Inl (g, dm) \<Rightarrow> (if g = f then None else iv_names v a) | Inr _ \<Rightarrow> iv_names v a)\<rparr>)"

text \<open>
  A session is fit for the view when no dimension name holds a zero byte, the values have 32-bit
  lengths, and a file is cleared before anything is inserted for it: what is cleared are the rows
  of the database, not those staged. File ids from \<open>0x6D7C0000\<close> on start like the tag of the member
  keys and are left out.
\<close>

fun op_file :: "index_op \<Rightarrow> file_id" where
  "op_file (Op_chunk_bloom f i dm blob n) = f"
| "op_file (Op_file_bloom f dm blob n) = f"
| "op_file (Op_dim_stats f i dm row) = f"
| "op_file (Op_member f m) = f"
| "op_file (Op_metadata f a b c) = f"
| "op_file (Op_dimension f dm) = f"
| "op_file (Op_column f col ty) = f"
| "op_file (Op_clear f) = f"

fun op_ok :: "index_op \<Rightarrow> bool" where
  "op_ok (Op_chunk_bloom f i dm blob n) = (0 \<notin> set dm)"
| "op_ok (Op_dim_stats f i dm row) = dim_row_ok row"
| "op_ok (Op_clear f) = (f < 0x6D7C0000)"
| "op_ok op = True"

fun session_ok :: "index_op list \<Rightarrow> bool" where
  "session_ok [] = True"
| "session_ok (op # ops) =
     (op_ok op \<and> (op \<noteq> Op_clear (op_file op) \<longrightarrow> Op_clear (op_file op) \<notin> set ops) \<and> session_ok ops)"

section \<open>The batch of a session\<close>

definition op_writes :: "'db rocks \<Rightarrow> 'db \<Rightarrow> index_op \<Rightarrow> db_write list" where
  "op_writes R db op = wr_batch (run_op R op (begin_write db))"

lemmas insert_defs = insert_chunk_bloom_filter_def insert_file_bloom_filter_def insert_chunk_dimension_stats_def
  insert_gzip_member_def insert_file_metadata_def insert_index_dimension_def insert_column_def

lemma stage_simps [simp]:
  "wr_db (stage ws w) = wr_db w" "wr_batch (stage ws w) = wr_batch w @ ws"
  "wr_committed (stage ws w) = wr_committed w" "wr_cached_next (stage ws w) = wr_cached_next w"
  by (simp_all add: stage_def)

lemma begin_write_simps [simp]:
  "wr_db (begin_write db) = db" "wr_batch (begin_write db) = []" "\<not> wr_committed (begin_write db)"
  by (simp_all add: begin_write_def)

text \<open>The writes with which a file is cleared.\<close>

definition clear_writes :: "'db rocks \<Rightarrow> 'db \<Rightarrow> file_id \<Rightarrow> db_write list" where
  "clear_writes R db f =
     concat (map (\<lambda>(c, p). prefix_dels R db c p)
       [(Cf_members, prefix_for_file f), (Cf_members, gzip_member_prefix f), (Cf_metadata, prefix_for_file f),
        (Cf_chunk_bloom, prefix_for_file f), (Cf_file_bloom, prefix_for_file f), (Cf_chunk_stats, prefix_for_file f),
        (Cf_chunk_dim_stats, prefix_for_file f), (Cf_file_scalar_stats, prefix_for_file f),
        (Cf_file_cat_counts, prefix_for_file f), (Cf_file_name_counts, prefix_for_file f),
        (Cf_file_pid_tid_counts, prefix_for_file f)])
     @ concat (map (\<lambda>e. owner_dels Cf_name_file_postings f (name_file_owner_prefix f) False (fst e))
         (scan_prefix R db Cf_name_file_postings (name_file_owner_prefix f)))
     @ concat (map (\<lambda>e. owner_dels Cf_name_chunk_postings f (name_chunk_owner_prefix f) True (fst e))
         (scan_prefix R db Cf_name_chunk_postings (name_chunk_owner_prefix f)))
     @ prefix_dels R db Cf_dimensions (text_bytes ''d|'' @ prefix_for_file f)"

lemma delete_file_contents_writes:
  "wr_batch (delete_file_contents R f w) = wr_batch w @ clear_writes R (wr_db w) f"
  "wr_db (delete_file_contents R f w) = wr_db w"
  "wr_committed (delete_file_contents R f w) = wr_committed w"
  "wr_cached_next (delete_file_contents R f w) = wr_cached_next w"
  by (simp_all add: delete_file_contents_def clear_writes_def delete_prefix_def delete_name_postings_by_owner_def)

lemma run_op_writes:
  "wr_batch (run_op R op w) = wr_batch w @ op_writes R (wr_db w) op"
  "wr_db (run_op R op w) = wr_db w" "wr_committed (run_op R op w) = wr_committed w"
  by (cases op; simp add: run_op_def op_writes_def insert_defs delete_file_contents_writes)+

lemma session_batch:
  "wr_batch (fold (run_op R) ops w) = wr_batch w @ concat (map (op_writes R (wr_db w)) ops)
   \<and> wr_db (fold (run_op R) ops w) = wr_db w \<and> wr_committed (fold (run_op R) ops w) = wr_committed w"
  by (induction ops arbitrary: w) (simp_all add: run_op_writes)

lemma run_session_commit: "run_session R db ops = rk_commit R db (concat (map (op_writes R db) ops))"
  by (simp add: run_session_def commit_def session_batch)

lemma op_writes_simps [simp]:
  "op_writes R db (Op_chunk_bloom f i dm blob n) = [Put Cf_chunk_bloom (chunk_bloom_key f dm i) (encode_bloom_value blob n)]"
  "op_writes R db (Op_file_bloom f dm blob n) = [Put Cf_file_bloom (file_bloom_key f dm) (encode_bloom_value blob n)]"
  "op_writes R db (Op_dim_stats f i dm row) =
     [Put Cf_chunk_dim_stats (chunk_dim_stats_key f i dm) (encode_chunk_dimension_stats_value row)]"
  "op_writes R db (Op_member f m) = [Put Cf_members (gzip_member_key f (gm_idx m)) (encode_gzip_member_value m)]"
  "op_writes R db (Op_metadata f a b c) = [Put Cf_metadata (metadata_key f) (encode_metadata_record a b c)]"
  "op_writes R db (Op_dimension f dm) = [Put Cf_dimensions (make_dimension_key f dm) []]"
  "op_writes R db (Op_column f col ty) = [Put Cf_dimensions (make_column_key f col) ty]"
  "op_writes R db (Op_clear f) = clear_writes R db f"
  by (simp_all add: op_writes_def run_op_def insert_defs delete_file_contents_writes)

lemma filter_prefix_dels [simp]:
  "filter (\<lambda>w. wr_cf w = c) (prefix_dels R db c' p) = (if c' = c then prefix_dels R db c p else [])"
  by (auto simp: prefix_dels_def filter_map o_def)

lemma filter_owner_dels:
  "c' \<noteq> c \<Longrightarrow> filter (\<lambda>w. wr_cf w = c) (concat (map (\<lambda>e. owner_dels c' f p b (fst e)) xs)) = []"
  by (induction xs) (auto simp: owner_dels_def Let_def)

definition content_cf :: "cf \<Rightarrow> bool" where
  "content_cf c \<longleftrightarrow> c \<in> {Cf_metadata, Cf_chunk_bloom, Cf_file_bloom, Cf_chunk_stats, Cf_chunk_dim_stats,
     Cf_file_scalar_stats, Cf_file_cat_counts, Cf_file_name_counts, Cf_file_pid_tid_counts}"

lemma filter_clear_writes:
  "content_cf c \<Longrightarrow> filter (\<lambda>w. wr_cf w = c) (clear_writes R db f) = prefix_dels R db c (prefix_for_file f)"
  "filter (\<lambda>w. wr_cf w = Cf_dimensions) (clear_writes R db f)
     = prefix_dels R db Cf_dimensions (text_bytes ''d|'' @ prefix_for_file f)"
  "filter (\<lambda>w. wr_cf w = Cf_members) (clear_writes R db f)
     = prefix_dels R db Cf_members (prefix_for_file f) @ prefix_dels R db Cf_members (gzip_member_prefix f)"
  by (auto simp: clear_writes_def filter_owner_dels content_cf_def)

lemma filter_clear_default: "filter (\<lambda>w. wr_cf w = Cf_default) (clear_writes R db f) = []"
  by (simp add: clear_writes_def filter_owner_dels)

text \<open>A session seen from one column family.\<close>

context file_keys
begin

lemma column_session:
  assumes "rocks_ok R" "column_holds key val M (rk_get R db c)" "dom M \<subseteq> Collect ok"
    and "\<And>op. op \<in> set ops \<Longrightarrow> filter (\<lambda>w. wr_cf w = c) (op_writes R db op) = concat (map (col_writes R db c key val pre) (proj op))"
    and "clears_first owned (concat (map proj ops))" "\<forall>a x. Col_put a x \<in> set (concat (map proj ops)) \<longrightarrow> ok a"
  shows "column_holds key val (fold (col_abs owned) (concat (map proj ops)) M) (rk_get R (run_session R db ops) c)
    \<and> dom (fold (col_abs owned) (concat (map proj ops)) M) \<subseteq> Collect ok"
proof -
  have f: "filter (\<lambda>w. wr_cf w = c) (concat (map (op_writes R db) ops))
      = concat (map (col_writes R db c key val pre) (concat (map proj ops)))"
    using assms(4) by (induction ops) simp_all
  have "rk_get R (run_session R db ops) c
      = (\<lambda>k. written (concat (map (col_writes R db c key val pre) (concat (map proj ops)))) c k (rk_get R db c k))"
    by (rule ext) (simp only: run_session_commit get_commit [OF assms(1)] flip: f, simp only: written_filter)
  then show ?thesis using session [OF assms(1-3,5,6)] by simp
qed

end

section \<open>The columns of the view\<close>

fun bloom_ops :: "index_op \<Rightarrow> (file_id \<times> bytes \<times> w64, w64 \<times> bytes) col_op list" where
  "bloom_ops (Op_chunk_bloom f i dm blob n) = [Col_put (f, dm, i) (n, blob)]"
| "bloom_ops (Op_clear f) = [Col_clear f]"
| "bloom_ops op = []"

fun file_bloom_ops :: "index_op \<Rightarrow> (file_id \<times> bytes, w64 \<times> bytes) col_op list" where
  "file_bloom_ops (Op_file_bloom f dm blob n) = [Col_put (f, dm) (n, blob)]"
| "file_bloom_ops (Op_clear f) = [Col_clear f]"
| "file_bloom_ops op = []"

fun dim_stats_ops :: "index_op \<Rightarrow> (file_id \<times> w64 \<times> bytes, dim_stats_row) col_op list" where
  "dim_stats_ops (Op_dim_stats f i dm row) = [Col_put (f, i, dm) row]"
| "dim_stats_ops (Op_clear f) = [Col_clear f]"
| "dim_stats_ops op = []"

fun member_ops :: "index_op \<Rightarrow> (file_id \<times> w64, gzip_member) col_op list" where
  "member_ops (Op_member f m) = [Col_put (f, gm_idx m) m]"
| "member_ops (Op_clear f) = [Col_clear f]"
| "member_ops op = []"

fun metadata_ops :: "index_op \<Rightarrow> (file_id, w64 \<times> w64 \<times> w64) col_op list" where
  "metadata_ops (Op_metadata f a b c) = [Col_put f (a, b, c)]"
| "metadata_ops (Op_clear f) = [Col_clear f]"
| "metadata_ops op = []"

fun name_ops :: "index_op \<Rightarrow> ((file_id \<times> bytes) + (file_id \<times> bytes), bytes) col_op list" where
  "name_ops (Op_dimension f dm) = [Col_put (Inl (f, dm)) []]"
| "name_ops (Op_column f col ty) = [Col_put (Inr (f, col)) ty]"
| "name_ops (Op_clear f) = [Col_clear f]"
| "name_ops op = []"

lemma bloom_ops_mem [simp]:
  "Col_clear f \<in> set (bloom_ops op) \<longleftrightarrow> op = Op_clear f"
  "Col_put a x \<in> set (bloom_ops op) \<longleftrightarrow> (\<exists>f i dm blob n. op = Op_chunk_bloom f i dm blob n \<and> a = (f, dm, i) \<and> x = (n, blob))"
  "clears_first owned (bloom_ops op)"
  by (cases op; auto)+

lemma file_bloom_ops_mem [simp]:
  "Col_clear f \<in> set (file_bloom_ops op) \<longleftrightarrow> op = Op_clear f"
  "Col_put a x \<in> set (file_bloom_ops op) \<longleftrightarrow> (\<exists>f dm blob n. op = Op_file_bloom f dm blob n \<and> a = (f, dm) \<and> x = (n, blob))"
  "clears_first owned (file_bloom_ops op)"
  by (cases op; auto)+

lemma dim_stats_ops_mem [simp]:
  "Col_clear f \<in> set (dim_stats_ops op) \<longleftrightarrow> op = Op_clear f"
  "Col_put a x \<in> set (dim_stats_ops op) \<longleftrightarrow> (\<exists>f i dm. op = Op_dim_stats f i dm x \<and> a = (f, i, dm))"
  "clears_first owned (dim_stats_ops op)"
  by (cases op; auto)+

lemma member_ops_mem [simp]:
  "Col_clear f \<in> set (member_ops op) \<longleftrightarrow> op = Op_clear f"
  "Col_put a x \<in> set (member_ops op) \<longleftrightarrow> (\<exists>f. op = Op_member f x \<and> a = (f, gm_idx x))"
  "clears_first owned (member_ops op)"
  by (cases op; auto)+

lemma metadata_ops_mem [simp]:
  "Col_clear f \<in> set (metadata_ops op) \<longleftrightarrow> op = Op_clear f"
  "Col_put a x \<in> set (metadata_ops op) \<longleftrightarrow> (\<exists>l m u. op = Op_metadata a l m u \<and> x = (l, m, u))"
  "clears_first owned (metadata_ops op)"
  by (cases op; auto)+

lemma name_ops_mem [simp]:
  "Col_clear f \<in> set (name_ops op) \<longleftrightarrow> op = Op_clear f"
  "Col_put a x \<in> set (name_ops op) \<longleftrightarrow> ((\<exists>f dm. op = Op_dimension f dm \<and> a = Inl (f, dm) \<and> x = []) \<or> (\<exists>f col. op = Op_column f col x \<and> a = Inr (f, col)))"
  "clears_first owned (name_ops op)"
  by (cases op; auto)+

lemma fold_column:
  assumes "\<And>op v. sel (apply_view op v) = fold g (proj op) (sel v)"
  shows "sel (fold apply_view ops v) = fold g (concat (map proj ops)) (sel v)"
  by (induction ops arbitrary: v) (simp_all add: assms)

lemma view_columns:
  "iv_blooms (fold apply_view ops v) = fold (col_abs (\<lambda>(f, dm, i) g. f = g)) (concat (map bloom_ops ops)) (iv_blooms v)"
  "iv_file_blooms (fold apply_view ops v) = fold (col_abs (\<lambda>(f, dm) g. f = g)) (concat (map file_bloom_ops ops)) (iv_file_blooms v)"
  "iv_dim_stats (fold apply_view ops v) = fold (col_abs (\<lambda>(f, i, dm) g. f = g)) (concat (map dim_stats_ops ops)) (iv_dim_stats v)"
  "iv_members (fold apply_view ops v) = fold (col_abs (\<lambda>(f, i) g. f = g)) (concat (map member_ops ops)) (iv_members v)"
  "iv_metadata (fold apply_view ops v) = fold (col_abs (\<lambda>f g. f = g)) (concat (map metadata_ops ops)) (iv_metadata v)"
  "iv_names (fold apply_view ops v)
     = fold (col_abs (\<lambda>a g. case a of Inl (f, dm) \<Rightarrow> f = g | Inr _ \<Rightarrow> False)) (concat (map name_ops ops)) (iv_names v)"
  by (rule fold_column, rename_tac op v, case_tac op; auto simp: apply_view_def fun_eq_iff split: sum.split)+

lemma clears_first_session:
  assumes "session_ok ops"
    and "\<And>op f. Col_clear f \<in> set (proj op) \<Longrightarrow> op = Op_clear f"
    and "\<And>op a x. Col_put a x \<in> set (proj op) \<Longrightarrow> op \<noteq> Op_clear (op_file op) \<and> (\<forall>g. owned a g \<longrightarrow> g = op_file op)"
    and "\<And>op. clears_first owned (proj op)"
  shows "clears_first owned (concat (map proj ops))"
  using assms(1)
proof (induction ops)
  case (Cons op ops)
  have "\<not> owned a f" if p: "Col_put a x \<in> set (proj op)" and c: "Col_clear f \<in> set (concat (map proj ops))" for a x f
  proof
    assume "owned a f"
    then have "f = op_file op" "op \<noteq> Op_clear (op_file op)" using assms(3) [OF p] by auto
    moreover have "Op_clear f \<in> set ops" using c assms(2) by auto
    ultimately show False using Cons.prems by simp
  qed
  then show ?case using Cons assms(4) [of op] by (auto simp: clears_first_append)
qed simp

lemma member_key_tag:
  assumes "f < 0x6D7C0000" shows "\<not> prefix (prefix_for_file f) (gzip_member_key g i)"
proof
  assume "prefix (prefix_for_file f) (gzip_member_key g i)"
  then obtain r where r: "put_be32 f @ r = gzip_member_key g i" by (auto simp: prefix_def prefix_for_file_def)
  have "put_be32 f = take 4 (put_be32 f @ r)" by simp
  also have "\<dots> = [0x6D, 0x7C] @ take 2 (put_be32 g)"
    unfolding r gzip_member_key_def gzip_member_prefix_def by (simp add: text_bytes_def)
  finally have "be_nat (put_be32 f) = 0x6D7C * 256 ^ 2 + be_nat (take 2 (put_be32 g))" by simp
  moreover have "be_nat (put_be32 f) = unat f"
  proof -
    have u: "unat (ucast f :: w64) = unat f" by (simp add: unsigned_ucast_eq) (use unsigned_less [of f, where 'a = nat] in \<open>simp add: take_bit_nat_eq_self\<close>)
    show ?thesis using unsigned_less [of f, where 'a = nat] by (simp add: put_be32_def be_nat_put_be u)
  qed
  moreover have "unat f < 0x6D7C * 256 ^ 2" using assms by (simp add: word_less_nat_alt)
  ultimately show False by simp
qed

text \<open>The database holds the view.\<close>

definition view_holds :: "'db rocks \<Rightarrow> 'db \<Rightarrow> index_view \<Rightarrow> bool" where
  "view_holds R db v \<longleftrightarrow>
     column_holds (\<lambda>(f, dm, i). chunk_bloom_key f dm i) (\<lambda>(n, blob). encode_bloom_value blob n) (iv_blooms v)
       (rk_get R db Cf_chunk_bloom) \<and> dom (iv_blooms v) \<subseteq> {(f, dm, i). 0 \<notin> set dm}
     \<and> column_holds (\<lambda>(f, dm). file_bloom_key f dm) (\<lambda>(n, blob). encode_bloom_value blob n) (iv_file_blooms v)
       (rk_get R db Cf_file_bloom)
     \<and> column_holds (\<lambda>(f, i, dm). chunk_dim_stats_key f i dm) encode_chunk_dimension_stats_value (iv_dim_stats v)
       (rk_get R db Cf_chunk_dim_stats) \<and> (\<forall>a row. iv_dim_stats v a = Some row \<longrightarrow> dim_row_ok row)
     \<and> column_holds (\<lambda>(f, i). gzip_member_key f i) encode_gzip_member_value (iv_members v) (rk_get R db Cf_members)
     \<and> (\<forall>f i m. iv_members v (f, i) = Some m \<longrightarrow> gm_idx m = i)
     \<and> column_holds metadata_key (\<lambda>(a, b, c). encode_metadata_record a b c) (iv_metadata v) (rk_get R db Cf_metadata)
     \<and> column_holds (\<lambda>a. case a of Inl (f, dm) \<Rightarrow> make_dimension_key f dm | Inr (f, col) \<Rightarrow> make_column_key f col)
       (\<lambda>x. x) (iv_names v) (rk_get R db Cf_dimensions)"

lemma fold_view_values:
  assumes "\<forall>a row. iv_dim_stats v a = Some row \<longrightarrow> dim_row_ok row" "\<forall>f i m. iv_members v (f, i) = Some m \<longrightarrow> gm_idx m = i"
    and "\<forall>op \<in> set ops. op_ok op"
  shows "(\<forall>a row. iv_dim_stats (fold apply_view ops v) a = Some row \<longrightarrow> dim_row_ok row)
    \<and> (\<forall>f i m. iv_members (fold apply_view ops v) (f, i) = Some m \<longrightarrow> gm_idx m = i)"
  using assms
proof (induction ops arbitrary: v)
  case (Cons op ops)
  show ?case
    unfolding fold.simps o_apply
  proof (rule Cons.IH)
    show "\<forall>a row. iv_dim_stats (apply_view op v) a = Some row \<longrightarrow> dim_row_ok row"
      using Cons.prems by (cases op) (auto simp: apply_view_def)
    show "\<forall>f i m. iv_members (apply_view op v) (f, i) = Some m \<longrightarrow> gm_idx m = i"
      using Cons.prems by (cases op) (auto simp: apply_view_def split: if_splits)
  qed (use Cons.prems in simp)
qed simp

lemma session_ok_ops: "session_ok ops \<Longrightarrow> op \<in> set ops \<Longrightarrow> op_ok op"
  by (induction ops) auto

lemma metadata_is_summary: "metadata_key = file_summary_key"
  by (simp add: fun_eq_iff metadata_key_def file_summary_key_def)

text \<open>A session takes the database from one view to the next.\<close>

lemma op_columns:
  "filter (\<lambda>w. wr_cf w = Cf_chunk_bloom) (op_writes R db op)
     = concat (map (col_writes R db Cf_chunk_bloom (\<lambda>(f, dm, i). chunk_bloom_key f dm i)
         (\<lambda>(n, blob). encode_bloom_value blob n) prefix_for_file) (bloom_ops op))"
  "filter (\<lambda>w. wr_cf w = Cf_file_bloom) (op_writes R db op)
     = concat (map (col_writes R db Cf_file_bloom (\<lambda>(f, dm). file_bloom_key f dm)
         (\<lambda>(n, blob). encode_bloom_value blob n) prefix_for_file) (file_bloom_ops op))"
  "filter (\<lambda>w. wr_cf w = Cf_chunk_dim_stats) (op_writes R db op)
     = concat (map (col_writes R db Cf_chunk_dim_stats (\<lambda>(f, i, dm). chunk_dim_stats_key f i dm)
         encode_chunk_dimension_stats_value prefix_for_file) (dim_stats_ops op))"
  "filter (\<lambda>w. wr_cf w = Cf_metadata) (op_writes R db op)
     = concat (map (col_writes R db Cf_metadata file_summary_key
         (\<lambda>(l, m, u). encode_metadata_record l m u) prefix_for_file) (metadata_ops op))"
  "filter (\<lambda>w. wr_cf w = Cf_dimensions) (op_writes R db op)
     = concat (map (col_writes R db Cf_dimensions (\<lambda>a. case a of Inl (f, dm) \<Rightarrow> make_dimension_key f dm | Inr (f, col) \<Rightarrow> make_column_key f col)
         (\<lambda>x. x) (\<lambda>f. text_bytes ''d|'' @ prefix_for_file f)) (name_ops op))"
  by (cases op; simp add: content_cf_def filter_clear_writes metadata_is_summary)+

lemma member_op_columns:
  assumes "rocks_ok R" "column_holds (\<lambda>(f, i). gzip_member_key f i) encode_gzip_member_value M (rk_get R db Cf_members)"
    and "op_ok op"
  shows "filter (\<lambda>w. wr_cf w = Cf_members) (op_writes R db op)
     = concat (map (col_writes R db Cf_members (\<lambda>(f, i). gzip_member_key f i) encode_gzip_member_value gzip_member_prefix)
         (member_ops op))"
proof -
  have "prefix_dels R db Cf_members (prefix_for_file f) = []" if f: "f < 0x6D7C0000" for f
  proof -
    have "\<not> (prefix (prefix_for_file f) k \<and> rk_get R db Cf_members k = Some x)" for k x
      using member_key_tag [OF f] assms(2) by (auto simp: column_holds_def)
    then have "set (scan_prefix R db Cf_members (prefix_for_file f)) = {}" by (auto simp: scan_ok(1) [OF assms(1)])
    then show ?thesis by (simp add: prefix_dels_def)
  qed
  with assms(3) show ?thesis by (cases op) (simp_all add: filter_clear_writes)
qed

text \<open>A session takes the database from one view to the next.\<close>

lemma view_session:
  assumes "rocks_ok R" "view_holds R db v" "session_ok ops"
  shows "view_holds R (run_session R db ops) (fold apply_view ops v)"
proof -
  note ok = session_ok_ops [OF assms(3)]
  note h = assms(2) [unfolded view_holds_def]
  have C: "clears_first (\<lambda>(f, dm, i) g. f = g) (concat (map bloom_ops ops))"
      "clears_first (\<lambda>(f, dm) g. f = g) (concat (map file_bloom_ops ops))"
      "clears_first (\<lambda>(f, i, dm) g. f = g) (concat (map dim_stats_ops ops))"
      "clears_first (\<lambda>(f, i) g. f = g) (concat (map member_ops ops))"
      "clears_first (\<lambda>f g. f = g) (concat (map metadata_ops ops))"
      "clears_first (\<lambda>a g. case a of Inl (f, dm) \<Rightarrow> f = g | Inr _ \<Rightarrow> False) (concat (map name_ops ops))"
    by (rule clears_first_session [OF assms(3)]; auto split: sum.splits)+
  have K: "\<forall>a x. Col_put a x \<in> set (concat (map bloom_ops ops)) \<longrightarrow> (case a of (f, dm, i) \<Rightarrow> 0 \<notin> set dm)" using ok by fastforce
  have 1: "column_holds (\<lambda>(f, dm, i). chunk_bloom_key f dm i) (\<lambda>(n, blob). encode_bloom_value blob n)
      (iv_blooms (fold apply_view ops v)) (rk_get R (run_session R db ops) Cf_chunk_bloom)
      \<and> dom (iv_blooms (fold apply_view ops v)) \<subseteq> {(f, dm, i). 0 \<notin> set dm}"
    unfolding view_columns using h by (intro chunk_blooms.column_session [OF assms(1) _ _ op_columns(1) C(1) K]) auto
  have 2: "column_holds (\<lambda>(f, dm). file_bloom_key f dm) (\<lambda>(n, blob). encode_bloom_value blob n)
      (iv_file_blooms (fold apply_view ops v)) (rk_get R (run_session R db ops) Cf_file_bloom)"
    unfolding view_columns using h 
    by (intro file_blooms.column_session [OF assms(1) _ _ op_columns(2) C(2), THEN conjunct1]) (auto simp: metadata_is_summary)
  have 3: "column_holds (\<lambda>(f, i, dm). chunk_dim_stats_key f i dm) encode_chunk_dimension_stats_value
      (iv_dim_stats (fold apply_view ops v)) (rk_get R (run_session R db ops) Cf_chunk_dim_stats)"
    unfolding view_columns using h 
    by (intro dim_stats.column_session [OF assms(1) _ _ op_columns(3) C(3), THEN conjunct1]) (auto simp: metadata_is_summary)
  have 4: "column_holds (\<lambda>(f, i). gzip_member_key f i) encode_gzip_member_value
      (iv_members (fold apply_view ops v)) (rk_get R (run_session R db ops) Cf_members)"
    unfolding view_columns using h ok
    by (intro members.column_session [OF assms(1) _ _ member_op_columns [OF assms(1)] C(4), THEN conjunct1]) (auto simp: metadata_is_summary)
  have 5: "column_holds file_summary_key (\<lambda>(l, m, u). encode_metadata_record l m u)
      (iv_metadata (fold apply_view ops v)) (rk_get R (run_session R db ops) Cf_metadata)"
    unfolding view_columns using h 
    by (intro summaries.column_session [OF assms(1) _ _ op_columns(4) C(5), THEN conjunct1]) (auto simp: metadata_is_summary)
  have 6: "column_holds (\<lambda>a. case a of Inl (f, dm) \<Rightarrow> make_dimension_key f dm | Inr (f, col) \<Rightarrow> make_column_key f col) (\<lambda>x. x)
      (iv_names (fold apply_view ops v)) (rk_get R (run_session R db ops) Cf_dimensions)"
    unfolding view_columns using h 
    by (intro dimensions.column_session [OF assms(1) _ _ op_columns(5) C(6), THEN conjunct1]) (auto simp: metadata_is_summary)
  show ?thesis
    unfolding view_holds_def
    using 1 2 3 4 5 6 fold_view_values [of v ops] h ok by (simp add: metadata_is_summary)
qed

section \<open>What the queries return\<close>

lemma holdsD: "column_holds key val M g \<Longrightarrow> g k = Some x \<Longrightarrow> \<exists>a y. M a = Some y \<and> key a = k \<and> val y = x"
  by (simp add: column_holds_def)

lemma holdsI: "column_holds key val M g \<Longrightarrow> M a = Some y \<Longrightarrow> g (key a) = Some (val y)"
  by (auto simp: column_holds_def)

lemma those_map: "\<forall>e \<in> set es. f e = Some (g e) \<Longrightarrow> those (map f es) = Some (map g es)"
  by (induction es) auto

text \<open>A scan whose rows are the encoded entries of \<open>A\<close>, decoded row by row.\<close>

lemma scan_decode:
  assumes "rocks_ok R" "set (scan_prefix R db c p) = (\<lambda>a. (key a, val a)) ` A"
    and "\<And>a. a \<in> A \<Longrightarrow> dec (key a) (val a) = Some (res a)"
  obtains xs where "those (map (\<lambda>(k, v). dec k v) (scan_prefix R db c p)) = Some xs" "set xs = res ` A"
    and "\<And>ord. (\<And>a b. a \<in> A \<Longrightarrow> b \<in> A \<Longrightarrow> key a < key b \<Longrightarrow> ord (res a) (res b)) \<Longrightarrow> sorted_wrt ord xs"
proof -
  let ?es = "scan_prefix R db c p" and ?g = "\<lambda>(k, v). the (dec k v)"
  have "\<forall>e \<in> set ?es. (\<lambda>(k, v). dec k v) e = Some (?g e)" using assms(2,3) by auto
  from those_map [OF this] have t: "those (map (\<lambda>(k, v). dec k v) ?es) = Some (map ?g ?es)" .
  have s: "set (map ?g ?es) = res ` A" using assms(2,3) by (auto simp: image_image intro!: image_cong)
  have "sorted_wrt ord (map ?g ?es)"
    if o: "\<And>a b. a \<in> A \<Longrightarrow> b \<in> A \<Longrightarrow> key a < key b \<Longrightarrow> ord (res a) (res b)" for ord
  proof -
    have "sorted_wrt (\<lambda>e e'. fst e < fst e') ?es" using scan_ok(2) [OF assms(1), of db c p] by (simp add: sorted_wrt_map)
    then have "sorted_wrt (\<lambda>e e'. ord (?g e) (?g e')) ?es"
      by (rule sorted_wrt_mono_rel [rotated]) (use assms(2,3) o in auto)
    then show ?thesis by (simp add: sorted_wrt_map)
  qed
  with t s that show ?thesis by blast
qed

lemma sorted_wrt_weaken: "sorted_wrt (\<lambda>a b. f a < (f b :: 'k :: linorder)) xs \<Longrightarrow> sort_key f xs = xs"
proof (induction xs)
  case (Cons x xs)
  then have "\<forall>y \<in> set xs. f x \<le> f y" by (auto intro: less_imp_le)
  with Cons show ?case by (simp add: insort_is_Cons)
qed simp

lemma chunk_bloom_key_less: "chunk_bloom_key f dm i < chunk_bloom_key f dm j \<longleftrightarrow> i < j"
  by (simp add: chunk_bloom_key_def append_less Cons_less_Cons be64_less)

lemma member_key_less: "gzip_member_key f i < gzip_member_key f j \<longleftrightarrow> i < j"
  by (simp add: gzip_member_key_def append_less be64_less)

lemma dim_stats_key_less: "chunk_dim_stats_key f i dm < chunk_dim_stats_key f j dm' \<longleftrightarrow> (i, dm) < (j, dm')"
  by (auto simp: chunk_dim_stats_key_def append_less be64_less less_prod_simp)

lemma bloom_scan:
  assumes "rocks_ok R" "view_holds R db v" "0 \<notin> set dm"
  shows "set (scan_prefix R db Cf_chunk_bloom (prefix_for_file f @ dm @ [0]))
    = (\<lambda>(i, n, blob). (chunk_bloom_key f dm i, encode_bloom_value blob n)) ` {(i, n, blob). iv_blooms v (f, dm, i) = Some (n, blob)}"
proof -
  have p: "prefix (prefix_for_file f @ dm @ [0]) (chunk_bloom_key g e i) \<longleftrightarrow> g = f \<and> e = dm" if "0 \<notin> set e" for g e i
  proof
    assume "prefix (prefix_for_file f @ dm @ [0]) (chunk_bloom_key g e i)"
    then obtain r where "put_be32 g @ e @ 0 # put_be64 i = put_be32 f @ dm @ 0 # r"
      by (auto simp: prefix_def chunk_bloom_key_def prefix_for_file_def)
    then show "g = f \<and> e = dm" using zero_split [OF that assms(3)] by (auto simp: put_be32_eq)
  qed (auto simp: chunk_bloom_key_def prefix_def)
  have h: "column_holds (\<lambda>(f, dm, i). chunk_bloom_key f dm i) (\<lambda>(n, blob). encode_bloom_value blob n) (iv_blooms v)
      (rk_get R db Cf_chunk_bloom)" and d: "dom (iv_blooms v) \<subseteq> {(f, dm, i). 0 \<notin> set dm}"
    using assms(2) by (simp_all add: view_holds_def)
  show ?thesis
    unfolding scan_ok(1) [OF assms(1)]
  proof (intro set_eqI iffI)
    fix e assume "e \<in> {(k, x). prefix (prefix_for_file f @ dm @ [0]) k \<and> rk_get R db Cf_chunk_bloom k = Some x}"
    then obtain k x where e: "e = (k, x)" "prefix (prefix_for_file f @ dm @ [0]) k" "rk_get R db Cf_chunk_bloom k = Some x"
      by auto
    from holdsD [OF h e(3)] obtain g c i n blob where a: "iv_blooms v (g, c, i) = Some (n, blob)"
        "chunk_bloom_key g c i = k" "encode_bloom_value blob n = x" by auto
    with d have "0 \<notin> set c" by auto
    with p [of c g i] a e show "e \<in> (\<lambda>(i, n, blob). (chunk_bloom_key f dm i, encode_bloom_value blob n))
        ` {(i, n, blob). iv_blooms v (f, dm, i) = Some (n, blob)}" by (auto simp: image_def)
  next
    fix e assume "e \<in> (\<lambda>(i, n, blob). (chunk_bloom_key f dm i, encode_bloom_value blob n))
        ` {(i, n, blob). iv_blooms v (f, dm, i) = Some (n, blob)}"
    then obtain i n blob where a: "iv_blooms v (f, dm, i) = Some (n, blob)"
        "e = (chunk_bloom_key f dm i, encode_bloom_value blob n)" by auto
    with holdsI [OF h a(1)] p [OF assms(3)]
    show "e \<in> {(k, x). prefix (prefix_for_file f @ dm @ [0]) k \<and> rk_get R db Cf_chunk_bloom k = Some x}" by auto
  qed
qed

lemma query_blooms:
  assumes "rocks_ok R" "view_holds R db v" "0 \<notin> set dm"
  shows "\<exists>xs. query_chunk_bloom_filters R db f dm = Some xs \<and> sorted_wrt (<) (map cb_checkpoint xs)
    \<and> set xs = {\<lparr>cb_checkpoint = i, cb_entries = n, cb_data = blob\<rparr> | i n blob. iv_blooms v (f, dm, i) = Some (n, blob)}"
proof -
  let ?A = "{(i, n, blob). iv_blooms v (f, dm, i) = Some (n, blob)}"
  have s: "set (scan_prefix R db Cf_chunk_bloom (prefix_for_file f @ dm @ [0]))
      = (\<lambda>a. ((\<lambda>(i, n, blob). chunk_bloom_key f dm i) a, (\<lambda>(i, n, blob). encode_bloom_value blob n) a)) ` ?A"
    unfolding bloom_scan [OF assms] by (rule image_cong) auto
  have l: "length (prefix_for_file f @ dm @ [0]) - 1 = 4 + length dm" by (simp add: prefix_for_file_def)
  obtain xs where xs:
      "those (map (\<lambda>(k, v). decode_chunk_bloom k v (length (prefix_for_file f @ dm @ [0]) - 1))
         (scan_prefix R db Cf_chunk_bloom (prefix_for_file f @ dm @ [0]))) = Some xs"
      "set xs = (\<lambda>(i, n, blob). \<lparr>cb_checkpoint = i, cb_entries = n, cb_data = blob\<rparr>) ` ?A"
      "\<And>ord. (\<And>a b. a \<in> ?A \<Longrightarrow> b \<in> ?A \<Longrightarrow> (\<lambda>(i, n, blob). chunk_bloom_key f dm i) a < (\<lambda>(i, n, blob). chunk_bloom_key f dm i) b
         \<Longrightarrow> ord ((\<lambda>(i, n, blob). \<lparr>cb_checkpoint = i, cb_entries = n, cb_data = blob\<rparr>) a)
                ((\<lambda>(i, n, blob). \<lparr>cb_checkpoint = i, cb_entries = n, cb_data = blob\<rparr>) b)) \<Longrightarrow> sorted_wrt ord xs"
    by (rule scan_decode [OF assms(1) s, where dec = "\<lambda>k v. decode_chunk_bloom k v (length (prefix_for_file f @ dm @ [0]) - 1)"
          and res = "\<lambda>(i, n, blob). \<lparr>cb_checkpoint = i, cb_entries = n, cb_data = blob\<rparr>"])
       (auto simp only: l split: prod.split simp: decode_chunk_bloom_key [OF assms(3)])
  have "sorted_wrt (\<lambda>a b. cb_checkpoint a < cb_checkpoint b) xs" by (rule xs(3)) (auto simp: chunk_bloom_key_less)
  then have "sorted_wrt (<) (map cb_checkpoint xs)" by (simp add: sorted_wrt_map)
  moreover have "set xs = {\<lparr>cb_checkpoint = i, cb_entries = n, cb_data = blob\<rparr> | i n blob. iv_blooms v (f, dm, i) = Some (n, blob)}"
    unfolding xs(2) by (auto simp: image_def)
  ultimately show ?thesis using xs(1) by (simp add: query_chunk_bloom_filters_def Let_def)
qed

lemma query_members:
  assumes "rocks_ok R" "view_holds R db v"
  shows "\<exists>ms. query_gzip_members R db f = Some ms \<and> sorted_wrt (<) (map gm_idx ms)
    \<and> set ms = {m. \<exists>i. iv_members v (f, i) = Some m}"
proof -
  let ?A = "{m. \<exists>i. iv_members v (f, i) = Some m}"
  have h: "column_holds (\<lambda>(f, i). gzip_member_key f i) encode_gzip_member_value (iv_members v) (rk_get R db Cf_members)"
      and i: "\<forall>f i m. iv_members v (f, i) = Some m \<longrightarrow> gm_idx m = i"
    using assms(2) by (simp_all add: view_holds_def)
  have s: "set (scan_prefix R db Cf_members (gzip_member_prefix f))
      = (\<lambda>m. (gzip_member_key f (gm_idx m), encode_gzip_member_value m)) ` ?A"
    using members.scan_holds [OF assms(1) h, of f] i by force
  obtain ms where ms:
      "those (map (\<lambda>(k, v). decode_gzip_member k v) (scan_prefix R db Cf_members (gzip_member_prefix f))) = Some ms"
      "set ms = (\<lambda>m. m) ` ?A"
      "\<And>ord. (\<And>a b. a \<in> ?A \<Longrightarrow> b \<in> ?A \<Longrightarrow> gzip_member_key f (gm_idx a) < gzip_member_key f (gm_idx b) \<Longrightarrow> ord a b)
         \<Longrightarrow> sorted_wrt ord ms"
    by (rule scan_decode [OF assms(1) s, where dec = decode_gzip_member and res = "\<lambda>m. m"])
       (auto simp only: decode_gzip_member_value)
  have "sorted_wrt (\<lambda>a b. gm_idx a < gm_idx b) ms" by (rule ms(3)) (auto simp: member_key_less)
  with ms(1,2) show ?thesis by (auto simp: query_gzip_members_def sorted_wrt_weaken sorted_wrt_map)
qed

lemma query_dim_stats:
  assumes "rocks_ok R" "view_holds R db v"
  shows "\<exists>rows. query_chunk_dimension_stats R db f = Some rows
    \<and> sorted_wrt (\<lambda>(i, dm, _) (j, dm', _). (i, dm) < (j, dm')) rows
    \<and> set rows = {(i, dm, row). iv_dim_stats v (f, i, dm) = Some row}"
proof -
  let ?A = "{(i, dm, row). iv_dim_stats v (f, i, dm) = Some row}"
  have h: "column_holds (\<lambda>(f, i, dm). chunk_dim_stats_key f i dm) encode_chunk_dimension_stats_value (iv_dim_stats v)
      (rk_get R db Cf_chunk_dim_stats)" and r: "\<forall>a row. iv_dim_stats v a = Some row \<longrightarrow> dim_row_ok row"
    using assms(2) by (simp_all add: view_holds_def)
  have s: "set (scan_prefix R db Cf_chunk_dim_stats (prefix_for_file f))
      = (\<lambda>a. ((\<lambda>(i, dm, row). chunk_dim_stats_key f i dm) a, (\<lambda>(i, dm, row). encode_chunk_dimension_stats_value row) a)) ` ?A"
    using dim_stats.scan_holds [OF assms(1) h, of f] by force
  obtain xs where xs:
      "those (map (\<lambda>(k, v). decode_chunk_dimension_stats_value k v)
         (scan_prefix R db Cf_chunk_dim_stats (prefix_for_file f))) = Some xs" "set xs = (\<lambda>a. a) ` ?A"
      "\<And>ord. (\<And>a b. a \<in> ?A \<Longrightarrow> b \<in> ?A \<Longrightarrow> (\<lambda>(i, dm, row). chunk_dim_stats_key f i dm) a < (\<lambda>(i, dm, row). chunk_dim_stats_key f i dm) b
         \<Longrightarrow> ord a b) \<Longrightarrow> sorted_wrt ord xs"
    by (rule scan_decode [OF assms(1) s, where dec = decode_chunk_dimension_stats_value and res = "\<lambda>a. a"])
       (use r in \<open>auto simp only: decode_chunk_dim_stats_value mem_Collect_eq split: prod.splits\<close>)
  have o: "sorted_wrt (\<lambda>a b. (\<lambda>(i, dm, row). (i, dm)) a < (\<lambda>(i, dm, row). (i, dm)) b) xs"
    by (rule xs(3)) (auto simp: dim_stats_key_less)
  have "sorted_wrt (\<lambda>(i, dm, _) (j, dm', _). (i, dm) < (j, dm')) xs"
    using o by (rule sorted_wrt_mono_rel [rotated]) auto
  with xs(1,2) sorted_wrt_weaken [OF o] show ?thesis by (auto simp: query_chunk_dimension_stats_def)
qed

lemma query_dimensions:
  assumes "rocks_ok R" "view_holds R db v"
  shows "sorted_wrt (<) (query_index_dimensions R db f) \<and> set (query_index_dimensions R db f) = {dm. iv_names v (Inl (f, dm)) \<noteq> None}"
proof -
  let ?p = "text_bytes ''d|'' @ prefix_for_file f" and ?A = "{dm. iv_names v (Inl (f, dm)) \<noteq> None}"
  have h: "column_holds (\<lambda>a. case a of Inl (f, dm) \<Rightarrow> make_dimension_key f dm | Inr (f, col) \<Rightarrow> make_column_key f col)
       (\<lambda>x. x) (iv_names v) (rk_get R db Cf_dimensions)" using assms(2) by (simp add: view_holds_def)
  have s: "set (scan_prefix R db Cf_dimensions ?p) = (\<lambda>dm. (make_dimension_key f dm, the (iv_names v (Inl (f, dm))))) ` ?A"
    unfolding dimensions.scan_holds [OF assms(1) h, of f, simplified]
  proof (intro set_eqI iffI)
    fix e assume "e \<in> {(case a of Inl (f, dm) \<Rightarrow> make_dimension_key f dm | Inr (f, col) \<Rightarrow> make_column_key f col, x) | a x.
        iv_names v a = Some x \<and> (case a of Inl (g, dm) \<Rightarrow> g = f | Inr _ \<Rightarrow> False)}"
    then obtain dm x where "iv_names v (Inl (f, dm)) = Some x" "e = (make_dimension_key f dm, x)"
      by (auto split: sum.splits)
    then show "e \<in> (\<lambda>dm. (make_dimension_key f dm, the (iv_names v (Inl (f, dm))))) ` ?A"
      by (intro image_eqI [of _ _ dm]) auto
  next
    fix e assume "e \<in> (\<lambda>dm. (make_dimension_key f dm, the (iv_names v (Inl (f, dm))))) ` ?A"
    then obtain dm x where "iv_names v (Inl (f, dm)) = Some x" "e = (make_dimension_key f dm, x)" by auto
    then show "e \<in> {(case a of Inl (f, dm) \<Rightarrow> make_dimension_key f dm | Inr (f, col) \<Rightarrow> make_column_key f col, x) | a x.
        iv_names v a = Some x \<and> (case a of Inl (g, dm) \<Rightarrow> g = f | Inr _ \<Rightarrow> False)}"
      by (auto intro!: exI [of _ "Inl (f, dm)"])
  qed
  have q: "query_index_dimensions R db f = map (\<lambda>(k, v). drop 6 k) (scan_prefix R db Cf_dimensions ?p)"
    by (simp add: query_index_dimensions_def prefix_for_file_def)
  have k: "drop 6 (make_dimension_key f dm) = dm" for dm by (simp add: make_dimension_key_def)
  have "sorted_wrt (\<lambda>e e'. fst e < fst e') (scan_prefix R db Cf_dimensions ?p)"
    using scan_ok(2) [OF assms(1), of db Cf_dimensions ?p] by (simp add: sorted_wrt_map)
  then have "sorted_wrt (\<lambda>e e'. (\<lambda>(k, v). drop 6 k) e < (\<lambda>(k, v). drop 6 k) e') (scan_prefix R db Cf_dimensions ?p)"
    by (rule sorted_wrt_mono_rel [rotated])
       (use s in \<open>auto simp: k, simp add: make_dimension_key_def append_less\<close>)
  then show ?thesis by (auto simp: q sorted_wrt_map s image_image k)
qed

section \<open>A concrete store\<close>

text \<open>
  Association lists per family show that what is asked of the store can be had; the examples below
  run on it.
\<close>

type_synonym list_db = "cf \<Rightarrow> (bytes \<times> bytes) list"

definition list_write :: "list_db \<Rightarrow> db_write \<Rightarrow> list_db" where
  "list_write db w =
     (case w of Put c k v \<Rightarrow> db(c := (k, v) # db c) | Del c k \<Rightarrow> db(c := filter (\<lambda>e. fst e \<noteq> k) (db c)))"

definition list_store :: "list_db rocks" where
  "list_store =
     \<lparr>rk_get = \<lambda>db c k. map_of (db c) k,
      rk_seek = \<lambda>db c p. map (\<lambda>k. (k, the (map_of (db c) k))) (sort (remdups (filter (\<lambda>k. p \<le> k) (map fst (db c))))),
      rk_commit = foldl list_write\<rparr>"

definition list_db_empty :: list_db where "list_db_empty = (\<lambda>_. [])"

lemma map_of_filter_key: "map_of (filter (\<lambda>e. fst e \<noteq> x) m) k = (if k = x then None else map_of m k)"
  by (induction m) auto

lemma list_write_get: "map_of (list_write db w c) k = (if wr_cf w = c \<and> wr_key w = k then write_value w else map_of (db c) k)"
  by (cases w) (auto simp: list_write_def write_value_def map_of_filter_key)

lemma list_store_ok: "rocks_ok list_store"
  unfolding rocks_ok_def
proof (intro conjI allI)
  fix db :: list_db and ws c k
  show "rk_get list_store (rk_commit list_store db ws) c k = written ws c k (rk_get list_store db c k)"
    by (induction ws arbitrary: db) (simp_all add: list_store_def written_Cons list_write_get)
next
  fix db :: list_db and c p
  have "sorted_wrt (<) (sort (remdups (filter (\<lambda>k. p \<le> k) (map fst (db c)))))"
    by (intro strict_sorted_iff [THEN iffD2]) simp
  then show "sorted_wrt (<) (map fst (rk_seek list_store db c p))" by (simp add: list_store_def o_def)
next
  fix db :: list_db and c p k v
  have e: "map_of m k = Some x \<longleftrightarrow> k \<in> fst ` set m \<and> x = the (map_of m k)" for m :: "(bytes \<times> bytes) list" and x
    using map_of_eq_None_iff [of m k] by (cases "map_of m k") auto
  show "(k, v) \<in> set (rk_seek list_store db c p) \<longleftrightarrow> p \<le> k \<and> rk_get list_store db c k = Some v"
    using e [of "db c" v] by (auto simp: list_store_def)
qed

lemma list_db_empty [simp]: "rk_get list_store list_db_empty c k = None"
  by (simp add: list_store_def list_db_empty_def)

section \<open>The index holds what was put into it\<close>

lemma view_empty_holds: "(\<And>c k. rk_get R db c k = None) \<Longrightarrow> view_holds R db view_empty"
  by (simp add: view_holds_def view_empty_def column_holds_def)

lemma view_sessions:
  assumes "rocks_ok R" "view_holds R db v" "\<forall>ops \<in> set ss. session_ok ops"
  shows "view_holds R (run_sessions R db ss) (fold apply_view (concat ss) v)"
  using assms(2,3)
proof (induction ss arbitrary: db v)
  case (Cons ops ss)
  then have "view_holds R (run_session R db ops) (fold apply_view ops v)" using view_session [OF assms(1)] by simp
  with Cons show ?case by (simp add: run_sessions_def)
qed (simp add: run_sessions_def)

text \<open>
  C7: the index database implements its view. Whatever sessions have written to it, inserting for any
  files and clearing files for re-indexing, a query returns what the maps hold: the blooms of a
  dimension by ascending checkpoint, each with the blob last put; the bloom of the file; its members,
  its dimensions and the statistics per checkpoint and dimension, in order and complete; its
  metadata, zero when there is none. Nothing of another file or of a cleared one is among them.
\<close>

theorem index_refines_view:
  assumes "rocks_ok R" and "\<forall>c k. rk_get R db0 c k = None" and "\<forall>ops \<in> set ss. session_ok ops" and "0 \<notin> set dm"
    and "db = run_sessions R db0 ss" and "v = fold apply_view (concat ss) view_empty"
  shows "(\<exists>xs. query_chunk_bloom_filters R db f dm = Some xs \<and> sorted_wrt (<) (map cb_checkpoint xs)
      \<and> set xs = {\<lparr>cb_checkpoint = i, cb_entries = n, cb_data = blob\<rparr> | i n blob. iv_blooms v (f, dm, i) = Some (n, blob)})
    \<and> query_file_bloom_filter R db f dm = Some (iv_file_blooms v (f, dm))
    \<and> (\<exists>ms. query_gzip_members R db f = Some ms \<and> sorted_wrt (<) (map gm_idx ms)
         \<and> set ms = {m. \<exists>i. iv_members v (f, i) = Some m})
    \<and> (sorted_wrt (<) (query_index_dimensions R db f)
         \<and> set (query_index_dimensions R db f) = {dm. iv_names v (Inl (f, dm)) \<noteq> None})
    \<and> (\<exists>rows. query_chunk_dimension_stats R db f = Some rows
         \<and> sorted_wrt (\<lambda>(i, dm, _) (j, dm', _). (i, dm) < (j, dm')) rows
         \<and> set rows = {(i, dm, row). iv_dim_stats v (f, i, dm) = Some row})
    \<and> get_metadata_field R db f 1 = Some (case iv_metadata v f of None \<Rightarrow> 0 | Some (ckpt, lines, uc) \<Rightarrow> lines)"
proof -
  have v: "view_holds R db v"
    unfolding assms(5,6) using assms(2,3) by (intro view_sessions [OF assms(1)] view_empty_holds) auto
  have fb: "column_holds (\<lambda>(f, dm). file_bloom_key f dm) (\<lambda>(n, blob). encode_bloom_value blob n) (iv_file_blooms v)
       (rk_get R db Cf_file_bloom)"
      and md: "column_holds metadata_key (\<lambda>(a, b, c). encode_metadata_record a b c) (iv_metadata v) (rk_get R db Cf_metadata)"
    using v by (simp_all add: view_holds_def)
  have "inj (\<lambda>(f, dm). file_bloom_key f dm)" by (rule injI) (use file_blooms.key_inj in auto)
  from holds_get [OF fb this, of "(f, dm)"]
  have 1: "query_file_bloom_filter R db f dm = Some (iv_file_blooms v (f, dm))"
    by (cases "iv_file_blooms v (f, dm)") (auto simp: query_file_bloom_filter_def decode_file_bloom_value)
  have "inj metadata_key" unfolding metadata_is_summary by (rule injI) (use summaries.key_inj in auto)
  from holds_get [OF md this, of f]
  have 2: "get_metadata_field R db f 1 = Some (case iv_metadata v f of None \<Rightarrow> 0 | Some (ckpt, lines, uc) \<Rightarrow> lines)"
    by (cases "iv_metadata v f") (auto simp: get_metadata_field_def decode_metadata_value)
  show ?thesis
    by (intro conjI query_blooms [OF assms(1) v assms(4)] 1 query_members [OF assms(1) v]
        query_dimensions [OF assms(1) v, THEN conjunct1] query_dimensions [OF assms(1) v, THEN conjunct2]
        query_dim_stats [OF assms(1) v] 2)
qed

definition sample_sessions :: "index_op list list" where
  "sample_sessions =
     [[Op_chunk_bloom 1 7 [97] [3] 9, Op_chunk_bloom 1 2 [97] [4] 5, Op_chunk_bloom 2 0 [97] [5] 6, Op_metadata 1 64 10 640],
      [Op_clear 2, Op_metadata 2 64 20 640]]"

lemma index_refines_view_witness:
  "\<exists>xs. query_chunk_bloom_filters list_store (run_sessions list_store list_db_empty sample_sessions) 2 [97] = Some xs \<and> xs = []"
proof -
  have "\<exists>xs. query_chunk_bloom_filters list_store (run_sessions list_store list_db_empty sample_sessions) 2 [97] = Some xs
      \<and> sorted_wrt (<) (map cb_checkpoint xs)
      \<and> set xs = {\<lparr>cb_checkpoint = i, cb_entries = n, cb_data = blob\<rparr> | i n blob.
           iv_blooms (fold apply_view (concat sample_sessions) view_empty) (2, [97], i) = Some (n, blob)}"
    by (rule index_refines_view [THEN conjunct1, OF list_store_ok _ _ _ refl refl])
       (simp_all add: sample_sessions_def)
  moreover have "iv_blooms (fold apply_view (concat sample_sessions) view_empty) (2, [97], i) = None" for i
    by (simp add: sample_sessions_def apply_view_def view_empty_def)
  ultimately show ?thesis by auto
qed

section \<open>What clearing a file leaves behind\<close>

text \<open>
  The rows of the two posting families the way \<^verbatim>\<open>insert_name_file_posting\<close> and
  \<^verbatim>\<open>insert_name_chunk_posting\<close> write them: a posting under its name and an owner row under its file.
\<close>

definition file_postings_formed :: "(bytes \<Rightarrow> bytes option) \<Rightarrow> bool" where
  "file_postings_formed m \<longleftrightarrow> (\<forall>k. m k \<noteq> None \<longrightarrow>
     (\<exists>nid f. k = name_file_posting_key nid f) \<or> (\<exists>f nid. k = name_file_owner_key f nid))"

definition chunk_postings_formed :: "(bytes \<Rightarrow> bytes option) \<Rightarrow> bool" where
  "chunk_postings_formed m \<longleftrightarrow> (\<forall>k. m k \<noteq> None \<longrightarrow>
     (\<exists>nid f i. k = name_chunk_posting_key nid f i) \<or> (\<exists>f nid i. k = name_chunk_owner_key f nid i))"

lemma owner_dels_none:
  assumes "length k \<noteq> length p + (if b then 12 else 4)"
  shows "owner_dels c f p b k = []"
  using assms by (auto simp: owner_dels_def Let_def)

lemma no_posting_dels:
  assumes "rocks_ok R"
  shows "file_postings_formed (rk_get R db Cf_name_file_postings) \<Longrightarrow>
      concat (map (\<lambda>e. owner_dels Cf_name_file_postings f (name_file_owner_prefix f) False (fst e))
        (scan_prefix R db Cf_name_file_postings (name_file_owner_prefix f))) = []"
    and "chunk_postings_formed (rk_get R db Cf_name_chunk_postings) \<Longrightarrow>
      concat (map (\<lambda>e. owner_dels Cf_name_chunk_postings f (name_chunk_owner_prefix f) True (fst e))
        (scan_prefix R db Cf_name_chunk_postings (name_chunk_owner_prefix f))) = []"
proof -
  have l: "length (name_file_owner_prefix f) = 6" "length (name_chunk_owner_prefix f) = 6"
    by (simp_all add: name_file_owner_prefix_def name_chunk_owner_prefix_def text_bytes_def)
  show "concat (map (\<lambda>e. owner_dels Cf_name_file_postings f (name_file_owner_prefix f) False (fst e))
      (scan_prefix R db Cf_name_file_postings (name_file_owner_prefix f))) = []"
    if "file_postings_formed (rk_get R db Cf_name_file_postings)"
  proof -
    have "length k \<noteq> 10" if "rk_get R db Cf_name_file_postings k = Some v" for k v
    proof -
      have "(\<exists>nid f. k = name_file_posting_key nid f) \<or> (\<exists>f nid. k = name_file_owner_key f nid)"
        using \<open>file_postings_formed _\<close> option.discI [OF that] by (simp add: file_postings_formed_def)
      then show ?thesis
        by (auto simp: name_file_posting_key_def name_file_owner_key_def name_file_owner_prefix_def text_bytes_def)
    qed
    then have "owner_dels Cf_name_file_postings f (name_file_owner_prefix f) False (fst e) = []"
      if "e \<in> set (scan_prefix R db Cf_name_file_postings (name_file_owner_prefix f))" for e
      using that by (intro owner_dels_none) (auto simp: scan_ok(1) [OF assms] l)
    then show ?thesis by simp
  qed
  show "concat (map (\<lambda>e. owner_dels Cf_name_chunk_postings f (name_chunk_owner_prefix f) True (fst e))
      (scan_prefix R db Cf_name_chunk_postings (name_chunk_owner_prefix f))) = []"
    if "chunk_postings_formed (rk_get R db Cf_name_chunk_postings)"
  proof -
    have "length k \<noteq> 18" if "rk_get R db Cf_name_chunk_postings k = Some v" for k v
    proof -
      have "(\<exists>nid f i. k = name_chunk_posting_key nid f i) \<or> (\<exists>f nid i. k = name_chunk_owner_key f nid i)"
        using \<open>chunk_postings_formed _\<close> option.discI [OF that] by (simp add: chunk_postings_formed_def)
      then show ?thesis
        by (auto simp: name_chunk_posting_key_def name_chunk_owner_key_def name_chunk_owner_prefix_def text_bytes_def)
    qed
    then have "owner_dels Cf_name_chunk_postings f (name_chunk_owner_prefix f) True (fst e) = []"
      if "e \<in> set (scan_prefix R db Cf_name_chunk_postings (name_chunk_owner_prefix f))" for e
      using that by (intro owner_dels_none) (auto simp: scan_ok(1) [OF assms] l)
    then show ?thesis by simp
  qed
qed

text \<open>No posting of a cleared file is deleted: the owner rows hold 8 and 16 bytes, not 4 and 12.\<close>

lemma cleared_postings_stay:
  assumes "rocks_ok R" "file_postings_formed (rk_get R db Cf_name_file_postings)"
    "chunk_postings_formed (rk_get R db Cf_name_chunk_postings)" "c \<in> {Cf_name_file_postings, Cf_name_chunk_postings}"
  shows "rk_get R (run_session R db [Op_clear f]) c k = rk_get R db c k"
proof -
  have "filter (\<lambda>w. wr_cf w = c) (clear_writes R db f) = []"
    using assms(4) no_posting_dels [OF assms(1)] assms(2,3) by (auto simp: clear_writes_def)
  then have "written (clear_writes R db f) c k x = x" for x
    using written_filter [of c "clear_writes R db f" k x] by simp
  then show ?thesis by (simp add: run_session_commit get_commit [OF assms(1)])
qed

text \<open>Nor is a column row: only the dimension rows of the file are.\<close>

lemma cleared_columns_stay:
  assumes "rocks_ok R"
  shows "rk_get R (run_session R db [Op_clear f]) Cf_dimensions (make_column_key f col)
    = rk_get R db Cf_dimensions (make_column_key f col)"
proof -
  have "written (clear_writes R db f) Cf_dimensions (make_column_key f col) x = x" for x
    using written_filter [of Cf_dimensions "clear_writes R db f" "make_column_key f col" x]
    by (auto simp: filter_clear_writes written_prefix_dels [OF assms] prefix_def make_column_key_def text_bytes_def)
  then show ?thesis by (simp add: run_session_commit get_commit [OF assms(1)])
qed

end
