(* ===== verification/IndexRegistry.thy ===== *)
theory IndexRegistry
  imports IndexStore
begin

text \<open>
  The file registry of the index: \<^verbatim>\<open>get_or_create_file_info\<close> and the capability updates of
  \<^verbatim>\<open>indexer/index_database_writer_context.cpp\<close>, the registry queries, the schema version, the id
  reservation and the freshness checks of \<^verbatim>\<open>indexer/index_database.cpp\<close>. Registration reads the
  database, not the pending batch; only the next id is remembered by the writer.
\<close>

section \<open>Registration\<close>

definition root_key :: bytes where "root_key = text_bytes ''_root''"

definition delete_root_summaries :: "'db rocks \<Rightarrow> 'db writer \<Rightarrow> 'db writer" where
  "delete_root_summaries R w =
     fold (\<lambda>c w. delete_prefix R c root_key w)
       [Cf_root_scalar_stats, Cf_root_cat_counts, Cf_root_name_counts, Cf_root_pid_tid_counts] w"

text \<open>The next id: the writer's, else the stored one, else 1; \<open>None\<close> for a counter of the wrong width.\<close>

definition next_file_id :: "'db rocks \<Rightarrow> 'db writer \<Rightarrow> file_id option" where
  "next_file_id R w =
     (case wr_cached_next w of Some n \<Rightarrow> Some n
      | None \<Rightarrow> (case rk_get R (wr_db w) Cf_default next_file_id_key of None \<Rightarrow> Some 1 | Some v \<Rightarrow> decode_be32 v))"

definition get_or_create_file_info ::
    "'db rocks \<Rightarrow> bytes \<Rightarrow> w64 \<Rightarrow> w8 \<Rightarrow> w64 \<Rightarrow> w64 \<Rightarrow> 'db writer \<Rightarrow> (file_id \<times> 'db writer) option" where
  "get_or_create_file_info R path h caps mt sz w =
     (case rk_get R (wr_db w) Cf_default (file_lookup_key path) of
        Some existing \<Rightarrow>
          (case decode_file_id existing of None \<Rightarrow> None | Some f \<Rightarrow>
          (case decode_file_hash existing of None \<Rightarrow> None | Some h' \<Rightarrow>
             if h' = h
             then let merged = (if caps = CAP_NONE then decode_file_capabilities existing else caps);
                      refreshed = encode_file_record f h merged mt sz
                  in Some (f, if refreshed \<noteq> existing then stage [Put Cf_default (file_lookup_key path) refreshed] w else w)
             else let w1 = delete_file_contents R f w;
                      w2 = (case rk_get R (wr_db w) Cf_default (file_reverse_key f) of None \<Rightarrow> w1
                            | Some old \<Rightarrow> stage [Del Cf_default (file_lookup_key old), Del Cf_default (file_reverse_key f)] w1);
                      w3 = delete_root_summaries R w2
                  in Some (f, stage [Put Cf_default (file_lookup_key path) (encode_file_record f h caps mt sz),
                                     Put Cf_default (file_reverse_key f) path] w3)))
      | None \<Rightarrow>
          (case next_file_id R w of None \<Rightarrow> None
           | Some n \<Rightarrow>
               Some (n, stage [Put Cf_default (file_lookup_key path) (encode_file_record n h caps mt sz),
                               Put Cf_default (file_reverse_key n) path,
                               Put Cf_default next_file_id_key (put_be32 (n + 1))]
                          (w\<lparr>wr_cached_next := Some (n + 1)\<rparr>))))"

text \<open>
  One writer that registers files, each with its logical path, hash, capabilities, time and size.
  \<^verbatim>\<open>register_files\<close> takes all but the capabilities from the file system, which the record
  \<open>file_system\<close> stands for: canonical path, content hash, modification time and size of a path.
\<close>

record file_system =
  fs_logical :: "bytes \<Rightarrow> bytes"
  fs_hash :: "bytes \<Rightarrow> w64"
  fs_mtime :: "bytes \<Rightarrow> w64"
  fs_size :: "bytes \<Rightarrow> w64"

type_synonym registration = "bytes \<times> w64 \<times> w8 \<times> w64 \<times> w64"

fun register_all :: "'db rocks \<Rightarrow> registration list \<Rightarrow> 'db writer \<Rightarrow> (file_id list \<times> 'db writer) option" where
  "register_all R [] w = Some ([], w)"
| "register_all R ((path, h, caps, mt, sz) # regs) w =
     (case get_or_create_file_info R path h caps mt sz w of None \<Rightarrow> None
      | Some (f, w') \<Rightarrow> map_option (\<lambda>(fs, w''). (f # fs, w'')) (register_all R regs w'))"

definition register_batch :: "'db rocks \<Rightarrow> 'db \<Rightarrow> registration list \<Rightarrow> (file_id list \<times> 'db) option" where
  "register_batch R db regs =
     map_option (\<lambda>(fs, w). (fs, wr_db (commit R w))) (register_all R regs (begin_write db))"

definition INDEXED_CAPS :: w8 where
  "INDEXED_CAPS = CAP_BLOOM OR CAP_MEMBERS OR CAP_FILE_SUMMARY OR CAP_INDEXING_COMPLETE"

definition registration_of :: "file_system \<Rightarrow> bytes \<Rightarrow> registration" where
  "registration_of F path = (fs_logical F path, fs_hash F path, INDEXED_CAPS, fs_mtime F path, fs_size F path)"

definition register_files :: "'db rocks \<Rightarrow> file_system \<Rightarrow> 'db \<Rightarrow> bytes list \<Rightarrow> (file_id list \<times> 'db) option" where
  "register_files R F db paths = register_batch R db (map (registration_of F) paths)"

section \<open>Capabilities\<close>

definition get_file_capabilities :: "'db rocks \<Rightarrow> 'db \<Rightarrow> file_id \<Rightarrow> w8" where
  "get_file_capabilities R db f =
     (case rk_get R db Cf_default (file_reverse_key f) of None \<Rightarrow> CAP_NONE
      | Some name \<Rightarrow>
          (case rk_get R db Cf_default (file_lookup_key name) of None \<Rightarrow> CAP_NONE
           | Some r \<Rightarrow> decode_file_capabilities r))"

definition set_file_capabilities_by_path :: "'db rocks \<Rightarrow> bytes \<Rightarrow> w8 \<Rightarrow> 'db writer \<Rightarrow> 'db writer" where
  "set_file_capabilities_by_path R path caps w =
     (case rk_get R (wr_db w) Cf_default (file_lookup_key path) of None \<Rightarrow> w
      | Some r \<Rightarrow> if length r < 5 then w else stage [Put Cf_default (file_lookup_key path) (r[4 := caps])] w)"

definition set_file_capabilities :: "'db rocks \<Rightarrow> file_id \<Rightarrow> w8 \<Rightarrow> 'db writer \<Rightarrow> 'db writer" where
  "set_file_capabilities R f caps w =
     (case rk_get R (wr_db w) Cf_default (file_reverse_key f) of None \<Rightarrow> w
      | Some name \<Rightarrow> set_file_capabilities_by_path R name caps w)"

definition add_file_capability :: "'db rocks \<Rightarrow> file_id \<Rightarrow> w8 \<Rightarrow> 'db writer \<Rightarrow> 'db writer" where
  "add_file_capability R f cap w = set_file_capabilities R f (get_file_capabilities R (wr_db w) f OR cap) w"

section \<open>Queries and reservation\<close>

text \<open>An unknown path has the id \<^verbatim>\<open>-1\<close>.\<close>

definition get_file_info_id :: "'db rocks \<Rightarrow> 'db \<Rightarrow> bytes \<Rightarrow> file_id option" where
  "get_file_info_id R db path =
     (case rk_get R db Cf_default (file_lookup_key path) of None \<Rightarrow> Some (- 1) | Some v \<Rightarrow> decode_file_id v)"

definition get_file_hash :: "'db rocks \<Rightarrow> 'db \<Rightarrow> bytes \<Rightarrow> w64 option option" where
  "get_file_hash R db path =
     (case rk_get R db Cf_default (file_lookup_key path) of None \<Rightarrow> Some None
      | Some v \<Rightarrow> map_option Some (decode_file_hash v))"

definition get_file_stat :: "'db rocks \<Rightarrow> 'db \<Rightarrow> bytes \<Rightarrow> (w64 \<times> w64) option" where
  "get_file_stat R db path =
     (case rk_get R db Cf_default (file_lookup_key path) of None \<Rightarrow> None
      | Some v \<Rightarrow> (case (decode_file_mtime v, decode_file_size v) of (Some mt, Some sz) \<Rightarrow> Some (mt, sz) | _ \<Rightarrow> None))"

definition query_all_file_info_ids :: "'db rocks \<Rightarrow> 'db \<Rightarrow> (bytes \<times> file_id) list option" where
  "query_all_file_info_ids R db =
     those (map (\<lambda>(k, v). map_option (Pair (drop 2 k)) (decode_file_id v)) (scan_prefix R db Cf_default (text_bytes ''f|'')))"

definition reserve_file_id_range :: "'db rocks \<Rightarrow> 'db \<Rightarrow> nat \<Rightarrow> (file_id \<times> 'db) option" where
  "reserve_file_id_range R db count =
     (case (case rk_get R db Cf_default next_file_id_key of None \<Rightarrow> Some 1 | Some v \<Rightarrow> decode_be32 v) of None \<Rightarrow> None
      | Some first \<Rightarrow>
          if count = 0 then Some (first, db)
          else Some (first, rk_commit R db [Put Cf_default next_file_id_key (put_be32 (first + of_nat count))]))"

definition SCHEMA_VERSION :: w32 where "SCHEMA_VERSION = 15"

definition get_schema_version :: "'db rocks \<Rightarrow> 'db \<Rightarrow> w32 option" where
  "get_schema_version R db =
     (case rk_get R db Cf_default schema_version_key of None \<Rightarrow> Some 0 | Some v \<Rightarrow> decode_be32 v)"

definition init_schema :: "'db rocks \<Rightarrow> 'db writer \<Rightarrow> 'db writer" where
  "init_schema R w =
     (case rk_get R (wr_db w) Cf_default schema_version_key of
        None \<Rightarrow> stage [Put Cf_default schema_version_key (put_be32 SCHEMA_VERSION)] w
      | Some v \<Rightarrow> w)"

datatype freshness = Fresh | Stale | SchemaOutdated

definition check_freshness :: "'db rocks \<Rightarrow> file_system \<Rightarrow> 'db \<Rightarrow> bytes \<Rightarrow> freshness option" where
  "check_freshness R F db path =
     (case get_schema_version R db of None \<Rightarrow> None
      | Some ver \<Rightarrow>
          if ver < SCHEMA_VERSION then Some SchemaOutdated
          else case get_file_info_id R db (fs_logical F path) of None \<Rightarrow> None
            | Some f \<Rightarrow>
                if sint f < 0 then Some Stale
                else case get_file_stat R db (fs_logical F path) of None \<Rightarrow> Some Stale
                  | Some (mt, sz) \<Rightarrow> Some (if mt \<noteq> fs_mtime F path \<or> sz \<noteq> fs_size F path then Stale else Fresh))"

record stale_check =
  st_outdated :: bool
  st_added :: "bytes list"
  st_changed :: "bytes list"
  st_removed :: "bytes list"

fun classify_files :: "'db rocks \<Rightarrow> file_system \<Rightarrow> 'db \<Rightarrow> bytes list \<Rightarrow> (bytes list \<times> bytes list) option" where
  "classify_files R F db [] = Some ([], [])"
| "classify_files R F db (path # paths) =
     (case get_file_info_id R db (fs_logical F path) of None \<Rightarrow> None
      | Some f \<Rightarrow>
          if sint f < 0 then map_option (\<lambda>(ad, ch). (path # ad, ch)) (classify_files R F db paths)
          else case check_freshness R F db path of None \<Rightarrow> None
            | Some fr \<Rightarrow>
                map_option (\<lambda>(ad, ch). (ad, if fr \<noteq> Fresh then path # ch else ch)) (classify_files R F db paths))"

definition find_stale_files :: "'db rocks \<Rightarrow> file_system \<Rightarrow> 'db \<Rightarrow> bytes list \<Rightarrow> stale_check option" where
  "find_stale_files R F db paths =
     (case get_schema_version R db of None \<Rightarrow> None
      | Some ver \<Rightarrow>
          (case classify_files R F db paths of None \<Rightarrow> None
           | Some (ad, ch) \<Rightarrow>
               map_option (\<lambda>known. \<lparr>st_outdated = (ver < SCHEMA_VERSION), st_added = ad, st_changed = ch,
                   st_removed = filter (\<lambda>p. p \<notin> fs_logical F ` set paths) (map fst known)\<rparr>)
                 (query_all_file_info_ids R db)))"

section \<open>The registry as a map\<close>

record file_entry =
  fe_id :: file_id
  fe_hash :: w64
  fe_caps :: w8
  fe_mtime :: w64
  fe_size :: w64

record registry_view =
  rv_files :: "bytes \<Rightarrow> file_entry option"
  rv_next :: w32

definition registry_empty :: registry_view where
  "registry_empty = \<lparr>rv_files = \<lambda>_. None, rv_next = 1\<rparr>"

text \<open>
  A known path keeps its id whatever its content; a new one gets the next. Capabilities are replaced,
  unless none are given for unchanged content.
\<close>

fun register_view :: "registration \<Rightarrow> registry_view \<Rightarrow> file_id \<times> registry_view" where
  "register_view (path, h, caps, mt, sz) V =
     (case rv_files V path of
        Some e \<Rightarrow>
          (fe_id e, V\<lparr>rv_files := (rv_files V)(path \<mapsto> \<lparr>fe_id = fe_id e, fe_hash = h,
             fe_caps = (if h = fe_hash e \<and> caps = CAP_NONE then fe_caps e else caps), fe_mtime = mt, fe_size = sz\<rparr>)\<rparr>)
      | None \<Rightarrow>
          (rv_next V, V\<lparr>rv_files := (rv_files V)(path \<mapsto> \<lparr>fe_id = rv_next V, fe_hash = h, fe_caps = caps,
             fe_mtime = mt, fe_size = sz\<rparr>), rv_next := rv_next V + 1\<rparr>))"

fun register_views :: "registration list \<Rightarrow> registry_view \<Rightarrow> file_id list \<times> registry_view" where
  "register_views [] V = ([], V)"
| "register_views (r # rs) V =
     (let (f, V') = register_view r V; (fs, V'') = register_views rs V' in (f # fs, V''))"

definition encode_entry :: "file_entry \<Rightarrow> bytes" where
  "encode_entry e = encode_file_record (fe_id e) (fe_hash e) (fe_caps e) (fe_mtime e) (fe_size e)"

definition registry_rel :: "(bytes \<Rightarrow> bytes option) \<Rightarrow> registry_view \<Rightarrow> bool" where
  "registry_rel g V \<longleftrightarrow>
     (\<forall>p. g (file_lookup_key p) = map_option encode_entry (rv_files V p))
     \<and> (\<forall>f p. g (file_reverse_key f) = Some p \<longleftrightarrow> (\<exists>e. rv_files V p = Some e \<and> fe_id e = f))
     \<and> (g next_file_id_key = Some (put_be32 (rv_next V)) \<or> g next_file_id_key = None \<and> rv_next V = 1)
     \<and> (\<forall>p e. rv_files V p = Some e \<longrightarrow> 1 \<le> fe_id e \<and> fe_id e < rv_next V)"

section \<open>Registration refines the map\<close>

lemma key_apart [simp]:
  "file_lookup_key p = file_lookup_key q \<longleftrightarrow> p = q" "file_reverse_key f = file_reverse_key g \<longleftrightarrow> f = g"
  "file_lookup_key p \<noteq> file_reverse_key f" "file_reverse_key f \<noteq> file_lookup_key p"
  "file_lookup_key p \<noteq> next_file_id_key" "next_file_id_key \<noteq> file_lookup_key p"
  "file_reverse_key f \<noteq> next_file_id_key" "next_file_id_key \<noteq> file_reverse_key f"
  by (simp_all add: file_lookup_key_def file_reverse_key_def next_file_id_key_def text_bytes_def)

lemma encode_record_entry:
  "encode_file_record f h caps mt sz = encode_entry \<lparr>fe_id = f, fe_hash = h, fe_caps = caps, fe_mtime = mt, fe_size = sz\<rparr>"
  by (simp add: encode_entry_def)

lemma encode_entry_fields [simp]:
  "decode_file_id (encode_entry e) = Some (fe_id e)" "decode_file_hash (encode_entry e) = Some (fe_hash e)"
  "decode_file_capabilities (encode_entry e) = fe_caps e" "decode_file_mtime (encode_entry e) = Some (fe_mtime e)"
  "decode_file_size (encode_entry e) = Some (fe_size e)" "length (encode_entry e) = 36"
  by (simp_all add: encode_entry_def)

lemma decode_be32_put [simp]: "decode_be32 (put_be32 n) = Some n"
  by (simp add: decode_be32_def)

lemma registry_relD:
  assumes "registry_rel g V"
  shows "g (file_lookup_key p) = map_option encode_entry (rv_files V p)"
    and "rv_files V p = Some e \<Longrightarrow> g (file_reverse_key (fe_id e)) = Some p"
    and "rv_files V p = Some e \<Longrightarrow> 1 \<le> fe_id e" and "rv_files V p = Some e \<Longrightarrow> fe_id e < rv_next V"
  using assms by (auto simp: registry_rel_def)

lemma registry_rel_unique:
  "registry_rel g V \<Longrightarrow> rv_files V p = Some e \<Longrightarrow> rv_files V q = Some e' \<Longrightarrow> fe_id e = fe_id e' \<Longrightarrow> p = q"
  unfolding registry_rel_def by (metis option.inject)

lemma registry_rel_update:
  assumes "registry_rel g V" "rv_files V p = Some e" "fe_id e' = fe_id e"
  shows "registry_rel (g(file_lookup_key p \<mapsto> encode_entry e')) (V\<lparr>rv_files := (rv_files V)(p \<mapsto> e')\<rparr>)"
proof -
  have "(\<exists>x. ((rv_files V)(p \<mapsto> e')) q = Some x \<and> fe_id x = f) \<longleftrightarrow> (\<exists>x. rv_files V q = Some x \<and> fe_id x = f)" for q f
    using assms(2,3) by auto
  with assms show ?thesis by (auto simp: registry_rel_def)
qed

lemma registry_rel_new:
  assumes "registry_rel g V" "rv_files V p = None" "fe_id e = rv_next V" "rv_next V < rv_next V + 1" "1 \<le> rv_next V"
  shows "registry_rel (g(file_lookup_key p \<mapsto> encode_entry e, file_reverse_key (rv_next V) \<mapsto> p,
      next_file_id_key \<mapsto> put_be32 (rv_next V + 1))) (V\<lparr>rv_files := (rv_files V)(p \<mapsto> e), rv_next := rv_next V + 1\<rparr>)"
proof -
  have old: "fe_id x \<noteq> rv_next V" if "rv_files V q = Some x" for q x
    using assms(1) that unfolding registry_rel_def by (metis less_irrefl)
  have "(g(file_lookup_key p \<mapsto> encode_entry e, file_reverse_key (rv_next V) \<mapsto> p, next_file_id_key \<mapsto> put_be32 (rv_next V + 1)))
       (file_reverse_key f) = Some q \<longleftrightarrow> (\<exists>x. ((rv_files V)(p \<mapsto> e)) q = Some x \<and> fe_id x = f)" for f q
  proof (cases "f = rv_next V")
    case True
    with assms(3) old show ?thesis by auto
  next
    case False
    with assms(1-3) show ?thesis by (auto simp: registry_rel_def)
  qed
  moreover have "fe_id x < rv_next V + 1" if "rv_files V q = Some x" for q x
    using registry_relD(4) [OF assms(1) that] assms(4) by (rule less_trans)
  ultimately show ?thesis using assms by (auto simp: registry_rel_def)
qed

text \<open>What the pending batch has made of the default family.\<close>

definition pending :: "'db rocks \<Rightarrow> 'db writer \<Rightarrow> bytes \<Rightarrow> bytes option" where
  "pending R w k = written (wr_batch w) Cf_default k (rk_get R (wr_db w) Cf_default k)"

lemma pending_stage_put:
  "pending R (stage (Put Cf_default k v # ws) w) = pending R (stage ws (w\<lparr>wr_batch := wr_batch w @ [Put Cf_default k v]\<rparr>))"
  by (simp add: fun_eq_iff pending_def stage_def)

lemma pending_put:
  "pending R (stage [Put Cf_default k v] w) = (pending R w)(k \<mapsto> v)"
  by (auto simp: fun_eq_iff pending_def written_append written_Cons write_value_def)

lemma pending_puts:
  "pending R (stage [Put Cf_default k1 v1, Put Cf_default k2 v2] w) = (pending R w)(k1 \<mapsto> v1, k2 \<mapsto> v2)"
  "pending R (stage [Put Cf_default k1 v1, Put Cf_default k2 v2, Put Cf_default k3 v3] w)
     = (pending R w)(k1 \<mapsto> v1, k2 \<mapsto> v2, k3 \<mapsto> v3)"
  by (auto simp: fun_eq_iff pending_def written_append written_Cons write_value_def)

lemma pending_dels:
  "pending R (stage [Del Cf_default k1, Del Cf_default k2] w) = (pending R w)(k1 := None, k2 := None)"
  by (auto simp: fun_eq_iff pending_def written_append written_Cons write_value_def)

lemma pending_cached [simp]: "pending R (w\<lparr>wr_cached_next := n\<rparr>) = pending R w"
  by (simp add: fun_eq_iff pending_def)

lemma written_no_writes: "filter (\<lambda>w. wr_cf w = c) ws = [] \<Longrightarrow> written ws c k v = v"
  by (metis written_filter written_Nil)

lemma pending_contents: "pending R (delete_file_contents R f w) = pending R w"
  by (simp add: fun_eq_iff pending_def delete_file_contents_writes written_append written_no_writes [OF filter_clear_default])

lemma delete_root_writes:
  "wr_db (delete_root_summaries R w) = wr_db w" "wr_cached_next (delete_root_summaries R w) = wr_cached_next w"
  "wr_committed (delete_root_summaries R w) = wr_committed w"
  "pending R (delete_root_summaries R w) = pending R w"
  by (simp_all add: delete_root_summaries_def delete_prefix_def fun_eq_iff pending_def written_append written_no_writes)

text \<open>
  In a session from \<open>db\<close>, whose registry is \<open>V0\<close>, with the paths of \<open>S\<close> registered so far: the
  pending registry is \<open>V\<close>, it is still \<open>V0\<close> on the other paths, and the writer knows the next id.
\<close>

definition session_rel :: "'db rocks \<Rightarrow> registry_view \<Rightarrow> bytes set \<Rightarrow> 'db writer \<Rightarrow> registry_view \<Rightarrow> bool" where
  "session_rel R V0 S w V \<longleftrightarrow>
     registry_rel (rk_get R (wr_db w) Cf_default) V0 \<and> registry_rel (pending R w) V
     \<and> (\<forall>p. p \<notin> S \<longrightarrow> rv_files V p = rv_files V0 p) \<and> \<not> wr_committed w
     \<and> (case wr_cached_next w of None \<Rightarrow> rv_next V = rv_next V0 | Some n \<Rightarrow> n = rv_next V)"

lemma next_file_id_rel: "session_rel R V0 S w V \<Longrightarrow> next_file_id R w = Some (rv_next V)"
  by (auto simp: session_rel_def next_file_id_def registry_rel_def split: option.splits)

lemma register_one:
  assumes "session_rel R V0 S w V" "path \<notin> S" "rv_next V < rv_next V + 1" "1 \<le> rv_next V"
    and "register_view (path, h, caps, mt, sz) V = (f, V')"
  shows "\<exists>w'. get_or_create_file_info R path h caps mt sz w = Some (f, w') \<and> session_rel R V0 (insert path S) w' V'
    \<and> wr_db w' = wr_db w"
proof -
  have rel: "registry_rel (rk_get R (wr_db w) Cf_default) V0" "registry_rel (pending R w) V"
      and same: "rv_files V path = rv_files V0 path" and un: "\<forall>p. p \<notin> S \<longrightarrow> rv_files V p = rv_files V0 p"
      and nc: "\<not> wr_committed w" and nx: "case wr_cached_next w of None \<Rightarrow> rv_next V = rv_next V0 | Some n \<Rightarrow> n = rv_next V"
    using assms(1,2) by (auto simp: session_rel_def)
  have db: "rk_get R (wr_db w) Cf_default (file_lookup_key path) = map_option encode_entry (rv_files V path)"
    using rel(1) same by (simp add: registry_rel_def)
  show ?thesis
  proof (cases "rv_files V path")
    case None
    let ?e = "\<lparr>fe_id = rv_next V, fe_hash = h, fe_caps = caps, fe_mtime = mt, fe_size = sz\<rparr>"
    let ?w = "stage [Put Cf_default (file_lookup_key path) (encode_entry ?e), Put Cf_default (file_reverse_key (rv_next V)) path,
        Put Cf_default next_file_id_key (put_be32 (rv_next V + 1))] (w\<lparr>wr_cached_next := Some (rv_next V + 1)\<rparr>)"
    have "get_or_create_file_info R path h caps mt sz w = Some (rv_next V, ?w)"
      using db None next_file_id_rel [OF assms(1)] by (simp add: get_or_create_file_info_def encode_entry_def)
    moreover have "session_rel R V0 (insert path S) ?w (V\<lparr>rv_files := (rv_files V)(path \<mapsto> ?e), rv_next := rv_next V + 1\<rparr>)"
      using rel un nc registry_rel_new [OF rel(2) None _ assms(3,4), of ?e] by (simp add: session_rel_def pending_puts)
    ultimately show ?thesis using assms(5) None by auto
  next
    case (Some e)
    define e' where "e' = \<lparr>fe_id = fe_id e, fe_hash = h, fe_caps = (if h = fe_hash e \<and> caps = CAP_NONE then fe_caps e else caps),
        fe_mtime = mt, fe_size = sz\<rparr>"
    let ?V = "V\<lparr>rv_files := (rv_files V)(path \<mapsto> e')\<rparr>"
    have V': "f = fe_id e" "V' = ?V" using assms(5) Some by (auto simp: e'_def)
    have rv: "rk_get R (wr_db w) Cf_default (file_reverse_key (fe_id e)) = Some path"
      using registry_relD(2) [OF rel(1)] same Some by simp
    have upd: "registry_rel ((pending R w)(file_lookup_key path \<mapsto> encode_entry e')) ?V"
      by (rule registry_rel_update [OF rel(2) Some]) (simp add: e'_def)
    show ?thesis
    proof (cases "h = fe_hash e")
      case True
      define w' where "w' = (if encode_entry e' \<noteq> encode_entry e then stage [Put Cf_default (file_lookup_key path) (encode_entry e')] w else w)"
      have "get_or_create_file_info R path h caps mt sz w = Some (fe_id e, w')"
        using db Some True unfolding w'_def by (simp add: get_or_create_file_info_def encode_record_entry Let_def e'_def)
      moreover have "pending R w' = (pending R w)(file_lookup_key path \<mapsto> encode_entry e')"
      proof (cases "encode_entry e' = encode_entry e")
        case eq: True
        have "pending R w (file_lookup_key path) = Some (encode_entry e)" using rel(2) Some by (simp add: registry_rel_def)
        then have "(pending R w)(file_lookup_key path \<mapsto> encode_entry e') = pending R w" unfolding eq by (rule map_upd_triv)
        with eq show ?thesis by (simp add: w'_def)
      qed (simp add: w'_def pending_put)
      moreover have "wr_db w' = wr_db w" "wr_committed w' = wr_committed w" "wr_cached_next w' = wr_cached_next w"
        by (simp_all add: w'_def)
      ultimately show ?thesis using rel un nc nx upd unfolding V' by (intro exI [of _ w']) (simp add: session_rel_def split: option.splits)
    next
      case False
      let ?w1 = "delete_root_summaries R (stage [Del Cf_default (file_lookup_key path), Del Cf_default (file_reverse_key (fe_id e))]
          (delete_file_contents R (fe_id e) w))"
      let ?w = "stage [Put Cf_default (file_lookup_key path) (encode_entry e'), Put Cf_default (file_reverse_key (fe_id e)) path] ?w1"
      have "get_or_create_file_info R path h caps mt sz w = Some (fe_id e, ?w)"
        using db Some False rv by (simp add: get_or_create_file_info_def encode_record_entry Let_def e'_def)
      moreover have "pending R w (file_reverse_key (fe_id e)) = Some path" using registry_relD(2) [OF rel(2) Some] .
      then have "pending R ?w = (pending R w)(file_lookup_key path \<mapsto> encode_entry e')"
        by (auto simp: pending_puts delete_root_writes pending_dels pending_contents fun_eq_iff)
      ultimately show ?thesis
        using rel un nc nx upd unfolding V' by (auto simp: session_rel_def delete_root_writes delete_file_contents_writes split: option.splits)
    qed
  qed
qed

lemma register_session:
  assumes "session_rel R V0 S w V" "distinct (map fst regs)" "fst ` set regs \<inter> S = {}"
    and "unat (rv_next V) + length regs < 2 ^ 32" "1 \<le> rv_next V" "register_views regs V = (fs, V')"
  shows "\<exists>w'. register_all R regs w = Some (fs, w') \<and> session_rel R V0 (S \<union> fst ` set regs) w' V' \<and> wr_db w' = wr_db w
    \<and> unat (rv_next V') \<le> unat (rv_next V) + length regs \<and> 1 \<le> rv_next V'"
  using assms
proof (induction regs arbitrary: S w V fs)
  case (Cons r regs)
  obtain path h caps mt sz where r: "r = (path, h, caps, mt, sz)" by (cases r)
  obtain f V1 where v: "register_view r V = (f, V1)" by (cases "register_view r V")
  obtain gs where gs: "fs = f # gs" "register_views regs V1 = (gs, V')"
    using Cons.prems(6) v by (auto split: prod.splits)
  have "unat (rv_next V + 1) = Suc (unat (rv_next V))"
    using Cons.prems(4) by (simp add: unat_word_ariths)
  then have up: "rv_next V < rv_next V + 1" "unat (rv_next V + 1) = Suc (unat (rv_next V))" by (simp_all add: word_less_nat_alt)
  have n: "rv_next V1 = rv_next V \<or> rv_next V1 = rv_next V + 1"
    using v r by (auto split: option.splits)
  then have n1: "unat (rv_next V1) \<le> Suc (unat (rv_next V))" "1 \<le> rv_next V1"
    using up Cons.prems(5) by (auto simp: word_le_nat_alt)
  obtain w1 where w1: "get_or_create_file_info R path h caps mt sz w = Some (f, w1)"
      "session_rel R V0 (insert path S) w1 V1" "wr_db w1 = wr_db w"
    using register_one [OF Cons.prems(1) _ up(1) Cons.prems(5) v [unfolded r]] Cons.prems(3) r by auto
  have "\<exists>w'. register_all R regs w1 = Some (gs, w') \<and> session_rel R V0 (insert path S \<union> fst ` set regs) w' V' \<and> wr_db w' = wr_db w1
      \<and> unat (rv_next V') \<le> unat (rv_next V1) + length regs \<and> 1 \<le> rv_next V'"
    using Cons.prems r n1 by (intro Cons.IH [OF w1(2) _ _ _ n1(2) gs(2)]) auto
  then show ?case using w1 r gs(1) n1(1) by auto
qed (auto simp: )

lemma pending_committed:
  assumes "rocks_ok R" "\<not> wr_committed w"
  shows "rk_get R (wr_db (commit R w)) Cf_default k = pending R w k"
  using assms by (simp add: commit_def pending_def get_commit)

text \<open>Sessions of registrations, and what they make of the map.\<close>

fun register_sessions :: "'db rocks \<Rightarrow> 'db \<Rightarrow> registration list list \<Rightarrow> (file_id list list \<times> 'db) option" where
  "register_sessions R db [] = Some ([], db)"
| "register_sessions R db (regs # ss) =
     (case register_batch R db regs of None \<Rightarrow> None
      | Some (fs, db') \<Rightarrow> map_option (\<lambda>(fss, db''). (fs # fss, db'')) (register_sessions R db' ss))"

fun view_sessions_of :: "registration list list \<Rightarrow> registry_view \<Rightarrow> file_id list list \<times> registry_view" where
  "view_sessions_of [] V = ([], V)"
| "view_sessions_of (regs # ss) V =
     (let (fs, V') = register_views regs V; (fss, V'') = view_sessions_of ss V' in (fs # fss, V''))"

lemma register_batch_rel:
  assumes "rocks_ok R" "registry_rel (rk_get R db Cf_default) V" "distinct (map fst regs)"
    and "unat (rv_next V) + length regs < 2 ^ 32" "1 \<le> rv_next V" "register_views regs V = (fs, V')"
  shows "\<exists>db'. register_batch R db regs = Some (fs, db') \<and> registry_rel (rk_get R db' Cf_default) V'
    \<and> unat (rv_next V') \<le> unat (rv_next V) + length regs \<and> 1 \<le> rv_next V'"
proof -
  have "session_rel R V {} (begin_write db) V"
    using assms(2) by (simp add: session_rel_def begin_write_def pending_def [abs_def])
  from register_session [OF this assms(3) _ assms(4,5,6)] obtain w' where w':
      "register_all R regs (begin_write db) = Some (fs, w')" "session_rel R V (fst ` set regs) w' V'"
      "unat (rv_next V') \<le> unat (rv_next V) + length regs" "1 \<le> rv_next V'" by auto
  have "rk_get R (wr_db (commit R w')) Cf_default = pending R w'"
    using pending_committed [OF assms(1)] w'(2) by (auto simp: fun_eq_iff session_rel_def)
  with w' show ?thesis by (simp add: register_batch_def session_rel_def)
qed

lemma register_sessions_rel:
  assumes "rocks_ok R" "registry_rel (rk_get R db Cf_default) V" "\<forall>regs \<in> set ss. distinct (map fst regs)"
    and "unat (rv_next V) + length (concat ss) < 2 ^ 32" "1 \<le> rv_next V" "view_sessions_of ss V = (fss, V')"
  shows "\<exists>db'. register_sessions R db ss = Some (fss, db') \<and> registry_rel (rk_get R db' Cf_default) V'
    \<and> unat (rv_next V') \<le> unat (rv_next V) + length (concat ss)"
  using assms(2-6)
proof (induction ss arbitrary: db V fss)
  case (Cons regs ss)
  obtain fs V1 where v: "register_views regs V = (fs, V1)" by (cases "register_views regs V")
  obtain gss where g: "fss = fs # gss" "view_sessions_of ss V1 = (gss, V')" using Cons.prems(5) v by (auto split: prod.splits)
  obtain db1 where d: "register_batch R db regs = Some (fs, db1)" "registry_rel (rk_get R db1 Cf_default) V1"
      "unat (rv_next V1) \<le> unat (rv_next V) + length regs" "1 \<le> rv_next V1"
    using register_batch_rel [OF assms(1) Cons.prems(1) _ _ Cons.prems(4) v] Cons.prems(2,3) by auto
  have "\<exists>db'. register_sessions R db1 ss = Some (gss, db') \<and> registry_rel (rk_get R db' Cf_default) V'
      \<and> unat (rv_next V') \<le> unat (rv_next V1) + length (concat ss)"
    using Cons.prems d by (intro Cons.IH [OF d(2) _ _ d(4) g(2)]) auto
  with d g(1) show ?case by auto
qed auto

lemma registry_empty_rel: "(\<And>c k. rk_get R db c k = None) \<Longrightarrow> registry_rel (rk_get R db Cf_default) registry_empty"
  by (simp add: registry_rel_def registry_empty_def)

lemma registry_queries:
  assumes "registry_rel (rk_get R db Cf_default) V"
  shows "get_file_info_id R db p = Some (case rv_files V p of None \<Rightarrow> - 1 | Some e \<Rightarrow> fe_id e)"
    and "get_file_hash R db p = Some (map_option fe_hash (rv_files V p))"
    and "get_file_stat R db p = map_option (\<lambda>e. (fe_mtime e, fe_size e)) (rv_files V p)"
    and "rv_files V p = Some e \<Longrightarrow> get_file_capabilities R db (fe_id e) = fe_caps e"
proof -
  note g = registry_relD [OF assms]
  show "get_file_info_id R db p = Some (case rv_files V p of None \<Rightarrow> - 1 | Some e \<Rightarrow> fe_id e)"
    by (cases "rv_files V p") (simp_all add: get_file_info_id_def g(1))
  show "get_file_hash R db p = Some (map_option fe_hash (rv_files V p))"
    by (cases "rv_files V p") (simp_all add: get_file_hash_def g(1))
  show "get_file_stat R db p = map_option (\<lambda>e. (fe_mtime e, fe_size e)) (rv_files V p)"
    by (cases "rv_files V p") (simp_all add: get_file_stat_def g(1))
  show "get_file_capabilities R db (fe_id e) = fe_caps e" if "rv_files V p = Some e"
    using g(1) [of p] g(2) [OF that] that by (simp add: get_file_capabilities_def)
qed

text \<open>
  C31: the registry implements its map. Whatever sessions have registered files, each path at most
  once per session, the ids they returned are those of the map: a known path keeps its id also when
  its content has changed, a new one gets an id no file has had. Afterwards the id, hash, time, size
  and capabilities of every path are those of its last registration, and two paths never share an
  id.
\<close>

theorem registry_refines_map:
  assumes "rocks_ok R" and "\<forall>c k. rk_get R db0 c k = None" and "\<forall>regs \<in> set ss. distinct (map fst regs)"
    and "length (concat ss) < 2 ^ 31" and "view_sessions_of ss registry_empty = (fss, V)"
  shows "\<exists>db. register_sessions R db0 ss = Some (fss, db)
    \<and> (\<forall>p. get_file_info_id R db p = Some (case rv_files V p of None \<Rightarrow> - 1 | Some e \<Rightarrow> fe_id e)
         \<and> get_file_hash R db p = Some (map_option fe_hash (rv_files V p))
         \<and> get_file_stat R db p = map_option (\<lambda>e. (fe_mtime e, fe_size e)) (rv_files V p))
    \<and> (\<forall>p e. rv_files V p = Some e \<longrightarrow> 0 < sint (fe_id e) \<and> get_file_capabilities R db (fe_id e) = fe_caps e)
    \<and> (\<forall>p q e e'. rv_files V p = Some e \<and> rv_files V q = Some e' \<and> fe_id e = fe_id e' \<longrightarrow> p = q)"
proof -
  have "\<exists>db'. register_sessions R db0 ss = Some (fss, db') \<and> registry_rel (rk_get R db' Cf_default) V
      \<and> unat (rv_next V) \<le> unat (rv_next registry_empty) + length (concat ss)"
    using assms(2-4)
    by (intro register_sessions_rel [OF assms(1) registry_empty_rel _ _ _ assms(5)]) (auto simp: registry_empty_def)
  then obtain db where db: "register_sessions R db0 ss = Some (fss, db)" "registry_rel (rk_get R db Cf_default) V"
      "unat (rv_next V) \<le> 2 ^ 31" using assms(4) by (auto simp: registry_empty_def)
  have "0 < sint (fe_id e)" if e: "rv_files V p = Some e" for p e
  proof -
    have u: "unat (fe_id e) < 2147483648" "1 \<le> unat (fe_id e)"
      using registry_relD(3,4) [OF db(2) e] db(3) by (simp_all add: word_less_nat_alt word_le_nat_alt)
    have i: "uint (fe_id e) < 2147483648" "0 < uint (fe_id e)" unfolding uint_nat using u by linarith+
    then have "sint (fe_id e) = uint (fe_id e)" unfolding sint_uint by (intro signed_take_bit_int_eq_self) simp_all
    with i(2) show ?thesis by simp
  qed
  with db registry_queries [OF db(2)] registry_rel_unique [OF db(2)] show ?thesis by blast
qed

lemma registry_refines_map_witness:
  "\<exists>db. register_sessions list_store list_db_empty [[([97], 5, 1, 10, 20), ([98], 6, 1, 11, 21)], [([97], 7, 1, 12, 22)]]
      = Some ([[1, 2], [1]], db) \<and> get_file_hash list_store db [97] = Some (Some 7)"
proof -
  let ?ss = "[[([97], 5, 1, 10, 20), ([98], 6, 1, 11, 21)], [([97], 7, 1, 12, 22)]] :: registration list list"
  obtain V where V: "view_sessions_of ?ss registry_empty = ([[1, 2], [1]], V)" "map_option fe_hash (rv_files V [97]) = Some 7"
    by (simp add: registry_empty_def)
  have "\<exists>db. register_sessions list_store list_db_empty ?ss = Some ([[1, 2], [1]], db)
      \<and> (\<forall>p. get_file_info_id list_store db p = Some (case rv_files V p of None \<Rightarrow> - 1 | Some e \<Rightarrow> fe_id e)
           \<and> get_file_hash list_store db p = Some (map_option fe_hash (rv_files V p))
           \<and> get_file_stat list_store db p = map_option (\<lambda>e. (fe_mtime e, fe_size e)) (rv_files V p))
      \<and> (\<forall>p e. rv_files V p = Some e \<longrightarrow> 0 < sint (fe_id e) \<and> get_file_capabilities list_store db (fe_id e) = fe_caps e)
      \<and> (\<forall>p q e e'. rv_files V p = Some e \<and> rv_files V q = Some e' \<and> fe_id e = fe_id e' \<longrightarrow> p = q)"
    by (rule registry_refines_map [OF list_store_ok _ _ _ V(1)]) simp_all
  with V(2) show ?thesis by auto
qed

section \<open>Within one session\<close>

text \<open>
  A path registered twice in one session gets two ids, both of which name it in the reverse registry.
\<close>

lemma duplicate_path_two_ids:
  assumes "rocks_ok R" "\<forall>c k. rk_get R db c k = None"
  shows "\<exists>db'. register_batch R db [(p, h, caps, mt, sz), (p, h, caps, mt, sz)] = Some ([1, 2], db')
    \<and> get_file_info_id R db' p = Some 2
    \<and> rk_get R db' Cf_default (file_reverse_key 1) = Some p \<and> rk_get R db' Cf_default (file_reverse_key 2) = Some p"
  using assms(2)
  by (simp add: register_batch_def get_or_create_file_info_def next_file_id_def begin_write_def stage_def commit_def
      get_commit [OF assms(1)] written_Cons write_value_def get_file_info_id_def)

text \<open>Of two capabilities added in one session the first is lost.\<close>

lemma added_capability_lost:
  assumes "rocks_ok R" "registry_rel (rk_get R db Cf_default) V" "rv_files V p = Some e"
  shows "get_file_capabilities R (wr_db (commit R (add_file_capability R (fe_id e) CAP_MEMBERS
      (add_file_capability R (fe_id e) CAP_BLOOM (begin_write db))))) (fe_id e) = (fe_caps e OR CAP_MEMBERS)"
proof -
  note g = registry_relD(1) [OF assms(2), of p] registry_relD(2) [OF assms(2,3)]
  have c: "get_file_capabilities R db (fe_id e) = fe_caps e" by (rule registry_queries(4) [OF assms(2,3)])
  have u: "(encode_entry e)[4 := c] = encode_entry (e\<lparr>fe_caps := c\<rparr>)" for c
    by (simp add: encode_entry_def encode_file_record_def list_update_append)
  show ?thesis
    using g assms(3)
    by (simp add: add_file_capability_def set_file_capabilities_def set_file_capabilities_by_path_def c u commit_def
        get_commit [OF assms(1)] written_Cons write_value_def get_file_capabilities_def begin_write_def stage_def)
qed

section \<open>Freshness\<close>

lemma all_file_ids:
  assumes "rocks_ok R" "registry_rel (rk_get R db Cf_default) V"
  shows "\<exists>known. query_all_file_info_ids R db = Some known
    \<and> set known = {(p, fe_id e) | p e. rv_files V p = Some e} \<and> sorted_wrt (<) (map fst known)"
proof -
  let ?A = "{(p, e). rv_files V p = Some e}"
  note g = registry_relD(1) [OF assms(2)]
  have s: "set (scan_prefix R db Cf_default (text_bytes ''f|''))
      = (\<lambda>a. ((\<lambda>(p, e). file_lookup_key p) a, (\<lambda>(p, e). encode_entry e) a)) ` ?A"
  proof (intro set_eqI iffI)
    fix x assume "x \<in> set (scan_prefix R db Cf_default (text_bytes ''f|''))"
    then obtain p v where "x = (file_lookup_key p, v)" "rk_get R db Cf_default (file_lookup_key p) = Some v"
      by (auto simp: scan_ok(1) [OF assms(1)] prefix_def file_lookup_key_def)
    then show "x \<in> (\<lambda>a. ((\<lambda>(p, e). file_lookup_key p) a, (\<lambda>(p, e). encode_entry e) a)) ` ?A"
      by (force simp: g)
  qed (auto simp: scan_ok(1) [OF assms(1)] g [unfolded file_lookup_key_def] prefix_def file_lookup_key_def)
  let ?dec = "\<lambda>k v. map_option (Pair (drop 2 k)) (decode_file_id v)"
  obtain xs where xs:
      "those (map (\<lambda>(k, v). ?dec k v) (scan_prefix R db Cf_default (text_bytes ''f|''))) = Some xs"
      "set xs = (\<lambda>(p, e). (p, fe_id e)) ` ?A"
      "\<And>ord. (\<And>a b. a \<in> ?A \<Longrightarrow> b \<in> ?A \<Longrightarrow> (\<lambda>(p, e). file_lookup_key p) a < (\<lambda>(p, e). file_lookup_key p) b
         \<Longrightarrow> ord ((\<lambda>(p, e). (p, fe_id e)) a) ((\<lambda>(p, e). (p, fe_id e)) b)) \<Longrightarrow> sorted_wrt ord xs"
    by (rule scan_decode [OF assms(1) s, where dec = ?dec and res = "\<lambda>(p, e). (p, fe_id e)"])
       (auto simp: file_lookup_key_def)
  have "sorted_wrt (\<lambda>a b. fst a < fst b) xs" by (rule xs(3)) (auto simp: file_lookup_key_def append_less)
  moreover have "(\<lambda>(p, e). (p, fe_id e)) ` ?A = {(p, fe_id e) | p e. rv_files V p = Some e}" by auto
  ultimately show ?thesis using xs(1,2) by (simp add: query_all_file_info_ids_def sorted_wrt_map)
qed

definition registered :: "registry_view \<Rightarrow> file_system \<Rightarrow> bytes \<Rightarrow> bool" where
  "registered V F p \<longleftrightarrow>
     (\<exists>e. rv_files V (fs_logical F p) = Some e \<and> fe_mtime e = fs_mtime F p \<and> fe_size e = fs_size F p)"

lemma freshness:
  assumes "registry_rel (rk_get R db Cf_default) V" "rk_get R db Cf_default schema_version_key = Some (put_be32 ver)"
    and "\<forall>p e. rv_files V p = Some e \<longrightarrow> 0 < sint (fe_id e)"
  shows "check_freshness R F db p =
    Some (if ver < SCHEMA_VERSION then SchemaOutdated else if registered V F p then Fresh else Stale)"
  using assms(2,3)
  by (cases "rv_files V (fs_logical F p)")
     (auto simp: check_freshness_def get_schema_version_def registry_queries [OF assms(1)] registered_def dest: less_asym)

lemma classify_ok:
  assumes "registry_rel (rk_get R db Cf_default) V" "rk_get R db Cf_default schema_version_key = Some (put_be32 ver)"
    and "\<forall>p e. rv_files V p = Some e \<longrightarrow> 0 < sint (fe_id e)"
  shows "classify_files R F db paths = Some (filter (\<lambda>p. rv_files V (fs_logical F p) = None) paths,
    filter (\<lambda>p. rv_files V (fs_logical F p) \<noteq> None \<and> (ver < SCHEMA_VERSION \<or> \<not> registered V F p)) paths)"
proof (induction paths)
  case (Cons p paths)
  show ?case
  proof (cases "rv_files V (fs_logical F p)")
    case None
    then show ?thesis using Cons by (simp add: registry_queries(1) [OF assms(1)])
  next
    case (Some e)
    then have "\<not> sint (fe_id e) < 0" using assms(3) by fastforce
    then show ?thesis
      using Cons Some freshness [OF assms] by (simp add: registry_queries(1) [OF assms(1)])
  qed
qed simp

text \<open>
  The stale check sorts files right. On an index with the current schema, the files called added
  are those without a registration, the changed ones those registered with another time or size,
  the removed ones the registered paths that are not asked about; a file in none of the three is
  registered with the time and size it has. On an older schema every registered file is changed.
\<close>

theorem stale_check_exact:
  assumes "rocks_ok R" and "registry_rel (rk_get R db Cf_default) V"
    and "\<forall>p e. rv_files V p = Some e \<longrightarrow> 0 < sint (fe_id e)"
    and "rk_get R db Cf_default schema_version_key = Some (put_be32 ver)"
  shows "\<exists>c. find_stale_files R F db paths = Some c \<and> st_outdated c = (ver < SCHEMA_VERSION)
    \<and> st_added c = filter (\<lambda>p. rv_files V (fs_logical F p) = None) paths
    \<and> st_changed c = filter (\<lambda>p. case rv_files V (fs_logical F p) of None \<Rightarrow> False
         | Some e \<Rightarrow> ver < SCHEMA_VERSION \<or> (fe_mtime e, fe_size e) \<noteq> (fs_mtime F p, fs_size F p)) paths
    \<and> set (st_removed c) = {p. rv_files V p \<noteq> None} - fs_logical F ` set paths \<and> sorted_wrt (<) (st_removed c)"
proof -
  obtain known where k: "query_all_file_info_ids R db = Some known"
      "set known = {(p, fe_id e) | p e. rv_files V p = Some e}" "sorted_wrt (<) (map fst known)"
    using all_file_ids [OF assms(1,2)] by blast
  have "fst ` set known = {p. rv_files V p \<noteq> None}" unfolding k(2) by force
  moreover have "sorted_wrt (<) (filter (\<lambda>p. p \<notin> fs_logical F ` set paths) (map fst known))" using k(3) by (rule sorted_wrt_filter)
  moreover have "(\<lambda>p. rv_files V (fs_logical F p) \<noteq> None \<and> (ver < SCHEMA_VERSION \<or> \<not> registered V F p))
      = (\<lambda>p. case rv_files V (fs_logical F p) of None \<Rightarrow> False
           | Some e \<Rightarrow> ver < SCHEMA_VERSION \<or> (fe_mtime e, fe_size e) \<noteq> (fs_mtime F p, fs_size F p))"
    by (auto simp: fun_eq_iff registered_def split: option.splits)
  moreover have "get_schema_version R db = Some ver" by (simp add: get_schema_version_def assms(4))
  ultimately show ?thesis
    using k(1) by (simp add: find_stale_files_def classify_ok [OF assms(2,4,3)] set_diff_eq)
qed

definition sample_files :: file_system where
  "sample_files = \<lparr>fs_logical = (@) [47], fs_hash = (\<lambda>_. 9), fs_mtime = (\<lambda>_. 1), fs_size = of_nat \<circ> length\<rparr>"

definition sample_index :: list_db where
  "sample_index = rk_commit list_store list_db_empty
     [Put Cf_default schema_version_key (put_be32 SCHEMA_VERSION)]"

lemma stale_check_exact_witness:
  "\<exists>c. find_stale_files list_store sample_files sample_index [[97], [98]] = Some c
    \<and> st_added c = [[97], [98]] \<and> st_removed c = [] \<and> \<not> st_outdated c"
proof -
  have g: "rk_get list_store sample_index Cf_default k = (if k = schema_version_key then Some (put_be32 SCHEMA_VERSION) else None)" for k
    using list_db_empty [of Cf_default k]
    by (auto simp: sample_index_def get_commit [OF list_store_ok] written_Cons write_value_def)
  have "file_lookup_key p \<noteq> schema_version_key" "file_reverse_key f \<noteq> schema_version_key" "next_file_id_key \<noteq> schema_version_key" for p f
    by (simp_all add: file_lookup_key_def file_reverse_key_def schema_version_key_def next_file_id_key_def text_bytes_def)
  then have r: "registry_rel (rk_get list_store sample_index Cf_default) registry_empty"
    by (simp add: registry_rel_def registry_empty_def g)
  show ?thesis
    using stale_check_exact [OF list_store_ok r, of SCHEMA_VERSION sample_files "[[97], [98]]"]
    by (auto simp: registry_empty_def g)
qed

end
