(* ===== verification/BatchPrune.thy ===== *)
theory BatchPrune
  imports PrunerFile IndexRegistry
begin

text \<open>
  The pruner on the index database: the record of answers \<open>index_db\<close> built from the queries of
  \<^verbatim>\<open>indexer/index_database.cpp\<close> on the store, the scans that read the rows of many files at once, and
  \<^verbatim>\<open>ChunkPrunerUtility::process_batch\<close>, which agrees with pruning its files one by one.

  The decoder of a statistics value and the decompressor are arguments; so is the path that the file
  system makes of a name.
\<close>

section \<open>Queries\<close>

definition decode_statistics_row :: "(bytes \<Rightarrow> 'a option) \<Rightarrow> bytes \<Rightarrow> bytes \<Rightarrow> (w64 \<times> 'a) option" where
  "decode_statistics_row dec k v =
     (if length k < 12 then None else map_option (Pair (be_value (take 8 (drop 4 k)))) (dec v))"

definition query_chunk_statistics :: "(bytes \<Rightarrow> 'a option) \<Rightarrow> 'db rocks \<Rightarrow> 'db \<Rightarrow> file_id \<Rightarrow> (w64 \<times> 'a) list option" where
  "query_chunk_statistics dec R db f =
     map_option (sort_key fst)
       (those (map (\<lambda>(k, v). decode_statistics_row dec k v) (scan_prefix R db Cf_chunk_stats (prefix_for_file f))))"

definition query_chunk_statistics_batch ::
    "(bytes \<Rightarrow> 'a option) \<Rightarrow> 'db rocks \<Rightarrow> 'db \<Rightarrow> file_id list \<Rightarrow> (file_id \<Rightarrow> (w64 \<times> 'a) list) option" where
  "query_chunk_statistics_batch dec R db fs =
     (case for_each_file_in_batch R db Cf_chunk_stats fs of None \<Rightarrow> None
      | Some rows \<Rightarrow>
          map_option (\<lambda>xs f. sort_key fst (map snd (filter (\<lambda>e. fst e = f) xs)))
            (those (map (\<lambda>(f, k, v). map_option (Pair f) (decode_statistics_row dec k v)) rows)))"

definition query_chunk_bloom_filters_batch ::
    "'db rocks \<Rightarrow> 'db \<Rightarrow> file_id \<Rightarrow> bytes list \<Rightarrow> (bytes \<times> chunk_bloom list) list option" where
  "query_chunk_bloom_filters_batch R db f dms =
     those (map (\<lambda>dm. map_option (Pair dm) (query_chunk_bloom_filters R db f dm)) dms)"

definition query_file_bloom_filters_batch ::
    "'db rocks \<Rightarrow> 'db \<Rightarrow> file_id \<Rightarrow> bytes list \<Rightarrow> (bytes \<times> bytes) list option" where
  "query_file_bloom_filters_batch R db f dms =
     map_option (\<lambda>rs. concat (map (\<lambda>(dm, r). case r of None \<Rightarrow> [] | Some (n, blob) \<Rightarrow> [(dm, blob)]) rs))
       (those (map (\<lambda>dm. map_option (Pair dm) (query_file_bloom_filter R db f dm)) dms))"

text \<open>The table of the names of a hash type, as the cache of all hash tables holds it.\<close>

fun hash_type_code :: "hash_type \<Rightarrow> w8" where
  "hash_type_code FILE = 0" | "hash_type_code HOST = 1" | "hash_type_code STRING = 2"

definition cached_names :: "'db rocks \<Rightarrow> 'db \<Rightarrow> hash_type \<Rightarrow> (bytes \<times> bytes) list" where
  "cached_names R db t =
     map (\<lambda>(k, v). (tl k, v))
       (filter (\<lambda>(k, v). k \<noteq> [] \<and> hd k = hash_type_code t + 4) (scan_prefix R db Cf_hash_tables []))"

definition resolve_name_to_hash :: "'db rocks \<Rightarrow> 'db \<Rightarrow> hash_type \<Rightarrow> bytes \<Rightarrow> bytes option" where
  "resolve_name_to_hash R db t name = map_of (cached_names R db t) name"

section \<open>The index as the pruner sees it\<close>

record 'db index_handle =
  ih_rocks :: "'db rocks"
  ih_db :: 'db
  ih_logical :: "string \<Rightarrow> string"
  ih_histogram :: "bytes \<Rightarrow> ts_hist option"
  ih_inflate :: "bytes \<Rightarrow> nat \<Rightarrow> bytes option"

definition dim_row_of :: "w64 \<times> bytes \<times> dim_stats_row \<Rightarrow> dim_row" where
  "dim_row_of r =
     (case r of (i, dm, s) \<Rightarrow>
        dim_row.make (unat i) (bytes_text dm) (bytes_text (dim_stats_row.dr_min s)) (bytes_text (dim_stats_row.dr_max s))
          (bytes_text (dim_stats_row.dr_type s)) None (case dim_stats_row.dr_counts s of None \<Rightarrow> [] | Some z \<Rightarrow> z))"

definition hist_of :: "w64 \<times> ts_hist \<Rightarrow> nat \<times> ts_hist" where "hist_of r = (unat (fst r), snd r)"

definition open_index :: "'db index_handle \<Rightarrow> index_db" where
  "open_index S =
     (let R = ih_rocks S; d = ih_db S in
      \<lparr>db_fid = (\<lambda>p. map_option sint (get_file_info_id R d (text_bytes (ih_logical S p)))),
       db_dim_rows = (\<lambda>f. map_option (map dim_row_of) (query_chunk_dimension_stats R d (word_of_int f))),
       db_histograms = (\<lambda>f. map_option (map hist_of) (query_chunk_statistics (ih_histogram S) R d (word_of_int f))),
       db_dimensions = (\<lambda>f. Some (map bytes_text (query_index_dimensions R d (word_of_int f)))),
       db_chunk_blooms = (\<lambda>f dms.
         map_option (map (\<lambda>(dm, bs). (bytes_text dm, map (\<lambda>b. (unat (cb_checkpoint b), cb_data b)) bs)))
           (query_chunk_bloom_filters_batch R d (word_of_int f) (map text_bytes dms))),
       db_file_blooms = (\<lambda>f dms.
         map_option (map (\<lambda>(dm, blob). (bytes_text dm, blob)))
           (query_file_bloom_filters_batch R d (word_of_int f) (map text_bytes dms))),
       db_hash_of = (\<lambda>t s. Some (map_option bytes_text (resolve_name_to_hash R d t (text_bytes s)))),
       db_name_id = (\<lambda>s. map_option (map_option unat) (query_name_id R d (text_bytes s))),
       db_name_files = (\<lambda>s. map_option (map sint) (query_name_file_postings R d (text_bytes s))),
       db_name_chunks = (\<lambda>s f. map_option (map unat) (query_name_chunk_postings R d (text_bytes s) (word_of_int f))),
       db_inflate = ih_inflate S\<rparr>)"

section \<open>The batch\<close>

definition scan_dim_rows :: "'db index_handle \<Rightarrow> int list \<Rightarrow> row_map option" where
  "scan_dim_rows S fids =
     map_option (\<lambda>g fid. Some (map dim_row_of (g (word_of_int fid))))
       (query_chunk_dimension_stats_batch (ih_rocks S) (ih_db S) (map word_of_int fids))"

definition scan_histograms :: "'db index_handle \<Rightarrow> int list \<Rightarrow> hist_map option" where
  "scan_histograms S fids =
     map_option (\<lambda>g fid. Some (map hist_of (g (word_of_int fid))))
       (query_chunk_statistics_batch (ih_histogram S) (ih_rocks S) (ih_db S) (map word_of_int fids))"

text \<open>\<open>Inl\<close> is the error of the whole batch: the id of a file or one of the two scans could not be read.\<close>

definition process_batch :: "bloom_math \<Rightarrow> 'db index_handle \<Rightarrow> (string \<times> query_node) list \<Rightarrow> unit + prune_output list" where
  "process_batch B S items =
     (let db = open_index S in
      case those (map (\<lambda>p. db_fid db (fst p)) items) of
        None \<Rightarrow> Inl ()
      | Some fids \<Rightarrow>
          let good = filter (\<lambda>f. 0 \<le> f) fids
          in case (scan_dim_rows S good, scan_histograms S good) of
               (Some rows, Some hists) \<Rightarrow> Inr (prune_items B db rows hists (zip fids (map snd items)))
             | _ \<Rightarrow> Inl ())"

section \<open>A batch scan sees the rows of each file\<close>

definition row_file :: "bytes \<Rightarrow> file_id" where "row_file k = ucast (be_value (take 4 k))"

lemma be_nat_inj: "length xs = length ys \<Longrightarrow> be_nat xs = be_nat ys \<Longrightarrow> xs = ys"
  using be_nat_mono [of xs ys] be_nat_mono [of ys xs] by (cases xs ys rule: linorder_cases) auto

lemma key_split:
  assumes "4 \<le> length k"
  shows "k = put_be32 (row_file k) @ drop 4 k"
proof -
  let ?f = "of_nat (be_nat (take 4 k)) :: w32"
  have b: "be_nat (take 4 k) < 2 ^ 32" using be_nat_less [of "take 4 k"] assms by simp
  then have u: "unat ?f = be_nat (take 4 k)" by (simp add: unat_of_nat take_bit_nat_eq_self)
  have "unat (ucast ?f :: w64) = unat ?f"
    using b u by (simp add: unsigned_ucast_eq take_bit_nat_eq_self)
  then have "be_nat (put_be32 ?f) = be_nat (take 4 k)" using u b by (simp add: put_be32_def be_nat_put_be)
  then have e: "put_be32 ?f = take 4 k" using assms by (intro be_nat_inj) simp_all
  have "row_file k = ucast (be_value (put_be32 ?f))" by (simp only: row_file_def e)
  then have "row_file k = ?f" by simp
  with e show ?thesis by (metis append_take_drop_id)
qed

lemma row_file_key [simp]: "row_file (put_be32 f @ r) = f"
  by (simp add: row_file_def)

lemma prefix_row_file: "4 \<le> length k \<Longrightarrow> prefix (prefix_for_file f) k \<longleftrightarrow> row_file k = f"
  using key_split [of k] prefix_be32 [of f "row_file k" "drop 4 k"] by (auto simp: prefix_for_file_def)

lemma row_file_mono:
  assumes "4 \<le> length k" "4 \<le> length k'" "k < k'"
  shows "row_file k \<le> row_file k'"
proof -
  have "put_be32 (row_file k) @ drop 4 k < put_be32 (row_file k') @ drop 4 k'"
    using assms key_split by metis
  then show ?thesis by (auto simp: append_less be32_less)
qed

lemma sint_nonneg: "0 \<le> sint w \<Longrightarrow> sint w = uint (w :: w32)"
  using sint_lt [of w] by (simp add: uint_sint take_bit_int_eq_self)

lemma files_in_rows_filter:
  assumes "\<forall>(k, v) \<in> set rs. 4 \<le> length k" "sorted_wrt (<) (map fst rs)" "\<forall>f \<in> W. 0 \<le> sint f \<and> sint f \<le> m"
  shows "files_in_rows m W rs = Some (map (\<lambda>(k, v). (row_file k, k, v)) (filter (\<lambda>(k, v). row_file k \<in> W) rs))"
  using assms(1,2)
proof (induction rs)
  case (Cons e rs)
  obtain k v where e: "e = (k, v)" by (cases e)
  have k: "decode_prefixed_file_id k = Some (row_file k)"
    using Cons.prems(1) e by (simp add: decode_prefixed_file_id_def row_file_def)
  have ih: "files_in_rows m W rs = Some (map (\<lambda>(k, v). (row_file k, k, v)) (filter (\<lambda>(k, v). row_file k \<in> W) rs))"
    using Cons by simp
  show ?case
  proof (cases "m < sint (row_file k)")
    case True
    have "row_file k' \<notin> W" if "(k', v') \<in> set (e # rs)" for k' v'
    proof
      assume w: "row_file k' \<in> W"
      have "k = k' \<or> k < k'" "4 \<le> length k" "4 \<le> length k'" using that Cons.prems e by force+
      then have "row_file k \<le> row_file k'" using row_file_mono by auto
      moreover have s: "0 \<le> sint (row_file k')" "sint (row_file k') \<le> m" using w assms(3) by auto
      moreover have "0 \<le> sint (row_file k)" using True s by linarith
      ultimately have "sint (row_file k) \<le> sint (row_file k')" using s by (simp add: sint_nonneg word_le_def)
      with True s show False by simp
    qed
    then have "filter (\<lambda>(k, v). row_file k \<in> W) (e # rs) = []" by (auto simp: filter_empty_conv)
    then show ?thesis using True k e by simp
  next
    case False
    then show ?thesis using k e ih by simp
  qed
qed simp

lemma strict_sorted_keys_unique:
  assumes "sorted_wrt (<) (map fst xs)" "sorted_wrt (<) (map fst ys)" "set xs = set (ys :: (bytes \<times> bytes) list)"
  shows "xs = ys"
proof -
  have k: "map fst xs = map fst ys"
    using assms by (metis list.set_map strict_sorted_equal)
  have "inj_on fst (set xs \<union> set ys)"
    using assms(1,3) by (simp add: strict_sorted_iff distinct_map)
  with k show ?thesis by (rule map_inj_on)
qed

text \<open>The rows that a batch scan hands out for one of its files are those of the file's own scan.\<close>

definition keys_formed :: "'db rocks \<Rightarrow> 'db \<Rightarrow> cf \<Rightarrow> bool" where
  "keys_formed R db c \<longleftrightarrow> (\<forall>k v. rk_get R db c k = Some v \<longrightarrow> 4 \<le> length k)"

lemma batch_rows:
  assumes R: "rocks_ok R" and k: "keys_formed R db c" and fs: "\<forall>f \<in> set fs. 0 \<le> sint f"
  obtains rows where "for_each_file_in_batch R db c fs = Some rows"
    "\<And>f. f \<in> set fs \<Longrightarrow> map snd (filter (\<lambda>e. fst e = f) rows) = scan_prefix R db c (prefix_for_file f)"
    "\<And>e. e \<in> set rows \<Longrightarrow> fst e \<in> set fs"
proof (cases "fs = []")
  case True
  then show thesis using that [of "[]"] by (simp add: for_each_file_in_batch_def)
next
  case False
  define lo where "lo = Min (set (map sint fs))"
  define hi where "hi = Max (set (map sint fs))"
  define p where "p = prefix_for_file (word_of_int lo)"
  let ?rs = "rk_seek R db c p"
  have ne: "set (map sint fs) \<noteq> {}" using False by simp
  have sorted: "sorted_wrt (<) (map fst ?rs)"
    and mem: "(k, v) \<in> set ?rs \<longleftrightarrow> p \<le> k \<and> rk_get R db c k = Some v" for k v
    using R by (simp_all add: rocks_ok_def)
  have len: "\<forall>(k, v) \<in> set ?rs. 4 \<le> length k" using mem k by (auto simp: keys_formed_def)
  have "\<forall>f \<in> set fs. 0 \<le> sint f \<and> sint f \<le> hi" using fs by (auto simp: hi_def)
  from files_in_rows_filter [OF len sorted this]
  have rows: "for_each_file_in_batch R db c fs
      = Some (map (\<lambda>(k, v). (row_file k, k, v)) (filter (\<lambda>(k, v). row_file k \<in> set fs) ?rs))"
    using False by (simp add: for_each_file_in_batch_def for_each_file_in_range_def p_def lo_def hi_def Let_def)
  have one: "map snd (filter (\<lambda>e. fst e = f) (map (\<lambda>(k, v). (row_file k, k, v)) (filter (\<lambda>(k, v). row_file k \<in> set fs) ?rs)))
      = scan_prefix R db c (prefix_for_file f)" if f: "f \<in> set fs" for f
  proof -
    have "map snd (filter (\<lambda>e. fst e = f) (map (\<lambda>(k, v). (row_file k, k, v)) (filter (\<lambda>(k, v). row_file k \<in> set fs) rs)))
        = filter (\<lambda>(k, v). row_file k = f) rs" for rs :: "(bytes \<times> bytes) list"
      using f by (induction rs) auto
    moreover have "filter (\<lambda>(k, v). row_file k = f) ?rs = scan_prefix R db c (prefix_for_file f)"
    proof (rule strict_sorted_keys_unique)
      show "sorted_wrt (<) (map fst (filter (\<lambda>(k, v). row_file k = f) ?rs))"
        using sorted by (simp add: sorted_wrt_map sorted_wrt_filter)
      show "sorted_wrt (<) (map fst (scan_prefix R db c (prefix_for_file f)))" by (rule scan_ok(2) [OF R])
      have "lo \<in> set (map sint fs)" "lo \<le> sint f" using f Min_in [OF _ ne] by (auto simp: lo_def)
      then obtain g where g: "g \<in> set fs" "lo = sint g" by auto
      then have "g \<le> f" using \<open>lo \<le> sint f\<close> fs f by (simp add: sint_nonneg word_le_def)
      then have "p \<le> prefix_for_file f" using g by (auto simp: p_def prefix_for_file_def le_less be32_less)
      then have low: "p \<le> k" if "prefix (prefix_for_file f) k" for k using prefix_le [OF that] by simp
      show "set (filter (\<lambda>(k, v). row_file k = f) ?rs) = set (scan_prefix R db c (prefix_for_file f))"
        using mem low prefix_row_file k by (auto simp: scan_ok(1) [OF R] keys_formed_def)
    qed
    ultimately show ?thesis by simp
  qed
  show thesis by (rule that [OF rows one]) auto
qed

lemma those_map_Some: "those xs = Some ys \<Longrightarrow> xs = map Some ys"
  by (induction xs arbitrary: ys) (auto split: option.splits)

lemma those_defined: "those (map f xs) = Some ys \<Longrightarrow> x \<in> set xs \<Longrightarrow> f x = Some (the (f x))"
  by (induction xs arbitrary: ys) (auto split: option.splits)

lemma batch_decode:
  assumes R: "rocks_ok R" and k: "keys_formed R db c" and fs: "\<forall>f \<in> set fs. 0 \<le> sint f"
    and one: "\<forall>f \<in> set fs. those (map (\<lambda>(k, v). dec k v) (scan_prefix R db c (prefix_for_file f))) \<noteq> None"
  obtains rows xs where "for_each_file_in_batch R db c fs = Some rows"
    "those (map (\<lambda>(f, k, v). map_option (Pair f) (dec k v)) rows) = Some xs"
    "\<And>f. f \<in> set fs \<Longrightarrow>
       those (map (\<lambda>(k, v). dec k v) (scan_prefix R db c (prefix_for_file f))) = Some (map snd (filter (\<lambda>e. fst e = f) xs))"
proof -
  obtain rows where rows: "for_each_file_in_batch R db c fs = Some rows"
      "\<And>f. f \<in> set fs \<Longrightarrow> map snd (filter (\<lambda>e. fst e = f) rows) = scan_prefix R db c (prefix_for_file f)"
      "\<And>e. e \<in> set rows \<Longrightarrow> fst e \<in> set fs"
    using batch_rows [OF R k fs] by blast
  let ?g = "\<lambda>(k, v). the (dec k v)"
  have some: "\<forall>e \<in> set (scan_prefix R db c (prefix_for_file f)). (\<lambda>(k, v). dec k v) e = Some (?g e)" if "f \<in> set fs" for f
    using bspec [OF one that] by (auto dest: those_defined)
  have "\<forall>e \<in> set rows. (\<lambda>(f, k, v). map_option (Pair f) (dec k v)) e = Some ((\<lambda>(f, e). (f, ?g e)) e)"
  proof
    fix e assume e: "e \<in> set rows"
    obtain f r where fr: "e = (f, r)" by (cases e)
    then have f: "f \<in> set fs" "r \<in> set (map snd (filter (\<lambda>e. fst e = f) rows))" using rows(3) [OF e] e by force+
    then show "(\<lambda>(f, k, v). map_option (Pair f) (dec k v)) e = Some ((\<lambda>(f, e). (f, ?g e)) e)"
      using some [OF f(1)] rows(2) [OF f(1)] fr by (cases r) force
  qed
  from those_map [OF this]
  have xs: "those (map (\<lambda>(f, k, v). map_option (Pair f) (dec k v)) rows) = Some (map (\<lambda>(f, e). (f, ?g e)) rows)" .
  have m: "map snd (filter (\<lambda>e. fst e = f) (map (\<lambda>(f, e). (f, ?g e)) rows)) = map ?g (map snd (filter (\<lambda>e. fst e = f) rows))" for f
    by (induction rows) auto
  have "those (map (\<lambda>(k, v). dec k v) (scan_prefix R db c (prefix_for_file f)))
      = Some (map snd (filter (\<lambda>e. fst e = f) (map (\<lambda>(f, e). (f, ?g e)) rows)))" if f: "f \<in> set fs" for f
    using those_map [OF some [OF f]] by (simp only: m rows(2) [OF f])
  with that rows(1) xs show thesis by blast
qed

section \<open>A batch agrees with its files\<close>

definition rows_agree :: "index_db \<Rightarrow> row_map \<Rightarrow> hist_map \<Rightarrow> int \<Rightarrow> bool" where
  "rows_agree db rows hists fid \<longleftrightarrow>
     db_dim_rows db fid = Some (case rows fid of None \<Rightarrow> [] | Some rs \<Rightarrow> rs)
     \<and> db_histograms db fid = Some (case hists fid of None \<Rightarrow> [] | Some hs \<Rightarrow> hs)"

definition prune_one :: "bloom_math \<Rightarrow> index_db \<Rightarrow> int \<Rightarrow> query_node \<Rightarrow> prune_output" where
  "prune_one B db fid q =
     (if fid < 0 then assume_match else case prune_fid B db fid q of None \<Rightarrow> assume_match | Some out \<Rightarrow> out)"

lemma batch_item_agrees:
  "0 \<le> fid \<longrightarrow> rows_agree db rows hists fid \<Longrightarrow> fst (prune_batch_item B db rows hists fid q) = prune_one B db fid q"
  by (auto simp: prune_batch_item_def prune_one_def prune_fid_def rows_agree_def split: option.splits bool.splits prod.splits)

lemma batch_item_hists:
  "f \<noteq> fid \<Longrightarrow> snd (prune_batch_item B db rows hists fid q) f = hists f"
  by (auto simp: prune_batch_item_def take_histograms_def split: option.splits bool.splits prod.splits)

lemma batch_item_hists_neg: "fid < 0 \<Longrightarrow> snd (prune_batch_item B db rows hists fid q) = hists"
  by (simp add: prune_batch_item_def)

lemma prune_items_agree:
  "distinct (filter (\<lambda>f. 0 \<le> f) (map fst its)) \<Longrightarrow> (\<And>f. f \<in> set (map fst its) \<Longrightarrow> 0 \<le> f \<Longrightarrow> rows_agree db rows hists f) \<Longrightarrow>
    prune_items B db rows hists its = map (\<lambda>(f, q). prune_one B db f q) its"
proof (induction its arbitrary: hists)
  case (Cons p its)
  obtain fid q where p: "p = (fid, q)" by (cases p)
  define hists' where "hists' = snd (prune_batch_item B db rows hists fid q)"
  have "rows_agree db rows hists' f" if f: "f \<in> set (map fst its)" "0 \<le> f" for f
  proof -
    have "f \<noteq> fid \<or> fid < 0" using Cons.prems(1) f p by force
    then have "hists' f = hists f" using batch_item_hists batch_item_hists_neg by (auto simp: hists'_def)
    with Cons.prems(2) [of f] f show ?thesis by (simp add: rows_agree_def)
  qed
  with Cons.IH [of hists'] Cons.prems(1) p
  have "prune_items B db rows hists' its = map (\<lambda>(f, q). prune_one B db f q) its" by (auto split: if_splits)
  moreover have "fst (prune_batch_item B db rows hists fid q) = prune_one B db fid q"
    using Cons.prems(2) [of fid] p by (intro batch_item_agrees) auto
  ultimately show ?case by (cases "prune_batch_item B db rows hists fid q") (simp add: p hists'_def)
qed simp

lemma open_index_simps [simp]:
  "db_dim_rows (open_index S) f = map_option (map dim_row_of) (query_chunk_dimension_stats (ih_rocks S) (ih_db S) (word_of_int f))"
  "db_histograms (open_index S) f = map_option (map hist_of) (query_chunk_statistics (ih_histogram S) (ih_rocks S) (ih_db S) (word_of_int f))"
  by (simp_all add: open_index_def Let_def)

lemma scans_agree:
  assumes R: "rocks_ok (ih_rocks S)" and k: "keys_formed (ih_rocks S) (ih_db S) Cf_chunk_dim_stats" "keys_formed (ih_rocks S) (ih_db S) Cf_chunk_stats"
    and fids: "\<forall>f \<in> set fids. 0 \<le> f \<and> sint (word_of_int f :: file_id) = f"
    and ok: "\<forall>f \<in> set fids. db_dim_rows (open_index S) f \<noteq> None \<and> db_histograms (open_index S) f \<noteq> None"
  obtains rows hists where "scan_dim_rows S fids = Some rows" "scan_histograms S fids = Some hists"
    "\<And>f. f \<in> set fids \<Longrightarrow> rows_agree (open_index S) rows hists f"
proof -
  let ?R = "ih_rocks S" and ?d = "ih_db S" and ?fs = "map word_of_int fids :: file_id list"
  have nonneg: "\<forall>f \<in> set ?fs. 0 \<le> sint f" using fids by auto
  have one: "\<forall>f \<in> set ?fs. those (map (\<lambda>(k, v). decode_chunk_dimension_stats_value k v) (scan_prefix ?R ?d Cf_chunk_dim_stats (prefix_for_file f))) \<noteq> None"
    "\<forall>f \<in> set ?fs. those (map (\<lambda>(k, v). decode_statistics_row (ih_histogram S) k v) (scan_prefix ?R ?d Cf_chunk_stats (prefix_for_file f))) \<noteq> None"
    using ok by (auto simp: query_chunk_dimension_stats_def query_chunk_statistics_def)
  obtain rs xs where r: "for_each_file_in_batch ?R ?d Cf_chunk_dim_stats ?fs = Some rs"
      "those (map (\<lambda>(f, k, v). map_option (Pair f) (decode_chunk_dimension_stats_value k v)) rs) = Some xs"
      "\<And>f. f \<in> set ?fs \<Longrightarrow> those (map (\<lambda>(k, v). decode_chunk_dimension_stats_value k v)
         (scan_prefix ?R ?d Cf_chunk_dim_stats (prefix_for_file f))) = Some (map snd (filter (\<lambda>e. fst e = f) xs))"
    using batch_decode [OF R k(1) nonneg one(1)] by blast
  obtain hs ys where h: "for_each_file_in_batch ?R ?d Cf_chunk_stats ?fs = Some hs"
      "those (map (\<lambda>(f, k, v). map_option (Pair f) (decode_statistics_row (ih_histogram S) k v)) hs) = Some ys"
      "\<And>f. f \<in> set ?fs \<Longrightarrow> those (map (\<lambda>(k, v). decode_statistics_row (ih_histogram S) k v)
         (scan_prefix ?R ?d Cf_chunk_stats (prefix_for_file f))) = Some (map snd (filter (\<lambda>e. fst e = f) ys))"
    using batch_decode [OF R k(2) nonneg one(2)] by blast
  show thesis
  proof (rule that)
    show "scan_dim_rows S fids = Some (\<lambda>f. Some (map dim_row_of
        (sort_key (\<lambda>(i, dm, row). (i, dm)) (map snd (filter (\<lambda>e. fst e = word_of_int f) xs)))))"
      by (simp add: scan_dim_rows_def query_chunk_dimension_stats_batch_def r(1,2))
    show "scan_histograms S fids = Some (\<lambda>f. Some (map hist_of (sort_key fst (map snd (filter (\<lambda>e. fst e = word_of_int f) ys)))))"
      by (simp add: scan_histograms_def query_chunk_statistics_batch_def h(1,2))
  next
    fix f assume "f \<in> set fids"
    then have w: "word_of_int f \<in> set ?fs" by simp
    then show "rows_agree (open_index S)
        (\<lambda>f. Some (map dim_row_of (sort_key (\<lambda>(i, dm, row). (i, dm)) (map snd (filter (\<lambda>e. fst e = word_of_int f) xs)))))
        (\<lambda>f. Some (map hist_of (sort_key fst (map snd (filter (\<lambda>e. fst e = word_of_int f) ys))))) f"
      by (simp add: rows_agree_def query_chunk_dimension_stats_def query_chunk_statistics_def r(3) [OF w] h(3) [OF w])
  qed
qed

lemma file_id_int: "db_fid (open_index S) p = Some f \<Longrightarrow> sint (word_of_int f :: file_id) = f"
  by (auto simp: open_index_def Let_def)

section \<open>Properties\<close>

text \<open>
  C21 Pruning a batch with its two shared scans gives the outputs that pruning each file on its own gives. The
  store behaves as documented, no key of the two scanned families is shorter than a file id, no known file is
  named twice, and the id, the rows and the statistics of every file can be read: the scans fail as a whole
  where one row of a file does not decode, and a file named twice finds its histograms moved away.\<close>

theorem process_batch_agrees:
  assumes "rocks_ok (ih_rocks S)" "keys_formed (ih_rocks S) (ih_db S) Cf_chunk_dim_stats" "keys_formed (ih_rocks S) (ih_db S) Cf_chunk_stats"
    and "those (map (\<lambda>p. db_fid (open_index S) (fst p)) items) = Some fids" "distinct (filter (\<lambda>f. 0 \<le> f) fids)"
    and "\<forall>f \<in> set fids. 0 \<le> f \<longrightarrow> db_dim_rows (open_index S) f \<noteq> None \<and> db_histograms (open_index S) f \<noteq> None"
  shows "process_batch B S items = Inr (map (\<lambda>(path, q). prune_file B (open_index S) path q) items)"
proof -
  let ?good = "filter (\<lambda>f. 0 \<le> f) fids"
  have each: "map (\<lambda>p. db_fid (open_index S) (fst p)) items = map Some fids" using assms(4) by (rule those_map_Some)
  have "\<forall>f \<in> set ?good. 0 \<le> f \<and> sint (word_of_int f :: file_id) = f"
  proof
    fix f assume f: "f \<in> set ?good"
    then have "Some f \<in> set (map (\<lambda>p. db_fid (open_index S) (fst p)) items)" unfolding each by simp
    then obtain p where "db_fid (open_index S) (fst p) = Some f" by auto
    then show "0 \<le> f \<and> sint (word_of_int f :: file_id) = f" using f by (simp add: file_id_int)
  qed
  moreover have "\<forall>f \<in> set ?good. db_dim_rows (open_index S) f \<noteq> None \<and> db_histograms (open_index S) f \<noteq> None"
    using assms(6) unfolding set_filter by blast
  ultimately obtain rows hists where s: "scan_dim_rows S ?good = Some rows" "scan_histograms S ?good = Some hists"
      "\<And>f. f \<in> set ?good \<Longrightarrow> rows_agree (open_index S) rows hists f"
    by (rule scans_agree [OF assms(1-3)]) (assumption | blast)+
  have l: "length fids = length items" using arg_cong [OF each, of length] by simp
  then have "prune_items B (open_index S) rows hists (zip fids (map snd items))
      = map (\<lambda>(f, q). prune_one B (open_index S) f q) (zip fids (map snd items))"
    using assms(5) s(3) by (intro prune_items_agree) simp_all
  also have "\<dots> = map (\<lambda>(path, q). prune_file B (open_index S) path q) items"
  proof (rule nth_equalityI)
    fix i assume "i < length (map (\<lambda>(f, q). prune_one B (open_index S) f q) (zip fids (map snd items)))"
    then have i: "i < length items" using l by simp
    then have "db_fid (open_index S) (fst (items ! i)) = Some (fids ! i)" using arg_cong [OF each, of "\<lambda>xs. xs ! i"] l by simp
    then show "map (\<lambda>(f, q). prune_one B (open_index S) f q) (zip fids (map snd items)) ! i
        = map (\<lambda>(path, q). prune_file B (open_index S) path q) items ! i"
      using i l by (cases "items ! i") (simp add: prune_one_def prune_file_def)
  qed (use l in simp)
  finally show ?thesis by (simp only: process_batch_def Let_def assms(4) s(1,2) option.case prod.case)
qed

text \<open>A store with one registered file, a row of its dimension \<^verbatim>\<open>name\<close> and a statistics row.\<close>

definition ex_store :: list_db where
  "ex_store = (\<lambda>c. case c of
     Cf_default \<Rightarrow> [(file_lookup_key (text_bytes ''t''), encode_file_record 1 0 0 0 0)]
   | Cf_chunk_dim_stats \<Rightarrow>
       [(chunk_dim_stats_key 1 0 (text_bytes ''name''), encode_chunk_dimension_stats_value
          (dim_stats_row.make 1 (text_bytes ''read'') (text_bytes ''read'') (text_bytes ''string'') None))]
   | Cf_chunk_stats \<Rightarrow> [(chunk_stats_key 1 0, [])]
   | _ \<Rightarrow> [])"

definition ex_handle :: "list_db index_handle" where
  "ex_handle = \<lparr>ih_rocks = list_store, ih_db = ex_store, ih_logical = id, ih_histogram = (\<lambda>_. None), ih_inflate = (\<lambda>_ _. None)\<rparr>"

definition ex_handle_hist :: "ts_hist \<Rightarrow> list_db index_handle" where
  "ex_handle_hist h = ex_handle\<lparr>ih_histogram := (\<lambda>_. Some h)\<rparr>"

lemma ex_handle_reads:
  "db_fid (open_index (ex_handle_hist h)) ''t'' = Some 1" "db_fid (open_index (ex_handle_hist h)) ''u'' = Some (- 1)"
  "db_dim_rows (open_index (ex_handle_hist h)) 1 \<noteq> None" "db_histograms (open_index (ex_handle_hist h)) 1 \<noteq> None"
  by code_simp+

lemma ex_handle_keys: "keys_formed list_store ex_store Cf_chunk_dim_stats" "keys_formed list_store ex_store Cf_chunk_stats"
  by (simp_all add: keys_formed_def list_store_def ex_store_def chunk_dim_stats_key_def chunk_stats_key_def prefix_for_file_def)

lemma process_batch_agrees_witness:
  "process_batch ex_math (ex_handle_hist (ts_of [5])) [(''t'', ex_prune), (''u'', ex_prune)]
     = Inr [prune_file ex_math (open_index (ex_handle_hist (ts_of [5]))) ''t'' ex_prune, assume_match]"
proof -
  have h: "ih_rocks (ex_handle_hist (ts_of [5])) = list_store" "ih_db (ex_handle_hist (ts_of [5])) = ex_store"
    by (simp_all add: ex_handle_hist_def ex_handle_def)
  have "process_batch ex_math (ex_handle_hist (ts_of [5])) [(''t'', ex_prune), (''u'', ex_prune)]
     = Inr (map (\<lambda>(path, q). prune_file ex_math (open_index (ex_handle_hist (ts_of [5]))) path q) [(''t'', ex_prune), (''u'', ex_prune)])"
    by (rule process_batch_agrees [where fids = "[1, - 1]"])
       (simp_all add: h list_store_ok ex_handle_keys ex_handle_reads ex_handle_reads [unfolded not_None_eq] del: open_index_simps)
  then show ?thesis by (simp add: prune_file_def ex_handle_reads(2))
qed

text \<open>Two items for one file: the first takes the histograms, the second prunes without them.\<close>

lemma second_item_without_histograms:
  "snd (prune_batch_item B db rows hists fid q) fid \<noteq> hists fid \<Longrightarrow>
     snd (prune_batch_item B db rows hists fid q) fid = map_option (map (\<lambda>(c, h). (c, h\<lparr>th_bins := []\<rparr>))) (hists fid)"
  by (auto simp: prune_batch_item_def take_histograms_def split: option.splits bool.splits prod.splits if_splits)

end
