(* ===== verification/HttpParser.thy ===== *)
theory HttpParser
  imports Cstd
begin

text \<open>
  The HTTP/1.x request parser of \<^verbatim>\<open>server/http_parser.cpp\<close> and \<^verbatim>\<open>HttpRequest\<close> of
  \<^verbatim>\<open>server/http_request.cpp\<close>. The cursor of the code, a pointer into the receive buffer and its end,
  is the rest of the buffer; a \<^verbatim>\<open>string_view\<close> is its text. The readers return \<open>None\<close> where the code
  returns false. The result -2 (more data needed) is \<open>Inl Need_more\<close>, -1 is \<open>Inl Bad_request\<close>, and a
  positive result is \<open>Inr\<close> of the bytes consumed and the request.
\<close>

abbreviation CR :: char where "CR \<equiv> CHR 0x0D"
abbreviation LF :: char where "LF \<equiv> CHR 0x0A"
abbreviation HT :: char where "HT \<equiv> CHR 0x09"

datatype parse_failure = Need_more | Bad_request

record http_header =
  h_name :: string
  h_value :: string

record parsed_request =
  pr_method :: string
  pr_path :: string
  pr_minor_version :: nat
  pr_headers :: "http_header list"

section \<open>Character classes\<close>

definition is_token_char :: "char \<Rightarrow> bool" where
  "is_token_char c \<longleftrightarrow> is_alnum c
     \<or> c \<in> {CHR 0x21, CHR 0x23, CHR 0x24, CHR 0x25, CHR 0x26, CHR 0x27, CHR 0x2A, CHR 0x2B, CHR 0x2D,
            CHR 0x2E, CHR 0x5E, CHR 0x5F, CHR 0x60, CHR 0x7C, CHR 0x7E}"

definition is_printable :: "char \<Rightarrow> bool" where
  "is_printable c \<longleftrightarrow> 0x20 \<le> code_of c \<and> code_of c \<noteq> 0x7F"

definition is_target_char :: "char \<Rightarrow> bool" where
  "is_target_char c \<longleftrightarrow> \<not> (code_of c < 0x21 \<or> code_of c = 0x7F)"

definition is_ows :: "char \<Rightarrow> bool" where "is_ows c \<longleftrightarrow> c = CHR '' '' \<or> c = HT"

section \<open>Readers\<close>

text \<open>
  \<^verbatim>\<open>read_token\<close> and \<^verbatim>\<open>read_request_target\<close> are the same loop: stop at the delimiter, which must not come
  first, and fail on a character out of the class or at the end of the buffer. \<open>acc\<close> is the text
  between \<^verbatim>\<open>start\<close> and the cursor.
\<close>

fun scan_to :: "char \<Rightarrow> (char \<Rightarrow> bool) \<Rightarrow> string \<Rightarrow> string \<Rightarrow> (string \<times> string) option" where
  "scan_to delim ok acc [] = None"
| "scan_to delim ok acc (c # r) =
     (if c = delim then (if acc = [] then None else Some (acc, c # r))
      else if \<not> ok c then None else scan_to delim ok (acc @ [c]) r)"

definition read_token :: "char \<Rightarrow> string \<Rightarrow> (string \<times> string) option" where
  "read_token delim r = scan_to delim is_token_char [] r"

definition read_request_target :: "string \<Rightarrow> (string \<times> string) option" where
  "read_request_target r = scan_to (CHR '' '') is_target_char [] r"

definition trim_trailing :: "string \<Rightarrow> string" where
  "trim_trailing v = rev (dropWhile is_ows (rev v))"

fun read_value_from :: "string \<Rightarrow> string \<Rightarrow> (string \<times> string) option" where
  "read_value_from acc [] = None"
| "read_value_from acc (c # r) =
     (if c = CR then
        (case r of [] \<Rightarrow> None | d # r' \<Rightarrow> if d \<noteq> LF then None else Some (trim_trailing acc, r'))
      else if c = LF then Some (trim_trailing acc, r)
      else if c \<noteq> HT \<and> \<not> is_printable c then None
      else read_value_from (acc @ [c]) r)"

definition read_header_value :: "string \<Rightarrow> (string \<times> string) option" where
  "read_header_value r = read_value_from [] r"

fun consume_eol :: "string \<Rightarrow> string option" where
  "consume_eol [] = None"
| "consume_eol (c # r) =
     (if c = CR then (case r of [] \<Rightarrow> None | d # r' \<Rightarrow> if d \<noteq> LF then None else Some r')
      else if c = LF then Some r else None)"

fun scan_blank :: "string \<Rightarrow> bool" where
  "scan_blank (c # d # r) =
     ((c = LF \<and> (d = LF \<or> (r \<noteq> [] \<and> d = CR \<and> hd r = LF))) \<or> scan_blank (d # r))"
| "scan_blank _ = False"

definition has_complete_request :: "string \<Rightarrow> bool" where
  "has_complete_request b \<longleftrightarrow> 4 \<le> length b \<and> scan_blank b"

definition skip_spaces :: "string \<Rightarrow> string" where
  "skip_spaces r = dropWhile (\<lambda>c. c = CHR '' '') r"

section \<open>The parser\<close>

definition MAX_HEADERS :: nat where "MAX_HEADERS = 64"

lemma scan_to_shape:
  "scan_to delim ok acc r = Some (t, r') \<Longrightarrow>
   \<exists>w. t = acc @ w \<and> r = w @ r' \<and> (\<forall>c\<in>set w. ok c \<and> c \<noteq> delim) \<and> r' \<noteq> [] \<and> hd r' = delim \<and> t \<noteq> []"
proof (induction delim ok acc r rule: scan_to.induct)
  case (2 delim ok acc c r)
  show ?case
  proof (cases "c = delim")
    case False
    with 2 obtain w where "t = (acc @ [c]) @ w" "r = w @ r'" "\<forall>c\<in>set w. ok c \<and> c \<noteq> delim" "r' \<noteq> []" "hd r' = delim" "t \<noteq> []"
      by (auto split: if_splits)
    with False 2(2) show ?thesis by (intro exI [of _ "c # w"]) (auto split: if_splits)
  qed (use 2(2) in \<open>auto split: if_splits\<close>)
qed simp

lemma read_value_length: "read_value_from acc r = Some (v, r') \<Longrightarrow> length r' < length r"
  by (induction acc r rule: read_value_from.induct) (auto split: if_splits list.splits)

lemma header_line_shorter:
  assumes "read_token d r = Some (n, r1)" and "read_header_value (dropWhile is_ows (tl r1)) = Some (v, r2)"
  shows "length r2 < length r"
proof -
  from assms(1) have "length r1 \<le> length r" by (auto simp: read_token_def dest!: scan_to_shape)
  moreover have "length (dropWhile is_ows (tl r1)) \<le> length r1" using length_dropWhile_le [of is_ows "tl r1"] by simp
  moreover have "length r2 < length (dropWhile is_ows (tl r1))" using assms(2) unfolding read_header_value_def by (rule read_value_length)
  ultimately show ?thesis by linarith
qed

function parse_headers :: "http_header list \<Rightarrow> string \<Rightarrow> (http_header list \<times> string) option" where
  "parse_headers hs r =
     (if r = [] then Some (hs, r)
      else if hd r = CR \<or> hd r = LF then map_option (\<lambda>r'. (hs, r')) (consume_eol r)
      else if MAX_HEADERS \<le> length hs then None
      else case read_token (CHR '':'') r of None \<Rightarrow> None
        | Some (name, r1) \<Rightarrow>
          (case read_header_value (dropWhile is_ows (tl r1)) of None \<Rightarrow> None
           | Some (v, r2) \<Rightarrow> parse_headers (hs @ [\<lparr>h_name = name, h_value = v\<rparr>]) r2))"
  by pat_completeness auto
termination by (relation "measure (\<lambda>(hs, r). length r)") (auto intro: header_line_shorter)

declare parse_headers.simps [simp del]

definition skip_leading_eol :: "string \<Rightarrow> string option" where
  "skip_leading_eol b =
     (case b of [] \<Rightarrow> Some b
      | c # r \<Rightarrow> if c = CR then (case r of [] \<Rightarrow> None | d # r' \<Rightarrow> if d \<noteq> LF then None else Some r')
                else if c = LF then Some r else Some b)"

definition read_version :: "string \<Rightarrow> (nat \<times> string) option" where
  "read_version r =
     (if length r < 8 then None
      else if take 7 r \<noteq> ''HTTP/1.'' then None
      else if \<not> is_digit (r ! 7) then None
      else Some (digit_val (r ! 7), drop 8 r))"

text \<open>The first line up to its end of line, with the blank line some clients send before it.\<close>

definition parse_request_line :: "string \<Rightarrow> ((string \<times> string \<times> nat) \<times> string) option" where
  "parse_request_line b =
     (case skip_leading_eol b of None \<Rightarrow> None | Some r0 \<Rightarrow>
      (case read_token (CHR '' '') r0 of None \<Rightarrow> None | Some (meth, r1) \<Rightarrow>
      (case read_request_target (skip_spaces (tl r1)) of None \<Rightarrow> None | Some (path, r2) \<Rightarrow>
      (case read_version (skip_spaces (tl r2)) of None \<Rightarrow> None | Some (minor, r3) \<Rightarrow>
        Some ((meth, path, minor), r3)))))"

definition parse_lines :: "string \<Rightarrow> (parsed_request \<times> string) option" where
  "parse_lines b =
     (case parse_request_line b of None \<Rightarrow> None | Some ((meth, path, minor), r3) \<Rightarrow>
      (case consume_eol r3 of None \<Rightarrow> None | Some r4 \<Rightarrow>
      (case parse_headers [] r4 of None \<Rightarrow> None | Some (hs, r5) \<Rightarrow>
        Some (\<lparr>pr_method = meth, pr_path = path, pr_minor_version = minor, pr_headers = hs\<rparr>, r5))))"

definition parse_request :: "string \<Rightarrow> parse_failure + nat \<times> parsed_request" where
  "parse_request b =
     (if \<not> has_complete_request b then Inl Need_more
      else case parse_lines b of None \<Rightarrow> Inl Bad_request
        | Some (rq, r) \<Rightarrow> Inr (length b - length r, rq))"

section \<open>\<^verbatim>\<open>HttpRequest\<close>\<close>

record http_request =
  rq_method :: string
  rq_path :: string
  rq_minor_version :: nat
  rq_headers :: "(string \<times> string) list"

definition icase_equal :: "string \<Rightarrow> string \<Rightarrow> bool" where
  "icase_equal a b \<longleftrightarrow> length a = length b \<and> (\<forall>(x, y) \<in> set (zip a b). to_lower x = to_lower y)"

definition request_parse :: "string \<Rightarrow> parse_failure + nat \<times> http_request" where
  "request_parse b =
     (case parse_request b of Inl e \<Rightarrow> Inl e
      | Inr (n, p) \<Rightarrow> Inr (n, \<lparr>rq_method = pr_method p, rq_path = pr_path p, rq_minor_version = pr_minor_version p,
          rq_headers = map (\<lambda>h. (h_name h, h_value h)) (pr_headers p)\<rparr>))"

definition request_header :: "http_request \<Rightarrow> string \<Rightarrow> string" where
  "request_header rq name =
     (case List.find (\<lambda>(k, v). icase_equal k name) (rq_headers rq) of Some (k, v) \<Rightarrow> v | None \<Rightarrow> [])"

definition has_header :: "http_request \<Rightarrow> string \<Rightarrow> string \<Rightarrow> bool" where
  "has_header rq name val \<longleftrightarrow> (\<exists>(k, v) \<in> set (rq_headers rq). icase_equal k name \<and> icase_equal v val)"

lemma icase_equal_map: "icase_equal a b \<longleftrightarrow> map to_lower a = map to_lower b"
proof (cases "length a = length b")
  case True
  then show ?thesis by (induction rule: list_induct2) (auto simp: icase_equal_def)
next
  case False
  then show ?thesis by (auto simp: icase_equal_def dest: map_eq_imp_length_eq)
qed

section \<open>Readers on a buffer that grows\<close>

text \<open>
  \<open>scan_blank (LF # r)\<close> says that the rest \<open>r\<close> of the buffer, at the start of a line, still holds the
  blank line that ends the request; every reader then stops inside of \<open>r\<close>, and does the same when
  more bytes follow.
\<close>

abbreviation grow :: "string \<Rightarrow> ('a \<times> string) option \<Rightarrow> ('a \<times> string) option" where
  "grow x res \<equiv> map_option (\<lambda>(t, r). (t, r @ x)) res"

named_theorems grow_simps \<open>a reader on a longer buffer\<close>

lemma blank_has_LF: "scan_blank r \<Longrightarrow> LF \<in> set r"
  by (induction r rule: scan_blank.induct) auto

lemma blank_tail: "scan_blank (c # r) \<Longrightarrow> c \<noteq> LF \<Longrightarrow> scan_blank r"
  by (cases r) auto

lemma blank_tl: "scan_blank r \<Longrightarrow> hd r \<noteq> LF \<Longrightarrow> scan_blank (tl r)"
  by (cases r) (auto intro: blank_tail)

lemma blank_drop: "scan_blank (w @ r) \<Longrightarrow> LF \<notin> set w \<Longrightarrow> scan_blank r"
  by (induction w) (auto dest: blank_tail)

lemma blank_line_start:
  "scan_blank (LF # r) \<Longrightarrow> hd r \<noteq> CR \<Longrightarrow> hd r \<noteq> LF \<Longrightarrow> scan_blank r"
  by (cases r) (auto split: if_splits)

lemma blank_append: "scan_blank r \<Longrightarrow> scan_blank (r @ x)"
  by (induction r rule: scan_blank.induct) (auto simp: hd_append)

lemma dropWhile_grow [grow_simps]:
  "LF \<in> set r \<Longrightarrow> \<not> P LF \<Longrightarrow> dropWhile P (r @ x) = dropWhile P r @ x"
  by (rule dropWhile_append1)

lemma blank_dropWhile: "scan_blank r \<Longrightarrow> \<not> P LF \<Longrightarrow> scan_blank (dropWhile P r)"
  by (rule blank_drop [of "takeWhile P r"]) (auto dest: set_takeWhileD)

lemma scan_to_grow:
  "LF \<in> set r \<Longrightarrow> delim \<noteq> LF \<Longrightarrow> \<not> ok LF \<Longrightarrow>
   scan_to delim ok acc (r @ x) = grow x (scan_to delim ok acc r)"
  by (induction delim ok acc r rule: scan_to.induct) auto

lemma not_LF [simp]: "\<not> is_token_char LF" "\<not> is_token_char CR" "\<not> is_target_char LF" "\<not> is_ows LF"
  by (simp_all add: is_token_char_def is_alnum_def is_alpha_def is_digit_def is_target_char_def is_ows_def code_of_def)

lemma read_token_grow [grow_simps]:
  "scan_blank (LF # r) \<Longrightarrow> d \<noteq> LF \<Longrightarrow> d \<noteq> CR \<Longrightarrow> read_token d (r @ x) = grow x (read_token d r)"
proof (cases "hd r = CR \<or> hd r = LF")
  case True
  then show "scan_blank (LF # r) \<Longrightarrow> d \<noteq> LF \<Longrightarrow> d \<noteq> CR \<Longrightarrow> ?thesis"
    by (cases r) (auto simp: read_token_def)
next
  case False
  then show "scan_blank (LF # r) \<Longrightarrow> d \<noteq> LF \<Longrightarrow> d \<noteq> CR \<Longrightarrow> ?thesis"
    by (auto simp: read_token_def intro!: scan_to_grow blank_has_LF blank_line_start)
qed

lemma read_token_rest:
  assumes "scan_blank (LF # r)" "read_token d r = Some (t, r')" "d \<noteq> LF" "d \<noteq> CR"
  shows "scan_blank (tl r')" "r' \<noteq> []"
proof -
  obtain w where w: "r = w @ r'" "\<forall>c\<in>set w. is_token_char c \<and> c \<noteq> d" "r' \<noteq> []" "hd r' = d" "t = w" "t \<noteq> []"
    using scan_to_shape [of d is_token_char "[]" r t r'] assms(2) by (auto simp: read_token_def)
  then have "is_token_char (hd r)" by (cases w) auto
  then have "hd r \<noteq> CR" "hd r \<noteq> LF" using not_LF by metis+
  with assms(1) have "scan_blank r" by (blast intro: blank_line_start)
  moreover have "LF \<notin> set w" using w(2) not_LF by blast
  ultimately have "scan_blank r'" using w(1) blank_drop by blast
  with w(3,4) assms(3) show "scan_blank (tl r')" "r' \<noteq> []" by (auto intro: blank_tl)
qed

lemma read_request_target_grow [grow_simps]:
  "scan_blank r \<Longrightarrow> read_request_target (r @ x) = grow x (read_request_target r)"
  by (simp add: read_request_target_def scan_to_grow blank_has_LF)

lemma read_request_target_rest:
  assumes "scan_blank r" "read_request_target r = Some (t, r')"
  shows "scan_blank (tl r')" "r' \<noteq> []"
proof -
  obtain w where w: "r = w @ r'" "\<forall>c\<in>set w. is_target_char c \<and> c \<noteq> CHR '' ''" "r' \<noteq> []" "hd r' = CHR '' ''"
    using scan_to_shape [OF assms(2) [unfolded read_request_target_def]] by blast
  moreover have "LF \<notin> set w" using w(2) not_LF by blast
  ultimately have "scan_blank r'" using assms(1) blank_drop by blast
  moreover have "hd r' \<noteq> LF" unfolding w(4) by simp
  ultimately show "scan_blank (tl r')" by (rule blank_tl)
  show "r' \<noteq> []" by (rule w(3))
qed

lemma read_version_grow [grow_simps]:
  assumes "scan_blank r" shows "read_version (r @ x) = grow x (read_version r)"
proof (cases "length r < 8")
  case True
  have "LF \<in> set (take 7 (r @ x))" using blank_has_LF [OF assms] True by (auto simp: take_all)
  moreover have "LF \<notin> set ''HTTP/1.''" by simp
  ultimately have "take 7 (r @ x) \<noteq> ''HTTP/1.''" by metis
  with True show ?thesis by (simp add: read_version_def)
next
  case False
  then show ?thesis by (simp add: read_version_def nth_append)
qed

lemma read_version_rest:
  assumes "scan_blank r" "read_version r = Some (v, r')"
  shows "scan_blank r'"
proof -
  have v: "8 \<le> length r" "take 7 r = ''HTTP/1.''" "is_digit (r ! 7)" "r' = drop 8 r"
    using assms(2) by (auto simp: read_version_def split: if_splits)
  have "take 8 r = take 7 r @ [r ! 7]" using v(1) take_Suc_conv_app_nth [of 7 r] by simp
  moreover have "r ! 7 \<noteq> LF" using v(3) by (auto simp: is_digit_def code_of_def)
  ultimately have "LF \<notin> set (take 8 r)" using v(2) by auto
  moreover have "r = take 8 r @ r'" using v(4) by simp
  ultimately show ?thesis using assms(1) blank_drop by metis
qed

lemma consume_eol_grow:
  assumes "scan_blank r \<or> scan_blank (LF # r)"
  shows "consume_eol (r @ x) = map_option (\<lambda>r'. r' @ x) (consume_eol r)"
  using assms by (cases r) (auto split: list.splits)

lemma consume_eol_rest:
  assumes "scan_blank r" "consume_eol r = Some r'" shows "scan_blank (LF # r')"
  using assms by (cases r) (auto split: if_splits list.splits dest: blank_tail)

lemma read_value_grow:
  "scan_blank r \<Longrightarrow> read_value_from acc (r @ x) = grow x (read_value_from acc r)"
proof (induction acc r rule: read_value_from.induct)
  case (2 acc c r)
  then show ?case by (cases r) (auto dest: blank_tail)
qed simp

lemma read_value_rest:
  "read_value_from acc r = Some (v, r') \<Longrightarrow> scan_blank r \<Longrightarrow> scan_blank (LF # r')"
proof (induction acc r rule: read_value_from.induct)
  case (2 acc c r)
  then show ?case by (cases r) (auto split: if_splits dest: blank_tail)
qed simp

lemma parse_headers_grow:
  "scan_blank (LF # r) \<Longrightarrow> parse_headers hs (r @ x) = grow x (parse_headers hs r)"
proof (induction hs r rule: parse_headers.induct)
  case (1 hs r)
  from 1(2) have ne: "r \<noteq> []" by auto
  show ?case
  proof (cases "hd r = CR \<or> hd r = LF")
    case True
    with ne consume_eol_grow [of r x] 1(2) show ?thesis
      by (simp add: parse_headers.simps [of hs] hd_append option.map_comp o_def)
  next
    case False
    have g: "read_token (CHR '':'') (r @ x) = grow x (read_token (CHR '':'') r)"
      using 1(2) by (intro read_token_grow) auto
    show ?thesis
    proof (cases "read_token (CHR '':'') r")
      case None
      with False ne g show ?thesis by (simp add: parse_headers.simps [of hs] hd_append)
    next
      case (Some p)
      then obtain n r1 where t: "read_token (CHR '':'') r = Some (n, r1)" by (cases p) auto
      from read_token_rest [OF 1(2) t] have b: "scan_blank (tl r1)" "r1 \<noteq> []" by auto
      then have b2: "scan_blank (dropWhile is_ows (tl r1))" by (simp add: blank_dropWhile)
      have d: "dropWhile is_ows (tl (r1 @ x)) = dropWhile is_ows (tl r1) @ x"
        using b by (simp add: dropWhile_grow blank_has_LF)
      have rv: "read_header_value (dropWhile is_ows (tl (r1 @ x))) = grow x (read_header_value (dropWhile is_ows (tl r1)))"
        unfolding d read_header_value_def by (rule read_value_grow [OF b2])
      show ?thesis
      proof (cases "read_header_value (dropWhile is_ows (tl r1))")
        case None
        with False ne g t rv show ?thesis by (simp add: parse_headers.simps [of hs] hd_append)
      next
        case (Some q)
        then obtain v r2 where v: "read_header_value (dropWhile is_ows (tl r1)) = Some (v, r2)" by (cases q) auto
        have bl: "scan_blank (LF # r2)" using read_value_rest v b2 unfolding read_header_value_def by blast
        show ?thesis
        proof (cases "MAX_HEADERS \<le> length hs")
          case True
          with False ne show ?thesis by (simp add: parse_headers.simps [of hs] hd_append)
        next
          case ok: False
          have "parse_headers (hs @ [\<lparr>h_name = n, h_value = v\<rparr>]) (r2 @ x)
              = grow x (parse_headers (hs @ [\<lparr>h_name = n, h_value = v\<rparr>]) r2)"
            by (rule 1(1) [OF ne False ok t _ v _ bl]) simp_all
          with False ok ne g t rv v show ?thesis
            by (simp add: parse_headers.simps [of hs r] parse_headers.simps [of hs "r @ x"] hd_append)
        qed
      qed
    qed
  qed
qed

lemma skip_leading_grow:
  assumes "scan_blank b" shows "skip_leading_eol (b @ x) = map_option (\<lambda>r. r @ x) (skip_leading_eol b)"
  using assms by (cases b) (auto simp: skip_leading_eol_def split: list.splits)

lemma skip_leading_rest:
  assumes "scan_blank b" "skip_leading_eol b = Some r" shows "scan_blank (LF # r)"
proof -
  have "scan_blank b \<Longrightarrow> scan_blank (LF # b)" by (cases b) auto
  with assms show ?thesis
    by (cases b) (auto simp: skip_leading_eol_def split: if_splits list.splits dest: blank_tail)
qed

lemma request_line_grow:
  assumes "scan_blank b"
  shows "parse_request_line (b @ x) = grow x (parse_request_line b)
         \<and> (\<forall>l r. parse_request_line b = Some (l, r) \<longrightarrow> scan_blank r)"
proof (cases "skip_leading_eol b")
  case None
  with skip_leading_grow [OF assms, of x] show ?thesis by (simp add: parse_request_line_def)
next
  case r0: (Some r0)
  note b0 = skip_leading_rest [OF assms r0]
  have t: "read_token (CHR '' '') (r0 @ x) = grow x (read_token (CHR '' '') r0)"
    using b0 by (intro read_token_grow) auto
  note pre = skip_leading_grow [OF assms, of x] r0 t
  show ?thesis
  proof (cases "read_token (CHR '' '') r0")
    case None
    with pre show ?thesis by (simp add: parse_request_line_def)
  next
    case (Some p)
    then obtain me r1 where me: "read_token (CHR '' '') r0 = Some (me, r1)" by (cases p) auto
    from read_token_rest [OF b0 me] have b1: "scan_blank (tl r1)" "r1 \<noteq> []" by auto
    then have s1: "skip_spaces (tl (r1 @ x)) = skip_spaces (tl r1) @ x" "scan_blank (skip_spaces (tl r1))"
      by (simp_all add: skip_spaces_def dropWhile_grow blank_has_LF blank_dropWhile)
    note g1 = read_request_target_grow [OF s1(2), of x, folded s1(1)]
    show ?thesis
    proof (cases "read_request_target (skip_spaces (tl r1))")
      case None
      with pre me g1 show ?thesis by (simp add: parse_request_line_def)
    next
      case (Some p)
      then obtain pa r2 where pa: "read_request_target (skip_spaces (tl r1)) = Some (pa, r2)" by (cases p) auto
      from read_request_target_rest [OF s1(2) pa] have b2: "scan_blank (tl r2)" "r2 \<noteq> []" by auto
      then have s2: "skip_spaces (tl (r2 @ x)) = skip_spaces (tl r2) @ x" "scan_blank (skip_spaces (tl r2))"
        by (simp_all add: skip_spaces_def dropWhile_grow blank_has_LF blank_dropWhile)
      note g2 = read_version_grow [OF s2(2), of x, folded s2(1)] and v = read_version_rest [OF s2(2)]
      from pre me g1 pa g2 v show ?thesis
        by (cases "read_version (skip_spaces (tl r2))") (auto simp: parse_request_line_def)
    qed
  qed
qed

lemma parse_lines_grow:
  assumes "scan_blank b" shows "parse_lines (b @ x) = grow x (parse_lines b)"
proof (cases "parse_request_line b")
  case None
  with request_line_grow [OF assms, of x] show ?thesis by (simp add: parse_lines_def)
next
  case (Some p)
  then obtain l r3 where l: "parse_request_line b = Some (l, r3)" by (cases p) auto
  note G = request_line_grow [OF assms, of x]
  have b3: "scan_blank r3" using G l by blast
  have l': "parse_request_line (b @ x) = Some (l, r3 @ x)" using G l by simp
  have g3: "consume_eol (r3 @ x) = map_option (\<lambda>r'. r' @ x) (consume_eol r3)"
    using b3 by (blast intro: consume_eol_grow)
  show ?thesis
  proof (cases "consume_eol r3")
    case None
    with l l' g3 show ?thesis by (simp add: parse_lines_def split: prod.splits)
  next
    case r4: (Some r4)
    note g4 = parse_headers_grow [OF consume_eol_rest [OF b3 r4], of "[]" x]
    from l l' g3 r4 g4 show ?thesis
      by (cases "parse_headers [] r4") (auto simp: parse_lines_def split: prod.splits)
  qed
qed

section \<open>What the parser accepts\<close>

definition is_token :: "string \<Rightarrow> bool" where
  "is_token t \<longleftrightarrow> t \<noteq> [] \<and> (\<forall>c \<in> set t. is_token_char c)"

definition is_field_value :: "string \<Rightarrow> bool" where
  "is_field_value v \<longleftrightarrow> (\<forall>c \<in> set v. c = HT \<or> is_printable c)
     \<and> (v = [] \<or> \<not> is_ows (hd v) \<and> \<not> is_ows (last v))"

definition is_header :: "http_header \<Rightarrow> bool" where
  "is_header h \<longleftrightarrow> is_token (h_name h) \<and> is_field_value (h_value h)"

definition is_request :: "parsed_request \<Rightarrow> bool" where
  "is_request rq \<longleftrightarrow> is_token (pr_method rq)
     \<and> pr_path rq \<noteq> [] \<and> (\<forall>c \<in> set (pr_path rq). is_target_char c \<and> c \<noteq> CHR '' '')
     \<and> pr_minor_version rq \<le> 9 \<and> length (pr_headers rq) \<le> MAX_HEADERS
     \<and> (\<forall>h \<in> set (pr_headers rq). is_header h)"

lemma scan_to_sound:
  "scan_to d ok [] r = Some (t, r') \<Longrightarrow>
   t \<noteq> [] \<and> (\<forall>c\<in>set t. ok c \<and> c \<noteq> d) \<and> length r' < length r \<and> r' \<noteq> []"
  using scan_to_shape [of d ok "[]" r t r'] by fastforce

lemma read_value_chars:
  "read_value_from acc r = Some (v, r') \<Longrightarrow> \<exists>w. v = trim_trailing (acc @ w) \<and> (\<forall>c\<in>set w. c = HT \<or> is_printable c)
     \<and> (w \<noteq> [] \<longrightarrow> r \<noteq> [] \<and> hd w = hd r)"
proof (induction acc r rule: read_value_from.induct)
  case (2 acc c r)
  show ?case
  proof (cases "c = CR \<or> c = LF")
    case True
    with 2(2) show ?thesis by (intro exI [of _ "[]"]) (auto split: if_splits list.splits)
  next
    case False
    with 2 obtain w where "v = trim_trailing ((acc @ [c]) @ w)" "\<forall>c\<in>set w. c = HT \<or> is_printable c"
      by (auto split: if_splits)
    with False 2(2) show ?thesis by (intro exI [of _ "c # w"]) (auto split: if_splits)
  qed
qed simp

lemma trim_trailing_prefix: "\<exists>s. w = trim_trailing w @ s"
  using takeWhile_dropWhile_id [of is_ows "rev w"]
  by (metis rev_append rev_rev_ident trim_trailing_def)

lemma trim_trailing_last: "trim_trailing w \<noteq> [] \<Longrightarrow> \<not> is_ows (last (trim_trailing w))"
  by (auto simp: trim_trailing_def last_rev hd_dropWhile)

lemma field_value_sound:
  assumes "read_header_value (dropWhile is_ows r) = Some (v, r')"
  shows "is_field_value v"
proof -
  from assms obtain w where w: "v = trim_trailing w" "\<forall>c\<in>set w. c = HT \<or> is_printable c"
      "w \<noteq> [] \<longrightarrow> dropWhile is_ows r \<noteq> [] \<and> hd w = hd (dropWhile is_ows r)"
    using read_value_chars [OF assms [unfolded read_header_value_def]] unfolding append_Nil by blast
  obtain s where s: "w = v @ s" using trim_trailing_prefix w(1) by metis
  have "v \<noteq> [] \<Longrightarrow> \<not> is_ows (hd v)" using s w(3) hd_dropWhile [of is_ows r] by auto
  moreover have "\<forall>c\<in>set v. c = HT \<or> is_printable c" using s w(2) by auto
  ultimately show ?thesis using trim_trailing_last w(1) by (auto simp: is_field_value_def)
qed

lemma consume_eol_shorter: "consume_eol r = Some r' \<Longrightarrow> length r' < length r"
  by (cases r) (auto split: if_splits list.splits)

lemma parse_headers_sound:
  "parse_headers hs r = Some (hs', r') \<Longrightarrow> \<forall>h\<in>set hs. is_header h \<Longrightarrow> length hs \<le> MAX_HEADERS \<Longrightarrow>
   (\<forall>h\<in>set hs'. is_header h) \<and> length hs' \<le> MAX_HEADERS \<and> length r' \<le> length r"
proof (induction hs r rule: parse_headers.induct)
  case (1 hs r)
  show ?case
  proof (cases "r = [] \<or> hd r = CR \<or> hd r = LF")
    case True
    with 1(2-4) show ?thesis
      by (subst (asm) parse_headers.simps) (auto split: if_splits dest: consume_eol_shorter)
  next
    case False
    with 1(2) obtain n r1 v r2 where lt: "length hs < MAX_HEADERS"
        and t: "read_token (CHR '':'') r = Some (n, r1)"
        and v: "read_header_value (dropWhile is_ows (tl r1)) = Some (v, r2)"
        and p: "parse_headers (hs @ [\<lparr>h_name = n, h_value = v\<rparr>]) r2 = Some (hs', r')"
      by (subst (asm) parse_headers.simps) (auto split: if_splits option.splits)
    have "is_header \<lparr>h_name = n, h_value = v\<rparr>"
      using scan_to_sound [OF t [unfolded read_token_def]] field_value_sound [OF v]
      by (auto simp: is_header_def is_token_def)
    with 1(1) [OF _ _ _ t _ v _ p] False lt 1(3) have
      "(\<forall>h\<in>set hs'. is_header h) \<and> length hs' \<le> MAX_HEADERS \<and> length r' \<le> length r2" by auto
    with header_line_shorter [OF t v] show ?thesis by simp
  qed
qed

lemma request_line_sound:
  assumes "parse_request_line b = Some ((me, pa, mi), r)"
  shows "is_token me" "pa \<noteq> []" "\<forall>c\<in>set pa. is_target_char c \<and> c \<noteq> CHR '' ''" "mi \<le> 9" "length r < length b"
proof -
  obtain r0 r1 r2 where r0: "skip_leading_eol b = Some r0" and t: "read_token (CHR '' '') r0 = Some (me, r1)"
      and p: "read_request_target (skip_spaces (tl r1)) = Some (pa, r2)"
      and v: "read_version (skip_spaces (tl r2)) = Some (mi, r)"
    using assms by (auto simp: parse_request_line_def split: option.splits)
  note T = scan_to_sound [OF t [unfolded read_token_def]]
    and P = scan_to_sound [OF p [unfolded read_request_target_def]]
  show "is_token me" using T by (auto simp: is_token_def)
  show "pa \<noteq> []" using P by blast
  show "\<forall>c\<in>set pa. is_target_char c \<and> c \<noteq> CHR '' ''" using P by blast
  show "mi \<le> 9" using v by (auto simp: read_version_def is_digit_def digit_val_def split: if_splits)
  have sk: "length (skip_spaces (tl z)) \<le> length z" for z
    unfolding skip_spaces_def by (rule order_trans [OF length_dropWhile_le]) simp
  have "length r0 \<le> length b" using r0 by (auto simp: skip_leading_eol_def split: if_splits list.splits)
  moreover have "length r \<le> length (skip_spaces (tl r2))" using v by (auto simp: read_version_def split: if_splits)
  moreover have "length r1 < length r0" "length r2 < length (skip_spaces (tl r1))" using T P by blast+
  ultimately show "length r < length b" using sk [of r1] sk [of r2] by linarith
qed


section \<open>Rendering\<close>

text \<open>The wire form of a request, one space between the parts and CRLF line ends.\<close>

definition render_header :: "http_header \<Rightarrow> string" where
  "render_header h = h_name h @ '': '' @ h_value h @ [CR, LF]"

definition render_request :: "parsed_request \<Rightarrow> string" where
  "render_request rq =
     pr_method rq @ '' '' @ pr_path rq @ '' HTTP/1.'' @ [digit_char (pr_minor_version rq), CR, LF]
     @ concat (map render_header (pr_headers rq)) @ [CR, LF]"

lemma scan_to_run:
  "(\<forall>c\<in>set w. ok c \<and> c \<noteq> d) \<Longrightarrow> acc @ w \<noteq> [] \<Longrightarrow> scan_to d ok acc (w @ d # r) = Some (acc @ w, d # r)"
  by (induction w arbitrary: acc) auto

lemma token_no_delim: "is_token_char c \<Longrightarrow> c \<noteq> CHR '' '' \<and> c \<noteq> CHR '':'' \<and> c \<noteq> CR \<and> c \<noteq> LF"
  by (auto simp: is_token_char_def is_alnum_def is_alpha_def is_digit_def code_of_def)

lemma read_token_run:
  "is_token t \<Longrightarrow> d = CHR '' '' \<or> d = CHR '':'' \<Longrightarrow> read_token d (t @ d # r) = Some (t, d # r)"
  using token_no_delim scan_to_run [of t is_token_char d "[]" r] by (auto simp: read_token_def is_token_def)

lemma read_value_run:
  "(\<forall>c\<in>set v. (c = HT \<or> is_printable c) \<and> c \<noteq> CR \<and> c \<noteq> LF) \<Longrightarrow>
   read_value_from acc (v @ CR # LF # r) = Some (trim_trailing (acc @ v), r)"
  by (induction v arbitrary: acc) auto

lemma trim_id: "v = [] \<or> \<not> is_ows (last v) \<Longrightarrow> trim_trailing v = v"
  by (cases v rule: rev_cases) (auto simp: trim_trailing_def)

lemma printable_no_eol: "is_printable c \<Longrightarrow> c \<noteq> CR \<and> c \<noteq> LF"
  by (auto simp: is_printable_def code_of_def)

lemma read_header_run:
  assumes "is_field_value v"
  shows "read_header_value (dropWhile is_ows (CHR '' '' # v @ CR # LF # r)) = Some (v, r)"
proof -
  have ows: "is_ows (CHR '' '')" "\<not> is_ows CR" by (simp_all add: is_ows_def)
  have "dropWhile is_ows (CHR '' '' # v @ CR # LF # r) = v @ CR # LF # r"
    using assms ows by (cases v) (auto simp: is_field_value_def)
  moreover have "\<forall>c\<in>set v. (c = HT \<or> is_printable c) \<and> c \<noteq> CR \<and> c \<noteq> LF"
    using assms printable_no_eol by (fastforce simp: is_field_value_def)
  moreover have "trim_trailing v = v" by (rule trim_id) (use assms in \<open>auto simp: is_field_value_def\<close>)
  ultimately show ?thesis by (simp add: read_header_value_def read_value_run)
qed

lemma parse_headers_run:
  "\<forall>h\<in>set hs. is_header h \<Longrightarrow> length (pre @ hs) \<le> MAX_HEADERS \<Longrightarrow>
   parse_headers pre (concat (map render_header hs) @ CR # LF # r) = Some (pre @ hs, r)"
proof (induction hs arbitrary: pre)
  case Nil
  then show ?case by (simp add: parse_headers.simps)
next
  case (Cons h hs)
  let ?r = "concat (map render_header hs) @ CR # LF # r"
  have h: "is_token (h_name h)" "is_field_value (h_value h)" using Cons.prems by (auto simp: is_header_def)
  obtain c n where n: "h_name h = c # n" "is_token_char c" using h(1) by (cases "h_name h") (auto simp: is_token_def)
  have hh: "\<lparr>h_name = c # n, h_value = h_value h\<rparr> = h" using n(1) by (cases h) simp
  have t: "read_token (CHR '':'') (h_name h @ CHR '':'' # CHR '' '' # h_value h @ CR # LF # ?r)
      = Some (h_name h, CHR '':'' # CHR '' '' # h_value h @ CR # LF # ?r)"
    using h(1) by (rule read_token_run) simp
  have e: "concat (map render_header (h # hs)) @ CR # LF # r
      = h_name h @ CHR '':'' # CHR '' '' # h_value h @ CR # LF # ?r" by (simp add: render_header_def)
  have "parse_headers (pre @ [h]) ?r = Some ((pre @ [h]) @ hs, r)" using Cons.prems by (intro Cons.IH) auto
  then show ?case unfolding e
    using t read_header_run [OF h(2)] Cons.prems token_no_delim [OF n(2)]
    by (subst parse_headers.simps) (simp add: n hh)
qed

lemma blank_end: "scan_blank (w @ LF # CR # LF # r)"
proof (induction w)
  case (Cons c w)
  then show ?case by (cases "w @ LF # CR # LF # r") auto
qed simp

lemma blank_after_headers:
  "scan_blank (w @ LF # concat (map render_header hs) @ CR # LF # r)"
proof (cases hs rule: rev_cases)
  case (snoc hs' h)
  then show ?thesis
    using blank_end [of "w @ LF # concat (map render_header hs') @ h_name h @ '': '' @ h_value h @ [CR]" r]
    by (simp add: render_header_def)
qed (simp add: blank_end)

lemma request_line_run:
  assumes "is_request rq"
  shows "parse_request_line (pr_method rq @ '' '' @ pr_path rq @ '' HTTP/1.'' @ digit_char (pr_minor_version rq) # r)
       = Some ((pr_method rq, pr_path rq, pr_minor_version rq), r)"
proof -
  let ?v = "''HTTP/1.'' @ digit_char (pr_minor_version rq) # r"
  have me: "is_token (pr_method rq)" and pa: "pr_path rq \<noteq> []"
      "\<forall>c \<in> set (pr_path rq). is_target_char c \<and> c \<noteq> CHR '' ''" and mi: "pr_minor_version rq < 10"
    using assms by (auto simp: is_request_def)
  obtain c m where m: "pr_method rq = c # m" "is_token_char c" using me by (cases "pr_method rq") (auto simp: is_token_def)
  have "skip_leading_eol (pr_method rq @ x) = Some (pr_method rq @ x)" for x
    using token_no_delim [OF m(2)] by (simp add: skip_leading_eol_def m)
  moreover have "read_token (CHR '' '') (pr_method rq @ CHR '' '' # x) = Some (pr_method rq, CHR '' '' # x)" for x
    using me by (rule read_token_run) simp
  moreover have "skip_spaces (pr_path rq @ x) = pr_path rq @ x" for x
    using pa by (cases "pr_path rq") (auto simp: skip_spaces_def)
  moreover have "read_request_target (pr_path rq @ CHR '' '' # x) = Some (pr_path rq, CHR '' '' # x)" for x
    using scan_to_run [of "pr_path rq" is_target_char "CHR '' ''" "[]" x] pa by (simp add: read_request_target_def)
  moreover have "skip_spaces ?v = ?v" by (simp add: skip_spaces_def)
  moreover have "read_version ?v = Some (pr_minor_version rq, r)" using mi by (simp add: read_version_def)
  ultimately show ?thesis by (simp add: parse_request_line_def)
qed

lemma parse_request_grow:
  assumes "parse_request b \<noteq> Inl Need_more"
  shows "parse_request (b @ x) = parse_request b"
proof -
  have c: "has_complete_request b"
    using assms by (cases "has_complete_request b") (auto simp: parse_request_def)
  then have "has_complete_request (b @ x)" by (auto simp: has_complete_request_def blank_append)
  with c show ?thesis
    using parse_lines_grow [of b x]
    by (cases "parse_lines b") (auto simp: parse_request_def has_complete_request_def)
qed

lemma parse_request_valid:
  assumes "parse_request b = Inr (n, rq)"
  shows "is_request rq \<and> 0 < n \<and> n \<le> length b"
proof -
  from assms obtain r where p: "parse_lines b = Some (rq, r)" and n: "n = length b - length r"
    by (auto simp: parse_request_def split: if_splits option.splits)
  from p obtain me pa mi r3 r4 hs where l: "parse_request_line b = Some ((me, pa, mi), r3)"
      and e: "consume_eol r3 = Some r4" and h: "parse_headers [] r4 = Some (hs, r)"
      and rq: "rq = \<lparr>pr_method = me, pr_path = pa, pr_minor_version = mi, pr_headers = hs\<rparr>"
    by (auto simp: parse_lines_def split: option.splits)
  note L = request_line_sound [OF l] and H = parse_headers_sound [OF h]
  have "is_request rq" unfolding is_request_def rq using L H by simp
  moreover have "length r < length b" using L(5) H consume_eol_shorter [OF e] by simp
  ultimately show ?thesis using n by simp
qed

section \<open>Properties\<close>

text \<open>
  C22: a verdict on a buffer is final. When the parser returns anything but "need more data" it
  returns the same, whatever arrives later: the same bytes consumed and the same request, or the
  same rejection, so the way a request is split over reads cannot change what is served.
\<close>

theorem parse_request_final:
  assumes "parse_request b \<noteq> Inl Need_more"
  shows "parse_request (b @ x) = parse_request b"
  using assms by (rule parse_request_grow)

text \<open>
  C23: what the parser lets through. The method and the header names are non-empty RFC 9110
  tokens, the target has no blank or control character, a header value has no line break and no
  blank at its ends, there are at most 64 headers, the minor version is one digit, and the bytes
  consumed are at least one and at most those received.
\<close>

theorem parse_request_sound:
  assumes "parse_request b = Inr (n, rq)"
  shows "is_request rq \<and> 0 < n \<and> n \<le> length b"
  using assms by (rule parse_request_valid)

text \<open>
  Every well-formed request is understood: from its wire form, followed by anything, the
  parser reads the request back and consumes exactly its bytes.
\<close>

theorem parse_rendered_request:
  assumes "is_request rq"
  shows "parse_request (render_request rq @ rest) = Inr (length (render_request rq), rq)"
proof -
  let ?h = "concat (map render_header (pr_headers rq)) @ CR # LF # rest"
  have e: "render_request rq @ rest
      = pr_method rq @ '' '' @ pr_path rq @ '' HTTP/1.'' @ digit_char (pr_minor_version rq) # CR # LF # ?h"
    by (simp add: render_request_def)
  have "parse_headers [] ?h = Some (pr_headers rq, rest)"
    using parse_headers_run [of "pr_headers rq" "[]"] assms by (simp add: is_request_def)
  then have "parse_lines (render_request rq @ rest) = Some (rq, rest)"
    unfolding e parse_lines_def request_line_run [OF assms] by simp
  moreover have "scan_blank (render_request rq @ rest)"
    using blank_after_headers [of "pr_method rq @ '' '' @ pr_path rq @ '' HTTP/1.'' @ [digit_char (pr_minor_version rq), CR]"]
    by (simp add: render_request_def)
  moreover have "4 \<le> length (render_request rq @ rest)" by (simp add: render_request_def)
  ultimately show ?thesis by (simp add: parse_request_def has_complete_request_def)
qed

definition sample_request :: parsed_request where
  "sample_request = \<lparr>pr_method = ''GET'', pr_path = ''/api/files?x=1'', pr_minor_version = 1,
     pr_headers = [\<lparr>h_name = ''Host'', h_value = ''a b''\<rparr>]\<rparr>"

lemma parse_request_final_witness:
  "parse_request ((''GET / HTTP/1.1'' @ [LF, LF]) @ ''POST'')
   = Inr (16, \<lparr>pr_method = ''GET'', pr_path = ''/'', pr_minor_version = 1, pr_headers = []\<rparr>)"
proof -
  have v: "parse_request (''GET / HTTP/1.1'' @ [LF, LF])
     = Inr (16, \<lparr>pr_method = ''GET'', pr_path = ''/'', pr_minor_version = 1, pr_headers = []\<rparr>)" by code_simp
  then have "parse_request (''GET / HTTP/1.1'' @ [LF, LF]) \<noteq> Inl Need_more" by simp
  from parse_request_final [OF this] v show ?thesis by simp
qed

lemma parse_request_sound_witness:
  "is_request \<lparr>pr_method = ''GET'', pr_path = ''/'', pr_minor_version = 1, pr_headers = []\<rparr>
   \<and> 0 < (16 :: nat) \<and> (16 :: nat) \<le> length (''GET / HTTP/1.1'' @ [LF, LF])"
  by (rule parse_request_sound) code_simp

lemma parse_rendered_request_witness:
  "parse_request (render_request sample_request @ ''tail'')
   = Inr (length (render_request sample_request), sample_request)"
  by (rule parse_rendered_request) code_simp

end
