(* ===== verification/HttpRouter.thy ===== *)
theory HttpRouter
  imports HttpParser Bytes "HOL-Library.Product_Lexorder" "HOL-Library.Multiset"
begin

text \<open>
  Query parameters, responses and request routing: \<^verbatim>\<open>server/router.cpp\<close>, \<^verbatim>\<open>server/http_response.cpp\<close>
  and the pagination cursor of \<^verbatim>\<open>server/cursor.cpp\<close>. A route handler is a function of the request and
  its parameters that returns a response or throws; the body of a streaming response is the list
  of the chunks its generator yields, each a list of lines.
\<close>

section \<open>\<^verbatim>\<open>QueryParams\<close>\<close>

type_synonym query_params = "(string \<times> string) list"

definition xdigit_val :: "char \<Rightarrow> nat" where
  "xdigit_val c = (if is_digit c then code_of c - 48
                   else if 97 \<le> code_of c then code_of c - 87 else code_of c - 55)"

text \<open>
  \<^verbatim>\<open>std::strtoul\<close> on the two characters after a percent sign, cast to \<^verbatim>\<open>char\<close>, when it consumes both:
  two hexadecimal digits, or one after a blank or a sign, which the function accepts too.
\<close>

definition hex_pair :: "char \<Rightarrow> char \<Rightarrow> char option" where
  "hex_pair a b =
     (if \<not> is_xdigit b then None
      else if is_xdigit a then Some (char_of (16 * xdigit_val a + xdigit_val b))
      else if is_space a \<or> a = CHR ''+'' then Some (char_of (xdigit_val b))
      else if a = CHR ''-'' then Some (char_of ((256 - xdigit_val b) mod 256))
      else None)"

fun url_decode :: "string \<Rightarrow> string" where
  "url_decode [] = []"
| "url_decode (c # r) =
     (if c = CHR ''%'' \<and> 2 \<le> length r then
        (case hex_pair (r ! 0) (r ! 1) of
           Some d \<Rightarrow> d # url_decode (drop 2 r)
         | None \<Rightarrow> c # url_decode r)
      else if c = CHR ''+'' then CHR '' '' # url_decode r
      else c # url_decode r)"

definition until :: "char \<Rightarrow> string \<Rightarrow> string" where "until d s = takeWhile (\<lambda>c. c \<noteq> d) s"
definition after :: "char \<Rightarrow> string \<Rightarrow> string" where "after d s = tl (dropWhile (\<lambda>c. c \<noteq> d) s)"

lemma length_after: "s \<noteq> [] \<Longrightarrow> length (after d s) < length s"
  using length_dropWhile_le [of "\<lambda>c. c \<noteq> d" s] by (cases s) (auto simp: after_def)

definition parse_pair :: "string \<Rightarrow> string \<times> string" where
  "parse_pair p =
     (if CHR ''='' \<notin> set p then (url_decode p, [])
      else (url_decode (until (CHR ''='') p), url_decode (after (CHR ''='') p)))"

function params_parse :: "string \<Rightarrow> query_params" where
  "params_parse q =
     (if q = [] then [] else parse_pair (until (CHR ''&'') q) # params_parse (after (CHR ''&'') q))"
  by pat_completeness auto
termination by (relation "measure length") (auto intro: length_after)

declare params_parse.simps [simp del]

definition params_get_or :: "query_params \<Rightarrow> string \<Rightarrow> string \<Rightarrow> string" where
  "params_get_or ps k dflt = (case map_of ps k of Some v \<Rightarrow> v | None \<Rightarrow> dflt)"

abbreviation params_get :: "query_params \<Rightarrow> string \<Rightarrow> string" where
  "params_get ps k \<equiv> params_get_or ps k []"

definition params_has :: "query_params \<Rightarrow> string \<Rightarrow> bool" where
  "params_has ps k \<longleftrightarrow> (\<exists>(k', v) \<in> set ps. k' = k)"

abbreviation US :: char where "US \<equiv> CHR 0x1F"

definition param_entry :: "string \<times> string \<Rightarrow> string" where
  "param_entry p = fst p @ CHR ''='' # snd p @ [US]"

definition canonical_key :: "query_params \<Rightarrow> string" where
  "canonical_key ps = concat (map param_entry (sort ps))"

definition params_get_int :: "query_params \<Rightarrow> string \<Rightarrow> int \<Rightarrow> int" where
  "params_get_int ps k dflt =
     (let s = params_get ps k
      in if s = [] then dflt
         else case from_chars_i64 s of
                Some v \<Rightarrow> if - (2 ^ 31) \<le> v \<and> v < 2 ^ 31 then v else dflt
              | None \<Rightarrow> dflt)"

section \<open>Responses\<close>

record http_response =
  rs_status_code :: int
  rs_status_text :: string
  rs_headers :: "(string \<times> string) list"
  rs_body :: string
  rs_stream :: "string list list option"

definition CRLF :: string where "CRLF = [CR, LF]"

definition has_content_length :: "(string \<times> string) list \<Rightarrow> bool" where
  "has_content_length hs \<longleftrightarrow> (\<exists>(k, v) \<in> set hs. icase_equal k ''Content-Length'')"

definition serialize_headers :: "http_response \<Rightarrow> string" where
  "serialize_headers rs =
     ''HTTP/1.1 '' @ show_int (rs_status_code rs) @ '' '' @ rs_status_text rs @ CRLF
     @ ''Access-Control-Allow-Origin: *'' @ CRLF
     @ concat (map (\<lambda>(n, v). n @ '': '' @ v @ CRLF) (rs_headers rs))
     @ (if rs_body rs \<noteq> [] \<and> \<not> has_content_length (rs_headers rs)
        then ''Content-Length: '' @ show_nat (length (rs_body rs)) @ CRLF else [])
     @ CRLF"

definition serialize_response :: "http_response \<Rightarrow> string" where
  "serialize_response rs = serialize_headers rs @ rs_body rs"

definition plain_response :: "int \<Rightarrow> string \<Rightarrow> string \<Rightarrow> http_response" where
  "plain_response code text msg =
     \<lparr>rs_status_code = code, rs_status_text = text, rs_headers = [(''Content-Type'', ''text/plain'')],
      rs_body = msg, rs_stream = None\<rparr>"

definition response_ok :: "string \<Rightarrow> string \<Rightarrow> http_response" where
  "response_ok body content_type =
     \<lparr>rs_status_code = 200, rs_status_text = ''OK'', rs_headers = [(''Content-Type'', content_type)],
      rs_body = body, rs_stream = None\<rparr>"

definition not_found :: http_response where "not_found = plain_response 404 ''Not Found'' ''Not Found''"
definition bad_request :: "string \<Rightarrow> http_response" where
  "bad_request msg = plain_response 400 ''Bad Request'' msg"
definition internal_error :: "string \<Rightarrow> http_response" where
  "internal_error msg = plain_response 500 ''Internal Server Error'' msg"

definition response_streaming :: "string list list \<Rightarrow> string \<Rightarrow> http_response" where
  "response_streaming gen content_type =
     \<lparr>rs_status_code = 200, rs_status_text = ''OK'',
      rs_headers = [(''Content-Type'', content_type), (''Transfer-Encoding'', ''chunked'')],
      rs_body = [], rs_stream = Some gen\<rparr>"

section \<open>The router\<close>

text \<open>What a handler may throw: a \<^verbatim>\<open>std::exception\<close> with its message, or anything else.\<close>

datatype thrown = Std_exception string | Other_exception

type_synonym handler = "http_request \<Rightarrow> query_params \<Rightarrow> thrown + http_response"

record route =
  rt_method :: string
  rt_path :: string
  rt_handler :: handler

record router =
  ro_routes :: "route list"
  ro_auth_token :: string

definition router_get :: "string \<Rightarrow> handler \<Rightarrow> router \<Rightarrow> router" where
  "router_get path h r =
     r\<lparr>ro_routes := ro_routes r @ [\<lparr>rt_method = ''GET'', rt_path = path, rt_handler = h\<rparr>]\<rparr>"

definition router_post :: "string \<Rightarrow> handler \<Rightarrow> router \<Rightarrow> router" where
  "router_post path h r =
     r\<lparr>ro_routes := ro_routes r @ [\<lparr>rt_method = ''POST'', rt_path = path, rt_handler = h\<rparr>]\<rparr>"

definition set_auth_token :: "string \<Rightarrow> router \<Rightarrow> router" where
  "set_auth_token t r = r\<lparr>ro_auth_token := t\<rparr>"

definition strip_bearer_prefix :: "string \<Rightarrow> string option" where
  "strip_bearer_prefix h =
     (if length h \<le> 7 then None
      else if \<not> icase_equal (take 7 h) ''Bearer '' then None
      else Some (drop 7 h))"

definition preflight_response :: http_response where
  "preflight_response =
     \<lparr>rs_status_code = 204, rs_status_text = ''No Content'',
      rs_headers = [(''Access-Control-Allow-Methods'', ''GET, POST, OPTIONS''),
                    (''Access-Control-Allow-Headers'', ''Authorization, Content-Type, X-Request-Id''),
                    (''Access-Control-Max-Age'', ''86400'')],
      rs_body = [], rs_stream = None\<rparr>"

definition unauthorized :: http_response where
  "unauthorized = plain_response 401 ''Unauthorized'' ''Unauthorized''"

definition target_path :: "string \<Rightarrow> string" where "target_path p = until (CHR ''?'') p"
definition target_params :: "string \<Rightarrow> query_params" where
  "target_params p = (if CHR ''?'' \<in> set p then params_parse (after (CHR ''?'') p) else params_parse [])"

definition authorized :: "router \<Rightarrow> http_request \<Rightarrow> bool" where
  "authorized r rq \<longleftrightarrow>
     ro_auth_token r = []
     \<or> params_get (target_params (rq_path rq)) ''token'' = ro_auth_token r
     \<or> strip_bearer_prefix (request_header rq ''Authorization'') = Some (ro_auth_token r)"

definition router_handle :: "router \<Rightarrow> http_request \<Rightarrow> thrown + http_response" where
  "router_handle r rq =
     (let ps = target_params (rq_path rq); path = target_path (rq_path rq)
      in if rq_method rq = ''OPTIONS'' then Inr preflight_response
         else if \<not> authorized r rq then Inr unauthorized
         else case List.find (\<lambda>rt. rq_method rq = rt_method rt \<and> path = rt_path rt) (ro_routes r) of
                Some rt \<Rightarrow> rt_handler rt rq ps
              | None \<Rightarrow> Inr not_found)"

section \<open>Pagination cursors\<close>

unbundle bit_operations_syntax

record query_cursor =
  qc_file_index :: w64
  qc_chunk_index :: w32
  qc_line_offset :: w32

definition BASE64_CHARS :: string where
  "BASE64_CHARS = ''ABCDEFGHIJKLMNOPQRSTUVWXYZabcdefghijklmnopqrstuvwxyz0123456789+/''"

definition b64_char :: "w32 \<Rightarrow> nat \<Rightarrow> char" where
  "b64_char val k = BASE64_CHARS ! unat (drop_bit k val AND 0x3F)"

fun base64_encode :: "bytes \<Rightarrow> string" where
  "base64_encode [] = []"
| "base64_encode [x] =
     (let val = push_bit 16 (ucast x) in [b64_char val 18, b64_char val 12, CHR ''='', CHR ''=''])"
| "base64_encode [x, y] =
     (let val = push_bit 16 (ucast x) OR push_bit 8 (ucast y)
      in [b64_char val 18, b64_char val 12, b64_char val 6, CHR ''=''])"
| "base64_encode (x # y # z # r) =
     (let val = push_bit 16 (ucast x) OR push_bit 8 (ucast y) OR ucast z
      in b64_char val 18 # b64_char val 12 # b64_char val 6 # b64_char val 0 # base64_encode r)"

definition dec_table :: "char \<Rightarrow> nat" where
  "dec_table c =
     (let n = code_of c
      in if 65 \<le> n \<and> n \<le> 90 then n - 65 else if 97 \<le> n \<and> n \<le> 122 then n - 71
         else if 48 \<le> n \<and> n \<le> 57 then n + 4 else if n = 43 then 62 else if n = 47 then 63 else 64)"

definition base64_group :: "char \<Rightarrow> char \<Rightarrow> char \<Rightarrow> char \<Rightarrow> bytes option" where
  "base64_group ca cb cc cd =
     (let a = dec_table ca; b = dec_table cb; c = dec_table cc; d = dec_table cd
      in if a = 64 \<or> b = 64 then None
         else let val = (push_bit 18 (of_nat a) OR push_bit 12 (of_nat b)) :: w32;
                  val2 = (if c \<noteq> 64 then val OR push_bit 6 (of_nat c) else val);
                  val3 = (if d \<noteq> 64 then val2 OR of_nat d else val2)
              in Some ([ucast (drop_bit 16 val)]
                 @ (if c \<noteq> 64 then [ucast (drop_bit 8 val2 AND 0xFF)] else [])
                 @ (if d \<noteq> 64 then [ucast (val3 AND 0xFF)] else [])))"

fun base64_groups :: "string \<Rightarrow> bytes option" where
  "base64_groups (a # b # c # d # r) =
     (case base64_group a b c d of None \<Rightarrow> None
      | Some bs \<Rightarrow> map_option (\<lambda>out. bs @ out) (base64_groups r))"
| "base64_groups _ = Some []"

definition base64_decode :: "string \<Rightarrow> bytes option" where
  "base64_decode s = (if length s mod 4 \<noteq> 0 then None else base64_groups s)"

definition CURSOR_BYTES :: nat where "CURSOR_BYTES = 16"

definition cursor_encode :: "query_cursor \<Rightarrow> string" where
  "cursor_encode q =
     base64_encode (write_le 8 (qc_file_index q) @ write_u32_le (qc_chunk_index q)
                    @ write_u32_le (qc_line_offset q))"

definition cursor_decode :: "string \<Rightarrow> query_cursor option" where
  "cursor_decode s =
     (case base64_decode s of None \<Rightarrow> None
      | Some raw \<Rightarrow>
          if length raw \<noteq> CURSOR_BYTES then None
          else Some \<lparr>qc_file_index = read_le (take 8 raw), qc_chunk_index = read_u32_le (drop 8 raw),
                     qc_line_offset = read_u32_le (drop 12 raw)\<rparr>)"

section \<open>Base64\<close>

lemma dec_table_char: "k < 64 \<Longrightarrow> dec_table (BASE64_CHARS ! k) = k"
proof -
  have "\<forall>k \<in> set [0..<64]. dec_table (BASE64_CHARS ! k) = k"
    by (simp add: upt_conv_Cons dec_table_def BASE64_CHARS_def code_of_def)
  then show "k < 64 \<Longrightarrow> ?thesis" by simp
qed

lemma mask6: "(0x3F :: w32) = Bit_Operations.mask 6"
  by (simp add: mask_eq_exp_minus_1)

lemma sextet_less: "unat ((x :: w32) AND 0x3F) < 64"
  unfolding mask6 take_bit_eq_mask [symmetric] unsigned_take_bit_eq
  using take_bit_nat_less_exp [of 6] by simp

lemma dec_b64_char: "dec_table (b64_char v k) = unat (drop_bit k v AND 0x3F)"
  unfolding b64_char_def by (rule dec_table_char [OF sextet_less])

lemma dec_b64_char_ne: "dec_table (b64_char v k) \<noteq> 64"
  using sextet_less [of "drop_bit k v"] by (simp add: dec_b64_char)

lemma dec_b64_of_nat: "(of_nat (dec_table (b64_char v k)) :: w32) = drop_bit k v AND 0x3F"
  by (simp add: dec_b64_char)

lemma dec_pad: "dec_table (CHR ''='') = 64" by code_simp

lemma bit_mask6: "bit (0x3F :: w32) n \<longleftrightarrow> n < 6"
  unfolding mask6 by (auto simp: bit_mask_iff)

lemma bit_0xFF32: "bit (0xFF :: w32) n \<longleftrightarrow> n < 8"
proof -
  have "(0xFF :: w32) = Bit_Operations.mask 8" by (simp add: mask_eq_exp_minus_1)
  then show ?thesis by (auto simp only: bit_mask_iff) simp_all
qed

lemma bit_sextet:
  "bit (push_bit k (drop_bit k v AND 0x3F) :: w32) m \<longleftrightarrow> k \<le> m \<and> m < k + 6 \<and> bit v m"
  using bit_imp_le_length [of v m]
  by (simp only: bit_push_bit_iff bit_and_iff bit_mask6 bit_drop_bit_eq o_def) auto

lemma bit_three:
  "bit (push_bit 16 (ucast x) OR push_bit 8 (ucast y) OR ucast z :: w32) m \<longleftrightarrow>
     (if 16 \<le> m then bit (x :: w8) (m - 16) else if 8 \<le> m then bit (y :: w8) (m - 8) else bit (z :: w8) m)"
proof -
  have "\<not> bit x (m - 16) \<or> m < 24" "\<not> bit y (m - 8) \<or> m < 16" "\<not> bit z m \<or> m < 8"
    using w8_high [of "m - 16" x] w8_high [of "m - 8" y] w8_high [of m z] by linarith+
  then show ?thesis by (auto simp: bit_or_iff bit_push_bit_iff bit_ucast_iff)
qed

lemma sextet_0: "drop_bit 0 (v :: w32) = v" by simp

lemma group_bytes:
  fixes x y z :: w8
  defines "v \<equiv> (push_bit 16 (ucast x) OR push_bit 8 (ucast y) OR ucast z) :: w32"
  defines "p \<equiv> push_bit 18 (drop_bit 18 v AND 0x3F) OR push_bit 12 (drop_bit 12 v AND 0x3F)"
  defines "q \<equiv> p OR push_bit 6 (drop_bit 6 v AND 0x3F)"
  shows "ucast (drop_bit 16 p) = x" "ucast (drop_bit 8 q AND 0xFF) = y"
    "ucast ((q OR (v AND 0x3F)) AND 0xFF) = z"
proof -
  have p: "bit p m \<longleftrightarrow> 12 \<le> m \<and> m < 24 \<and> bit v m" for m
    by (simp only: p_def bit_or_iff bit_sextet) auto
  have q: "bit q m \<longleftrightarrow> 6 \<le> m \<and> m < 24 \<and> bit v m" for m
    by (simp only: q_def bit_or_iff bit_sextet p) auto
  have v: "bit v m \<longleftrightarrow> (if 16 \<le> m then bit x (m - 16) else if 8 \<le> m then bit y (m - 8) else bit z m)" for m
    unfolding v_def by (rule bit_three)
  show "ucast (drop_bit 16 p) = x"
    by (rule bit_word_eqI) (simp add: bit_ucast_iff bit_drop_bit_eq p v)
  show "ucast (drop_bit 8 q AND 0xFF) = y"
    by (rule bit_word_eqI) (simp only: bit_ucast_iff bit_and_iff bit_0xFF32 bit_drop_bit_eq q v o_def, simp)
  show "ucast ((q OR (v AND 0x3F)) AND 0xFF) = z"
    by (rule bit_word_eqI)
      (simp only: bit_ucast_iff bit_and_iff bit_or_iff bit_mask6 bit_0xFF32 q v, auto)
qed

lemma ucast_0_32: "ucast (0 :: w8) = (0 :: w32)" by simp

lemma base64_group_3:
  "base64_group (b64_char v 18) (b64_char v 12) (b64_char v 6) (b64_char v 0) = Some [x, y, z]"
  if "v = push_bit 16 (ucast x) OR push_bit 8 (ucast y) OR ucast z"
  using group_bytes [of x y z] that
  by (simp add: base64_group_def Let_def dec_b64_char_ne dec_b64_of_nat)

lemma base64_group_2:
  "base64_group (b64_char v 18) (b64_char v 12) (b64_char v 6) (CHR ''='') = Some [x, y]"
  if "v = push_bit 16 (ucast x) OR push_bit 8 (ucast y)"
  using group_bytes [of x y 0] that
  by (simp add: base64_group_def Let_def dec_b64_char_ne dec_b64_of_nat dec_pad)

lemma base64_group_1:
  "base64_group (b64_char v 18) (b64_char v 12) (CHR ''='') (CHR ''='') = Some [x]"
  if "v = push_bit 16 (ucast x)"
  using group_bytes [of x 0 0] that
  by (simp add: base64_group_def Let_def dec_b64_char_ne dec_b64_of_nat dec_pad)

lemma base64_groups_encode: "base64_groups (base64_encode bs) = Some bs \<and> length (base64_encode bs) mod 4 = 0"
  by (induction bs rule: base64_encode.induct)
     (simp_all add: Let_def base64_group_1 base64_group_2 base64_group_3 mod_Suc_eq_mod_add3)

lemma base64_roundtrip [codec_simps]: "base64_decode (base64_encode bs) = Some bs"
  by (simp add: base64_decode_def base64_groups_encode)


lemma take_write_le: "read_le (take 8 (write_le 8 v @ bs)) = v"
  by (simp add: read_write_u64)

lemma drop_write_le: "drop 8 (write_le 8 v @ bs) = bs" "drop 12 (write_le 8 v @ write_u32_le w @ bs) = bs"
  by simp_all

text \<open>
  A pagination cursor survives its trip through the client: decoding the text of a cursor
  gives the cursor back, for every file index, chunk index and line offset.
\<close>

theorem cursor_roundtrip: "cursor_decode (cursor_encode q) = Some q"
  using read_write_u32 [of "qc_line_offset q" "[]"]
  by (simp add: cursor_decode_def cursor_encode_def base64_roundtrip CURSOR_BYTES_def take_write_le drop_write_le
      read_write_u32 read_write_u64)

text \<open>The decoder takes any character for padding at the end of a group.\<close>

lemma base64_accepts_junk: "base64_decode ''QQ!!'' = base64_decode ''QQ==''"
  by (simp add: base64_decode_def base64_group_def dec_table_def code_of_def)

section \<open>Cache keys\<close>

text \<open>Parameters none of whose names holds an equals sign and none of whose texts holds a unit separator.\<close>

definition separable :: "query_params \<Rightarrow> bool" where
  "separable ps \<longleftrightarrow> (\<forall>p \<in> set ps. CHR ''='' \<notin> set (fst p) \<and> US \<notin> set (snd p))"

lemma split_at_first:
  "d \<notin> set k \<Longrightarrow> d \<notin> set k' \<Longrightarrow> k @ d # x = k' @ d # y \<Longrightarrow> k = k' \<and> x = y"
  by (induction k arbitrary: k') (case_tac k'; auto)+

lemma split_entry:
  assumes "d \<notin> set a" "d \<notin> set a'" "e \<notin> set b" "e \<notin> set b'"
    and "a @ d # b @ e # x = a' @ d # b' @ e # y"
  shows "a = a' \<and> b = b' \<and> x = y"
proof -
  have "a = a' \<and> b @ e # x = b' @ e # y" using split_at_first [OF assms(1,2,5)] .
  with split_at_first [OF assms(3,4)] show ?thesis by blast
qed

lemma param_entry_append: "param_entry p @ x = fst p @ CHR ''='' # snd p @ US # x"
  by (simp add: param_entry_def)

lemma entries_inj:
  "separable xs \<Longrightarrow> separable ys \<Longrightarrow> concat (map param_entry xs) = concat (map param_entry ys) \<Longrightarrow> xs = ys"
proof (induction xs arbitrary: ys)
  case Nil
  then show ?case by (cases ys) (auto simp: param_entry_def)
next
  case (Cons x xs)
  then obtain y ys' where ys: "ys = y # ys'" by (cases ys) (auto simp: param_entry_def)
  let ?X = "concat (map param_entry xs)" and ?Y = "concat (map param_entry ys')"
  have e: "fst x @ CHR ''='' # snd x @ US # ?X = fst y @ CHR ''='' # snd y @ US # ?Y"
    using Cons.prems(3) by (simp add: ys param_entry_append)
  have sx: "CHR ''='' \<notin> set (fst x)" "US \<notin> set (snd x)" "separable xs"
    and sy: "CHR ''='' \<notin> set (fst y)" "US \<notin> set (snd y)" "separable ys'"
    using Cons.prems(1,2) unfolding separable_def ys by simp_all
  note k = split_entry [OF sx(1) sy(1) sx(2) sy(2) e]
  have "xs = ys'" using Cons.IH [OF sx(3) sy(3)] k by simp
  with k show ?case by (simp add: ys prod_eq_iff)
qed

text \<open>
  The signature of the query parameters, under which rendered results are cached, does what a
  cache key must: two requests have the same signature exactly when they carry the same parameters,
  counted with repetition and in any order, as long as no name holds an equals sign and no value
  the unit separator the signature is built with.
\<close>

theorem canonical_key_separates:
  assumes "separable ps" and "separable qs"
  shows "canonical_key ps = canonical_key qs \<longleftrightarrow> mset ps = mset qs"
proof
  assume "mset ps = mset qs"
  then have "sort ps = sort qs" by (metis mset_sort properties_for_sort sorted_sort)
  then show "canonical_key ps = canonical_key qs" by (simp add: canonical_key_def)
next
  assume "canonical_key ps = canonical_key qs"
  moreover have "separable (sort ps)" "separable (sort qs)" using assms by (simp_all add: separable_def)
  ultimately have "sort ps = sort qs" unfolding canonical_key_def by (rule entries_inj [rotated 2])
  then show "mset ps = mset qs" by (metis mset_sort)
qed

lemma canonical_key_separates_witness:
  "canonical_key [(''b'', ''2''), (''a'', ''1'')] = canonical_key [(''a'', ''1''), (''b'', ''2'')]"
proof -
  have "separable [(''b'', ''2''), (''a'', ''1'')]" "separable [(''a'', ''1''), (''b'', ''2'')]"
    by (simp_all add: separable_def)
  from canonical_key_separates [OF this] show ?thesis by simp
qed

text \<open>
  Without the proviso requests collide: a value may hold the separator, and since a lookup takes
  the first of several values while the signature forgets their order, two requests that are answered
  differently share a cache entry.
\<close>

lemma canonical_key_collides:
  "canonical_key (params_parse ''a=1%1Fb=2'') = canonical_key (params_parse ''a=1&b=2'')"
  by code_simp

lemma canonical_key_forgets_first:
  "canonical_key (params_parse ''b=1&b=2'') = canonical_key (params_parse ''b=2&b=1'')
   \<and> params_get (params_parse ''b=1&b=2'') ''b'' \<noteq> params_get (params_parse ''b=2&b=1'') ''b''"
  by code_simp


section \<open>Access control\<close>

lemma authorized_cases:
  "authorized r rq \<longleftrightarrow> ro_auth_token r = [] \<or> params_get (target_params (rq_path rq)) ''token'' = ro_auth_token r
     \<or> (\<exists>p t. request_header rq ''Authorization'' = p @ t \<and> icase_equal p ''Bearer '' \<and> t = ro_auth_token r)"
  (is "_ \<longleftrightarrow> _ \<or> _ \<or> ?B")
proof (cases "ro_auth_token r = []")
  case False
  have "strip_bearer_prefix (request_header rq ''Authorization'') = Some (ro_auth_token r) \<longleftrightarrow> ?B"
  proof
    assume "strip_bearer_prefix (request_header rq ''Authorization'') = Some (ro_auth_token r)"
    then show ?B
      by (intro exI [of _ "take 7 (request_header rq ''Authorization'')"]
            exI [of _ "drop 7 (request_header rq ''Authorization'')"])
         (auto simp: strip_bearer_prefix_def split: if_splits)
  next
    assume ?B
    then obtain p where p: "request_header rq ''Authorization'' = p @ ro_auth_token r" "icase_equal p ''Bearer ''"
      by blast
    then have "length p = 7" by (simp add: icase_equal_def)
    with p False show "strip_bearer_prefix (request_header rq ''Authorization'') = Some (ro_auth_token r)"
      by (simp add: strip_bearer_prefix_def)
  qed
  with False show ?thesis by (simp add: authorized_def)
qed (simp add: authorized_def)

text \<open>
  C24: with an access token configured, no handler runs for a request that does not present it.
  Whatever routes are registered, such a request gets the preflight answer or 401: it names the
  token neither as the query parameter nor after a \<open>Bearer\<close> prefix, in any case, of the
  \<open>Authorization\<close> header.
\<close>

theorem no_handler_without_token:
  assumes "ro_auth_token r \<noteq> []"
    and "params_get (target_params (rq_path rq)) ''token'' \<noteq> ro_auth_token r"
    and "\<forall>p. icase_equal p ''Bearer '' \<longrightarrow> request_header rq ''Authorization'' \<noteq> p @ ro_auth_token r"
  shows "router_handle (r\<lparr>ro_routes := rs\<rparr>) rq
       = Inr (if rq_method rq = ''OPTIONS'' then preflight_response else unauthorized)"
proof -
  have "\<not> authorized (r\<lparr>ro_routes := rs\<rparr>) rq" using assms by (auto simp: authorized_cases)
  then show ?thesis by (simp add: router_handle_def Let_def)
qed

lemma no_handler_without_token_witness:
  "router_handle \<lparr>ro_routes = [\<lparr>rt_method = ''GET'', rt_path = ''/'', rt_handler = (\<lambda>_ _. Inr not_found)\<rparr>],
       ro_auth_token = ''s''\<rparr>
     \<lparr>rq_method = ''GET'', rq_path = ''/'', rq_minor_version = 1, rq_headers = []\<rparr> = Inr unauthorized"
proof -
  let ?r = "\<lparr>ro_routes = [], ro_auth_token = ''s''\<rparr> :: router"
  let ?q = "\<lparr>rq_method = ''GET'', rq_path = ''/'', rq_minor_version = 1, rq_headers = []\<rparr>"
  have 1: "params_get (target_params (rq_path ?q)) ''token'' \<noteq> ro_auth_token ?r"
    by (simp add: target_params_def params_parse.simps params_get_or_def)
  have 2: "\<forall>p. icase_equal p ''Bearer '' \<longrightarrow> request_header ?q ''Authorization'' \<noteq> p @ ro_auth_token ?r"
    by (simp add: request_header_def)
  have "ro_auth_token ?r \<noteq> []" by simp
  from no_handler_without_token
    [OF this 1 2, of "[\<lparr>rt_method = ''GET'', rt_path = ''/'', rt_handler = (\<lambda>_ _. Inr not_found)\<rparr>]"]
  show ?thesis by simp
qed

end
