(* ===== verification/HttpServer.thy ===== *)
theory HttpServer
  imports HttpRouter "HOL-Library.Sublist"
begin

text \<open>
  A client connection, \<^verbatim>\<open>server/http_connection.cpp\<close>, and the registry of cancellation tokens,
  \<^verbatim>\<open>server/cancel.cpp\<close>. One turn of the connection's loop is a function of the bytes one \<^verbatim>\<open>recv\<close>
  returned; a connection is the fold of its turns. The socket is the list of the buffers handed to
  \<^verbatim>\<open>send\<close>, and \<open>net\<close> says for which of them the write of a streamed response succeeds.
\<close>

section \<open>Cancellation\<close>

text \<open>The shared states live in a store; a token is the address of its state.\<close>

record cancel_state =
  cs_flag :: bool
  cs_peer_fd :: int
  cs_probe_tick :: w32

record registry =
  rg_states :: "cancel_state list"
  rg_tokens :: "(string \<times> nat) list"

definition set_flag :: "nat \<Rightarrow> registry \<Rightarrow> registry" where
  "set_flag t g = g\<lparr>rg_states := (rg_states g)[t := (rg_states g ! t)\<lparr>cs_flag := True\<rparr>]\<rparr>"

definition registry_create :: "string \<Rightarrow> int \<Rightarrow> registry \<Rightarrow> nat \<times> registry" where
  "registry_create rid fd g =
     (let t = length (rg_states g);
          g' = g\<lparr>rg_states := rg_states g @ [\<lparr>cs_flag = False, cs_peer_fd = fd, cs_probe_tick = 0\<rparr>]\<rparr>
      in (t, if rid = [] then g' else g'\<lparr>rg_tokens := al_put rid t (rg_tokens g')\<rparr>))"

definition registry_remove :: "string \<Rightarrow> registry \<Rightarrow> registry" where
  "registry_remove rid g =
     (if rid = [] then g else g\<lparr>rg_tokens := filter (\<lambda>(k, t). k \<noteq> rid) (rg_tokens g)\<rparr>)"

definition registry_cancel :: "string \<Rightarrow> registry \<Rightarrow> bool \<times> registry" where
  "registry_cancel rid g =
     (if rid = [] then (False, g)
      else case map_of (rg_tokens g) rid of
             None \<Rightarrow> (False, g)
           | Some t \<Rightarrow> (True, set_flag t g))"

definition registry_size :: "registry \<Rightarrow> nat" where
  "registry_size g = length (rg_tokens g)"

text \<open>The peek of \<^verbatim>\<open>peer_disconnected\<close>: what \<^verbatim>\<open>recv\<close> returned, and whether \<^verbatim>\<open>errno\<close> says "no data yet".\<close>

definition peer_disconnected :: "int \<Rightarrow> bool \<Rightarrow> bool" where
  "peer_disconnected n again = (if n = 0 then True else if n < 0 then \<not> again else False)"

definition token_cancelled ::
    "bool \<Rightarrow> (int \<Rightarrow> bool) \<Rightarrow> nat option \<Rightarrow> registry \<Rightarrow> bool \<times> registry" where
  "token_cancelled shutdown gone tok g =
     (if shutdown then (True, g)
      else case tok of None \<Rightarrow> (False, g)
      | Some t \<Rightarrow>
        (let s = rg_states g ! t
         in if cs_flag s then (True, g)
            else if cs_peer_fd s < 0 then (False, g)
            else let g' = g\<lparr>rg_states := (rg_states g)[t := s\<lparr>cs_probe_tick := cs_probe_tick s + 1\<rparr>]\<rparr>
                 in if cs_probe_tick s AND 0xF \<noteq> 0 then (False, g')
                    else if gone (cs_peer_fd s) then (True, set_flag t g')
                    else (False, g')))"

definition token_cancel :: "nat option \<Rightarrow> registry \<Rightarrow> registry" where
  "token_cancel tok g = (case tok of None \<Rightarrow> g | Some t \<Rightarrow> set_flag t g)"

section \<open>The connection\<close>

definition BUF_SIZE :: nat where "BUF_SIZE = 8192"

fun show_hex :: "nat \<Rightarrow> string" where
  "show_hex n =
     (let d = n mod 16; c = char_of (if d < 10 then 48 + d else 87 + d)
      in if n < 16 then [c] else show_hex (n div 16) @ [c])"

declare show_hex.simps [simp del]

definition chunk_bytes :: "string list \<Rightarrow> string" where
  "chunk_bytes views =
     show_hex (sum_list (map (\<lambda>v. length v + 1) views)) @ CRLF
     @ concat (map (\<lambda>v. v @ [LF]) views) @ CRLF"

text \<open>The chunks of a stream, and whether a write failed; empty chunks are skipped.\<close>

fun stream_chunks :: "(string \<Rightarrow> bool) \<Rightarrow> string list list \<Rightarrow> string list \<times> bool" where
  "stream_chunks net [] = ([''0'' @ CRLF @ CRLF], False)"
| "stream_chunks net (views # gen) =
     (if views = [] then stream_chunks net gen
      else if \<not> net (chunk_bytes views) then ([chunk_bytes views], True)
      else (chunk_bytes views # fst (stream_chunks net gen), snd (stream_chunks net gen)))"

definition send_response :: "(string \<Rightarrow> bool) \<Rightarrow> http_response \<Rightarrow> string list \<times> bool" where
  "send_response net rs =
     (case rs_stream rs of
        None \<Rightarrow> ([serialize_response rs], False)
      | Some gen \<Rightarrow>
          if \<not> net (serialize_headers rs) then ([serialize_headers rs], False)
          else (serialize_headers rs # fst (stream_chunks net gen), snd (stream_chunks net gen)))"

definition handle_request :: "router \<Rightarrow> http_request \<Rightarrow> http_response" where
  "handle_request r rq =
     (case router_handle r rq of
        Inr rs \<Rightarrow> rs
      | Inl (Std_exception what) \<Rightarrow> internal_error what
      | Inl Other_exception \<Rightarrow> internal_error ''Internal server error'')"

definition wants_close :: "http_request \<Rightarrow> bool" where
  "wants_close rq \<longleftrightarrow> rq_minor_version rq = 0 \<or> has_header rq ''connection'' ''close''"

text \<open>
  A connection: the receive buffer, whether the loop still runs, the buffers handed to the socket
  and, for the statements, the requests served.
\<close>

record conn =
  cn_buf :: string
  cn_open :: bool
  cn_out :: "string list"
  cn_served :: "http_request list"

definition conn_init :: conn where
  "conn_init = \<lparr>cn_buf = [], cn_open = True, cn_out = [], cn_served = []\<rparr>"

definition serve :: "router \<Rightarrow> (string \<Rightarrow> bool) \<Rightarrow> int \<Rightarrow> nat \<Rightarrow> http_request \<Rightarrow> conn \<times> registry \<Rightarrow> conn \<times> registry" where
  "serve r net fd consumed rq s =
     (let c = fst s;
          rid = request_header rq ''x-request-id'';
          (tok, g1) = registry_create rid fd (snd s);
          (sent, failed) = send_response net (handle_request r rq);
          g2 = (if failed then token_cancel (Some tok) g1 else g1)
      in (\<lparr>cn_buf = (if consumed < length (cn_buf c) then drop consumed (cn_buf c) else []),
           cn_open = \<not> wants_close rq, cn_out = cn_out c @ sent, cn_served = cn_served c @ [rq]\<rparr>,
          registry_remove rid g2))"

definition conn_turn :: "router \<Rightarrow> (string \<Rightarrow> bool) \<Rightarrow> int \<Rightarrow> string \<Rightarrow> conn \<times> registry \<Rightarrow> conn \<times> registry" where
  "conn_turn r net fd received s =
     (if \<not> cn_open (fst s) then s
      else if received = [] then ((fst s)\<lparr>cn_open := False\<rparr>, snd s)
      else let c = (fst s)\<lparr>cn_buf := cn_buf (fst s) @ received\<rparr>
           in case request_parse (cn_buf c) of
                Inl Need_more \<Rightarrow>
                  if BUF_SIZE \<le> length (cn_buf c)
                  then (c\<lparr>cn_open := False,
                          cn_out := cn_out c @ [serialize_response (bad_request ''Request too large'')]\<rparr>, snd s)
                  else (c, snd s)
              | Inl Bad_request \<Rightarrow>
                  (c\<lparr>cn_open := False,
                     cn_out := cn_out c @ [serialize_response (bad_request ''Malformed HTTP request'')]\<rparr>, snd s)
              | Inr (n, rq) \<Rightarrow> serve r net fd n rq (c, snd s))"

definition conn_run :: "router \<Rightarrow> (string \<Rightarrow> bool) \<Rightarrow> int \<Rightarrow> string list \<Rightarrow> conn \<times> registry \<Rightarrow> conn \<times> registry" where
  "conn_run r net fd reads s = fold (conn_turn r net fd) reads s"

section \<open>The requests in a byte stream\<close>

lemma request_parse_grow: "request_parse b \<noteq> Inl Need_more \<Longrightarrow> request_parse (b @ x) = request_parse b"
  using parse_request_grow [of b x] by (auto simp: request_parse_def split: sum.splits)

lemma request_parse_bounds: "request_parse b = Inr (n, rq) \<Longrightarrow> 0 < n \<and> n \<le> length b"
  using parse_request_valid [of b] by (auto simp: request_parse_def split: sum.splits)

lemma request_parse_rest: "request_parse b = Inr (n, rq) \<Longrightarrow> length (drop n b) < length b"
  using request_parse_bounds [of b n rq] by (cases b) auto

text \<open>What a client asked for: the requests of its bytes, one after the other, up to one that closes.\<close>

function requests_of :: "string \<Rightarrow> http_request list" where
  "requests_of s =
     (case request_parse s of
        Inl e \<Rightarrow> []
      | Inr (n, rq) \<Rightarrow> rq # (if wants_close rq then [] else requests_of (drop n s)))"
  by pat_completeness auto
termination by (relation "measure length") (use request_parse_rest in auto)

declare requests_of.simps [simp del]

definition answer :: "router \<Rightarrow> (string \<Rightarrow> bool) \<Rightarrow> http_request \<Rightarrow> string list" where
  "answer r net rq = fst (send_response net (handle_request r rq))"

text \<open>
  The state of a connection after the bytes \<open>s\<close>: while it is open, what is left of the stream is in
  the buffer, whatever comes next; in any case the requests served are the first ones of the
  stream and the socket got their answers, followed by at most one error message.
\<close>

definition stands_for :: "router \<Rightarrow> (string \<Rightarrow> bool) \<Rightarrow> string \<Rightarrow> conn \<Rightarrow> bool" where
  "stands_for r net s c \<longleftrightarrow>
     (\<exists>err. cn_out c = concat (map (answer r net) (cn_served c)) @ err
        \<and> (cn_open c \<longrightarrow> err = [])
        \<and> (\<forall>x. if cn_open c then requests_of (s @ x) = cn_served c @ requests_of (cn_buf c @ x)
                else prefix (cn_served c) (requests_of (s @ x))))"

lemma stands_for_init: "stands_for r net [] conn_init"
  by (simp add: stands_for_def conn_init_def)

lemma requests_of_served:
  assumes "request_parse b = Inr (n, rq)"
  shows "requests_of (b @ x) = rq # (if wants_close rq then [] else requests_of (drop n b @ x))"
proof -
  have "request_parse (b @ x) = Inr (n, rq)" using request_parse_grow [of b x] assms by simp
  moreover have "drop n (b @ x) = drop n b @ x" using request_parse_bounds [OF assms] by simp
  ultimately show ?thesis by (subst requests_of.simps) simp
qed

lemma serve_fields:
  "fst (serve r net fd n rq s) = \<lparr>cn_buf = drop n (cn_buf (fst s)), cn_open = \<not> wants_close rq,
     cn_out = cn_out (fst s) @ answer r net rq, cn_served = cn_served (fst s) @ [rq]\<rparr>"
  by (simp add: serve_def answer_def Let_def split: prod.splits)

text \<open>A turn of an open connection that received something.\<close>

lemma conn_turn_eqs:
  assumes "cn_open c" "d \<noteq> []"
  shows "request_parse (cn_buf c @ d) = Inl Need_more \<Longrightarrow> length (cn_buf c @ d) < BUF_SIZE \<Longrightarrow>
      conn_turn r net fd d (c, g) = (c\<lparr>cn_buf := cn_buf c @ d\<rparr>, g)"
    and "request_parse (cn_buf c @ d) = Inl Need_more \<Longrightarrow> BUF_SIZE \<le> length (cn_buf c @ d) \<Longrightarrow>
      conn_turn r net fd d (c, g) = (c\<lparr>cn_buf := cn_buf c @ d, cn_open := False,
        cn_out := cn_out c @ [serialize_response (bad_request ''Request too large'')]\<rparr>, g)"
    and "request_parse (cn_buf c @ d) = Inl Bad_request \<Longrightarrow>
      conn_turn r net fd d (c, g) = (c\<lparr>cn_buf := cn_buf c @ d, cn_open := False,
        cn_out := cn_out c @ [serialize_response (bad_request ''Malformed HTTP request'')]\<rparr>, g)"
    and "request_parse (cn_buf c @ d) = Inr (n, rq) \<Longrightarrow>
      fst (conn_turn r net fd d (c, g)) = \<lparr>cn_buf = drop n (cn_buf c @ d), cn_open = \<not> wants_close rq,
        cn_out = cn_out c @ answer r net rq, cn_served = cn_served c @ [rq]\<rparr>"
  using assms by (simp_all add: conn_turn_def Let_def serve_fields)

lemma stands_for_turn:
  assumes "stands_for r net s (fst st)" "cn_open (fst st)"
  shows "stands_for r net (s @ d) (fst (conn_turn r net fd d st))"
proof -
  obtain c g where st: "st = (c, g)" by (cases st)
  let ?b = "cn_buf c @ d"
  have out: "cn_out c = concat (map (answer r net) (cn_served c))"
    and req: "\<And>x. requests_of (s @ x) = cn_served c @ requests_of (cn_buf c @ x)"
    using assms by (auto simp: st stands_for_def)
  then have req': "requests_of ((s @ d) @ x) = cn_served c @ requests_of (?b @ x)" for x by simp
  show ?thesis
  proof (cases "d = []")
    case True
    with assms out req show ?thesis by (simp add: conn_turn_def st stands_for_def)
  next
    case d: False
    show ?thesis
    proof (cases "request_parse ?b")
      case (Inl e)
      have o: "cn_open c" using assms(2) st by simp
      consider "e = Need_more" "length ?b < BUF_SIZE" | "e = Need_more" "BUF_SIZE \<le> length ?b" | "e = Bad_request"
        by (cases e; cases "length ?b < BUF_SIZE") (auto simp: not_less)
      then show ?thesis
        using Inl out req' conn_turn_eqs(1-3) [OF o d, where r = r and net = net and fd = fd and g = g]
        by cases (simp_all add: st stands_for_def)
    next
      case (Inr p)
      then obtain n rq where p: "request_parse ?b = Inr (n, rq)" by (cases p) auto
      have o: "cn_open c" using assms(2) st by simp
      note t = conn_turn_eqs(4) [OF o d p, where r = r and net = net and fd = fd and g = g]
      show ?thesis
        unfolding st t using out req' requests_of_served [OF p] by (simp add: stands_for_def)
    qed
  qed
qed

lemma stands_for_closed:
  "stands_for r net s c \<Longrightarrow> \<not> cn_open c \<Longrightarrow> stands_for r net (s @ d) c"
  by (auto simp: stands_for_def)

lemma stands_for_run:
  "stands_for r net s (fst st) \<Longrightarrow> stands_for r net (s @ concat ds) (fst (conn_run r net fd ds st))"
proof (induction ds arbitrary: s st)
  case (Cons d ds)
  have "stands_for r net (s @ d) (fst (conn_turn r net fd d st))"
  proof (cases "cn_open (fst st)")
    case True
    then show ?thesis using Cons.prems by (rule stands_for_turn [rotated])
  next
    case False
    then show ?thesis using Cons.prems by (simp add: conn_turn_def stands_for_closed)
  qed
  from Cons.IH [OF this] show ?case by (simp add: conn_run_def)
qed (simp add: conn_run_def)

text \<open>
  C8: a connection refines the sequential reading of its byte stream. However the network cuts
  the bytes into reads, the requests served are the first requests of the stream, in order; the
  socket gets their answers, in order, and nothing else while the connection is open; and while it
  is open the requests not served yet are those in its buffer.
\<close>

theorem connection_refines_stream:
  assumes "conn_run r net fd reads (conn_init, g) = (c, g')"
  shows "prefix (cn_served c) (requests_of (concat reads))
    \<and> (\<exists>err. cn_out c = concat (map (answer r net) (cn_served c)) @ err \<and> (cn_open c \<longrightarrow> err = []))
    \<and> (cn_open c \<longrightarrow> requests_of (concat reads) = cn_served c @ requests_of (cn_buf c))"
proof -
  have s: "stands_for r net (concat reads) c"
    using stands_for_run [of r net "[]" "(conn_init, g)" reads fd] stands_for_init assms by simp
  have all: "if cn_open c then requests_of (concat reads @ x) = cn_served c @ requests_of (cn_buf c @ x)
             else prefix (cn_served c) (requests_of (concat reads @ x))" for x
    using s unfolding stands_for_def by blast
  have "prefix (cn_served c) (requests_of (concat reads))"
    and "cn_open c \<longrightarrow> requests_of (concat reads) = cn_served c @ requests_of (cn_buf c)"
    using all [of "[]"] by (auto split: if_splits)
  with s show ?thesis unfolding stands_for_def by blast
qed

section \<open>Progress\<close>

lemma conn_room:
  assumes "cn_open (fst st) \<Longrightarrow> length (cn_buf (fst st)) < BUF_SIZE"
    and "length (cn_buf (fst st)) + length d \<le> BUF_SIZE"
    and "cn_open (fst (conn_turn r net fd d st))"
  shows "length (cn_buf (fst (conn_turn r net fd d st))) < BUF_SIZE"
proof -
  obtain c g where st: "st = (c, g)" by (cases st)
  have o: "cn_open c" "d \<noteq> []" using assms(3) by (auto simp: conn_turn_def st split: if_splits)
  note eqs = conn_turn_eqs [OF o, where r = r and net = net and fd = fd and g = g]
  show ?thesis
  proof (cases "request_parse (cn_buf c @ d)")
    case (Inl e)
    consider "e = Need_more" "length (cn_buf c @ d) < BUF_SIZE" | "e = Need_more" "BUF_SIZE \<le> length (cn_buf c @ d)"
      | "e = Bad_request" by (cases e; cases "length (cn_buf c @ d) < BUF_SIZE") (auto simp: not_less)
    then show ?thesis using Inl eqs(1-3) assms(3) by cases (simp_all add: st)
  next
    case (Inr p)
    then obtain n rq where p: "request_parse (cn_buf c @ d) = Inr (n, rq)" by (cases p) auto
    with request_parse_bounds [OF p] assms(2) have "length (drop n (cn_buf c @ d)) < BUF_SIZE"
      unfolding st length_drop length_append fst_conv by arith
    then show ?thesis unfolding st eqs(4) [OF p] by simp
  qed
qed

text \<open>A read returns at most the room left in the buffer.\<close>

fun reads_fit :: "router \<Rightarrow> (string \<Rightarrow> bool) \<Rightarrow> int \<Rightarrow> string list \<Rightarrow> conn \<times> registry \<Rightarrow> bool" where
  "reads_fit r net fd [] st \<longleftrightarrow> True"
| "reads_fit r net fd (d # ds) st \<longleftrightarrow>
     length (cn_buf (fst st)) + length d \<le> BUF_SIZE \<and> reads_fit r net fd ds (conn_turn r net fd d st)"

lemma conn_room_run:
  "reads_fit r net fd ds st \<Longrightarrow> (cn_open (fst st) \<Longrightarrow> length (cn_buf (fst st)) < BUF_SIZE) \<Longrightarrow>
   cn_open (fst (conn_run r net fd ds st)) \<Longrightarrow> length (cn_buf (fst (conn_run r net fd ds st))) < BUF_SIZE"
proof (induction ds arbitrary: st)
  case (Cons d ds)
  let ?t = "conn_turn r net fd d st"
  have "cn_open (fst ?t) \<Longrightarrow> length (cn_buf (fst ?t)) < BUF_SIZE"
    using Cons.prems(1,2) by (intro conn_room) auto
  with Cons.prems(1,3) show ?case by (simp add: conn_run_def Cons.IH [unfolded conn_run_def])
qed (simp add: conn_run_def)

text \<open>
  C25: the receive buffer never fills up silently: as long as each read returns at most what it was
  asked for, an open connection has room for at least one more byte, so a read is never asked for
  zero bytes, whose result would be taken for the end of the connection.
\<close>

theorem recv_always_has_room:
  assumes "reads_fit r net fd reads (conn_init, g)"
    and "cn_open (fst (conn_run r net fd reads (conn_init, g)))"
  shows "0 < BUF_SIZE - length (cn_buf (fst (conn_run r net fd reads (conn_init, g))))"
  using conn_room_run [OF assms(1) _ assms(2)] by (simp add: conn_init_def BUF_SIZE_def)

lemma proper_prefix_incomplete:
  assumes "request_parse (p @ x) = Inr (length (p @ x), rq)" "x \<noteq> []"
  shows "request_parse p = Inl Need_more"
proof (rule ccontr)
  assume n: "request_parse p \<noteq> Inl Need_more"
  then have "request_parse p = Inr (length (p @ x), rq)" using request_parse_grow [OF n, of x] assms(1) by simp
  from request_parse_bounds [OF this] assms(2) show False by simp
qed

lemma deliver:
  assumes "request_parse (b @ concat ds) = Inr (length (b @ concat ds), rq)"
    and "length (b @ concat ds) \<le> BUF_SIZE" "ds \<noteq> []" "[] \<notin> set ds" "\<not> wants_close rq"
  shows "fst (conn_run r net fd ds (\<lparr>cn_buf = b, cn_open = True, cn_out = out, cn_served = srv\<rparr>, g))
       = \<lparr>cn_buf = [], cn_open = True, cn_out = out @ answer r net rq, cn_served = srv @ [rq]\<rparr>"
  using assms
proof (induction ds arbitrary: b)
  case (Cons d ds)
  show ?case
  proof (cases "ds = []")
    case True
    with Cons.prems show ?thesis by (simp add: conn_run_def conn_turn_eqs)
  next
    case False
    then obtain e es where ds: "ds = e # es" "e \<noteq> []" using Cons.prems(4) by (cases ds) auto
    have "request_parse (b @ d) = Inl Need_more"
      using Cons.prems(1) ds by (intro proper_prefix_incomplete [of "b @ d" "concat ds" rq]) auto
    moreover have "length (b @ d) < BUF_SIZE"
      using Cons.prems(2) ds by (cases e) auto
    ultimately have "conn_turn r net fd d (\<lparr>cn_buf = b, cn_open = True, cn_out = out, cn_served = srv\<rparr>, g)
        = (\<lparr>cn_buf = b @ d, cn_open = True, cn_out = out, cn_served = srv\<rparr>, g)"
      using Cons.prems(4) conn_turn_eqs(1) [of "\<lparr>cn_buf = b, cn_open = True, cn_out = out, cn_served = srv\<rparr>" d] by auto
    moreover have "fst (conn_run r net fd ds (\<lparr>cn_buf = b @ d, cn_open = True, cn_out = out, cn_served = srv\<rparr>, g))
        = \<lparr>cn_buf = [], cn_open = True, cn_out = out @ answer r net rq, cn_served = srv @ [rq]\<rparr>"
      using Cons.prems False by (intro Cons.IH) auto
    ultimately show ?thesis by (simp add: conn_run_def)
  qed
qed simp

text \<open>
  C26: a client that waits for each answer gets it. A request of at most the buffer's size that
  arrives on an idle connection, in any number of reads however small, is served by the time its
  last byte is in, and the connection is idle again.
\<close>

theorem request_is_answered:
  assumes "request_parse w = Inr (length w, rq)" and "length w \<le> BUF_SIZE"
    and "concat reads = w" and "[] \<notin> set reads" and "\<not> wants_close rq"
    and "cn_open c" and "cn_buf c = []"
  shows "\<exists>g'. conn_run r net fd reads (c, g)
    = (c\<lparr>cn_out := cn_out c @ answer r net rq, cn_served := cn_served c @ [rq]\<rparr>, g')"
proof -
  have "reads \<noteq> []" using assms(1,3) request_parse_bounds [OF assms(1)] by auto
  moreover have "c = \<lparr>cn_buf = [], cn_open = True, cn_out = cn_out c, cn_served = cn_served c\<rparr>"
    using assms(6,7) by (cases c) simp
  ultimately have "fst (conn_run r net fd reads (c, g))
      = c\<lparr>cn_out := cn_out c @ answer r net rq, cn_served := cn_served c @ [rq]\<rparr>"
    using deliver [of "[]" reads rq r net fd "cn_out c" "cn_served c" g] assms by (cases c) simp
  then show ?thesis by (metis prod.collapse)
qed


section \<open>Instances\<close>

definition sample_router :: router where
  "sample_router = router_get ''/a'' (\<lambda>_ _. Inr (response_ok ''A'' ''text/plain''))
     \<lparr>ro_routes = [], ro_auth_token = []\<rparr>"

definition wire :: "string \<Rightarrow> string" where
  "wire path = ''GET '' @ path @ '' HTTP/1.1'' @ CRLF @ CRLF"

definition get_request :: "string \<Rightarrow> http_request" where
  "get_request path = \<lparr>rq_method = ''GET'', rq_path = path, rq_minor_version = 1, rq_headers = []\<rparr>"

lemma wire_parses: "request_parse (wire ''/a'') = Inr (19, get_request ''/a'')"
  by code_simp

definition empty_registry :: registry where "empty_registry = \<lparr>rg_states = [], rg_tokens = []\<rparr>"

lemma connection_refines_stream_witness:
  "prefix (cn_served (fst (conn_run sample_router (\<lambda>_. True) 3 [wire ''/a''] (conn_init, empty_registry))))
     (requests_of (wire ''/a''))"
  using connection_refines_stream
    [of sample_router "\<lambda>_. True" 3 "[wire ''/a'']" empty_registry
      "fst (conn_run sample_router (\<lambda>_. True) 3 [wire ''/a''] (conn_init, empty_registry))"
      "snd (conn_run sample_router (\<lambda>_. True) 3 [wire ''/a''] (conn_init, empty_registry))"]
  by simp

lemma request_is_answered_witness:
  "\<exists>g'. conn_run sample_router (\<lambda>_. True) 3 [take 5 (wire ''/a''), drop 5 (wire ''/a'')] (conn_init, empty_registry)
    = (conn_init\<lparr>cn_out := cn_out conn_init @ answer sample_router (\<lambda>_. True) (get_request ''/a''),
         cn_served := cn_served conn_init @ [get_request ''/a'']\<rparr>, g')"
proof (rule request_is_answered [where w = "wire ''/a''"])
  show "request_parse (wire ''/a'') = Inr (length (wire ''/a''), get_request ''/a'')"
    unfolding wire_parses by (simp add: wire_def CRLF_def)
  show "length (wire ''/a'') \<le> BUF_SIZE" by (simp add: wire_def CRLF_def BUF_SIZE_def)
  show "concat [take 5 (wire ''/a''), drop 5 (wire ''/a'')] = wire ''/a''" by simp
  show "[] \<notin> set [take 5 (wire ''/a''), drop 5 (wire ''/a'')]" by (simp add: wire_def CRLF_def)
  show "\<not> wants_close (get_request ''/a'')"
    by (simp add: wants_close_def get_request_def has_header_def)
qed (simp_all add: conn_init_def)

lemma recv_always_has_room_witness:
  "0 < BUF_SIZE - length (cn_buf (fst (conn_run sample_router (\<lambda>_. True) 3 [''GET ''] (conn_init, empty_registry))))"
proof (rule recv_always_has_room)
  show "reads_fit sample_router (\<lambda>_. True) 3 [''GET ''] (conn_init, empty_registry)"
    by (simp add: conn_init_def BUF_SIZE_def)
  have "request_parse (''GET '' :: string) = Inl Need_more" by code_simp
  then show "cn_open (fst (conn_run sample_router (\<lambda>_. True) 3 [''GET ''] (conn_init, empty_registry)))"
    by (simp add: conn_run_def conn_turn_def conn_init_def BUF_SIZE_def Let_def)
qed

text \<open>
  A pipelined request waits. Two requests that arrive in one read are both complete in the
  buffer, yet the loop serves the first and goes back to \<^verbatim>\<open>recv\<close>: the second is answered only when
  the client sends something more.
\<close>

lemma wire_twice_parses: "request_parse (wire ''/a'' @ wire ''/b'') = Inr (19, get_request ''/a'')"
  using request_parse_grow [of "wire ''/a''" "wire ''/b''"] by (simp add: wire_parses)

lemma pipelined_request_waits:
  assumes "fst (conn_run r net fd [wire ''/a'' @ wire ''/b''] (conn_init, g)) = c"
  shows "cn_open c" "cn_served c = [get_request ''/a'']" "request_parse (cn_buf c) = Inr (19, get_request ''/b'')"
proof -
  have "conn_run r net fd [wire ''/a'' @ wire ''/b''] (conn_init, g)
      = conn_turn r net fd (wire ''/a'' @ wire ''/b'') (conn_init, g)" by (simp add: conn_run_def)
  moreover have "cn_open conn_init" "wire ''/a'' @ wire ''/b'' \<noteq> []" "cn_buf conn_init = []" "cn_served conn_init = []"
    by (simp_all add: conn_init_def wire_def)
  moreover have "drop 19 (wire ''/a'' @ wire ''/b'') = wire ''/b''" by (simp add: wire_def CRLF_def)
  moreover have "\<not> wants_close (get_request ''/a'')" by (simp add: wants_close_def get_request_def has_header_def)
  moreover have "request_parse (wire ''/b'') = Inr (19, get_request ''/b'')" by code_simp
  moreover have "fst (conn_turn r net fd (wire ''/a'' @ wire ''/b'') (conn_init, g)) = c"
    using assms by (simp add: conn_run_def)
  ultimately have "c = \<lparr>cn_buf = wire ''/b'', cn_open = True,
      cn_out = cn_out conn_init @ answer r net (get_request ''/a''), cn_served = [get_request ''/a'']\<rparr>"
    "request_parse (wire ''/b'') = Inr (19, get_request ''/b'')"
    using conn_turn_eqs(4) [of conn_init "wire ''/a'' @ wire ''/b''" 19 "get_request ''/a''" r net fd g]
    by (simp_all add: wire_twice_parses)
  then show "cn_open c" "cn_served c = [get_request ''/a'']" "request_parse (cn_buf c) = Inr (19, get_request ''/b'')"
    by simp_all
qed

text \<open>
  A request body is taken for the next request: the parser stops at the blank line whatever
  \<open>Content-Length\<close> says, so a body that reads like a request is served as one.
\<close>

lemma body_served_as_request:
  "map rq_path (requests_of (''POST /api/cancel HTTP/1.1'' @ CRLF @ ''Content-Length: 17'' @ CRLF @ CRLF
      @ ''GET /x HTTP/1.1'' @ [LF, LF])) = [''/api/cancel'', ''/x'']"
  by code_simp

text \<open>
  Two requests under one id share one registry entry: when the first ends, the other can no longer
  be cancelled.
\<close>

lemma shared_id_loses_registration:
  assumes "rid \<noteq> []"
  shows "fst (registry_cancel rid (registry_remove rid (snd (registry_create rid 4 (snd (registry_create rid 3 g)))))) = False"
proof -
  have "map_of (filter (\<lambda>(k, t). k \<noteq> rid) m) rid = None" for m :: "(string \<times> nat) list"
    by (auto simp: map_of_eq_None_iff)
  with assms show ?thesis by (simp add: registry_cancel_def registry_remove_def registry_create_def Let_def)
qed

end
