(* ===== verification/Intern.thy ===== *)
theory Intern
  imports Bytes "HOL-Library.Sublist"
begin

text \<open>
  The string intern table of \<^verbatim>\<open>core/common/string_intern.h\<close>. Ids name strings through a directory of
  lazily allocated blocks; strings find their id through an open-addressed index whose slots hold
  \<^verbatim>\<open>id + 1\<close>, zero when free. The operations are those of a caller that holds the insert lock or has
  the table to itself. A probe that meets neither the string nor a free slot in a whole round would
  go round for ever in the code: it is the outcome \<open>Loops\<close>, which the invariant excludes.
\<close>

definition BLOCK_SIZE :: nat where "BLOCK_SIZE = 4096"
definition FAST_CAPACITY :: nat where "FAST_CAPACITY = 4096 * 65536"
definition INITIAL_INDEX_SLOTS :: nat where "INITIAL_INDEX_SLOTS = 1024"

datatype intern_error = Id_collision | Id_already_bound | Ids_exhausted | Id_out_of_range | Probe_loops

record intern =
  it_directory :: "nat \<Rightarrow> (nat \<Rightarrow> string option) option"
  it_log :: "nat list"
  it_slots :: "nat list"
  it_index_size :: nat
  it_num_strings :: nat
  it_deterministic :: bool

definition intern_new :: intern where
  "intern_new = \<lparr>it_directory = (\<lambda>_. None), it_log = [], it_slots = replicate INITIAL_INDEX_SLOTS 0,
     it_index_size = 0, it_num_strings = 0, it_deterministic = False\<rparr>"

definition enable_deterministic_ids :: "intern \<Rightarrow> intern" where
  "enable_deterministic_ids t = t\<lparr>it_deterministic := True\<rparr>"

definition intern_hash :: "string \<Rightarrow> nat" where
  "intern_hash s = unat (fnv1a_mix (fnv1a_hash s))"

definition slot_value :: "intern \<Rightarrow> nat \<Rightarrow> string option" where
  "slot_value t sid =
     (if FAST_CAPACITY \<le> sid then None
      else case it_directory t (sid div BLOCK_SIZE) of
             None \<Rightarrow> None
           | Some block \<Rightarrow> block (sid mod BLOCK_SIZE))"

definition intern_resolve :: "intern \<Rightarrow> nat \<Rightarrow> intern_error + string" where
  "intern_resolve t sid =
     (if FAST_CAPACITY \<le> sid then Inl Id_out_of_range
      else case slot_value t sid of None \<Rightarrow> Inr [] | Some s \<Rightarrow> Inr s)"

definition entry_count :: "intern \<Rightarrow> nat" where "entry_count t = length (it_log t)"
definition entry_id :: "intern \<Rightarrow> nat \<Rightarrow> nat" where
  "entry_id t n = (if n < length (it_log t) then it_log t ! n else 0)"

section \<open>The index\<close>

datatype probe_result = Found nat | Absent | Loops

text \<open>The probe from slot \<open>i\<close>; the index has a power of two slots, so \<^verbatim>\<open>& mask\<close> is \<open>mod\<close>.\<close>

fun probe :: "(nat \<Rightarrow> string option) \<Rightarrow> nat list \<Rightarrow> string \<Rightarrow> nat \<Rightarrow> nat \<Rightarrow> probe_result" where
  "probe val slots s i 0 = Loops"
| "probe val slots s i (Suc rounds) =
     (let v = slots ! i
      in if v = 0 then Absent
         else if val (v - 1) = Some s then Found (v - 1)
         else probe val slots s ((i + 1) mod length slots) rounds)"

definition intern_lookup :: "intern \<Rightarrow> string \<Rightarrow> probe_result" where
  "intern_lookup t s =
     probe (slot_value t) (it_slots t) s (intern_hash s mod length (it_slots t)) (length (it_slots t))"

fun free_slot :: "nat list \<Rightarrow> nat \<Rightarrow> nat \<Rightarrow> nat option" where
  "free_slot slots i 0 = None"
| "free_slot slots i (Suc rounds) =
     (if slots ! i = 0 then Some i else free_slot slots ((i + 1) mod length slots) rounds)"

text \<open>Store \<open>v\<close> in the first free slot of the probe sequence.\<close>

definition put_slot :: "nat \<Rightarrow> nat \<Rightarrow> nat list \<Rightarrow> nat list option" where
  "put_slot h v slots = map_option (\<lambda>i. slots[i := v]) (free_slot slots (h mod length slots) (length slots))"

fun rehash :: "(nat \<Rightarrow> string option) \<Rightarrow> nat list \<Rightarrow> nat list \<Rightarrow> nat list option" where
  "rehash val [] fresh = Some fresh"
| "rehash val (v # old) fresh =
     (if v = 0 then rehash val old fresh
      else case val (v - 1) of None \<Rightarrow> None
        | Some s \<Rightarrow> (case put_slot (intern_hash s) v fresh of None \<Rightarrow> None
                    | Some fresh' \<Rightarrow> rehash val old fresh'))"

definition grow_index :: "(nat \<Rightarrow> string option) \<Rightarrow> nat list \<Rightarrow> nat list option" where
  "grow_index val slots = rehash val slots (replicate (2 * length slots) 0)"

definition index_insert :: "nat \<Rightarrow> nat \<Rightarrow> intern \<Rightarrow> intern option" where
  "index_insert h sid t =
     (case (if 3 * length (it_slots t) \<le> (it_index_size t + 1) * 4
            then grow_index (slot_value t) (it_slots t) else Some (it_slots t)) of
        None \<Rightarrow> None
      | Some slots \<Rightarrow>
          map_option (\<lambda>slots'. t\<lparr>it_slots := slots', it_index_size := it_index_size t + 1\<rparr>)
            (put_slot h (sid + 1) slots))"

section \<open>Inserting\<close>

definition advance_num_strings :: "nat \<Rightarrow> intern \<Rightarrow> intern" where
  "advance_num_strings sid t = (if it_num_strings t < sid + 1 then t\<lparr>it_num_strings := sid + 1\<rparr> else t)"

definition bind_slot :: "nat \<Rightarrow> string \<Rightarrow> intern \<Rightarrow> intern_error + intern" where
  "bind_slot sid s t =
     (if FAST_CAPACITY \<le> sid then Inl Ids_exhausted
      else let d = sid div BLOCK_SIZE;
               block = (case it_directory t d of None \<Rightarrow> (\<lambda>_. None) | Some b \<Rightarrow> b)
           in Inr (t\<lparr>it_directory := (it_directory t)(d \<mapsto> block(sid mod BLOCK_SIZE \<mapsto> s)),
                     it_log := it_log t @ [sid]\<rparr>))"

definition fresh_id :: "intern \<Rightarrow> string \<Rightarrow> nat" where
  "fresh_id t s = (if it_deterministic t then intern_hash s mod FAST_CAPACITY else it_num_strings t mod 2 ^ 32)"

definition bind_new :: "nat \<Rightarrow> string \<Rightarrow> intern \<Rightarrow> intern_error + intern" where
  "bind_new sid s t =
     ebind (bind_slot sid s t) (\<lambda>t1.
       case index_insert (intern_hash s) sid t1 of None \<Rightarrow> Inl Probe_loops
       | Some t2 \<Rightarrow> Inr (advance_num_strings sid t2))"

definition get_or_insert :: "string \<Rightarrow> intern \<Rightarrow> intern_error + nat \<times> intern" where
  "get_or_insert s t =
     (case intern_lookup t s of
        Loops \<Rightarrow> Inl Probe_loops
      | Found sid \<Rightarrow> Inr (sid, t)
      | Absent \<Rightarrow>
          let sid = fresh_id t s
          in case slot_value t sid of
               Some s' \<Rightarrow> if s' = s then Inr (sid, t) else Inl Id_collision
             | None \<Rightarrow> ebind (bind_new sid s t) (\<lambda>t'. Inr (sid, t')))"

definition insert_at_id :: "nat \<Rightarrow> string \<Rightarrow> intern \<Rightarrow> intern_error + intern" where
  "insert_at_id sid s t =
     (case slot_value t sid of
        Some s' \<Rightarrow> if s' = s then Inr t else Inl Id_already_bound
      | None \<Rightarrow>
          (case intern_lookup t s of
             Loops \<Rightarrow> Inl Probe_loops
           | Found sid' \<Rightarrow> ebind (bind_slot sid s t) (\<lambda>t'. Inr (advance_num_strings sid t'))
           | Absent \<Rightarrow> bind_new sid s t))"

section \<open>Linear probing\<close>

text \<open>
  \<open>holds val slots s i\<close>: the index maps \<open>s\<close> to id \<open>i\<close>. In a good table every entry is named, no two
  entries have the same name, and the slots from an entry's home slot up to it are taken.
\<close>

definition holds :: "(nat \<Rightarrow> string option) \<Rightarrow> nat list \<Rightarrow> string \<Rightarrow> nat \<Rightarrow> bool" where
  "holds val slots s i \<longleftrightarrow> Suc i \<in> set slots \<and> val i = Some s"

definition taken :: "nat list \<Rightarrow> nat list" where "taken slots = filter (\<lambda>v. v \<noteq> 0) slots"

definition reach :: "nat list \<Rightarrow> nat \<Rightarrow> nat \<Rightarrow> bool" where
  "reach slots h j \<longleftrightarrow>
     (\<exists>k. j = (h + k) mod length slots \<and> (\<forall>l < k. slots ! ((h + l) mod length slots) \<noteq> 0))"

definition table_ok :: "(nat \<Rightarrow> string option) \<Rightarrow> nat list \<Rightarrow> bool" where
  "table_ok val slots \<longleftrightarrow>
     (\<forall>j < length slots. slots ! j \<noteq> 0 \<longrightarrow> (\<exists>s. val (slots ! j - 1) = Some s \<and> reach slots (intern_hash s) j))
     \<and> distinct (map (\<lambda>v. val (v - 1)) (taken slots))"

lemma free_if_not_full: "length (taken slots) < length slots \<Longrightarrow> \<exists>j < length slots. slots ! j = 0"
proof (rule ccontr)
  assume "length (taken slots) < length slots" "\<not> (\<exists>j < length slots. slots ! j = 0)"
  then have "filter (\<lambda>v. v \<noteq> 0) slots = slots" by (auto simp: filter_id_conv in_set_conv_nth)
  with \<open>length (taken slots) < length slots\<close> show False by (simp add: taken_def)
qed

lemma cyclic: "j < n \<Longrightarrow> \<exists>k < n. (h + k) mod n = (j :: nat)"
proof -
  assume j: "j < n"
  let ?k = "(j + (n - h mod n)) mod n"
  have "(h + ?k) mod n = (h mod n + (j + (n - h mod n))) mod n" by (simp add: mod_simps)
  also have "h mod n + (j + (n - h mod n)) = j + n" using j mod_less_divisor [of n h] by linarith
  finally have "(h + ?k) mod n = j" using j by simp
  moreover have "?k < n" using j by simp
  ultimately show ?thesis by blast
qed

lemma probe_steps:
  "\<forall>l < k. slots ! ((i + l) mod length slots) \<noteq> 0 \<and> val (slots ! ((i + l) mod length slots) - 1) \<noteq> Some s \<Longrightarrow>
   k \<le> rounds \<Longrightarrow>
   probe val slots s (i mod length slots) rounds = probe val slots s ((i + k) mod length slots) (rounds - k)"
proof (induction k arbitrary: i rounds)
  case (Suc k)
  then obtain m where m: "rounds = Suc m" by (cases rounds) auto
  have "probe val slots s (i mod length slots) rounds = probe val slots s ((i mod length slots + 1) mod length slots) m"
    using spec [OF Suc.prems(1), of 0] m by (simp add: Let_def)
  also have "(i mod length slots + 1) mod length slots = Suc i mod length slots" by (simp add: mod_simps)
  also have "probe val slots s (Suc i mod length slots) m = probe val slots s ((Suc i + k) mod length slots) (m - k)"
    using Suc.prems by (intro Suc.IH) (auto simp: m)
  finally show ?case by (simp add: m)
qed simp

lemma free_steps:
  "\<forall>l < k. slots ! ((i + l) mod length slots) \<noteq> 0 \<Longrightarrow> k \<le> rounds \<Longrightarrow>
   free_slot slots (i mod length slots) rounds = free_slot slots ((i + k) mod length slots) (rounds - k)"
proof (induction k arbitrary: i rounds)
  case (Suc k)
  then obtain m where m: "rounds = Suc m" by (cases rounds) auto
  have "free_slot slots (i mod length slots) rounds = free_slot slots ((i mod length slots + 1) mod length slots) m"
    using spec [OF Suc.prems(1), of 0] m by simp
  also have "(i mod length slots + 1) mod length slots = Suc i mod length slots" by (simp add: mod_simps)
  also have "free_slot slots (Suc i mod length slots) m = free_slot slots ((Suc i + k) mod length slots) (m - k)"
    using Suc.prems by (intro Suc.IH) (auto simp: m)
  finally show ?case by (simp add: m)
qed simp

lemma table_ok_holds:
  assumes "table_ok val slots" "v \<in> set slots" "v \<noteq> 0" "val (v - 1) = Some s"
  shows "holds val slots s (v - 1)"
  using assms by (auto simp: holds_def)

lemma holds_unique:
  assumes "table_ok val slots" "holds val slots s i" "holds val slots s j"
  shows "i = j"
proof -
  have "inj_on (\<lambda>v. val (v - 1)) (set (taken slots))" using assms(1) by (simp add: table_ok_def distinct_map)
  moreover have "Suc i \<in> set (taken slots)" "Suc j \<in> set (taken slots)" "val (Suc i - 1) = val (Suc j - 1)"
    using assms(2,3) by (auto simp: holds_def taken_def)
  ultimately show ?thesis using inj_onD [of "\<lambda>v. val (v - 1)" "set (taken slots)" "Suc i" "Suc j"] by simp
qed

lemma probe_correct:
  assumes "table_ok val slots" and "length (taken slots) < length slots"
  shows "probe val slots s (h mod length slots) (length slots) = Found i \<Longrightarrow> holds val slots s i"
    and "h = intern_hash s \<Longrightarrow> holds val slots s i \<Longrightarrow> probe val slots s (h mod length slots) (length slots) = Found i"
    and "\<nexists>i. holds val slots s i \<Longrightarrow> probe val slots s (h mod length slots) (length slots) = Absent"
proof -
  let ?n = "length slots" and ?at = "\<lambda>l. slots ! ((h + l) mod length slots)"
  let ?stop = "\<lambda>l. ?at l = 0 \<or> val (?at l - 1) = Some s"
  from free_if_not_full [OF assms(2)] obtain z where z: "z < ?n" "slots ! z = 0" by blast
  then obtain kz where kz: "kz < ?n" "?at kz = 0" using cyclic [OF z(1), of h] by auto
  then have "\<exists>k. ?stop k" by blast
  then obtain k where k: "?stop k" "\<forall>l < k. \<not> ?stop l" using exists_least_iff [of ?stop] by blast
  have "k < ?n" using k(2) kz by (meson le_less_trans not_le)
  then have p: "probe val slots s (h mod ?n) ?n
      = (if ?at k = 0 then Absent else Found (?at k - 1))"
    using probe_steps [of k slots h val s ?n] k by (cases "?n - k") (auto simp: Let_def)
  have at: "?at l \<in> set slots" for l using z(1) by (intro nth_mem mod_less_divisor) auto
  show f: "holds val slots s i" if "probe val slots s (h mod ?n) ?n = Found i" for i
    using that p k(1) at [of k] table_ok_holds [OF assms(1)] by (auto split: if_splits)
  show "probe val slots s (h mod ?n) ?n = Absent" if "\<nexists>i. holds val slots s i"
    using that p f by (auto split: if_splits)
  show "probe val slots s (h mod ?n) ?n = Found i" if h: "h = intern_hash s" and hd: "holds val slots s i" for i
  proof -
    obtain j where j: "j < ?n" "slots ! j = Suc i" using hd by (auto simp: holds_def in_set_conv_nth)
    then obtain m where m: "j = (h + m) mod ?n" "\<forall>l < m. ?at l \<noteq> 0"
      using assms(1) h hd by (fastforce simp: table_ok_def reach_def holds_def)
    have "?stop m" using j m(1) hd by (simp add: holds_def)
    then have "k \<le> m" using k(2) by (meson not_le)
    then have "?at k \<noteq> 0" using m j by (cases "k = m") auto
    then have "probe val slots s (h mod ?n) ?n = Found (?at k - 1)" using p by simp
    with f [OF this] hd holds_unique [OF assms(1)] show ?thesis by metis
  qed
qed

lemma taken_update:
  assumes "p < length slots" "slots ! p = 0" "v \<noteq> 0"
  shows "\<exists>A B. taken slots = A @ B \<and> taken (slots[p := v]) = A @ v # B"
proof -
  have "slots = take p slots @ 0 # drop (Suc p) slots" using id_take_nth_drop [OF assms(1)] assms(2) by simp
  moreover have "slots[p := v] = take p slots @ v # drop (Suc p) slots" using assms(1) by (rule upd_conv_take_nth_drop)
  moreover have "taken (xs @ v # ys) = taken xs @ v # taken ys" "taken (xs @ 0 # ys) = taken xs @ taken ys" for xs ys
    using assms(3) by (simp_all add: taken_def)
  ultimately show ?thesis by metis
qed

lemma holds_taken: "holds val slots s i \<longleftrightarrow> Suc i \<in> set (taken slots) \<and> val i = Some s"
  by (auto simp: holds_def taken_def)

lemma reach_update:
  assumes "reach slots h j" "v \<noteq> 0" "p < length slots" shows "reach (slots[p := v]) h j"
proof -
  obtain k where k: "j = (h + k) mod length slots" "\<forall>l<k. slots ! ((h + l) mod length slots) \<noteq> 0"
    using assms(1) by (auto simp: reach_def)
  have "slots[p := v] ! x \<noteq> 0" if "slots ! x \<noteq> 0" for x
    using that assms by (cases "x = p") auto
  with k show ?thesis by (auto simp: reach_def)
qed

lemma put_slot_ok:
  assumes ok: "table_ok val slots" "length (taken slots) < length slots"
    and new: "val i = Some s" "\<nexists>j. holds val slots s j"
  shows "\<exists>slots'. put_slot (intern_hash s) (Suc i) slots = Some slots' \<and> table_ok val slots'
    \<and> length slots' = length slots \<and> length (taken slots') = Suc (length (taken slots))
    \<and> (\<forall>s' j. holds val slots' s' j \<longleftrightarrow> holds val slots s' j \<or> j = i \<and> s' = s)"
proof -
  let ?n = "length slots" and ?h = "intern_hash s"
  obtain z where z: "z < ?n" "slots ! z = 0" using free_if_not_full [OF ok(2)] by blast
  then obtain kz where kz: "kz < ?n" "slots ! ((?h + kz) mod ?n) = 0" using cyclic [OF z(1), of ?h] by auto
  then have "\<exists>k. slots ! ((?h + k) mod ?n) = 0" by blast
  then obtain k where k: "slots ! ((?h + k) mod ?n) = 0" "\<forall>l<k. slots ! ((?h + l) mod ?n) \<noteq> 0"
    using exists_least_iff [of "\<lambda>k. slots ! ((?h + k) mod ?n) = 0"] by blast
  have "\<not> kz < k" using k(2) kz(2) by blast
  with kz(1) have kn: "k < ?n" by simp
  define p where "p = (?h + k) mod ?n"
  have p: "p < ?n" "slots ! p = 0" using z(1) k(1) by (auto simp: p_def intro: mod_less_divisor)
  let ?t = "slots[p := Suc i]"
  have "free_slot slots (?h mod ?n) ?n = Some p"
    using free_steps [of k slots ?h ?n] k kn p_def by (cases "?n - k") auto
  then have put: "put_slot ?h (Suc i) slots = Some ?t" by (simp add: put_slot_def)
  obtain A B where AB: "taken slots = A @ B" "taken ?t = A @ Suc i # B"
    using taken_update [OF p, of "Suc i"] by auto
  have h: "holds val ?t s' j \<longleftrightarrow> holds val slots s' j \<or> j = i \<and> s' = s" for s' j
    using new(1) by (auto simp: holds_taken AB)
  have "val i \<notin> (\<lambda>v. val (v - 1)) ` set (taken slots)"
  proof -
    have n: "val (v - 1) \<noteq> Some s" if "v \<in> set (taken slots)" for v
      using that new(2) table_ok_holds [OF ok(1), of v s] by (auto simp: taken_def)
    show ?thesis
    proof
      assume "val i \<in> (\<lambda>v. val (v - 1)) ` set (taken slots)"
      then obtain v where "v \<in> set (taken slots)" "val i = val (v - 1)" by (elim imageE)
      with n [OF this(1)] new(1) show False by simp
    qed
  qed
  then have d: "distinct (map (\<lambda>v. val (v - 1)) (taken ?t))"
    using ok(1) by (auto simp: table_ok_def AB)
  have "table_ok val ?t"
    unfolding table_ok_def
  proof (intro conjI allI impI d)
    fix j assume j: "j < length ?t" "?t ! j \<noteq> 0"
    show "\<exists>s. val (?t ! j - 1) = Some s \<and> reach ?t (intern_hash s) j"
    proof (cases "j = p")
      case True
      have "reach slots ?h p" using k(2) by (auto simp: reach_def p_def)
      from reach_update [OF this _ p(1)] True new(1) p(1) show ?thesis by auto
    next
      case False
      with j ok(1) obtain s' where "val (slots ! j - 1) = Some s'" "reach slots (intern_hash s') j"
        by (auto simp: table_ok_def)
      with False show ?thesis using reach_update [OF _ _ p(1)] by auto
    qed
  qed
  with put h AB show ?thesis by auto
qed

lemma rehash_ok:
  "table_ok val fresh \<Longrightarrow> length (taken fresh) + length (taken old) < length fresh \<Longrightarrow>
   \<forall>v \<in> set (taken old). val (v - 1) \<noteq> None \<Longrightarrow> distinct (map (\<lambda>v. val (v - 1)) (taken old)) \<Longrightarrow>
   \<forall>v \<in> set (taken old). \<forall>s j. val (v - 1) = Some s \<longrightarrow> \<not> holds val fresh s j \<Longrightarrow>
   \<exists>fresh'. rehash val old fresh = Some fresh' \<and> table_ok val fresh' \<and> length fresh' = length fresh
     \<and> length (taken fresh') = length (taken fresh) + length (taken old)
     \<and> (\<forall>s j. holds val fresh' s j \<longleftrightarrow> holds val fresh s j \<or> Suc j \<in> set (taken old) \<and> val j = Some s)"
proof (induction old arbitrary: fresh)
  case Nil
  then show ?case by (simp add: taken_def)
next
  case (Cons v old)
  show ?case
  proof (cases v)
    case 0
    then have "taken (v # old) = taken old" by (simp add: taken_def)
    with Cons 0 show ?thesis by simp
  next
    case (Suc i)
    then have t: "taken (v # old) = v # taken old" by (simp add: taken_def)
    obtain s where s: "val i = Some s" using Cons.prems(3) t Suc by auto
    have "\<nexists>j. holds val fresh s j" using Cons.prems(5) t Suc s by auto
    then obtain f1 where f1: "put_slot (intern_hash s) (Suc i) fresh = Some f1" "table_ok val f1"
        "length f1 = length fresh" "length (taken f1) = Suc (length (taken fresh))"
        "\<forall>s' j. holds val f1 s' j \<longleftrightarrow> holds val fresh s' j \<or> j = i \<and> s' = s"
      using put_slot_ok [OF Cons.prems(1) _ s] Cons.prems(2) by auto
    have "\<forall>w \<in> set (taken old). \<forall>s' j. val (w - 1) = Some s' \<longrightarrow> \<not> holds val f1 s' j"
    proof (intro ballI allI impI notI)
      fix w s' j assume w: "w \<in> set (taken old)" "val (w - 1) = Some s'" "holds val f1 s' j"
      have "\<not> holds val fresh s' j" using Cons.prems(5) t w(1,2) by auto
      then have "s' = s" using f1(5) w(3) by blast
      then have "val i \<in> (\<lambda>v. val (v - 1)) ` set (taken old)" using s w(1,2) by (metis imageI)
      then show False using Cons.prems(4) t Suc by simp
    qed
    then obtain f2 where f2: "rehash val old f1 = Some f2" "table_ok val f2" "length f2 = length f1"
        "length (taken f2) = length (taken f1) + length (taken old)"
        "\<forall>s j. holds val f2 s j \<longleftrightarrow> holds val f1 s j \<or> Suc j \<in> set (taken old) \<and> val j = Some s"
      using Cons.IH [of f1] f1 Cons.prems(2,3,4) t by auto
    have "rehash val (v # old) fresh = Some f2" using Suc s f1(1) f2(1) by simp
    moreover have "holds val f2 s' j \<longleftrightarrow> holds val fresh s' j \<or> Suc j \<in> set (taken (v # old)) \<and> val j = Some s'" for s' j
      using f1(5) f2(5) t Suc s by auto
    ultimately show ?thesis using f1 f2 t by (intro exI [of _ f2]) simp
  qed
qed

lemma grow_index_ok:
  assumes "table_ok val slots" "length (taken slots) < length slots"
  shows "\<exists>slots'. grow_index val slots = Some slots' \<and> table_ok val slots' \<and> length slots' = 2 * length slots
    \<and> length (taken slots') = length (taken slots) \<and> (\<forall>s j. holds val slots' s j \<longleftrightarrow> holds val slots s j)"
proof -
  let ?f = "replicate (2 * length slots) 0 :: nat list"
  have t: "taken ?f = []" by (simp add: taken_def)
  have f: "table_ok val ?f" by (simp add: table_ok_def t)
  have n: "\<not> holds val ?f s j" for s j by (simp add: holds_def)
  have "\<forall>v \<in> set (taken slots). val (v - 1) \<noteq> None"
    using assms(1) by (fastforce simp: table_ok_def taken_def in_set_conv_nth)
  then obtain g where g: "rehash val slots ?f = Some g" "table_ok val g" "length g = length ?f"
      "length (taken g) = length (taken ?f) + length (taken slots)"
      "\<forall>s j. holds val g s j \<longleftrightarrow> holds val ?f s j \<or> Suc j \<in> set (taken slots) \<and> val j = Some s"
    using rehash_ok [OF f, of slots] assms n t by (auto simp: table_ok_def)
  moreover have "holds val slots s j \<longleftrightarrow> Suc j \<in> set (taken slots) \<and> val j = Some s" for s j
    by (auto simp: holds_def taken_def)
  ultimately show ?thesis using n t by (intro exI [of _ g]) (simp add: grow_index_def)
qed

section \<open>The table\<close>

definition intern_ok :: "intern \<Rightarrow> bool" where
  "intern_ok t \<longleftrightarrow> table_ok (slot_value t) (it_slots t)
     \<and> it_index_size t = length (taken (it_slots t)) \<and> 4 * it_index_size t < 3 * length (it_slots t)
     \<and> (\<forall>i s. slot_value t i = Some s \<longrightarrow> (\<exists>j. holds (slot_value t) (it_slots t) s j))
     \<and> (\<forall>i. slot_value t i \<noteq> None \<longrightarrow> i < it_num_strings t)
     \<and> it_num_strings t \<le> FAST_CAPACITY"

text \<open>\<open>extends t t'\<close>: every id keeps its string, and every string its first id.\<close>

definition extends :: "intern \<Rightarrow> intern \<Rightarrow> bool" where
  "extends t t' \<longleftrightarrow> slot_value t \<subseteq>\<^sub>m slot_value t'
     \<and> (\<forall>s i. holds (slot_value t) (it_slots t) s i \<longrightarrow> holds (slot_value t') (it_slots t') s i)"

lemma intern_new_ok: "intern_ok intern_new"
proof -
  have "slot_value intern_new i = None" for i by (simp add: slot_value_def intern_new_def)
  moreover have "taken (it_slots intern_new) = []" by (simp add: intern_new_def taken_def)
  moreover have "it_slots intern_new ! j = 0" if "j < length (it_slots intern_new)" for j
    using that by (simp add: intern_new_def)
  ultimately show ?thesis
    by (auto simp: intern_ok_def table_ok_def) (simp_all add: intern_new_def INITIAL_INDEX_SLOTS_def)
qed

lemma lookup_ok:
  assumes "intern_ok t"
  shows "intern_lookup t s = Found i \<longleftrightarrow> holds (slot_value t) (it_slots t) s i"
    and "intern_lookup t s = Absent \<longleftrightarrow> (\<nexists>i. holds (slot_value t) (it_slots t) s i)"
    and "intern_lookup t s \<noteq> Loops"
proof -
  have t: "table_ok (slot_value t) (it_slots t)" "length (taken (it_slots t)) < length (it_slots t)"
    using assms by (auto simp: intern_ok_def)
  note p = probe_correct [OF t, where s = s and h = "intern_hash s", folded intern_lookup_def]
  show f: "intern_lookup t s = Found i \<longleftrightarrow> holds (slot_value t) (it_slots t) s i" for i
    using p(1,2) by blast
  show "intern_lookup t s = Absent \<longleftrightarrow> (\<nexists>i. holds (slot_value t) (it_slots t) s i)"
    using p(3) f by force
  show "intern_lookup t s \<noteq> Loops" using p(3) f by (metis probe_result.distinct(3) probe_result.distinct(5))
qed

lemma slot_value_bind:
  assumes "bind_slot i s t = Inr t'"
  shows "slot_value t' = (slot_value t)(i \<mapsto> s)" "it_slots t' = it_slots t" "it_index_size t' = it_index_size t"
    "it_num_strings t' = it_num_strings t" "i < FAST_CAPACITY" "it_deterministic t' = it_deterministic t"
proof -
  have t': "i < FAST_CAPACITY" "t' = t\<lparr>it_directory := (it_directory t)(i div BLOCK_SIZE \<mapsto>
       (case it_directory t (i div BLOCK_SIZE) of None \<Rightarrow> (\<lambda>_. None) | Some b \<Rightarrow> b)(i mod BLOCK_SIZE \<mapsto> s)),
       it_log := it_log t @ [i]\<rparr>"
    using assms by (auto simp: bind_slot_def Let_def split: if_splits)
  show "slot_value t' = (slot_value t)(i \<mapsto> s)"
  proof
    fix j
    have "j = i" if "j div BLOCK_SIZE = i div BLOCK_SIZE" "j mod BLOCK_SIZE = i mod BLOCK_SIZE"
      using that by (metis div_mod_decomp)
    then show "slot_value t' j = ((slot_value t)(i \<mapsto> s)) j"
      using t'(1) by (auto simp: t'(2) slot_value_def split: option.splits)
  qed
qed (use assms in \<open>auto simp: bind_slot_def Let_def split: if_splits\<close>)

lemma table_ok_mono:
  assumes "table_ok val slots" "val \<subseteq>\<^sub>m val'" shows "table_ok val' slots"
proof -
  have e: "val' (v - 1) = val (v - 1)" if "v \<in> set (taken slots)" for v
    using that assms by (fastforce simp: table_ok_def taken_def in_set_conv_nth map_le_def dom_def)
  then have m: "map (\<lambda>v. val' (v - 1)) (taken slots) = map (\<lambda>v. val (v - 1)) (taken slots)"
    by (intro map_cong) auto
  have "val' (slots ! j - 1) = val (slots ! j - 1)" if "j < length slots" "slots ! j \<noteq> 0" for j
    using that by (intro e) (auto simp: taken_def)
  then show ?thesis using assms(1) unfolding table_ok_def m by simp
qed

lemma holds_mono:
  "table_ok val slots \<Longrightarrow> val \<subseteq>\<^sub>m val' \<Longrightarrow> holds val' slots s i \<longleftrightarrow> holds val slots s i"
  by (fastforce simp: table_ok_def holds_def in_set_conv_nth map_le_def dom_def)

lemma index_insert_ok:
  assumes ok: "table_ok (slot_value t) (it_slots t)" "it_index_size t = length (taken (it_slots t))"
      "4 * it_index_size t < 3 * length (it_slots t)"
    and new: "slot_value t i = Some s" "\<nexists>j. holds (slot_value t) (it_slots t) s j"
  shows "\<exists>t'. index_insert (intern_hash s) i t = Some t' \<and> slot_value t' = slot_value t
    \<and> table_ok (slot_value t) (it_slots t') \<and> it_index_size t' = length (taken (it_slots t'))
    \<and> 4 * it_index_size t' < 3 * length (it_slots t')
    \<and> it_num_strings t' = it_num_strings t \<and> it_deterministic t' = it_deterministic t
    \<and> (\<forall>s' j. holds (slot_value t) (it_slots t') s' j \<longleftrightarrow> holds (slot_value t) (it_slots t) s' j \<or> j = i \<and> s' = s)"
proof -
  let ?v = "slot_value t"
  have lt: "length (taken (it_slots t)) < length (it_slots t)" using ok(2,3) by simp
  obtain sl where sl: "(if 3 * length (it_slots t) \<le> (it_index_size t + 1) * 4
        then grow_index ?v (it_slots t) else Some (it_slots t)) = Some sl"
      "table_ok ?v sl" "length (taken sl) = length (taken (it_slots t))"
      "4 * (it_index_size t + 1) < 3 * length sl" "\<forall>s j. holds ?v sl s j \<longleftrightarrow> holds ?v (it_slots t) s j"
  proof (cases "3 * length (it_slots t) \<le> (it_index_size t + 1) * 4")
    case True
    obtain g where g: "grow_index ?v (it_slots t) = Some g" "table_ok ?v g" "length g = 2 * length (it_slots t)"
        "length (taken g) = length (taken (it_slots t))" "\<forall>s j. holds ?v g s j \<longleftrightarrow> holds ?v (it_slots t) s j"
      using grow_index_ok [OF ok(1) lt] by blast
    have "0 < length (it_slots t)" using lt by linarith
    then have "4 * (it_index_size t + 1) < 3 * length g" using ok(3) g(3) by presburger
    with True g that show ?thesis by simp
  next
    case False
    with that [of "it_slots t"] ok show ?thesis by simp
  qed
  have "\<nexists>j. holds ?v sl s j" using new(2) sl(5) by blast
  moreover have "length (taken sl) < length sl" using sl(3,4) ok(2) by simp
  ultimately obtain sl' where sl': "put_slot (intern_hash s) (Suc i) sl = Some sl'" "table_ok ?v sl'"
      "length sl' = length sl" "length (taken sl') = Suc (length (taken sl))"
      "\<forall>s' j. holds ?v sl' s' j \<longleftrightarrow> holds ?v sl s' j \<or> j = i \<and> s' = s"
    using put_slot_ok [OF sl(2) _ new(1)] by blast
  let ?t = "t\<lparr>it_slots := sl', it_index_size := it_index_size t + 1\<rparr>"
  have "index_insert (intern_hash s) i t = Some ?t"
    unfolding index_insert_def sl(1) using sl'(1) by simp
  moreover have "slot_value ?t = ?v" by (rule ext) (simp add: slot_value_def)
  ultimately show ?thesis using sl sl' ok(2) by (intro exI [of _ ?t]) simp
qed

lemma bind_new_ok:
  assumes ok: "intern_ok t" and free: "slot_value t i = None" and new: "intern_lookup t s = Absent"
  shows "bind_new i s t = Inl Ids_exhausted \<and> FAST_CAPACITY \<le> i
    \<or> (\<exists>t'. bind_new i s t = Inr t' \<and> intern_ok t' \<and> extends t t' \<and> holds (slot_value t') (it_slots t') s i
          \<and> it_deterministic t' = it_deterministic t)"
proof (cases "FAST_CAPACITY \<le> i")
  case True
  then show ?thesis by (simp add: bind_new_def bind_slot_def)
next
  case False
  then obtain t1 where b: "bind_slot i s t = Inr t1" by (simp add: bind_slot_def Let_def)
  note v1 = slot_value_bind [OF b]
  have le: "slot_value t \<subseteq>\<^sub>m slot_value t1" using free by (auto simp: v1(1) map_le_def)
  have T: "table_ok (slot_value t) (it_slots t)" using ok by (simp add: intern_ok_def)
  have hold1: "holds (slot_value t1) (it_slots t1) s' j \<longleftrightarrow> holds (slot_value t) (it_slots t) s' j" for s' j
    using holds_mono [OF T le] by (simp add: v1(2))
  obtain t2 where t2: "index_insert (intern_hash s) i t1 = Some t2" "slot_value t2 = slot_value t1"
      "table_ok (slot_value t1) (it_slots t2)" "it_index_size t2 = length (taken (it_slots t2))"
      "4 * it_index_size t2 < 3 * length (it_slots t2)" "it_num_strings t2 = it_num_strings t1"
      "it_deterministic t2 = it_deterministic t1"
      "\<forall>s' j. holds (slot_value t1) (it_slots t2) s' j \<longleftrightarrow> holds (slot_value t1) (it_slots t1) s' j \<or> j = i \<and> s' = s"
    using index_insert_ok [where t = t1 and i = i and s = s] table_ok_mono [OF T le] ok new lookup_ok(2) [OF ok, of s] hold1
    by (auto simp: v1 intern_ok_def)
  let ?t = "advance_num_strings i t2"
  have a: "slot_value ?t = slot_value t2" "it_slots ?t = it_slots t2" "it_index_size ?t = it_index_size t2"
    "it_num_strings ?t = max (it_num_strings t2) (Suc i)" "it_deterministic ?t = it_deterministic t2"
    by (auto simp: advance_num_strings_def slot_value_def fun_eq_iff max_def)
  have "bind_new i s t = Inr ?t" using b t2(1) by (simp add: bind_new_def)
  moreover have "extends t ?t" using le hold1 t2 by (simp add: extends_def a)
  moreover have "holds (slot_value ?t) (it_slots ?t) s i" using t2 by (simp add: a)
  moreover have "intern_ok ?t"
    unfolding intern_ok_def
  proof (intro conjI allI impI)
    fix j s' assume "slot_value ?t j = Some s'"
    then show "\<exists>j. holds (slot_value ?t) (it_slots ?t) s' j"
      using ok t2 hold1 by (fastforce simp: a v1(1) intern_ok_def split: if_splits)
  next
    fix j assume "slot_value ?t j \<noteq> None"
    then show "j < it_num_strings ?t" using ok t2(2,6) by (auto simp: a v1(1,4) intern_ok_def split: if_splits)
  qed (use ok False t2 in \<open>auto simp: a v1 intern_ok_def\<close>)
  ultimately show ?thesis using t2(7) v1(6) by (auto simp: a)
qed

lemma extends_refl [simp]: "extends t t"
  by (simp add: extends_def)

lemma extends_trans: "extends t u \<Longrightarrow> extends u v \<Longrightarrow> extends t v"
  by (auto simp: extends_def intro: map_le_trans)

text \<open>An insertion finds the string, adds it, or reports one of three errors.\<close>

lemma get_or_insert_ok:
  assumes ok: "intern_ok t"
  shows "(\<exists>i t'. get_or_insert s t = Inr (i, t') \<and> intern_ok t' \<and> extends t t'
            \<and> holds (slot_value t') (it_slots t') s i \<and> it_deterministic t' = it_deterministic t)
    \<or> (get_or_insert s t = Inl Id_collision \<and> it_deterministic t)
    \<or> (get_or_insert s t = Inl Ids_exhausted \<and> it_num_strings t = FAST_CAPACITY)"
proof (cases "intern_lookup t s")
  case (Found i)
  then show ?thesis using ok lookup_ok(1) [OF ok, of s i] by (auto simp: get_or_insert_def)
next
  case Loops
  then show ?thesis using lookup_ok(3) [OF ok] by blast
next
  case Absent
  let ?i = "fresh_id t s"
  have cap: "FAST_CAPACITY < 2 ^ 32" "0 < FAST_CAPACITY" by (simp_all add: FAST_CAPACITY_def)
  have num: "it_num_strings t \<le> FAST_CAPACITY" and bound: "\<And>i. slot_value t i \<noteq> None \<Longrightarrow> i < it_num_strings t"
    using ok by (auto simp: intern_ok_def)
  then have fresh: "\<not> it_deterministic t \<Longrightarrow> ?i = it_num_strings t"
    using cap by (simp add: fresh_id_def)
  show ?thesis
  proof (cases "slot_value t ?i")
    case (Some s')
    have "\<exists>j. holds (slot_value t) (it_slots t) s' j" using ok Some by (simp add: intern_ok_def)
    then have "s' \<noteq> s" using Absent lookup_ok(2) [OF ok, of s] by blast
    moreover have "it_deterministic t" using fresh bound [of ?i] Some by fastforce
    ultimately show ?thesis using Absent Some by (simp add: get_or_insert_def Let_def)
  next
    case None
    from bind_new_ok [OF ok None Absent] show ?thesis
    proof
      assume e: "bind_new ?i s t = Inl Ids_exhausted \<and> FAST_CAPACITY \<le> ?i"
      then have "\<not> it_deterministic t" using mod_less_divisor [OF cap(2), of "intern_hash s"] by (auto simp: fresh_id_def)
      then have "it_num_strings t = FAST_CAPACITY" using fresh e num by simp
      with e Absent None show ?thesis by (simp add: get_or_insert_def Let_def)
    qed (use Absent None in \<open>auto simp: get_or_insert_def Let_def\<close>)
  qed
qed

lemma slot_value_advance [simp]: "slot_value (advance_num_strings i t) = slot_value t"
  by (rule ext) (simp add: advance_num_strings_def slot_value_def)

lemma intern_ok_bind_again:
  assumes ok: "intern_ok t" and b: "bind_slot i s t = Inr t1" and free: "slot_value t i = None"
    and h: "holds (slot_value t) (it_slots t) s j"
  shows "intern_ok (advance_num_strings i t1) \<and> extends t (advance_num_strings i t1)"
proof -
  note v1 = slot_value_bind [OF b]
  let ?t = "advance_num_strings i t1"
  have a: "slot_value ?t = slot_value t1" "it_slots ?t = it_slots t1" "it_index_size ?t = it_index_size t1"
    "it_num_strings ?t = max (it_num_strings t1) (Suc i)"
    by (auto simp: advance_num_strings_def slot_value_def fun_eq_iff max_def)
  have le: "slot_value t \<subseteq>\<^sub>m slot_value t1" using free by (auto simp: v1(1) map_le_def)
  have T: "table_ok (slot_value t) (it_slots t)" using ok by (simp add: intern_ok_def)
  note hold1 = holds_mono [OF T le]
  have "intern_ok ?t"
    unfolding intern_ok_def
  proof (intro conjI allI impI)
    show "table_ok (slot_value ?t) (it_slots ?t)" using table_ok_mono [OF T le] by (simp add: a v1(2))
  next
    fix k s' assume "slot_value ?t k = Some s'"
    then show "\<exists>j. holds (slot_value ?t) (it_slots ?t) s' j"
      using ok h hold1 by (auto simp: a v1(1,2) intern_ok_def split: if_splits)
  next
    fix k assume "slot_value ?t k \<noteq> None"
    then show "k < it_num_strings ?t" using ok by (auto simp: a v1(1,4) intern_ok_def split: if_splits)
  qed (use ok v1(5) in \<open>auto simp: a v1(2-4) intern_ok_def\<close>)
  moreover have "extends t ?t" using le hold1 by (simp add: extends_def a v1(2))
  ultimately show ?thesis by blast
qed

lemma insert_at_id_ok:
  assumes ok: "intern_ok t"
  shows "(\<exists>t'. insert_at_id i s t = Inr t' \<and> intern_ok t' \<and> extends t t' \<and> slot_value t' i = Some s)
    \<or> (insert_at_id i s t = Inl Id_already_bound \<and> (\<exists>s'. slot_value t i = Some s' \<and> s' \<noteq> s))
    \<or> (insert_at_id i s t = Inl Ids_exhausted \<and> FAST_CAPACITY \<le> i)"
proof (cases "slot_value t i")
  case (Some s')
  then show ?thesis using ok by (auto simp: insert_at_id_def)
next
  case free: None
  show ?thesis
  proof (cases "intern_lookup t s")
    case (Found j)
    then have h: "holds (slot_value t) (it_slots t) s j" using lookup_ok(1) [OF ok] by blast
    show ?thesis
    proof (cases "bind_slot i s t")
      case (Inl e)
      then show ?thesis using free Found by (auto simp: insert_at_id_def bind_slot_def Let_def split: if_splits)
    next
      case (Inr t1)
      have "slot_value (advance_num_strings i t1) i = Some s"
        using slot_value_bind(1) [OF Inr] by (simp add: slot_value_advance)
      then show ?thesis
        using intern_ok_bind_again [OF ok Inr free h] Inr free Found by (simp add: insert_at_id_def)
    qed
  next
    case Absent
    from bind_new_ok [OF ok free Absent, of] show ?thesis
      using free Absent by (auto simp: insert_at_id_def holds_def)
  next
    case Loops
    then show ?thesis using lookup_ok(3) [OF ok] by blast
  qed
qed

section \<open>Reachable tables\<close>

inductive intern_step :: "intern \<Rightarrow> intern \<Rightarrow> bool" where
  Get: "get_or_insert s t = Inr (i, t') \<Longrightarrow> intern_step t t'"
| Load: "insert_at_id i s t = Inr t' \<Longrightarrow> intern_step t t'"
| Deterministic: "intern_step t (enable_deterministic_ids t)"

inductive_cases intern_stepE: "intern_step t t'"

inductive intern_steps :: "intern \<Rightarrow> intern \<Rightarrow> bool" where
  Refl: "intern_steps t t"
| Step: "intern_steps t u \<Longrightarrow> intern_step u v \<Longrightarrow> intern_steps t v"

lemma step_ok:
  assumes "intern_step t t'" "intern_ok t" shows "intern_ok t' \<and> extends t t'"
  using assms(1)
proof cases
  case (Get s i)
  with get_or_insert_ok [OF assms(2), of s] show ?thesis by auto
next
  case (Load i s)
  with insert_at_id_ok [OF assms(2), of i s] show ?thesis by auto
next
  case Deterministic
  have "slot_value t' = slot_value t" by (rule ext) (simp add: Deterministic slot_value_def enable_deterministic_ids_def)
  with assms(2) show ?thesis
    by (simp add: intern_ok_def extends_def) (simp add: Deterministic enable_deterministic_ids_def)
qed

lemma steps_ok: "intern_steps t t' \<Longrightarrow> intern_ok t \<Longrightarrow> intern_ok t' \<and> extends t t'"
  by (induction rule: intern_steps.induct) (auto dest: step_ok intro: extends_trans)

lemma holds_resolve:
  assumes "intern_ok t" "holds (slot_value t) (it_slots t) s i"
  shows "get_or_insert s t = Inr (i, t)" "intern_resolve t i = Inr s"
proof -
  have "intern_lookup t s = Found i" using assms(2) lookup_ok(1) [OF assms(1)] by blast
  then show "get_or_insert s t = Inr (i, t)" by (simp add: get_or_insert_def)
  have v: "slot_value t i = Some s" using assms(2) by (simp add: holds_def)
  then have "\<not> FAST_CAPACITY \<le> i" by (auto simp: slot_value_def split: if_splits)
  with v show "intern_resolve t i = Inr s" by (simp add: intern_resolve_def)
qed

text \<open>
  C27: an id, once issued, stands for its string for good. Whatever is interned or loaded later, in
  whichever mode, through any number of growths of the index, the id still resolves to the string,
  the string is still found under the same id, and finding it changes nothing.
\<close>

theorem interned_for_good:
  assumes "intern_steps intern_new t" and "get_or_insert s t = Inr (i, t1)" and "intern_steps t1 u"
  shows "intern_resolve u i = Inr s \<and> get_or_insert s u = Inr (i, u)"
proof -
  have "intern_ok t" using steps_ok [OF assms(1)] intern_new_ok by blast
  then have "intern_ok t1" "holds (slot_value t1) (it_slots t1) s i"
    using get_or_insert_ok [of t s] assms(2) by auto
  then have "intern_ok u" "holds (slot_value u) (it_slots u) s i"
    using steps_ok [OF assms(3)] by (auto simp: extends_def)
  then show ?thesis using holds_resolve by blast
qed

text \<open>
  C28: interning ends and is injective. On any table that can be reached the probe never goes round
  for ever; two strings get the same id only if they are equal; and with counted ids the only
  error there is is that the counter has reached the end of the space of \<open>2 ^ 28\<close> ids (it is one
  past the highest id in use, so a loaded dictionary may bring it there with few strings).
\<close>

theorem interning_total:
  assumes "intern_steps intern_new t"
  shows "get_or_insert s t \<noteq> Inl Probe_loops \<and> insert_at_id j s t \<noteq> Inl Probe_loops
    \<and> (\<forall>e. get_or_insert s t = Inl e \<and> \<not> it_deterministic t \<longrightarrow> e = Ids_exhausted \<and> it_num_strings t = FAST_CAPACITY)
    \<and> (\<forall>i t1 t2 s'. get_or_insert s t = Inr (i, t1) \<and> get_or_insert s' t1 = Inr (i, t2) \<longrightarrow> s' = s)"
proof -
  have ok: "intern_ok t" using steps_ok [OF assms] intern_new_ok by blast
  note g = get_or_insert_ok [OF ok, of s]
  have "s' = s" if i: "get_or_insert s t = Inr (i, t1)" "get_or_insert s' t1 = Inr (i, t2)" for i t1 t2 s'
  proof -
    have ok1: "intern_ok t1" and h1: "holds (slot_value t1) (it_slots t1) s i" using g i(1) by auto
    have "extends t1 t2" "holds (slot_value t2) (it_slots t2) s' i" using get_or_insert_ok [OF ok1, of s'] i(2) by auto
    with h1 have "slot_value t2 i = Some s" "slot_value t2 i = Some s'" by (auto simp: extends_def holds_def)
    then show ?thesis by simp
  qed
  with g insert_at_id_ok [OF ok, of j s] show ?thesis by auto
qed


lemma first_string: "\<exists>t. get_or_insert s intern_new = Inr (0, t)"
proof -
  have v: "slot_value intern_new i = None" for i by (simp add: slot_value_def intern_new_def)
  have "intern_lookup intern_new s = Absent" using lookup_ok(2) [OF intern_new_ok, of s] by (simp add: holds_def v)
  moreover have "fresh_id intern_new s = 0" by (simp add: fresh_id_def intern_new_def)
  moreover have "get_or_insert s intern_new \<noteq> Inl e" for e
    using get_or_insert_ok [OF intern_new_ok, of s] by (auto simp: intern_new_def FAST_CAPACITY_def)
  ultimately show ?thesis
    by (cases "bind_new 0 s intern_new") (auto simp: get_or_insert_def v)
qed

lemma interned_for_good_witness:
  "\<exists>t. get_or_insert ''POSIX'' intern_new = Inr (0, t)
     \<and> intern_resolve t 0 = Inr ''POSIX'' \<and> get_or_insert ''POSIX'' t = Inr (0, t)"
proof -
  obtain t where t: "get_or_insert ''POSIX'' intern_new = Inr (0, t)" using first_string by blast
  from interned_for_good [OF intern_steps.Refl t intern_steps.Refl] t show ?thesis by blast
qed

lemma interning_total_witness: "get_or_insert ''POSIX'' intern_new \<noteq> Inl Probe_loops"
  using interning_total [OF intern_steps.Refl] by blast

text \<open>Ids count from zero, so zero is a real id: the first string interned gets it.\<close>

lemma first_id_is_zero: "\<exists>t. get_or_insert s intern_new = Inr (0, t) \<and> intern_resolve t 0 = Inr s"
proof -
  obtain t where t: "get_or_insert s intern_new = Inr (0, t)" using first_string by blast
  then have "intern_ok t" "holds (slot_value t) (it_slots t) s 0"
    using get_or_insert_ok [OF intern_new_ok, of s] by auto
  with t holds_resolve show ?thesis by blast
qed

end
