(* ===== verification/AggKey.thy ===== *)
theory AggKey
  imports Codec Intern Cstd
begin

text \<open>
  Aggregation keys: \<^verbatim>\<open>trace/aggregators/aggregation_key.h\<close>, the key half of
  \<^verbatim>\<open>trace/aggregators/aggregation_serialization.cpp\<close> and its header, the hexadecimal hashes of
  \<^verbatim>\<open>core/common/hash/hex64.h\<close> and the time buckets of \<^verbatim>\<open>trace/aggregators/aggregation_logic.cpp\<close>.
  A map type is the byte under its enumeration, which the decoder casts without a check.
\<close>

type_synonym agg_map_type = w8

definition AGG_EVENT :: agg_map_type where "AGG_EVENT = 0"
definition AGG_PROFILE :: agg_map_type where "AGG_PROFILE = 1"
definition AGG_SYSTEM :: agg_map_type where "AGG_SYSTEM = 2"

record aggregation_key =
  ak_cat_id :: w32
  ak_name_id :: w32
  ak_hhash_id :: w32
  ak_fhash_inline :: bool
  ak_pid :: w64
  ak_tid :: w64
  ak_fhash :: w64
  ak_time_bucket :: w64
  ak_extra_keys :: "(w32 \<times> w32) list option"

section \<open>Equality and hashing\<close>

definition has_extra :: "aggregation_key \<Rightarrow> bool" where
  "has_extra k \<longleftrightarrow> ak_extra_keys k \<noteq> None \<and> ak_extra_keys k \<noteq> Some []"

definition key_equal :: "aggregation_key \<Rightarrow> aggregation_key \<Rightarrow> bool" where
  "key_equal a b \<longleftrightarrow>
     (if ak_cat_id a \<noteq> ak_cat_id b \<or> ak_name_id a \<noteq> ak_name_id b \<or> ak_pid a \<noteq> ak_pid b \<or> ak_tid a \<noteq> ak_tid b
         \<or> ak_hhash_id a \<noteq> ak_hhash_id b \<or> ak_fhash a \<noteq> ak_fhash b
         \<or> ak_fhash_inline a \<noteq> ak_fhash_inline b \<or> ak_time_bucket a \<noteq> ak_time_bucket b then False
      else if has_extra a \<noteq> has_extra b then False
      else if \<not> has_extra a then True
      else if length (the (ak_extra_keys a)) \<noteq> length (the (ak_extra_keys b)) then False
      else list_all (\<lambda>kv. kv \<in> set (the (ak_extra_keys b))) (the (ak_extra_keys a)))"

definition key_mix :: "w64 \<Rightarrow> w64 \<Rightarrow> w64" where "key_mix h v = (h XOR v) * FNV1A_PRIME"

definition key_hash :: "aggregation_key \<Rightarrow> w64" where
  "key_hash k =
     (let h = foldl key_mix FNV1A_OFFSET_BASIS
           [ucast (ak_cat_id k), ucast (ak_name_id k), ak_pid k, ak_tid k, ucast (ak_hhash_id k), ak_fhash k,
            ak_time_bucket k]
      in case ak_extra_keys k of None \<Rightarrow> h
         | Some es \<Rightarrow> foldl (\<lambda>h (a, b). key_mix (key_mix h (ucast a)) (ucast b)) h es)"

section \<open>Hexadecimal hashes\<close>

definition HEX64_DIGITS :: nat where "HEX64_DIGITS = 16"

definition hex_digit_val :: "char \<Rightarrow> nat option" where
  "hex_digit_val c =
     (if is_digit c then Some (code_of c - 48)
      else if 97 \<le> code_of c \<and> code_of c \<le> 102 then Some (code_of c - 87) else None)"

fun hex_digits :: "w64 \<Rightarrow> string \<Rightarrow> w64 option" where
  "hex_digits v [] = Some v"
| "hex_digits v (c # cs) =
     (case hex_digit_val c of None \<Rightarrow> None | Some d \<Rightarrow> hex_digits (push_bit 4 v OR of_nat d) cs)"

definition parse_hex64 :: "string \<Rightarrow> w64 option" where
  "parse_hex64 s = (if length s \<noteq> HEX64_DIGITS then None else hex_digits 0 s)"

definition hex_digit :: "nat \<Rightarrow> char" where
  "hex_digit d = char_of (if d < 10 then 48 + d else 87 + d)"

text \<open>The loop writes the digits from the last to the first.\<close>

fun format_digits :: "nat \<Rightarrow> w64 \<Rightarrow> string" where
  "format_digits 0 v = []"
| "format_digits (Suc n) v = format_digits n (drop_bit 4 v) @ [hex_digit (unat (v AND 0xF))]"

definition format_hex64 :: "w64 \<Rightarrow> string" where "format_hex64 v = format_digits HEX64_DIGITS v"

section \<open>Shards\<close>

definition AGG_KEY_NUM_SHARDS :: w64 where "AGG_KEY_NUM_SHARDS = 4096"

definition hash_bytes :: "w64 \<Rightarrow> bytes \<Rightarrow> w64" where
  "hash_bytes h bs = foldl (\<lambda>h b. (h XOR ucast b) * FNV1A_PRIME) h bs"

definition shard_of :: "string \<Rightarrow> string \<Rightarrow> w64 \<Rightarrow> w64 \<Rightarrow> 16 word" where
  "shard_of cat name pid tid =
     ucast (hash_bytes FNV1A_OFFSET_BASIS (text_bytes cat @ text_bytes name @ write_le 8 pid @ write_le 8 tid)
            mod AGG_KEY_NUM_SHARDS)"

text \<open>The thread's memory of its last call; \<open>None\<close> is the impossible length that marks it empty.\<close>

record shard_cache =
  sc_texts :: "(string \<times> string) option"
  sc_pid :: w64
  sc_tid :: w64
  sc_shard :: "16 word"

definition shard_cache_empty :: shard_cache where
  "shard_cache_empty = \<lparr>sc_texts = None, sc_pid = 0, sc_tid = 0, sc_shard = 0\<rparr>"

definition compute_shard ::
    "string \<Rightarrow> string \<Rightarrow> w64 \<Rightarrow> w64 \<Rightarrow> shard_cache \<Rightarrow> 16 word \<times> shard_cache" where
  "compute_shard cat name pid tid c =
     (if sc_texts c = Some (cat, name) \<and> pid = sc_pid c \<and> tid = sc_tid c then (sc_shard c, c)
      else let shard = shard_of cat name pid tid
           in (shard,
               if length cat \<le> 64 \<and> length name \<le> 64
               then \<lparr>sc_texts = Some (cat, name), sc_pid = pid, sc_tid = tid, sc_shard = shard\<rparr>
               else c\<lparr>sc_texts := None\<rparr>))"

section \<open>Writing keys\<close>

definition AGG_KEY_FHASH_INLINE :: w8 where "AGG_KEY_FHASH_INLINE = 0x80"

definition put_extra :: "w32 \<times> w32 \<Rightarrow> bytes" where
  "put_extra e = put_varint (ucast (fst e)) @ put_varint (ucast (snd e))"

definition extra_list :: "aggregation_key \<Rightarrow> (w32 \<times> w32) list" where
  "extra_list k = (case ak_extra_keys k of None \<Rightarrow> [] | Some es \<Rightarrow> es)"

text \<open>The bytes of a key after its shard; the number of extra pairs is cut to 16 bits.\<close>

definition put_agg_key :: "16 word \<Rightarrow> agg_map_type \<Rightarrow> aggregation_key \<Rightarrow> bytes" where
  "put_agg_key shard mt k =
     put_be16 shard
     @ put_u8 (mt OR (if ak_fhash_inline k then AGG_KEY_FHASH_INLINE else 0))
     @ put_varint (ucast (ak_cat_id k)) @ put_varint (ucast (ak_name_id k))
     @ put_varint (ak_pid k) @ put_varint (ak_tid k) @ put_varint (ucast (ak_hhash_id k))
     @ (if ak_fhash_inline k then put_be64 (ak_fhash k) else put_varint (ak_fhash k))
     @ put_varint (ak_time_bucket k)
     @ put_be16 (of_nat (length (extra_list k)))
     @ concat (map put_extra (extra_list k))"

definition serialize_agg_key ::
    "intern \<Rightarrow> agg_map_type \<Rightarrow> aggregation_key \<Rightarrow> shard_cache \<Rightarrow> intern_error + bytes \<times> shard_cache" where
  "serialize_agg_key t mt k c =
     ebind (intern_resolve t (unat (ak_cat_id k))) (\<lambda>cat.
     ebind (intern_resolve t (unat (ak_name_id k))) (\<lambda>name.
       let (shard, c') = compute_shard cat name (ak_pid k) (ak_tid k) c
       in Inr (put_agg_key shard mt k, c')))"

section \<open>Reading keys\<close>

definition get_extra :: "bytes \<Rightarrow> ((w32 \<times> w32) \<times> bytes) option" where
  "get_extra bs = map_option (\<lambda>((k, v), r). ((ucast k, ucast v), r)) (get_pair get_varint get_varint bs)"

definition deserialize_agg_key :: "bytes \<Rightarrow> (agg_map_type \<times> aggregation_key) option" where
  "deserialize_agg_key bs =
     (case get_be16 bs of None \<Rightarrow> None | Some (shard, r0) \<Rightarrow>
      (case get_u8 r0 of None \<Rightarrow> None | Some (tb, r1) \<Rightarrow>
      (case get_many get_varint 5 r1 of None \<Rightarrow> None | Some (vs, r2) \<Rightarrow>
        let inline = (tb AND AGG_KEY_FHASH_INLINE \<noteq> 0)
        in case (if inline then get_be64 r2 else get_varint r2) of None \<Rightarrow> None | Some (fh, r3) \<Rightarrow>
      (case get_varint r3 of None \<Rightarrow> None | Some (bucket, r4) \<Rightarrow>
      (case get_be16 r4 of None \<Rightarrow> None | Some (n, r5) \<Rightarrow>
      (case get_many get_extra (unat n) r5 of None \<Rightarrow> None | Some (es, r6) \<Rightarrow>
        Some (tb AND NOT AGG_KEY_FHASH_INLINE,
          \<lparr>ak_cat_id = ucast (vs ! 0), ak_name_id = ucast (vs ! 1), ak_hhash_id = ucast (vs ! 4),
           ak_fhash_inline = inline, ak_pid = vs ! 2, ak_tid = vs ! 3, ak_fhash = fh, ak_time_bucket = bucket,
           ak_extra_keys = (if n = 0 then None else Some es)\<rparr>)))))))"

section \<open>The view of a key\<close>

record agg_key_view =
  kv_map_type :: agg_map_type
  kv_cat :: string
  kv_name :: string
  kv_pid :: w64
  kv_tid :: w64
  kv_hhash :: string
  kv_fhash :: w64
  kv_fhash_inline :: bool
  kv_fhash_str :: string
  kv_time_bucket :: w64
  kv_extra_keys :: "(string \<times> string) list"

text \<open>The bounded decoder stops quietly at the end of the buffer.\<close>

fun view_varint_from :: "w64 \<Rightarrow> nat \<Rightarrow> bytes \<Rightarrow> w64 \<times> bytes" where
  "view_varint_from v sh [] = (v, [])"
| "view_varint_from v sh (b # r) =
     (let v' = v OR push_bit sh (ucast (b AND 0x7F))
      in if b AND 0x80 = 0 then (v', r) else view_varint_from v' (sh + 7) r)"

definition view_varint :: "bytes \<Rightarrow> w64 \<times> bytes" where "view_varint bs = view_varint_from 0 0 bs"

fun decode_extra :: "intern \<Rightarrow> nat \<Rightarrow> bytes \<Rightarrow> intern_error + (string \<times> string) list" where
  "decode_extra t 0 bs = Inr []"
| "decode_extra t (Suc n) bs =
     (if bs = [] then Inr []
      else let (k, r1) = view_varint bs; (v, r2) = view_varint r1
           in ebind (intern_resolve t (unat (ucast k :: w32))) (\<lambda>ks.
              ebind (intern_resolve t (unat (ucast v :: w32))) (\<lambda>vs.
              ebind (decode_extra t n r2) (\<lambda>es. Inr ((ks, vs) # es)))))"

definition id_text :: "intern \<Rightarrow> w32 \<Rightarrow> intern_error + string" where
  "id_text t i = (if i = 0 then Inr [] else intern_resolve t (unat i))"

text \<open>\<open>None\<close> is the result false; the table may throw for an id out of its range.\<close>

definition parse_agg_key_view :: "bytes \<Rightarrow> intern \<Rightarrow> bool \<Rightarrow> (intern_error + agg_key_view) option" where
  "parse_agg_key_view bs t want_extra =
     (if length bs < 6 then None
      else let tb = bs ! 2; inline = (tb AND AGG_KEY_FHASH_INLINE \<noteq> 0); r0 = drop 3 bs;
               (cat, r1) = view_varint r0; (name, r2) = view_varint r1; (pid, r3) = view_varint r2;
               (tid, r4) = view_varint r3; (hh, r5) = view_varint r4
           in if inline \<and> length r5 < 8 then None
              else let (fh, r6) = (if inline then (be_value (take 8 r5), drop 8 r5) else view_varint r5);
                       (bucket, r7) = view_varint r6
                   in Some
                     (ebind (if inline \<or> fh = 0 then Inr [] else intern_resolve t (unat (ucast fh :: w32))) (\<lambda>fs.
                      ebind (if want_extra \<and> 2 \<le> length r7
                             then decode_extra t (unat (be_value (take 2 r7))) (drop 2 r7) else Inr []) (\<lambda>es.
                      ebind (intern_resolve t (unat (ucast cat :: w32))) (\<lambda>cs.
                      ebind (intern_resolve t (unat (ucast name :: w32))) (\<lambda>ns.
                      ebind (id_text t (ucast hh)) (\<lambda>hs.
                        Inr \<lparr>kv_map_type = tb AND NOT AGG_KEY_FHASH_INLINE, kv_cat = cs, kv_name = ns,
                             kv_pid = pid, kv_tid = tid, kv_hhash = hs, kv_fhash = fh, kv_fhash_inline = inline,
                             kv_fhash_str = fs, kv_time_bucket = bucket, kv_extra_keys = es\<rparr>)))))))"

definition fhash_text :: "agg_key_view \<Rightarrow> string" where
  "fhash_text kv =
     (if \<not> kv_fhash_inline kv then kv_fhash_str kv
      else if kv_fhash kv = 0 then [] else format_hex64 (kv_fhash kv))"

definition key_fhash_str :: "aggregation_key \<Rightarrow> intern \<Rightarrow> intern_error + string" where
  "key_fhash_str k t =
     (if \<not> ak_fhash_inline k then (if ak_fhash k = 0 then Inr [] else intern_resolve t (unat (ucast (ak_fhash k) :: w32)))
      else if ak_fhash k = 0 then Inr [] else Inr (format_hex64 (ak_fhash k)))"

section \<open>Building keys from an event\<close>

text \<open>\<open>put\<close> is the table's \<^verbatim>\<open>get_or_insert\<close>; an empty text has id zero and is not interned.\<close>

definition intern_opt ::
    "(string \<Rightarrow> 't \<Rightarrow> 'e + nat \<times> 't) \<Rightarrow> string \<Rightarrow> 't \<Rightarrow> 'e + w32 \<times> 't" where
  "intern_opt put s t = (if s = [] then Inr (0, t) else ebind (put s t) (\<lambda>(i, t'). Inr (of_nat i, t')))"

fun intern_pairs ::
    "(string \<Rightarrow> 't \<Rightarrow> 'e + nat \<times> 't) \<Rightarrow> (string \<times> string) list \<Rightarrow> 't \<Rightarrow> 'e + (w32 \<times> w32) list \<times> 't" where
  "intern_pairs put [] t = Inr ([], t)"
| "intern_pairs put ((k, v) # kvs) t =
     ebind (put k t) (\<lambda>(i, t1).
     ebind (put v t1) (\<lambda>(j, t2).
     ebind (intern_pairs put kvs t2) (\<lambda>(es, t3). Inr ((of_nat i, of_nat j) # es, t3))))"

text \<open>
  The overload that interns the texts of an event as it writes them; the key it writes is the
  record the other overload would.
\<close>

definition key_of_texts ::
    "string \<Rightarrow> string \<Rightarrow> w64 \<Rightarrow> w64 \<Rightarrow> string \<Rightarrow> string \<Rightarrow> w64 \<Rightarrow> (string \<times> string) list option \<Rightarrow> intern
       \<Rightarrow> intern_error + aggregation_key \<times> intern" where
  "key_of_texts cat name pid tid hhash fhash bucket extra t =
     ebind (get_or_insert cat t) (\<lambda>(ci, t1).
     ebind (get_or_insert name t1) (\<lambda>(ni, t2).
     ebind (intern_opt get_or_insert hhash t2) (\<lambda>(hi, t3).
     ebind (case parse_hex64 fhash of
              Some v \<Rightarrow> Inr (v, t3)
            | None \<Rightarrow> ebind (intern_opt get_or_insert fhash t3) (\<lambda>(i, t'). Inr (ucast i, t'))) (\<lambda>(fv, t4).
     ebind (intern_pairs get_or_insert (case extra of None \<Rightarrow> [] | Some kvs \<Rightarrow> kvs) t4) (\<lambda>(es, t5).
       Inr (\<lparr>ak_cat_id = of_nat ci, ak_name_id = of_nat ni, ak_hhash_id = hi,
             ak_fhash_inline = (parse_hex64 fhash \<noteq> None), ak_pid = pid, ak_tid = tid, ak_fhash = fv,
             ak_time_bucket = bucket, ak_extra_keys = map_option (\<lambda>_. es) extra\<rparr>, t5))))))"

definition serialize_texts ::
    "agg_map_type \<Rightarrow> string \<Rightarrow> string \<Rightarrow> w64 \<Rightarrow> w64 \<Rightarrow> string \<Rightarrow> string \<Rightarrow> w64 \<Rightarrow> (string \<times> string) list option
       \<Rightarrow> intern \<Rightarrow> shard_cache \<Rightarrow> intern_error + bytes \<times> intern \<times> shard_cache" where
  "serialize_texts mt cat name pid tid hhash fhash bucket extra t c =
     (let (shard, c') = compute_shard cat name pid tid c
      in ebind (key_of_texts cat name pid tid hhash fhash bucket extra t) (\<lambda>(k, t').
           Inr (put_agg_key shard mt k, t', c')))"

definition compute_time_bucket :: "w64 \<Rightarrow> w64 \<Rightarrow> bool \<Rightarrow> w64 \<Rightarrow> w64 \<Rightarrow> w64" where
  "compute_time_bucket ts dur relative reference interval =
     (let mid = ts + dur div 2; mid = (if relative then mid - reference else mid)
      in if interval = 0 then mid else (mid div interval) * interval)"

section \<open>Hexadecimal hashes: lemmas\<close>

lemma bit_F: "bit (0xF :: w64) n \<longleftrightarrow> n < 4"
proof -
  have "(0xF :: w64) = Bit_Operations.mask 4" by (simp add: mask_eq_exp_minus_1)
  then show ?thesis by (auto simp only: bit_mask_iff) simp_all
qed

lemma nibble_less: "unat (v AND 0xF :: w64) < 16"
proof -
  have "v AND 0xF = take_bit 4 v" by (simp add: take_bit_eq_mask mask_eq_exp_minus_1)
  then show ?thesis using take_bit_nat_less_exp [of 4 "unat v"] by (simp add: unsigned_take_bit_eq)
qed

lemma hex_digit_val_digit: "d < 16 \<Longrightarrow> hex_digit_val (hex_digit d) = Some d"
  by (auto simp: hex_digit_val_def hex_digit_def is_digit_def code_of_def)

lemma hex_digit_val_Some: "hex_digit_val c = Some d \<Longrightarrow> d < 16 \<and> hex_digit d = c"
  by (auto simp: hex_digit_val_def hex_digit_def is_digit_def code_of_def split: if_splits)

lemma hex_digits_append:
  "hex_digits v (xs @ ys) = (case hex_digits v xs of None \<Rightarrow> None | Some w \<Rightarrow> hex_digits w ys)"
  by (induction v xs rule: hex_digits.induct) (auto split: option.splits)

lemma nibble_join: "push_bit 4 (drop_bit 4 v) OR (v AND 0xF) = (v :: w64)"
  by (rule bit_word_eqI) (simp only: bit_or_iff bit_push_bit_iff bit_drop_bit_eq bit_and_iff bit_F o_def, auto)

lemma hex_digits_format:
  "hex_digits u (format_digits n v) = Some (push_bit (4 * n) u OR take_bit (4 * n) v)"
proof (induction n arbitrary: v)
  case (Suc n)
  have "push_bit 4 (push_bit (4 * n) u OR take_bit (4 * n) (drop_bit 4 v)) OR (v AND 0xF)
      = push_bit (4 * Suc n) u OR take_bit (4 * Suc n) v"
  proof (rule bit_word_eqI)
    fix m assume m: "m < LENGTH(64)"
    consider "m < 4" | k where "m = 4 + k" by (metis le_Suc_ex not_less)
    then show "bit (push_bit 4 (push_bit (4 * n) u OR take_bit (4 * n) (drop_bit 4 v)) OR (v AND 0xF)) m
        = bit (push_bit (4 * Suc n) u OR take_bit (4 * Suc n) v) m"
      using m
      by cases (simp_all only: bit_or_iff bit_push_bit_iff bit_take_bit_iff bit_drop_bit_eq bit_and_iff bit_F o_def, auto)
  qed
  then show ?case
    using Suc.IH [of "drop_bit 4 v"]
    by (simp add: hex_digits_append hex_digit_val_digit [OF nibble_less])
qed simp

lemma length_format_digits [simp]: "length (format_digits n v) = n"
  by (induction n arbitrary: v) auto

lemma parse_format_hex64: "parse_hex64 (format_hex64 v) = Some v"
proof -
  have "take_bit 64 v = v" by (rule bit_word_eqI) (simp add: bit_take_bit_iff)
  then show ?thesis by (simp add: parse_hex64_def format_hex64_def HEX64_DIGITS_def hex_digits_format)
qed


lemma format_digits_low: "4 * n \<le> k \<Longrightarrow> format_digits n (take_bit k v) = format_digits n v"
proof (induction n arbitrary: k v)
  case (Suc n)
  have "take_bit k v AND 0xF = v AND 0xF"
    using Suc.prems by (intro bit_word_eqI) (simp only: bit_and_iff bit_take_bit_iff bit_F, auto)
  moreover have "drop_bit 4 (take_bit k v) = take_bit (k - 4) (drop_bit 4 v)" by (simp add: drop_bit_take_bit)
  moreover have "4 * n \<le> k - 4" using Suc.prems by simp
  ultimately show ?case using Suc.IH [of "k - 4" "drop_bit 4 v"] by simp
qed simp

lemma nibble_push:
  assumes "d < 16"
  shows "(push_bit 4 w OR of_nat d) AND 0xF = (of_nat d :: w64)"
    and "drop_bit 4 (push_bit 4 w OR of_nat d) = take_bit 60 (w :: w64)"
proof -
  have d: "\<not> bit (of_nat d :: w64) n" if "4 \<le> n" for n
  proof -
    have "d < 2 ^ n" using assms that power_increasing [of 4 n "2 :: nat"] by simp
    then have "\<not> bit d n" by (simp add: bit_iff_odd)
    then show ?thesis by (simp only: bit_of_nat_iff) simp
  qed
  show "(push_bit 4 w OR of_nat d) AND 0xF = (of_nat d :: w64)"
  proof (rule bit_word_eqI)
    fix n assume "n < LENGTH(64)"
    then show "bit ((push_bit 4 w OR of_nat d) AND 0xF) n = bit (of_nat d :: w64) n"
      using d [of n] by (cases "n < 4") (simp_all only: bit_and_iff bit_or_iff bit_push_bit_iff bit_F, auto)
  qed
  show "drop_bit 4 (push_bit 4 w OR of_nat d) = take_bit 60 w"
  proof (rule bit_word_eqI)
    fix n assume "n < LENGTH(64)"
    then show "bit (drop_bit 4 (push_bit 4 w OR of_nat d)) n = bit (take_bit 60 w) n"
      using d [of "4 + n"] bit_imp_le_length [of w n]
      by (simp only: bit_drop_bit_eq bit_or_iff bit_push_bit_iff bit_take_bit_iff o_def) auto
  qed
qed

lemma format_hex_digits:
  "hex_digits u cs = Some v \<Longrightarrow> length cs \<le> 16 \<Longrightarrow> format_digits (length cs) v = cs"
proof (induction cs arbitrary: v rule: rev_induct)
  case (snoc c cs)
  then obtain w d where w: "hex_digits u cs = Some w" "hex_digit_val c = Some d" "v = push_bit 4 w OR of_nat d"
    by (auto simp: hex_digits_append split: option.splits)
  note d = hex_digit_val_Some [OF w(2)]
  have "unat (of_nat d :: w64) = d" using d by (simp add: unat_of_nat take_bit_nat_eq_self)
  moreover have "format_digits (length cs) (take_bit 60 w) = cs"
    using snoc w(1) by (simp add: format_digits_low)
  ultimately show ?case using nibble_push [of d w] d by (simp add: w(3))
qed simp

lemma format_parse_hex64: "parse_hex64 s = Some v \<Longrightarrow> format_hex64 v = s"
  using format_hex_digits [of 0 s v] by (auto simp: parse_hex64_def format_hex64_def HEX64_DIGITS_def split: if_splits)

section \<open>Shards: the memory of the last call\<close>

definition cache_ok :: "shard_cache \<Rightarrow> bool" where
  "cache_ok c \<longleftrightarrow> (\<forall>cat name. sc_texts c = Some (cat, name) \<longrightarrow> sc_shard c = shard_of cat name (sc_pid c) (sc_tid c))"

lemma compute_shard_ok:
  "cache_ok c \<Longrightarrow> compute_shard cat name pid tid c = (sh, c') \<Longrightarrow> sh = shard_of cat name pid tid \<and> cache_ok c'"
  by (auto simp: compute_shard_def cache_ok_def Let_def split: if_splits)

section \<open>Keys read back\<close>

definition extra_ok :: "aggregation_key \<Rightarrow> bool" where "extra_ok k \<longleftrightarrow> length (extra_list k) < 2 ^ 16"

lemma extra_codec: "prefix_codec put_extra get_extra (\<lambda>_. True)"
proof
  fix a :: "w32 \<times> w32" and r
  have u: "ucast (ucast (v :: w32) :: w64) = v" for v
    by (rule bit_word_eqI) (simp add: bit_ucast_iff)
  show "get_extra (put_extra a @ r) = Some (a, r)"
    by (simp add: get_extra_def get_pair_def put_extra_def varint.get_put u)
qed

interpretation extra: prefix_codec put_extra get_extra "\<lambda>_. True" by (rule extra_codec)

lemma type_byte:
  assumes "mt AND 0x80 = 0"
  shows "(mt OR (if b then AGG_KEY_FHASH_INLINE else 0)) AND AGG_KEY_FHASH_INLINE \<noteq> 0 \<longleftrightarrow> b"
    and "(mt OR (if b then AGG_KEY_FHASH_INLINE else 0)) AND NOT AGG_KEY_FHASH_INLINE = mt"
proof -
  have m: "\<not> bit mt 7" using assms by (metis bit_7F(2) bit_and_iff bit_0_eq bot_apply bot_bool_def)
  have z: "(x :: w8) \<noteq> 0" if "bit x 7" for x using that by (metis bit_0_eq bot_apply bot_bool_def)
  show "(mt OR (if b then AGG_KEY_FHASH_INLINE else 0)) AND AGG_KEY_FHASH_INLINE \<noteq> 0 \<longleftrightarrow> b"
  proof (cases b)
    case True
    have "bit ((mt OR 0x80) AND 0x80) 7" by (simp only: bit_or_iff bit_and_iff bit_7F) simp
    then show ?thesis using True z by (simp add: AGG_KEY_FHASH_INLINE_def)
  qed (use assms in \<open>simp add: AGG_KEY_FHASH_INLINE_def\<close>)
  have "(mt OR x) AND NOT 0x80 = mt" if "x = 0 \<or> x = (0x80 :: w8)" for x
    using that m
    by (intro bit_word_eqI)
       (simp only: bit_or_iff bit_and_iff bit_not_iff bit_7F possible_bit_word, auto simp only: bit_7F bit_0_eq bot_apply bot_bool_def)
  then show "(mt OR (if b then AGG_KEY_FHASH_INLINE else 0)) AND NOT AGG_KEY_FHASH_INLINE = mt"
    by (auto simp: AGG_KEY_FHASH_INLINE_def)
qed

lemma varints: "get_many get_varint 5 (put_varint a @ put_varint b @ put_varint c @ put_varint d @ put_varint e @ r)
    = Some ([a, b, c, d, e], r)"
  using varint.many [of "[a, b, c, d, e]" r] by (simp add: eval_nat_numeral)

lemma ucast_up_down: "ucast (ucast (v :: w32) :: w64) = v"
  by (rule bit_word_eqI) (simp add: bit_ucast_iff)

lemma deserialize_put:
  assumes "mt AND 0x80 = 0" and "extra_ok k"
  shows "deserialize_agg_key (put_agg_key shard mt k @ r)
       = Some (mt, k\<lparr>ak_extra_keys := (if extra_list k = [] then None else ak_extra_keys k)\<rparr>)"
proof -
  let ?n = "of_nat (length (extra_list k)) :: 16 word"
  have n: "unat ?n = length (extra_list k)" using assms(2) by (simp add: extra_ok_def unat_of_nat take_bit_nat_eq_self)
  then have n0: "?n = 0 \<longleftrightarrow> extra_list k = []" by (metis length_0_conv unat_eq_zero)
  have es: "extra_list k \<noteq> [] \<Longrightarrow> Some (extra_list k) = ak_extra_keys k"
    by (auto simp: extra_list_def split: option.splits)
  have f: "(if ak_fhash_inline k
        then get_be64 ((if ak_fhash_inline k then put_be64 (ak_fhash k) else put_varint (ak_fhash k)) @ x)
        else get_varint ((if ak_fhash_inline k then put_be64 (ak_fhash k) else put_varint (ak_fhash k)) @ x))
      = Some (ak_fhash k, x)" for x
    by (simp add: be64.get_put varint.get_put)
  have m: "get_many get_extra (unat ?n) (concat (map put_extra (extra_list k)) @ r) = Some (extra_list k, r)"
    unfolding n by (rule extra.many) simp
  show ?thesis
    unfolding deserialize_agg_key_def put_agg_key_def
    by (simp add: be16.get_put u8.get_put varints type_byte [OF assms(1)] f m varint.get_put Let_def ucast_up_down n0 es
        del: of_nat_eq_0_iff)
qed

section \<open>The lenient decoder\<close>

lemma view_varint_strict: "varint_from v sh bs = Some p \<Longrightarrow> view_varint_from v sh bs = p"
  by (induction v sh bs rule: varint_from.induct) (auto simp: Let_def split: if_splits)

lemma view_varint_put [simp]: "view_varint (put_varint v @ r) = (v, r)"
  using view_varint_strict [of 0 0 "put_varint v @ r"] by (simp add: view_varint_def varint_from_put)

lemma put_varint_ne [simp]: "put_varint v \<noteq> []"
  by (subst put_varint.simps) simp

lemma put_varint_pos: "1 \<le> length (put_varint v)"
  by (cases "put_varint v") simp_all

definition resolve_pair :: "intern \<Rightarrow> w32 \<times> w32 \<Rightarrow> string \<times> string \<Rightarrow> bool" where
  "resolve_pair t e kv \<longleftrightarrow> intern_resolve t (unat (fst e)) = Inr (fst kv) \<and> intern_resolve t (unat (snd e)) = Inr (snd kv)"

lemma decode_extra_put:
  "list_all2 (resolve_pair t) es kvs \<Longrightarrow>
   decode_extra t (length es) (concat (map put_extra es) @ r) = Inr kvs"
proof (induction es kvs rule: list_all2_induct)
  case (Cons e es kv kvs)
  then show ?case by (simp add: put_extra_def resolve_pair_def ucast_up_down)
qed simp

lemma view_put:
  assumes mt: "mt AND 0x80 = 0" and ex: "extra_ok k"
    and cat: "intern_resolve t (unat (ak_cat_id k)) = Inr cs" and name: "intern_resolve t (unat (ak_name_id k)) = Inr ns"
    and hh: "id_text t (ak_hhash_id k) = Inr hs"
    and fh: "(if ak_fhash_inline k \<or> ak_fhash k = 0 then Inr [] else intern_resolve t (unat (ucast (ak_fhash k) :: w32))) = Inr fs"
    and es: "list_all2 (resolve_pair t) (extra_list k) kvs"
  shows "parse_agg_key_view (put_agg_key shard mt k) t True
    = Some (Inr \<lparr>kv_map_type = mt, kv_cat = cs, kv_name = ns, kv_pid = ak_pid k, kv_tid = ak_tid k, kv_hhash = hs,
        kv_fhash = ak_fhash k, kv_fhash_inline = ak_fhash_inline k, kv_fhash_str = fs,
        kv_time_bucket = ak_time_bucket k, kv_extra_keys = kvs\<rparr>)"
proof -
  let ?tb = "mt OR (if ak_fhash_inline k then AGG_KEY_FHASH_INLINE else 0)"
  define tail where "tail = put_be16 (of_nat (length (extra_list k))) @ concat (map put_extra (extra_list k))"
  define r5 where "r5 = (if ak_fhash_inline k then put_be64 (ak_fhash k) else put_varint (ak_fhash k))
      @ put_varint (ak_time_bucket k) @ tail"
  define r0 where "r0 = put_varint (ucast (ak_cat_id k)) @ put_varint (ucast (ak_name_id k)) @ put_varint (ak_pid k)
      @ put_varint (ak_tid k) @ put_varint (ucast (ak_hhash_id k)) @ r5"
  have bs: "put_agg_key shard mt k = put_be16 shard @ [?tb] @ r0"
    by (simp add: put_agg_key_def put_u8_def r0_def r5_def tail_def)
  have len: "\<not> length (put_agg_key shard mt k) < 6"
    using put_varint_pos [of "ucast (ak_cat_id k)"] put_varint_pos [of "ucast (ak_name_id k)"]
      put_varint_pos [of "ak_pid k"]
    by (simp add: bs r0_def)
  have at: "put_agg_key shard mt k ! 2 = ?tb" "drop 3 (put_agg_key shard mt k) = r0"
    by (simp_all add: bs nth_append)
  have r5: "\<not> (ak_fhash_inline k \<and> length r5 < 8)" by (simp add: r5_def)
  have f: "(if ak_fhash_inline k then (be_value (take 8 r5), drop 8 r5) else view_varint r5)
      = (ak_fhash k, put_varint (ak_time_bucket k) @ tail)"
    by (simp add: r5_def put_be64_def be_value_put_be take_bit_64)
  have n: "unat (be_value (take 2 tail)) = length (extra_list k)" "2 \<le> length tail"
    "drop 2 tail = concat (map put_extra (extra_list k))"
  proof -
    have "unat (ucast (of_nat (length (extra_list k)) :: 16 word) :: w64) = length (extra_list k)"
      using ex by (simp add: extra_ok_def unsigned_ucast_eq unat_of_nat take_bit_nat_eq_self)
    moreover have "take_bit 16 (ucast (x :: 16 word) :: w64) = ucast x" for x
      by (rule bit_word_eqI) (auto simp: bit_take_bit_iff bit_ucast_iff dest: bit_imp_le_length)
    ultimately show "unat (be_value (take 2 tail)) = length (extra_list k)"
      by (simp add: tail_def put_be16_def be_value_put_be)
  qed (simp_all add: tail_def)
  have d: "decode_extra t (length (extra_list k)) (concat (map put_extra (extra_list k))) = Inr kvs"
    using decode_extra_put [OF es, of "[]"] by simp
  show ?thesis
    unfolding parse_agg_key_view_def at Let_def if_not_P [OF len] type_byte [OF mt]
    by (simp add: r0_def if_not_P [OF r5] f n d ucast_up_down cat name hh fh del: if_image_distrib cong: if_cong)
qed

section \<open>The intern table the keys rely on\<close>

text \<open>
  What a writer of keys needs of the table it interns its texts in: an insertion names its text,
  and a name issued once stays.
\<close>

locale naming_table =
  fixes ok :: "'t \<Rightarrow> bool" and put :: "string \<Rightarrow> 't \<Rightarrow> 'e + nat \<times> 't"
    and names :: "'t \<Rightarrow> nat \<Rightarrow> string \<Rightarrow> bool" and grows :: "'t \<Rightarrow> 't \<Rightarrow> bool"
  assumes put_names: "ok t \<Longrightarrow> put s t = Inr (i, t') \<Longrightarrow> ok t' \<and> grows t t' \<and> names t' i s"
    and grows_names: "grows t t' \<Longrightarrow> names t i s \<Longrightarrow> names t' i s"
    and grows_refl: "grows t t"
    and grows_trans: "grows t u \<Longrightarrow> grows u v \<Longrightarrow> grows t v"
begin

definition text_id :: "'t \<Rightarrow> w32 \<Rightarrow> string \<Rightarrow> bool" where
  "text_id t i s \<longleftrightarrow> (\<exists>j. i = of_nat j \<and> names t j s)"

lemma text_id_grows: "grows t u \<Longrightarrow> text_id t i s \<Longrightarrow> text_id u i s"
  by (auto simp: text_id_def intro: grows_names)

lemma put_text: "ok t \<Longrightarrow> put s t = Inr (i, t') \<Longrightarrow> ok t' \<and> grows t t' \<and> text_id t' (of_nat i) s"
  using put_names by (auto simp: text_id_def)

lemma intern_opt_text:
  "ok t \<Longrightarrow> intern_opt put s t = Inr (i, t') \<Longrightarrow>
   ok t' \<and> grows t t' \<and> (if s = [] then i = 0 else text_id t' i s)"
  by (auto simp: intern_opt_def ebind_Inr_conv grows_refl split: if_splits prod.splits dest: put_text)

lemma intern_pairs_text:
  "ok t \<Longrightarrow> intern_pairs put kvs t = Inr (es, t') \<Longrightarrow>
   ok t' \<and> grows t t' \<and> list_all2 (\<lambda>e kv. text_id t' (fst e) (fst kv) \<and> text_id t' (snd e) (snd kv)) es kvs"
proof (induction kvs arbitrary: t es)
  case (Cons kv kvs)
  obtain k v where kv: "kv = (k, v)" by (cases kv)
  from Cons.prems(2) obtain i t1 j t2 es' where
      k: "put k t = Inr (i, t1)" and v: "put v t1 = Inr (j, t2)" and r: "intern_pairs put kvs t2 = Inr (es', t')"
      and es: "es = (of_nat i, of_nat j) # es'"
    by (auto simp: kv ebind_Inr_conv split: prod.splits)
  note K = put_text [OF Cons.prems(1) k]
  note V = put_text [OF K [THEN conjunct1] v]
  note R = Cons.IH [OF V [THEN conjunct1] r]
  have "grows t t'" using K V R grows_trans by blast
  moreover have "text_id t' (of_nat i) k" "text_id t' (of_nat j) v" using K V R text_id_grows by blast+
  ultimately show ?case using R by (simp add: es kv)
qed (simp add: grows_refl)

end

interpretation interned: naming_table intern_ok get_or_insert "\<lambda>t i s. slot_value t i = Some s" extends
proof
  fix s t i t'
  assume "intern_ok t" "get_or_insert s t = Inr (i, t')"
  then show "intern_ok t' \<and> extends t t' \<and> slot_value t' i = Some s"
    using get_or_insert_ok [of t s] by (auto simp: holds_def)
next
  fix t t' i s
  assume "extends t t'" "slot_value t i = Some s"
  then show "slot_value t' i = Some s" by (fastforce simp: extends_def map_le_def dom_def)
qed (simp, rule extends_trans)

lemma text_id_resolve:
  assumes "interned.text_id t i s" shows "intern_resolve t (unat i) = Inr s"
proof -
  obtain j where j: "i = of_nat j" "slot_value t j = Some s" using assms by (auto simp: interned.text_id_def)
  then have "j < FAST_CAPACITY" by (auto simp: slot_value_def split: if_splits)
  moreover from this have "unat i = j"
    by (simp add: j(1) unat_of_nat FAST_CAPACITY_def take_bit_nat_eq_self)
  ultimately show ?thesis using j(2) by (simp add: intern_resolve_def)
qed

lemma text_id_zero: "interned.text_id t 0 s \<Longrightarrow> slot_value t 0 = Some s"
proof -
  assume "interned.text_id t 0 s"
  then obtain j where j: "(0 :: w32) = of_nat j" "slot_value t j = Some s" by (auto simp: interned.text_id_def)
  then have "j < 2 ^ 32" by (auto simp: slot_value_def FAST_CAPACITY_def split: if_splits)
  then have "unat (of_nat j :: w32) = j" by (simp add: unat_of_nat take_bit_nat_eq_self)
  then show ?thesis using j by (metis unat_0)
qed

text \<open>The key of an event's texts, in terms of a later state of the table.\<close>

lemma key_of_texts_ok:
  assumes ok: "intern_ok t"
    and k: "key_of_texts cat name pid tid hhash fhash bucket extra t = Inr (k, t')"
    and later: "extends t' u"
  shows "intern_ok t'" "interned.text_id u (ak_cat_id k) cat" "interned.text_id u (ak_name_id k) name"
    "if hhash = [] then ak_hhash_id k = 0 else interned.text_id u (ak_hhash_id k) hhash"
    "case parse_hex64 fhash of Some v \<Rightarrow> ak_fhash_inline k \<and> ak_fhash k = v
     | None \<Rightarrow> \<not> ak_fhash_inline k \<and> (\<exists>i. ak_fhash k = ucast i \<and> (if fhash = [] then i = 0 else interned.text_id u i fhash))"
    "ak_pid k = pid" "ak_tid k = tid" "ak_time_bucket k = bucket"
    "list_all2 (\<lambda>e kv. interned.text_id u (fst e) (fst kv) \<and> interned.text_id u (snd e) (snd kv))
       (extra_list k) (case extra of None \<Rightarrow> [] | Some kvs \<Rightarrow> kvs)"
proof -
  from k obtain ci t1 ni t2 hi t3 fv t4 es where
      c: "get_or_insert cat t = Inr (ci, t1)" and n: "get_or_insert name t1 = Inr (ni, t2)"
      and h: "intern_opt get_or_insert hhash t2 = Inr (hi, t3)"
      and f: "(case parse_hex64 fhash of Some v \<Rightarrow> Inr (v, t3)
            | None \<Rightarrow> ebind (intern_opt get_or_insert fhash t3) (\<lambda>(i, t'). Inr (ucast i, t'))) = Inr (fv, t4)"
      and e: "intern_pairs get_or_insert (case extra of None \<Rightarrow> [] | Some kvs \<Rightarrow> kvs) t4 = Inr (es, t')"
      and kk: "k = \<lparr>ak_cat_id = of_nat ci, ak_name_id = of_nat ni, ak_hhash_id = hi,
             ak_fhash_inline = (parse_hex64 fhash \<noteq> None), ak_pid = pid, ak_tid = tid, ak_fhash = fv,
             ak_time_bucket = bucket, ak_extra_keys = map_option (\<lambda>_. es) extra\<rparr>"
    unfolding key_of_texts_def by (auto simp: ebind_Inr_conv split: prod.splits)
  note C = interned.put_text [OF ok c]
  note N = interned.put_text [OF C [THEN conjunct1] n]
  note H = interned.intern_opt_text [OF N [THEN conjunct1] h]
  have F: "intern_ok t4 \<and> extends t3 t4 \<and> (case parse_hex64 fhash of Some v \<Rightarrow> fv = v
      | None \<Rightarrow> \<exists>i. fv = ucast i \<and> (if fhash = [] then i = 0 else interned.text_id t4 i fhash))"
  proof (cases "parse_hex64 fhash")
    case None
    then obtain i where i: "intern_opt get_or_insert fhash t3 = Inr (i, t4)" "fv = ucast i"
      using f by (auto simp: ebind_Inr_conv split: prod.splits)
    from interned.intern_opt_text [OF H [THEN conjunct1] i(1)] i(2) None show ?thesis
      by (cases "fhash = []") auto
  qed (use f H in auto)
  note E = interned.intern_pairs_text [OF F [THEN conjunct1] e]
  have to_u: "extends t1 u" "extends t2 u" "extends t3 u" "extends t4 u"
    using N H F E later extends_trans by blast+
  note up = interned.text_id_grows
  show "intern_ok t'" using E by blast
  show "interned.text_id u (ak_cat_id k) cat" using up [OF to_u(1)] C by (simp add: kk)
  show "interned.text_id u (ak_name_id k) name" using up [OF to_u(2)] N by (simp add: kk)
  show "if hhash = [] then ak_hhash_id k = 0 else interned.text_id u (ak_hhash_id k) hhash"
    using up [OF to_u(3)] H by (simp add: kk)
  show "case parse_hex64 fhash of Some v \<Rightarrow> ak_fhash_inline k \<and> ak_fhash k = v
     | None \<Rightarrow> \<not> ak_fhash_inline k \<and> (\<exists>i. ak_fhash k = ucast i \<and> (if fhash = [] then i = 0 else interned.text_id u i fhash))"
  proof (cases "parse_hex64 fhash")
    case None
    with F obtain i where i: "fv = ucast i" "if fhash = [] then i = 0 else interned.text_id t4 i fhash" by auto
    then have "if fhash = [] then i = 0 else interned.text_id u i fhash"
      using up [OF to_u(4)] by (cases "fhash = []") simp_all
    with i(1) None show ?thesis by (cases "fhash = []") (auto simp: kk)
  qed (use F in \<open>simp add: kk\<close>)
  show "ak_pid k = pid" "ak_tid k = tid" "ak_time_bucket k = bucket" by (simp_all add: kk)
  have "list_all2 (\<lambda>e kv. interned.text_id u (fst e) (fst kv) \<and> interned.text_id u (snd e) (snd kv)) es
      (case extra of None \<Rightarrow> [] | Some kvs \<Rightarrow> kvs)"
    using E up [OF later] by (auto elim!: list_all2_mono)
  then show "list_all2 (\<lambda>e kv. interned.text_id u (fst e) (fst kv) \<and> interned.text_id u (snd e) (snd kv))
       (extra_list k) (case extra of None \<Rightarrow> [] | Some kvs \<Rightarrow> kvs)"
    by (cases extra) (auto simp: kk extra_list_def)
qed

section \<open>Properties\<close>

text \<open>
  C29: what an event is grouped under can be read back from its key. The key written for an event's
  category, name, process, thread, host hash, file hash, time bucket and extra pairs is parsed,
  with the index's table as it is then or as it has become since, into exactly those texts and
  numbers. Three texts have no key of their own: a host or file hash that is the string with id
  zero, and the file hash of sixteen zeros, which all read as absent.
\<close>

theorem key_of_event_reads_back:
  assumes "intern_steps intern_new t" and "cache_ok c"
    and "serialize_texts mt cat name pid tid hhash fhash bucket extra t c = Inr (key, t', c')"
    and "intern_steps t' u"
    and "mt AND 0x80 = 0" and "length (case extra of None \<Rightarrow> [] | Some kvs \<Rightarrow> kvs) < 2 ^ 16"
    and "slot_value u 0 \<noteq> Some hhash" and "slot_value u 0 \<noteq> Some fhash" and "parse_hex64 fhash \<noteq> Some 0"
  shows "\<exists>kv. parse_agg_key_view key u True = Some (Inr kv)
    \<and> kv_map_type kv = mt \<and> kv_cat kv = cat \<and> kv_name kv = name \<and> kv_pid kv = pid \<and> kv_tid kv = tid
    \<and> kv_hhash kv = hhash \<and> fhash_text kv = fhash \<and> kv_time_bucket kv = bucket
    \<and> kv_extra_keys kv = (case extra of None \<Rightarrow> [] | Some kvs \<Rightarrow> kvs)"
proof -
  let ?kvs = "case extra of None \<Rightarrow> [] | Some kvs \<Rightarrow> kvs"
  obtain shard k where key: "key = put_agg_key shard mt k"
      and k: "key_of_texts cat name pid tid hhash fhash bucket extra t = Inr (k, t')"
    using assms(3) by (auto simp: serialize_texts_def ebind_Inr_conv Let_def split: prod.splits)
  have ok: "intern_ok t" using steps_ok [OF assms(1)] intern_new_ok by blast
  have ok': "intern_ok t'" using key_of_texts_ok(1) [OF ok k interned.grows_refl] .
  then have ext: "extends t' u" using steps_ok [OF assms(4)] by blast
  note K = key_of_texts_ok [OF ok k ext]
  have len: "length (extra_list k) = length ?kvs" using list_all2_lengthD [OF K(9)] .
  have es: "list_all2 (resolve_pair u) (extra_list k) ?kvs"
    using K(9) by (auto simp: resolve_pair_def text_id_resolve elim!: list_all2_mono)
  have hh: "id_text u (ak_hhash_id k) = Inr hhash"
    using K(4) assms(7) text_id_zero [of u hhash] by (auto simp: id_text_def text_id_resolve split: if_splits)
  define fs where "fs = (if ak_fhash_inline k \<or> ak_fhash k = 0 then [] else fhash)"
  have fh: "(if ak_fhash_inline k \<or> ak_fhash k = 0 then Inr [] else intern_resolve u (unat (ucast (ak_fhash k) :: w32))) = Inr fs"
    using K(5) by (auto simp: fs_def ucast_up_down text_id_resolve split: option.splits if_splits)
  have ft: "(if \<not> ak_fhash_inline k then fs else if ak_fhash k = 0 then [] else format_hex64 (ak_fhash k)) = fhash"
  proof (cases "parse_hex64 fhash")
    case None
    then obtain i where i: "\<not> ak_fhash_inline k" "ak_fhash k = ucast i"
        "if fhash = [] then i = 0 else interned.text_id u i fhash" using K(5) by auto
    have "ak_fhash k = 0 \<Longrightarrow> fhash = []"
    proof (rule ccontr)
      assume "ak_fhash k = 0" "fhash \<noteq> []"
      moreover from this have "i = 0" using i(2) ucast_up_down [of i] by simp
      ultimately show False using i(3) text_id_zero [of u fhash] assms(8) by simp
    qed
    with i(1) show ?thesis by (auto simp: fs_def)
  next
    case (Some v)
    with K(5) assms(9) show ?thesis by (auto simp: format_parse_hex64)
  qed
  show ?thesis
    unfolding key
    using view_put [OF assms(5) _ text_id_resolve [OF K(2)] text_id_resolve [OF K(3)] hh fh es, of shard] len assms(6) ft
    by (auto simp: extra_ok_def K(6,7,8) fhash_text_def split: if_splits)
qed


text \<open>
  C30: the record form of a key survives its bytes: any key with a legal map type and less than
  \<open>2 ^ 16\<close> extra pairs, whatever follows it in the buffer, is decoded to an equal key.
\<close>

theorem agg_key_roundtrip:
  assumes "mt AND 0x80 = 0" and "length (extra_list k) < 2 ^ 16"
  shows "\<exists>k'. deserialize_agg_key (put_agg_key shard mt k @ rest) = Some (mt, k') \<and> key_equal k k'"
proof -
  have "key_equal k (k\<lparr>ak_extra_keys := (if extra_list k = [] then None else ak_extra_keys k)\<rparr>)"
    by (auto simp: key_equal_def has_extra_def extra_list_def list_all_iff split: option.splits)
  moreover have "extra_ok k" using assms(2) by (simp add: extra_ok_def)
  ultimately show ?thesis using deserialize_put [OF assms(1), of k shard rest] by auto
qed

definition sample_key :: aggregation_key where
  "sample_key = \<lparr>ak_cat_id = 1, ak_name_id = 300, ak_hhash_id = 0, ak_fhash_inline = False, ak_pid = 7, ak_tid = 8,
     ak_fhash = 5, ak_time_bucket = 1000, ak_extra_keys = Some [(1, 2), (3, 4)]\<rparr>"

lemma agg_key_roundtrip_witness:
  "\<exists>k'. deserialize_agg_key (put_agg_key 9 AGG_PROFILE sample_key @ [0]) = Some (AGG_PROFILE, k') \<and> key_equal sample_key k'"
  by (rule agg_key_roundtrip) (simp_all add: AGG_PROFILE_def sample_key_def extra_list_def)

text \<open>Equal keys may hash differently, and equality is not symmetric when an extra pair repeats.\<close>

lemma equal_keys_hash_apart:
  "key_equal sample_key (sample_key\<lparr>ak_extra_keys := Some [(3, 4), (1, 2)]\<rparr>)
   \<and> key_hash sample_key \<noteq> key_hash (sample_key\<lparr>ak_extra_keys := Some [(3, 4), (1, 2)]\<rparr>)"
  by (simp add: key_equal_def sample_key_def has_extra_def key_hash_def key_mix_def FNV1A_OFFSET_BASIS_def
      FNV1A_PRIME_def)

lemma key_equal_asymmetric:
  "key_equal (sample_key\<lparr>ak_extra_keys := Some [(1, 2), (1, 2)]\<rparr>) sample_key
   \<and> \<not> key_equal sample_key (sample_key\<lparr>ak_extra_keys := Some [(1, 2), (1, 2)]\<rparr>)"
  by (simp add: key_equal_def sample_key_def has_extra_def)


lemma key_of_event_reads_back_witness:
  "\<exists>key t' c' kv.
     serialize_texts AGG_EVENT ''POSIX'' ''POSIX'' 1 2 [] [] 5 None intern_new shard_cache_empty = Inr (key, t', c')
     \<and> parse_agg_key_view key t' True = Some (Inr kv) \<and> kv_cat kv = ''POSIX'' \<and> kv_pid kv = 1 \<and> fhash_text kv = []"
proof -
  obtain t where t: "get_or_insert ''POSIX'' intern_new = Inr (0, t)" using first_string by blast
  then have ok: "intern_ok t" and h: "holds (slot_value t) (it_slots t) ''POSIX'' 0"
    using get_or_insert_ok [OF intern_new_ok, of "''POSIX''"] by auto
  have again: "get_or_insert ''POSIX'' t = Inr (0, t)" using holds_resolve [OF ok h] by blast
  have p: "parse_hex64 [] = None" by (simp add: parse_hex64_def HEX64_DIGITS_def)
  obtain sh c' where c': "compute_shard ''POSIX'' ''POSIX'' 1 2 shard_cache_empty = (sh, c')" by (cases "compute_shard ''POSIX'' ''POSIX'' 1 2 shard_cache_empty")
  then obtain key where s:
    "serialize_texts AGG_EVENT ''POSIX'' ''POSIX'' 1 2 [] [] 5 None intern_new shard_cache_empty = Inr (key, t, c')"
    using t again by (auto simp: serialize_texts_def key_of_texts_def intern_opt_def p)
  have "slot_value t 0 \<noteq> Some []" using h by (simp add: holds_def)
  moreover have "cache_ok shard_cache_empty" by (simp add: cache_ok_def shard_cache_empty_def)
  ultimately have "\<exists>kv. parse_agg_key_view key t True = Some (Inr kv)
    \<and> kv_map_type kv = AGG_EVENT \<and> kv_cat kv = ''POSIX'' \<and> kv_name kv = ''POSIX'' \<and> kv_pid kv = 1 \<and> kv_tid kv = 2
    \<and> kv_hhash kv = [] \<and> fhash_text kv = [] \<and> kv_time_bucket kv = 5
    \<and> kv_extra_keys kv = (case None of None \<Rightarrow> [] | Some kvs \<Rightarrow> kvs)"
    by (intro key_of_event_reads_back [OF intern_steps.Refl _ s intern_steps.Refl]) (simp_all add: AGG_EVENT_def p)
  with s show ?thesis by blast
qed

end
