(* ===== verification/TraceEvent.thy ===== *)
theory TraceEvent
  imports QueryEval
begin

text \<open>
  A trace event as the indexers see it: \<^verbatim>\<open>trace/schema.h\<close> (the \<^verbatim>\<open>ph\<close> and \<^verbatim>\<open>type\<close> columns),
  \<^verbatim>\<open>trace/args_map.h\<close> (the flattened arguments) and the three parsers of \<^verbatim>\<open>trace/event.h\<close>: \<open>parse_event\<close>
  and \<open>parse_scalars\<close> over a parsed document, \<open>parse_ondemand\<close> over the on-demand cursor. A field of
  the on-demand cursor is described by the same \<open>dom_num\<close>.
\<close>

section \<open>Phases and types\<close>

datatype record_phase = PH_UNKNOWN | PH_COMPLETE | PH_COUNTER | PH_AGGREGATED | PH_METADATA

datatype event_type =
  ET_UNKNOWN | ET_DFTRACER | ET_C_APP | ET_LIBC_IO | ET_HIP | ET_HDF5 | ET_PYTHON | ET_PSUTIL
  | ET_FINSTRUMENT | ET_CPP_APP | ET_MPI

fun phase_to_int :: "record_phase \<Rightarrow> nat" where
  "phase_to_int PH_UNKNOWN = 0"
| "phase_to_int PH_COMPLETE = 1"
| "phase_to_int PH_COUNTER = 2"
| "phase_to_int PH_AGGREGATED = 3"
| "phase_to_int PH_METADATA = 4"

definition phase_from_int :: "nat \<Rightarrow> record_phase" where
  "phase_from_int v =
     (if v \<le> 4 then [PH_UNKNOWN, PH_COMPLETE, PH_COUNTER, PH_AGGREGATED, PH_METADATA] ! v else PH_UNKNOWN)"

definition phase_from_letter :: "string \<Rightarrow> record_phase" where
  "phase_from_letter s =
     (if s = ''X'' then PH_COMPLETE else if s = ''C'' then PH_COUNTER else if s = ''A'' then PH_AGGREGATED
      else if s = ''M'' then PH_METADATA else PH_UNKNOWN)"

fun phase_to_letter :: "record_phase \<Rightarrow> char" where
  "phase_to_letter PH_COMPLETE = CHR ''X''"
| "phase_to_letter PH_COUNTER = CHR ''C''"
| "phase_to_letter PH_AGGREGATED = CHR ''A''"
| "phase_to_letter PH_METADATA = CHR ''M''"
| "phase_to_letter PH_UNKNOWN = CHR 0x00"

fun event_type_to_int :: "event_type \<Rightarrow> nat" where
  "event_type_to_int ET_UNKNOWN = 0"
| "event_type_to_int ET_DFTRACER = 1"
| "event_type_to_int ET_C_APP = 2"
| "event_type_to_int ET_LIBC_IO = 3"
| "event_type_to_int ET_HIP = 4"
| "event_type_to_int ET_HDF5 = 5"
| "event_type_to_int ET_PYTHON = 6"
| "event_type_to_int ET_PSUTIL = 7"
| "event_type_to_int ET_FINSTRUMENT = 8"
| "event_type_to_int ET_CPP_APP = 9"
| "event_type_to_int ET_MPI = 10"

definition event_type_from_int :: "nat \<Rightarrow> event_type" where
  "event_type_from_int v =
     (if v \<le> 10 then [ET_UNKNOWN, ET_DFTRACER, ET_C_APP, ET_LIBC_IO, ET_HIP, ET_HDF5, ET_PYTHON, ET_PSUTIL,
        ET_FINSTRUMENT, ET_CPP_APP, ET_MPI] ! v else ET_UNKNOWN)"

definition event_type_from_cat :: "string \<Rightarrow> event_type" where
  "event_type_from_cat c =
     (if c \<in> set [''POSIX'', ''STDIO''] then ET_LIBC_IO
      else if c \<in> set [''MPI'', ''MPIIO''] then ET_MPI
      else if c \<in> set [''sys'', ''net'', ''io''] then ET_PSUTIL
      else if c = ''HDF5'' then ET_HDF5
      else if c = ''FUNC'' then ET_FINSTRUMENT
      else ET_UNKNOWN)"

definition read_phase :: "json_value \<Rightarrow> record_phase" where
  "read_phase v =
     (if is_uint v then phase_from_int (get_u64 v)
      else if is_string v then phase_from_letter (get_string v) else PH_UNKNOWN)"

definition read_event_type :: "json_value \<Rightarrow> event_type" where
  "read_event_type v = (if is_uint v then event_type_from_int (get_u64 v) else ET_UNKNOWN)"

lemma phase_int_roundtrip: "phase_from_int (phase_to_int p) = p"
  by (cases p) (simp_all add: phase_from_int_def)

lemma phase_letter_roundtrip: "phase_from_letter [phase_to_letter p] = p"
  by (cases p) (simp_all add: phase_from_letter_def)

lemma event_type_int_roundtrip: "event_type_from_int (event_type_to_int t) = t"
  by (cases t) (simp_all add: event_type_from_int_def eval_nat_numeral)

section \<open>Arguments\<close>

text \<open>The first insertion of a key stays (\<^verbatim>\<open>emplace\<close>); the value variants are those of a query literal.\<close>

type_synonym args_map = "string \<rightharpoonup> literal"

definition args_insert :: "string \<Rightarrow> literal \<Rightarrow> args_map \<Rightarrow> args_map" where
  "args_insert k v a = (case a k of None \<Rightarrow> a(k \<mapsto> v) | Some _ \<Rightarrow> a)"

definition append_index :: "string \<Rightarrow> nat \<Rightarrow> string" where
  "append_index p i = p @ show_nat i"

definition scalar_arg :: "json_value \<Rightarrow> literal option" where
  "scalar_arg v =
     (if is_string v then Some (LStr (get_string v))
      else if is_uint v then Some (LU64 (get_u64 v))
      else if is_int v then Some (LI64 (get_i64 v))
      else if is_number v then Some (LF64 (get_f64 v))
      else if is_bool v then Some (LBool (get_bool v))
      else None)"

definition insert_scalar_arg :: "args_map \<Rightarrow> string \<Rightarrow> json_value \<Rightarrow> args_map" where
  "insert_scalar_arg a key v = (case scalar_arg v of Some l \<Rightarrow> args_insert key l a | None \<Rightarrow> a)"

fun flatten_arg :: "string \<Rightarrow> json \<Rightarrow> args_map \<Rightarrow> args_map"
  and flatten_members :: "string \<Rightarrow> (string \<times> json) list \<Rightarrow> args_map \<Rightarrow> args_map"
  and flatten_elements :: "string \<Rightarrow> nat \<Rightarrow> json list \<Rightarrow> args_map \<Rightarrow> args_map" where
  "flatten_arg p (JObject ms) a = flatten_members p ms a"
| "flatten_arg p (JArray vs) a = flatten_elements p 0 vs a"
| "flatten_arg p v a = insert_scalar_arg a p (Some v)"
| "flatten_members p [] a = a"
| "flatten_members p ((k, v) # ms) a = flatten_members p ms (flatten_arg (p @ ''.'' @ k) v a)"
| "flatten_elements p i [] a = a"
| "flatten_elements p i (v # vs) a = flatten_elements p (i + 1) vs (flatten_arg (append_index (p @ ''.'') i) v a)"

definition insert_arg_member :: "args_map \<Rightarrow> string \<Rightarrow> json \<Rightarrow> args_map" where
  "insert_arg_member a key v =
     (if is_object (Some v) \<or> is_array (Some v) then flatten_arg key v a else insert_scalar_arg a key (Some v))"

text \<open>The on-demand cursor knows no unsigned numbers: above the signed range it reads a double.\<close>

definition scalar_arg_ondemand :: "json_value \<Rightarrow> literal option" where
  "scalar_arg_ondemand v =
     (case v of
        Some (JString s) \<Rightarrow> Some (LStr s)
      | Some (JNum n) \<Rightarrow>
          (case dom_i64 n of
             Some i \<Rightarrow> Some (if 0 \<le> i then LU64 (nat i) else LI64 i)
           | None \<Rightarrow> if is_number v then Some (LF64 (get_f64 v)) else None)
      | Some (JBool b) \<Rightarrow> Some (LBool b)
      | _ \<Rightarrow> None)"

definition insert_scalar_ondemand :: "args_map \<Rightarrow> string \<Rightarrow> json_value \<Rightarrow> args_map" where
  "insert_scalar_ondemand a key v = (case scalar_arg_ondemand v of Some l \<Rightarrow> args_insert key l a | None \<Rightarrow> a)"

fun flatten_arg_ondemand :: "string \<Rightarrow> json \<Rightarrow> args_map \<Rightarrow> args_map"
  and flatten_members_ondemand :: "string \<Rightarrow> (string \<times> json) list \<Rightarrow> args_map \<Rightarrow> args_map"
  and flatten_elements_ondemand :: "string \<Rightarrow> nat \<Rightarrow> json list \<Rightarrow> args_map \<Rightarrow> args_map" where
  "flatten_arg_ondemand p (JObject ms) a = flatten_members_ondemand p ms a"
| "flatten_arg_ondemand p (JArray vs) a = flatten_elements_ondemand p 0 vs a"
| "flatten_arg_ondemand p v a = insert_scalar_ondemand a p (Some v)"
| "flatten_members_ondemand p [] a = a"
| "flatten_members_ondemand p ((k, v) # ms) a =
     flatten_members_ondemand p ms (flatten_arg_ondemand (p @ ''.'' @ k) v a)"
| "flatten_elements_ondemand p i [] a = a"
| "flatten_elements_ondemand p i (v # vs) a =
     flatten_elements_ondemand p (i + 1) vs (flatten_arg_ondemand (append_index (p @ ''.'') i) v a)"

section \<open>Events\<close>

record trace_event =
  te_id :: nat
  te_name :: string
  te_cat :: string
  te_phase :: record_phase
  te_type :: event_type
  te_pid :: nat
  te_tid :: nat
  te_ts :: nat
  te_dur :: nat
  te_has_dur :: bool
  te_args :: "args_map option"

definition empty_event :: trace_event where
  "empty_event =
     \<lparr>te_id = 0, te_name = [], te_cat = [], te_phase = PH_UNKNOWN, te_type = ET_UNKNOWN, te_pid = 0, te_tid = 0,
      te_ts = 0, te_dur = 0, te_has_dur = False, te_args = None\<rparr>"

definition is_metadata :: "trace_event \<Rightarrow> bool" where "is_metadata e \<longleftrightarrow> te_phase e = PH_METADATA"
definition is_counter :: "trace_event \<Rightarrow> bool" where "is_counter e \<longleftrightarrow> te_phase e = PH_COUNTER"
definition is_aggregated :: "trace_event \<Rightarrow> bool" where "is_aggregated e \<longleftrightarrow> te_phase e = PH_AGGREGATED"
definition is_profile :: "trace_event \<Rightarrow> bool" where "is_profile e \<longleftrightarrow> te_phase e = PH_COUNTER \<and> te_cat e \<noteq> ''sys''"
definition is_system :: "trace_event \<Rightarrow> bool" where "is_system e \<longleftrightarrow> te_phase e = PH_COUNTER \<and> te_cat e = ''sys''"
definition is_event :: "trace_event \<Rightarrow> bool" where "is_event e \<longleftrightarrow> \<not> is_metadata e \<and> \<not> is_counter e"
definition is_complete :: "trace_event \<Rightarrow> bool" where "is_complete e \<longleftrightarrow> te_phase e = PH_COMPLETE"

text \<open>\<^verbatim>\<open>parse\<close>: every member in order, so the last of two members with one key counts; a numeric column
  that is no 64-bit number is zero.\<close>

definition parse_member :: "string \<times> json \<Rightarrow> trace_event \<Rightarrow> trace_event" where
  "parse_member m e =
     (case m of (k, j) \<Rightarrow> let v = Some j in
        if k = ''ph'' then e\<lparr>te_phase := read_phase v\<rparr>
        else if k = ''id'' then e\<lparr>te_id := get_u64 v\<rparr>
        else if k = ''ts'' then e\<lparr>te_ts := get_u64 v\<rparr>
        else if k = ''pid'' then e\<lparr>te_pid := get_u64 v\<rparr>
        else if k = ''tid'' then e\<lparr>te_tid := get_u64 v\<rparr>
        else if k = ''cat'' then e\<lparr>te_cat := get_string v\<rparr>
        else if k = ''dur'' then e\<lparr>te_dur := get_u64 v, te_has_dur := True\<rparr>
        else if k = ''name'' then e\<lparr>te_name := get_string v\<rparr>
        else if k = ''type'' then e\<lparr>te_type := read_event_type v\<rparr>
        else if k = ''args'' then
          (case j of
             JObject ms \<Rightarrow>
               e\<lparr>te_args := Some (fold (\<lambda>(k, av) a. insert_arg_member a k av) ms
                    (case te_args e of None \<Rightarrow> Map.empty | Some a \<Rightarrow> a))\<rparr>
           | _ \<Rightarrow> e)
        else e)"

definition parse_event :: "json \<Rightarrow> bool \<times> trace_event" where
  "parse_event j =
     (case j of
        JObject ms \<Rightarrow> (''ph'' \<in> set (map fst ms), fold parse_member ms empty_event)
      | _ \<Rightarrow> (False, empty_event))"

text \<open>\<^verbatim>\<open>parse_scalars\<close> takes only what has the type of its column, and no arguments.\<close>

definition scalar_member :: "string \<times> json \<Rightarrow> trace_event \<Rightarrow> trace_event" where
  "scalar_member m e =
     (case m of (k, j) \<Rightarrow> let v = Some j in
        if k = ''ph'' then e\<lparr>te_phase := read_phase v\<rparr>
        else if k = ''id'' then (if is_uint v then e\<lparr>te_id := get_u64 v\<rparr> else e)
        else if k = ''ts'' then (if is_uint v then e\<lparr>te_ts := get_u64 v\<rparr> else e)
        else if k = ''pid'' then (if is_uint v then e\<lparr>te_pid := get_u64 v\<rparr> else e)
        else if k = ''tid'' then (if is_uint v then e\<lparr>te_tid := get_u64 v\<rparr> else e)
        else if k = ''cat'' then (if is_string v then e\<lparr>te_cat := get_string v\<rparr> else e)
        else if k = ''dur'' then (if is_uint v then e\<lparr>te_dur := get_u64 v, te_has_dur := True\<rparr> else e)
        else if k = ''name'' then (if is_string v then e\<lparr>te_name := get_string v\<rparr> else e)
        else if k = ''type'' then e\<lparr>te_type := read_event_type v\<rparr>
        else e)"

definition parse_scalars :: "json \<Rightarrow> bool \<times> trace_event" where
  "parse_scalars j =
     (case j of
        JObject ms \<Rightarrow> (''ph'' \<in> set (map fst ms), fold scalar_member ms empty_event)
      | _ \<Rightarrow> (False, empty_event))"

definition ondemand_args :: "(string \<times> json) list \<Rightarrow> args_map \<Rightarrow> args_map" where
  "ondemand_args ms a =
     fold (\<lambda>(k, av) a. if is_object (Some av) \<or> is_array (Some av) then flatten_arg_ondemand k av a
                       else insert_scalar_ondemand a k (Some av)) ms a"

definition ondemand_member :: "string \<times> json \<Rightarrow> trace_event \<Rightarrow> trace_event" where
  "ondemand_member m e =
     (case m of
        (k, JObject ms) \<Rightarrow>
          if k = ''args'' then
            e\<lparr>te_args := Some (ondemand_args ms (case te_args e of None \<Rightarrow> Map.empty | Some a \<Rightarrow> a))\<rparr>
          else scalar_member m e
      | _ \<Rightarrow> scalar_member m e)"

definition parse_ondemand :: "(string \<times> json) list \<Rightarrow> bool \<times> trace_event" where
  "parse_ondemand ms = (''ph'' \<in> set (map fst ms), fold ondemand_member ms empty_event)"

section \<open>What flattening keeps\<close>

text \<open>
  The scalars of a value, each under the keys and indices that lead to it, and the walk along such a
  path. Flattening is inserting the scalars in order under the joined paths.
\<close>

fun leaves :: "json \<Rightarrow> (string list \<times> literal) list"
  and leaves_members :: "(string \<times> json) list \<Rightarrow> (string list \<times> literal) list"
  and leaves_elements :: "nat \<Rightarrow> json list \<Rightarrow> (string list \<times> literal) list" where
  "leaves (JObject ms) = leaves_members ms"
| "leaves (JArray vs) = leaves_elements 0 vs"
| "leaves v = (case scalar_arg (Some v) of Some l \<Rightarrow> [([], l)] | None \<Rightarrow> [])"
| "leaves_members [] = []"
| "leaves_members ((k, v) # ms) = map (\<lambda>(ks, l). (k # ks, l)) (leaves v) @ leaves_members ms"
| "leaves_elements i [] = []"
| "leaves_elements i (v # vs) = map (\<lambda>(ks, l). (show_nat i # ks, l)) (leaves v) @ leaves_elements (i + 1) vs"

fun elem_at :: "nat \<Rightarrow> json list \<Rightarrow> string \<Rightarrow> json option" where
  "elem_at i [] k = None"
| "elem_at i (v # vs) k = (if k = show_nat i then Some v else elem_at (i + 1) vs k)"

fun json_walk :: "json \<Rightarrow> string list \<Rightarrow> json option" where
  "json_walk v [] = Some v"
| "json_walk (JObject ms) (k # ks) = (case map_of ms k of Some w \<Rightarrow> json_walk w ks | None \<Rightarrow> None)"
| "json_walk (JArray vs) (k # ks) = (case elem_at 0 vs k of Some w \<Rightarrow> json_walk w ks | None \<Rightarrow> None)"
| "json_walk v (k # ks) = None"

definition join_path :: "string \<Rightarrow> string list \<Rightarrow> string" where
  "join_path p ks = p @ concat (map (\<lambda>k. CHR ''.'' # k) ks)"

definition dotless :: "string \<Rightarrow> bool" where "dotless k \<longleftrightarrow> CHR ''.'' \<notin> set k"

text \<open>Objects whose keys are distinct and hold no dot, at every depth.\<close>

fun plain_keys :: "json \<Rightarrow> bool"
  and plain_members :: "(string \<times> json) list \<Rightarrow> bool"
  and plain_elements :: "json list \<Rightarrow> bool" where
  "plain_keys (JObject ms) = plain_members ms"
| "plain_keys (JArray vs) = plain_elements vs"
| "plain_keys v = True"
| "plain_members [] = True"
| "plain_members ((k, v) # ms) = (dotless k \<and> k \<notin> fst ` set ms \<and> plain_keys v \<and> plain_members ms)"
| "plain_elements [] = True"
| "plain_elements (v # vs) = (plain_keys v \<and> plain_elements vs)"

lemma join_path_simps [simp]:
  "join_path p [] = p" "join_path p (k # ks) = join_path (p @ ''.'' @ k) ks"
  by (simp_all add: join_path_def)

abbreviation insert_leaf :: "string \<Rightarrow> string list \<times> literal \<Rightarrow> args_map \<Rightarrow> args_map" where
  "insert_leaf p \<equiv> \<lambda>(ks, l). args_insert (join_path p ks) l"

lemma fold_insert_leaf_key:
  "fold (insert_leaf p) (map (\<lambda>(ks, l). (k # ks, l)) xs) a = fold (insert_leaf (p @ ''.'' @ k)) xs a"
  by (induction xs arbitrary: a) auto

lemma flatten_leaves:
  "flatten_arg p v a = fold (insert_leaf p) (leaves v) a"
  "flatten_members p ms a = fold (insert_leaf p) (leaves_members ms) a"
  "flatten_elements p i vs a = fold (insert_leaf p) (leaves_elements i vs) a"
  by (induction p v a and p ms a and p i vs a rule: flatten_arg_flatten_members_flatten_elements.induct)
     (auto simp: insert_scalar_arg_def fold_insert_leaf_key append_index_def split: option.splits)

lemma fold_args_insert: "fold (\<lambda>(k, l). args_insert k l) kvs a = map_of kvs ++ a"
  by (induction kvs arbitrary: a) (auto simp: args_insert_def map_add_def fun_eq_iff split: option.splits)

lemma fold_insert_keyed: "fold (\<lambda>(ks, l). args_insert (f ks) l) xs a = map_of (map (\<lambda>(ks, l). (f ks, l)) xs) ++ a"
  unfolding fold_args_insert [symmetric] by (induction xs arbitrary: a) auto

lemma dotless_split:
  assumes "dotless k" "dotless k'" "rest = [] \<or> hd rest = CHR ''.''" "rest' = [] \<or> hd rest' = CHR ''.''"
    "k @ rest = k' @ rest'"
  shows "k = k'" "rest = rest'"
proof -
  let ?P = "\<lambda>c. c \<noteq> CHR ''.''"
  have t: "takeWhile ?P (q @ r) = q" if "dotless q" "r = [] \<or> hd r = CHR ''.''" for q r
    using that by (cases r) (auto simp: dotless_def takeWhile_append)
  from t [OF assms(1,3)] t [OF assms(2,4)] assms(5) show "k = k'" by metis
  with assms(5) show "rest = rest'" by simp
qed

lemma join_path_inj:
  assumes "join_path p ks = join_path p ks'" "\<forall>k \<in> set ks. dotless k" "\<forall>k \<in> set ks'. dotless k"
  shows "ks = ks'"
proof -
  have "concat (map (\<lambda>k. CHR ''.'' # k) ks) = concat (map (\<lambda>k. CHR ''.'' # k) ks')"
    using assms(1) by (simp add: join_path_def)
  then show ?thesis using assms(2,3)
  proof (induction ks arbitrary: ks')
    case Nil
    then show ?case by (cases ks') auto
  next
    case (Cons k ks)
    then obtain k' kt where k': "ks' = k' # kt" by (cases ks') auto
    have hd: "concat (map (\<lambda>k. CHR ''.'' # k) xs) = [] \<or> hd (concat (map (\<lambda>k. CHR ''.'' # k) xs)) = CHR ''.''" for xs
      by (cases xs) auto
    from Cons.prems k' dotless_split [OF _ _ hd [of ks] hd [of kt], of k k'] Cons.IH [of kt]
    show ?case by auto
  qed
qed

lemma show_nat_dotless [simp]: "dotless (show_nat n)"
  using show_nat_digits [of n] by (auto simp: dotless_def is_digit_def code_of_def)

lemma leaves_dotless:
  "plain_keys v \<Longrightarrow> (ks, l) \<in> set (leaves v) \<Longrightarrow> k \<in> set ks \<Longrightarrow> dotless k"
  "plain_members ms \<Longrightarrow> (ks, l) \<in> set (leaves_members ms) \<Longrightarrow> k \<in> set ks \<Longrightarrow> dotless k"
  "plain_elements vs \<Longrightarrow> (ks, l) \<in> set (leaves_elements i vs) \<Longrightarrow> k \<in> set ks \<Longrightarrow> dotless k"
  by (induction v and ms and i vs arbitrary: ks and ks and ks rule: leaves_leaves_members_leaves_elements.induct)
     (auto split: option.splits)

lemma map_of_key_Cons [simp]:
  "map_of (map (\<lambda>(ks, l). (k # ks, l)) xs) [] = None"
  "map_of (map (\<lambda>(ks, l). (k # ks, l)) xs) (k' # ks') = (if k = k' then map_of xs ks' else None)"
  by (induction xs) auto

lemma elem_at_before: "j < i \<Longrightarrow> elem_at i vs (show_nat j) = None"
  by (induction vs arbitrary: i) (auto simp: show_nat_inj)

lemma map_of_leaves:
  "plain_keys v \<Longrightarrow> map_of (leaves v) ks = Option.bind (json_walk v ks) (\<lambda>w. scalar_arg (Some w))"
  "plain_members ms \<Longrightarrow> map_of (leaves_members ms) ks
     = (case ks of [] \<Rightarrow> None | k # kt \<Rightarrow> Option.bind (map_of ms k) (\<lambda>v. Option.bind (json_walk v kt) (\<lambda>w. scalar_arg (Some w))))"
  "plain_elements vs \<Longrightarrow> map_of (leaves_elements i vs) ks
     = (case ks of [] \<Rightarrow> None | k # kt \<Rightarrow> Option.bind (elem_at i vs k) (\<lambda>v. Option.bind (json_walk v kt) (\<lambda>w. scalar_arg (Some w))))"
proof (induction v and ms and i vs arbitrary: ks and ks and ks rule: leaves_leaves_members_leaves_elements.induct)
  case (1 ms)
  then show ?case by (cases ks) (auto simp: scalar_arg_def split: option.splits)
next
  case (2 vs)
  then show ?case by (cases ks) (auto simp: scalar_arg_def split: option.splits)
next
  case (5 k v ms)
  then have "map_of ms k = None" by (auto simp: map_of_eq_None_iff)
  with 5 show ?case by (cases ks) (auto simp: map_add_def split: option.splits)
next
  case (7 i v vs)
  then show ?case using elem_at_before [of i "i + 1" vs]
    by (cases ks) (auto simp: map_add_def split: option.splits)
qed (auto split: option.splits list.splits; case_tac ks; simp)+

section \<open>The arguments of an event\<close>

text \<open>The key of a leaf of the arguments: the path behind the first dot.\<close>

definition arg_key :: "string list \<Rightarrow> string" where
  "arg_key ks = tl (join_path [] ks)"

lemma arg_key_Cons [simp]: "arg_key (k # ks) = join_path k ks"
  by (simp add: arg_key_def join_path_def)

lemma join_path_arg_key: "ks \<noteq> [] \<Longrightarrow> join_path [] ks = CHR ''.'' # arg_key ks"
  by (cases ks) (auto simp: arg_key_def join_path_def)

lemma arg_key_inj: "inj_on arg_key {ks. ks \<noteq> [] \<and> (\<forall>k \<in> set ks. dotless k)}"
  by (rule inj_onI) (auto intro: join_path_inj [of "[]"] simp: join_path_arg_key)

lemma map_of_inj_key:
  "inj_on f S \<Longrightarrow> fst ` set xs \<subseteq> S \<Longrightarrow> ks \<in> S \<Longrightarrow> map_of (map (\<lambda>(ks, l). (f ks, l)) xs) (f ks) = map_of xs ks"
  by (induction xs) (auto dest: inj_onD)

lemma insert_arg_member_leaves: "insert_arg_member a k v = fold (insert_leaf k) (leaves v) a"
  by (cases v) (auto simp: insert_arg_member_def flatten_leaves insert_scalar_arg_def split: option.splits)

lemma fold_insert_arg_members:
  "fold (\<lambda>(k, av) a. insert_arg_member a k av) ms a = map_of (map (\<lambda>(ks, l). (arg_key ks, l)) (leaves_members ms)) ++ a"
proof -
  have "fold (\<lambda>(k, av) a. insert_arg_member a k av) ms a = fold (\<lambda>(ks, l). args_insert (arg_key ks) l) (leaves_members ms) a"
  proof (induction ms arbitrary: a)
    case (Cons m ms)
    obtain k v where m: "m = (k, v)" by (cases m)
    have "fold (\<lambda>(ks, l). args_insert (arg_key ks) l) (map (\<lambda>(ks, l). (k # ks, l)) xs) a = fold (insert_leaf k) xs a" for xs a
      by (induction xs arbitrary: a) auto
    with Cons m show ?case by (simp add: insert_arg_member_leaves)
  qed simp
  then show ?thesis by (simp add: fold_insert_keyed)
qed

lemma leaves_members_nonempty: "(ks, l) \<in> set (leaves_members ms) \<Longrightarrow> ks \<noteq> []"
  by (induction ms) auto

lemma args_of_members:
  assumes "plain_members ms" "dotless k" "\<forall>k \<in> set ks. dotless k"
  shows "fold (\<lambda>(k, av) a. insert_arg_member a k av) ms Map.empty (join_path k ks)
    = Option.bind (json_walk (JObject ms) (k # ks)) (\<lambda>w. scalar_arg (Some w))"
proof -
  have "fst ` set (leaves_members ms) \<subseteq> {ks. ks \<noteq> [] \<and> (\<forall>k \<in> set ks. dotless k)}"
    using leaves_dotless(2) [OF assms(1)] leaves_members_nonempty by fastforce
  from map_of_inj_key [OF arg_key_inj this, of "k # ks"] assms(2,3)
  have "map_of (map (\<lambda>(ks, l). (arg_key ks, l)) (leaves_members ms)) (join_path k ks) = map_of (leaves_members ms) (k # ks)"
    by simp
  with map_of_leaves(2) [OF assms(1), of "k # ks"] show ?thesis
    by (auto simp: fold_insert_arg_members split: option.splits)
qed

lemma te_args_parse_member:
  "k \<noteq> ''args'' \<Longrightarrow> te_args (parse_member (k, j) e) = te_args e"
  by (simp add: parse_member_def Let_def)

lemma te_args_parse_members: "''args'' \<notin> fst ` set ms \<Longrightarrow> te_args (fold parse_member ms e) = te_args e"
  by (induction ms arbitrary: e) (auto simp: te_args_parse_member)

lemma te_args_parsed:
  assumes "distinct (map fst ms)" "(''args'', JObject as) \<in> set ms"
  shows "te_args (fold parse_member ms empty_event) = Some (fold (\<lambda>(k, av) a. insert_arg_member a k av) as Map.empty)"
proof -
  obtain xs ys where ms: "ms = xs @ (''args'', JObject as) # ys" using split_list [OF assms(2)] by blast
  then have "''args'' \<notin> fst ` set xs" "''args'' \<notin> fst ` set ys" using assms(1) by auto
  then show ?thesis by (simp add: ms te_args_parse_members) (simp add: parse_member_def te_args_parse_members empty_event_def)
qed

text \<open>
  C37: The arguments of a parsed event hold exactly the scalars of its \<open>args\<close> object, at every depth:
  under the keys and indices that lead to a scalar, joined by dots, the map has its value, and it has
  nothing under a path that leads to no scalar. This holds where keys are distinct and hold no dot.
\<close>

theorem args_flatten_exact:
  assumes "distinct (map fst ms)" "(''args'', JObject as) \<in> set ms" "plain_members as"
    and "dotless k" "\<forall>k \<in> set ks. dotless k"
  shows "\<exists>a. te_args (snd (parse_event (JObject ms))) = Some a
    \<and> a (join_path k ks) = Option.bind (json_walk (JObject as) (k # ks)) (\<lambda>w. scalar_arg (Some w))"
  using te_args_parsed [OF assms(1,2)] args_of_members [OF assms(3-5)] by (simp add: parse_event_def)

definition sample_args :: "(string \<times> json) list" where
  "sample_args =
     [(''host'', JString ''n1''), (''tags'', JArray [JNum (num_of_int 5), JObject [(''model'', JObject [(''size'', JNum (num_of_int 7))])]]),
      (''on'', JBool True)]"

lemma args_flatten_exact_witness:
  "\<exists>a. te_args (snd (parse_event (JObject [(''ph'', JString ''X''), (''args'', JObject sample_args)]))) = Some a
    \<and> a ''tags.1.model.size'' = Some (LU64 7)"
proof -
  have "\<exists>a. te_args (snd (parse_event (JObject [(''ph'', JString ''X''), (''args'', JObject sample_args)]))) = Some a
    \<and> a (join_path ''tags'' [''1'', ''model'', ''size''])
      = Option.bind (json_walk (JObject sample_args) [''tags'', ''1'', ''model'', ''size'']) (\<lambda>w. scalar_arg (Some w))"
    by (rule args_flatten_exact) (auto simp: sample_args_def dotless_def)
  moreover have "join_path ''tags'' [''1'', ''model'', ''size''] = ''tags.1.model.size''" by code_simp
  moreover have "Option.bind (json_walk (JObject sample_args) [''tags'', ''1'', ''model'', ''size'']) (\<lambda>w. scalar_arg (Some w)) = Some (LU64 7)"
    by code_simp
  ultimately show ?thesis by simp
qed

section \<open>The three parsers\<close>

text \<open>The columns of an event have the types the format gives them.\<close>

definition typed_member :: "string \<times> json \<Rightarrow> bool" where
  "typed_member m \<longleftrightarrow>
     (fst m \<in> {''id'', ''ts'', ''pid'', ''tid'', ''dur''} \<longrightarrow> is_uint (Some (snd m)))
     \<and> (fst m \<in> {''cat'', ''name''} \<longrightarrow> is_string (Some (snd m)))"

lemma scalar_member_typed:
  "typed_member m \<Longrightarrow> scalar_member m (e\<lparr>te_args := None\<rparr>) = (parse_member m e)\<lparr>te_args := None\<rparr>"
  by (cases m; cases "snd m")
     (auto simp: scalar_member_def parse_member_def typed_member_def Let_def)

lemma scalar_members_typed:
  "list_all typed_member ms \<Longrightarrow> fold scalar_member ms (e\<lparr>te_args := None\<rparr>) = (fold parse_member ms e)\<lparr>te_args := None\<rparr>"
  by (induction ms arbitrary: e) (auto simp: scalar_member_typed)

lemma ondemand_member_scalars:
  "(ondemand_member m e)\<lparr>te_args := None\<rparr> = scalar_member m (e\<lparr>te_args := None\<rparr>)"
  by (cases m; cases "snd m") (auto simp: ondemand_member_def scalar_member_def Let_def)

lemma ondemand_members_scalars:
  "(fold ondemand_member ms e)\<lparr>te_args := None\<rparr> = fold scalar_member ms (e\<lparr>te_args := None\<rparr>)"
  by (induction ms arbitrary: e) (auto simp: ondemand_member_scalars)

text \<open>
  On an event whose columns have their types, all three parsers give the same columns; they agree on
  the arguments as long as no number is above the signed range.
\<close>

lemma parse_scalars_agrees:
  assumes "list_all typed_member ms"
  shows "parse_scalars (JObject ms) = (fst (parse_event (JObject ms)), (snd (parse_event (JObject ms)))\<lparr>te_args := None\<rparr>)"
  using scalar_members_typed [OF assms, of empty_event]
  by (simp add: parse_scalars_def parse_event_def) (simp add: empty_event_def)

lemma parse_ondemand_columns:
  "(snd (parse_ondemand ms))\<lparr>te_args := None\<rparr> = snd (parse_scalars (JObject ms))" "fst (parse_ondemand ms) = fst (parse_scalars (JObject ms))"
  using ondemand_members_scalars [of ms empty_event]
  by (simp_all add: parse_scalars_def parse_ondemand_def) (simp add: empty_event_def)

fun signed_numbers :: "json \<Rightarrow> bool"
  and signed_members :: "(string \<times> json) list \<Rightarrow> bool"
  and signed_elements :: "json list \<Rightarrow> bool" where
  "signed_numbers (JObject ms) = signed_members ms"
| "signed_numbers (JArray vs) = signed_elements vs"
| "signed_numbers (JNum n) = (dom_num_ok n \<and> (dom_i64 n = None \<longrightarrow> dom_u64 n = None))"
| "signed_numbers v = True"
| "signed_members [] = True"
| "signed_members ((k, v) # ms) = (signed_numbers v \<and> signed_members ms)"
| "signed_elements [] = True"
| "signed_elements (v # vs) = (signed_numbers v \<and> signed_elements vs)"

lemma scalar_arg_signed: "signed_numbers v \<Longrightarrow> scalar_arg_ondemand (Some v) = scalar_arg (Some v)"
  by (cases v) (auto simp: scalar_arg_def scalar_arg_ondemand_def dom_num_ok_def split: option.splits if_splits)

lemma flatten_signed:
  "signed_numbers v \<Longrightarrow> flatten_arg_ondemand p v a = flatten_arg p v a"
  "signed_members ms \<Longrightarrow> flatten_members_ondemand p ms a = flatten_members p ms a"
  "signed_elements vs \<Longrightarrow> flatten_elements_ondemand p i vs a = flatten_elements p i vs a"
  by (induction p v a and p ms a and p i vs a rule: flatten_arg_flatten_members_flatten_elements.induct)
     (auto simp: insert_scalar_arg_def insert_scalar_ondemand_def scalar_arg_signed)

lemma ondemand_args_signed:
  "signed_members ms \<Longrightarrow> ondemand_args ms a = fold (\<lambda>(k, av) a. insert_arg_member a k av) ms a"
proof (induction ms arbitrary: a)
  case (Cons m ms)
  obtain k v where m: "m = (k, v)" by (cases m)
  have "insert_scalar_ondemand a k (Some v) = insert_scalar_arg a k (Some v)" for a
    using Cons.prems by (simp add: m insert_scalar_arg_def insert_scalar_ondemand_def scalar_arg_signed)
  moreover have "flatten_arg_ondemand k v a = flatten_arg k v a" for a
    using Cons.prems by (simp add: m flatten_signed)
  ultimately show ?case using Cons by (simp add: m ondemand_args_def insert_arg_member_def)
qed (simp add: ondemand_args_def)

lemma ondemand_loses_large_hash:
  "ondemand_args [(''h'', JNum \<lparr>dom_i64 = None, dom_u64 = Some (2 ^ 63 + 1), dom_f64 = Some (f64_of_int (2 ^ 63 + 1))\<rparr>)] Map.empty ''h''
     = Some (LF64 (f64_of_int (2 ^ 63 + 1)))"
  "insert_arg_member Map.empty ''h'' (JNum \<lparr>dom_i64 = None, dom_u64 = Some (2 ^ 63 + 1), dom_f64 = Some (f64_of_int (2 ^ 63 + 1))\<rparr>) ''h''
     = Some (LU64 (2 ^ 63 + 1))"
  by (simp_all add: ondemand_args_def insert_scalar_ondemand_def scalar_arg_ondemand_def insert_arg_member_def
      insert_scalar_arg_def scalar_arg_def args_insert_def)

text \<open>A duration that is no whole number is a duration of zero for one parser and none for the other.\<close>

lemma fractional_duration_counted:
  "te_has_dur (snd (parse_event (JObject [(''ph'', JString ''X''), (''dur'', JNum (num_of_f64 (3 / 2)))])))"
  "te_dur (snd (parse_event (JObject [(''ph'', JString ''X''), (''dur'', JNum (num_of_f64 (3 / 2)))]))) = 0"
  "\<not> te_has_dur (snd (parse_scalars (JObject [(''ph'', JString ''X''), (''dur'', JNum (num_of_f64 (3 / 2)))])))"
  by (simp_all add: parse_event_def parse_scalars_def parse_member_def scalar_member_def num_of_f64_def empty_event_def Let_def)

end
