(* ===== verification/SubChunk.thy ===== *)
theory SubChunk
  imports TraceEvent PrunerSound
begin

text \<open>
  Zone maps inside a chunk: how indexing builds them (\<^verbatim>\<open>SubChunkZoneMap\<close> in
  \<^verbatim>\<open>trace/indexing/chunk_statistics.h\<close>, \<^verbatim>\<open>observe_data\<close> and \<^verbatim>\<open>merge_chunk_state\<close> in
  \<^verbatim>\<open>trace/visitors/bloom_core.cpp\<close>, fed by \<^verbatim>\<open>trace/parse_inflated.h\<close> and \<^verbatim>\<open>BloomFold::step\<close>), which
  buckets a query can skip (\<^verbatim>\<open>trace/indexing/sub_chunk_prune.h\<close>) and how the reader skips their events
  (the loop of \<^verbatim>\<open>read_arrow\<close> in \<^verbatim>\<open>utilities/reader/trace_reader_arrow.cpp\<close>). The main theorem joins the
  three: what is skipped does not match.
\<close>

section \<open>Building zone maps\<close>

record zone_map =
  zm_count :: nat
  zm_min_ts :: nat
  zm_max_ts :: nat
  zm_min_dur :: nat
  zm_max_dur :: nat

definition new_zone :: zone_map where
  "new_zone = \<lparr>zm_count = 0, zm_min_ts = UINT64_MAX, zm_max_ts = 0, zm_min_dur = UINT64_MAX, zm_max_dur = 0\<rparr>"

definition zone_observe :: "nat \<Rightarrow> nat \<Rightarrow> zone_map \<Rightarrow> zone_map" where
  "zone_observe ts dur z =
     z\<lparr>zm_min_ts := min (zm_min_ts z) ts, zm_max_ts := max (zm_max_ts z) ts,
       zm_min_dur := min (zm_min_dur z) dur, zm_max_dur := max (zm_max_dur z) dur, zm_count := zm_count z + 1\<rparr>"

definition bucket_observe :: "nat \<Rightarrow> nat \<Rightarrow> nat \<Rightarrow> zone_map list \<Rightarrow> zone_map list" where
  "bucket_observe per ts dur zs =
     (if per = 0 then zs
      else let zs' = (if zs = [] \<or> per \<le> zm_count (last zs) then zs @ [new_zone] else zs)
           in butlast zs' @ [zone_observe ts dur (last zs')])"

text \<open>A document of the chunk: only objects with a \<^verbatim>\<open>ph\<close> are delivered, metadata is not observed.\<close>

definition data_event :: "json \<Rightarrow> trace_event option" where
  "data_event j =
     (if \<not> is_object (Some j) then None
      else case parse_event j of (ok, e) \<Rightarrow> if \<not> ok \<or> is_metadata e then None else Some e)"

definition index_record :: "nat \<Rightarrow> json \<Rightarrow> zone_map list \<Rightarrow> zone_map list" where
  "index_record per j zs =
     (case data_event j of None \<Rightarrow> zs | Some e \<Rightarrow> bucket_observe per (te_ts e) (te_dur e) zs)"

definition index_slice :: "nat \<Rightarrow> json list \<Rightarrow> zone_map list" where
  "index_slice per js = fold (index_record per) js []"

definition merge_buckets :: "zone_map list \<Rightarrow> zone_map list \<Rightarrow> zone_map list" where
  "merge_buckets dst src = dst @ src"

definition index_chunk :: "nat \<Rightarrow> json list list \<Rightarrow> zone_map list" where
  "index_chunk per slices = foldl merge_buckets [] (map (index_slice per) slices)"

section \<open>Ranges of a query\<close>

record numeric_range =
  nr_lo :: nat
  nr_hi :: nat
  nr_constrained :: bool

definition any_range :: numeric_range where
  "any_range = \<lparr>nr_lo = 0, nr_hi = UINT64_MAX, nr_constrained = False\<rparr>"

fun lit_u64 :: "literal \<Rightarrow> nat option" where
  "lit_u64 (LI64 i) = (if i < 0 then None else Some (nat i))"
| "lit_u64 (LU64 n) = Some n"
| "lit_u64 _ = None"

fun constrain :: "compare_op \<Rightarrow> nat \<Rightarrow> numeric_range \<Rightarrow> numeric_range" where
  "constrain EQ v r = r\<lparr>nr_lo := max (nr_lo r) v, nr_hi := min (nr_hi r) v, nr_constrained := True\<rparr>"
| "constrain GE v r = r\<lparr>nr_lo := max (nr_lo r) v, nr_constrained := True\<rparr>"
| "constrain GT v r = r\<lparr>nr_lo := max (nr_lo r) (if v = UINT64_MAX then v else v + 1), nr_constrained := True\<rparr>"
| "constrain LE v r = r\<lparr>nr_hi := min (nr_hi r) v, nr_constrained := True\<rparr>"
| "constrain LT v r = r\<lparr>nr_hi := min (nr_hi r) (if v = 0 then v else v - 1), nr_constrained := True\<rparr>"
| "constrain NE v r = r"

text \<open>The visitor threads the range and whether it is sound.\<close>

fun visit_range :: "string \<Rightarrow> query_node \<Rightarrow> numeric_range \<times> bool \<Rightarrow> numeric_range \<times> bool" where
  "visit_range field (CompareNode f op v) st =
     (if f \<noteq> field then st
      else case lit_u64 v of None \<Rightarrow> (fst st, False) | Some n \<Rightarrow> (constrain op n (fst st), snd st))"
| "visit_range field (AndNode a b) st = visit_range field b (visit_range field a st)"
| "visit_range field (OrNode a b) st =
     (if field \<in> collect_fields a \<or> field \<in> collect_fields b then (fst st, False) else st)"
| "visit_range field (NotNode a) st = (if field \<in> collect_fields a then (fst st, False) else st)"
| "visit_range field _ st = st"

definition extract_and_range :: "query_node \<Rightarrow> string \<Rightarrow> numeric_range" where
  "extract_and_range q field =
     (case visit_range field q (any_range, True) of (r, sound) \<Rightarrow> if sound then r else any_range)"

definition bucket_excluded :: "numeric_range \<Rightarrow> numeric_range \<Rightarrow> zone_map \<Rightarrow> bool" where
  "bucket_excluded ts dur z \<longleftrightarrow>
     (nr_constrained ts \<and> (zm_max_ts z < nr_lo ts \<or> nr_hi ts < zm_min_ts z))
     \<or> (nr_constrained dur \<and> (zm_max_dur z < nr_lo dur \<or> nr_hi dur < zm_min_dur z))"

definition sub_chunk_keep_mask :: "zone_map list \<Rightarrow> query_node \<Rightarrow> string \<Rightarrow> string \<Rightarrow> bool list" where
  "sub_chunk_keep_mask zs q ts_field dur_field =
     (if zs = [] then []
      else let ts = extract_and_range q ts_field; dur = extract_and_range q dur_field
           in if \<not> nr_constrained ts \<and> \<not> nr_constrained dur then []
              else let keep = map (\<lambda>z. \<not> bucket_excluded ts dur z) zs
                   in if list_all id keep then [] else keep)"

section \<open>Skipping\<close>

record skip_state =
  ss_bucket :: nat
  ss_ordinal :: nat
  ss_bucket_end :: nat

definition skip_init :: "nat list \<Rightarrow> skip_state" where
  "skip_init counts = \<lparr>ss_bucket = 0, ss_ordinal = 0, ss_bucket_end = counts ! 0\<rparr>"

function advance_bucket :: "nat list \<Rightarrow> skip_state \<Rightarrow> skip_state" where
  "advance_bucket counts s =
     (if ss_bucket_end s \<le> ss_ordinal s \<and> ss_bucket s + 1 < length counts
      then advance_bucket counts
             (s\<lparr>ss_bucket := ss_bucket s + 1, ss_bucket_end := ss_bucket_end s + counts ! (ss_bucket s + 1)\<rparr>)
      else s)"
  by pat_completeness auto
termination
  by (relation "measure (\<lambda>(counts, s). length counts - ss_bucket s)") auto

declare advance_bucket.simps [simp del]

text \<open>One document: metadata passes, a data event passes when its bucket is kept.\<close>

definition skip_step :: "nat list \<Rightarrow> bool list \<Rightarrow> json \<Rightarrow> skip_state \<Rightarrow> bool \<times> skip_state" where
  "skip_step counts keep j s =
     (if read_phase (obj_get (Some j) ''ph'') = PH_METADATA then (True, s)
      else let s' = advance_bucket counts s
           in (length keep \<le> ss_bucket s' \<or> keep ! ss_bucket s', s'\<lparr>ss_ordinal := ss_ordinal s' + 1\<rparr>))"

fun sub_skip_from :: "nat list \<Rightarrow> bool list \<Rightarrow> skip_state \<Rightarrow> json list \<Rightarrow> json list" where
  "sub_skip_from counts keep s [] = []"
| "sub_skip_from counts keep s (j # js) =
     (case skip_step counts keep j s of (pass, s') \<Rightarrow>
        (if pass then [j] else []) @ sub_skip_from counts keep s' js)"

definition sub_skip :: "nat list \<Rightarrow> bool list \<Rightarrow> json list \<Rightarrow> json list" where
  "sub_skip counts keep js = (if counts = [] then js else sub_skip_from counts keep (skip_init counts) js)"

text \<open>The counts a work item carries are 32 bits wide.\<close>

definition event_counts :: "zone_map list \<Rightarrow> nat list" where
  "event_counts zs = map (\<lambda>z. zm_count z mod 2 ^ 32) zs"

section \<open>What the zone maps say\<close>

definition data_events :: "json list \<Rightarrow> trace_event list" where
  "data_events js = List.map_filter data_event js"

lemma data_events_simps [simp]:
  "data_events [] = []"
  "data_events (j # js) = (case data_event j of None \<Rightarrow> data_events js | Some e \<Rightarrow> e # data_events js)"
  "data_events (xs @ ys) = data_events xs @ data_events ys"
  by (auto simp: data_events_def map_filter_def split: option.splits)

definition bucket_ok :: "zone_map \<Rightarrow> trace_event list \<Rightarrow> bool" where
  "bucket_ok z g \<longleftrightarrow> zm_count z = length g
     \<and> (\<forall>e \<in> set g. zm_min_ts z \<le> te_ts e \<and> te_ts e \<le> zm_max_ts z \<and> zm_min_dur z \<le> te_dur e \<and> te_dur e \<le> zm_max_dur z)"

definition zones_of :: "nat \<Rightarrow> zone_map list \<Rightarrow> trace_event list list \<Rightarrow> bool" where
  "zones_of per zs gs \<longleftrightarrow> list_all2 bucket_ok zs gs \<and> (\<forall>g \<in> set gs. length g \<le> per)"

lemma bucket_ok_observe: "bucket_ok z g \<Longrightarrow> bucket_ok (zone_observe (te_ts e) (te_dur e) z) (g @ [e])"
  by (auto simp: bucket_ok_def zone_observe_def min_def max_def)

lemma bucket_ok_new: "bucket_ok (zone_observe (te_ts e) (te_dur e) new_zone) [e]"
  by (auto simp: bucket_ok_def zone_observe_def new_zone_def min_def max_def)

lemma bucket_observe_zones:
  assumes "zones_of per zs gs" "0 < per"
  shows "\<exists>gs'. zones_of per (bucket_observe per (te_ts e) (te_dur e) zs) gs' \<and> concat gs' = concat gs @ [e]"
proof (cases "zs = [] \<or> per \<le> zm_count (last zs)")
  case True
  then have "bucket_observe per (te_ts e) (te_dur e) zs = zs @ [zone_observe (te_ts e) (te_dur e) new_zone]"
    using assms(2) by (simp add: bucket_observe_def)
  with assms bucket_ok_new have "zones_of per (bucket_observe per (te_ts e) (te_dur e) zs) (gs @ [[e]])"
    by (auto simp: zones_of_def intro!: list_all2_appendI)
  then show ?thesis by (intro exI [of _ "gs @ [[e]]"]) simp
next
  case False
  then obtain zs0 z where zs: "zs = zs0 @ [z]" by (metis append_butlast_last_id)
  with assms(1) obtain gs0 g where gs: "gs = gs0 @ [g]" "list_all2 bucket_ok zs0 gs0" "bucket_ok z g"
    by (auto simp: zones_of_def list_all2_append1 list_all2_Cons1)
  then have "length g < per" using False zs by (simp add: bucket_ok_def)
  moreover have "bucket_observe per (te_ts e) (te_dur e) zs = zs0 @ [zone_observe (te_ts e) (te_dur e) z]"
    using False zs assms(2) by (simp add: bucket_observe_def)
  ultimately have "zones_of per (bucket_observe per (te_ts e) (te_dur e) zs) (gs0 @ [g @ [e]])"
    using gs assms(1) bucket_ok_observe [OF gs(3)] by (auto simp: zones_of_def intro!: list_all2_appendI)
  then show ?thesis using gs(1) by (intro exI [of _ "gs0 @ [g @ [e]]"]) simp
qed

lemma index_records_zones:
  assumes "zones_of per zs gs" "0 < per"
  shows "\<exists>gs'. zones_of per (fold (index_record per) js zs) gs' \<and> concat gs' = concat gs @ data_events js"
  using assms(1)
proof (induction js arbitrary: zs gs)
  case (Cons j js)
  show ?case
  proof (cases "data_event j")
    case None
    with Cons show ?thesis by (simp add: index_record_def)
  next
    case (Some e)
    obtain gs' where g: "zones_of per (index_record per j zs) gs'" "concat gs' = concat gs @ [e]"
      using bucket_observe_zones [OF Cons.prems assms(2), of e] Some by (auto simp: index_record_def)
    from Cons.IH [OF g(1)] g(2) Some show ?thesis by auto
  qed
qed auto

lemma index_slice_zones: "0 < per \<Longrightarrow> \<exists>gs. zones_of per (index_slice per js) gs \<and> concat gs = data_events js"
  using index_records_zones [of per "[]" "[]" js] by (simp add: index_slice_def zones_of_def)

lemma index_chunk_append: "index_chunk per (slices @ [s]) = index_chunk per slices @ index_slice per s"
  by (simp add: index_chunk_def merge_buckets_def)

lemma index_chunk_zones:
  assumes "0 < per"
  shows "\<exists>gs. zones_of per (index_chunk per slices) gs \<and> concat gs = data_events (concat slices)"
proof (induction slices rule: rev_induct)
  case Nil
  then show ?case by (simp add: index_chunk_def zones_of_def)
next
  case (snoc s slices)
  then obtain gs where "zones_of per (index_chunk per slices) gs" "concat gs = data_events (concat slices)" by blast
  moreover obtain hs where "zones_of per (index_slice per s) hs" "concat hs = data_events s"
    using index_slice_zones [OF assms] by blast
  ultimately show ?case
    by (intro exI [of _ "gs @ hs"]) (auto simp: index_chunk_append zones_of_def intro!: list_all2_appendI)
qed

lemma index_chunk_off: "index_chunk 0 slices = []"
proof -
  have "fold (index_record 0) js [] = []" for js
    by (induction js) (auto simp: index_record_def bucket_observe_def split: option.splits)
  then show ?thesis
    by (induction slices rule: rev_induct) (auto simp: index_chunk_append index_slice_def, simp add: index_chunk_def)
qed

section \<open>What a range says of a matching event\<close>

definition in_range :: "numeric_range \<Rightarrow> nat \<Rightarrow> bool" where
  "in_range r u \<longleftrightarrow> nr_lo r \<le> u \<and> u \<le> nr_hi r"

lemma compare_uint_exact:
  assumes "value_ok fv" "is_uint fv" "lit_u64 lit = Some v"
  shows "compare_value fv lit = Some (three_way (get_u64 fv) v)"
proof -
  obtain n u where fv: "fv = Some (JNum n)" "dom_u64 n = Some u" using assms(2) by (cases fv rule: is_uint.cases) auto
  with assms(1) have i: "dom_i64 n = None \<or> dom_i64 n = Some (int u)"
    by (auto simp: dom_num_ok_def split: option.splits if_splits)
  then show ?thesis using fv assms(3) by (cases lit) (auto simp: three_way_def split: if_splits)
qed

lemma constrain_range:
  assumes "apply_compare op (Some (three_way u v))" "in_range r u" "u \<le> UINT64_MAX"
  shows "in_range (constrain op v r) u"
  using assms by (cases op) (auto simp: in_range_def three_way_def split: if_splits)

lemma visit_range_unsound: "snd (visit_range field q st) \<Longrightarrow> snd st"
  by (induction field q st rule: visit_range.induct) (auto split: if_splits option.splits)

definition column_clear :: "json \<Rightarrow> string \<Rightarrow> bool" where
  "column_clear j k \<longleftrightarrow> (if is_uint (obj_get (Some j) k) then get_u64 (obj_get (Some j) k) \<le> UINT64_MAX else is_null (field_of j k))"

lemma visit_range_sound:
  assumes "json_ok j" "is_uint (field_of j field)" "get_u64 (field_of j field) \<le> UINT64_MAX"
  shows "evaluate R q (Some j) \<Longrightarrow> snd (visit_range field q st) \<Longrightarrow> in_range (fst st) (get_u64 (field_of j field))
    \<Longrightarrow> in_range (fst (visit_range field q st)) (get_u64 (field_of j field))"
proof (induction q arbitrary: st)
  case (CompareNode f op v)
  note 1 = CompareNode
  show ?case
  proof (cases "f = field")
    case True
    with 1 obtain n where n: "lit_u64 v = Some n" by (cases "lit_u64 v") auto
    have "apply_compare op (compare_value (field_of j field) v)"
      using 1(1) True by (simp add: eval_compare_def field_of_def Let_def split: if_splits)
    moreover have "value_ok (field_of j field)"
      using resolve_field_ok [of "Some j" field] assms(1) by (simp add: field_of_def)
    ultimately have "apply_compare op (Some (three_way (get_u64 (field_of j field)) n))"
      using compare_uint_exact [OF _ assms(2) n] by metis
    from constrain_range [OF this _ assms(3)] show ?thesis using 1 True n by simp
  qed (use 1 in auto)
next
  case (AndNode q1 q2)
  from AndNode.prems(2) have "snd (visit_range field q1 st)" by (auto dest: visit_range_unsound)
  with AndNode show ?case by simp
qed (auto split: if_splits)

lemma visit_range_null:
  assumes "is_null (field_of j field)"
  shows "evaluate R q (Some j) \<Longrightarrow> snd (visit_range field q st) \<Longrightarrow> nr_constrained (fst (visit_range field q st)) = nr_constrained (fst st)"
proof (induction q arbitrary: st)
  case (CompareNode f op v)
  note 1 = CompareNode
  have "\<not> evaluate R (CompareNode field op v) (Some j)"
    using assms by (simp add: eval_compare_def field_of_def Let_def)
  with CompareNode(1) show ?case by (cases "f = field") auto
next
  case (AndNode q1 q2)
  from AndNode.prems(2) have "snd (visit_range field q1 st)" by (auto dest: visit_range_unsound)
  with AndNode show ?case by simp
qed (auto split: if_splits)

section \<open>Columns of a record\<close>

text \<open>
  A record that indexing and reading see alike: an object with distinct keys and a \<^verbatim>\<open>ph\<close>, whose \<^verbatim>\<open>ts\<close>
  and \<^verbatim>\<open>dur\<close> are unsigned numbers, or missing and not given as arguments either.
\<close>

definition indexed_record :: "json \<Rightarrow> bool" where
  "indexed_record j \<longleftrightarrow>
     (case j of
        JObject ms \<Rightarrow> distinct (map fst ms) \<and> ''ph'' \<in> set (map fst ms)
      | _ \<Rightarrow> False)
     \<and> json_ok j \<and> column_clear j ''ts'' \<and> column_clear j ''dur''"

lemma parse_member_other:
  "k \<noteq> ''ts'' \<Longrightarrow> te_ts (parse_member (k, j) e) = te_ts e"
  "k \<noteq> ''dur'' \<Longrightarrow> te_dur (parse_member (k, j) e) = te_dur e"
  "k \<noteq> ''ph'' \<Longrightarrow> te_phase (parse_member (k, j) e) = te_phase e"
  by (simp_all add: parse_member_def Let_def split: json.splits)

lemma parse_member_own [simp]:
  "te_ts (parse_member (''ts'', j) e) = get_u64 (Some j)"
  "te_dur (parse_member (''dur'', j) e) = get_u64 (Some j)"
  "te_phase (parse_member (''ph'', j) e) = read_phase (Some j)"
  by (simp_all add: parse_member_def Let_def)

lemma parse_members_other:
  "''ts'' \<notin> fst ` set ms \<Longrightarrow> te_ts (fold parse_member ms e) = te_ts e"
  "''dur'' \<notin> fst ` set ms \<Longrightarrow> te_dur (fold parse_member ms e) = te_dur e"
  "''ph'' \<notin> fst ` set ms \<Longrightarrow> te_phase (fold parse_member ms e) = te_phase e"
  by (induction ms arbitrary: e) (auto simp: parse_member_other)

lemma parse_columns:
  assumes "distinct (map fst ms)"
  shows "te_ts (fold parse_member ms empty_event) = get_u64 (map_of ms ''ts'')"
    and "te_dur (fold parse_member ms empty_event) = get_u64 (map_of ms ''dur'')"
    and "''ph'' \<in> fst ` set ms \<Longrightarrow> te_phase (fold parse_member ms empty_event) = read_phase (map_of ms ''ph'')"
proof -
  have split: "\<exists>xs j ys. ms = xs @ (k, j) # ys \<and> k \<notin> fst ` set xs \<and> k \<notin> fst ` set ys \<and> map_of ms k = Some j"
    if mem: "k \<in> fst ` set ms" for k
  proof -
    obtain j where j: "(k, j) \<in> set ms" using mem by auto
    then obtain xs ys where "ms = xs @ (k, j) # ys" by (meson split_list)
    moreover have "map_of ms k = Some j" using assms j by (rule map_of_is_SomeI)
    ultimately show ?thesis using assms by (intro exI [of _ xs] exI [of _ j] exI [of _ ys]) auto
  qed
  have none: "map_of ms k = None" if "k \<notin> fst ` set ms" for k using that by (simp add: map_of_eq_None_iff)
  show "te_ts (fold parse_member ms empty_event) = get_u64 (map_of ms ''ts'')"
  proof (cases "''ts'' \<in> fst ` set ms")
    case True
    from split [OF this] show ?thesis by (auto simp: parse_members_other)
  qed (simp add: none parse_members_other empty_event_def)
  show "te_dur (fold parse_member ms empty_event) = get_u64 (map_of ms ''dur'')"
  proof (cases "''dur'' \<in> fst ` set ms")
    case True
    from split [OF this] show ?thesis by (auto simp: parse_members_other)
  qed (simp add: none parse_members_other empty_event_def)
  show "te_phase (fold parse_member ms empty_event) = read_phase (map_of ms ''ph'')" if "''ph'' \<in> fst ` set ms"
    using split [OF that] by (auto simp: parse_members_other)
qed

lemma indexed_record_event:
  assumes "indexed_record j"
  shows "\<exists>e. te_ts e = get_u64 (obj_get (Some j) ''ts'') \<and> te_dur e = get_u64 (obj_get (Some j) ''dur'')
    \<and> data_event j = (if read_phase (obj_get (Some j) ''ph'') = PH_METADATA then None else Some e)"
proof -
  obtain ms where j: "j = JObject ms" "distinct (map fst ms)" "''ph'' \<in> fst ` set ms"
    using assms by (auto simp: indexed_record_def split: json.splits)
  then show ?thesis
    by (intro exI [of _ "fold parse_member ms empty_event"])
       (simp add: data_event_def parse_event_def is_metadata_def parse_columns)
qed

lemma column_field:
  assumes "is_object (Some j)" "is_uint (obj_get (Some j) k)" "k \<noteq> []" "\<forall>c \<in> set k. key_char c \<and> c \<noteq> CHR 0x00"
  shows "field_of j k = obj_get (Some j) k"
proof -
  have "\<not> is_null (obj_get (Some j) k)" using assms(2) by (cases "obj_get (Some j) k" rule: is_uint.cases) auto
  then show ?thesis using at_path_plain [OF assms(3,4,1)] by (simp add: field_of_def resolve_field_def)
qed

text \<open>A matching event lies in every range the query is found to constrain.\<close>

lemma extract_sound:
  assumes "json_ok j" "is_object (Some j)" "column_clear j k" "k \<noteq> []" "\<forall>c \<in> set k. key_char c \<and> c \<noteq> CHR 0x00"
    and "evaluate R q (Some j)" "nr_constrained (extract_and_range q k)"
  shows "in_range (extract_and_range q k) (get_u64 (obj_get (Some j) k))"
proof (cases "is_uint (obj_get (Some j) k)")
  case True
  note f = column_field [OF assms(2) True assms(4,5)]
  have "get_u64 (field_of j k) \<le> UINT64_MAX" using assms(3) True f by (simp add: column_clear_def)
  from visit_range_sound [OF assms(1) _ this assms(6), of "(any_range, True)"] this f True assms(7)
  show ?thesis
    by (auto simp: extract_and_range_def any_range_def in_range_def split: prod.splits if_splits)
next
  case False
  then have "is_null (field_of j k)" using assms(3) by (simp add: column_clear_def)
  from visit_range_null [OF this assms(6), of "(any_range, True)"] assms(7)
  show ?thesis by (auto simp: extract_and_range_def any_range_def split: prod.splits if_splits)
qed

lemma excluded_no_match:
  assumes "bucket_excluded (extract_and_range q ''ts'') (extract_and_range q ''dur'') z" "bucket_ok z g" "e \<in> set g"
    "indexed_record j" "data_event j = Some e"
  shows "\<not> evaluate R q (Some j)"
proof
  assume ev: "evaluate R q (Some j)"
  obtain ms where j: "j = JObject ms" using assms(4) by (auto simp: indexed_record_def split: json.splits)
  have e: "te_ts e = get_u64 (obj_get (Some j) ''ts'')" "te_dur e = get_u64 (obj_get (Some j) ''dur'')"
    using indexed_record_event [OF assms(4)] assms(5) by (auto split: if_splits)
  note ok = assms(4) [unfolded indexed_record_def]
  have "in_range (extract_and_range q ''ts'') (te_ts e)" if "nr_constrained (extract_and_range q ''ts'')"
    unfolding e by (rule extract_sound [OF _ _ _ _ _ ev that]) (use ok j in \<open>auto simp: key_char_def\<close>)
  moreover have "in_range (extract_and_range q ''dur'') (te_dur e)" if "nr_constrained (extract_and_range q ''dur'')"
    unfolding e by (rule extract_sound [OF _ _ _ _ _ ev that]) (use ok j in \<open>auto simp: key_char_def\<close>)
  ultimately show False using assms(1-3) by (fastforce simp: bucket_excluded_def bucket_ok_def in_range_def)
qed

section \<open>Which bucket an event is in\<close>

lemma nth_concat_bucket:
  "sum_list (map length (take b gs)) \<le> n \<Longrightarrow> n < sum_list (map length (take (Suc b) gs)) \<Longrightarrow> b < length gs
    \<Longrightarrow> concat gs ! n \<in> set (gs ! b)"
proof (induction gs arbitrary: b n)
  case (Cons g gs)
  then show ?case by (cases b) (auto simp: nth_append)
qed simp

definition at_bucket :: "nat list \<Rightarrow> nat \<Rightarrow> skip_state \<Rightarrow> bool" where
  "at_bucket counts n s \<longleftrightarrow> ss_ordinal s = n \<and> ss_bucket s < length counts
     \<and> sum_list (take (ss_bucket s) counts) \<le> n \<and> ss_bucket_end s = sum_list (take (Suc (ss_bucket s)) counts)"

lemma advance_at_bucket:
  assumes "at_bucket counts n s"
  shows "at_bucket counts n (advance_bucket counts s)
    \<and> (n < ss_bucket_end (advance_bucket counts s) \<or> Suc (ss_bucket (advance_bucket counts s)) = length counts)"
  using assms
proof (induction counts s rule: advance_bucket.induct)
  case (1 counts s)
  show ?case
  proof (cases "ss_bucket_end s \<le> ss_ordinal s \<and> ss_bucket s + 1 < length counts")
    case True
    let ?s = "s\<lparr>ss_bucket := ss_bucket s + 1, ss_bucket_end := ss_bucket_end s + counts ! (ss_bucket s + 1)\<rparr>"
    have "at_bucket counts n ?s"
      using True "1.prems" by (auto simp: at_bucket_def take_Suc_conv_app_nth)
    from "1.IH" [OF True this] True show ?thesis by (subst (1 2 3) advance_bucket.simps) simp
  next
    case False
    with "1.prems" show ?thesis by (subst (1 2 3) advance_bucket.simps) (auto simp: at_bucket_def)
  qed
qed

section \<open>Skipping loses nothing\<close>

text \<open>The mask belongs to the groups: every event of an excluded bucket fails the query.\<close>

definition mask_sound :: "(json \<Rightarrow> bool) \<Rightarrow> bool list \<Rightarrow> trace_event list list \<Rightarrow> bool" where
  "mask_sound match keep gs \<longleftrightarrow>
     (\<forall>b < length gs. b < length keep \<and> \<not> keep ! b \<longrightarrow>
        (\<forall>j e. indexed_record j \<and> data_event j = Some e \<and> e \<in> set (gs ! b) \<longrightarrow> \<not> match j))"

lemma sub_skip_from_sound:
  assumes "mask_sound match keep gs" "counts = map length gs"
  shows "concat gs = done @ data_events js \<Longrightarrow> \<forall>j \<in> set js. indexed_record j \<Longrightarrow> at_bucket counts (length done) s
    \<Longrightarrow> filter match (sub_skip_from counts keep s js) = filter match js"
proof (induction js arbitrary: "done" s)
  case (Cons j js)
  obtain e where e: "data_event j = (if read_phase (obj_get (Some j) ''ph'') = PH_METADATA then None else Some e)"
    using indexed_record_event [of j] Cons.prems(2) by auto
  show ?case
  proof (cases "read_phase (obj_get (Some j) ''ph'') = PH_METADATA")
    case True
    with Cons e show ?thesis by (simp add: skip_step_def)
  next
    case False
    with e have d: "data_event j = Some e" by simp
    define s' where "s' = advance_bucket counts s"
    note adv = advance_at_bucket [OF Cons.prems(3), folded s'_def]
    have cg: "concat gs = done @ e # data_events js" using Cons.prems(1) d by simp
    then have len: "length done < sum_list counts" using assms(2) length_concat [of gs] by simp
    have b: "ss_bucket s' < length gs" "sum_list (map length (take (ss_bucket s') gs)) \<le> length done"
      "ss_bucket_end s' = sum_list (map length (take (Suc (ss_bucket s')) gs))"
      using adv assms(2) by (auto simp: at_bucket_def take_map)
    have "length done < ss_bucket_end s'"
      using adv len assms(2) b(3) by (auto simp: take_map)
    with nth_concat_bucket [OF b(2) _ b(1)] b(3) cg have "e \<in> set (gs ! ss_bucket s')"
      by (simp add: nth_append)
    then have match: "\<not> (length keep \<le> ss_bucket s' \<or> keep ! ss_bucket s') \<Longrightarrow> \<not> match j"
      using assms(1) b(1) d Cons.prems(2) by (auto simp: mask_sound_def)
    have "at_bucket counts (length (done @ [e])) (s'\<lparr>ss_ordinal := ss_ordinal s' + 1\<rparr>)"
      using adv by (simp add: at_bucket_def)
    from Cons.IH [OF _ _ this] cg Cons.prems(2)
    have "filter match (sub_skip_from counts keep (s'\<lparr>ss_ordinal := ss_ordinal s' + 1\<rparr>) js) = filter match js" by simp
    then show ?thesis using False match by (simp add: skip_step_def Let_def s'_def [symmetric])
  qed
qed simp

lemma keep_mask_nth:
  assumes "sub_chunk_keep_mask zs q tf df \<noteq> []"
  shows "sub_chunk_keep_mask zs q tf df = map (\<lambda>z. \<not> bucket_excluded (extract_and_range q tf) (extract_and_range q df) z) zs" "zs \<noteq> []"
  using assms by (auto simp: sub_chunk_keep_mask_def Let_def split: if_splits)

lemma mask_sound_zones:
  assumes "zones_of per zs gs" "sub_chunk_keep_mask zs q ''ts'' ''dur'' \<noteq> []"
  shows "mask_sound (\<lambda>j. evaluate R q (Some j)) (sub_chunk_keep_mask zs q ''ts'' ''dur'') gs"
proof -
  have l: "length zs = length gs" and ok: "\<And>b. b < length gs \<Longrightarrow> bucket_ok (zs ! b) (gs ! b)"
    using assms(1) by (auto simp: zones_of_def list_all2_conv_all_nth)
  show ?thesis
    unfolding mask_sound_def keep_mask_nth(1) [OF assms(2)]
    using l ok excluded_no_match by (metis nth_map)
qed

lemma event_counts_zones: "zones_of per zs gs \<Longrightarrow> per < 2 ^ 32 \<Longrightarrow> event_counts zs = map length gs"
  unfolding event_counts_def zones_of_def
  by (rule nth_equalityI) (auto simp: list_all2_conv_all_nth bucket_ok_def intro!: mod_less dest: bspec [OF _ nth_mem])

lemma sub_skip_sound:
  assumes "\<forall>j \<in> set (concat slices). indexed_record j" "per < 2 ^ 32"
    and "zones = index_chunk per slices" "sub_chunk_keep_mask zones q ''ts'' ''dur'' \<noteq> []"
  shows "filter (\<lambda>j. evaluate R q (Some j)) (sub_skip (event_counts zones) (sub_chunk_keep_mask zones q ''ts'' ''dur'') (concat slices))
    = filter (\<lambda>j. evaluate R q (Some j)) (concat slices)"
proof -
  have "zones \<noteq> []" by (rule keep_mask_nth(2) [OF assms(4)])
  then have "0 < per" using index_chunk_off assms(3) by (cases per) auto
  then obtain gs where gs: "zones_of per zones gs" "concat gs = data_events (concat slices)"
    using index_chunk_zones assms(3) by blast
  note c = event_counts_zones [OF gs(1) assms(2)]
  have "at_bucket (event_counts zones) (length ([] :: trace_event list)) (skip_init (event_counts zones))"
    using \<open>zones \<noteq> []\<close> by (cases "event_counts zones") (auto simp: at_bucket_def skip_init_def event_counts_def)
  from sub_skip_from_sound [OF mask_sound_zones [OF gs(1) assms(4), of R] c, of "[]"] gs(2) assms(1) this
  show ?thesis by (simp add: sub_skip_def)
qed

text \<open>
  C5: Skipping sub-chunk buckets does not change the result of a query on records that indexing and reading
  see alike. Take the documents of a chunk, indexed in any number of slices with at most \<open>2 ^ 32 - 1\<close>
  events to a bucket. Every document is an \<open>indexed_record\<close>: a JSON object with distinct keys, one of them
  \<open>ph\<close>, whose \<open>ts\<close> and \<open>dur\<close> are unsigned 64-bit integers, or missing or null and then not given in \<open>args\<close>
  either. Where the mask that the query gets from the zone maps excludes buckets, the reader, counting
  data events, passes on exactly the same matching documents as if it skipped nothing. Outside, the code
  differs: a record without \<open>ph\<close> shifts the count (\<open>record_without_phase_desyncs\<close>), and a record with a
  fractional time is skipped although it matches (\<open>fractional_time_skipped\<close>).
\<close>

theorem sub_skip_exact:
  assumes "\<forall>j \<in> set (concat slices). indexed_record j" "per < 2 ^ 32"
    and "zones = index_chunk per slices" "sub_chunk_keep_mask zones q ''ts'' ''dur'' \<noteq> []"
  shows "filter (\<lambda>j. evaluate R q (Some j)) (sub_skip (event_counts zones) (sub_chunk_keep_mask zones q ''ts'' ''dur'') (concat slices))
    = filter (\<lambda>j. evaluate R q (Some j)) (concat slices)"
  by (rule sub_skip_sound [OF assms])

text \<open>Six events of duration 1, 2, 3, 10, 11, 12 in buckets of two, and a query for \<open>dur >= 10\<close>.\<close>

definition sample_num :: "nat \<Rightarrow> json" where
  "sample_num d = JNum \<lparr>dom_i64 = Some (int d), dom_u64 = Some d, dom_f64 = None\<rparr>"

definition sample_record :: "nat \<Rightarrow> json" where
  "sample_record d = JObject [(''ph'', JString ''X''), (''ts'', sample_num 100), (''dur'', sample_num d)]"

definition sample_records :: "json list" where
  "sample_records = map sample_record [1, 2, 3, 10, 11, 12]"

definition sample_query :: query_node where
  "sample_query = CompareNode ''dur'' GE (LI64 10)"

lemma sample_data_event [simp]:
  "data_event (sample_record d) = Some (empty_event\<lparr>te_phase := PH_COMPLETE, te_ts := 100, te_dur := d, te_has_dur := True\<rparr>)"
  by (simp add: data_event_def sample_record_def sample_num_def parse_event_def parse_member_def read_phase_def
      phase_from_letter_def is_metadata_def empty_event_def)

lemmas zone_eval = index_chunk_def merge_buckets_def index_slice_def index_record_def bucket_observe_def new_zone_def
  zone_observe_def event_counts_def UINT64_MAX_def empty_event_def
lemmas mask_eval = sub_chunk_keep_mask_def bucket_excluded_def any_range_def

lemma sample_ranges [simp]:
  "extract_and_range sample_query ''ts'' = any_range"
  "extract_and_range sample_query ''dur'' = any_range\<lparr>nr_lo := 10, nr_constrained := True\<rparr>"
  by (simp_all add: extract_and_range_def sample_query_def any_range_def)

lemma sub_skip_exact_witness:
  "event_counts (index_chunk 2 [sample_records]) = [2, 2, 2]
   \<and> sub_chunk_keep_mask (index_chunk 2 [sample_records]) sample_query ''ts'' ''dur'' = [False, True, True]
   \<and> filter (\<lambda>j. evaluate ex_lib sample_query (Some j)) (sub_skip [2, 2, 2] [False, True, True] sample_records)
     = filter (\<lambda>j. evaluate ex_lib sample_query (Some j)) sample_records"
proof -
  have e: "event_counts (index_chunk 2 [sample_records]) = [2, 2, 2]"
    "sub_chunk_keep_mask (index_chunk 2 [sample_records]) sample_query ''ts'' ''dur'' = [False, True, True]"
    by (simp_all add: sample_records_def zone_eval mask_eval)
  have "\<forall>j \<in> set (concat [sample_records]). indexed_record j"
    by (simp add: sample_records_def sample_record_def indexed_record_def column_clear_def sample_num_def dom_num_ok_def
        INT64_MAX_def INT64_MIN_def UINT64_MAX_def)
  from sub_skip_exact [OF this, of 2 "index_chunk 2 [sample_records]" sample_query ex_lib] e
  show ?thesis by simp
qed

text \<open>
  The reader counts what indexing does not: a document without \<^verbatim>\<open>ph\<close> shifts the buckets, and so does
  a first line that is dropped. A fractional time is zero in the zone map.
\<close>

definition selected :: "query_node \<Rightarrow> json list \<Rightarrow> nat list" where
  "selected q js = map (\<lambda>j. get_u64 (obj_get (Some j) ''dur'')) (filter (\<lambda>j. evaluate ex_lib q (Some j)) js)"

definition skipped_read :: "nat \<Rightarrow> query_node \<Rightarrow> json list \<Rightarrow> json list \<Rightarrow> json list" where
  "skipped_read per q indexed seen =
     (let zs = index_chunk per [indexed]; keep = sub_chunk_keep_mask zs q ''ts'' ''dur''
      in if keep = [] then seen else sub_skip (event_counts zs) keep seen)"

definition bare_record :: json where "bare_record = JObject [(''a'', JNull)]"

definition fractional_record :: json where
  "fractional_record = JObject [(''ph'', JString ''X''), (''ts'', JNum (num_of_f64 (25 / 2))), (''dur'', sample_num 3)]"

lemma sample_fields [simp]:
  "obj_get (Some (sample_record d)) ''dur'' = Some (sample_num d)"
  "read_phase (obj_get (Some (sample_record d)) ''ph'') = PH_COMPLETE"
  "read_phase (obj_get (Some bare_record) ''ph'') = PH_UNKNOWN"
  "get_u64 (Some (sample_num d)) = d"
  by (simp_all add: sample_record_def sample_num_def bare_record_def read_phase_def phase_from_letter_def)

lemma sample_matches [simp]: "evaluate ex_lib sample_query (Some (sample_record d)) \<longleftrightarrow> 10 \<le> d"
proof -
  have "resolve_field (Some (sample_record d)) ''dur'' = Some (sample_num d)"
    using column_field [of "sample_record d" "''dur''"] by (simp add: field_of_def sample_record_def sample_num_def key_char_def)
  then show ?thesis by (auto simp: sample_query_def eval_compare_def sample_num_def three_way_def)
qed

lemma bare_record_facts [simp]: "data_event bare_record = None" "\<not> evaluate ex_lib sample_query (Some bare_record)"
proof -
  show "data_event bare_record = None" by (simp add: data_event_def bare_record_def parse_event_def)
  have "is_null (resolve_field (Some bare_record) ''dur'')" by code_simp
  then show "\<not> evaluate ex_lib sample_query (Some bare_record)" by (simp add: sample_query_def eval_compare_def)
qed

lemmas skip_eval = selected_def skipped_read_def sub_skip_def skip_init_def skip_step_def advance_bucket.simps

lemma record_without_phase_desyncs:
  "selected sample_query (bare_record # map sample_record [10, 11, 1, 2]) = [10, 11]"
  "selected sample_query (skipped_read 2 sample_query (bare_record # map sample_record [10, 11, 1, 2])
     (bare_record # map sample_record [10, 11, 1, 2])) = [10]"
  by (simp add: skip_eval) (simp add: skip_eval zone_eval mask_eval)

lemma dropped_line_desyncs:
  "selected sample_query (map sample_record [2, 10, 11]) = [10, 11]"
  "selected sample_query (skipped_read 2 sample_query (map sample_record [1, 2, 10, 11]) (map sample_record [2, 10, 11])) = [11]"
  by (simp add: skip_eval) (simp add: skip_eval zone_eval mask_eval)

lemma fractional_time_skipped:
  "selected (CompareNode ''ts'' GT (LI64 10)) [fractional_record] = [3]"
  "selected (CompareNode ''ts'' GT (LI64 10)) (skipped_read 2 (CompareNode ''ts'' GT (LI64 10)) [fractional_record] [fractional_record]) = []"
proof -
  have f: "at_path (Some fractional_record) ''ts'' = Some (JNum (num_of_f64 (25 / 2)))"
    by (subst at_path_plain) (simp_all add: fractional_record_def key_char_def)
  have "f64_of_int 10 = 10" using f64_of_int_exact [of 10] by simp
  then have m: "evaluate ex_lib (CompareNode ''ts'' GT (LI64 10)) (Some fractional_record)"
    using f by (simp add: eval_compare_def resolve_field_def num_of_f64_def three_way_def)
  moreover have d: "get_u64 (obj_get (Some fractional_record) ''dur'') = 3" by (simp add: fractional_record_def sample_num_def)
  ultimately show "selected (CompareNode ''ts'' GT (LI64 10)) [fractional_record] = [3]" by (simp add: selected_def)
  have "data_event fractional_record = Some (empty_event\<lparr>te_phase := PH_COMPLETE, te_ts := 0, te_dur := 3, te_has_dur := True\<rparr>)"
    by (simp add: data_event_def fractional_record_def num_of_f64_def sample_num_def parse_event_def parse_member_def read_phase_def
        phase_from_letter_def is_metadata_def empty_event_def)
  moreover have "read_phase (obj_get (Some fractional_record) ''ph'') = PH_COMPLETE"
    by (simp add: fractional_record_def read_phase_def phase_from_letter_def)
  ultimately show "selected (CompareNode ''ts'' GT (LI64 10))
      (skipped_read 2 (CompareNode ''ts'' GT (LI64 10)) [fractional_record] [fractional_record]) = []"
    by (simp add: skip_eval zone_eval mask_eval extract_and_range_def)
qed

end
