(* ===== verification/GzipStream.thy ===== *)
theory GzipStream
  imports Prelude
begin

text \<open>
  Random access to the uncompressed bytes of a gzip file: \<^verbatim>\<open>ReaderInflater\<close> of
  \<^verbatim>\<open>utilities/reader/internal/inflater.h\<close>, the member lookup of \<^verbatim>\<open>gzip_indexer.cpp\<close> and the byte
  stream of \<^verbatim>\<open>streams/gzip_byte_stream.h\<close> over \<^verbatim>\<open>gzip_stream.h\<close>.

  libdeflate is a parameter: \<open>gz_decode\<close> gives, for a compressed offset, the bytes of the member that
  starts there and its compressed size, or nothing when it does not decode. A stream remembers where it
  is; \<open>rest_of\<close> says which bytes are still to come.
\<close>

section \<open>The inflater\<close>

record gz_file =
  gz_size :: nat
  gz_decode :: "nat \<Rightarrow> (string \<times> nat) option"

record inflater =
  in_data :: string
  in_pos :: nat
  in_comp_off :: nat
  in_exhausted :: bool

definition begin_at :: "nat \<Rightarrow> inflater" where
  "begin_at off = \<lparr>in_data = [], in_pos = 0, in_comp_off = off, in_exhausted = False\<rparr>"

definition decode_next_member :: "gz_file \<Rightarrow> inflater \<Rightarrow> bool \<times> inflater" where
  "decode_next_member G s =
     (let s0 = s\<lparr>in_data := [], in_pos := 0\<rparr>
      in if gz_size G \<le> in_comp_off s then (True, s0)
         else case gz_decode G (in_comp_off s) of
             None \<Rightarrow> (False, s0)
           | Some (d, used) \<Rightarrow> (True, s0\<lparr>in_data := d, in_comp_off := in_comp_off s + used\<rparr>))"

text \<open>
  The head of the reading loops: whether the decoder succeeded, whether there are bytes to take, and
  the state. A member without bytes ends the stream.
\<close>

definition refill :: "gz_file \<Rightarrow> inflater \<Rightarrow> bool \<times> bool \<times> inflater" where
  "refill G s =
     (if in_pos s < length (in_data s) then (True, True, s)
      else if in_exhausted s then (True, False, s)
      else case decode_next_member G s of
          (False, s') \<Rightarrow> (False, False, s')
        | (True, s') \<Rightarrow> if in_data s' = [] then (True, False, s'\<lparr>in_exhausted := True\<rparr>) else (True, True, s'))"

lemma refill_more: "refill G s = (True, True, s') \<Longrightarrow> in_pos s' < length (in_data s')"
  by (auto simp: refill_def decode_next_member_def Let_def split: if_splits option.splits prod.splits bool.splits)

function inflater_read :: "gz_file \<Rightarrow> nat \<Rightarrow> inflater \<Rightarrow> bool \<times> string \<times> inflater" where
  "inflater_read G n s =
     (if n = 0 then (True, [], s)
      else case refill G s of
          (False, _, s') \<Rightarrow> (False, [], s')
        | (True, False, s') \<Rightarrow> (True, [], s')
        | (True, True, s') \<Rightarrow>
            let k = min n (length (in_data s') - in_pos s');
                (ok, out, s'') = inflater_read G (n - k) (s'\<lparr>in_pos := in_pos s' + k\<rparr>)
            in (ok, take k (drop (in_pos s') (in_data s')) @ out, s''))"
  by pat_completeness auto
termination
  by (relation "measure (\<lambda>(G, n, s). n)") (auto dest: refill_more [OF sym])

function inflater_skip :: "gz_file \<Rightarrow> nat \<Rightarrow> inflater \<Rightarrow> bool \<times> inflater" where
  "inflater_skip G n s =
     (if n = 0 then (True, s)
      else case refill G s of
          (False, _, s') \<Rightarrow> (False, s')
        | (True, False, s') \<Rightarrow> (False, s')
        | (True, True, s') \<Rightarrow>
            let k = min n (length (in_data s') - in_pos s')
            in inflater_skip G (n - k) (s'\<lparr>in_pos := in_pos s' + k\<rparr>))"
  by pat_completeness auto
termination
  by (relation "measure (\<lambda>(G, n, s). n)") (auto dest: refill_more [OF sym])

declare inflater_read.simps [simp del] inflater_skip.simps [simp del]

section \<open>The bytes to come\<close>

inductive members_from :: "gz_file \<Rightarrow> nat \<Rightarrow> string list \<Rightarrow> bool" for G where
  at_end: "gz_size G \<le> c \<Longrightarrow> members_from G c []"
| member: "c < gz_size G \<Longrightarrow> gz_decode G c = Some (d, used) \<Longrightarrow> d \<noteq> [] \<Longrightarrow> members_from G (c + used) ds
    \<Longrightarrow> members_from G c (d # ds)"

inductive_cases members_fromE: "members_from G c ds"

definition rest_of :: "gz_file \<Rightarrow> inflater \<Rightarrow> string \<Rightarrow> bool" where
  "rest_of G s r \<longleftrightarrow> (\<exists>ds. members_from G (in_comp_off s) ds \<and> (in_exhausted s \<longrightarrow> ds = [])
     \<and> r = drop (in_pos s) (in_data s) @ concat ds)"

lemma rest_of_begin: "members_from G c ds \<Longrightarrow> rest_of G (begin_at c) (concat ds)"
  by (auto simp: rest_of_def begin_at_def)

lemma refill_rest:
  assumes "rest_of G s r"
  shows "\<exists>s'. refill G s = (True, r \<noteq> [], s') \<and> rest_of G s' r"
proof -
  obtain ds where d: "members_from G (in_comp_off s) ds" "in_exhausted s \<longrightarrow> ds = []"
    "r = drop (in_pos s) (in_data s) @ concat ds"
    using assms by (auto simp: rest_of_def)
  show ?thesis
  proof (cases "in_pos s < length (in_data s)")
    case True
    then show ?thesis using assms d(3) by (auto simp: refill_def)
  next
    case False
    from d(1) show ?thesis
    proof cases
      case at_end
      with False d show ?thesis
        by (auto simp: refill_def decode_next_member_def rest_of_def intro!: members_from.at_end)
    next
      case (member dd used ds')
      then have "refill G s = (True, True, s\<lparr>in_data := dd, in_pos := 0, in_comp_off := in_comp_off s + used\<rparr>)"
        using False d(2) by (simp add: refill_def decode_next_member_def)
      moreover have "rest_of G (s\<lparr>in_data := dd, in_pos := 0, in_comp_off := in_comp_off s + used\<rparr>) r"
        using False d(2,3) member by (simp add: rest_of_def) blast
      moreover have "r \<noteq> []" using d(3) member by simp
      ultimately show ?thesis by auto
    qed
  qed
qed

lemma rest_of_advance:
  assumes "rest_of G s r" "k \<le> length (in_data s) - in_pos s" "in_pos s \<le> length (in_data s)"
  shows "take k (drop (in_pos s) (in_data s)) = take k r" "rest_of G (s\<lparr>in_pos := in_pos s + k\<rparr>) (drop k r)"
  using assms by (auto simp: rest_of_def add.commute)

lemma read_rest:
  "rest_of G s r \<Longrightarrow> \<exists>s'. inflater_read G n s = (True, take n r, s') \<and> rest_of G s' (drop n r)"
proof (induction n arbitrary: s r rule: less_induct)
  case (less n)
  obtain s1 where f: "refill G s = (True, r \<noteq> [], s1)" "rest_of G s1 r"
    using refill_rest [OF less.prems] by blast
  show ?case
  proof (cases "n = 0 \<or> r = []")
    case True
    with f less.prems show ?thesis by (subst inflater_read.simps) auto
  next
    case False
    then have p: "in_pos s1 < length (in_data s1)" using f by (intro refill_more) simp
    define k where "k = min n (length (in_data s1) - in_pos s1)"
    have a: "take k (drop (in_pos s1) (in_data s1)) = take k r" "rest_of G (s1\<lparr>in_pos := in_pos s1 + k\<rparr>) (drop k r)"
      using rest_of_advance [OF f(2), of k] p by (auto simp: k_def)
    have "n - k < n" using False p by (auto simp: k_def)
    from less.IH [OF this a(2)] obtain s2 where
      "inflater_read G (n - k) (s1\<lparr>in_pos := in_pos s1 + k\<rparr>) = (True, take (n - k) (drop k r), s2)"
      "rest_of G s2 (drop (n - k) (drop k r))" by blast
    moreover have "take k r @ take (n - k) (drop k r) = take n r"
      using take_add [of k "n - k" r] by (simp add: k_def)
    ultimately show ?thesis
      using False f a(1) by (subst inflater_read.simps) (auto simp: k_def Let_def)
  qed
qed

lemma skip_rest:
  "rest_of G s r \<Longrightarrow> n \<le> length r \<Longrightarrow> \<exists>s'. inflater_skip G n s = (True, s') \<and> rest_of G s' (drop n r)"
proof (induction n arbitrary: s r rule: less_induct)
  case (less n)
  obtain s1 where f: "refill G s = (True, r \<noteq> [], s1)" "rest_of G s1 r"
    using refill_rest [OF less.prems(1)] by blast
  show ?case
  proof (cases "n = 0")
    case True
    with less.prems show ?thesis by (subst inflater_skip.simps) auto
  next
    case False
    then have "r \<noteq> []" using less.prems(2) by auto
    then have p: "in_pos s1 < length (in_data s1)" using f by (intro refill_more) simp
    define k where "k = min n (length (in_data s1) - in_pos s1)"
    have a: "rest_of G (s1\<lparr>in_pos := in_pos s1 + k\<rparr>) (drop k r)"
      using rest_of_advance [OF f(2), of k] p by (auto simp: k_def)
    have "n - k < n" "n - k \<le> length (drop k r)" using False p less.prems(2) by (auto simp: k_def)
    from less.IH [OF this(1) a this(2)] obtain s2 where
      "inflater_skip G (n - k) (s1\<lparr>in_pos := in_pos s1 + k\<rparr>) = (True, s2)" "rest_of G s2 (drop (n - k) (drop k r))" by blast
    then show ?thesis
      using False f \<open>r \<noteq> []\<close> by (subst inflater_skip.simps) (auto simp: k_def Let_def)
  qed
qed

text \<open>A member without bytes hides every member after it.\<close>

lemma empty_member_ends_stream:
  assumes "gz_decode G c = Some ([], used)" "c < gz_size G"
  shows "\<exists>s. inflater_read G n (begin_at c) = (True, [], s)"
  using assms by (subst inflater_read.simps) (simp add: refill_def decode_next_member_def begin_at_def)

section \<open>Opening a range\<close>

text \<open>
  What the index says of a member, as naturals: \<^verbatim>\<open>GzipMemberRecord\<close> with offsets that do not wrap. A
  range request is what \<^verbatim>\<open>GzipStream::initialize\<close> records: the range, the size of the file, the members
  of the index and the size of the stream's buffer.
\<close>

record member_span =
  ms_c_offset :: nat
  ms_uc_offset :: nat
  ms_uc_size :: nat
  ms_first_line :: nat
  ms_last_line :: nat

record range_request =
  rr_start :: nat
  rr_end :: nat
  rr_max :: nat
  rr_members :: "member_span list"
  rr_buffer :: nat

datatype reader_error = Invalid_argument | Initialization_error | Compression_error | Read_error

definition find_member :: "member_span list \<Rightarrow> nat \<Rightarrow> member_span option" where
  "find_member ms target = find (\<lambda>m. target < ms_uc_offset m + ms_uc_size m) ms"

text \<open>\<^verbatim>\<open>ensure_initialized\<close>: the inflater, the offset it stands at, and whether there is nothing to read.\<close>

definition open_range :: "range_request \<Rightarrow> inflater \<times> nat \<times> bool" where
  "open_range q =
     (if 0 < rr_max q \<and> rr_max q \<le> rr_start q then (begin_at 0, 0, True)
      else case find_member (rr_members q) (rr_start q) of
          Some m \<Rightarrow> (begin_at (ms_c_offset m), ms_uc_offset m, False)
        | None \<Rightarrow> (begin_at 0, 0, False))"

definition skip_to :: "gz_file \<Rightarrow> nat \<Rightarrow> nat \<Rightarrow> inflater \<Rightarrow> inflater" where
  "skip_to G anchor target s = (if anchor < target then snd (inflater_skip G (target - anchor) s) else s)"

section \<open>Bytes of a range\<close>

record byte_stream =
  bs_in :: inflater
  bs_position :: nat
  bs_finished :: bool

definition byte_open :: "gz_file \<Rightarrow> range_request \<Rightarrow> byte_stream" where
  "byte_open G q =
     (case open_range q of (i, anchor, fin) \<Rightarrow>
        \<lparr>bs_in = (if fin then i else skip_to G anchor (rr_start q) i), bs_position = rr_start q, bs_finished = fin\<rparr>)"

text \<open>A stream past the end of the file has no inflater: what it reads is empty.\<close>

definition byte_read :: "gz_file \<Rightarrow> range_request \<Rightarrow> byte_stream \<Rightarrow> reader_error + string \<times> byte_stream" where
  "byte_read G q s =
     (if rr_end q \<le> bs_position s \<or> bs_finished s then Inr ([], s\<lparr>bs_finished := True\<rparr>)
      else case inflater_read G (min (rr_buffer q) (rr_end q - bs_position s)) (bs_in s) of (ok, got, i) \<Rightarrow>
        if \<not> ok then Inl Compression_error
        else if got = [] then Inr ([], s\<lparr>bs_in := i, bs_finished := True\<rparr>)
        else Inr (got, s\<lparr>bs_in := i, bs_position := bs_position s + length got\<rparr>))"

text \<open>Reading as the callers do, \<^verbatim>\<open>while (!done()) { chunk = read(); if (chunk.empty()) break; ... }\<close>.\<close>

lemma byte_read_progress:
  assumes "byte_read G q s = Inr (c, s')" "c \<noteq> []" "\<not> bs_finished s"
  shows "rr_end q - bs_position s' < rr_end q - bs_position s"
  using assms by (cases c) (auto simp: byte_read_def split: if_splits prod.splits)

function byte_drain :: "gz_file \<Rightarrow> range_request \<Rightarrow> byte_stream \<Rightarrow> reader_error + string list" where
  "byte_drain G q s =
     (if bs_finished s then Inr []
      else case byte_read G q s of
          Inl e \<Rightarrow> Inl e
        | Inr (c, s') \<Rightarrow> if c = [] then Inr [] else ebind (byte_drain G q s') (\<lambda>cs. Inr (c # cs)))"
  by pat_completeness auto
termination
  by (relation "measure (\<lambda>(G, q, s). rr_end q - bs_position s)") (auto dest: byte_read_progress)

declare byte_drain.simps [simp del]

text \<open>
  An index describes its file: the members follow one another from the start of the uncompressed
  bytes, and each decodes, at its compressed offset, to the bytes of the file from its uncompressed
  offset on.
\<close>

fun contiguous_from :: "nat \<Rightarrow> member_span list \<Rightarrow> bool" where
  "contiguous_from off [] \<longleftrightarrow> True"
| "contiguous_from off (m # ms) \<longleftrightarrow> ms_uc_offset m = off \<and> contiguous_from (off + ms_uc_size m) ms"

definition index_describes :: "gz_file \<Rightarrow> member_span list \<Rightarrow> string \<Rightarrow> bool" where
  "index_describes G ms D \<longleftrightarrow>
     (\<exists>ds. members_from G 0 ds \<and> concat ds = D) \<and> contiguous_from 0 ms \<and>
     (\<forall>m \<in> set ms. \<exists>ds. members_from G (ms_c_offset m) ds \<and> concat ds = drop (ms_uc_offset m) D)"

lemma find_member_anchor:
  "contiguous_from off ms \<Longrightarrow> off \<le> t \<Longrightarrow> find_member ms t = Some m \<Longrightarrow> m \<in> set ms \<and> ms_uc_offset m \<le> t"
  by (induction ms arbitrary: off) (auto simp: find_member_def split: if_splits)

lemma open_range_rest:
  assumes "index_describes G (rr_members q) D" "rr_max q = length D" "rr_start q < length D"
  shows "\<exists>i a. open_range q = (i, a, False) \<and> a \<le> rr_start q \<and> rest_of G i (drop a D)"
proof (cases "find_member (rr_members q) (rr_start q)")
  case None
  with assms rest_of_begin show ?thesis by (fastforce simp: open_range_def index_describes_def)
next
  case (Some m)
  with find_member_anchor [of 0 "rr_members q" "rr_start q" m] assms(1)
  have m: "m \<in> set (rr_members q)" "ms_uc_offset m \<le> rr_start q" by (auto simp: index_describes_def)
  then obtain ds where "members_from G (ms_c_offset m) ds" "concat ds = drop (ms_uc_offset m) D"
    using assms(1) by (auto simp: index_describes_def)
  from rest_of_begin [OF this(1)] this(2) Some m(2) assms(2,3) show ?thesis by (simp add: open_range_def)
qed

lemma skip_to_rest:
  assumes "rest_of G i (drop a D)" "a \<le> t" "t \<le> length D"
  shows "rest_of G (skip_to G a t i) (drop t D)"
proof (cases "a < t")
  case True
  have "t - a \<le> length (drop a D)" using assms(3) by simp
  from skip_rest [OF assms(1) this] True show ?thesis by (auto simp: skip_to_def)
qed (use assms in \<open>auto simp: skip_to_def\<close>)

text \<open>Draining the bytes of a range gives these bytes.\<close>

lemma byte_drain_rest:
  "rest_of G (bs_in s) (drop (bs_position s) D) \<Longrightarrow> \<not> bs_finished s \<Longrightarrow> rr_end q \<le> length D \<Longrightarrow> 0 < rr_buffer q
   \<Longrightarrow> \<exists>cs. byte_drain G q s = Inr cs \<and> concat cs = take (rr_end q - bs_position s) (drop (bs_position s) D)"
proof (induction "rr_end q - bs_position s" arbitrary: s rule: less_induct)
  case less
  show ?case
  proof (cases "rr_end q \<le> bs_position s")
    case True
    then show ?thesis by (subst byte_drain.simps) (simp add: byte_read_def)
  next
    case False
    define n where "n = min (rr_buffer q) (rr_end q - bs_position s)"
    obtain i where i: "inflater_read G n (bs_in s) = (True, take n (drop (bs_position s) D), i)"
        "rest_of G i (drop n (drop (bs_position s) D))"
      using read_rest [OF less.prems(1)] by blast
    let ?c = "take n (drop (bs_position s) D)"
    define s' where "s' = s\<lparr>bs_in := i, bs_position := bs_position s + n\<rparr>"
    have n: "0 < n" "n \<le> rr_end q - bs_position s" using False less.prems(4) by (auto simp: n_def)
    then have l: "length ?c = n" "?c \<noteq> []" using less.prems(3) False by auto
    then have r: "byte_read G q s = Inr (?c, s')"
      using False less.prems(2) i(1) n(1) by (simp add: byte_read_def s'_def del: take_eq_Nil flip: n_def)
    have "rr_end q - bs_position s' < rr_end q - bs_position s" using n False by (simp add: s'_def)
    moreover have "rest_of G (bs_in s') (drop (bs_position s') D)" using i(2) by (simp add: s'_def add.commute)
    ultimately obtain cs where cs: "byte_drain G q s' = Inr cs"
        "concat cs = take (rr_end q - bs_position s') (drop (bs_position s') D)"
      using less.hyps [of s'] less.prems by (auto simp: s'_def)
    have "rr_end q - bs_position s = n + (rr_end q - bs_position s')" using n False by (simp add: s'_def)
    then have "?c @ concat cs = take (rr_end q - bs_position s) (drop (bs_position s) D)"
      by (simp add: cs(2) take_add s'_def add.commute)
    then show ?thesis
      using less.prems(2) r cs(1) l(2) by (subst byte_drain.simps) simp
  qed
qed

lemma byte_range_exact:
  assumes "index_describes G (rr_members q) D" "rr_max q = length D" "rr_start q \<le> rr_end q" "rr_end q \<le> length D"
    "0 < rr_buffer q"
  shows "\<exists>cs. byte_drain G q (byte_open G q) = Inr cs \<and> concat cs = take (rr_end q - rr_start q) (drop (rr_start q) D)"
proof (cases "rr_start q < length D")
  case True
  from open_range_rest [OF assms(1,2) this] obtain i a where
    o: "open_range q = (i, a, False)" "a \<le> rr_start q" "rest_of G i (drop a D)" by blast
  from skip_to_rest [OF o(3,2)] True
  have "rest_of G (bs_in (byte_open G q)) (drop (bs_position (byte_open G q)) D)" by (simp add: byte_open_def o(1))
  from byte_drain_rest [OF this _ assms(4,5)] show ?thesis by (simp add: byte_open_def o(1))
next
  case False
  then show ?thesis
    using assms by (subst byte_drain.simps) (auto simp: byte_open_def open_range_def byte_read_def)
qed

end
