(* ===== verification/LineBytes.thy ===== *)
theory LineBytes
  imports GzipStream
begin

text \<open>
  Whole lines of a byte range: \<^verbatim>\<open>GzipLineByteStream\<close> of \<^verbatim>\<open>streams/gzip_line_byte_stream.h\<close>. The stream
  backs up to the start of the line its range begins in, returns buffers that end with a newline, keeps
  the line a buffer cuts for the next read, and may finish the line that crosses the end of the range.
\<close>

definition NL :: char where "NL = CHR 0x0A"

definition SEARCH_BUFFER_SIZE :: nat where "SEARCH_BUFFER_SIZE = 2048"
definition LINE_SEARCH_LOOKBACK :: nat where "LINE_SEARCH_LOOKBACK = 512"

section \<open>Finding line ends\<close>

text \<open>\<^verbatim>\<open>for (i = rel; i >= 0; i--) if (i == 0 || buf[i - 1] == '\n') ...\<close>\<close>

fun line_start_in :: "string \<Rightarrow> nat \<Rightarrow> nat" where
  "line_start_in buf 0 = 0"
| "line_start_in buf (Suc i) = (if buf ! i = NL then Suc i else line_start_in buf i)"

text \<open>\<^verbatim>\<open>memchr(data, '\n', len)\<close>, and the length up to and with the last newline, 0 when there is none.\<close>

definition find_newline :: "string \<Rightarrow> nat option" where
  "find_newline xs = (let n = length (takeWhile (\<lambda>c. c \<noteq> NL) xs) in if n < length xs then Some n else None)"

definition last_newline_end :: "string \<Rightarrow> nat" where
  "last_newline_end xs = length (dropWhile (\<lambda>c. c \<noteq> NL) (rev xs))"

section \<open>The stream\<close>

record line_request = range_request +
  lr_extend :: bool

record line_bytes =
  lb_in :: inflater
  lb_position :: nat
  lb_partial :: string
  lb_finished :: bool

definition find_line_start :: "gz_file \<Rightarrow> inflater \<Rightarrow> nat \<Rightarrow> nat \<Rightarrow> nat \<times> inflater" where
  "find_line_start G i anchor target =
     (if target \<le> anchor then (target, i)
      else
        let search_start = (if LINE_SEARCH_LOOKBACK \<le> target then target - LINE_SEARCH_LOOKBACK else anchor);
            cur = (if anchor < search_start then search_start else anchor)
        in case inflater_read G (SEARCH_BUFFER_SIZE - 1) (skip_to G anchor cur i) of (ok, buf, i') \<Rightarrow>
          let actual = (if ok \<and> target - cur < length buf then cur + line_start_in buf (target - cur) else target)
          in (actual, skip_to G anchor actual i))"

definition lb_open :: "gz_file \<Rightarrow> line_request \<Rightarrow> line_bytes" where
  "lb_open G q =
     (case open_range (range_request.truncate q) of (i, anchor, fin) \<Rightarrow>
        if fin then \<lparr>lb_in = i, lb_position = rr_start q, lb_partial = [], lb_finished = True\<rparr>
        else case find_line_start G i anchor (rr_start q) of (actual, i') \<Rightarrow>
          \<lparr>lb_in = i', lb_position = actual, lb_partial = [], lb_finished = False\<rparr>)"

text \<open>\<^verbatim>\<open>adjust_to_boundary\<close>: how much of the buffer, read up to \<open>pos\<close>, may be returned.\<close>

definition adjust_to_boundary :: "line_request \<Rightarrow> nat \<Rightarrow> string \<Rightarrow> nat" where
  "adjust_to_boundary q pos xs =
     (let n = last_newline_end xs
      in if n \<noteq> 0 then (if 0 < length xs - n \<and> rr_max q \<le> pos then length xs else n)
         else if rr_max q \<le> pos then length xs else 0)"

text \<open>The size to return and whether the stream is finished by it.\<close>

definition apply_range_and_boundary_limits :: "line_request \<Rightarrow> nat \<Rightarrow> nat \<Rightarrow> string \<Rightarrow> nat \<times> bool" where
  "apply_range_and_boundary_limits q pos partial_size xs =
     (if rr_end q < pos then
        let new_size = length xs - partial_size; new_start = pos - new_size
        in if rr_end q \<le> new_start then (0, True)
           else let limited = partial_size + (rr_end q - new_start);
                    adj = adjust_to_boundary q pos (take limited xs)
                in if adj = 0 \<and> 0 < limited \<and> rr_max q \<le> rr_end q then (limited, False) else (adj, False)
      else (adjust_to_boundary q pos xs, False))"

text \<open>At the end of the range: the rest of the line that crosses it, when it fits in the buffer.\<close>

definition flush_tail :: "gz_file \<Rightarrow> line_request \<Rightarrow> line_bytes \<Rightarrow> string \<times> line_bytes" where
  "flush_tail G q s =
     (if lr_extend q \<and> lb_partial s \<noteq> [] \<and> lb_position s < rr_max q \<and> length (lb_partial s) \<le> rr_buffer q then
        case inflater_read G (min (rr_buffer q - length (lb_partial s)) (rr_max q - lb_position s)) (lb_in s) of
          (ok, got, i) \<Rightarrow>
            if ok \<and> got \<noteq> [] then
              (case find_newline got of None \<Rightarrow> [] | Some n \<Rightarrow> lb_partial s @ take (n + 1) got,
               s\<lparr>lb_in := i, lb_position := lb_position s + length got, lb_partial := [], lb_finished := True\<rparr>)
            else ([], s\<lparr>lb_in := i, lb_finished := True\<rparr>)
      else ([], s\<lparr>lb_finished := True\<rparr>))"

definition read_line_aligned :: "gz_file \<Rightarrow> line_request \<Rightarrow> line_bytes \<Rightarrow> reader_error + string \<times> line_bytes" where
  "read_line_aligned G q s =
     (if rr_end q \<le> lb_position s then Inr (flush_tail G q s)
      else if rr_buffer q < length (lb_partial s) then Inl Read_error
      else
        let want = min (rr_end q - lb_position s) (rr_buffer q - length (lb_partial s));
            (ok, got, i) = (if 0 < want then inflater_read G want (lb_in s) else (True, [], lb_in s))
        in if \<not> ok then Inl Compression_error
           else if 0 < want \<and> got = [] then Inr ([], s\<lparr>lb_in := i, lb_finished := True\<rparr>)
           else
             let total = lb_partial s @ got;
                 pos = lb_position s + length got;
                 (n, fin) = apply_range_and_boundary_limits q pos (length (lb_partial s)) total
             in Inr (take n total, s\<lparr>lb_in := i, lb_position := pos, lb_partial := drop n total, lb_finished := fin\<rparr>))"

definition lb_read :: "gz_file \<Rightarrow> line_request \<Rightarrow> line_bytes \<Rightarrow> reader_error + string \<times> line_bytes" where
  "lb_read G q s = (if lb_finished s then Inr ([], s) else read_line_aligned G q s)"

text \<open>\<^verbatim>\<open>yield_chunks_from_stream\<close>: reads until the stream is done or returns nothing.\<close>

definition lb_left :: "line_request \<Rightarrow> line_bytes \<Rightarrow> nat" where
  "lb_left q s = (if lb_finished s then 0 else Suc (rr_end q - lb_position s + length (lb_partial s)))"

lemma inflater_read_length: "inflater_read G n s = (ok, out, s') \<Longrightarrow> length out \<le> n"
proof (induction G n s arbitrary: ok out s' rule: inflater_read.induct)
  case (1 G n s)
  show ?case
  proof (cases "n = 0 \<or> fst (refill G s) = False \<or> fst (snd (refill G s)) = False")
    case True
    with "1.prems" show ?thesis by (subst (asm) inflater_read.simps) (auto split: if_splits prod.splits bool.splits)
  next
    case False
    then obtain s1 where f: "refill G s = (True, True, s1)" "n \<noteq> 0" by (metis (full_types) prod.collapse)
    define k where "k = min n (length (in_data s1) - in_pos s1)"
    obtain ok' out' s2 where r: "inflater_read G (n - k) (s1\<lparr>in_pos := in_pos s1 + k\<rparr>) = (ok', out', s2)"
      by (metis prod_cases3)
    have "length out' \<le> n - k"
      using "1.IH" [OF f(2) f(1)[symmetric] refl refl refl k_def r] .
    moreover have "out = take k (drop (in_pos s1) (in_data s1)) @ out'"
      using "1.prems" f r by (subst (asm) inflater_read.simps) (simp add: k_def Let_def)
    ultimately show ?thesis by (auto simp: k_def)
  qed
qed

lemma lb_read_progress:
  assumes "lb_read G q s = Inr (c, s')" "c \<noteq> []" "\<not> lb_finished s"
  shows "lb_left q s' < lb_left q s"
proof (cases "rr_end q \<le> lb_position s")
  case True
  then have "lb_finished s'"
    using assms by (auto simp: lb_read_def read_line_aligned_def flush_tail_def split: if_splits prod.splits)
  then show ?thesis using assms(3) by (simp add: lb_left_def)
next
  case False
  let ?want = "min (rr_end q - lb_position s) (rr_buffer q - length (lb_partial s))"
  obtain ok got i where r: "(if 0 < ?want then inflater_read G ?want (lb_in s) else (True, [], lb_in s)) = (ok, got, i)"
    by (metis prod_cases3)
  obtain n fin where l: "apply_range_and_boundary_limits q (lb_position s + length got) (length (lb_partial s)) (lb_partial s @ got)
      = (n, fin)" by (metis surj_pair)
  have s: "c = take n (lb_partial s @ got)"
      "s' = s\<lparr>lb_in := i, lb_position := lb_position s + length got, lb_partial := drop n (lb_partial s @ got), lb_finished := fin\<rparr>"
    using assms False r l by (auto simp: lb_read_def read_line_aligned_def Let_def split: if_splits)
  have "0 < n" "0 < length (lb_partial s) + length got" using assms(2) s(1) by (cases n; force)+
  moreover have "length got \<le> rr_end q - lb_position s"
    using r by (auto split: if_splits dest: inflater_read_length)
  ultimately have "rr_end q - (lb_position s + length got) + (length (lb_partial s) + length got - n)
      < rr_end q - lb_position s + length (lb_partial s)"
    using False by arith
  then show ?thesis using assms(3) by (simp add: s(2) lb_left_def del: drop_append)
qed

function lb_drain :: "gz_file \<Rightarrow> line_request \<Rightarrow> line_bytes \<Rightarrow> reader_error + string list" where
  "lb_drain G q s =
     (if lb_finished s then Inr []
      else case lb_read G q s of
          Inl e \<Rightarrow> Inl e
        | Inr (c, s') \<Rightarrow> if c = [] then Inr [] else ebind (lb_drain G q s') (\<lambda>cs. Inr (c # cs)))"
  by pat_completeness auto
termination
  by (relation "measure (\<lambda>(G, q, s). lb_left q s)") (auto dest: lb_read_progress)

declare lb_drain.simps [simp del]

section \<open>Line ends of a text\<close>

lemma last_newline_end_append:
  "last_newline_end (xs @ ys) = (if NL \<in> set ys then length xs + last_newline_end ys else last_newline_end xs)"
proof (cases "NL \<in> set ys")
  case True
  then obtain z where "z \<in> set (rev ys)" "\<not> z \<noteq> NL" by auto
  then have "dropWhile (\<lambda>c. c \<noteq> NL) (rev ys @ rev xs) = dropWhile (\<lambda>c. c \<noteq> NL) (rev ys) @ rev xs"
    by (rule dropWhile_append1)
  with True show ?thesis by (simp add: last_newline_end_def)
next
  case False
  then have "dropWhile (\<lambda>c. c \<noteq> NL) (rev ys @ rev xs) = dropWhile (\<lambda>c. c \<noteq> NL) (rev xs)"
    by (intro dropWhile_append2) auto
  with False show ?thesis by (simp add: last_newline_end_def)
qed

lemma last_newline_end_le: "last_newline_end xs \<le> length xs"
  using length_dropWhile_le [of "\<lambda>c. c \<noteq> NL" "rev xs"] by (simp add: last_newline_end_def)

lemma last_newline_end_0: "last_newline_end xs = 0 \<longleftrightarrow> NL \<notin> set xs"
  by (auto simp: last_newline_end_def dropWhile_eq_Nil_conv)

lemma last_newline_end_single: "last_newline_end [c] = (if c = NL then 1 else 0)"
  by (simp add: last_newline_end_def)

lemma last_newline_split:
  "NL \<notin> set (drop (last_newline_end xs) xs)"
  "last_newline_end xs \<noteq> 0 \<Longrightarrow> \<exists>ys. take (last_newline_end xs) xs = ys @ [NL]"
proof -
  let ?P = "\<lambda>c. c \<noteq> NL"
  have "rev xs = takeWhile ?P (rev xs) @ dropWhile ?P (rev xs)" by simp
  then have s: "xs = rev (dropWhile ?P (rev xs)) @ rev (takeWhile ?P (rev xs))"
    by (metis rev_append rev_rev_ident)
  have d: "drop (last_newline_end xs) xs = rev (takeWhile ?P (rev xs))" "take (last_newline_end xs) xs = rev (dropWhile ?P (rev xs))"
    using arg_cong [OF s, of "drop (last_newline_end xs)"] arg_cong [OF s, of "take (last_newline_end xs)"]
    by (simp_all add: last_newline_end_def)
  show "NL \<notin> set (drop (last_newline_end xs) xs)" unfolding d by (auto dest: takeWhile_all)
  show "\<exists>ys. take (last_newline_end xs) xs = ys @ [NL]" if "last_newline_end xs \<noteq> 0"
  proof -
    have "dropWhile ?P (rev xs) \<noteq> []" using that by (auto simp: last_newline_end_def)
    then have "hd (dropWhile ?P (rev xs)) = NL" using hd_dropWhile [of ?P "rev xs"] by auto
    then show ?thesis unfolding d using \<open>dropWhile ?P (rev xs) \<noteq> []\<close> by (cases "dropWhile ?P (rev xs)") auto
  qed
qed

lemma line_start_in_take: "i \<le> length buf \<Longrightarrow> line_start_in buf i = last_newline_end (take i buf)"
proof (induction i)
  case (Suc i)
  then show ?case by (simp add: take_Suc_conv_app_nth last_newline_end_append last_newline_end_single)
qed (simp add: last_newline_end_def)

text \<open>The line ends seen from a later point of the text.\<close>

lemma last_newline_end_from:
  assumes "p \<le> e" "NL \<in> set (take (e - p) (drop p D))"
  shows "last_newline_end (take e D) = p + last_newline_end (take (e - p) (drop p D))"
proof -
  have "p < length D" using assms(2) by (cases "p < length D") auto
  have "take e D = take p D @ take (e - p) (drop p D)" using assms(1) take_add [of p "e - p" D] by simp
  then show ?thesis using assms(2) \<open>p < length D\<close> by (simp add: last_newline_end_append)
qed

lemma last_newline_end_before:
  assumes "p \<le> e" "NL \<notin> set (take (e - p) (drop p D))"
  shows "last_newline_end (take e D) = last_newline_end (take p D)"
proof -
  have "take e D = take p D @ take (e - p) (drop p D)" using assms(1) take_add [of p "e - p" D] by simp
  then show ?thesis using assms(2) by (simp add: last_newline_end_append)
qed

section \<open>One read\<close>

text \<open>
  Where a stream stands in the text \<open>D\<close>: everything before \<open>p\<close> has been returned, the bytes from \<open>p\<close> to
  the position are kept as a partial line.
\<close>

definition lb_at :: "gz_file \<Rightarrow> line_request \<Rightarrow> string \<Rightarrow> nat \<Rightarrow> line_bytes \<Rightarrow> bool" where
  "lb_at G q D p s \<longleftrightarrow> \<not> lb_finished s \<and> lb_position s \<le> rr_end q \<and> p + length (lb_partial s) = lb_position s
     \<and> lb_partial s = take (length (lb_partial s)) (drop p D) \<and> rest_of G (lb_in s) (drop (lb_position s) D)
     \<and> length (lb_partial s) < rr_buffer q \<and> NL \<notin> set (lb_partial s)
     \<and> (lb_position s = length D \<longrightarrow> lb_partial s = [])"

lemma read_step:
  assumes at: "lb_at G q D p s" and e: "lb_position s < rr_end q" "rr_end q \<le> length D" "rr_max q = length D"
    and m: "m = min (rr_end q - p) (rr_buffer q)" and n: "n = (if p + m = length D then m else last_newline_end (take m (drop p D)))"
  shows "\<exists>s'. lb_read G q s = Inr (take n (drop p D), s') \<and> lb_position s' = p + m
    \<and> (n \<noteq> 0 \<longrightarrow> lb_at G q D (p + n) s')"
proof -
  let ?k = "length (lb_partial s)"
  define w where "w = min (rr_end q - lb_position s) (rr_buffer q - length (lb_partial s))"
  note a = at [unfolded lb_at_def]
  have pk: "lb_position s = p + ?k" using a by simp
  have w: "0 < w" "?k + w = m" using a e(1) m by (auto simp: w_def)
  have wl: "w \<le> length D - lb_position s" using e by (auto simp: w_def)
  obtain got i where g: "got = take w (drop (lb_position s) D)"
      and i: "inflater_read G w (lb_in s) = (True, got, i)" "rest_of G i (drop w (drop (lb_position s) D))"
    using read_rest [of G "lb_in s" "drop (lb_position s) D" w] a by blast
  have lg: "length got = w" using wl g by simp
  have X: "lb_partial s @ got = take m (drop p D)"
    using a w(2) g take_add [of ?k w "drop p D"] by (simp add: pk add.commute)
  have pm: "p + m \<le> rr_end q" "p + m \<le> length D" using m e a by auto
  have pos: "lb_position s + w = p + m" using pk w(2) by simp
  have Xl: "length (take m (drop p D)) = m" using pm by simp
  have lim: "apply_range_and_boundary_limits q (p + m) ?k (take m (drop p D)) = (n, False)"
  proof (cases "p + m = length D")
    case True
    then show ?thesis
      using pm e(3) n Xl last_newline_end_le [of "take m (drop p D)"]
      by (auto simp: apply_range_and_boundary_limits_def adjust_to_boundary_def Let_def)
  next
    case False
    then show ?thesis
      using pm e(3) n by (auto simp: apply_range_and_boundary_limits_def adjust_to_boundary_def Let_def)
  qed
  define s' where "s' = s\<lparr>lb_in := i, lb_position := p + m, lb_partial := drop n (take m (drop p D)), lb_finished := False\<rparr>"
  have nm: "n \<le> m" using n Xl last_newline_end_le [of "take m (drop p D)"] by auto
  have got: "got \<noteq> []" using lg w(1) by auto
  have "read_line_aligned G q s = Inr (take n (take m (drop p D)), s')"
    using a e(1) w(1) got unfolding read_line_aligned_def s'_def w_def [symmetric]
    by (simp add: i(1) X pos lg lim Let_def del: take_eq_Nil take_take append_take_drop_id)
  then have r: "lb_read G q s = Inr (take n (drop p D), s')"
    using a nm by (simp add: lb_read_def min_absorb1)
  have "lb_at G q D (p + n) s'" if "n \<noteq> 0"
  proof -
    have l: "length (drop n (take m (drop p D))) = m - n" using Xl by simp
    have "drop n (take m (drop p D)) = take (m - n) (drop (p + n) D)"
      by (simp add: drop_take add.commute)
    moreover have "NL \<notin> set (drop n (take m (drop p D)))"
    proof (cases "p + m = length D")
      case True
      then have "n = m" using n by simp
      then show ?thesis using l by simp
    next
      case False
      then show ?thesis using n last_newline_split(1) [of "take m (drop p D)"] by simp
    qed
    moreover have "rest_of G i (drop (p + m) D)" using i(2) pos by (simp add: add.commute)
    moreover have "m - n < rr_buffer q" using that m w by auto
    moreover have "p + m = length D \<longrightarrow> m - n = 0" using n by auto
    ultimately show ?thesis using nm pm l by (auto simp: lb_at_def s'_def)
  qed
  then show ?thesis using r by (auto simp: s'_def)
qed

section \<open>Draining a range\<close>

text \<open>
  \<open>lines_fit B D\<close>: every line of \<open>D\<close>, with its newline, fits in a buffer of \<open>B\<close> bytes. \<open>range_stop D e\<close> is
  where the last line ends that lies before \<open>e\<close>; the end of the file ends its last line.
\<close>

definition lines_fit :: "nat \<Rightarrow> string \<Rightarrow> bool" where
  "lines_fit B D \<longleftrightarrow> (\<forall>i. i + B \<le> length D \<longrightarrow> NL \<in> set (take B (drop i D)))"

definition range_stop :: "string \<Rightarrow> nat \<Rightarrow> nat" where
  "range_stop D e = (if e = length D then e else last_newline_end (take e D))"

lemma last_newline_end_mono: "a \<le> b \<Longrightarrow> last_newline_end (take a xs) \<le> last_newline_end (take b xs)"
proof -
  assume "a \<le> b"
  then have s: "take b xs = take a xs @ take (b - a) (drop a xs)" using take_add [of a "b - a" xs] by simp
  show ?thesis
    unfolding s last_newline_end_append
    using last_newline_end_le [of "take a xs"] by (auto simp: min_def split: if_splits)
qed

lemma drain_unfold:
  assumes "lb_read G q s = Inr (c, s')" "\<not> lb_finished s"
  shows "lb_drain G q s = (if c = [] then Inr [] else ebind (lb_drain G q s') (\<lambda>cs. Inr (c # cs)))"
  using assms by (subst lb_drain.simps) simp

lemma lb_at_bounds:
  assumes "lb_at G q D p s" "rr_end q \<le> length D"
  shows "p \<le> rr_end q" "p \<le> length D" "lb_position s = p + length (lb_partial s)"
  using assms by (auto simp: lb_at_def)

lemma split_read:
  assumes "p + n \<le> R" "R \<le> length D"
  shows "take n (drop p D) @ drop (p + n) (take R D) = drop p (take R D)"
proof -
  have "drop p (take R D) = take (n + (R - (p + n))) (drop p D)" using assms by (simp add: drop_take)
  also have "\<dots> = take n (drop p D) @ drop (p + n) (take R D)" by (simp add: take_add drop_take add.commute)
  finally show ?thesis by simp
qed

text \<open>One round of the drain: a chunk of whole lines, or nothing to come.\<close>

lemma drain_round:
  assumes at: "lb_at G q D p s" and e: "lb_position s < rr_end q" "rr_end q \<le> length D" "rr_max q = length D"
    and fit: "lines_fit (rr_buffer q) D"
  shows "(\<exists>n s'. 0 < n \<and> p + n \<le> range_stop D (rr_end q) \<and> lb_read G q s = Inr (take n (drop p D), s')
        \<and> lb_at G q D (p + n) s' \<and> lb_left q s' < lb_left q s
        \<and> (rr_end q - p < rr_buffer q \<longrightarrow> lb_position s' = rr_end q))
      \<or> NL \<notin> set (take (rr_end q - p) (drop p D)) \<and> rr_end q < length D \<and> (\<exists>s'. lb_read G q s = Inr ([], s'))"
proof -
  define m where "m = min (rr_end q - p) (rr_buffer q)"
  define n where "n = (if p + m = length D then m else last_newline_end (take m (drop p D)))"
  obtain s' where s': "lb_read G q s = Inr (take n (drop p D), s')" "lb_position s' = p + m"
      "n \<noteq> 0 \<longrightarrow> lb_at G q D (p + n) s'"
    using read_step [OF at e m_def n_def] by blast
  note b = lb_at_bounds [OF at e(2)]
  have m0: "0 < m" using e(1) b(3) at by (auto simp: m_def lb_at_def)
  have ml: "m \<le> length (drop p D)" using e(2) b by (auto simp: m_def)
  have nm: "n \<le> m" using last_newline_end_le [of "take m (drop p D)"] by (auto simp: n_def)
  show ?thesis
  proof (cases "n = 0")
    case True
    then have pm: "p + m \<noteq> length D" "NL \<notin> set (take m (drop p D))"
      using m0 by (auto simp: n_def last_newline_end_0 split: if_splits)
    have "m = rr_end q - p"
    proof (rule ccontr)
      assume "m \<noteq> rr_end q - p"
      then have "m = rr_buffer q" by (auto simp: m_def)
      with fit pm(2) ml b(2) show False by (auto simp: lines_fit_def)
    qed
    then have "rr_end q < length D" using pm(1) b e(2) by auto
    with pm(2) \<open>m = rr_end q - p\<close> s'(1) True show ?thesis by auto
  next
    case False
    have "p + n \<le> range_stop D (rr_end q)"
    proof (cases "rr_end q = length D")
      case True
      then show ?thesis using nm ml b by (simp add: range_stop_def)
    next
      case False': False
      then have pm: "p + m \<noteq> length D" using e(2) b by (auto simp: m_def min_def split: if_splits)
      then have n: "n = last_newline_end (take m (drop p D))" by (simp add: n_def)
      then have "NL \<in> set (take m (drop p D))" using False by (simp add: last_newline_end_0)
      moreover have "take m (drop p D) = take m (take (rr_end q - p) (drop p D))" by (simp add: m_def)
      ultimately have "NL \<in> set (take (rr_end q - p) (drop p D))" by (metis in_set_takeD)
      then have "last_newline_end (take (rr_end q) D) = p + last_newline_end (take (rr_end q - p) (drop p D))"
        by (rule last_newline_end_from [OF b(1)])
      then show ?thesis using False' n last_newline_end_mono [of m "rr_end q - p" "drop p D"] by (simp add: range_stop_def m_def)
    qed
    moreover have "take n (drop p D) \<noteq> []" using False nm ml by auto
    then have "lb_left q s' < lb_left q s" using lb_read_progress s'(1) at by (auto simp: lb_at_def)
    moreover have "rr_end q - p < rr_buffer q \<longrightarrow> lb_position s' = rr_end q" using s'(2) b by (simp add: m_def)
    ultimately show ?thesis using False s'(1,3) by (intro disjI1 exI [of _ n] exI [of _ s']) auto
  qed
qed

lemma range_stop_le: "e \<le> length D \<Longrightarrow> range_stop D e \<le> length D"
  using last_newline_end_le [of "take e D"] by (auto simp: range_stop_def)

lemma drop_range_stop_nothing:
  assumes "p \<le> e" "NL \<notin> set (take (e - p) (drop p D))" "e < length D"
  shows "drop p (take (range_stop D e) D) = []"
  using last_newline_end_before [OF assms(1,2)] last_newline_end_le [of "take p D"] assms(3)
  by (auto simp: range_stop_def min_def split: if_splits)

lemma drain_lines:
  "lb_at G q D p s \<Longrightarrow> rr_end q \<le> length D \<Longrightarrow> rr_max q = length D \<Longrightarrow> \<not> lr_extend q \<Longrightarrow> lines_fit (rr_buffer q) D
   \<Longrightarrow> \<exists>cs. lb_drain G q s = Inr cs \<and> concat cs = drop p (take (range_stop D (rr_end q)) D)"
proof (induction "lb_left q s" arbitrary: p s rule: less_induct)
  case less
  note at = less.prems(1) and b = lb_at_bounds [OF less.prems(1,2)]
  have f: "\<not> lb_finished s" using at by (simp add: lb_at_def)
  show ?case
  proof (cases "rr_end q \<le> lb_position s")
    case True
    then have pos: "lb_position s = rr_end q" using at by (simp add: lb_at_def)
    have "rr_end q - p = length (lb_partial s)" using b(3) pos by simp
    then have "lb_partial s = take (rr_end q - p) (drop p D)" using at unfolding lb_at_def by metis
    then have "drop p (take (range_stop D (rr_end q)) D) = []"
      using at pos b less.prems(2) drop_range_stop_nothing [OF b(1)]
      by (cases "rr_end q = length D") (auto simp: lb_at_def range_stop_def)
    moreover have "lb_read G q s = Inr ([], s\<lparr>lb_finished := True\<rparr>)"
      using f True less.prems(4) by (simp add: lb_read_def read_line_aligned_def flush_tail_def)
    ultimately show ?thesis using drain_unfold [OF _ f] by simp
  next
    case False
    then have "lb_position s < rr_end q" by simp
    from drain_round [OF at this less.prems(2,3,5)] show ?thesis
    proof (elim disjE exE conjE)
      fix n s'
      assume n: "0 < n" "p + n \<le> range_stop D (rr_end q)" and r: "lb_read G q s = Inr (take n (drop p D), s')"
        and at': "lb_at G q D (p + n) s'" and l: "lb_left q s' < lb_left q s"
      from less.hyps [OF l at' less.prems(2-5)] obtain cs where
        cs: "lb_drain G q s' = Inr cs" "concat cs = drop (p + n) (take (range_stop D (rr_end q)) D)" by blast
      have "p + n \<le> length D" using n(2) range_stop_le [OF less.prems(2)] by simp
      then have "take n (drop p D) \<noteq> []" using n(1) by auto
      then show ?thesis
        using drain_unfold [OF r f] cs split_read [OF n(2) range_stop_le [OF less.prems(2)]] by simp
    next
      fix s'
      assume "NL \<notin> set (take (rr_end q - p) (drop p D))" "rr_end q < length D" "lb_read G q s = Inr ([], s')"
      with drop_range_stop_nothing [OF b(1)] drain_unfold [OF _ f] show ?thesis by simp
    qed
  qed
qed

section \<open>Where a range begins and ends\<close>

text \<open>
  \<open>line_begin D t\<close> is the first byte of the line that byte \<open>t\<close> is in, \<open>line_stop D e\<close> the end of the line
  that the end of a range cuts; an unterminated last line is not completed.
\<close>

definition line_begin :: "string \<Rightarrow> nat \<Rightarrow> nat" where
  "line_begin D t = last_newline_end (take t D)"

definition line_stop :: "string \<Rightarrow> nat \<Rightarrow> nat" where
  "line_stop D e =
     (if line_begin D e = e then e
      else case find_newline (drop e D) of Some k \<Rightarrow> e + k + 1 | None \<Rightarrow> line_begin D e)"

definition members_aligned :: "member_span list \<Rightarrow> string \<Rightarrow> bool" where
  "members_aligned ms D \<longleftrightarrow> (\<forall>m \<in> set ms. line_begin D (ms_uc_offset m) = ms_uc_offset m)"

lemma line_begin_le: "line_begin D t \<le> t"
  using last_newline_end_le [of "take t D"] by (simp add: line_begin_def)

lemma find_line_start_at:
  assumes "rest_of G i (drop a D)" "a \<le> t" "t < length D"
  shows "\<exists>p i'. find_line_start G i a t = (p, i') \<and> rest_of G i' (drop p D) \<and> p \<le> t
    \<and> (t = a \<longrightarrow> p = a)
    \<and> (line_begin D a = a \<and> t - line_begin D t \<le> LINE_SEARCH_LOOKBACK \<longrightarrow> p = line_begin D t)"
proof (cases "t \<le> a")
  case True
  then show ?thesis using assms by (simp add: find_line_start_def)
next
  case False
  define cur where "cur = (if a < (if LINE_SEARCH_LOOKBACK \<le> t then t - LINE_SEARCH_LOOKBACK else a)
      then (if LINE_SEARCH_LOOKBACK \<le> t then t - LINE_SEARCH_LOOKBACK else a) else a)"
  have c: "a \<le> cur" "cur \<le> t" "t - cur \<le> 512" using False assms(2) by (auto simp: cur_def LINE_SEARCH_LOOKBACK_def)
  from skip_to_rest [OF assms(1) c(1)] c assms(3) have "rest_of G (skip_to G a cur i) (drop cur D)" by simp
  from read_rest [OF this, of "SEARCH_BUFFER_SIZE - 1"] obtain i' where
    r: "inflater_read G (SEARCH_BUFFER_SIZE - 1) (skip_to G a cur i) = (True, take (SEARCH_BUFFER_SIZE - 1) (drop cur D), i')"
    by blast
  let ?buf = "take (SEARCH_BUFFER_SIZE - 1) (drop cur D)" and ?n = "last_newline_end (take (t - cur) (drop cur D))"
  have l: "t - cur < length ?buf" using c assms(3) by (auto simp: SEARCH_BUFFER_SIZE_def)
  then have b: "line_start_in ?buf (t - cur) = ?n"
    using c by (simp add: line_start_in_take SEARCH_BUFFER_SIZE_def min_absorb1)
  have "?n \<le> t - cur" using last_newline_end_le [of "take (t - cur) (drop cur D)"] by simp
  then have n: "cur + ?n \<le> t" using c(2) by arith
  have f: "find_line_start G i a t = (cur + ?n, skip_to G a (cur + ?n) i)"
    using False l b r unfolding find_line_start_def Let_def cur_def [symmetric] by simp
  have "rest_of G (skip_to G a (cur + ?n) i) (drop (cur + ?n) D)"
    by (rule skip_to_rest [OF assms(1)]) (use c n assms(3) in auto)
  moreover have "cur + ?n = line_begin D t"
    if al: "line_begin D a = a" and near: "t - line_begin D t \<le> LINE_SEARCH_LOOKBACK"
  proof (cases "NL \<in> set (take (t - cur) (drop cur D))")
    case True
    then show ?thesis using last_newline_end_from [OF c(2)] by (simp add: line_begin_def)
  next
    case no: False
    have e: "line_begin D t = line_begin D cur"
      using last_newline_end_before [OF c(2) no] by (simp add: line_begin_def)
    have "line_begin D cur = cur"
    proof (cases "cur = a")
      case False
      then have "cur = t - LINE_SEARCH_LOOKBACK" by (auto simp: cur_def split: if_splits)
      then show ?thesis using near e line_begin_le [of D cur] by simp
    qed (use al in simp)
    then show ?thesis using e no by (simp add: last_newline_end_0)
  qed
  ultimately show ?thesis using f n False by auto
qed

lemma lb_open_at:
  assumes "index_describes G (rr_members q) D" "rr_max q = length D" "rr_start q < rr_end q" "rr_end q \<le> length D"
    "0 < rr_buffer q"
  shows "\<exists>p. lb_at G q D p (lb_open G q) \<and> lb_partial (lb_open G q) = [] \<and> p \<le> rr_start q
    \<and> ((\<exists>m. find_member (rr_members q) (rr_start q) = Some m \<and> ms_uc_offset m = rr_start q) \<longrightarrow> p = rr_start q)
    \<and> (members_aligned (rr_members q) D \<and> rr_start q - line_begin D (rr_start q) \<le> LINE_SEARCH_LOOKBACK
        \<longrightarrow> p = line_begin D (rr_start q))"
proof -
  have s: "rr_start q < length D" using assms(3,4) by simp
  let ?t = "range_request.truncate q"
  obtain i a where o: "open_range ?t = (i, a, False)" "a \<le> rr_start q" "rest_of G i (drop a D)"
    using open_range_rest [of G ?t D] assms(1,2) s by (auto simp: range_request.defs)
  obtain p i' where p: "find_line_start G i a (rr_start q) = (p, i')" "rest_of G i' (drop p D)" "p \<le> rr_start q"
      "rr_start q = a \<longrightarrow> p = a"
      "line_begin D a = a \<and> rr_start q - line_begin D (rr_start q) \<le> LINE_SEARCH_LOOKBACK \<longrightarrow> p = line_begin D (rr_start q)"
    using find_line_start_at [OF o(3,2) s] by blast
  have a: "(case find_member (rr_members q) (rr_start q) of Some m \<Rightarrow> ms_uc_offset m | None \<Rightarrow> 0) = a"
    using o(1) s assms(2) by (auto simp: open_range_def range_request.defs split: option.splits if_splits)
  have "line_begin D a = a" if "members_aligned (rr_members q) D"
  proof (cases "find_member (rr_members q) (rr_start q)")
    case None
    then show ?thesis using a by (simp add: line_begin_def last_newline_end_def)
  next
    case (Some m)
    then have "m \<in> set (rr_members q)" by (auto simp: find_member_def find_Some_iff)
    with that Some a show ?thesis by (auto simp: members_aligned_def)
  qed
  moreover have "lb_at G q D p (lb_open G q)"
    using p assms(3-5) o(1) by (auto simp: lb_open_def lb_at_def)
  moreover have "lb_partial (lb_open G q) = []" using p o(1) by (simp add: lb_open_def)
  moreover have "p = rr_start q" if "find_member (rr_members q) (rr_start q) = Some m" "ms_uc_offset m = rr_start q" for m
    using that a p(4) by simp
  ultimately show ?thesis using p(3,5) by (intro exI [of _ p]) blast
qed

section \<open>Completing the last line\<close>

lemma find_newline_simps [simp]:
  "find_newline [] = None"
  "find_newline (x # xs) = (if x = NL then Some 0 else map_option Suc (find_newline xs))"
  by (simp_all add: find_newline_def Let_def)

lemma find_newline_take:
  "find_newline (take w xs) = (case find_newline xs of Some k \<Rightarrow> if k < w then Some k else None | None \<Rightarrow> None)"
proof (induction xs arbitrary: w)
  case (Cons x xs)
  then show ?case by (cases w) (auto split: option.splits)
qed simp

lemma drain_extended:
  assumes at: "lb_at G q D p s" and q: "rr_end q < length D" "rr_max q = length D" "lr_extend q" "lines_fit (rr_buffer q) D"
    and fill: "lb_position s < rr_end q" "rr_end q - p < rr_buffer q" "NL \<in> set (take (rr_end q - p) (drop p D))"
    and fits: "line_stop D (rr_end q) - line_begin D (rr_end q) \<le> rr_buffer q"
  shows "\<exists>cs. lb_drain G q s = Inr cs \<and> concat cs = drop p (take (line_stop D (rr_end q)) D)"
proof -
  let ?e = "rr_end q"
  have f: "\<not> lb_finished s" using at by (simp add: lb_at_def)
  have le: "?e \<le> length D" using q(1) by simp
  from drain_round [OF at fill(1) le q(2,4)] fill(2,3) obtain n s' where
    n: "0 < n" "p + n \<le> range_stop D ?e" and r: "lb_read G q s = Inr (take n (drop p D), s')"
    and at': "lb_at G q D (p + n) s'" and pos: "lb_position s' = ?e" by blast
  note b = lb_at_bounds [OF at' le]
  have part: "lb_partial s' = take (?e - (p + n)) (drop (p + n) D)"
  proof -
    have "?e - (p + n) = length (lb_partial s')" using b(3) pos by simp
    then show ?thesis using at' unfolding lb_at_def by metis
  qed
  have "NL \<notin> set (take (?e - (p + n)) (drop (p + n) D))" using at' part unfolding lb_at_def by metis
  from last_newline_end_before [OF b(1) this] have "line_begin D ?e \<le> p + n"
    using last_newline_end_le [of "take (p + n) D"] by (simp add: line_begin_def)
  then have pn: "p + n = line_begin D ?e" using n(2) q(1) by (simp add: range_stop_def line_begin_def)
  have f': "\<not> lb_finished s'" using at' by (simp add: lb_at_def)
  have ne: "take n (drop p D) \<noteq> []" using n(1) b(2) by auto
  have "\<exists>cs. lb_drain G q s' = Inr cs \<and> concat cs = drop (p + n) (take (line_stop D ?e) D)"
  proof (cases "lb_partial s' = []")
    case True
    then have "line_begin D ?e = ?e" using b(3) pos pn by simp
    moreover have "lb_read G q s' = Inr ([], s'\<lparr>lb_finished := True\<rparr>)"
      using f' True pos by (simp add: lb_read_def read_line_aligned_def flush_tail_def)
    ultimately show ?thesis using drain_unfold [OF _ f'] pn by (simp add: line_stop_def)
  next
    case False
    define w where "w = min (rr_buffer q - length (lb_partial s')) (length D - ?e)"
    have bb: "length (lb_partial s') < rr_buffer q" using at' by (simp add: lb_at_def)
    have w: "0 < w" "w \<le> length (drop ?e D)" using bb q(1) by (auto simp: w_def)
    obtain got i where g: "got = take w (drop ?e D)" and i: "inflater_read G w (lb_in s') = (True, got, i)"
      using read_rest [of G "lb_in s'" "drop ?e D" w] at' pos by (auto simp: lb_at_def)
    have "got \<noteq> []" using g w by auto
    then have r': "lb_read G q s' = Inr (case find_newline got of None \<Rightarrow> [] | Some k \<Rightarrow> lb_partial s' @ take (k + 1) got,
        s'\<lparr>lb_in := i, lb_position := ?e + length got, lb_partial := [], lb_finished := True\<rparr>)"
      using f' False pos q i bb unfolding lb_read_def read_line_aligned_def flush_tail_def by (simp add: flip: w_def)
    have "0 < length (lb_partial s')" using False by simp
    then have nlt: "line_begin D ?e \<noteq> ?e" using b(3) pos pn by linarith
    have d: "lb_drain G q (s'\<lparr>lb_in := i, lb_position := x, lb_partial := [], lb_finished := True\<rparr>) = Inr []" for x
      by (subst lb_drain.simps) simp
    show ?thesis
    proof (cases "find_newline (drop ?e D)")
      case None
      then have "find_newline got = None" by (simp add: g find_newline_take)
      moreover have "line_stop D ?e = p + n" using None nlt pn by (simp add: line_stop_def)
      ultimately show ?thesis using drain_unfold [OF r' f'] by simp
    next
      case (Some k)
      have k: "k + 1 \<le> length (drop ?e D)" using Some by (auto simp: find_newline_def Let_def split: if_splits)
      have st: "line_stop D ?e = ?e + k + 1" using Some nlt by (simp add: line_stop_def)
      then have kw: "k < w" using fits k b(3) pos pn by (auto simp: w_def)
      then have fg: "find_newline got = Some k" using Some by (simp add: g find_newline_take)
      have "lb_partial s' @ take (k + 1) got = drop (p + n) (take (?e + k + 1) D)"
      proof -
        have "take (k + 1) got = take (k + 1) (drop ?e D)" using kw by (simp add: g min_absorb1)
        then have "lb_partial s' @ take (k + 1) got = take (?e - (p + n)) (drop (p + n) D) @ take (k + 1) (drop ?e D)"
          using part by simp
        also have "\<dots> = take (?e - (p + n) + (k + 1)) (drop (p + n) D)"
          using b(1) by (simp only: take_add drop_drop le_add_diff_inverse add.commute [of "p + n"] le_add_diff_inverse2)
        finally show ?thesis using b(1) by (simp add: drop_take Suc_diff_le)
      qed
      moreover have "lb_partial s' @ take (k + 1) got \<noteq> []" using False by simp
      ultimately show ?thesis using drain_unfold [OF r' f'] fg d st by simp
    qed
  qed
  then obtain cs where cs: "lb_drain G q s' = Inr cs" "concat cs = drop (p + n) (take (line_stop D ?e) D)" by blast
  have "p + n \<le> line_stop D ?e" "line_stop D ?e \<le> length D"
    using pn line_begin_le [of D ?e] q(1) by (auto simp: line_stop_def find_newline_def Let_def split: option.splits if_splits)
  then show ?thesis using drain_unfold [OF r f] cs ne split_read by simp
qed

section \<open>Reading a range\<close>

definition read_range :: "gz_file \<Rightarrow> line_request \<Rightarrow> reader_error + string" where
  "read_range G q = ebind (lb_drain G q (lb_open G q)) (\<lambda>cs. Inr (concat cs))"

text \<open>A request for lines is fit when the index describes the file and lines are not too long.\<close>

definition request_fits :: "gz_file \<Rightarrow> line_request \<Rightarrow> string \<Rightarrow> bool" where
  "request_fits G q D \<longleftrightarrow> index_describes G (rr_members q) D \<and> members_aligned (rr_members q) D \<and> rr_max q = length D
     \<and> lines_fit (rr_buffer q) D"

lemma lines_fit_pos: "lines_fit B D \<Longrightarrow> 0 < B"
proof (rule ccontr)
  assume "lines_fit B D" "\<not> 0 < B"
  then show False by (simp add: lines_fit_def) (metis empty_iff empty_set le0)
qed

lemma read_range_lines:
  assumes "request_fits G q D" "\<not> lr_extend q" "rr_start q < rr_end q" "rr_end q \<le> length D"
    and "rr_start q - line_begin D (rr_start q) \<le> LINE_SEARCH_LOOKBACK"
  shows "read_range G q = Inr (drop (line_begin D (rr_start q)) (take (range_stop D (rr_end q)) D))"
proof -
  note f = assms(1) [unfolded request_fits_def]
  have i: "index_describes G (rr_members q) D" "rr_max q = length D" "0 < rr_buffer q"
    using f lines_fit_pos by auto
  from lb_open_at [OF i(1,2) assms(3,4) i(3)] f assms(5) obtain p where
    "lb_at G q D p (lb_open G q)" "p = line_begin D (rr_start q)" by blast
  then show ?thesis using drain_lines [of G q D p "lb_open G q"] f assms(2,4) by (auto simp: read_range_def)
qed

text \<open>
  C33: a byte range read by lines gives whole lines. For a file its index describes, with members that
  start on lines and lines that fit in the buffer (\<open>request_fits\<close>), and a range that begins at most 512 bytes
  (\<open>LINE_SEARCH_LOOKBACK\<close>) after the start of its line, draining the stream of the range, without extension
  to the end of its last line (\<open>lr_extend\<close>), returns, whatever the buffer size, exactly the bytes from
  the start of the line the range begins in to the end of the last line that ends in the range, or to
  the end of the file. The search for the line start looks back 512 bytes only: further into a line it
  finds none and the read begins in the middle of the line.
\<close>

theorem line_range_exact:
  assumes "request_fits G q D" "\<not> lr_extend q" "rr_start q < rr_end q" "rr_end q \<le> length D"
    and "rr_start q - line_begin D (rr_start q) \<le> LINE_SEARCH_LOOKBACK"
  shows "\<exists>cs. lb_drain G q (lb_open G q) = Inr cs
    \<and> concat cs = drop (line_begin D (rr_start q)) (take (range_stop D (rr_end q)) D)"
  using read_range_lines [OF assms] by (cases "lb_drain G q (lb_open G q)") (auto simp: read_range_def)

text \<open>
  Adjacent ranges: the line a cut falls in is returned by the range that begins there. \<open>cut_line D c\<close> is
  where the ranges on both sides of the cut meet.
\<close>

definition cut_line :: "string \<Rightarrow> nat \<Rightarrow> nat" where
  "cut_line D c = (if c = length D then c else line_begin D c)"

fun read_ranges :: "gz_file \<Rightarrow> line_request \<Rightarrow> nat list \<Rightarrow> reader_error + string list" where
  "read_ranges G q (a # b # cuts) =
     ebind (read_range G (q\<lparr>rr_start := a, rr_end := b\<rparr>)) (\<lambda>x. ebind (read_ranges G q (b # cuts)) (\<lambda>xs. Inr (x # xs)))"
| "read_ranges G q cuts = Inr []"

lemma cut_line_mono: "a \<le> b \<Longrightarrow> b \<le> length D \<Longrightarrow> cut_line D a \<le> cut_line D b"
  using last_newline_end_mono [of a b D] line_begin_le [of D a] by (auto simp: cut_line_def line_begin_def)

lemma cut_line_ends: "cut_line D c = length D \<or> cut_line D c = 0 \<or> D ! (cut_line D c - 1) = NL"
proof (cases "c = length D \<or> line_begin D c = 0")
  case False
  then obtain ys where ys: "take (line_begin D c) (take c D) = ys @ [NL]"
    using last_newline_split(2) [of "take c D"] by (auto simp: line_begin_def)
  then have y: "take (line_begin D c) D = ys @ [NL]" using line_begin_le [of D c] by (simp add: min_absorb1)
  have "length (take (line_begin D c) D) = line_begin D c"
    using last_newline_end_le [of "take c D"] by (simp add: line_begin_def)
  then have "length ys = line_begin D c - 1" "line_begin D c - 1 < line_begin D c"
    using False unfolding y by auto
  then show ?thesis using False arg_cong [OF y, of "\<lambda>xs. xs ! (line_begin D c - 1)"] by (simp add: cut_line_def nth_append)
qed (auto simp: cut_line_def)

definition lines_between :: "string \<Rightarrow> nat list \<Rightarrow> string list" where
  "lines_between D cuts = map (\<lambda>(a, b). drop (cut_line D a) (take (cut_line D b) D)) (zip cuts (tl cuts))"

lemma last_is_largest: "sorted_wrt (<) (b # cuts) \<Longrightarrow> b \<le> last (b # cuts)" for b :: nat
  by (auto simp: less_imp_le)

lemma read_ranges_lines:
  assumes "request_fits G q D" "\<not> lr_extend q"
  shows "sorted_wrt (<) cuts \<Longrightarrow> cuts \<noteq> [] \<Longrightarrow> last cuts = length D
   \<Longrightarrow> \<forall>c \<in> set cuts. c - line_begin D c \<le> LINE_SEARCH_LOOKBACK
   \<Longrightarrow> read_ranges G q cuts = Inr (lines_between D cuts) \<and> concat (lines_between D cuts) = drop (cut_line D (hd cuts)) D"
proof (induction cuts rule: induct_list012)
  case (3 a b cuts)
  let ?q = "q\<lparr>rr_start := a, rr_end := b\<rparr>"
  have b: "a < b" "b \<le> length D" using "3.prems"(1,3) last_is_largest [of b cuts] by auto
  have f: "request_fits G ?q D" "\<not> lr_extend ?q" using assms by (auto simp: request_fits_def)
  have e: "range_stop D b = cut_line D b" by (simp add: range_stop_def cut_line_def line_begin_def)
  have a: "line_begin D a = cut_line D a" using b by (simp add: cut_line_def)
  have r: "read_range G ?q = Inr (drop (cut_line D a) (take (cut_line D b) D))"
    using read_range_lines [OF f] b "3.prems"(4) by (simp add: e a)
  have xs: "read_ranges G q (b # cuts) = Inr (lines_between D (b # cuts))"
      "concat (lines_between D (b # cuts)) = drop (cut_line D b) D"
    using "3.IH"(2) "3.prems" by auto
  have "drop (cut_line D a) (take (cut_line D b) D) @ drop (cut_line D b) D = drop (cut_line D a) D"
    using cut_line_mono [of a b D] b by (simp add: drop_take) (metis append_take_drop_id drop_drop le_add_diff_inverse2 less_imp_le)
  then show ?case using r xs by (simp add: lines_between_def)
qed (auto simp: cut_line_def line_begin_def last_newline_end_def lines_between_def)

text \<open>
  C34: adjacent ranges share out the lines of a file its index describes, with members that start on lines
  and lines that fit in the buffer (\<open>request_fits\<close>). Cut the file anywhere, even inside lines, but at most
  512 bytes (\<open>LINE_SEARCH_LOOKBACK\<close>) after a line start, and read the ranges between the cuts without extension: each returns the lines between the line starts at or before its two
  cuts, every cut stands after a newline, and together they return every byte of the file once and in
  order.
\<close>

theorem adjacent_ranges_partition:
  assumes "request_fits G q D" "\<not> lr_extend q" "sorted_wrt (<) (0 # cuts)" "last (0 # cuts) = length D"
    and "\<forall>c \<in> set cuts. c - line_begin D c \<le> LINE_SEARCH_LOOKBACK"
  shows "read_ranges G q (0 # cuts) = Inr (lines_between D (0 # cuts)) \<and> concat (lines_between D (0 # cuts)) = D
    \<and> (\<forall>c. cut_line D c = length D \<or> cut_line D c = 0 \<or> D ! (cut_line D c - 1) = NL)"
proof -
  have "cut_line D 0 = 0" "\<forall>c \<in> set (0 # cuts). c - line_begin D c \<le> LINE_SEARCH_LOOKBACK"
    using assms(5) by (auto simp: cut_line_def line_begin_def last_newline_end_def)
  then show ?thesis
    using read_ranges_lines [OF assms(1,2), of "0 # cuts"] assms(3,4) cut_line_ends by auto
qed

section \<open>A sample file\<close>

text \<open>Two members of two lines each, 19 compressed bytes.\<close>

definition sample_text :: string where
  "sample_text = ''ab'' @ [NL] @ ''cde'' @ [NL] @ ''f'' @ [NL] @ ''ghi'' @ [NL]"

definition sample_gz :: gz_file where
  "sample_gz = \<lparr>gz_size = 19, gz_decode = (\<lambda>c. if c = 0 then Some (take 7 sample_text, 10)
     else if c = 10 then Some (drop 7 sample_text, 9) else None)\<rparr>"

definition sample_members :: "member_span list" where
  "sample_members = [\<lparr>ms_c_offset = 0, ms_uc_offset = 0, ms_uc_size = 7, ms_first_line = 1, ms_last_line = 2\<rparr>,
     \<lparr>ms_c_offset = 10, ms_uc_offset = 7, ms_uc_size = 6, ms_first_line = 3, ms_last_line = 4\<rparr>]"

definition sample_request :: "nat \<Rightarrow> nat \<Rightarrow> nat \<Rightarrow> bool \<Rightarrow> line_request" where
  "sample_request B s e ext = \<lparr>rr_start = s, rr_end = e, rr_max = 13, rr_members = sample_members, rr_buffer = B, lr_extend = ext\<rparr>"

lemma sample_describes: "index_describes sample_gz sample_members sample_text"
proof -
  have two: "members_from sample_gz 10 [drop 7 sample_text]"
    by (rule members_from.member [where used = 9])
       (auto simp: sample_gz_def sample_text_def NL_def intro: members_from.at_end)
  moreover have "members_from sample_gz 0 [take 7 sample_text, drop 7 sample_text]"
    by (rule members_from.member [where used = 10]) (use two in \<open>auto simp: sample_gz_def sample_text_def\<close>)
  ultimately show ?thesis
    by (fastforce simp: index_describes_def sample_members_def)
qed

lemma lines_fit_check:
  "B \<le> length D \<Longrightarrow> lines_fit B D \<longleftrightarrow> list_all (\<lambda>i. NL \<in> set (take B (drop i D))) [0..<Suc (length D - B)]"
  by (auto simp: lines_fit_def list_all_iff simp del: upt_Suc)

lemma sample_lines_fit: "lines_fit 5 sample_text"
proof -
  have "list_all (\<lambda>i. NL \<in> set (take 5 (drop i sample_text))) [0..<Suc (length sample_text - 5)]" by code_simp
  moreover have "5 \<le> length sample_text" by (simp add: sample_text_def)
  ultimately show ?thesis using lines_fit_check by blast
qed

lemma sample_fits: "request_fits sample_gz (sample_request 5 s e ext) sample_text"
proof -
  have "members_aligned sample_members sample_text" "length sample_text = 13" by code_simp+
  then show ?thesis
    using sample_describes sample_lines_fit by (simp add: request_fits_def sample_request_def)
qed

lemma line_range_exact_witness:
  "\<exists>cs. lb_drain sample_gz (sample_request 5 4 12 False) (lb_open sample_gz (sample_request 5 4 12 False)) = Inr cs
    \<and> concat cs = ''cde'' @ [NL] @ ''f'' @ [NL]"
proof -
  let ?q = "sample_request 5 4 12 False"
  have l: "length sample_text = 13" by (simp add: sample_text_def)
  have "\<exists>cs. lb_drain sample_gz ?q (lb_open sample_gz ?q) = Inr cs
    \<and> concat cs = drop (line_begin sample_text (rr_start ?q)) (take (range_stop sample_text (rr_end ?q)) sample_text)"
    by (rule line_range_exact [OF sample_fits])
       (simp_all add: sample_request_def l LINE_SEARCH_LOOKBACK_def)
  moreover have "line_begin sample_text 4 = 3" "range_stop sample_text 12 = 9"
    by (simp_all add: line_begin_def range_stop_def last_newline_end_def sample_text_def NL_def)
  ultimately show ?thesis by (simp add: sample_request_def sample_text_def)
qed

lemma adjacent_ranges_partition_witness:
  "read_ranges sample_gz (sample_request 5 0 13 False) [0, 4, 8, 13] =
     Inr [''ab'' @ [NL], ''cde'' @ [NL], ''f'' @ [NL] @ ''ghi'' @ [NL]]"
proof -
  have l: "length sample_text = 13" by (simp add: sample_text_def)
  have "read_ranges sample_gz (sample_request 5 0 13 False) (0 # [4, 8, 13]) = Inr (lines_between sample_text (0 # [4, 8, 13]))"
    by (rule adjacent_ranges_partition [OF sample_fits, THEN conjunct1])
       (auto simp: sample_request_def l LINE_SEARCH_LOOKBACK_def intro: order_trans [OF diff_le_self])
  then show ?thesis
    by (simp del: read_ranges.simps add: lines_between_def cut_line_def line_begin_def last_newline_end_def sample_text_def NL_def)
qed

text \<open>
  With \<^verbatim>\<open>extend_to_line_boundary\<close> the last line may still be missing: when the buffer ends inside it,
  the next read finds no newline before the end of the range, returns nothing, and the caller takes
  that for the end.
\<close>

lemma extension_stalls:
  "read_range sample_gz (sample_request 5 0 6 True) = Inr (''ab'' @ [NL])"
  "read_range sample_gz (sample_request 8 0 6 True) = Inr (''ab'' @ [NL] @ ''cde'' @ [NL])"
  by code_simp+

end
