(* ===== verification/WorkItems.thy ===== *)
theory WorkItems
  imports PrunerFile SubChunk LineBytes "HOL-Library.Multiset"
begin

text \<open>
  The plan of a parallel read (\<^verbatim>\<open>utilities/reader/internal/chunk_geometry.cpp\<close>): which chunks of a file
  are read, how contiguous chunks are grouped into work items, which items carry a mask of sub-chunk
  buckets and which may skip the evaluation of events. The chunks of a file are its gzip members
  (\<^verbatim>\<open>ChunkSpan\<close>); the pruner's output, the rows of a dimension and the zone maps of a chunk are what the
  index answered.

  The theorems: every byte of a kept chunk is in exactly one item, a line range is shared out in the
  same way, the number of items is bounded, and no event that matches the query is lost by planning.
\<close>

section \<open>Chunks and clips\<close>

record clip_range =
  cl_start_byte :: nat
  cl_end_byte :: nat
  cl_start_line :: nat
  cl_end_line :: nat

definition has_line_clip :: "clip_range \<Rightarrow> bool" where
  "has_line_clip c \<longleftrightarrow> 0 < cl_start_line c \<or> 0 < cl_end_line c"

definition has_byte_clip :: "clip_range \<Rightarrow> bool" where
  "has_byte_clip c \<longleftrightarrow> cl_start_byte c < cl_end_byte c"

record chunk_span =
  cs_offset :: nat
  cs_size :: nat
  cs_first :: nat
  cs_last :: nat

definition query_chunk_spans :: "member_span list \<Rightarrow> chunk_span list" where
  "query_chunk_spans ms =
     map (\<lambda>m. \<lparr>cs_offset = ms_uc_offset m, cs_size = ms_uc_size m, cs_first = ms_first_line m, cs_last = ms_last_line m\<rparr>) ms"

definition geo_start :: "chunk_span list \<Rightarrow> nat \<Rightarrow> nat" where "geo_start geo c = cs_offset (geo ! c)"
definition geo_end :: "chunk_span list \<Rightarrow> nat \<Rightarrow> nat" where "geo_end geo c = cs_offset (geo ! c) + cs_size (geo ! c)"
definition geo_first_line :: "chunk_span list \<Rightarrow> nat \<Rightarrow> nat" where "geo_first_line geo c = cs_first (geo ! c)"
definition geo_last_line :: "chunk_span list \<Rightarrow> nat \<Rightarrow> nat" where "geo_last_line geo c = cs_last (geo ! c)"

text \<open>The bounds of a line clip; zero is no bound.\<close>

definition clip_lo :: "clip_range \<Rightarrow> nat" where
  "clip_lo c = (if 0 < cl_start_line c then cl_start_line c else 1)"
definition clip_hi :: "clip_range \<Rightarrow> nat" where
  "clip_hi c = (if 0 < cl_end_line c then cl_end_line c else UINT64_MAX)"

section \<open>Uniform chunks\<close>

fun leaf_to_string :: "literal \<Rightarrow> string" where
  "leaf_to_string (LStr s) = s"
| "leaf_to_string (LBool b) = (if b then ''true'' else ''false'')"
| "leaf_to_string (LI64 i) = show_int i"
| "leaf_to_string (LU64 n) = show_nat n"
| "leaf_to_string (LF64 r) = fmt_f r"

fun extract_eq_leaves :: "query_node \<Rightarrow> (string \<times> string) list option" where
  "extract_eq_leaves (CompareNode f op v) = (if op \<noteq> EQ then None else Some [(f, leaf_to_string v)])"
| "extract_eq_leaves (AndNode a b) =
     (case extract_eq_leaves a of
        None \<Rightarrow> None
      | Some l \<Rightarrow> (case extract_eq_leaves b of None \<Rightarrow> None | Some r \<Rightarrow> Some (l @ r)))"
| "extract_eq_leaves _ = None"

definition row_at :: "dim_row list \<Rightarrow> nat \<Rightarrow> dim_row option" where
  "row_at rows c = find (\<lambda>r. dr_checkpoint r = c) rows"

definition all_chunks_uniform_match :: "(string \<Rightarrow> dim_row list) \<Rightarrow> (string \<times> string) list \<Rightarrow> nat list \<Rightarrow> bool" where
  "all_chunks_uniform_match rows_of eqs chunks \<longleftrightarrow>
     eqs \<noteq> [] \<and> chunks \<noteq> []
     \<and> list_all (\<lambda>(d, v). rows_of d \<noteq> []
          \<and> list_all (\<lambda>c. case row_at (rows_of d) c of None \<Rightarrow> False | Some r \<Rightarrow> dr_min r = v \<and> dr_max r = v) chunks) eqs"

section \<open>Kept chunks\<close>

definition candidate_chunks :: "nat \<Rightarrow> bool \<Rightarrow> prune_output \<Rightarrow> nat list" where
  "candidate_chunks total_chunks has_query pr =
     (if has_query \<and> po_success pr \<and> \<not> po_may_match pr then []
      else if has_query \<and> po_success pr \<and> po_candidates pr \<noteq> [] \<and> length (po_candidates pr) < po_total pr
      then remdups_adj (sort (filter (\<lambda>c. c < total_chunks) (po_candidates pr)))
      else [0..<total_chunks])"

definition select_kept_chunks :: "chunk_span list \<Rightarrow> bool \<Rightarrow> prune_output \<Rightarrow> clip_range \<Rightarrow> nat list" where
  "select_kept_chunks geo has_query pr clip =
     (let keep = candidate_chunks (length geo) has_query pr
      in if has_line_clip clip
         then filter (\<lambda>c. \<not> (geo_last_line geo c < clip_lo clip \<or> clip_hi clip < geo_first_line geo c)) keep
         else keep)"

section \<open>Work items\<close>

record work_item =
  wi_file :: string
  wi_start_byte :: nat
  wi_end_byte :: nat
  wi_start_at_checkpoint :: bool
  wi_end_at_checkpoint :: bool
  wi_prune_only :: bool
  wi_start_line :: nat
  wi_end_line :: nat
  wi_counts :: "nat list"
  wi_keep :: "bool list"

definition new_item :: "string \<Rightarrow> work_item" where
  "new_item fp =
     \<lparr>wi_file = fp, wi_start_byte = 0, wi_end_byte = 0, wi_start_at_checkpoint = False, wi_end_at_checkpoint = False,
      wi_prune_only = False, wi_start_line = 0, wi_end_line = 0, wi_counts = [], wi_keep = []\<rparr>"

text \<open>At most \<open>n\<close> further chunks that follow on \<open>prev\<close>, and what is left.\<close>

fun take_run :: "nat \<Rightarrow> nat \<Rightarrow> nat list \<Rightarrow> nat list \<times> nat list" where
  "take_run n prev [] = ([], [])"
| "take_run 0 prev (c # cs) = ([], c # cs)"
| "take_run (Suc n) prev (c # cs) =
     (if c \<noteq> prev + 1 then ([], c # cs) else case take_run n c cs of (g, rest) \<Rightarrow> (c # g, rest))"

lemma take_run_append: "take_run n prev cs = (g, rest) \<Longrightarrow> cs = g @ rest"
  by (induction n prev cs arbitrary: g rest rule: take_run.induct) (auto split: if_splits prod.splits)

function chunk_groups :: "nat \<Rightarrow> nat list \<Rightarrow> (nat list \<times> bool) list" where
  "chunk_groups per [] = []"
| "chunk_groups per (c # cs) =
     (case take_run (per - 1) c cs of (g, rest) \<Rightarrow> (c # g, rest \<noteq> []) # chunk_groups per rest)"
  by pat_completeness auto
termination
  by (relation "measure (\<lambda>(per, cs). length cs)") (auto dest!: take_run_append [OF sym])

definition group_item :: "string \<Rightarrow> chunk_span list \<Rightarrow> bool \<Rightarrow> clip_range \<Rightarrow> nat list \<times> bool \<Rightarrow> work_item list" where
  "group_item fp geo pure_match clip gm =
     (let sc = hd (fst gm); ec = last (fst gm) in
      if has_line_clip clip then
        let item_start = max (clip_lo clip) (geo_first_line geo sc); item_end = min (clip_hi clip) (geo_last_line geo ec)
        in if item_end < item_start then []
           else [(new_item fp)\<lparr>wi_prune_only := pure_match, wi_start_line := item_start, wi_end_line := item_end\<rparr>]
      else
        let cut_start = has_byte_clip clip \<and> geo_start geo sc < cl_start_byte clip;
            cut_end = has_byte_clip clip \<and> cl_end_byte clip < geo_end geo ec;
            start_byte = (if cut_start then cl_start_byte clip else geo_start geo sc);
            end_byte = (if cut_end then cl_end_byte clip else geo_end geo ec)
        in if has_byte_clip clip \<and> end_byte \<le> start_byte then []
           else [(new_item fp)\<lparr>wi_start_byte := start_byte, wi_end_byte := end_byte,
                   wi_start_at_checkpoint := (1 \<le> sc \<and> \<not> cut_start), wi_end_at_checkpoint := (snd gm \<and> \<not> cut_end),
                   wi_prune_only := pure_match\<rparr>])"

definition per_range :: "nat \<Rightarrow> nat \<Rightarrow> nat" where
  "per_range n max_workers = (let t = max 1 max_workers in max 1 ((n + t - 1) div t))"

definition emit_work_items :: "string \<Rightarrow> chunk_span list \<Rightarrow> nat list \<Rightarrow> bool \<Rightarrow> nat \<Rightarrow> clip_range \<Rightarrow> work_item list" where
  "emit_work_items fp geo keep pure_match max_workers clip =
     concat (map (group_item fp geo pure_match clip) (chunk_groups (per_range (length keep) max_workers) keep))"

section \<open>Planning a file\<close>

definition sub_chunk_eligible :: "query_node option \<Rightarrow> clip_range \<Rightarrow> bool" where
  "sub_chunk_eligible q clip \<longleftrightarrow>
     (case q of None \<Rightarrow> False
      | Some n \<Rightarrow> \<not> has_line_clip clip \<and> \<not> has_byte_clip clip
          \<and> (nr_constrained (extract_and_range n ''ts'') \<or> nr_constrained (extract_and_range n ''dur'')))"

text \<open>The mask of a chunk: empty when the chunk has no zone maps or none of its buckets is excluded.\<close>

definition chunk_mask :: "(nat \<rightharpoonup> zone_map list) \<Rightarrow> query_node \<Rightarrow> nat \<Rightarrow> bool list" where
  "chunk_mask zones q c =
     (case zones c of None \<Rightarrow> [] | Some zs \<Rightarrow> if zs = [] then [] else sub_chunk_keep_mask zs q ''ts'' ''dur'')"

definition masked_item :: "string \<Rightarrow> chunk_span list \<Rightarrow> bool \<Rightarrow> (nat \<rightharpoonup> zone_map list) \<Rightarrow> query_node \<Rightarrow> nat \<Rightarrow> work_item" where
  "masked_item fp geo pure_match zones q c =
     (new_item fp)\<lparr>wi_start_byte := geo_start geo c, wi_end_byte := geo_end geo c, wi_start_at_checkpoint := 1 \<le> c,
        wi_end_at_checkpoint := c + 1 < length geo, wi_prune_only := pure_match,
        wi_counts := event_counts (the (zones c)), wi_keep := chunk_mask zones q c\<rparr>"

definition pure_match :: "(string \<Rightarrow> dim_row list) \<Rightarrow> query_node option \<Rightarrow> nat list \<Rightarrow> bool" where
  "pure_match rows_of q keep =
     (case q of None \<Rightarrow> False
      | Some n \<Rightarrow> (case extract_eq_leaves n of None \<Rightarrow> False
          | Some eqs \<Rightarrow> eqs \<noteq> [] \<and> all_chunks_uniform_match rows_of eqs keep))"

definition file_work_items ::
  "string \<Rightarrow> chunk_span list \<Rightarrow> query_node option \<Rightarrow> prune_output \<Rightarrow> (string \<Rightarrow> dim_row list) \<Rightarrow> (nat \<rightharpoonup> zone_map list)
    \<Rightarrow> nat \<Rightarrow> clip_range \<Rightarrow> work_item list" where
  "file_work_items fp geo q pr rows_of zones max_workers clip =
     (let keep = select_kept_chunks geo (q \<noteq> None) pr clip; pm = pure_match rows_of q keep in
      if keep = [] then []
      else if \<not> sub_chunk_eligible q clip then emit_work_items fp geo keep pm max_workers clip
      else
        let n = the q
        in map (masked_item fp geo pm zones n) (filter (\<lambda>c. chunk_mask zones n c \<noteq> []) keep)
           @ emit_work_items fp geo (filter (\<lambda>c. chunk_mask zones n c = []) keep) pm max_workers clip)"

section \<open>Planning many files\<close>

text \<open>
  One index and the files resolved to it: the id of a file, its chunks, the output of the pruner for
  the files that have chunks, the rows and zone maps of an id. \<open>None\<close> is an index that is not there
  or does not open.
\<close>

record index_view =
  iv_fid :: "string \<Rightarrow> int"
  iv_spans :: "int \<Rightarrow> chunk_span list"
  iv_prune :: "(string \<times> query_node) list \<Rightarrow> prune_output list option"
  iv_rows :: "int \<Rightarrow> string \<Rightarrow> dim_row list"
  iv_zones :: "int \<Rightarrow> nat \<rightharpoonup> zone_map list"

definition unsplit_item :: "clip_range \<Rightarrow> string \<Rightarrow> work_item" where
  "unsplit_item clip fp = (new_item fp)\<lparr>wi_start_line := cl_start_line clip, wi_end_line := cl_end_line clip\<rparr>"

definition indexed_file :: "index_view \<Rightarrow> string \<Rightarrow> bool" where
  "indexed_file I fp \<longleftrightarrow> \<not> (iv_fid I fp < 0) \<and> iv_spans I (iv_fid I fp) \<noteq> []"

definition default_output :: prune_output where
  "default_output = \<lparr>po_may_match = False, po_candidates = [], po_total = 0, po_success = False\<rparr>"

definition prune_outputs :: "index_view \<Rightarrow> query_node option \<Rightarrow> string list \<Rightarrow> prune_output list" where
  "prune_outputs I q fps =
     (case q of
        None \<Rightarrow> map (\<lambda>_. default_output) fps
      | Some n \<Rightarrow>
          (if fps = [] then []
           else case iv_prune I (map (\<lambda>fp. (fp, n)) fps) of
                  None \<Rightarrow> map (\<lambda>_. default_output) fps | Some outs \<Rightarrow> outs))"

definition index_work_items ::
  "index_view option \<Rightarrow> query_node option \<Rightarrow> nat \<Rightarrow> clip_range \<Rightarrow> string list \<Rightarrow> work_item list" where
  "index_work_items Io q max_workers clip fps =
     (case Io of
        None \<Rightarrow> map (unsplit_item clip) fps
      | Some I \<Rightarrow>
          let split = filter (indexed_file I) fps
          in map (unsplit_item clip) (filter (\<lambda>fp. \<not> indexed_file I fp) fps)
             @ concat (map (\<lambda>(fp, pr). let fid = iv_fid I fp in
                 file_work_items fp (iv_spans I fid) q pr (iv_rows I fid) (iv_zones I fid) max_workers clip)
                 (zip split (prune_outputs I q split))))"

text \<open>
  Files are grouped by the index they resolve to. \<open>order\<close> is the order in which the hash map of groups
  is walked, which the program does not fix; a query that does not parse is no query.
\<close>

definition enumerate_work_items ::
  "(string \<Rightarrow> string) \<Rightarrow> (string \<Rightarrow> index_view option) \<Rightarrow> string list \<Rightarrow> query_node option \<Rightarrow> nat \<Rightarrow> clip_range
    \<Rightarrow> string list \<Rightarrow> work_item list" where
  "enumerate_work_items index_of open_index order q max_workers clip files =
     concat (map (\<lambda>p. index_work_items (open_index p) q max_workers clip (filter (\<lambda>f. index_of f = p) files)) order)"

section \<open>Groups\<close>

declare upt_Suc [simp del]

lemma upt_join: "a \<le> b \<Longrightarrow> b \<le> c \<Longrightarrow> [a..<b] @ [b..<c] = [a..<c]"
  using upt_add_eq_append [of a b "c - b"] by simp

lemma take_run_spec:
  "take_run n prev cs = (g, rest) \<Longrightarrow> length g \<le> n \<and> prev # g = [prev..<Suc prev + length g]
     \<and> (rest \<noteq> [] \<and> length g < n \<longrightarrow> hd rest \<noteq> prev + length g + 1)"
proof (induction n prev cs arbitrary: g rest rule: take_run.induct)
  case (3 n prev c cs)
  show ?case
  proof (cases "c = prev + 1")
    case True
    then obtain g' where g: "take_run n c cs = (g', rest)" "g = c # g'"
      using "3.prems" by (auto split: prod.splits)
    from "3.IH" [OF _ g(1)] True have ih: "length g' \<le> n" "c # g' = [c..<Suc c + length g']"
      "rest \<noteq> [] \<and> length g' < n \<longrightarrow> hd rest \<noteq> c + length g' + 1" by auto
    have "prev # g = [prev..<Suc prev + length g]"
      using ih(2) True g(2) by (simp add: upt_conv_Cons)
    then show ?thesis using ih g(2) True by auto
  qed (use "3.prems" in \<open>auto simp: upt_conv_Cons\<close>)
qed (auto simp: upt_conv_Cons)

lemma chunk_groups_spec:
  "concat (map fst (chunk_groups per cs)) = cs"
  "gm \<in> set (chunk_groups per cs) \<Longrightarrow> fst gm = [hd (fst gm)..<Suc (last (fst gm))] \<and> fst gm \<noteq> []"
proof (induction per cs rule: chunk_groups.induct)
  case (2 per c cs)
  obtain g rest where t: "take_run (per - 1) c cs = (g, rest)" by (metis surj_pair)
  note app = take_run_append [OF t]
  have whole: "c # g = [c..<Suc c + length g]" using take_run_spec [OF t] by blast
  have l: "last (c # g) = c + length g"
    unfolding whole by simp
  {
    case 1
    show ?case using "2.IH"(1) [OF t [symmetric]] app t by simp
  next
    case 2
    from 2 t consider "gm = (c # g, rest \<noteq> [])" | "gm \<in> set (chunk_groups per rest)" by auto
    then show ?case
    proof cases
      case 1
      then show ?thesis using whole l by (metis add_Suc fst_conv list.discI list.sel(1))
    next
      case 2
      from "2.IH"(2) [OF t [symmetric] this] show ?thesis .
    qed
  }
qed simp_all

text \<open>Ranges that adjoin: the concatenation of a run of them is one range.\<close>

definition adjoining :: "(nat \<Rightarrow> nat) \<Rightarrow> (nat \<Rightarrow> nat) \<Rightarrow> nat \<Rightarrow> bool" where
  "adjoining lo hi n \<longleftrightarrow> (\<forall>i < n. lo i \<le> hi i) \<and> (\<forall>i. Suc i < n \<longrightarrow> lo (Suc i) = hi i)"

lemma adjoining_run:
  assumes "adjoining lo hi n" "a \<le> b" "b < n"
  shows "concat (map (\<lambda>i. [lo i..<hi i]) [a..<Suc b]) = [lo a..<hi b] \<and> lo a \<le> hi b"
  using assms(2,3)
proof (induction b)
  case 0
  then show ?case using assms(1) by (auto simp: adjoining_def upt_conv_Cons)
next
  case (Suc b)
  show ?case
  proof (cases "a = Suc b")
    case True
    then show ?thesis using assms(1) Suc.prems by (auto simp: adjoining_def upt_conv_Cons)
  next
    case False
    then have ih: "concat (map (\<lambda>i. [lo i..<hi i]) [a..<Suc b]) = [lo a..<hi b]" "lo a \<le> hi b"
      using Suc by auto
    have "lo (Suc b) = hi b" "lo (Suc b) \<le> hi (Suc b)" using assms(1) Suc.prems by (auto simp: adjoining_def)
    moreover have "[a..<Suc (Suc b)] = [a..<Suc b] @ [Suc b]" using False Suc.prems by (simp add: upt_Suc)
    ultimately show ?thesis
      using ih by (simp add: upt_join)
  qed
qed

lemma filter_upt_between: "filter (\<lambda>x. s \<le> x \<and> x < e) [a..<b] = [max s a..<min e b]"
proof (induction b)
  case (Suc b)
  then show ?case by (auto simp: min_def max_def le_Suc_eq upt_Suc)
qed simp

definition span_bytes :: "chunk_span list \<Rightarrow> nat \<Rightarrow> nat list" where
  "span_bytes geo c = [geo_start geo c..<geo_end geo c]"
definition chunk_lines :: "chunk_span list \<Rightarrow> nat \<Rightarrow> nat list" where
  "chunk_lines geo c = [geo_first_line geo c..<Suc (geo_last_line geo c)]"
definition item_bytes :: "work_item \<Rightarrow> nat list" where
  "item_bytes it = [wi_start_byte it..<wi_end_byte it]"
definition item_lines :: "work_item \<Rightarrow> nat list" where
  "item_lines it = [wi_start_line it..<Suc (wi_end_line it)]"

text \<open>Chunks that follow on one another, in bytes and in lines.\<close>

definition bytes_adjoin :: "chunk_span list \<Rightarrow> bool" where
  "bytes_adjoin geo \<longleftrightarrow> adjoining (geo_start geo) (geo_end geo) (length geo)"
definition lines_adjoin :: "chunk_span list \<Rightarrow> bool" where
  "lines_adjoin geo \<longleftrightarrow> adjoining (geo_first_line geo) (\<lambda>c. Suc (geo_last_line geo c)) (length geo)
     \<and> (\<forall>c < length geo. 1 \<le> geo_first_line geo c \<and> geo_last_line geo c \<le> UINT64_MAX)"

definition in_byte_clip :: "clip_range \<Rightarrow> nat \<Rightarrow> bool" where
  "in_byte_clip clip b \<longleftrightarrow> (has_byte_clip clip \<longrightarrow> cl_start_byte clip \<le> b \<and> b < cl_end_byte clip)"
definition in_line_clip :: "clip_range \<Rightarrow> nat \<Rightarrow> bool" where
  "in_line_clip clip l \<longleftrightarrow> clip_lo clip \<le> l \<and> l \<le> clip_hi clip"

lemma group_item_bytes:
  assumes "bytes_adjoin geo" "\<not> has_line_clip clip" "fst gm = [hd (fst gm)..<Suc (last (fst gm))]" "fst gm \<noteq> []"
    "set (fst gm) \<subseteq> {..<length geo}"
  shows "concat (map item_bytes (group_item fp geo pm clip gm)) = filter (in_byte_clip clip) (concat (map (span_bytes geo) (fst gm)))"
proof -
  let ?a = "hd (fst gm)" and ?b = "last (fst gm)"
  have "?b < length geo" using assms(4,5) last_in_set by blast
  moreover have "?a \<le> ?b" using assms(3,4) by (metis Suc_leI leI less_Suc_eq_le upt_conv_Nil)
  ultimately have run: "concat (map (span_bytes geo) (fst gm)) = [geo_start geo ?a..<geo_end geo ?b]" "geo_start geo ?a \<le> geo_end geo ?b"
    using adjoining_run [of "geo_start geo" "geo_end geo" "length geo" ?a ?b] assms(1) arg_cong [OF assms(3), of "\<lambda>g. concat (map (span_bytes geo) g)"]
    by (simp_all add: bytes_adjoin_def span_bytes_def [abs_def])
  show ?thesis
  proof (cases "has_byte_clip clip")
    case True
    then have "filter (in_byte_clip clip) xs = filter (\<lambda>x. cl_start_byte clip \<le> x \<and> x < cl_end_byte clip) xs" for xs
      by (intro filter_cong) (auto simp: in_byte_clip_def)
    then show ?thesis using True assms(2) run
      by (auto simp: filter_upt_between group_item_def Let_def item_bytes_def new_item_def min_def max_def)
  next
    case False
    then have "filter (in_byte_clip clip) xs = xs" for xs by (simp add: in_byte_clip_def)
    then show ?thesis using False assms(2) run by (simp add: group_item_def Let_def item_bytes_def new_item_def)
  qed
qed

lemma group_item_lines:
  assumes "lines_adjoin geo" "has_line_clip clip" "fst gm = [hd (fst gm)..<Suc (last (fst gm))]" "fst gm \<noteq> []"
    "set (fst gm) \<subseteq> {..<length geo}"
  shows "concat (map item_lines (group_item fp geo pm clip gm)) = filter (in_line_clip clip) (concat (map (chunk_lines geo) (fst gm)))"
proof -
  let ?a = "hd (fst gm)" and ?b = "last (fst gm)"
  have "?b < length geo" using assms(4,5) last_in_set by blast
  moreover have "?a \<le> ?b" using assms(3,4) by (metis Suc_leI leI less_Suc_eq_le upt_conv_Nil)
  ultimately have run: "concat (map (chunk_lines geo) (fst gm)) = [geo_first_line geo ?a..<Suc (geo_last_line geo ?b)]"
    using adjoining_run [of "geo_first_line geo" "\<lambda>c. Suc (geo_last_line geo c)" "length geo" ?a ?b] assms(1) arg_cong [OF assms(3), of "\<lambda>g. concat (map (chunk_lines geo) g)"]
    by (simp add: lines_adjoin_def chunk_lines_def [abs_def])
  have "filter (in_line_clip clip) xs = filter (\<lambda>x. clip_lo clip \<le> x \<and> x < Suc (clip_hi clip)) xs" for xs
    by (rule filter_cong) (auto simp: in_line_clip_def)
  then show ?thesis using assms(2) run
    by (auto simp: filter_upt_between group_item_def Let_def item_lines_def new_item_def min_def max_def)
qed

lemma concat_groups:
  assumes "\<And>gm. gm \<in> set (chunk_groups per keep) \<Longrightarrow> concat (map f (group_item fp geo pm clip gm)) = filter P (concat (map h (fst gm)))"
  shows "concat (map f (concat (map (group_item fp geo pm clip) (chunk_groups per keep)))) = filter P (concat (map h keep))"
proof -
  have "concat (map f (concat (map (group_item fp geo pm clip) gs))) = filter P (concat (map h (concat (map fst gs))))"
    if "\<And>gm. gm \<in> set gs \<Longrightarrow> concat (map f (group_item fp geo pm clip gm)) = filter P (concat (map h (fst gm)))" for gs
    using that by (induction gs) auto
  from this [of "chunk_groups per keep"] assms show ?thesis by (simp add: chunk_groups_spec(1))
qed

lemma group_in_range:
  "set keep \<subseteq> {..<n} \<Longrightarrow> gm \<in> set (chunk_groups per keep) \<Longrightarrow> set (fst gm) \<subseteq> {..<n}"
  using chunk_groups_spec(1) [of per keep] by (metis (no_types, lifting) UN_I image_eqI list.set_map set_concat subset_iff)

lemma emit_bytes:
  assumes "bytes_adjoin geo" "\<not> has_line_clip clip" "set keep \<subseteq> {..<length geo}"
  shows "concat (map item_bytes (emit_work_items fp geo keep pm mw clip)) = filter (in_byte_clip clip) (concat (map (span_bytes geo) keep))"
  unfolding emit_work_items_def
  by (rule concat_groups, rule group_item_bytes [OF assms(1,2)])
     (use chunk_groups_spec(2) group_in_range [OF assms(3)] in blast)+

lemma emit_lines:
  assumes "lines_adjoin geo" "has_line_clip clip" "set keep \<subseteq> {..<length geo}"
  shows "concat (map item_lines (emit_work_items fp geo keep pm mw clip)) = filter (in_line_clip clip) (concat (map (chunk_lines geo) keep))"
  unfolding emit_work_items_def
  by (rule concat_groups, rule group_item_lines [OF assms(1,2)])
     (use chunk_groups_spec(2) group_in_range [OF assms(3)] in blast)+

section \<open>How many items\<close>

fun gaps :: "nat list \<Rightarrow> nat" where
  "gaps (a # b # cs) = (if b \<noteq> a + 1 then 1 else 0) + gaps (b # cs)"
| "gaps cs = 0"

lemma gaps_append:
  "xs \<noteq> [] \<Longrightarrow> ys \<noteq> [] \<Longrightarrow> gaps ys + (if hd ys \<noteq> last xs + 1 then 1 else 0) \<le> gaps (xs @ ys)"
proof (induction xs rule: induct_list012)
  case (2 a)
  then show ?case by (cases ys) auto
qed auto

lemma groups_count:
  "0 < per \<Longrightarrow> length (chunk_groups per cs) \<le> (length cs + per - 1) div per + gaps cs"
proof (induction per cs rule: chunk_groups.induct)
  case (2 per c cs)
  obtain g rest where t: "take_run (per - 1) c cs = (g, rest)" by (metis surj_pair)
  have app: "cs = g @ rest" by (rule take_run_append [OF t])
  note run = take_run_spec [OF t]
  have last: "last (c # g) = c + length g"
  proof -
    have w: "c # g = [c..<Suc c + length g]" using run by blast
    show ?thesis unfolding w by simp
  qed
  have ih: "length (chunk_groups per rest) \<le> (length rest + per - 1) div per + gaps rest"
    using "2.IH" [OF t [symmetric]] "2.prems" by simp
  have len: "length (chunk_groups per (c # cs)) = Suc (length (chunk_groups per rest))" using t by simp
  show ?case
  proof (cases "rest = []")
    case True
    have "1 \<le> (length (c # cs) + per - 1) div per"
      using "2.prems" by (simp add: div_greater_zero_iff Suc_le_eq)
    then show ?thesis using len True by simp
  next
    case False
    note gap = gaps_append [of "c # g" rest]
    show ?thesis
    proof (cases "length g = per - 1")
      case True
      then have "length (c # cs) + per - 1 = (length rest + per - 1) + per" using app "2.prems" by simp
      moreover have "((length rest + per - 1) + per) div per = Suc ((length rest + per - 1) div per)"
        using div_add_self2 [of per "length rest + per - 1"] "2.prems" by linarith
      ultimately have "(length (c # cs) + per - 1) div per = Suc ((length rest + per - 1) div per)" by presburger
      then show ?thesis using ih len gap False app by simp
    next
      case short: False
      then have "hd rest \<noteq> last (c # g) + 1" using run False last by auto
      then have "Suc (gaps rest) \<le> gaps (c # cs)" using gap False app by simp
      moreover have "(length rest + per - 1) div per \<le> (length (c # cs) + per - 1) div per"
        by (rule div_le_mono) (simp add: app)
      ultimately show ?thesis using ih len by linarith
    qed
  qed
qed simp

lemma ceil_div_le:
  fixes n t :: nat
  assumes "0 < t" "0 < p" "(n + t - 1) div t \<le> p"
  shows "(n + p - 1) div p \<le> t"
proof -
  have "n + t - 1 < t * ((n + t - 1) div t) + t"
    using assms(1) by (metis add.commute add_less_cancel_left mod_less_divisor mult_div_mod_eq add_less_mono1)
  then have "n \<le> t * ((n + t - 1) div t)" by linarith
  also have "\<dots> \<le> t * p" using assms(3) by simp
  finally have "n + p - 1 < p * t + p" using assms(2) by (simp add: mult.commute)
  then have "(n + p - 1) div p < Suc t" using assms(2) by (simp add: div_less_iff_less_mult algebra_simps)
  then show ?thesis by simp
qed

lemma emit_count:
  "length (emit_work_items fp geo keep pm mw clip) \<le> max 1 mw + gaps keep"
proof -
  have one: "length (group_item fp geo pm clip gm) \<le> 1" for gm
    by (simp add: group_item_def Let_def)
  have "length (concat (map (group_item fp geo pm clip) gs)) \<le> length gs" for gs
    using one by (induction gs) (auto simp: add_mono_thms_linordered_semiring(1) intro: order_trans [OF add_mono])
  then have "length (emit_work_items fp geo keep pm mw clip) \<le> length (chunk_groups (per_range (length keep) mw) keep)"
    by (simp add: emit_work_items_def)
  also have "\<dots> \<le> (length keep + per_range (length keep) mw - 1) div per_range (length keep) mw + gaps keep"
    by (rule groups_count) (simp add: per_range_def Let_def)
  also have "\<dots> \<le> max 1 mw + gaps keep"
    using ceil_div_le [of "max 1 mw" "per_range (length keep) mw" "length keep"] by (simp add: per_range_def Let_def)
  finally show ?thesis .
qed

section \<open>Every byte, every line, once\<close>

lemma candidate_chunks_range: "set (candidate_chunks n hq pr) \<subseteq> {..<n}"
  by (auto simp: candidate_chunks_def)

lemma select_kept_range: "set (select_kept_chunks geo hq pr clip) \<subseteq> {..<length geo}"
  using candidate_chunks_range [of "length geo" hq pr] by (auto simp: select_kept_chunks_def Let_def)

lemma no_line_clip_select: "\<not> has_line_clip clip \<Longrightarrow> select_kept_chunks geo hq pr clip = candidate_chunks (length geo) hq pr"
  by (simp add: select_kept_chunks_def)

lemma mset_concat_partition:
  "mset (concat (map h (filter P xs))) + mset (concat (map h (filter (\<lambda>x. \<not> P x) xs))) = mset (concat (map h xs))"
  by (induction xs) (auto simp: ac_simps)

lemma masked_item_bytes: "item_bytes (masked_item fp geo pm zones n c) = span_bytes geo c"
  by (simp add: item_bytes_def masked_item_def span_bytes_def)

lemma file_items_bytes:
  assumes "bytes_adjoin geo" "\<not> has_line_clip clip"
  shows "mset (concat (map item_bytes (file_work_items fp geo q pr rows_of zones mw clip)))
    = mset (filter (in_byte_clip clip) (concat (map (span_bytes geo) (candidate_chunks (length geo) (q \<noteq> None) pr))))"
proof -
  let ?keep = "candidate_chunks (length geo) (q \<noteq> None) pr" and ?pm = "pure_match rows_of q"
  note range = candidate_chunks_range [of "length geo" "q \<noteq> None" pr]
  show ?thesis
  proof (cases "?keep \<noteq> [] \<and> sub_chunk_eligible q clip")
    case True
    then have nb: "\<not> has_byte_clip clip" by (auto simp: sub_chunk_eligible_def split: option.splits)
    then have all: "filter (in_byte_clip clip) xs = xs" for xs by (simp add: in_byte_clip_def)
    let ?P = "\<lambda>c. chunk_mask zones (the q) c \<noteq> []"
    have "set (filter (\<lambda>c. \<not> ?P c) ?keep) \<subseteq> {..<length geo}" using range by auto
    from emit_bytes [OF assms this, where pm = "?pm ?keep" and mw = mw and fp = fp] all
    have e: "concat (map item_bytes (emit_work_items fp geo (filter (\<lambda>c. \<not> ?P c) ?keep) (?pm ?keep) mw clip))
      = concat (map (span_bytes geo) (filter (\<lambda>c. \<not> ?P c) ?keep))" by simp
    have m: "map item_bytes (map (masked_item fp geo (?pm ?keep) zones (the q)) xs) = map (span_bytes geo) xs" for xs
      by (simp add: masked_item_bytes)
    have "file_work_items fp geo q pr rows_of zones mw clip
      = map (masked_item fp geo (?pm ?keep) zones (the q)) (filter ?P ?keep)
        @ emit_work_items fp geo (filter (\<lambda>c. \<not> ?P c) ?keep) (?pm ?keep) mw clip"
      using True assms(2) by (simp add: file_work_items_def no_line_clip_select Let_def)
    then show ?thesis
      using mset_concat_partition [of "span_bytes geo" ?P ?keep] by (simp only: map_append concat_append mset_append m e all)
  next
    case False
    then show ?thesis
      using emit_bytes [OF assms range] assms(2) by (auto simp: file_work_items_def no_line_clip_select Let_def)
  qed
qed

lemma file_items_lines:
  assumes "lines_adjoin geo" "has_line_clip clip"
  shows "concat (map item_lines (file_work_items fp geo q pr rows_of zones mw clip))
    = filter (in_line_clip clip) (concat (map (chunk_lines geo) (candidate_chunks (length geo) (q \<noteq> None) pr)))"
proof -
  let ?keep = "select_kept_chunks geo (q \<noteq> None) pr clip"
  have "filter (in_line_clip clip) (concat (map (chunk_lines geo) ?keep))
    = filter (in_line_clip clip) (concat (map (chunk_lines geo) (candidate_chunks (length geo) (q \<noteq> None) pr)))"
  proof -
    have none: "filter (in_line_clip clip) (chunk_lines geo c) = []"
      if "geo_last_line geo c < clip_lo clip \<or> clip_hi clip < geo_first_line geo c" for c
      using that by (auto simp: filter_empty_conv chunk_lines_def in_line_clip_def)
    have "filter (in_line_clip clip) (concat (map (chunk_lines geo)
        (filter (\<lambda>c. \<not> (geo_last_line geo c < clip_lo clip \<or> clip_hi clip < geo_first_line geo c)) cs)))
      = filter (in_line_clip clip) (concat (map (chunk_lines geo) cs))" for cs
      using none by (induction cs) auto
    then show ?thesis using assms(2) by (simp add: select_kept_chunks_def Let_def)
  qed
  moreover have "\<not> sub_chunk_eligible q clip" using assms(2) by (auto simp: sub_chunk_eligible_def split: option.splits)
  moreover have "concat (map item_lines (emit_work_items fp geo ?keep pm mw clip))
      = filter (in_line_clip clip) (concat (map (chunk_lines geo) ?keep))" for pm
    by (rule emit_lines [OF assms select_kept_range])
  ultimately show ?thesis by (auto simp: file_work_items_def Let_def)
qed

text \<open>
  C32: The work items of a file share out what has to be read. Without a line range, every byte of the
  chunks that the pruner kept, within the byte range, is in exactly one item, and items hold no other
  byte; with a line range, the items hold, in order, exactly the lines of the kept chunks that lie in
  it. The number of coalesced items is at most the number of workers plus the gaps between kept chunks.
\<close>

theorem work_items_partition:
  assumes "bytes_adjoin geo" "lines_adjoin geo"
  shows "(\<not> has_line_clip clip \<longrightarrow>
      mset (concat (map item_bytes (file_work_items fp geo q pr rows_of zones mw clip)))
      = mset (filter (in_byte_clip clip) (concat (map (span_bytes geo) (candidate_chunks (length geo) (q \<noteq> None) pr)))))
    \<and> (has_line_clip clip \<longrightarrow>
      concat (map item_lines (file_work_items fp geo q pr rows_of zones mw clip))
      = filter (in_line_clip clip) (concat (map (chunk_lines geo) (candidate_chunks (length geo) (q \<noteq> None) pr))))
    \<and> length (emit_work_items fp geo keep pm mw clip) \<le> max 1 mw + gaps keep"
  using file_items_bytes [OF assms(1)] file_items_lines [OF assms(2)] emit_count by blast

definition whole_file :: clip_range where
  "whole_file = \<lparr>cl_start_byte = 0, cl_end_byte = 0, cl_start_line = 0, cl_end_line = 0\<rparr>"

lemma sample_adjoin: "bytes_adjoin (query_chunk_spans sample_members)" "lines_adjoin (query_chunk_spans sample_members)"
  by (auto simp: bytes_adjoin_def lines_adjoin_def adjoining_def query_chunk_spans_def sample_members_def geo_start_def geo_end_def
      geo_first_line_def geo_last_line_def less_Suc_eq UINT64_MAX_def)

lemma work_items_partition_witness:
  "mset (concat (map item_bytes (file_work_items ''a.pfw.gz'' (query_chunk_spans sample_members) None default_output (\<lambda>d. []) Map.empty 2 whole_file)))
     = mset [0..<13]
   \<and> concat (map item_lines (file_work_items ''a.pfw.gz'' (query_chunk_spans sample_members) None default_output (\<lambda>d. []) Map.empty 2
       (whole_file\<lparr>cl_start_line := 2, cl_end_line := 3\<rparr>))) = [2, 3]"
proof -
  have c: "candidate_chunks 2 False default_output = [0, 1]" by code_simp
  have l: "length (query_chunk_spans sample_members) = 2" by (simp add: query_chunk_spans_def sample_members_def)
  have b: "concat (map (span_bytes (query_chunk_spans sample_members)) [0, 1]) = [0..<13]"
    by code_simp
  have ln: "concat (map (chunk_lines (query_chunk_spans sample_members)) [0, 1]) = [1, 2, 3, 4]" by code_simp
  let ?lines = "whole_file\<lparr>cl_start_line := 2, cl_end_line := 3\<rparr>" and ?geo = "query_chunk_spans sample_members"
  let ?plan = "file_work_items ''a.pfw.gz'' ?geo None default_output (\<lambda>d. []) Map.empty 2"
  have cand: "candidate_chunks (length ?geo) ((None :: query_node option) \<noteq> None) default_output = [0, 1]" using c l by simp
  have clip: "\<not> has_line_clip whole_file" "has_line_clip ?lines" by (simp_all add: has_line_clip_def whole_file_def)
  have "mset (concat (map item_bytes (?plan whole_file))) = mset (filter (in_byte_clip whole_file) (concat (map (span_bytes ?geo) [0, 1])))"
    using work_items_partition [OF sample_adjoin, of whole_file "''a.pfw.gz''" None default_output "\<lambda>d. []" Map.empty 2] clip
    unfolding cand by blast
  moreover have "concat (map item_lines (?plan ?lines)) = filter (in_line_clip ?lines) (concat (map (chunk_lines ?geo) [0, 1]))"
    using work_items_partition [OF sample_adjoin, of ?lines "''a.pfw.gz''" None default_output "\<lambda>d. []" Map.empty 2] clip
    unfolding cand by blast
  moreover have "filter (in_byte_clip whole_file) xs = xs" for xs by (simp add: in_byte_clip_def has_byte_clip_def whole_file_def)
  moreover have "filter (in_line_clip ?lines) [1, 2, 3, 4] = [2, 3]"
    by (simp add: in_line_clip_def clip_lo_def clip_hi_def)
  ultimately show ?thesis by (simp only: b ln)
qed

section \<open>No match is lost\<close>

definition candidate_kept_by :: "prune_output \<Rightarrow> chunk_span list \<Rightarrow> nat \<Rightarrow> bool" where
  "candidate_kept_by pr geo c \<longleftrightarrow> c \<in> set (candidate_chunks (length geo) True pr)"

lemma group_item_file: "it \<in> set (group_item fp geo pm clip gm) \<Longrightarrow> wi_file it = fp"
  by (simp add: group_item_def new_item_def Let_def split: if_splits)

lemma file_items_file:
  assumes "it \<in> set (file_work_items fp geo q pr rows_of zones mw clip)"
  shows "wi_file it = fp"
proof -
  have e: "it \<in> set (emit_work_items fp geo keep pm mw clip) \<Longrightarrow> wi_file it = fp" for keep pm
    by (auto simp: emit_work_items_def dest: group_item_file)
  have m: "wi_file (masked_item fp geo pm zones n c) = fp" for pm n c by (simp add: masked_item_def new_item_def)
  show ?thesis using assms e by (fastforce simp: file_work_items_def Let_def m split: if_splits)
qed

lemma candidate_kept:
  assumes "po_may_match pr" "c \<in> set (po_candidates pr)" "c < n"
  shows "c \<in> set (candidate_chunks n hq pr)"
  using assms by (auto simp: candidate_chunks_def)

lemma emit_covers:
  assumes "bytes_adjoin geo" "\<not> has_line_clip clip" "\<not> has_byte_clip clip" "set keep \<subseteq> {..<length geo}" "c \<in> set keep"
  shows "\<exists>it \<in> set (emit_work_items fp geo keep pm mw clip). set (span_bytes geo c) \<subseteq> set (item_bytes it) \<and> wi_counts it = []"
proof -
  let ?gs = "chunk_groups (per_range (length keep) mw) keep"
  have "c \<in> set (concat (map fst ?gs))" using assms(5) by (simp only: chunk_groups_spec(1))
  then obtain gm where gm: "gm \<in> set ?gs" "c \<in> set (fst gm)" by auto
  have all: "in_byte_clip clip = (\<lambda>b. True)" using assms(3) by (simp add: in_byte_clip_def fun_eq_iff)
  have "concat (map item_bytes (group_item fp geo pm clip gm)) = concat (map (span_bytes geo) (fst gm))"
    using group_item_bytes [OF assms(1,2), of gm fp pm] chunk_groups_spec(2) [OF gm(1)] group_in_range [OF assms(4) gm(1)] all
    by simp
  moreover obtain it where it: "group_item fp geo pm clip gm = [it]" "wi_counts it = []"
    using assms(2,3) by (auto simp: group_item_def Let_def new_item_def)
  ultimately have "set (span_bytes geo c) \<subseteq> set (item_bytes it)" using gm(2) by auto
  moreover have "it \<in> set (emit_work_items fp geo keep pm mw clip)" using gm(1) it(1) by (force simp: emit_work_items_def)
  ultimately show ?thesis using it(2) by blast
qed

lemma planned_chunk:
  assumes "bytes_adjoin geo" "\<not> has_line_clip clip" "\<not> has_byte_clip clip" "c \<in> set (candidate_chunks (length geo) True pr)"
  shows "\<exists>it \<in> set (file_work_items fp geo (Some q) pr rows_of zones mw clip). set (span_bytes geo c) \<subseteq> set (item_bytes it)
    \<and> (wi_counts it = [] \<or> (\<exists>zs. zones c = Some zs \<and> wi_counts it = event_counts zs
         \<and> wi_keep it = sub_chunk_keep_mask zs q ''ts'' ''dur'' \<and> wi_keep it \<noteq> []))"
proof -
  let ?keep = "candidate_chunks (length geo) True pr"
  let ?pm = "pure_match rows_of (Some q) ?keep"
  note range = candidate_chunks_range [of "length geo" True pr]
  have ne: "?keep \<noteq> []" using assms(4) by auto
  consider "\<not> sub_chunk_eligible (Some q) clip" | "sub_chunk_eligible (Some q) clip" "chunk_mask zones q c \<noteq> []"
    | "sub_chunk_eligible (Some q) clip" "chunk_mask zones q c = []" by blast
  then show ?thesis
  proof cases
    case 1
    then show ?thesis
      using emit_covers [OF assms(1,2,3) range assms(4), of fp ?pm mw] ne assms(2)
      by (fastforce simp: file_work_items_def no_line_clip_select Let_def)
  next
    case 2
    then obtain zs where zs: "zones c = Some zs" "chunk_mask zones q c = sub_chunk_keep_mask zs q ''ts'' ''dur''"
      by (auto simp: chunk_mask_def split: option.splits if_splits)
    have "masked_item fp geo ?pm zones q c \<in> set (file_work_items fp geo (Some q) pr rows_of zones mw clip)"
      using 2 ne assms(2,4) by (simp add: file_work_items_def no_line_clip_select Let_def)
    moreover have "wi_counts (masked_item fp geo ?pm zones q c) = event_counts zs"
      "wi_keep (masked_item fp geo ?pm zones q c) = sub_chunk_keep_mask zs q ''ts'' ''dur''"
      using zs by (simp_all add: masked_item_def)
    ultimately show ?thesis using zs 2(2) by (intro bexI) (auto simp: masked_item_bytes)
  next
    case 3
    let ?rest = "filter (\<lambda>c. chunk_mask zones q c = []) ?keep"
    have "set ?rest \<subseteq> {..<length geo}" "c \<in> set ?rest" using range 3(2) assms(4) by auto
    from emit_covers [OF assms(1,2,3) this, of fp ?pm mw] show ?thesis
      using 3 ne assms(2) by (fastforce simp: file_work_items_def no_line_clip_select Let_def)
  qed
qed

text \<open>The zone maps of a chunk were built from its documents, in slices.\<close>

definition zones_describe :: "(nat \<rightharpoonup> zone_map list) \<Rightarrow> nat \<Rightarrow> json list \<Rightarrow> bool" where
  "zones_describe zones c evs \<longleftrightarrow>
     (\<forall>zs. zones c = Some zs \<longrightarrow>
        (\<forall>j \<in> set evs. indexed_record j) \<and> (\<exists>per slices. per < 2 ^ 32 \<and> concat slices = evs \<and> zs = index_chunk per slices))"

lemma planned_event:
  assumes "candidate_kept_by pr geo c" "zones_describe zones c evs" "bytes_adjoin geo" "\<not> has_line_clip clip" "\<not> has_byte_clip clip"
    and "e \<in> set evs" "evaluate R q (Some e)"
  shows "\<exists>it \<in> set (file_work_items path geo (Some q) pr rows_of zones mw clip).
    wi_file it = path \<and> set (span_bytes geo c) \<subseteq> set (item_bytes it) \<and> e \<in> set (sub_skip (wi_counts it) (wi_keep it) evs)"
proof -
  from planned_chunk [OF assms(3-5) assms(1) [unfolded candidate_kept_by_def], of path q rows_of zones mw] obtain it where
    it: "it \<in> set (file_work_items path geo (Some q) pr rows_of zones mw clip)"
      "set (span_bytes geo c) \<subseteq> set (item_bytes it)"
    and m: "wi_counts it = [] \<or> (\<exists>zs. zones c = Some zs \<and> wi_counts it = event_counts zs
         \<and> wi_keep it = sub_chunk_keep_mask zs q ''ts'' ''dur'' \<and> wi_keep it \<noteq> [])" by blast
  have "e \<in> set (sub_skip (wi_counts it) (wi_keep it) evs)"
  proof (cases "wi_counts it = []")
    case True
    then show ?thesis using assms(6) by (simp add: sub_skip_def)
  next
    case False
    then obtain zs where zs: "zones c = Some zs" "wi_counts it = event_counts zs" "wi_keep it = sub_chunk_keep_mask zs q ''ts'' ''dur''"
      "wi_keep it \<noteq> []" using m by blast
    then obtain per slices where "per < 2 ^ 32" "concat slices = evs" "zs = index_chunk per slices" "\<forall>j \<in> set evs. indexed_record j"
      using assms(2) by (auto simp: zones_describe_def)
    with sub_skip_sound [of slices per zs q R] zs(3,4)
    have "filter (\<lambda>j. evaluate R q (Some j)) (sub_skip (wi_counts it) (wi_keep it) evs) = filter (\<lambda>j. evaluate R q (Some j)) evs"
      by (simp add: zs(2))
    then have "e \<in> set (filter (\<lambda>j. evaluate R q (Some j)) (sub_skip (wi_counts it) (wi_keep it) evs))"
      using assms(6,7) by simp
    then show ?thesis by simp
  qed
  with it file_items_file [OF it(1)] show ?thesis by blast
qed

text \<open>
  What the index of a file answers to the planner: its id, chunks and zone maps, and the outputs of the pruner
  for distinct files of the index, each as if pruned alone (which \<open>BatchPrune\<close> proves), or none at all.
\<close>

definition index_answers ::
  "bloom_math \<Rightarrow> index_db \<Rightarrow> index_view \<Rightarrow> string \<Rightarrow> int \<Rightarrow> chunk_span list \<Rightarrow> (nat \<rightharpoonup> zone_map list) \<Rightarrow> bool" where
  "index_answers B db I path fid geo zones \<longleftrightarrow>
     db_fid db path = Some fid \<and> 0 \<le> fid \<and> iv_fid I path = fid \<and> iv_spans I fid = geo \<and> iv_zones I fid = zones
     \<and> (\<forall>items outs. distinct (map fst items) \<longrightarrow> iv_prune I items = Some outs \<longrightarrow> outs = map (\<lambda>(p, q). prune_file B db p q) items)"

lemma planned_output:
  assumes "index_answers B db I path fid geo zones" "path \<in> set fps" "distinct fps"
  obtains pr where "(path, pr) \<in> set (zip fps (prune_outputs I (Some q) fps))" "pr = default_output \<or> pr = prune_file B db path q"
proof (cases "iv_prune I (map (\<lambda>fp. (fp, q)) fps)")
  case None
  have "(path, default_output) \<in> set (zip fps (map (\<lambda>_. default_output) fps))"
    using assms(2) by (simp add: zip_map2 zip_same_conv_map)
  moreover have "prune_outputs I (Some q) fps = map (\<lambda>_. default_output) fps" using None by (simp add: prune_outputs_def)
  ultimately show thesis using that by simp
next
  case (Some outs)
  moreover have "distinct (map fst (map (\<lambda>fp. (fp, q)) fps))" using assms(3) by (simp add: o_def)
  ultimately have "outs = map (\<lambda>(p, q). prune_file B db p q) (map (\<lambda>fp. (fp, q)) fps)"
    using assms(1) unfolding index_answers_def by blast
  then have "outs = map (\<lambda>fp. prune_file B db fp q) fps" by simp
  moreover have "(path, prune_file B db path q) \<in> set (zip fps (map (\<lambda>fp. prune_file B db fp q) fps))"
    using assms(2) by (simp add: zip_map2 zip_same_conv_map)
  moreover have "prune_outputs I (Some q) fps = outs" using Some assms(2) by (auto simp: prune_outputs_def)
  ultimately show thesis using that by simp
qed

text \<open>
  C2: Planning a read of many files loses no event that the pruner keeps. Take a file whose index answers the
  planner and describes the events of one of its chunks, by the pruner's records and by the zone maps it has
  for the chunk, and a query that pruning is sound for (\<open>prunable\<close>: as in C1); the read has neither a byte
  nor a line range. Then for every event of the chunk that satisfies the query, some work item of the plan
  reads the file, covers all bytes of the chunk, and the bucket mask that the item carries, if it carries
  one, lets the event through. The files are listed once each.
\<close>

theorem planned_items_keep_matches:
  assumes "index_answers B db I path fid geo zones" "loaded_ctx B db fid q = Some ctx"
    and "describes ctx c evs" "prunable ctx c evs True q" "zones_describe zones c evs"
    and "bytes_adjoin geo" "c < length geo" "\<not> has_line_clip clip" "\<not> has_byte_clip clip"
    and "path \<in> set files" "distinct files" "index_of path \<in> set order" "opened (index_of path) = Some I"
    and "e \<in> set evs" "evaluate R q (Some e)"
  shows "\<exists>it \<in> set (enumerate_work_items index_of opened order (Some q) mw clip files).
    wi_file it = path \<and> set (span_bytes geo c) \<subseteq> set (item_bytes it) \<and> e \<in> set (sub_skip (wi_counts it) (wi_keep it) evs)"
proof -
  note a = assms(1) [unfolded index_answers_def]
  let ?fps = "filter (indexed_file I) (filter (\<lambda>f. index_of f = index_of path) files)"
  have "path \<in> set ?fps" using a assms(7,10) by (auto simp: indexed_file_def)
  moreover have "distinct ?fps" using assms(11) by simp
  ultimately obtain pr where pr: "(path, pr) \<in> set (zip ?fps (prune_outputs I (Some q) ?fps))"
      "pr = default_output \<or> pr = prune_file B db path q" using planned_output [OF assms(1)] by metis
  have "c \<in> set (candidate_chunks (length geo) True (prune_file B db path q))"
    using prune_file_keeps [of db path fid B q ctx c evs e R] a assms(2-4,7,14,15) by (intro candidate_kept) auto
  moreover have "c \<in> set (candidate_chunks (length geo) True default_output)"
    using assms(7) by (simp add: candidate_chunks_def default_output_def)
  ultimately have "candidate_kept_by pr geo c" using pr(2) by (auto simp: candidate_kept_by_def)
  from planned_event [OF this assms(5,6,8,9,14,15), of path "iv_rows I fid" mw] obtain it where
    it: "it \<in> set (file_work_items path geo (Some q) pr (iv_rows I fid) zones mw clip)" "wi_file it = path"
      "set (span_bytes geo c) \<subseteq> set (item_bytes it)" "e \<in> set (sub_skip (wi_counts it) (wi_keep it) evs)" by blast
  have "it \<in> set (index_work_items (Some I) (Some q) mw clip (filter (\<lambda>f. index_of f = index_of path) files))"
    using it(1) pr(1) a by (force simp: index_work_items_def Let_def)
  then have "it \<in> set (enumerate_work_items index_of opened order (Some q) mw clip files)"
    using assms(12,13) by (force simp: enumerate_work_items_def)
  with it show ?thesis by blast
qed

definition ex_geo :: "chunk_span list" where
  "ex_geo = [\<lparr>cs_offset = 0, cs_size = 40, cs_first = 1, cs_last = 1\<rparr>]"

definition ex_view :: index_view where
  "ex_view = \<lparr>iv_fid = (\<lambda>p. 1), iv_spans = (\<lambda>f. ex_geo), iv_prune = (\<lambda>items. Some (map (\<lambda>(p, q). prune_file ex_math ex_db p q) items)),
     iv_rows = (\<lambda>f d. []), iv_zones = (\<lambda>f. Map.empty)\<rparr>"

lemma planned_items_keep_matches_witness:
  "\<exists>it \<in> set (enumerate_work_items id (\<lambda>p. Some ex_view) [''trace.pfw''] (Some ex_prune) 4 whole_file [''trace.pfw'']).
     wi_file it = ''trace.pfw'' \<and> set [0..<40] \<subseteq> set (item_bytes it)"
proof -
  have geo: "bytes_adjoin ex_geo" "0 < length ex_geo" "span_bytes ex_geo 0 = [0..<40]"
    by (simp_all add: bytes_adjoin_def adjoining_def ex_geo_def geo_start_def geo_end_def span_bytes_def)
  have clip: "\<not> has_line_clip whole_file" "\<not> has_byte_clip whole_file"
    by (simp_all add: has_line_clip_def has_byte_clip_def whole_file_def)
  have I: "index_answers ex_math ex_db ex_view ''trace.pfw'' 1 ex_geo Map.empty"
    by (simp add: index_answers_def ex_view_def ex_db_def)
  show ?thesis
    using planned_items_keep_matches [OF I ex_loaded ex_describes ex_prunable(1) _ geo(1,2) clip, where files = "[''trace.pfw'']"
        and index_of = id and order = "[''trace.pfw'']" and opened = "\<lambda>p. Some ex_view" and e = ex_read and R = ex_lib and mw = 4]
      ex_prunable(2) geo(3)
    by (auto simp: zones_describe_def)
qed

section \<open>Files whose events all match\<close>

fun eq_literals :: "query_node \<Rightarrow> (string \<times> literal) list" where
  "eq_literals (CompareNode f op v) = [(f, v)]"
| "eq_literals (AndNode a b) = eq_literals a @ eq_literals b"
| "eq_literals _ = []"

text \<open>
  A literal whose text decides: not a double, not negative, not the empty string, and of the type of
  the field's values.
\<close>

definition uniform_literal :: "json \<Rightarrow> string \<times> literal \<Rightarrow> bool" where
  "uniform_literal e fv \<longleftrightarrow> typed (field_of e (fst fv)) (snd fv) \<and> lit_small (snd fv)
     \<and> (case snd fv of LStr s \<Rightarrow> s \<noteq> [] | LI64 i \<Rightarrow> 0 \<le> i | LU64 n \<Rightarrow> True | _ \<Rightarrow> False)"

lemma uniform_leaf:
  assumes "row_covers r fv" "dr_type r \<noteq> ''double''" "dr_min r = leaf_to_string v" "dr_max r = leaf_to_string v"
    and "value_ok fv" "\<not> is_null fv" "typed fv v" "lit_small v"
    and "case v of LStr s \<Rightarrow> s \<noteq> [] | LI64 i \<Rightarrow> 0 \<le> i | LU64 n \<Rightarrow> True | _ \<Rightarrow> False"
  shows "compare_value fv v = Some 0"
proof -
  have ne: "dr_min r \<noteq> []" using assms(3,9) by (cases v) (auto simp: show_int_def)
  have lt: "leaf_to_string v = literal_text v" using assms(9) by (cases v) auto
  consider "dr_type r = ''uint''" | "dr_type r = ''int''" | "dr_type r \<noteq> ''uint''" "dr_type r \<noteq> ''int''" by blast
  then show ?thesis
  proof cases
    case 1
    with assms(1,3,4) ne have u: "is_uint fv" "stoull (literal_text v) = Some (get_u64 fv)"
      by (auto simp: row_covers_def lt between_def split: option.splits)
    then have "v \<noteq> LStr s" for s using typed_number [OF assms(7,6)] int_uint_number by blast
    then obtain j where j: "lit_int v = Some j" "0 \<le> j" using assms(9) by (cases v) auto
    from stoull_lit [OF assms(8) this] u(2) have "get_u64 fv = nat j" by simp
    with compare_uint [OF assms(5) u(1) assms(8) j(1)] j(2) show ?thesis by (simp add: three_way_def)
  next
    case 2
    with assms(1,3,4) ne have i: "is_int fv" "stoll (literal_text v) = Some (get_i64 fv)"
      by (auto simp: row_covers_def lt between_def split: option.splits)
    then have "v \<noteq> LStr s" for s using typed_number [OF assms(7,6)] int_uint_number by blast
    then obtain j where j: "lit_int v = Some j" using assms(9) by (cases v) auto
    from stoll_lit [OF assms(8) this] i(2) have "get_i64 fv = j" by simp
    with compare_int [OF assms(5) i(1) assms(8) j] show ?thesis by (simp add: three_way_def)
  next
    case 3
    with assms(1,2,3,4) ne have s: "is_string fv" "get_string fv = leaf_to_string v"
      by (auto simp: row_covers_def)
    with assms(7,6,9) have "\<exists>t. v = LStr t" by (cases v; cases fv rule: is_string.cases) (auto simp: typed_def)
    with s show ?thesis by (auto simp: three_way_def)
  qed
qed

lemma extract_eq_split:
  "extract_eq_leaves q = Some eqs \<Longrightarrow> eqs = map (\<lambda>(f, v). (f, leaf_to_string v)) (eq_literals q)
     \<and> collect_fields q = fst ` set (eq_literals q)
     \<and> (\<forall>R ev. evaluate R q ev \<longleftrightarrow> (\<forall>(f, v) \<in> set (eq_literals q). eval_compare ev f EQ v))"
proof (induction q arbitrary: eqs)
  case (CompareNode f op v)
  then show ?case by (auto split: if_splits)
next
  case (AndNode a b)
  then obtain l r where lr: "extract_eq_leaves a = Some l" "extract_eq_leaves b = Some r" "eqs = l @ r"
    by (auto split: option.splits)
  from AndNode.IH(1) [OF lr(1)] AndNode.IH(2) [OF lr(2)] lr(3) show ?case by (auto simp: image_Un)
qed auto

text \<open>
  When every chunk of a file is uniform for an \<^verbatim>\<open>and\<close> of equalities, an event matches exactly when it
  has all the fields, so reading may test presence only.
\<close>

lemma uniform_match_exact:
  assumes "extract_eq_leaves q = Some eqs" "all_chunks_uniform_match rows_of eqs chunks" "c \<in> set chunks" "json_ok e"
    and "\<forall>fv \<in> set (eq_literals q). uniform_literal e fv"
    and "\<forall>f r. row_at (rows_of f) c = Some r \<longrightarrow> dr_type r \<noteq> ''double'' \<and> (\<not> is_null (field_of e f) \<longrightarrow> row_covers r (field_of e f))"
  shows "evaluate R q (Some e) \<longleftrightarrow> (\<forall>f \<in> collect_fields q. \<not> is_null (field_of e f))"
proof -
  note x = extract_eq_split [OF assms(1)]
  have leaf: "eval_compare (Some e) f EQ v \<longleftrightarrow> \<not> is_null (field_of e f)" if "(f, v) \<in> set (eq_literals q)" for f v
  proof (cases "is_null (field_of e f)")
    case True
    then show ?thesis by (simp add: eval_compare_def field_of_def Let_def)
  next
    case False
    have "(f, leaf_to_string v) \<in> set eqs" using x that by force
    then obtain r where r: "row_at (rows_of f) c = Some r" "dr_min r = leaf_to_string v" "dr_max r = leaf_to_string v"
      using assms(2,3) by (fastforce simp: all_chunks_uniform_match_def list_all_iff split: option.splits)
    have "value_ok (field_of e f)" using resolve_field_ok [of "Some e" f] assms(4) by (simp add: field_of_def)
    moreover have "uniform_literal e (f, v)" using assms(5) that by blast
    ultimately have "compare_value (field_of e f) v = Some 0"
      using uniform_leaf [of r "field_of e f" v] r assms(6) False by (simp add: uniform_literal_def)
    then show ?thesis using False by (simp add: eval_compare_def field_of_def Let_def)
  qed
  show ?thesis using x leaf by force
qed

text \<open>
  Bounds that are not known are empty, which is also the text of an empty string: a column of mixed
  types is taken to hold the empty string everywhere.
\<close>

lemma unknown_bounds_match_empty:
  "all_chunks_uniform_match (\<lambda>d. [\<lparr>dr_checkpoint = 0, dr_dimension = d, dr_min = [], dr_max = [], dr_type = ''mixed'',
      dr_counts = None, dr_compressed = []\<rparr>]) [(''a'', [])] [0]"
  "extract_eq_leaves (CompareNode ''a'' EQ (LStr [])) = Some [(''a'', [])]"
  by (simp_all add: all_chunks_uniform_match_def row_at_def)

section \<open>Reading an item\<close>

text \<open>
  \<^verbatim>\<open>read_arrow\<close> drops, from the first chunk of an item that starts at a checkpoint, everything up to
  the first newline; the byte range itself is read by lines, extended to a line end when the item ends
  at a checkpoint.
\<close>

definition drop_first_line :: "string \<Rightarrow> string" where
  "drop_first_line chunk = (case find_newline chunk of None \<Rightarrow> chunk | Some n \<Rightarrow> drop (n + 1) chunk)"

definition item_chunks :: "gz_file \<Rightarrow> line_request \<Rightarrow> work_item \<Rightarrow> reader_error + string list" where
  "item_chunks G q it =
     (let q' = q\<lparr>rr_start := wi_start_byte it, rr_end := wi_end_byte it, lr_extend := wi_end_at_checkpoint it\<rparr>
      in ebind (lb_drain G q' (lb_open G q'))
           (\<lambda>cs. Inr (filter (\<lambda>c. c \<noteq> [])
              (if 0 < wi_start_byte it \<and> wi_start_at_checkpoint it
               then (case cs of [] \<Rightarrow> [] | c # cs' \<Rightarrow> drop_first_line c # cs') else cs))))"

text \<open>
  The members of an index start on lines, so the dropped line is not a partial one: the first line of
  every item but the first is lost. With one worker nothing is.
\<close>

definition sample_plan :: "nat \<Rightarrow> work_item list" where
  "sample_plan mw = file_work_items ''t'' (query_chunk_spans sample_members) None default_output (\<lambda>d. []) Map.empty mw whole_file"

lemma item_start_line_lost:
  "map (item_chunks sample_gz (sample_request 8 0 0 False)) (sample_plan 1)
     = [Inr [''ab'' @ [NL] @ ''cde'' @ [NL], ''f'' @ [NL] @ ''ghi'' @ [NL]]]"
  "map (item_chunks sample_gz (sample_request 8 0 0 False)) (sample_plan 2)
     = [Inr [''ab'' @ [NL] @ ''cde'' @ [NL]], Inr [''ghi'' @ [NL]]]"
  by code_simp+

declare upt_Suc [simp]

end
