(* ===== verification/QueryAgreement.thy ===== *)
theory QueryAgreement
  imports Subsumption
begin

text \<open>
  The JSON evaluator and the map evaluator of \<^verbatim>\<open>query/evaluator.cpp\<close> side by side: the event that a
  typed map stands for, the comparisons they have in common, and their agreement.
\<close>

section \<open>The two evaluators agree\<close>

text \<open>The JSON value that a typed map entry stands for.\<close>

fun json_of_literal :: "literal \<Rightarrow> json" where
  "json_of_literal (LStr s) = JString s"
| "json_of_literal (LI64 i) = JNum (num_of_int i)"
| "json_of_literal (LU64 n) = JNum (num_of_int (int n))"
| "json_of_literal (LF64 r) = JNum (num_of_f64 r)"
| "json_of_literal (LBool b) = JBool b"

fun lit_is_bool :: "literal \<Rightarrow> bool" where
  "lit_is_bool (LBool b) = True" | "lit_is_bool _ = False"

definition comparable :: "literal \<Rightarrow> literal \<Rightarrow> bool" where
  "comparable x v \<longleftrightarrow> lit_exact x \<and> lit_exact v
     \<and> (lit_is_bool x = lit_is_bool v \<or> as_number x = None \<and> as_number v = None)"

lemma num_of_int_ok: "INT64_MIN \<le> i \<Longrightarrow> i \<le> int UINT64_MAX \<Longrightarrow> dom_num_ok (num_of_int i)"
  by (auto simp: dom_num_ok_def num_of_int_def INT64_MIN_def INT64_MAX_def UINT64_MAX_def nat_le_iff)

lemma json_of_literal_ok: "lit_exact x \<Longrightarrow> json_ok (json_of_literal x)"
  by (cases x) (auto intro!: num_of_int_ok simp: INT64_MIN_def UINT64_MAX_def,
     simp add: dom_num_ok_def num_of_f64_def)

lemma num_val_literal:
  "lit_exact x \<Longrightarrow> num_val (Some (json_of_literal x)) = as_number x"
  by (cases x) (auto simp: num_val_def num_of_int_def num_of_f64_def INT64_MAX_def)

lemma compare_literals_number:
  assumes "as_number x = Some a" "as_number v = Some b" "lit_exact x" "lit_exact v"
  shows "compare_literals x v = Some (three_way a b)"
  using assms three_way_f64_of_int three_way_int
  by (cases x; cases v) auto

lemma compare_agree:
  assumes "comparable x v"
  shows "compare_value (Some (json_of_literal x)) v = compare_literals x v"
proof (cases "as_number v")
  case None
  with assms show ?thesis
    by (cases x; cases v) (auto simp: comparable_def three_way_def)
next
  case (Some b)
  have "compare_value (Some (json_of_literal x)) v = map_option (\<lambda>w. three_way w b) (as_number x)"
    using assms compare_value_number [OF _ Some, of "Some (json_of_literal x)"]
    by (simp add: comparable_def json_of_literal_ok num_val_literal)
  moreover have "compare_literals x v = map_option (\<lambda>w. three_way w b) (as_number x)"
  proof (cases "as_number x")
    case None
    with assms Some show ?thesis by (cases x; cases v) (auto simp: comparable_def)
  qed (use Some assms compare_literals_number in \<open>auto simp: comparable_def\<close>)
  ultimately show ?thesis by simp
qed

definition plain_field :: "string \<Rightarrow> bool" where
  "plain_field f \<longleftrightarrow> f \<noteq> [] \<and> list_all (\<lambda>c. key_char c \<and> c \<noteq> CHR 0x00) f"

definition event_of :: "(string \<times> literal) list \<Rightarrow> json" where
  "event_of m = JObject (map (\<lambda>(k, v). (k, json_of_literal v)) m)"

lemma map_of_event: "map_of (map (\<lambda>(k, v). (k, json_of_literal v)) m) f = map_option json_of_literal (map_of m f)"
  by (induction m) auto

lemma json_of_literal_not_null: "\<not> is_null (Some (json_of_literal x))"
  by (cases x) auto

lemma flat_key_None: "(\<And>k. obj_get v (key @ k) = None) \<Longrightarrow> flat_key v key cs n = None"
  by (induction v key cs n rule: flat_key.induct) auto

definition no_args_key :: "(string \<times> literal) list \<Rightarrow> bool" where
  "no_args_key m \<longleftrightarrow> list_all (\<lambda>(k, v). take 4 k \<noteq> ''args'') m"

lemma args_miss:
  assumes "no_args_key m" shows "at_path (Some (event_of m)) (''args.'' @ f) = None"
proof -
  have get: "obj_get (Some (event_of m)) (''args'' @ k) = None" for k
  proof -
    have "map_of m (''args'' @ k) = None"
    proof -
      have "take 4 k' \<noteq> ''args''" if "(k', b) \<in> set m" for k' b
        using assms that by (auto simp: no_args_key_def list_all_iff)
      from this [of "''args'' @ k"] show ?thesis by (auto simp: map_of_eq_None_iff)
    qed
    then show ?thesis by (simp add: event_of_def map_of_event)
  qed
  let ?p = "takeWhile (\<lambda>c. c \<noteq> CHR 0x00) f"
  have "step_key (Some (event_of m)) ''args'' (CHR ''.'' # ?p) = (None, 0)"
    using get [of "[]"] get flat_key_None [of "Some (event_of m)" "''args''"]
    by (simp add: step_key_def Let_def event_of_def)
  then have "at_loop (Some (event_of m)) (''args.'' @ ?p) = None"
    by (simp add: at_loop.simps(2) key_char_def Let_def)
  then show ?thesis by (simp add: at_path_def)
qed

lemma resolve_plain:
  assumes "plain_field f" "no_args_key m"
  shows "resolve_field (Some (event_of m)) f = map_option json_of_literal (map_of m f)"
proof -
  have v: "at_path (Some (event_of m)) f = map_option json_of_literal (map_of m f)"
    using assms(1) at_path_plain [of f "Some (event_of m)"]
    by (simp add: plain_field_def list_all_iff event_of_def map_of_event)
  show ?thesis
  proof (cases "map_of m f")
    case (Some x)
    with v json_of_literal_not_null show ?thesis by (simp add: resolve_field_def)
  next
    case None
    with v args_miss [OF assms(2), of f] show ?thesis by (simp add: resolve_field_def)
  qed
qed

lemma evaluate_agree:
  assumes "\<forall>f \<in> collect_fields q. plain_field f" "no_args_key m"
    "\<forall>x \<in> snd ` set m. \<forall>v \<in> literals_of q. comparable x v"
  shows "evaluate R q (Some (event_of m)) = evaluate_map R q (map_of m)"
  using assms
proof (induction q)
  case (CompareNode f op v)
  then show ?case
    by (cases "map_of m f")
       (force simp: eval_compare_def resolve_plain compare_agree json_of_literal_not_null dest: map_of_SomeD)+
next
  case (InNode f vs)
  show ?case
  proof (cases "map_of m f")
    case (Some x)
    then have "\<forall>v \<in> set vs. comparable x v" using InNode.prems by (force dest: map_of_SomeD)
    with Some InNode.prems show ?thesis
      by (auto simp: eval_in_def resolve_plain compare_agree json_of_literal_not_null list_ex_iff)
  qed (use InNode.prems in \<open>simp add: eval_in_def resolve_plain\<close>)
next
  case (NotInNode f vs)
  show ?case
  proof (cases "map_of m f")
    case (Some x)
    then have "\<forall>v \<in> set vs. comparable x v" using NotInNode.prems by (force dest: map_of_SomeD)
    with Some NotInNode.prems show ?thesis
      by (auto simp: eval_not_in_def resolve_plain compare_agree json_of_literal_not_null list_ex_iff)
  qed (use NotInNode.prems in \<open>simp add: eval_not_in_def resolve_plain\<close>)
next
  case (MatchNode f op p neg c)
  show ?case
  proof (cases "map_of m f")
    case (Some x)
    then show ?thesis
      using MatchNode.prems by (cases x) (auto simp: eval_match_def resolve_plain split: option.splits)
  qed (use MatchNode.prems in \<open>auto simp: eval_match_def resolve_plain split: option.splits\<close>)
qed auto

section \<open>Properties\<close>

text \<open>
  C17 A JSON integer in the joint range of \<^verbatim>\<open>int64_t\<close> and \<^verbatim>\<open>uint64_t\<close> is compared with an integer
  literal of either signedness by mathematical value: no wrap-around, no rounding.
\<close>
theorem compare_integers_exact:
  assumes "INT64_MIN \<le> i" "i \<le> int UINT64_MAX" "lit_wf v" "v = LI64 k \<or> v = LU64 n \<and> k = int n"
  shows "compare_value (Some (JNum (num_of_int i))) v = Some (three_way i k)"
  using assms three_way_nat [of i]
  by (auto simp: num_of_int_def three_way_def INT64_MAX_def INT64_MIN_def UINT64_MAX_def
      nat_less_iff zless_nat_eq_int_zless)

lemma compare_integers_exact_witness:
  "compare_value (Some (JNum (num_of_int (2 ^ 64 - 1)))) (LI64 (- 1)) = Some (three_way (2 ^ 64 - 1 :: int) (- 1))"
  by (rule compare_integers_exact) (simp_all add: INT64_MIN_def UINT64_MAX_def INT64_MAX_def)

text \<open>
  C18 The evaluator on typed maps and the evaluator on JSON events agree: a query holds of the map exactly
  when it holds of the event with these members, where the field names of the query are plain, without
  dots, brackets and NUL (\<open>plain_field\<close>), no member of the map has a name that starts with \<open>args\<close>
  (\<open>no_args_key\<close>), and every value can be compared with every literal of the query by both evaluators
  alike (\<open>comparable\<close>): integers of the map and of the query are below \<open>2 ^ 53\<close> in size, and no boolean meets
  a number, which the map evaluator converts and the JSON evaluator does not.
\<close>
theorem evaluate_map_agrees:
  assumes "\<forall>f \<in> collect_fields q. plain_field f" "no_args_key m"
    "\<forall>x \<in> snd ` set m. \<forall>v \<in> literals_of q. comparable x v"
  shows "evaluate R q (Some (event_of m)) = evaluate_map R q (map_of m)"
  using assms by (rule evaluate_agree)

lemma evaluate_map_agrees_witness:
  "evaluate ex_lib ex_query (Some (event_of [(''dur'', LU64 25), (''cat'', LStr ''A'')]))
     = evaluate_map ex_lib ex_query (map_of [(''dur'', LU64 25), (''cat'', LStr ''A'')])"
proof (rule evaluate_map_agrees)
  show "\<forall>f \<in> collect_fields ex_query. plain_field f" by code_simp
  show "no_args_key [(''dur'', LU64 25), (''cat'', LStr ''A'')]" by code_simp
qed (simp add: ex_query_def comparable_def)

end
