(* ===== verification/ReadFilter.thy ===== *)
theory ReadFilter
  imports QueryAgreement LineBytes "HOL-Library.Sublist"
begin

text \<open>
  How a read filters events (\<^verbatim>\<open>utilities/reader/trace_reader_prefilter.cpp\<close>,
  \<^verbatim>\<open>trace_reader_shared.h\<close>, \<^verbatim>\<open>trace_reader_arrow.cpp\<close>, \<^verbatim>\<open>trace_reader.cpp\<close>): the byte-level prefilter, the
  equality probes compiled from a query, the typed map collected for the general evaluator, and the
  lines and line numbers of a stream.

  The theorems: the three ways to evaluate a query on an event agree where every field of the query is
  in one place; the prefilter passes the compact line of every match; lines keep their numbers.
\<close>

section \<open>Buffers\<close>

definition is_ws :: "char \<Rightarrow> bool" where
  "is_ws c \<longleftrightarrow> c \<in> {CHR '' '', CHR 0x09, CHR 0x0A, CHR 0x0D}"

definition drop_ws :: "string \<Rightarrow> string" where "drop_ws s = dropWhile is_ws s"
definition drop_ws_end :: "string \<Rightarrow> string" where "drop_ws_end s = rev (dropWhile is_ws (rev s))"

definition strip_ndjson_bookends :: "string \<Rightarrow> string" where
  "strip_ndjson_bookends bytes =
     (let s = drop_ws bytes;
          s = (if s \<noteq> [] \<and> hd s = CHR ''['' then drop_ws (tl s) else s);
          s = drop_ws_end s
      in if s \<noteq> [] \<and> last s = CHR '']'' then drop_ws_end (butlast s) else s)"

text \<open>The lines that the \<^verbatim>\<open>memchr\<close> loops visit: a last piece without a newline counts, an empty rest does not.\<close>

lemma find_newline_less: "find_newline xs = Some n \<Longrightarrow> n < length xs"
  by (auto simp: find_newline_def Let_def split: if_splits)

function split_lines :: "string \<Rightarrow> string list" where
  "split_lines s =
     (if s = [] then []
      else case find_newline s of None \<Rightarrow> [s] | Some n \<Rightarrow> take n s # split_lines (drop (n + 1) s))"
  by pat_completeness auto
termination
  by (relation "measure length") (auto dest: find_newline_less)

declare split_lines.simps [simp del]

section \<open>The prefilter\<close>

definition MIN_LITERAL_LEN :: nat where "MIN_LITERAL_LEN = 16"

text \<open>\<^verbatim>\<open>memmem\<close>.\<close>

definition memmem :: "string \<Rightarrow> string \<Rightarrow> bool" where
  "memmem bytes lit \<longleftrightarrow> list_ex (\<lambda>i. take (length lit) (drop i bytes) = lit) [0..<Suc (length bytes)]"

fun eq_literal_text :: "string \<Rightarrow> literal \<Rightarrow> string option" where
  "eq_literal_text f (LStr s) = Some (''\"'' @ f @ ''\":'' @ ''\"'' @ s @ ''\"'')"
| "eq_literal_text f (LI64 i) = Some (''\"'' @ f @ ''\":'' @ show_int i)"
| "eq_literal_text f (LU64 n) = Some (''\"'' @ f @ ''\":'' @ show_nat n)"
| "eq_literal_text f (LBool b) = Some (''\"'' @ f @ ''\":'' @ (if b then ''true'' else ''false''))"
| "eq_literal_text f (LF64 r) = None"

text \<open>The literals collected so far are kept when a conjunct is not supported; the flag says so.\<close>

fun collect_and_eq_literals :: "query_node \<Rightarrow> string list \<Rightarrow> bool \<times> string list" where
  "collect_and_eq_literals (CompareNode f op v) out =
     (if op \<noteq> EQ then (False, out)
      else case eq_literal_text f v of None \<Rightarrow> (False, out) | Some t \<Rightarrow> (True, out @ [t]))"
| "collect_and_eq_literals (AndNode a b) out =
     (case collect_and_eq_literals a out of
        (False, out') \<Rightarrow> (False, out') | (True, out') \<Rightarrow> collect_and_eq_literals b out')"
| "collect_and_eq_literals _ out = (False, out)"

type_synonym line_prefilter = "string list"

definition build_prefilter :: "query_node \<Rightarrow> line_prefilter" where
  "build_prefilter q =
     (case collect_and_eq_literals q [] of
        (False, _) \<Rightarrow> [] | (True, lits) \<Rightarrow> filter (\<lambda>l. MIN_LITERAL_LEN \<le> length l) lits)"

definition prefilter_may_match :: "line_prefilter \<Rightarrow> string \<Rightarrow> bool" where
  "prefilter_may_match pf bytes \<longleftrightarrow> list_all (memmem bytes) pf"

definition collect_matching_lines :: "string \<Rightarrow> line_prefilter \<Rightarrow> string" where
  "collect_matching_lines chunk pf =
     concat (map (\<lambda>l. l @ [NL]) (filter (\<lambda>l. l \<noteq> [] \<and> prefilter_may_match pf l) (split_lines chunk)))"

section \<open>Compiled probes\<close>

datatype probe_kind = PString string | PInt64 int | PUInt64 nat | PDouble f64 | PBool bool

record eq_probe =
  ep_top_key :: string
  ep_nested_key :: string
  ep_kind :: probe_kind

definition is_top_level_event_key :: "string \<Rightarrow> bool" where
  "is_top_level_event_key k \<longleftrightarrow> k \<in> set [''id'', ''name'', ''cat'', ''pid'', ''tid'', ''ts'', ''dur'', ''ph'']"

fun probe_of_literal :: "literal \<Rightarrow> probe_kind" where
  "probe_of_literal (LStr s) = PString s"
| "probe_of_literal (LI64 i) = PInt64 i"
| "probe_of_literal (LU64 n) = PUInt64 n"
| "probe_of_literal (LF64 r) = PDouble r"
| "probe_of_literal (LBool b) = PBool b"

definition compile_eq_leaf :: "string \<Rightarrow> compare_op \<Rightarrow> literal \<Rightarrow> eq_probe option" where
  "compile_eq_leaf f op v =
     (if op \<noteq> EQ then None
      else
        let first = takeWhile (\<lambda>c. c \<noteq> CHR ''.'') f; rest = dropWhile (\<lambda>c. c \<noteq> CHR ''.'') f
        in if rest = [] then
             Some (if is_top_level_event_key f
                   then \<lparr>ep_top_key = f, ep_nested_key = [], ep_kind = probe_of_literal v\<rparr>
                   else \<lparr>ep_top_key = ''args'', ep_nested_key = f, ep_kind = probe_of_literal v\<rparr>)
           else if CHR ''.'' \<in> set (tl rest) then None
           else Some \<lparr>ep_top_key = first, ep_nested_key = tl rest, ep_kind = probe_of_literal v\<rparr>)"

fun try_compile_eq_probes :: "query_node \<Rightarrow> eq_probe list option" where
  "try_compile_eq_probes (CompareNode f op v) = map_option (\<lambda>p. [p]) (compile_eq_leaf f op v)"
| "try_compile_eq_probes (AndNode a b) =
     (case try_compile_eq_probes a of
        None \<Rightarrow> None
      | Some l \<Rightarrow> (case try_compile_eq_probes b of None \<Rightarrow> None | Some r \<Rightarrow> Some (l @ r)))"
| "try_compile_eq_probes _ = None"

text \<open>
  A number of the on-demand cursor is signed where it fits, else unsigned where it fits, else a
  double; \<^verbatim>\<open>get_double\<close> converts.
\<close>

definition probe_matches_value :: "probe_kind \<Rightarrow> json \<Rightarrow> bool" where
  "probe_matches_value p v =
     (case p of
        PString s \<Rightarrow> (case v of JString t \<Rightarrow> t = s | _ \<Rightarrow> False)
      | PInt64 k \<Rightarrow>
          (case v of
             JNum n \<Rightarrow>
               (case dom_i64 n of
                  Some i \<Rightarrow> i = k
                | None \<Rightarrow> (case dom_u64 n of
                      Some u \<Rightarrow> if k < 0 then False else u = nat k
                    | None \<Rightarrow> get_f64 (Some v) = f64_of_int k))
           | _ \<Rightarrow> False)
      | PUInt64 k \<Rightarrow>
          (case v of
             JNum n \<Rightarrow>
               (case dom_i64 n of
                  Some i \<Rightarrow> if i < 0 then False else nat i = k
                | None \<Rightarrow> (case dom_u64 n of
                      Some u \<Rightarrow> u = k
                    | None \<Rightarrow> get_f64 (Some v) = f64_of_int (int k)))
           | _ \<Rightarrow> False)
      | PDouble d \<Rightarrow> (case v of JNum n \<Rightarrow> get_f64 (Some v) = d | _ \<Rightarrow> False)
      | PBool b \<Rightarrow> (case v of JBool c \<Rightarrow> c = b | _ \<Rightarrow> False))"

definition eval_probe :: "json \<Rightarrow> eq_probe \<Rightarrow> bool" where
  "eval_probe doc p =
     (case obj_get (Some doc) (ep_top_key p) of
        None \<Rightarrow> False
      | Some tv \<Rightarrow>
          if ep_nested_key p = [] then probe_matches_value (ep_kind p) tv
          else (case obj_get (Some tv) (ep_nested_key p) of
                  None \<Rightarrow> False | Some inner \<Rightarrow> probe_matches_value (ep_kind p) inner))"

definition eval_compiled_eq :: "eq_probe list \<Rightarrow> json \<Rightarrow> bool" where
  "eval_compiled_eq ps doc = list_all (eval_probe doc) ps"

section \<open>The typed map of an event\<close>

fun ondemand_to_literal :: "json \<Rightarrow> literal" where
  "ondemand_to_literal (JString s) = LStr s"
| "ondemand_to_literal (JNum n) =
     (case dom_i64 n of Some i \<Rightarrow> LI64 i
      | None \<Rightarrow> (case dom_u64 n of Some u \<Rightarrow> LU64 u | None \<Rightarrow> LF64 (get_f64 (Some (JNum n)))))"
| "ondemand_to_literal (JBool b) = LBool b"
| "ondemand_to_literal _ = LStr []"

definition query_references_dotted :: "string set \<Rightarrow> bool" where
  "query_references_dotted refs \<longleftrightarrow> (\<exists>f \<in> refs. CHR ''.'' \<in> set f)"

definition store_referenced_nested :: "string set \<Rightarrow> bool \<Rightarrow> string \<Rightarrow> string \<Rightarrow> json \<Rightarrow> value_map \<Rightarrow> value_map" where
  "store_referenced_nested refs check_dotted parent child v m =
     (let want_bare = child \<in> refs; dotted = parent @ ''.'' @ child; want_dotted = check_dotted \<and> dotted \<in> refs;
          lit = ondemand_to_literal v;
          m = (if want_bare then m(child \<mapsto> lit) else m)
      in if want_dotted then m(dotted \<mapsto> lit) else m)"

definition collect_field :: "string set \<Rightarrow> bool \<Rightarrow> string \<times> json \<Rightarrow> value_map \<Rightarrow> value_map" where
  "collect_field refs check_dotted kv m =
     (case snd kv of
        JObject ms \<Rightarrow> fold (\<lambda>(k, v). store_referenced_nested refs check_dotted (fst kv) k v) ms m
      | v \<Rightarrow> if fst kv \<in> refs then m(fst kv \<mapsto> ondemand_to_literal v) else m)"

definition collect_query_fields :: "string set \<Rightarrow> bool \<Rightarrow> json \<Rightarrow> value_map" where
  "collect_query_fields refs check_dotted doc =
     (case doc of JObject ms \<Rightarrow> fold (collect_field refs check_dotted) ms Map.empty | _ \<Rightarrow> Map.empty)"

text \<open>Which documents a read passes on: \<open>prune_only\<close> asks only for the presence of the query's fields.\<close>

definition doc_passes :: "regex_lib \<Rightarrow> query option \<Rightarrow> bool \<Rightarrow> json \<Rightarrow> bool" where
  "doc_passes R qo prune_only doc =
     (case qo of
        None \<Rightarrow> True
      | Some q \<Rightarrow>
          if prune_only then (\<forall>f \<in> q_fields q. obj_get (Some doc) f \<noteq> None)
          else (case try_compile_eq_probes (q_root q) of
                  Some (p # ps) \<Rightarrow> eval_compiled_eq (p # ps) doc
                | _ \<Rightarrow> evaluate_map R (q_root q)
                     (collect_query_fields (q_fields q) (query_references_dotted (q_fields q)) doc)))"

section \<open>Lines of a stream\<close>

text \<open>\<^verbatim>\<open>yield_lines_from_stream\<close>: the chunks of a stream, the number of its first line, who accepts a line.\<close>

definition yield_chunk :: "(string \<Rightarrow> bool) \<Rightarrow> line_prefilter \<Rightarrow> nat \<Rightarrow> string \<Rightarrow> (string \<times> nat) list \<times> nat" where
  "yield_chunk accept pf n chunk =
     (if pf \<noteq> [] \<and> \<not> prefilter_may_match pf chunk then ([], n + count_list chunk NL)
      else let ls = split_lines chunk
           in (filter (\<lambda>(l, k). l \<noteq> [] \<and> accept l \<and> (pf = [] \<or> prefilter_may_match pf l)) (zip ls [n..<n + length ls]),
               n + length ls))"

fun yield_lines :: "(string \<Rightarrow> bool) \<Rightarrow> line_prefilter \<Rightarrow> nat \<Rightarrow> string list \<Rightarrow> (string \<times> nat) list" where
  "yield_lines accept pf n [] = []"
| "yield_lines accept pf n (c # cs) =
     (if c = [] then []
      else case yield_chunk accept pf n c of (ls, n') \<Rightarrow> ls @ yield_lines accept pf n' cs)"

section \<open>Where a field is\<close>

text \<open>
  \<open>placed e f v\<close>: the event keeps the plain field \<open>f\<close> in one place, a column of the format at the top and
  any other field in \<^verbatim>\<open>args\<close>, and \<open>v\<close> is the scalar there, if there is one.
\<close>

definition nested_members :: "(string \<times> json) list \<Rightarrow> (string \<times> json) list" where
  "nested_members ms = concat (map (\<lambda>(k, v). case v of JObject as \<Rightarrow> as | _ \<Rightarrow> []) ms)"

fun scalar :: "json \<Rightarrow> bool" where
  "scalar (JString s) = True" | "scalar (JNum n) = True" | "scalar (JBool b) = True" | "scalar _ = False"

definition args_of :: "(string \<times> json) list \<Rightarrow> (string \<times> json) list option" where
  "args_of ms = (case map_of ms ''args'' of Some (JObject as) \<Rightarrow> Some as | Some _ \<Rightarrow> None | None \<Rightarrow> Some [])"

definition event_columns :: "string set" where
  "event_columns = {''id'', ''name'', ''cat'', ''pid'', ''tid'', ''ts'', ''dur'', ''ph''}"

lemma top_level_columns [simp]: "is_top_level_event_key f \<longleftrightarrow> f \<in> event_columns"
  by (simp add: is_top_level_event_key_def event_columns_def)

definition placed :: "json \<Rightarrow> string \<Rightarrow> json_value \<Rightarrow> bool" where
  "placed e f v \<longleftrightarrow>
     (case e of
        JObject ms \<Rightarrow>
          distinct (map fst ms) \<and> plain_field f \<and> f \<noteq> ''args'' \<and> map_of ms (''args.'' @ f) = None \<and> args_of ms \<noteq> None
          \<and> (case v of
               None \<Rightarrow> map_of ms f = None \<and> f \<notin> fst ` set (nested_members ms)
             | Some w \<Rightarrow> scalar w \<and>
                 (if f \<in> event_columns then map_of ms f = Some w \<and> f \<notin> fst ` set (nested_members ms)
                  else map_of ms f = None \<and> map_of (the (args_of ms)) f = Some w
                     \<and> (\<forall>x. (f, x) \<in> set (nested_members ms) \<longrightarrow> x = w)))
      | _ \<Rightarrow> False)"

lemma plain_field_facts:
  assumes "plain_field f"
  shows "f \<noteq> []" "\<forall>c \<in> set f. key_char c \<and> c \<noteq> CHR 0x00" "CHR ''.'' \<notin> set f" "CHR 0x00 \<notin> set f" "\<not> has_args_prefix f"
proof -
  show a: "f \<noteq> []" "\<forall>c \<in> set f. key_char c \<and> c \<noteq> CHR 0x00" using assms by (auto simp: plain_field_def list_all_iff)
  then show "CHR ''.'' \<notin> set f" "CHR 0x00 \<notin> set f" by (auto simp: key_char_def)
  then show "\<not> has_args_prefix f" by (auto simp: has_args_prefix_iff)
qed

lemma at_path_args:
  assumes "plain_field f" "map_of ms (''args.'' @ f) = None" "args_of ms = Some as"
  shows "at_path (Some (JObject ms)) (''args.'' @ f) = map_of as f"
proof -
  note p = plain_field_facts [OF assms(1)]
  have t: "takeWhile (\<lambda>c. c \<noteq> CHR 0x00) (''args.'' @ f) = ''args.'' @ f"
    using p(4) by (auto simp: takeWhile_eq_all_conv)
  have k: "takeWhile key_char (''args.'' @ f) = ''args''" "dropWhile key_char (''args.'' @ f) = CHR ''.'' # f"
    by (simp_all add: key_char_def)
  have a: "at_loop (Some (JObject ms)) (''args.'' @ f)
    = (case step_key (Some (JObject ms)) ''args'' (CHR ''.'' # f) of (nxt, n) \<Rightarrow>
         if nxt = None then None else at_loop nxt (drop n (CHR ''.'' # f)))"
    using k by (simp add: at_loop.simps(2) Let_def)
  have dot: "at_loop v (CHR ''.'' # f) = at_loop v f" for v by (simp add: at_loop.simps(2))
  show ?thesis
  proof (cases "map_of ms ''args''")
    case None
    have empty: "as = []" using None assms(3) by (simp add: args_of_def)
    have fl: "n \<le> length (CHR ''.'' # f) \<Longrightarrow> flat_key (Some (JObject ms)) ''args'' (CHR ''.'' # f) n = None" for n
    proof (induction n)
      case (Suc n)
      have "Suc n \<noteq> length (CHR ''.'' # f) \<longrightarrow> (CHR ''.'' # f) ! Suc n \<noteq> CHR ''.''"
        using Suc.prems p(3) by (auto simp: in_set_conv_nth)
      moreover have "obj_get (Some (JObject ms)) (''args'' @ (CHR ''.'' # f)) = None" using assms(2) by simp
      ultimately show ?case using Suc by (cases "Suc n = length (CHR ''.'' # f)") auto
    qed simp
    have tb: "takeWhile (\<lambda>c. c \<noteq> CHR ''['') (CHR ''.'' # f) = CHR ''.'' # f"
      using p(2) by (auto simp: takeWhile_eq_all_conv key_char_def)
    have get: "obj_get (Some (JObject ms)) ''args'' = None" using None by simp
    have "step_key (Some (JObject ms)) ''args'' (CHR ''.'' # f) = (None, 0)"
      unfolding step_key_def tb Let_def using get assms(2) fl [OF order_refl] by (simp del: flat_key.simps)
    then show ?thesis unfolding at_path_def using empty a by (simp only: t) simp
  next
    case (Some v)
    then have "map_of ms ''args'' = Some (JObject as)" using assms(3) by (auto simp: args_of_def split: json.splits)
    then have "at_loop (Some (JObject ms)) (''args.'' @ f) = at_loop (Some (JObject as)) f"
      using a dot by (simp add: step_key_def Let_def)
    then show ?thesis unfolding at_path_def using at_loop_plain [OF p(1)] p(2) by (simp only: t) simp
  qed
qed

lemma placed_resolve:
  assumes "placed e f v"
  shows "resolve_field (Some e) f = v"
proof -
  obtain ms as where e: "e = JObject ms" and p: "plain_field f" and n: "map_of ms (''args.'' @ f) = None" "args_of ms = Some as"
    using assms by (auto simp: placed_def split: json.splits)
  note f = plain_field_facts [OF p]
  have top_get: "at_path (Some e) f = map_of ms f" using at_path_plain [OF f(1,2)] by (simp add: e)
  have nested: "at_path (Some e) (''args.'' @ f) = map_of as f" using at_path_args [OF p n] by (simp add: e)
  have none: "map_of as f = None" if "f \<notin> fst ` set (nested_members ms)"
  proof -
    have "(f, x) \<in> set (nested_members ms)" if "(f, x) \<in> set as" for x
    proof -
      have "(''args'', JObject as) \<in> set ms"
        using n(2) that by (auto simp: args_of_def split: option.splits json.splits dest: map_of_SomeD)
      then show ?thesis using that by (force simp: nested_members_def)
    qed
    then show ?thesis using that by (force simp: map_of_eq_None_iff)
  qed
  show ?thesis
  proof (cases v)
    case None
    then have "map_of ms f = None" "map_of as f = None" using assms none by (auto simp: placed_def e)
    then show ?thesis using top_get nested f(5) None by (simp add: resolve_field_def)
  next
    case (Some w)
    then have w: "scalar w" using assms by (auto simp: placed_def e)
    then have "\<not> is_null (Some w)" by (cases w) auto
    then show ?thesis
      using assms Some top_get nested f(5) n(2) by (auto simp: placed_def e resolve_field_def Let_def split: if_splits)
  qed
qed

section \<open>Probes and evaluation\<close>

lemma probe_number:
  assumes "dom_num_ok n"
  shows "probe_matches_value (PInt64 k) (JNum n) \<longleftrightarrow> compare_value (Some (JNum n)) (LI64 k) = Some 0"
    and "probe_matches_value (PUInt64 m) (JNum n) \<longleftrightarrow> compare_value (Some (JNum n)) (LU64 m) = Some 0"
    and "probe_matches_value (PDouble d) (JNum n) \<longleftrightarrow> compare_value (Some (JNum n)) (LF64 d) = Some 0"
proof -
  have eq: "three_way a b = 0 \<longleftrightarrow> a = b" for a b :: "'x::linorder" by (auto simp: three_way_def)
  have num: "is_number (Some (JNum n))" using assms by (auto simp: dom_num_ok_def split: option.splits)
  consider i where "dom_i64 n = Some i" | u where "dom_i64 n = None" "dom_u64 n = Some u" | "dom_i64 n = None" "dom_u64 n = None"
    by (cases "dom_i64 n"; cases "dom_u64 n") auto
  note c = this
  show "probe_matches_value (PInt64 k) (JNum n) \<longleftrightarrow> compare_value (Some (JNum n)) (LI64 k) = Some 0"
    using c num by cases (simp_all add: probe_matches_value_def eq)
  show "probe_matches_value (PDouble d) (JNum n) \<longleftrightarrow> compare_value (Some (JNum n)) (LF64 d) = Some 0"
    using num by (simp add: probe_matches_value_def eq)
  from c show "probe_matches_value (PUInt64 m) (JNum n) \<longleftrightarrow> compare_value (Some (JNum n)) (LU64 m) = Some 0"
  proof cases
    case (1 i)
    then have "dom_u64 n = (if 0 \<le> i then Some (nat i) else None)" using assms by (simp add: dom_num_ok_def)
    with 1 show ?thesis by (simp add: probe_matches_value_def eq three_way_def)
  qed (use num in \<open>simp_all add: probe_matches_value_def eq\<close>)
qed

lemma probe_compare:
  assumes "json_ok v"
  shows "probe_matches_value (probe_of_literal lit) v \<longleftrightarrow> compare_value (Some v) lit = Some 0"
proof (cases v)
  case (JNum n)
  with assms probe_number show ?thesis
    by (cases lit) (simp_all add: probe_matches_value_def)
next
  case (JString s)
  then show ?thesis by (cases lit) (auto simp: probe_matches_value_def three_way_def split: if_splits)
next
  case (JBool b)
  then show ?thesis by (cases lit) (simp_all add: probe_matches_value_def)
qed (cases lit; simp add: probe_matches_value_def)+


section \<open>The collected map\<close>

lemma compare_value_of:
  assumes "json_ok w" "scalar w"
  shows "compare_value (Some (json_of_literal (ondemand_to_literal w))) lit = compare_value (Some w) lit"
proof (cases w)
  case (JNum n)
  have a: "dom_i64 n = Some i \<Longrightarrow> dom_u64 n = (if 0 \<le> i then Some (nat i) else None) \<and> i \<le> INT64_MAX
      \<and> get_f64 (Some (JNum n)) = f64_of_int i" for i
    using assms(1) JNum by (auto simp: dom_num_ok_def)
  have b: "dom_i64 n = None \<Longrightarrow> dom_u64 n = Some u \<Longrightarrow> INT64_MAX < int u \<and> get_f64 (Some (JNum n)) = f64_of_int (int u)" for u
    using assms(1) JNum by (auto simp: dom_num_ok_def)
  have c: "dom_i64 n = None \<Longrightarrow> dom_u64 n = None \<Longrightarrow> dom_f64 n \<noteq> None"
    using assms(1) JNum by (auto simp: dom_num_ok_def)
  consider i where "dom_i64 n = Some i" | u where "dom_i64 n = None" "dom_u64 n = Some u" | "dom_i64 n = None" "dom_u64 n = None"
    by (cases "dom_i64 n"; cases "dom_u64 n") auto
  then show ?thesis
  proof cases
    case (1 i) then show ?thesis using a [OF 1] JNum by (cases lit) (auto simp: num_of_int_def)
  next
    case (2 u) then show ?thesis using b [OF 2] JNum by (cases lit) (auto simp: num_of_int_def)
  next
    case 3 then show ?thesis using c [OF 3] JNum by (cases lit) (auto simp: num_of_f64_def)
  qed
qed (use assms in auto)

definition writes_field :: "string \<Rightarrow> string \<times> json \<Rightarrow> bool" where
  "writes_field f kv \<longleftrightarrow> (case snd kv of JObject as \<Rightarrow> f \<in> fst ` set as | _ \<Rightarrow> fst kv = f)"

definition writes_only :: "string \<Rightarrow> json \<Rightarrow> string \<times> json \<Rightarrow> bool" where
  "writes_only f w kv \<longleftrightarrow>
     (case snd kv of JObject as \<Rightarrow> (\<forall>x. (f, x) \<in> set as \<longrightarrow> x = w) | x \<Rightarrow> fst kv = f \<longrightarrow> x = w)"

lemma collect_nested:
  assumes "f \<in> refs" "CHR ''.'' \<notin> set f" "\<forall>x. (f, x) \<in> set as \<longrightarrow> x = w"
  shows "fold (\<lambda>(k, v). store_referenced_nested refs cd p k v) as m f
    = (if f \<in> fst ` set as then Some (ondemand_to_literal w) else m f)"
  using assms(3)
proof (induction as arbitrary: m)
  case (Cons kv as)
  obtain k v where kv: "kv = (k, v)" by (cases kv)
  have "p @ CHR ''.'' # k \<noteq> f" using assms(2) by auto
  then have "store_referenced_nested refs cd p k v m f = (if k = f then Some (ondemand_to_literal w) else m f)"
    using Cons.prems assms(1) kv by (auto simp: store_referenced_nested_def Let_def)
  with Cons kv show ?case by auto
qed simp

lemma collect_field_at:
  assumes "f \<in> refs" "CHR ''.'' \<notin> set f" "writes_only f w kv"
  shows "collect_field refs cd kv m f = (if writes_field f kv then Some (ondemand_to_literal w) else m f)"
  using assms collect_nested [OF assms(1,2)]
  by (cases "snd kv") (auto simp: collect_field_def writes_field_def writes_only_def)

lemma collect_at:
  assumes "f \<in> refs" "CHR ''.'' \<notin> set f" "\<forall>kv \<in> set ms. writes_only f w kv"
  shows "fold (collect_field refs cd) ms m f
    = (if \<exists>kv \<in> set ms. writes_field f kv then Some (ondemand_to_literal w) else m f)"
  using assms(3) by (induction ms arbitrary: m) (auto simp: collect_field_at [OF assms(1,2)])

lemma in_nested: "(f, x) \<in> set (nested_members ms) \<longleftrightarrow> (\<exists>k as. (k, JObject as) \<in> set ms \<and> (f, x) \<in> set as)"
  by (force simp: nested_members_def split: json.splits)

lemma writes_cases:
  "writes_field f (k, v) \<Longrightarrow> (k, v) \<in> set ms \<Longrightarrow>
     f \<in> fst ` set (nested_members ms) \<or> k = f \<and> (\<forall>as. v \<noteq> JObject as)"
  by (cases v) (force simp: writes_field_def in_nested image_iff)+

lemma placed_collected:
  assumes "placed e f v" "f \<in> refs"
  shows "collect_query_fields refs cd e f = map_option ondemand_to_literal v"
proof -
  obtain ms where e: "e = JObject ms" and d: "distinct (map fst ms)" and p: "plain_field f"
    using assms by (auto simp: placed_def split: json.splits)
  note dot = plain_field_facts(3) [OF p]
  have goal: "collect_query_fields refs cd e f = fold (collect_field refs cd) ms Map.empty f"
    by (simp add: collect_query_fields_def e)
  show ?thesis
  proof (cases v)
    case None
    then have n: "map_of ms f = None" "f \<notin> fst ` set (nested_members ms)" using assms by (auto simp: placed_def e)
    have no: "\<not> writes_field f kv" if "kv \<in> set ms" for kv
      using writes_cases [of f "fst kv" "snd kv" ms] that n by (cases kv) (auto simp: map_of_eq_None_iff image_iff)
    moreover have "writes_only f w kv" if "kv \<in> set ms" for kv w
      using no [OF that] by (cases "snd kv") (force simp: writes_only_def writes_field_def)+
    ultimately show ?thesis using goal collect_at [OF assms(2) dot, of ms undefined] None by simp
  next
    case (Some w)
    then have sc: "scalar w" using assms by (simp add: placed_def e)
    have nest: "x = w" if "(f, x) \<in> set (nested_members ms)" for x
      using assms Some that by (auto simp: placed_def e split: if_splits) (force simp: image_iff)
    have at: "map_of ms f = Some w \<or> map_of ms f = None \<and> (f, w) \<in> set (nested_members ms)"
      using assms Some
      by (auto simp: placed_def e args_of_def in_nested split: if_splits option.splits json.splits dest: map_of_SomeD)
    have only: "writes_only f w (k, x)" if "(k, x) \<in> set ms" for k x
    proof (cases "\<exists>as. x = JObject as")
      case True
      then obtain as where "x = JObject as" ..
      then show ?thesis using that nest by (simp add: writes_only_def in_nested) blast
    next
      case False
      have "x = w" if "k = f" using at d that \<open>(k, x) \<in> set ms\<close> by (force simp: map_of_eq_None_iff)
      then show ?thesis using False by (cases x) (auto simp: writes_only_def)
    qed
    have "\<exists>kv \<in> set ms. writes_field f kv"
    proof (cases "map_of ms f")
      case None
      then obtain k as where "(k, JObject as) \<in> set ms" "(f, w) \<in> set as" using at by (auto simp: in_nested)
      then show ?thesis by (force simp: writes_field_def)
    next
      case (Some y)
      then have "(f, w) \<in> set ms" using at by (auto dest: map_of_SomeD)
      then show ?thesis using sc by (cases w) (force simp: writes_field_def)+
    qed
    moreover have "\<forall>kv \<in> set ms. writes_only f w kv" using only by auto
    ultimately show ?thesis using goal collect_at [OF assms(2) dot, of ms w] Some by simp
  qed
qed

section \<open>The evaluators on an event\<close>

definition filter_event :: "json \<Rightarrow> (string \<Rightarrow> json_value) \<Rightarrow> query_node \<Rightarrow> bool" where
  "filter_event e val q \<longleftrightarrow>
     (\<forall>f \<in> collect_fields q. placed e f (val f)
        \<and> (\<forall>w. val f = Some w \<longrightarrow> json_ok w \<and> (\<forall>v \<in> literals_of q. comparable (ondemand_to_literal w) v)))"

lemma filter_event_parts:
  "filter_event e val (AndNode a b) \<Longrightarrow> filter_event e val a \<and> filter_event e val b"
  "filter_event e val (OrNode a b) \<Longrightarrow> filter_event e val a \<and> filter_event e val b"
  "filter_event e val (NotNode a) \<Longrightarrow> filter_event e val a"
  by (auto simp: filter_event_def)

lemma placed_scalar: "placed e f (Some w) \<Longrightarrow> scalar w"
  by (auto simp: placed_def split: json.splits)

lemma scalar_not_null: "scalar w \<Longrightarrow> \<not> is_null (Some w)"
  by (cases w) auto

lemma compare_collected:
  assumes "scalar w" "json_ok w" "comparable (ondemand_to_literal w) v"
  shows "compare_literals (ondemand_to_literal w) v = compare_value (Some w) v"
  using compare_agree [OF assms(3)] compare_value_of [OF assms(2,1)] by simp

lemma leaf_values:
  assumes "filter_event e val q" "f \<in> collect_fields q" "f \<in> refs"
  shows "resolve_field (Some e) f = val f"
    and "collect_query_fields refs cd e f = map_option ondemand_to_literal (val f)"
    and "val f = Some w \<Longrightarrow> scalar w \<and> \<not> is_null (Some w)"
    and "val f = Some w \<Longrightarrow> v \<in> literals_of q \<Longrightarrow> compare_literals (ondemand_to_literal w) v = compare_value (Some w) v"
proof -
  have p: "placed e f (val f)" using assms by (auto simp: filter_event_def)
  show "resolve_field (Some e) f = val f" by (rule placed_resolve [OF p])
  show "collect_query_fields refs cd e f = map_option ondemand_to_literal (val f)" by (rule placed_collected [OF p assms(3)])
  show "scalar w \<and> \<not> is_null (Some w)" if "val f = Some w"
    using p that scalar_not_null by (auto dest: placed_scalar)
  show "compare_literals (ondemand_to_literal w) v = compare_value (Some w) v" if "val f = Some w" "v \<in> literals_of q"
    using p that assms by (intro compare_collected) (auto simp: filter_event_def dest: placed_scalar)
qed

lemma collected_agrees:
  assumes "filter_event e val q" "collect_fields q \<subseteq> refs"
  shows "evaluate_map R q (collect_query_fields refs cd e) = evaluate R q (Some e)"
  using assms
proof (induction q)
  case (CompareNode f op v)
  note l = leaf_values [OF CompareNode(1), of f refs]
  show ?case using l CompareNode.prems by (cases "val f") (auto simp: eval_compare_def)
next
  case (InNode f vs)
  note l = leaf_values [OF InNode(1), of f refs]
  show ?case using l InNode.prems by (cases "val f") (auto simp: eval_in_def list_ex_iff)
next
  case (NotInNode f vs)
  note l = leaf_values [OF NotInNode(1), of f refs]
  show ?case using l NotInNode.prems by (cases "val f") (auto simp: eval_not_in_def list_ex_iff)
next
  case (MatchNode f op p neg c)
  note l = leaf_values [OF MatchNode(1), of f refs]
  show ?case
  proof (cases "val f")
    case (Some w)
    then show ?thesis using l MatchNode.prems by (cases w) (auto simp: eval_match_def split: option.splits literal.splits)
  qed (use l MatchNode.prems in \<open>auto simp: eval_match_def split: option.splits\<close>)
qed (auto dest: filter_event_parts)

lemma probe_leaf:
  assumes "placed e f v" "compile_eq_leaf f op lit = Some p" "\<forall>w. v = Some w \<longrightarrow> json_ok w"
  shows "op = EQ \<and> eval_probe e p = eval_compare (Some e) f op lit"
proof -
  obtain ms where e: "e = JObject ms" and pf: "plain_field f" using assms by (auto simp: placed_def split: json.splits)
  note f = plain_field_facts [OF pf]
  have d: "dropWhile (\<lambda>c. c \<noteq> CHR ''.'') f = []" using f(3) by (auto simp: dropWhile_eq_Nil_conv)
  have op: "op = EQ" using assms(2) by (auto simp: compile_eq_leaf_def split: if_splits)
  have r: "resolve_field (Some e) f = v" by (rule placed_resolve [OF assms(1)])
  have cmp: "eval_compare (Some e) f op lit = (case v of None \<Rightarrow> False | Some w \<Rightarrow> probe_matches_value (probe_of_literal lit) w)"
  proof (cases v)
    case (Some w)
    then have "\<not> is_null (Some w)" using assms(1) scalar_not_null placed_scalar by blast
    then show ?thesis using Some r op assms(3) probe_compare [of w lit]
      by (cases "compare_value (Some w) lit") (simp_all add: eval_compare_def)
  qed (simp add: eval_compare_def r)
  have "eval_probe e p = (case v of None \<Rightarrow> False | Some w \<Rightarrow> probe_matches_value (probe_of_literal lit) w)"
  proof (cases "f \<in> event_columns")
    case True
    then have "p = \<lparr>ep_top_key = f, ep_nested_key = [], ep_kind = probe_of_literal lit\<rparr>"
      using assms(2) op d by (simp add: compile_eq_leaf_def Let_def)
    moreover have "map_of ms f = v" using assms(1) True by (auto simp: placed_def e split: option.splits)
    ultimately show ?thesis by (simp add: eval_probe_def e split: option.splits)
  next
    case False
    then have p: "p = \<lparr>ep_top_key = ''args'', ep_nested_key = f, ep_kind = probe_of_literal lit\<rparr>"
      using assms(2) op d by (simp add: compile_eq_leaf_def Let_def)
    obtain as where as: "args_of ms = Some as" using assms(1) by (auto simp: placed_def e)
    have "map_of as f = v"
    proof (cases v)
      case None
      then have "f \<notin> fst ` set (nested_members ms)" using assms(1) by (auto simp: placed_def e)
      then show ?thesis using as None
        by (force simp: args_of_def nested_members_def map_of_eq_None_iff split: option.splits json.splits dest: map_of_SomeD)
    qed (use assms(1) False as in \<open>auto simp: placed_def e\<close>)
    then show ?thesis using p f(1) as
      by (cases "map_of ms ''args''") (auto simp: eval_probe_def e args_of_def split: json.splits option.splits)
  qed
  with cmp op show ?thesis by simp
qed

lemma probes_agree:
  assumes "filter_event e val q" "try_compile_eq_probes q = Some ps"
  shows "ps \<noteq> [] \<and> eval_compiled_eq ps e = evaluate R q (Some e)"
  using assms
proof (induction q arbitrary: ps)
  case (CompareNode f op v)
  then have "placed e f (val f)" "\<forall>w. val f = Some w \<longrightarrow> json_ok w" by (auto simp: filter_event_def)
  with CompareNode probe_leaf show ?case by (auto simp: eval_compiled_eq_def)
next
  case (AndNode a b)
  then obtain l r where "try_compile_eq_probes a = Some l" "try_compile_eq_probes b = Some r" "ps = l @ r"
    by (auto split: option.splits)
  with AndNode filter_event_parts(1) [OF AndNode.prems(1)] show ?case by (simp add: eval_compiled_eq_def)
qed simp_all


section \<open>Lines and literals\<close>

lemma memmem_iff: "memmem bytes lit \<longleftrightarrow> sublist lit bytes"
proof
  assume "memmem bytes lit"
  then obtain i where "take (length lit) (drop i bytes) = lit" by (auto simp: memmem_def list_ex_iff)
  then show "sublist lit bytes" by (metis sublist_drop sublist_take sublist_order.order.trans)
next
  assume "sublist lit bytes"
  then obtain a b where b: "bytes = a @ lit @ b" by (auto simp: sublist_def)
  then have "take (length lit) (drop (length a) bytes) = lit" by simp
  moreover have "length a \<in> set [0..<Suc (length bytes)]" using b by simp
  ultimately show "memmem bytes lit" unfolding memmem_def list_ex_iff by blast
qed

lemma may_match_mono: "prefilter_may_match pf l \<Longrightarrow> sublist l bytes \<Longrightarrow> prefilter_may_match pf bytes"
  by (auto simp: prefilter_may_match_def list_all_iff memmem_iff intro: sublist_order.order.trans)

lemma split_lines_cons: "split_lines (xs @ NL # ys) = xs # split_lines ys" if "NL \<notin> set xs"
proof -
  have t: "takeWhile (\<lambda>c. c \<noteq> NL) (xs @ NL # ys) = xs" using that by (auto simp: takeWhile_append takeWhile_eq_all_conv)
  have "find_newline (xs @ NL # ys) = Some (length xs)" unfolding find_newline_def t Let_def by simp
  then show ?thesis by (simp add: split_lines.simps [of "xs @ NL # ys"])
qed

lemma split_lines_single: "NL \<notin> set xs \<Longrightarrow> split_lines xs = (if xs = [] then [] else [xs])"
proof -
  assume "NL \<notin> set xs"
  then have "takeWhile (\<lambda>c. c \<noteq> NL) xs = xs" by (auto simp: takeWhile_eq_all_conv)
  then have "find_newline xs = None" unfolding find_newline_def by (simp only: Let_def) simp
  then show ?thesis by (simp add: split_lines.simps [of xs])
qed

lemma line_split: "s = [] \<or> NL \<notin> set s \<or> (\<exists>xs ys. s = xs @ NL # ys \<and> NL \<notin> set xs)"
  using split_list_first [of NL s] by blast

lemma split_lines_append:
  "a = [] \<or> last a = NL \<Longrightarrow> split_lines (a @ b) = split_lines a @ split_lines b"
proof (induction a rule: length_induct)
  case (1 a)
  show ?case
  proof (cases "a = []")
    case False
    then have "NL \<in> set a" using 1 by (metis last_in_set)
    then obtain xs ys where a: "a = xs @ NL # ys" "NL \<notin> set xs" by (meson split_list_first)
    then have "ys = [] \<or> last ys = NL" using 1(2) False by (cases ys) auto
    with 1(1) [rule_format, of ys] a(1) have "split_lines (ys @ b) = split_lines ys @ split_lines b" by auto
    with a split_lines_cons [OF a(2)] show ?thesis by simp
  qed (simp add: split_lines.simps [of "[]"])
qed

lemma split_lines_count: "s = [] \<or> last s = NL \<Longrightarrow> length (split_lines s) = count_list s NL"
proof (induction s rule: length_induct)
  case (1 s)
  show ?case
  proof (cases "s = []")
    case False
    then have "NL \<in> set s" using 1 by (metis last_in_set)
    then obtain xs ys where s: "s = xs @ NL # ys" "NL \<notin> set xs" by (meson split_list_first)
    then have "ys = [] \<or> last ys = NL" using 1(2) False by (cases ys) auto
    with 1(1) [rule_format, of ys] s(1) have "length (split_lines ys) = count_list ys NL" by auto
    with s split_lines_cons [OF s(2)] show ?thesis by simp
  qed (simp add: split_lines.simps [of "[]"])
qed

lemma split_lines_sublist: "l \<in> set (split_lines s) \<Longrightarrow> sublist l s"
proof (induction s rule: length_induct)
  case (1 s)
  consider "NL \<notin> set s" | xs ys where "s = xs @ NL # ys" "NL \<notin> set xs" using line_split [of s] by fastforce
  then show ?case
  proof cases
    case 1
    then show ?thesis using \<open>l \<in> set (split_lines s)\<close> by (simp add: split_lines_single split: if_splits)
  next
    case (2 xs ys)
    with 1(2) consider "l = xs" | "l \<in> set (split_lines ys)" by (auto simp: split_lines_cons)
    then show ?thesis
    proof cases
      case 2
      then have "sublist l ys" using 1(1) \<open>s = xs @ NL # ys\<close> by simp
      then have "sublist l (NL # ys)" by (simp add: sublist_Cons_right)
      then show ?thesis using \<open>s = xs @ NL # ys\<close> by (simp add: sublist_append)
    qed (use 2 in \<open>simp add: sublist_append\<close>)
  qed
qed

definition line_passes :: "(string \<Rightarrow> bool) \<Rightarrow> line_prefilter \<Rightarrow> string \<times> nat \<Rightarrow> bool" where
  "line_passes accept pf lk \<longleftrightarrow> fst lk \<noteq> [] \<and> accept (fst lk) \<and> prefilter_may_match pf (fst lk)"

definition numbered :: "nat \<Rightarrow> string list \<Rightarrow> (string \<times> nat) list" where
  "numbered n ls = zip ls [n..<n + length ls]"

lemma numbered_append: "numbered n (xs @ ys) = numbered n xs @ numbered (n + length xs) ys"
proof -
  have "[n..<n + length (xs @ ys)] = [n..<n + length xs] @ [n + length xs..<n + length xs + length ys]"
    using upt_add_eq_append [of n "n + length xs" "length ys"] by (simp add: add.assoc)
  then show ?thesis unfolding numbered_def by (simp only: zip_append length_upt add_diff_cancel_left')
qed

lemma no_prefilter [simp]: "prefilter_may_match [] l"
  by (simp add: prefilter_may_match_def)

lemma yield_chunk_lines:
  "fst (yield_chunk accept pf n c) = filter (line_passes accept pf) (numbered n (split_lines c))"
proof (cases "pf \<noteq> [] \<and> \<not> prefilter_may_match pf c")
  case True
  then have "\<not> line_passes accept pf lk" if "lk \<in> set (numbered n (split_lines c))" for lk
    using that split_lines_sublist may_match_mono
    by (cases lk) (fastforce simp: line_passes_def numbered_def dest: set_zip_leftD)
  with True show ?thesis by (simp add: yield_chunk_def)
next
  case False
  have "(\<lambda>(l, k). l \<noteq> [] \<and> accept l \<and> (pf = [] \<or> prefilter_may_match pf l)) = line_passes accept pf"
    by (auto simp: line_passes_def fun_eq_iff)
  with False show ?thesis by (auto simp: yield_chunk_def numbered_def Let_def)
qed

lemma yield_chunk_next:
  "c = [] \<or> last c = NL \<Longrightarrow> snd (yield_chunk accept pf n c) = n + length (split_lines c)"
  by (simp add: yield_chunk_def Let_def split_lines_count)

definition line_chunks :: "string list \<Rightarrow> bool" where
  "line_chunks cs \<longleftrightarrow> list_all (\<lambda>c. c \<noteq> []) cs \<and> list_all (\<lambda>c. last c = NL) (butlast cs)"

lemma line_chunks_Cons: "line_chunks (c # cs) \<Longrightarrow> c \<noteq> [] \<and> line_chunks cs \<and> (cs \<noteq> [] \<longrightarrow> last c = NL)"
  by (auto simp: line_chunks_def split: if_splits)

lemma yield_lines_numbered:
  "line_chunks cs \<Longrightarrow> yield_lines accept pf n cs = filter (line_passes accept pf) (numbered n (split_lines (concat cs)))"
proof (induction cs arbitrary: n)
  case (Cons c cs)
  note l = line_chunks_Cons [OF Cons.prems]
  show ?case
  proof (cases "cs = []")
    case True
    then show ?thesis using l yield_chunk_lines [of accept pf n c] by (cases "yield_chunk accept pf n c") simp
  next
    case False
    then have nl: "last c = NL" using l by simp
    have "yield_lines accept pf n (c # cs) = fst (yield_chunk accept pf n c) @ yield_lines accept pf (snd (yield_chunk accept pf n c)) cs"
      using l by (simp split: prod.split)
    then show ?thesis using Cons.IH l nl
      by (simp add: yield_chunk_lines yield_chunk_next split_lines_append numbered_append)
  qed
qed (simp add: numbered_def split_lines.simps [of "[]"])


section \<open>The line of an event\<close>

text \<open>\<^verbatim>\<open>append_json_escaped\<close> (\<^verbatim>\<open>json/json_escape.h\<close>), a character at a time.\<close>

definition hex_char :: "nat \<Rightarrow> char" where
  "hex_char n = ''0123456789abcdef'' ! n"

definition json_escape_char :: "char \<Rightarrow> string" where
  "json_escape_char c =
     (if c = CHR 0x22 then [CHR 0x5C, CHR 0x22]
      else if c = CHR 0x5C then [CHR 0x5C, CHR 0x5C]
      else if c = CHR 0x08 then CHR 0x5C # ''b''
      else if c = CHR 0x0C then CHR 0x5C # ''f''
      else if c = CHR 0x0A then CHR 0x5C # ''n''
      else if c = CHR 0x0D then CHR 0x5C # ''r''
      else if c = CHR 0x09 then CHR 0x5C # ''t''
      else if (of_char c :: nat) < 0x20
      then CHR 0x5C # ''u00'' @ [hex_char (of_char c div 16), hex_char (of_char c mod 16)]
      else [c])"

definition append_json_escaped :: "string \<Rightarrow> string" where
  "append_json_escaped s = concat (map json_escape_char s)"

definition quoted :: "string \<Rightarrow> string" where
  "quoted s = CHR 0x22 # append_json_escaped s @ [CHR 0x22]"

text \<open>
  The compact text of a document, without spaces, as the tracer writes its lines: the parameter
  \<open>fl\<close> writes the numbers that are not 64-bit integers.
\<close>

fun json_text :: "(dom_num \<Rightarrow> string) \<Rightarrow> json \<Rightarrow> string"
  and elements_text :: "(dom_num \<Rightarrow> string) \<Rightarrow> json list \<Rightarrow> string"
  and members_text :: "(dom_num \<Rightarrow> string) \<Rightarrow> (string \<times> json) list \<Rightarrow> string" where
  "json_text fl JNull = ''null''"
| "json_text fl (JBool b) = (if b then ''true'' else ''false'')"
| "json_text fl (JNum n) =
     (case dom_i64 n of Some i \<Rightarrow> show_int i
      | None \<Rightarrow> (case dom_u64 n of Some u \<Rightarrow> show_nat u | None \<Rightarrow> fl n))"
| "json_text fl (JString s) = quoted s"
| "json_text fl (JArray vs) = ''['' @ elements_text fl vs @ '']''"
| "json_text fl (JObject ms) = ''{'' @ members_text fl ms @ ''}''"
| "elements_text fl [] = []"
| "elements_text fl (v # vs) = json_text fl v @ (if vs = [] then [] else '','' @ elements_text fl vs)"
| "members_text fl [] = []"
| "members_text fl ((k, v) # ms) =
     quoted k @ '':'' @ json_text fl v @ (if ms = [] then [] else '','' @ members_text fl ms)"

definition unescaped :: "string \<Rightarrow> bool" where
  "unescaped s \<longleftrightarrow> append_json_escaped s = s"

lemma member_text: "(k, v) \<in> set ms \<Longrightarrow> sublist (quoted k @ '':'' @ json_text fl v) (members_text fl ms)"
proof (induction ms)
  case (Cons m ms)
  obtain k' v' where m: "m = (k', v')" by (cases m)
  show ?case
  proof (cases "(k, v) = m")
    case True
    have "members_text fl (m # ms) = (quoted k @ '':'' @ json_text fl v) @ (if ms = [] then [] else '','' @ members_text fl ms)"
      by (simp add: True [symmetric])
    then show ?thesis by (metis sublist_append_rightI)
  next
    case False
    with Cons have "sublist (quoted k @ '':'' @ json_text fl v) (members_text fl ms)" "ms \<noteq> []" by auto
    moreover have "members_text fl (m # ms) = (quoted k' @ '':'' @ json_text fl v' @ '','') @ members_text fl ms"
      using \<open>ms \<noteq> []\<close> by (simp add: m)
    ultimately show ?thesis by (metis sublist_append_leftI sublist_order.order_trans)
  qed
qed simp

lemma object_text: "sublist t (members_text fl ms) \<Longrightarrow> sublist t (json_text fl (JObject ms))"
  by (metis json_text.simps(6) sublist_append_leftI sublist_append_rightI sublist_order.order_trans)

text \<open>Where the evaluator finds a plain field: at the top, or in \<^verbatim>\<open>args\<close>.\<close>

definition flat_free :: "json \<Rightarrow> string \<Rightarrow> bool" where
  "flat_free e f \<longleftrightarrow>
     (case e of JObject ms \<Rightarrow> map_of ms (''args.'' @ f) = None \<and> args_of ms \<noteq> None | _ \<Rightarrow> False)"

lemma at_path_args_member:
  assumes "plain_field f" "map_of ms (''args.'' @ f) = None" "args_of ms = Some as"
    "at_path (Some (JObject ms)) (''args.'' @ f) = Some w"
  shows "map_of ms ''args'' = Some (JObject as) \<and> map_of as f = Some w"
  using at_path_args [OF assms(1-3)] assms(3,4) by (auto simp: args_of_def split: option.splits json.splits)

lemma resolved_is_written:
  assumes "plain_field f" "unescaped f" "flat_free e f" "resolve_field (Some e) f = Some w"
  shows "sublist (''\"'' @ f @ ''\":'' @ json_text fl w) (json_text fl e)"
proof -
  obtain ms as where e: "e = JObject ms" and fl: "map_of ms (''args.'' @ f) = None" "args_of ms = Some as"
    using assms(3) by (auto simp: flat_free_def split: json.splits)
  note p = plain_field_facts [OF assms(1)]
  have key: "''\"'' @ f @ ''\":'' @ t = quoted f @ '':'' @ t" for t using assms(2) by (simp add: quoted_def unescaped_def)
  have top_get: "at_path (Some e) f = map_of ms f" using at_path_plain [OF p(1,2)] by (simp add: e)
  have "map_of ms f = Some w \<or> at_path (Some (JObject ms)) (''args.'' @ f) = Some w"
    using assms(4) top_get p(5) by (simp add: resolve_field_def Let_def e split: if_splits)
  then show ?thesis
  proof
    assume "map_of ms f = Some w"
    then show ?thesis unfolding key e by (intro object_text member_text) (rule map_of_SomeD)
  next
    assume "at_path (Some (JObject ms)) (''args.'' @ f) = Some w"
    then have as: "map_of ms ''args'' = Some (JObject as)" "map_of as f = Some w"
      using at_path_args_member [OF assms(1) fl] by blast+
    have "sublist (quoted f @ '':'' @ json_text fl w) (json_text fl (JObject as))"
      using as(2) by (intro object_text member_text) (rule map_of_SomeD)
    moreover have "sublist (quoted ''args'' @ '':'' @ json_text fl (JObject as)) (json_text fl e)"
      unfolding e using as(1) by (intro object_text member_text) (rule map_of_SomeD)
    ultimately show ?thesis unfolding key by (metis sublist_append_leftI sublist_order.order_trans append_assoc)
  qed
qed

text \<open>Values with one spelling: integers, and strings that need no escapes.\<close>

fun one_spelling :: "json \<Rightarrow> bool" where
  "one_spelling (JString s) = unescaped s"
| "one_spelling (JNum n) = (dom_i64 n \<noteq> None \<or> dom_u64 n \<noteq> None)"
| "one_spelling _ = True"

definition plainly_kept :: "json \<Rightarrow> string \<Rightarrow> bool" where
  "plainly_kept e f \<longleftrightarrow> plain_field f \<and> unescaped f \<and> flat_free e f
     \<and> (case resolve_field (Some e) f of None \<Rightarrow> True | Some w \<Rightarrow> json_ok w \<and> one_spelling w)"

lemma eq_literal_written:
  assumes "compare_value (Some w) lit = Some 0" "json_ok w" "one_spelling w" "eq_literal_text f lit = Some t"
  shows "t = ''\"'' @ f @ ''\":'' @ json_text fl w"
proof -
  have eq: "three_way a b = 0 \<longleftrightarrow> a = b" for a b :: "'x::linorder" by (auto simp: three_way_def)
  have num: "dom_num_ok n \<Longrightarrow> dom_i64 n = Some i \<Longrightarrow> dom_u64 n = (if 0 \<le> i then Some (nat i) else None)" for n i
    by (simp add: dom_num_ok_def)
  show ?thesis
  proof (cases w)
    case (JNum n)
    with assms(2) have ok: "dom_num_ok n" by simp
    show ?thesis
    proof (cases "dom_i64 n")
      case (Some i)
      with num [OF ok Some] assms(1,4) JNum show ?thesis by (cases lit) (simp_all add: eq show_int_def split: if_splits)
    next
      case None
      with assms(3) JNum obtain u where u: "dom_u64 n = Some u" by auto
      with None ok have "INT64_MAX < int u" by (simp add: dom_num_ok_def)
      with u None assms(1,4) JNum show ?thesis by (cases lit) (simp_all add: eq show_int_def split: if_splits)
    qed
  next
    case (JString s)
    then show ?thesis using assms by (cases lit) (auto simp: eq quoted_def unescaped_def)
  next
    case (JBool b)
    then show ?thesis using assms by (cases lit) (auto split: if_splits)
  qed (use assms in \<open>cases lit; auto\<close>)+
qed

lemma collected_literals:
  assumes "collect_and_eq_literals q out = (True, lits)" "evaluate R q (Some e)" "\<forall>f \<in> collect_fields q. plainly_kept e f"
  shows "\<exists>new. lits = out @ new \<and> list_all (\<lambda>l. sublist l (json_text fl e)) new"
  using assms
proof (induction q arbitrary: out lits)
  case (CompareNode f op lit)
  then obtain t where t: "eq_literal_text f lit = Some t" "lits = out @ [t]" "op = EQ"
    by (auto split: if_splits option.splits)
  then obtain w where w: "resolve_field (Some e) f = Some w" "compare_value (Some w) lit = Some 0"
    using CompareNode.prems(2)
    by (cases "resolve_field (Some e) f"; cases "compare_value (resolve_field (Some e) f) lit")
       (auto simp: eval_compare_def Let_def split: if_splits)
  then have ok: "plain_field f" "unescaped f" "flat_free e f" "json_ok w" "one_spelling w"
    using CompareNode.prems(3) by (auto simp: plainly_kept_def)
  have "sublist t (json_text fl e)"
    using resolved_is_written [OF ok(1-3) w(1)] eq_literal_written [OF w(2) ok(4,5) t(1)] by simp
  with t(2) show ?case by simp
next
  case (AndNode a b)
  then obtain mid where mid: "collect_and_eq_literals a out = (True, mid)" "collect_and_eq_literals b mid = (True, lits)"
    by (auto split: prod.splits bool.splits)
  have "\<exists>n1. mid = out @ n1 \<and> list_all (\<lambda>l. sublist l (json_text fl e)) n1"
    by (rule AndNode.IH(1) [OF mid(1)]) (use AndNode.prems(2,3) in auto)
  moreover have "\<exists>n2. lits = mid @ n2 \<and> list_all (\<lambda>l. sublist l (json_text fl e)) n2"
    by (rule AndNode.IH(2) [OF mid(2)]) (use AndNode.prems(2,3) in auto)
  ultimately show ?case by auto
qed simp_all

section \<open>Where the ways differ\<close>

text \<open>
  The dotted spelling of a nested field: the event satisfies the query, and its line fails the
  prefilter, which looks for the dotted name as a key.
\<close>

definition ex_dotted :: query_node where
  "ex_dotted = CompareNode ''args.fname'' EQ (LStr ''/data/a.bin'')"

lemma dotted_prefilter_rejects:
  "evaluate ex_lib ex_dotted (Some (JObject [(''args'', JObject [(''fname'', JString ''/data/a.bin'')])]))"
  "\<not> prefilter_may_match (build_prefilter ex_dotted) ''{\"args\":{\"fname\":\"/data/a.bin\"}}''"
  by code_simp+

text \<open>A string with a quote, which its line escapes and the prefilter does not.\<close>

definition ex_quote :: query_node where
  "ex_quote = CompareNode ''name'' EQ (LStr ''read \"collective\"'')"

lemma escaped_prefilter_rejects:
  "evaluate ex_lib ex_quote (Some (JObject [(''name'', JString ''read \"collective\"'')]))"
  "\<not> prefilter_may_match (build_prefilter ex_quote) (json_text (\<lambda>n. []) (JObject [(''name'', JString ''read \"collective\"'')]))"
  by code_simp+

text \<open>The column \<^verbatim>\<open>type\<close> of an event is not among the top-level keys of the probes.\<close>

lemma type_probe_rejects:
  "evaluate ex_lib (CompareNode ''type'' EQ (LStr ''r'')) (Some (JObject [(''type'', JString ''r'')]))"
  "map_option (\<lambda>ps. eval_compiled_eq ps (JObject [(''type'', JString ''r'')]))
     (try_compile_eq_probes (CompareNode ''type'' EQ (LStr ''r''))) = Some False"
  by code_simp+

text \<open>A nested member with the name of a column replaces the column in the collected map.\<close>

definition ex_shadow :: json where
  "ex_shadow = JObject [(''name'', JString ''process_name''), (''args'', JObject [(''name'', JString ''rank 0'')])]"

lemma nested_member_shadows:
  "evaluate ex_lib (CompareNode ''name'' EQ (LStr ''process_name'')) (Some ex_shadow)"
  "collect_query_fields {''name''} False ex_shadow ''name'' = Some (LStr ''rank 0'')"
  by (code_simp, simp add: collect_query_fields_def ex_shadow_def collect_field_def store_referenced_nested_def)

section \<open>Properties\<close>

text \<open>
  C6 The filter of a read passes exactly the events that the JSON evaluator accepts, whether it runs the
  compiled equality probes or collects the typed map, on events that keep the fields of the query where
  the probes look (\<open>filter_event\<close>). The fields are plain names, without dots and brackets. The columns
  \<open>id\<close>, \<open>name\<close>, \<open>cat\<close>, \<open>pid\<close>, \<open>tid\<close>, \<open>ts\<close>, \<open>dur\<close> and \<open>ph\<close> stand at the top level and nowhere else, every other
  field in \<^verbatim>\<open>args\<close> and nowhere else; this includes \<open>type\<close>, which the probes look for in \<^verbatim>\<open>args\<close>: an event with
  \<open>type\<close> at the top level is outside the claim, and the probes reject it (\<open>type_probe_rejects\<close>). The values
  are numbers, strings or booleans that the literals of the query compare with exactly.
\<close>
theorem read_filter_exact:
  assumes "q_fields q = collect_fields (q_root q)" "filter_event e val (q_root q)"
  shows "doc_passes R (Some q) False e \<longleftrightarrow> evaluate R (q_root q) (Some e)"
proof (cases "try_compile_eq_probes (q_root q)")
  case None
  then show ?thesis using assms collected_agrees [OF assms(2) order_refl] by (simp add: doc_passes_def)
next
  case (Some ps)
  with probes_agree [OF assms(2) Some] show ?thesis by (cases ps) (simp_all add: doc_passes_def)
qed

definition ex_filter_event :: json where
  "ex_filter_event = JObject [(''name'', JString ''read''), (''dur'', JNum (num_of_int 25)),
     (''args'', JObject [(''ret'', JNum (num_of_int 7)), (''fname'', JString ''/a'')])]"

definition ex_filter_query :: query where
  "ex_filter_query = (let q = AndNode (CompareNode ''name'' EQ (LStr ''read'')) (CompareNode ''ret'' EQ (LU64 7))
     in \<lparr>q_root = q, q_source = [], q_fields = collect_fields q\<rparr>)"

definition ex_filter_val :: "string \<Rightarrow> json_value" where
  "ex_filter_val f = (if f = ''name'' then Some (JString ''read'') else Some (JNum (num_of_int 7)))"

lemma read_filter_exact_witness:
  "doc_passes ex_lib (Some ex_filter_query) False ex_filter_event
     \<longleftrightarrow> evaluate ex_lib (q_root ex_filter_query) (Some ex_filter_event)"
proof (rule read_filter_exact)
  show "q_fields ex_filter_query = collect_fields (q_root ex_filter_query)" by (simp add: ex_filter_query_def Let_def)
  show "filter_event ex_filter_event ex_filter_val (q_root ex_filter_query)"
    by (auto simp: ex_filter_query_def Let_def filter_event_def placed_def ex_filter_event_def ex_filter_val_def
        plain_field_def key_char_def args_of_def event_columns_def nested_members_def comparable_def
        dom_num_ok_def num_of_int_def INT64_MAX_def INT64_MIN_def UINT64_MAX_def)
qed

text \<open>
  C35 The prefilter drops no match: when an event satisfies the query, the compact JSON line of the
  event passes it, as does every chunk that holds the line. The fields of the query are plain names,
  without dots or brackets (a dotted field loses its matches, \<open>dotted_prefilter_rejects\<close>), that need no
  escapes and have no flat \<^verbatim>\<open>args.\<close> key, and \<^verbatim>\<open>args\<close> is an object if present; the values found for them are integers, booleans, or strings
  without escapes (\<open>plainly_kept\<close>): a float or an escaped string has several spellings, of which the
  prefilter looks for one (\<open>escaped_prefilter_rejects\<close>).
\<close>
theorem prefilter_keeps_matches:
  assumes "evaluate R q (Some e)" "\<forall>f \<in> collect_fields q. plainly_kept e f" "sublist (json_text fl e) chunk"
  shows "prefilter_may_match (build_prefilter q) (json_text fl e) \<and> prefilter_may_match (build_prefilter q) chunk"
proof -
  have "prefilter_may_match (build_prefilter q) (json_text fl e)"
  proof (cases "collect_and_eq_literals q []")
    case (Pair ok lits)
    show ?thesis
    proof (cases ok)
      case True
      then have "list_all (\<lambda>l. sublist l (json_text fl e)) lits"
        using collected_literals [of q "[]" lits, OF _ assms(1,2)] Pair by auto
      then show ?thesis using Pair True
        by (auto simp: build_prefilter_def prefilter_may_match_def memmem_iff list_all_iff)
    qed (simp add: build_prefilter_def Pair)
  qed
  then show ?thesis using may_match_mono [OF _ assms(3)] by blast
qed

definition ex_line_event :: json where
  "ex_line_event = JObject [(''name'', JString ''read_collective''), (''dur'', JNum (num_of_int 25)),
     (''args'', JObject [(''collective_rank'', JNum (num_of_int 7))])]"

definition ex_line_query :: query_node where
  "ex_line_query = AndNode (CompareNode ''name'' EQ (LStr ''read_collective'')) (CompareNode ''collective_rank'' EQ (LU64 7))"

lemma prefilter_keeps_matches_witness:
  "prefilter_may_match (build_prefilter ex_line_query) (json_text (\<lambda>n. []) ex_line_event)
     \<and> prefilter_may_match (build_prefilter ex_line_query) (''['' @ json_text (\<lambda>n. []) ex_line_event)"
proof (rule prefilter_keeps_matches)
  show "evaluate ex_lib ex_line_query (Some ex_line_event)" by code_simp
  show "\<forall>f \<in> collect_fields ex_line_query. plainly_kept ex_line_event f" by code_simp
qed (rule sublist_append_leftI)

text \<open>
  C36 The lines of a stream keep their numbers: over chunks that end at line ends, a read yields
  exactly the non-empty lines of the whole text that its filters pass, each with its position in the
  text, even where whole chunks are skipped by the prefilter.
\<close>
theorem lines_yielded_exact:
  assumes "line_chunks cs"
  shows "yield_lines accept pf n cs
    = filter (\<lambda>(l, k). l \<noteq> [] \<and> accept l \<and> prefilter_may_match pf l)
        (zip (split_lines (concat cs)) [n..<n + length (split_lines (concat cs))])"
proof -
  have "line_passes accept pf = (\<lambda>(l, k). l \<noteq> [] \<and> accept l \<and> prefilter_may_match pf l)"
    by (auto simp: line_passes_def fun_eq_iff)
  then show ?thesis using yield_lines_numbered [OF assms] by (simp add: numbered_def)
qed

lemma lines_yielded_exact_witness:
  "yield_lines (\<lambda>l. True) [''abc''] 1 [[CHR ''x'', NL, CHR ''y'', NL], ''abcd'' @ [NL]]
    = filter (\<lambda>(l, k). l \<noteq> [] \<and> True \<and> prefilter_may_match [''abc''] l)
        (zip (split_lines (concat [[CHR ''x'', NL, CHR ''y'', NL], ''abcd'' @ [NL]]))
          [1..<1 + length (split_lines (concat [[CHR ''x'', NL, CHR ''y'', NL], ''abcd'' @ [NL]]))])"
  by (rule lines_yielded_exact) (simp add: line_chunks_def)

end
