(* ===== verification/StringOps.thy ===== *)
theory StringOps
  imports Cstd "HOL-Library.Sublist" "HOL-Library.Word"
begin

text \<open>
  The byte-string kernels of the dataframe engine, row by row
  (\<^verbatim>\<open>dataframe/kernels/string_ops.cpp\<close>, \<^verbatim>\<open>substr_simd.cpp\<close>): \<^verbatim>\<open>LIKE\<close> patterns, substring search,
  splitting, replacing, slicing, trimming and ASCII case.

  The pattern matcher of the code is the two-pointer loop with one remembered star; \<open>like_matches\<close> says
  what a pattern means. The substring search works on blocks of \<open>L\<close> lanes.
\<close>

section \<open>LIKE patterns\<close>

datatype glob_token = Literal char | AnyRun | AnyOne

fun classify_like :: "string \<Rightarrow> glob_token list" where
  "classify_like [] = []"
| "classify_like [c] = [if c = CHR ''%'' then AnyRun else if c = CHR ''_'' then AnyOne else Literal c]"
| "classify_like (c # d # cs) =
     (if c = CHR 0x5C then Literal d # classify_like cs
      else (if c = CHR ''%'' then AnyRun else if c = CHR ''_'' then AnyOne else Literal c) # classify_like (d # cs))"

text \<open>What a token list matches.\<close>

fun like_matches :: "glob_token list \<Rightarrow> string \<Rightarrow> bool" where
  "like_matches [] xs \<longleftrightarrow> xs = []"
| "like_matches (Literal c # ts) xs \<longleftrightarrow> (case xs of [] \<Rightarrow> False | x # ys \<Rightarrow> x = c \<and> like_matches ts ys)"
| "like_matches (AnyOne # ts) xs \<longleftrightarrow> (case xs of [] \<Rightarrow> False | x # ys \<Rightarrow> like_matches ts ys)"
| "like_matches (AnyRun # ts) xs \<longleftrightarrow> list_ex (\<lambda>k. like_matches ts (drop k xs)) [0..<Suc (length xs)]"

text \<open>
  The positions of the loop are the tokens and the bytes that are left; \<open>star\<close> holds what was left of
  both behind the last \<open>AnyRun\<close>. The loop is not structurally recursive: \<open>None\<close> is the value of a loop
  that does not end.
\<close>

partial_function (option) glob_loop ::
  "glob_token list \<Rightarrow> string \<Rightarrow> (glob_token list \<times> string) option \<Rightarrow> bool option" where
  "glob_loop ps xs star =
     (case xs of
        [] \<Rightarrow> Some (dropWhile (\<lambda>t. t = AnyRun) ps = [])
      | x # ys \<Rightarrow>
          (case ps of
             AnyOne # qs \<Rightarrow> glob_loop qs ys star
           | AnyRun # qs \<Rightarrow> glob_loop qs xs (Some (qs, xs))
           | Literal c # qs \<Rightarrow>
               if c = x then glob_loop qs ys star
               else (case star of None \<Rightarrow> Some False | Some (rs, zs) \<Rightarrow> glob_loop rs (tl zs) (Some (rs, tl zs)))
           | [] \<Rightarrow> (case star of None \<Rightarrow> Some False | Some (rs, zs) \<Rightarrow> glob_loop rs (tl zs) (Some (rs, tl zs)))))"

declare glob_loop.simps [code]

definition glob_match :: "glob_token list \<Rightarrow> string \<Rightarrow> bool option" where
  "glob_match toks s = glob_loop toks s None"

lemma like_run: "like_matches (AnyRun # ts) xs \<longleftrightarrow> (\<exists>k \<le> length xs. like_matches ts (drop k xs))"
  by (auto simp: list_ex_iff less_Suc_eq_le simp del: upt_Suc)

declare like_matches.simps(4) [simp del]

lemma like_run_empty: "like_matches ps [] \<longleftrightarrow> dropWhile (\<lambda>t. t = AnyRun) ps = []"
proof (induction ps)
  case (Cons t ps)
  then show ?case by (cases t) (auto simp: like_run)
qed simp

lemma like_run_drop: "like_matches (AnyRun # ts) (drop k xs) \<Longrightarrow> like_matches (AnyRun # ts) xs"
proof -
  assume "like_matches (AnyRun # ts) (drop k xs)"
  then obtain j where "j \<le> length (drop k xs)" "like_matches ts (drop j (drop k xs))" unfolding like_run by blast
  then have "like_matches ts (drop (min (j + k) (length xs)) xs)"
    by (cases "j + k \<le> length xs") (simp_all add: min_def)
  then show ?thesis unfolding like_run using min.cobounded2 by blast
qed

text \<open>Tokens that take one byte each.\<close>

fun one_byte :: "glob_token \<Rightarrow> bool" where
  "one_byte AnyRun = False" | "one_byte _ = True"

lemma like_one_byte:
  "list_all one_byte us \<Longrightarrow> like_matches (us @ ts) xs \<Longrightarrow> length us \<le> length xs \<and> like_matches ts (drop (length us) xs)"
proof (induction us arbitrary: xs)
  case (Cons u us)
  then show ?case by (cases u; cases xs) auto
qed simp

text \<open>The retries that the remembered star leaves.\<close>

definition retry :: "(glob_token list \<times> string) option \<Rightarrow> bool" where
  "retry star \<longleftrightarrow> (case star of None \<Rightarrow> False | Some (rs, zs) \<Rightarrow> \<exists>k. 0 < k \<and> k \<le> length zs \<and> like_matches rs (drop k zs))"

definition star_ok :: "glob_token list \<Rightarrow> string \<Rightarrow> (glob_token list \<times> string) option \<Rightarrow> bool" where
  "star_ok ps xs star \<longleftrightarrow>
     (case star of None \<Rightarrow> True
      | Some (rs, zs) \<Rightarrow> \<exists>us. rs = us @ ps \<and> list_all one_byte us \<and> length us \<le> length zs \<and> xs = drop (length us) zs)"

lemma retry_step: "zs \<noteq> [] \<Longrightarrow> retry (Some (rs, zs)) \<longleftrightarrow> like_matches rs (tl zs) \<or> retry (Some (rs, tl zs))"
proof -
  assume ne: "zs \<noteq> []"
  have "(\<exists>k. 0 < k \<and> k \<le> length zs \<and> like_matches rs (drop k zs))
      \<longleftrightarrow> (\<exists>k. k \<le> length (tl zs) \<and> like_matches rs (drop k (tl zs)))" (is "?l \<longleftrightarrow> ?r")
  proof
    assume ?l
    then obtain k where "0 < k" "k \<le> length zs" "like_matches rs (drop k zs)" by blast
    then show ?r using ne by (intro exI [of _ "k - 1"]) (cases zs; cases k; simp)
  next
    assume ?r
    then obtain k where "k \<le> length (tl zs)" "like_matches rs (drop k (tl zs))" by blast
    then show ?l using ne by (intro exI [of _ "Suc k"]) (cases zs; simp)
  qed
  also have "\<dots> \<longleftrightarrow> like_matches rs (tl zs) \<or> (\<exists>k. 0 < k \<and> k \<le> length (tl zs) \<and> like_matches rs (drop k (tl zs)))"
    by (metis drop0 gr0I le0)
  finally show ?thesis by (simp add: retry_def)
qed

lemma retry_end:
  assumes "star_ok ps [] star"
  shows "\<not> retry star"
proof
  assume "retry star"
  then obtain rs zs k where star: "star = Some (rs, zs)" and k: "0 < k" "k \<le> length zs" "like_matches rs (drop k zs)"
    by (auto simp: retry_def split: option.splits)
  then obtain us where us: "rs = us @ ps" "list_all one_byte us" "[] = drop (length us) zs" "length us \<le> length zs"
    using assms by (auto simp: star_ok_def)
  with k(3) have "length us \<le> length (drop k zs)" using like_one_byte by blast
  then show False using us(3,4) k(1,2) by simp
qed

lemma retry_run:
  assumes "star_ok (AnyRun # qs) xs star" "retry star"
  shows "like_matches (AnyRun # qs) xs"
proof -
  obtain rs zs k where star: "star = Some (rs, zs)" and k: "like_matches rs (drop k zs)"
    using assms(2) by (auto simp: retry_def split: option.splits)
  then obtain us where us: "rs = us @ AnyRun # qs" "list_all one_byte us" "xs = drop (length us) zs"
    using assms(1) by (auto simp: star_ok_def)
  with k have "like_matches (AnyRun # qs) (drop (length us) (drop k zs))" using like_one_byte by blast
  then have "like_matches (AnyRun # qs) (drop k xs)" using us(3) by (simp add: add.commute)
  then show ?thesis by (rule like_run_drop)
qed

lemma retry_new: "like_matches qs xs \<or> retry (Some (qs, xs)) \<longleftrightarrow> like_matches (AnyRun # qs) xs"
  unfolding retry_def like_run by (simp, metis drop0 gr0I le0)

lemma star_ok_advance:
  assumes "one_byte t" "star_ok (t # qs) (x # ys) star"
  shows "star_ok qs ys star"
proof (cases star)
  case (Some a)
  then obtain rs zs where a: "star = Some (rs, zs)" by (cases a) simp
  with assms(2) obtain us where us: "rs = us @ t # qs" "list_all one_byte us" "x # ys = drop (length us) zs"
    by (auto simp: star_ok_def)
  have "ys = drop (Suc (length us)) zs" using us(3) by (metis drop_Suc list.sel(3) tl_drop)
  moreover have "length us < length zs" using us(3) by (metis drop_eq_Nil2 leI list.discI)
  ultimately have "rs = (us @ [t]) @ qs \<and> list_all one_byte (us @ [t]) \<and> length (us @ [t]) \<le> length zs
      \<and> ys = drop (length (us @ [t])) zs" using us(1,2) assms(1) by simp
  then show ?thesis unfolding a star_ok_def option.case prod.case by blast
qed (simp add: star_ok_def)

lemma star_ok_new: "star_ok qs xs (Some (qs, xs))" by (simp add: star_ok_def)

text \<open>The loop gets smaller: the bytes left behind the star, then its tokens, then the tokens left.\<close>

lemma glob_loop_star:
  "star_ok ps xs (Some (rs, zs)) \<Longrightarrow>
     glob_loop ps xs (Some (rs, zs)) = Some (like_matches ps xs \<or> retry (Some (rs, zs)))"
proof (induction "(ps, xs, rs, zs)" arbitrary: ps xs rs zs rule: wf_induct_rule [OF wf_measures, of "[\<lambda>(ps, xs, rs, zs). length zs, \<lambda>(ps, xs, rs, zs). length rs, \<lambda>(ps, xs, rs, zs). length ps]"])
  case 1
  note ok = "1.prems"
  show ?case
  proof (cases xs)
    case Nil
    then show ?thesis using retry_end ok by (simp add: glob_loop.simps [of ps "[]"] like_run_empty)
  next
    case (Cons x ys)
    have ne: "zs \<noteq> []" using ok Cons by (auto simp: star_ok_def)
    have again: "glob_loop rs (tl zs) (Some (rs, tl zs)) = Some (like_matches rs (tl zs) \<or> retry (Some (rs, tl zs)))"
      using ne by (intro "1.hyps") (simp_all add: star_ok_new)
    have fail_back: "Some (like_matches rs (tl zs) \<or> retry (Some (rs, tl zs))) = Some (retry (Some (rs, zs)))"
      using retry_step [OF ne] by simp
    show ?thesis
    proof (cases ps)
      case Nil
      then show ?thesis using again fail_back by (simp add: glob_loop.simps [of "[]" "x # ys"] \<open>xs = x # ys\<close>)
    next
      case (Cons t qs)
      note step = glob_loop.simps [of "_ # qs" "x # ys"] and here = Cons \<open>xs = x # ys\<close>
      have advance: "glob_loop qs ys (Some (rs, zs)) = Some (like_matches qs ys \<or> retry (Some (rs, zs)))" if "one_byte t"
        using ok that here by (intro "1.hyps") (auto intro: star_ok_advance)
      show ?thesis
      proof (cases t)
        case (Literal c)
        then show ?thesis using advance again fail_back by (simp add: step here)
      next
        case AnyRun
        obtain us where us: "rs = us @ AnyRun # qs" "xs = drop (length us) zs"
          using ok here AnyRun by (auto simp: star_ok_def)
        have "glob_loop qs xs (Some (qs, xs)) = Some (like_matches qs xs \<or> retry (Some (qs, xs)))"
          using us by (intro "1.hyps") (auto simp: star_ok_new)
        then show ?thesis using retry_new [of qs xs] retry_run [of qs xs "Some (rs, zs)"] ok AnyRun
          by (auto simp: step here)
      next
        case AnyOne
        then show ?thesis using advance by (simp add: step here)
      qed
    qed
  qed
qed

text \<open>The loop ends and decides the match.\<close>

lemma glob_loop_plain: "glob_loop ps xs None = Some (like_matches ps xs)"
proof (induction xs arbitrary: ps)
  case Nil
  then show ?case by (simp add: glob_loop.simps [of ps "[]"] like_run_empty)
next
  case (Cons x ys)
  show ?case
  proof (cases ps)
    case Nil
    then show ?thesis by (simp add: glob_loop.simps)
  next
    case (Cons t qs)
    then show ?thesis using Cons.IH [of qs] glob_loop_star [OF star_ok_new, of qs "x # ys"] retry_new [of qs "x # ys"]
      by (cases t) (simp_all add: glob_loop.simps [of "t # qs" "x # ys"] glob_loop.simps [of "_ # qs" "x # ys"])
  qed
qed

lemma glob_match_exact: "glob_match toks s = Some (like_matches toks s)"
  by (simp add: glob_match_def glob_loop_plain)

section \<open>Substring search\<close>

text \<open>\<^verbatim>\<open>std::string_view::find\<close> from the start: the first position at which the pattern stands.\<close>

fun find_str :: "string \<Rightarrow> string \<Rightarrow> nat option" where
  "find_str pat s =
     (if take (length pat) s = pat then Some 0
      else case s of [] \<Rightarrow> None | _ # t \<Rightarrow> map_option Suc (find_str pat t))"

declare find_str.simps [simp del]

text \<open>
  The scan of \<^verbatim>\<open>substr_simd.cpp\<close>: \<open>byte_hit\<close> is the lane compare against the first byte of the needle,
  \<open>memcmp_hit\<close> the compare of the whole needle. A block of \<open>L\<close> lanes takes its candidates from the
  lowest set bit of the mask upwards; what the blocks leave is scanned byte by byte.
\<close>

definition byte_hit :: "string \<Rightarrow> string \<Rightarrow> nat \<Rightarrow> bool" where
  "byte_hit hay needle i \<longleftrightarrow> hay ! i = needle ! 0"

definition memcmp_hit :: "string \<Rightarrow> string \<Rightarrow> nat \<Rightarrow> bool" where
  "memcmp_hit hay needle i \<longleftrightarrow> take (length needle) (drop i hay) = needle"

definition scalar_scan :: "string \<Rightarrow> string \<Rightarrow> nat \<Rightarrow> nat \<Rightarrow> nat option" where
  "scalar_scan hay needle i last_pos = find (\<lambda>i. byte_hit hay needle i \<and> memcmp_hit hay needle i) [i..<Suc last_pos]"

definition scan_block :: "nat \<Rightarrow> string \<Rightarrow> string \<Rightarrow> nat \<Rightarrow> nat option" where
  "scan_block L hay needle i = find (memcmp_hit hay needle) (filter (byte_hit hay needle) [i..<i + L])"

fun scan_blocks :: "nat \<Rightarrow> string \<Rightarrow> string \<Rightarrow> nat list \<Rightarrow> nat option" where
  "scan_blocks L hay needle [] = None"
| "scan_blocks L hay needle (i # is) =
     (case scan_block L hay needle i of Some c \<Rightarrow> Some c | None \<Rightarrow> scan_blocks L hay needle is)"

definition SUBSTR_SIMD_MAX_NEEDLE :: nat where "SUBSTR_SIMD_MAX_NEEDLE = 64"

definition SubstrFind :: "nat \<Rightarrow> string \<Rightarrow> string \<Rightarrow> nat option" where
  "SubstrFind L hay needle =
     (let last_pos = length hay - length needle in
      if SUBSTR_SIMD_MAX_NEEDLE < length needle then scalar_scan hay needle 0 last_pos
      else
        let blocks = (if L \<le> 64 then Suc last_pos div L else 0) in
        case scan_blocks L hay needle (map (\<lambda>b. b * L) [0..<blocks]) of
          Some c \<Rightarrow> Some c
        | None \<Rightarrow> scalar_scan hay needle (blocks * L) last_pos)"

definition substr_find :: "nat \<Rightarrow> string \<Rightarrow> string \<Rightarrow> int" where
  "substr_find L hay needle =
     (if needle = [] then 0
      else if length hay < length needle then -1
      else (case SubstrFind L hay needle of Some i \<Rightarrow> int i | None \<Rightarrow> -1))"

lemma find_append: "find P (xs @ ys) = (case find P xs of Some x \<Rightarrow> Some x | None \<Rightarrow> find P ys)"
  by (induction xs) auto

lemma find_filter: "find P (filter Q xs) = find (\<lambda>x. Q x \<and> P x) xs"
  by (induction xs) auto

lemma find_shift: "find P [Suc a..<Suc b] = map_option Suc (find (\<lambda>i. P (Suc i)) [a..<b])"
proof (induction b)
  case (Suc b)
  then show ?case by (cases "a \<le> b") (auto simp: find_append split: option.splits)
qed simp

lemma memcmp_first:
  assumes "needle \<noteq> []" "memcmp_hit hay needle i"
  shows "byte_hit hay needle i"
proof -
  have "hd (drop i hay) = hd needle" "drop i hay \<noteq> []"
    using assms unfolding memcmp_hit_def by (metis hd_take length_greater_0_conv, metis take_Nil)
  then show ?thesis using assms(1) by (simp add: byte_hit_def hd_conv_nth hd_drop_conv_nth)
qed

lemma scan_candidates:
  "needle \<noteq> [] \<Longrightarrow> find (\<lambda>i. byte_hit hay needle i \<and> memcmp_hit hay needle i) is = find (memcmp_hit hay needle) is"
  using memcmp_first by (intro find_cong) auto

lemma scan_block_find: "needle \<noteq> [] \<Longrightarrow> scan_block L hay needle i = find (memcmp_hit hay needle) [i..<i + L]"
  by (simp add: scan_block_def find_filter scan_candidates)

lemma scan_blocks_append:
  "scan_blocks L hay needle (is @ js) =
     (case scan_blocks L hay needle is of Some c \<Rightarrow> Some c | None \<Rightarrow> scan_blocks L hay needle js)"
  by (induction "is") (auto split: option.splits)

lemma scan_blocks_find:
  "needle \<noteq> [] \<Longrightarrow> scan_blocks L hay needle (map (\<lambda>b. b * L) [0..<n]) = find (memcmp_hit hay needle) [0..<n * L]"
proof (induction n)
  case (Suc n)
  have "[0..<Suc n * L] = [0..<n * L] @ [n * L..<n * L + L]" using upt_add_eq_append [of 0 "n * L" L] by (simp add: add.commute)
  then show ?case using Suc
    by (simp add: scan_blocks_append scan_block_find find_append split: option.splits)
qed simp

lemma find_str_upto:
  "find_str pat s = (if length pat \<le> length s then find (memcmp_hit s pat) [0..<Suc (length s - length pat)] else None)"
proof (induction s)
  case Nil
  then show ?case by (simp add: find_str.simps [of pat "[]"] memcmp_hit_def)
next
  case (Cons x t)
  note step = find_str.simps [of pat "x # t"]
  have shift: "memcmp_hit (x # t) pat (Suc i) = memcmp_hit t pat i" for i by (simp add: memcmp_hit_def)
  have here: "memcmp_hit (x # t) pat 0 \<longleftrightarrow> take (length pat) (x # t) = pat" by (simp add: memcmp_hit_def)
  show ?case
  proof (cases "length pat \<le> length t")
    case True
    then have "[0..<Suc (length (x # t) - length pat)] = 0 # [Suc 0..<Suc (Suc (length t - length pat))]"
      by (simp add: Suc_diff_le upt_conv_Cons del: upt_Suc)
    then show ?thesis using True Cons here by (simp add: step find_shift shift del: upt_Suc)
  next
    case False
    then show ?thesis using Cons here by (cases "length pat = Suc (length t)") (auto simp: step)
  qed
qed

lemma find_upt_split:
  "b \<le> n \<Longrightarrow> find P [0..<n] = (case find P [0..<b] of Some i \<Rightarrow> Some i | None \<Rightarrow> find P [b..<n])"
  using upt_add_eq_append [of 0 b "n - b"] by (simp add: find_append)

lemma SubstrFind_find:
  assumes "needle \<noteq> []" "length needle \<le> length hay"
  shows "SubstrFind L hay needle = find_str needle hay"
proof -
  define stop where "stop = Suc (length hay - length needle)"
  define blocks where "blocks = (if L \<le> 64 then stop div L else 0)"
  have le: "blocks * L \<le> stop" by (simp add: blocks_def)
  have "SubstrFind L hay needle = find (memcmp_hit hay needle) [0..<stop]"
    unfolding SubstrFind_def Let_def scalar_scan_def scan_candidates [OF assms(1)] stop_def [symmetric]
      blocks_def [symmetric] scan_blocks_find [OF assms(1)] find_upt_split [OF le] by simp
  then show ?thesis using assms(2) by (simp add: find_str_upto stop_def)
qed

text \<open>What the search finds: the text before, the pattern, the text after, and nothing earlier.\<close>

lemma find_str_split: "find_str pat s = Some i \<Longrightarrow> s = take i s @ pat @ drop (i + length pat) s \<and> i + length pat \<le> length s"
proof (induction s arbitrary: i)
  case Nil
  then show ?case by (auto simp: find_str.simps [of pat "[]"] split: if_splits)
next
  case (Cons x t)
  show ?case
  proof (cases "take (length pat) (x # t) = pat")
    case True
    then have i: "i = 0" using Cons.prems by (simp add: find_str.simps [of pat "x # t"])
    have "length (take (length pat) (x # t)) \<le> length (x # t)" by simp
    then have "length pat \<le> length (x # t)" unfolding True .
    moreover have "x # t = pat @ drop (length pat) (x # t)" using True by (metis append_take_drop_id)
    ultimately show ?thesis unfolding i by simp
  next
    case False
    then show ?thesis using Cons by (auto simp: find_str.simps [of pat "x # t"])
  qed
qed

lemma find_str_None: "find_str pat s = None \<longleftrightarrow> \<not> sublist pat s"
proof (induction s)
  case Nil
  then show ?case by (simp add: find_str.simps)
next
  case (Cons x t)
  have "prefix pat (x # t) \<longleftrightarrow> take (length pat) (x # t) = pat" by (metis prefix_def append_eq_conv_conj)
  then show ?case using Cons by (simp add: find_str.simps [of pat "x # t"] sublist_Cons_right)
qed

lemma find_str_first: "find_str pat s = Some i \<Longrightarrow> j < i \<Longrightarrow> take (length pat) (drop j s) \<noteq> pat"
proof (induction s arbitrary: i j)
  case Nil
  then show ?case by (auto simp: find_str.simps [of pat "[]"] split: if_splits)
next
  case (Cons x t)
  then show ?case by (cases j) (auto simp: find_str.simps [of pat "x # t"] split: if_splits)
qed

lemma find_str_before:
  assumes "find_str pat s = Some i" "pat \<noteq> []"
  shows "find_str pat (take i s) = None"
proof (rule ccontr)
  assume "find_str pat (take i s) \<noteq> None"
  then obtain j where j: "find_str pat (take i s) = Some j" by blast
  let ?r = "drop (j + length pat) (take i s)"
  have "take i s = take j (take i s) @ pat @ ?r" "j + length pat \<le> length (take i s)"
    using find_str_split [OF j] by blast+
  then have "take (length pat) (drop j (take i s)) = pat" "j + length pat \<le> i"
    by (metis add_leD1 append_eq_conv_conj length_take min.absorb2 append_take_drop_id same_append_eq, simp)
  then have "take (length pat) (drop j s) = pat" "j < i"
    using assms(2) by (simp_all add: take_drop min_def) (metis add_leD1 length_greater_0_conv less_add_same_cancel1 order_less_le_trans)
  then show False using find_str_first [OF assms(1)] by blast
qed

lemma substr_find_scan:
  "substr_find L hay needle = (case find_str needle hay of Some i \<Rightarrow> int i | None \<Rightarrow> -1)"
proof (cases "needle = []")
  case True
  then show ?thesis by (simp add: substr_find_def find_str.simps)
next
  case False
  then show ?thesis by (simp add: substr_find_def SubstrFind_find) (simp add: find_str_upto)
qed

text \<open>
  C38: the vector search for a substring returns what \<^verbatim>\<open>std::string_view::find\<close> returns, for every number of
  lanes the processor has: the first position at which the needle stands, \<open>-1\<close> when there is none.
\<close>

theorem substr_find_exact:
  "substr_find L hay needle = (case find_str needle hay of Some i \<Rightarrow> int i | None \<Rightarrow> -1)"
  by (rule substr_find_scan)

section \<open>The dispatch of LIKE\<close>

fun token_char :: "glob_token \<Rightarrow> char" where
  "token_char (Literal c) = c"
| "token_char _ = CHR 0x00"

definition literal_of :: "glob_token list \<Rightarrow> nat \<Rightarrow> nat \<Rightarrow> string" where
  "literal_of toks b e = map token_char (drop b (take e toks))"

datatype like_plan = WholeEq string | StartsWith string | EndsWith string | Contains string | Glob "glob_token list"

definition plan_like :: "glob_token list \<Rightarrow> like_plan" where
  "plan_like toks =
     (let n_run = length (filter (\<lambda>t. t = AnyRun) toks); n_one = length (filter (\<lambda>t. t = AnyOne) toks);
          lead = (toks \<noteq> [] \<and> hd toks = AnyRun); trail = (toks \<noteq> [] \<and> List.last toks = AnyRun) in
      if n_one = 0 \<and> n_run = 0 then WholeEq (literal_of toks 0 (length toks))
      else if n_one = 0 \<and> n_run = 1 \<and> trail \<and> \<not> lead then StartsWith (literal_of toks 0 (length toks - 1))
      else if n_one = 0 \<and> n_run = 1 \<and> lead \<and> \<not> trail then EndsWith (literal_of toks 1 (length toks))
      else if n_one = 0 \<and> n_run = 2 \<and> 2 \<le> length toks \<and> lead \<and> trail then Contains (literal_of toks 1 (length toks - 1))
      else Glob toks)"

fun run_like :: "nat \<Rightarrow> like_plan \<Rightarrow> string \<Rightarrow> bool option" where
  "run_like L (WholeEq lit) s = Some (s = lit)"
| "run_like L (StartsWith pre) s = Some (prefix pre s)"
| "run_like L (EndsWith suf) s = Some (suffix suf s)"
| "run_like L (Contains mid) s = Some (0 \<le> substr_find L s mid)"
| "run_like L (Glob toks) s = glob_match toks s"

definition str_like :: "nat \<Rightarrow> string \<Rightarrow> string \<Rightarrow> bool option" where
  "str_like L pattern s = run_like L (plan_like (classify_like pattern)) s"

lemma like_literals: "like_matches (map Literal cs @ ts) s \<longleftrightarrow> (\<exists>r. s = cs @ r \<and> like_matches ts r)"
proof (induction cs arbitrary: s)
  case (Cons c cs)
  then show ?case by (cases s) auto
qed simp

lemma like_literal: "like_matches (map Literal cs) s \<longleftrightarrow> s = cs"
  using like_literals [of cs "[]"] by simp

lemma like_any: "like_matches (AnyRun # ts) s \<longleftrightarrow> (\<exists>a b. s = a @ b \<and> like_matches ts b)"
  unfolding like_run by (metis append_eq_conv_conj append_take_drop_id length_append le_add1)

lemma like_all: "like_matches [AnyRun] s" unfolding like_any by simp

lemma all_literals:
  assumes "AnyRun \<notin> set ts" "AnyOne \<notin> set ts"
  shows "ts = map Literal (map token_char ts)"
proof -
  have "Literal (token_char t) = t" if "t \<in> set ts" for t using assms that by (cases t) auto
  then show ?thesis by (simp add: map_idI)
qed

lemma filter_empty: "length (filter (\<lambda>t. t = a) ts) = 0 \<longleftrightarrow> a \<notin> set ts"
  by (auto simp: filter_empty_conv)

lemma plan_prefix:
  assumes "AnyOne \<notin> set toks" "length (filter (\<lambda>t. t = AnyRun) toks) = 1" "toks \<noteq> []" "List.last toks = AnyRun"
  shows "like_matches toks s \<longleftrightarrow> prefix (literal_of toks 0 (length toks - 1)) s"
proof -
  define bs where "bs = butlast toks"
  have toks: "toks = bs @ [AnyRun]" using assms(3,4) unfolding bs_def by (metis append_butlast_last_id)
  have "AnyRun \<notin> set bs" "AnyOne \<notin> set bs" using assms(1,2) by (auto simp: toks filter_empty_conv)
  then obtain cs where cs: "bs = map Literal cs" using all_literals by blast
  have "literal_of toks 0 (length toks - 1) = cs" by (simp add: literal_of_def toks cs comp_def)
  then show ?thesis unfolding toks cs by (auto simp: like_literals like_all prefix_def)
qed

lemma plan_suffix:
  assumes "AnyOne \<notin> set toks" "length (filter (\<lambda>t. t = AnyRun) toks) = 1" "toks \<noteq> []" "hd toks = AnyRun"
  shows "like_matches toks s \<longleftrightarrow> suffix (literal_of toks 1 (length toks)) s"
proof -
  obtain bs where toks: "toks = AnyRun # bs" using assms(3,4) by (cases toks) auto
  have "AnyRun \<notin> set bs" "AnyOne \<notin> set bs" using assms(1,2) by (auto simp: toks filter_empty_conv)
  then obtain cs where cs: "bs = map Literal cs" using all_literals by blast
  have "literal_of toks 1 (length toks) = cs" by (simp add: literal_of_def toks cs comp_def)
  then show ?thesis unfolding toks cs by (auto simp: like_any like_literal suffix_def)
qed

lemma plan_contains:
  assumes "AnyOne \<notin> set toks" "length (filter (\<lambda>t. t = AnyRun) toks) = 2" "2 \<le> length toks"
    "hd toks = AnyRun" "List.last toks = AnyRun"
  shows "like_matches toks s \<longleftrightarrow> sublist (literal_of toks 1 (length toks - 1)) s"
proof -
  obtain us where us: "toks = AnyRun # us" "us \<noteq> []"
    using assms(3,4) by (cases toks; cases "tl toks") auto
  define bs where "bs = butlast us"
  have toks: "toks = AnyRun # bs @ [AnyRun]" using us assms(5) unfolding bs_def by (metis append_butlast_last_id last_ConsR)
  have "AnyRun \<notin> set bs" "AnyOne \<notin> set bs" using assms(1,2) by (auto simp: toks filter_empty_conv)
  then obtain cs where cs: "bs = map Literal cs" using all_literals by blast
  have "literal_of toks 1 (length toks - 1) = cs" by (simp add: literal_of_def toks cs comp_def)
  then show ?thesis unfolding toks cs by (auto simp: like_any like_literals like_all sublist_def)
qed

lemma substr_find_contains: "0 \<le> substr_find L hay needle \<longleftrightarrow> sublist needle hay"
  using find_str_None [of needle hay] by (cases "find_str needle hay") (simp_all add: substr_find_scan)

text \<open>
  C10: whichever matcher \<^verbatim>\<open>dftu_series_str_like\<close> picks for a pattern (whole equality, prefix, suffix,
  substring, or the loop with one remembered star), it returns, and what it returns is whether the
  pattern's tokens match the row.
\<close>

theorem str_like_exact: "str_like L pattern s = Some (like_matches (classify_like pattern) s)"
proof -
  define toks where "toks = classify_like pattern"
  have whole: "like_matches toks s \<longleftrightarrow> s = literal_of toks 0 (length toks)"
    if "AnyOne \<notin> set toks" "AnyRun \<notin> set toks"
    using all_literals [OF that(2,1)] like_literal [of "map token_char toks" s] by (simp add: literal_of_def)
  have "run_like L (plan_like toks) s = Some (like_matches toks s)"
    using whole plan_prefix [of toks s] plan_suffix [of toks s] plan_contains [of toks s]
    by (auto simp: plan_like_def Let_def filter_empty substr_find_contains glob_match_exact simp del: length_0_conv)
  then show ?thesis by (simp add: str_like_def toks_def)
qed

section \<open>Splitting, replacing, counting, joining\<close>

lemma find_str_rest:
  assumes "find_str pat s = Some i" "pat \<noteq> []"
  shows "length s - (i + length pat) < length s"
proof -
  have "i + length pat \<le> length s" using find_str_split [OF assms(1)] by blast
  moreover have "0 < length pat" using assms(2) by simp
  ultimately show ?thesis by linarith
qed

function split_row :: "string \<Rightarrow> string \<Rightarrow> string list" where
  "split_row row s_sep =
     (if s_sep = [] then [row]
      else case find_str s_sep row of
             None \<Rightarrow> [row]
           | Some hit \<Rightarrow> take hit row # split_row (drop (hit + length s_sep) row) s_sep)"
  by auto
termination by (relation "measure (\<lambda>(row, s_sep). length row)") (auto intro: find_str_rest)

function replace_literal :: "string \<Rightarrow> string \<Rightarrow> string \<Rightarrow> bool \<Rightarrow> string" where
  "replace_literal s pat repl every =
     (if pat = [] then s
      else case find_str pat s of
             None \<Rightarrow> s
           | Some hit \<Rightarrow>
               take hit s @ repl
                 @ (if every then replace_literal (drop (hit + length pat) s) pat repl every
                    else drop (hit + length pat) s))"
  by auto
termination by (relation "measure (\<lambda>(s, pat, repl, every). length s)") (auto intro: find_str_rest)

function count_literal :: "string \<Rightarrow> string \<Rightarrow> nat" where
  "count_literal s pat =
     (if pat = [] then length s + 1
      else case find_str pat s of
             None \<Rightarrow> 0
           | Some hit \<Rightarrow> Suc (count_literal (drop (hit + length pat) s) pat))"
  by auto
termination by (relation "measure (\<lambda>(s, pat). length s)") (auto intro: find_str_rest)

declare split_row.simps [simp del] replace_literal.simps [simp del] count_literal.simps [simp del]

fun join_parts :: "string \<Rightarrow> string list \<Rightarrow> string" where
  "join_parts sep [] = []"
| "join_parts sep [p] = p"
| "join_parts sep (p # q # ps) = p @ sep @ join_parts sep (q # ps)"

lemma split_row_not_nil: "split_row row sep \<noteq> []"
  by (simp add: split_row.simps [of row] split: option.splits)

lemma join_cons: "ps \<noteq> [] \<Longrightarrow> join_parts sep (p # ps) = p @ sep @ join_parts sep ps"
  by (cases ps) simp_all

lemma join_split: "join_parts sep (split_row row sep) = row"
proof (induction row sep rule: split_row.induct)
  case (1 row sep)
  then show ?case using find_str_split [of sep row]
    by (auto simp: split_row.simps [of row sep] join_cons split_row_not_nil split: option.splits)
qed

lemma split_parts_free: "sep \<noteq> [] \<Longrightarrow> p \<in> set (split_row row sep) \<Longrightarrow> \<not> sublist sep p"
proof (induction row sep rule: split_row.induct)
  case (1 row sep)
  then show ?case using find_str_before [of sep row]
    by (auto simp: split_row.simps [of row sep] find_str_None [symmetric] split: option.splits if_splits)
qed

lemma replace_all_join: "pat \<noteq> [] \<Longrightarrow> replace_literal s pat repl True = join_parts repl (split_row s pat)"
proof (induction s pat rule: split_row.induct)
  case (1 s pat)
  then show ?case
    by (auto simp: split_row.simps [of s pat] replace_literal.simps [of s pat] join_cons split_row_not_nil split: option.splits)
qed

lemma count_split: "pat \<noteq> [] \<Longrightarrow> Suc (count_literal s pat) = length (split_row s pat)"
proof (induction s pat rule: split_row.induct)
  case (1 s pat)
  then show ?case by (auto simp: split_row.simps [of s pat] count_literal.simps [of s pat] split: option.splits)
qed

text \<open>
  Splitting a row at a separator and joining the parts with it gives the row back; with a separator
  that is not empty no part holds it, replacing every occurrence is joining the parts with the
  replacement, and the count of the separator is one less than the parts.
\<close>

theorem split_join_roundtrip:
  "join_parts sep (split_row row sep) = row
   \<and> (sep \<noteq> [] \<longrightarrow> (\<forall>p \<in> set (split_row row sep). \<not> sublist sep p)
        \<and> replace_literal row sep repl True = join_parts repl (split_row row sep)
        \<and> Suc (count_literal row sep) = length (split_row row sep))"
  using join_split split_parts_free replace_all_join count_split by blast

lemma split_join_roundtrip_witness:
  "split_row ''a::b::'' ''::'' = [''a'', ''b'', ''''] \<and> replace_literal ''a::b::'' ''::'' ''-'' True = ''a-b-''
   \<and> Suc (count_literal ''a::b::'' ''::'') = 3"
proof -
  have sp: "split_row ''a::b::'' ''::'' = [''a'', ''b'', '''']" by code_simp
  have "replace_literal ''a::b::'' ''::'' ''-'' True = join_parts ''-'' (split_row ''a::b::'' ''::'')
      \<and> Suc (count_literal ''a::b::'' ''::'') = length (split_row ''a::b::'' ''::'')"
    using split_join_roundtrip [of "''::''" "''a::b::''" "''-''"] by (metis list.distinct(1))
  then show ?thesis by (simp add: sp)
qed

section \<open>Slices, trimming and padding\<close>

definition slice_bytes :: "string \<Rightarrow> int \<Rightarrow> int \<Rightarrow> string" where
  "slice_bytes s start length_arg =
     (let n = int (length s);
          b1 = (if start < 0 then start + n else start);
          b2 = (if b1 < 0 then 0 else b1);
          b = (if n < b2 then n else b2);
          e1 = (if length_arg < 0 then n else b + length_arg);
          e2 = (if e1 < b then b else e1);
          e = (if n < e2 then n else e2) in
      take (nat (e - b)) (drop (nat b) s))"

definition is_ascii_ws :: "char \<Rightarrow> bool" where
  "is_ascii_ws c \<longleftrightarrow> c = CHR '' '' \<or> c = CHR 0x09 \<or> c = CHR 0x0A \<or> c = CHR 0x0D \<or> c = CHR 0x0C \<or> c = CHR 0x0B"

definition lstrip_ws :: "string \<Rightarrow> string" where "lstrip_ws s = dropWhile is_ascii_ws s"
definition rstrip_ws :: "string \<Rightarrow> string" where "rstrip_ws s = rev (dropWhile is_ascii_ws (rev s))"
definition str_strip :: "string \<Rightarrow> string" where "str_strip s = rstrip_ws (lstrip_ws s)"

definition pad :: "string \<Rightarrow> int \<Rightarrow> char \<Rightarrow> bool \<Rightarrow> string" where
  "pad s width fill left =
     (if width \<le> int (length s) then s
      else let fillstr = replicate (nat (width - int (length s))) fill in
           if left then fillstr @ s else s @ fillstr)"

definition zfill :: "string \<Rightarrow> int \<Rightarrow> string" where
  "zfill s width =
     (if width \<le> int (length s) then s
      else let zeros = replicate (nat (width - int (length s))) (CHR ''0'') in
           (case s of
              c # cs \<Rightarrow> if c = CHR ''+'' \<or> c = CHR ''-'' then c # zeros @ cs else zeros @ s
            | [] \<Rightarrow> zeros))"

text \<open>CPython's placement: an odd gap puts its extra character on the left when the width is odd.\<close>

definition str_center :: "string \<Rightarrow> int \<Rightarrow> char \<Rightarrow> string" where
  "str_center s width fill =
     (if width \<le> int (length s) then s
      else let gap = width - int (length s);
               left = gap div 2 + (if odd gap \<and> odd width then 1 else 0) in
           replicate (nat left) fill @ s @ replicate (nat (gap - left)) fill)"

definition str_remove_prefix :: "string \<Rightarrow> string \<Rightarrow> string" where
  "str_remove_prefix p s = (if p \<noteq> [] \<and> take (length p) s = p then drop (length p) s else s)"

definition str_remove_suffix :: "string \<Rightarrow> string \<Rightarrow> string" where
  "str_remove_suffix p s =
     (if p \<noteq> [] \<and> length p \<le> length s \<and> drop (length s - length p) s = p then take (length s - length p) s else s)"

definition str_repeat :: "nat \<Rightarrow> string \<Rightarrow> string" where "str_repeat n s = concat (replicate n s)"

text \<open>\<^verbatim>\<open>rfind\<close>: the last position at which the pattern stands.\<close>

definition rfind_str :: "string \<Rightarrow> string \<Rightarrow> nat option" where
  "rfind_str pat s = (if length pat \<le> length s then find (memcmp_hit s pat) (rev [0..<Suc (length s - length pat)]) else None)"

definition str_partition :: "bool \<Rightarrow> string \<Rightarrow> string \<Rightarrow> string list" where
  "str_partition right s_sep row =
     (case (if right then rfind_str s_sep row else find_str s_sep row) of
        None \<Rightarrow> [if right then [] else row, [], if right then row else []]
      | Some hit \<Rightarrow> [take hit row, s_sep, drop (hit + length s_sep) row])"

lemma slice_bytes_sublist: "sublist (slice_bytes s start n) s"
  unfolding slice_bytes_def Let_def by (rule sublist_order.order.trans [OF sublist_take sublist_drop])

lemma slice_bytes_at:
  "0 \<le> start \<Longrightarrow> 0 \<le> n \<Longrightarrow> slice_bytes s start n = take (nat n) (drop (nat start) s)"
  by (auto simp: slice_bytes_def Let_def nat_diff_distrib nat_add_distrib min_def intro: take_equalityI)

lemma str_strip_ends: "str_strip s \<noteq> [] \<Longrightarrow> \<not> is_ascii_ws (hd (str_strip s)) \<and> \<not> is_ascii_ws (List.last (str_strip s))"
proof -
  assume ne: "str_strip s \<noteq> []"
  define t where "t = lstrip_ws s"
  have t: "t = [] \<or> \<not> is_ascii_ws (hd t)" unfolding t_def lstrip_ws_def using hd_dropWhile by blast
  have strip: "str_strip s = rstrip_ws t" by (simp add: str_strip_def t_def)
  have last: "\<not> is_ascii_ws (List.last (rstrip_ws t))"
    using ne hd_dropWhile [of is_ascii_ws "rev t"] unfolding strip rstrip_ws_def by (simp add: last_rev)
  obtain ws where "t = rstrip_ws t @ ws" unfolding rstrip_ws_def by (metis rev_append rev_rev_ident takeWhile_dropWhile_id)
  then have "hd t = hd (rstrip_ws t)" "t \<noteq> []" using ne unfolding strip by (metis hd_append2, metis Nil_is_append_conv)
  with t last show ?thesis unfolding strip by simp
qed

lemma fills_length:
  "int (length (pad s w f l)) = max w (int (length s))"
  "int (length (zfill s w)) = max w (int (length s))"
  "int (length (str_center s w f)) = max w (int (length s))"
  by (auto simp: pad_def zfill_def str_center_def Let_def max_def split: list.splits)

lemma partition_concat: "concat (str_partition right sep row) = row"
proof -
  have "find P is = Some i \<Longrightarrow> P i" for P :: "nat \<Rightarrow> bool" and "is" i by (auto simp: find_Some_iff)
  then have "rfind_str sep row = Some i \<Longrightarrow> memcmp_hit row sep i" for i by (auto simp: rfind_str_def split: if_splits)
  then have "rfind_str sep row = Some i \<Longrightarrow> row = take i row @ sep @ drop (i + length sep) row" for i
    unfolding memcmp_hit_def by (metis append_take_drop_id drop_drop add.commute)
  then show ?thesis using find_str_split [of sep row]
    by (cases right) (auto simp: str_partition_def split: option.splits)
qed

section \<open>ASCII case and character classes\<close>

definition ascii_lower :: "char \<Rightarrow> bool" where "ascii_lower c \<longleftrightarrow> 97 \<le> code_of c \<and> code_of c \<le> 122"
definition ascii_upper :: "char \<Rightarrow> bool" where "ascii_upper c \<longleftrightarrow> 65 \<le> code_of c \<and> code_of c \<le> 90"
definition ascii_alpha :: "char \<Rightarrow> bool" where "ascii_alpha c \<longleftrightarrow> ascii_lower c \<or> ascii_upper c"
definition ascii_digit :: "char \<Rightarrow> bool" where "ascii_digit c \<longleftrightarrow> 48 \<le> code_of c \<and> code_of c \<le> 57"

definition up :: "char \<Rightarrow> char" where "up c = char_of (code_of c - 32)"
definition down :: "char \<Rightarrow> char" where "down c = char_of (code_of c + 32)"

text \<open>The fold adds \<open>add\<close> in eight bits to the bytes between \<open>lo\<close> and \<open>hi\<close>.\<close>

definition ascii_fold :: "nat \<Rightarrow> nat \<Rightarrow> int \<Rightarrow> string \<Rightarrow> string" where
  "ascii_fold lo hi add s =
     map (\<lambda>c. if lo \<le> code_of c \<and> code_of c \<le> hi then char_of (nat ((int (code_of c) + add) mod 256)) else c) s"

definition to_lowercase :: "string \<Rightarrow> string" where "to_lowercase s = ascii_fold 65 90 32 s"
definition to_uppercase :: "string \<Rightarrow> string" where "to_uppercase s = ascii_fold 97 122 (-32) s"

fun capitalize :: "string \<Rightarrow> string" where
  "capitalize [] = []"
| "capitalize (c # cs) =
     (if ascii_lower c then up c else c) # map (\<lambda>c. if ascii_upper c then down c else c) cs"

fun title_loop :: "bool \<Rightarrow> string \<Rightarrow> string" where
  "title_loop start [] = []"
| "title_loop start (c # cs) =
     (if ascii_alpha c then
        (if start \<and> ascii_lower c then up c else if \<not> start \<and> ascii_upper c then down c else c) # title_loop False cs
      else c # title_loop True cs)"

definition title :: "string \<Rightarrow> string" where "title s = title_loop True s"

definition swapcase :: "string \<Rightarrow> string" where
  "swapcase s = map (\<lambda>c. if ascii_lower c then up c else if ascii_upper c then down c else c) s"

fun is_title_loop :: "bool \<Rightarrow> bool \<Rightarrow> string \<Rightarrow> bool" where
  "is_title_loop prev_cased cased [] = cased"
| "is_title_loop prev_cased cased (c # cs) =
     (if ascii_upper c then (if prev_cased then False else is_title_loop True True cs)
      else if ascii_lower c then (if \<not> prev_cased then False else is_title_loop True True cs)
      else is_title_loop False cased cs)"

definition is_title :: "string \<Rightarrow> bool" where "is_title s = is_title_loop False False s"

datatype str_class = ALNUM | ALPHA | DIGIT | DECIMAL | NUMERIC | SPACE | LOWER | UPPER | TITLE

definition all_of_nonempty :: "string \<Rightarrow> (char \<Rightarrow> bool) \<Rightarrow> bool" where
  "all_of_nonempty s pred \<longleftrightarrow> s \<noteq> [] \<and> list_all pred s"

fun str_is :: "str_class \<Rightarrow> string \<Rightarrow> bool" where
  "str_is ALNUM s = all_of_nonempty s (\<lambda>c. ascii_alpha c \<or> ascii_digit c)"
| "str_is ALPHA s = all_of_nonempty s ascii_alpha"
| "str_is DIGIT s = all_of_nonempty s ascii_digit"
| "str_is DECIMAL s = all_of_nonempty s ascii_digit"
| "str_is NUMERIC s = all_of_nonempty s ascii_digit"
| "str_is SPACE s = all_of_nonempty s is_ascii_ws"
| "str_is LOWER s = (\<not> list_ex ascii_upper s \<and> list_ex ascii_lower s)"
| "str_is UPPER s = (\<not> list_ex ascii_lower s \<and> list_ex ascii_upper s)"
| "str_is TITLE s = is_title s"

definition count_char_starts :: "string \<Rightarrow> nat" where
  "count_char_starts s = length (filter (\<lambda>c. \<not> (128 \<le> code_of c \<and> code_of c < 192)) s)"

lemma code_char: "n < 256 \<Longrightarrow> code_of (char_of n) = n"
  by (simp add: code_of_def)

lemma code_up: "ascii_lower c \<Longrightarrow> code_of (up c) = code_of c - 32"
  by (auto simp: up_def ascii_lower_def intro!: code_char)

lemma code_down: "ascii_upper c \<Longrightarrow> code_of (down c) = code_of c + 32"
  by (auto simp: down_def ascii_upper_def intro!: code_char)

lemma up_down [simp]: "ascii_upper c \<Longrightarrow> up (down c) = c" "ascii_lower c \<Longrightarrow> down (up c) = c"
  using code_up [of c] code_down [of c]
  by (simp_all add: up_def [of "down c"] down_def [of "up c"] ascii_lower_def) (simp_all add: code_of_def)

lemma flipped_case [simp]:
  "ascii_lower c \<Longrightarrow> ascii_upper (up c)" "ascii_upper c \<Longrightarrow> ascii_lower (down c)"
  "ascii_lower c \<Longrightarrow> \<not> ascii_lower (up c)" "ascii_upper c \<Longrightarrow> \<not> ascii_upper (down c)"
  "ascii_lower c \<Longrightarrow> \<not> ascii_upper c"
  using code_up code_down by (auto simp: ascii_lower_def ascii_upper_def)

lemma swapcase_swapcase: "swapcase (swapcase s) = s"
  by (auto simp: swapcase_def intro!: map_idI)

lemma title_loop_is_title:
  "is_title_loop (\<not> start) cased (title_loop start s) \<longleftrightarrow> cased \<or> list_ex ascii_alpha s"
proof (induction s arbitrary: start cased)
  case (Cons c cs)
  then show ?case using Cons.IH [of False True] Cons.IH [of True cased]
    by (auto simp: ascii_alpha_def)
qed simp

lemma to_uppercase_upper: "str_is UPPER (to_uppercase s) \<longleftrightarrow> list_ex ascii_alpha s"
proof -
  let ?f = "\<lambda>c. if 97 \<le> code_of c \<and> code_of c \<le> 122 then char_of (nat ((int (code_of c) + - 32) mod 256)) else c"
  have f: "?f c = (if ascii_lower c then up c else c)" for c
    by (auto simp: ascii_lower_def up_def nat_diff_distrib)
  have "\<not> list_ex ascii_lower (to_uppercase s)" unfolding to_uppercase_def ascii_fold_def f
    by (auto simp: list_ex_iff)
  moreover have "list_ex ascii_upper (to_uppercase s) \<longleftrightarrow> list_ex ascii_alpha s"
    unfolding to_uppercase_def ascii_fold_def f by (induction s) (auto simp: ascii_alpha_def)
  ultimately show ?thesis by simp
qed

text \<open>
  The case forms and the class tests agree: \<^verbatim>\<open>title\<close> yields a row that \<^verbatim>\<open>is_title\<close> accepts exactly when
  the row has a letter, \<^verbatim>\<open>to_uppercase\<close> yields a row of the class \<^verbatim>\<open>UPPER\<close> exactly when it has one, and
  \<^verbatim>\<open>swapcase\<close> undoes itself.
\<close>

theorem case_forms_classified:
  "str_is TITLE (title s) = list_ex ascii_alpha s
   \<and> str_is UPPER (to_uppercase s) = list_ex ascii_alpha s
   \<and> swapcase (swapcase s) = s"
  using title_loop_is_title [of True False s] to_uppercase_upper swapcase_swapcase
  by (simp add: title_def is_title_def)

section \<open>Columns of strings\<close>

text \<open>
  A flat string column: \<open>int32\<close> offsets, one more than the rows, and the bytes of all rows; a bit per row
  says whether it is valid. \<open>make_string\<close> adds up the offsets in 32 bits, as the code does.
\<close>

record str_series =
  str_offsets :: "int list"
  str_data :: string
  str_valid :: "bool list"

definition wrap32 :: "int \<Rightarrow> int" where "wrap32 i = (i + 2 ^ 31) mod 2 ^ 32 - 2 ^ 31"

fun part_offsets :: "int \<Rightarrow> string list \<Rightarrow> int list" where
  "part_offsets pos [] = [pos]"
| "part_offsets pos (p # ps) = pos # part_offsets (wrap32 (pos + int (length p))) ps"

definition make_string :: "bool list \<Rightarrow> string list \<Rightarrow> str_series" where
  "make_string valid parts = \<lparr>str_offsets = part_offsets 0 parts, str_data = concat parts, str_valid = valid\<rparr>"

definition value_at :: "str_series \<Rightarrow> nat \<Rightarrow> string" where
  "value_at v i = take (nat (str_offsets v ! Suc i - str_offsets v ! i)) (drop (nat (str_offsets v ! i)) (str_data v))"

definition str_rows :: "str_series \<Rightarrow> string option list" where
  "str_rows v = map (\<lambda>i. if str_valid v ! i then Some (value_at v i) else None) [0..<length (str_valid v)]"

definition transform_parts :: "(string \<Rightarrow> string) \<Rightarrow> str_series \<Rightarrow> string list" where
  "transform_parts fn v = map (\<lambda>i. if str_valid v ! i then fn (value_at v i) else []) [0..<length (str_valid v)]"

definition string_transform :: "(string \<Rightarrow> string) \<Rightarrow> str_series \<Rightarrow> str_series" where
  "string_transform fn v = make_string (str_valid v) (transform_parts fn v)"

definition int_transform :: "(string \<Rightarrow> int) \<Rightarrow> str_series \<Rightarrow> int list" where
  "int_transform fn v = map (\<lambda>i. if str_valid v ! i then fn (value_at v i) else 0) [0..<length (str_valid v)]"

text \<open>The predicate also runs on the bytes of a null row; its bit is hidden by the shared validity.\<close>

definition string_predicate :: "(string \<Rightarrow> bool) \<Rightarrow> str_series \<Rightarrow> bool list \<times> bool list" where
  "string_predicate pred v = (map (\<lambda>i. pred (value_at v i)) [0..<length (str_valid v)], str_valid v)"

definition str_cat :: "str_series \<Rightarrow> str_series \<Rightarrow> str_series option" where
  "str_cat a b =
     (if length (str_valid a) \<noteq> length (str_valid b) then None
      else let both = map2 (\<and>) (str_valid a) (str_valid b) in
        Some (make_string both
          (map (\<lambda>i. if both ! i then value_at a i @ value_at b i else []) [0..<length (str_valid a)])))"

lemma wrap32_id: "0 \<le> i \<Longrightarrow> i < 2 ^ 31 \<Longrightarrow> wrap32 i = i"
  by (simp add: wrap32_def)

lemma part_offsets_nth:
  "0 \<le> pos \<Longrightarrow> pos + int (length (concat parts)) < 2 ^ 31 \<Longrightarrow> i \<le> length parts
     \<Longrightarrow> part_offsets pos parts ! i = pos + int (length (concat (take i parts)))"
proof (induction parts arbitrary: pos i)
  case (Cons p ps)
  then show ?case by (cases i) (simp_all add: wrap32_id)
qed simp

lemma value_at_make_string:
  assumes "length (concat parts) < 2 ^ 31" "i < length parts"
  shows "value_at (make_string valid parts) i = parts ! i"
proof -
  have off: "part_offsets 0 parts ! j = int (length (concat (take j parts)))" if "j \<le> length parts" for j
    using part_offsets_nth [of 0 parts j] that assms(1) by simp
  have "concat parts = concat (take i parts) @ parts ! i @ concat (drop (Suc i) parts)"
    by (metis assms(2) concat.simps(2) concat_append id_take_nth_drop)
  then show ?thesis using assms(2) off
    by (simp add: value_at_def make_string_def take_Suc_conv_app_nth Suc_leI)
qed

text \<open>
  A row transform of a string column reads back row by row: a null row stays null and every other row
  is the transform of the row, as long as the bytes of all rows stay under \<open>2 ^ 31\<close>.
\<close>

theorem string_transform_rows:
  assumes "length (concat (transform_parts fn v)) < 2 ^ 31"
  shows "str_rows (string_transform fn v) = map (map_option fn) (str_rows v)"
proof -
  have "value_at (string_transform fn v) i = fn (value_at v i)" if "i < length (str_valid v)" "str_valid v ! i" for i
    using value_at_make_string [OF assms, of i] that by (simp add: string_transform_def transform_parts_def)
  then show ?thesis by (auto simp: str_rows_def) (simp_all add: string_transform_def make_string_def)
qed

lemma string_transform_rows_witness:
  "str_rows (string_transform to_uppercase (make_string [True, False, True] [''ab'', ''x'', ''c''])) = [Some ''AB'', None, Some ''C'']"
proof -
  let ?v = "make_string [True, False, True] [''ab'', ''x'', ''c'']"
  have "transform_parts to_uppercase ?v = [''AB'', '''', ''C'']" by code_simp
  then have "str_rows (string_transform to_uppercase ?v) = map (map_option to_uppercase) (str_rows ?v)"
    by (intro string_transform_rows) simp
  moreover have "map (map_option to_uppercase) (str_rows ?v) = [Some ''AB'', None, Some ''C'']" by code_simp
  ultimately show ?thesis by simp
qed

text \<open>Rows of \<open>2 ^ 31\<close> bytes together leave a negative last offset.\<close>

lemma make_string_overflow:
  assumes "length p = 2 ^ 31"
  shows "str_offsets (make_string valid [p]) = [0, - (2 ^ 31)]"
  using assms by (simp add: make_string_def wrap32_def)

end
