(* ===== verification/SeriesRows.thy ===== *)
theory SeriesRows
  imports StringOps "HOL-Library.Multiset"
begin

text \<open>
  Columns of the dataframe engine and the kernels that pick rows from them
  (\<^verbatim>\<open>dataframe/internal/column_data.h\<close>, \<^verbatim>\<open>dataframe/kernels/filter.cpp\<close>): gathering by index, zero-copy
  selections, boolean masks, materialising a view, and the row-wise choice of \<^verbatim>\<open>where\<close>.

  \<open>cell_at\<close> says what a row of a column is, whatever its layout; the kernels are shown to move cells.
\<close>

section \<open>Columns and their cells\<close>

type_synonym nulls = "bool list option"

text \<open>
  A column: fixed-width values, bits, strings (the flag says whether the offsets are 64 bits wide),
  structs, lists, and the two views over a base column. A fixed-width value is abstract. \<open>NullCol\<close> is a null
  child pointer, which a gather stores when a child cannot be gathered; no well-formed column has one.
\<close>

datatype 'a column =
    FixedCol "'a list" nulls
  | BoolCol "bool list" nulls
  | VarCol bool "int list" string nulls
  | StructCol nat "string list" "'a column list" nulls
  | ListCol bool "int list" "'a column" nulls
  | SelCol "int list" "'a column"
  | DictCol "int list" "'a column" nulls
  | NullCol

datatype 'a cell = Fix 'a | Bit bool | Str string | Rec "(string \<times> 'a cell option) list" | Lst "'a cell option list"

definition bit_valid :: "nulls \<Rightarrow> nat \<Rightarrow> bool" where
  "bit_valid v i \<longleftrightarrow> (case v of None \<Rightarrow> True | Some bm \<Rightarrow> bm ! i)"

fun col_len :: "'a column \<Rightarrow> nat" where
  "col_len (FixedCol xs v) = length xs"
| "col_len (BoolCol bs v) = length bs"
| "col_len (VarCol wide offs bytes v) = length offs - 1"
| "col_len (StructCol n names cs v) = n"
| "col_len (ListCol wide offs c v) = length offs - 1"
| "col_len (SelCol idx c) = length idx"
| "col_len (DictCol codes c v) = length codes"
| "col_len NullCol = 0"

definition slice_of :: "int list \<Rightarrow> nat \<Rightarrow> 'b list \<Rightarrow> 'b list" where
  "slice_of offs i xs = take (nat (offs ! Suc i - offs ! i)) (drop (nat (offs ! i)) xs)"

fun cell_at :: "'a column \<Rightarrow> nat \<Rightarrow> 'a cell option" where
  "cell_at (FixedCol xs v) i = (if bit_valid v i then Some (Fix (xs ! i)) else None)"
| "cell_at (BoolCol bs v) i = (if bit_valid v i then Some (Bit (bs ! i)) else None)"
| "cell_at (VarCol wide offs bytes v) i = (if bit_valid v i then Some (Str (slice_of offs i bytes)) else None)"
| "cell_at (StructCol n names cs v) i =
     (if bit_valid v i then Some (Rec (zip names (map (\<lambda>c. cell_at c i) cs))) else None)"
| "cell_at (ListCol wide offs c v) i =
     (if bit_valid v i then Some (Lst (map (cell_at c) [nat (offs ! i)..<nat (offs ! Suc i)])) else None)"
| "cell_at (SelCol idx c) i = (if idx ! i < 0 then None else cell_at c (nat (idx ! i)))"
| "cell_at (DictCol codes c v) i = (if bit_valid v i then cell_at c (nat (codes ! i)) else None)"
| "cell_at NullCol i = None"

definition cells :: "'a column \<Rightarrow> 'a cell option list" where
  "cells c = map (cell_at c) [0..<col_len c]"

lemma length_cells [simp]: "length (cells c) = col_len c" by (simp add: cells_def)

lemma nth_cells [simp]: "i < col_len c \<Longrightarrow> cells c ! i = cell_at c i" by (simp add: cells_def)

text \<open>Well-formed columns; the encoding of the views.\<close>

definition offs_ok :: "int list \<Rightarrow> nat \<Rightarrow> bool" where
  "offs_ok offs n \<longleftrightarrow> offs \<noteq> [] \<and> 0 \<le> hd offs \<and> sorted offs \<and> List.last offs \<le> int n"

definition nulls_ok :: "nulls \<Rightarrow> nat \<Rightarrow> bool" where
  "nulls_ok v n \<longleftrightarrow> (case v of None \<Rightarrow> True | Some bm \<Rightarrow> length bm = n)"

fun is_flat :: "'a column \<Rightarrow> bool" where
  "is_flat (SelCol _ _) = False" | "is_flat (DictCol _ _ _) = False" | "is_flat NullCol = False" | "is_flat _ = True"

fun col_ok :: "'a column \<Rightarrow> bool" where
  "col_ok (FixedCol xs v) = nulls_ok v (length xs)"
| "col_ok (BoolCol bs v) = nulls_ok v (length bs)"
| "col_ok (VarCol wide offs bytes v) = (offs_ok offs (length bytes) \<and> nulls_ok v (length offs - 1))"
| "col_ok (StructCol n names cs v) =
     (length names = length cs \<and> list_all (\<lambda>c. col_ok c \<and> is_flat c \<and> col_len c = n) cs \<and> nulls_ok v n)"
| "col_ok (ListCol wide offs c v) =
     (offs_ok offs (col_len c) \<and> col_ok c \<and> is_flat c \<and> nulls_ok v (length offs - 1))"
| "col_ok (SelCol idx c) = (col_ok c \<and> is_flat c \<and> list_all (\<lambda>i. i < int (col_len c)) idx)"
| "col_ok (DictCol codes c v) =
     (col_ok c \<and> is_flat c \<and> list_all (\<lambda>i. 0 \<le> i \<and> i < int (col_len c)) codes \<and> nulls_ok v (length codes))"
| "col_ok NullCol = False"

section \<open>Gathering\<close>

text \<open>\<^verbatim>\<open>scan_indices\<close>: the largest index and whether any is negative, the sentinel of a null.\<close>

definition scan_indices :: "int list \<Rightarrow> int \<times> bool" where
  "scan_indices idx = (fold max idx (-1), list_ex (\<lambda>i. i < 0) idx)"

definition gather_validity :: "nulls \<Rightarrow> int list \<Rightarrow> bool \<Rightarrow> nulls" where
  "gather_validity v idx has_null_idx =
     (if v = None \<and> \<not> has_null_idx then None
      else Some (map (\<lambda>k. 0 \<le> k \<and> (case v of None \<Rightarrow> True | Some bm \<Rightarrow> bm ! nat k)) idx))"

fun is_run :: "int list \<Rightarrow> bool" where
  "is_run [] = True"
| "is_run [i] = True"
| "is_run (i # j # is) = (j = i + 1 \<and> is_run (j # is))"

definition contiguous :: "int list \<Rightarrow> bool" where
  "contiguous idx \<longleftrightarrow> idx \<noteq> [] \<and> 0 \<le> hd idx \<and> is_run idx"

definition wrap_off :: "bool \<Rightarrow> int \<Rightarrow> int" where
  "wrap_off wide i = (if wide then (i + 2 ^ 63) mod 2 ^ 64 - 2 ^ 63 else wrap32 i)"

fun sum_offsets :: "bool \<Rightarrow> int \<Rightarrow> int list \<Rightarrow> int list" where
  "sum_offsets wide pos [] = [pos]"
| "sum_offsets wide pos (n # ns) = pos # sum_offsets wide (wrap_off wide (pos + n)) ns"

text \<open>The string gather: a run of rows is one block, any other index list is a prefix sum and a copy per row.\<close>

definition gather_varwidth :: "bool \<Rightarrow> int list \<Rightarrow> string \<Rightarrow> int list \<Rightarrow> int list \<times> string" where
  "gather_varwidth wide offs bytes idx =
     (if contiguous idx
      then let start = offs ! nat (hd idx); total_bytes = offs ! (nat (hd idx) + length idx) - start in
           (map (\<lambda>i. offs ! (nat (hd idx) + i) - start) [0..<Suc (length idx)],
            take (nat total_bytes) (drop (nat start) bytes))
      else (sum_offsets wide 0 (map (\<lambda>k. if 0 \<le> k then offs ! Suc (nat k) - offs ! nat k else 0) idx),
            concat (map (\<lambda>k. if k < 0 then [] else slice_of offs (nat k) bytes) idx)))"

definition child_rows :: "int list \<Rightarrow> int list \<Rightarrow> int list" where
  "child_rows offs idx = concat (map (\<lambda>r. if 0 \<le> r then [offs ! nat r..offs ! Suc (nat r) - 1] else []) idx)"

definition list_offsets :: "bool \<Rightarrow> int list \<Rightarrow> int list \<Rightarrow> int list" where
  "list_offsets wide offs idx =
     map (\<lambda>n. wrap_off wide (int (length (child_rows offs (take n idx))))) [0..<Suc (length idx)]"

definition gather_fixed :: "'a \<Rightarrow> 'a list \<Rightarrow> int list \<Rightarrow> 'a list" where
  "gather_fixed zero xs idx =
     (if contiguous idx \<and> List.last idx < int (length xs) then take (length idx) (drop (nat (hd idx)) xs)
      else map (\<lambda>k. if k < 0 then zero else xs ! nat k) idx)"

definition identity_rows :: "int list \<Rightarrow> nat \<Rightarrow> bool" where
  "identity_rows idx n \<longleftrightarrow> length idx = n \<and> 0 < n \<and> idx = map int [0..<n]"

text \<open>A child that cannot be gathered is stored as a null pointer.\<close>

definition child_ptr :: "'a column option \<Rightarrow> 'a column" where
  "child_ptr d = (case d of None \<Rightarrow> NullCol | Some c \<Rightarrow> c)"

fun gather_column :: "'a \<Rightarrow> 'a column \<Rightarrow> int list \<Rightarrow> 'a column option" where
  "gather_column zero (FixedCol xs v) idx =
     (if int (length xs) \<le> fst (scan_indices idx) then None
      else if identity_rows idx (length xs) then Some (FixedCol xs v)
      else Some (FixedCol (gather_fixed zero xs idx) (gather_validity v idx (snd (scan_indices idx)))))"
| "gather_column zero (BoolCol bs v) idx =
     (if int (length bs) \<le> fst (scan_indices idx) then None
      else if identity_rows idx (length bs) then Some (BoolCol bs v)
      else Some (BoolCol (map (\<lambda>k. 0 \<le> k \<and> bs ! nat k) idx) (gather_validity v idx (snd (scan_indices idx)))))"
| "gather_column zero (VarCol wide offs bytes v) idx =
     (if int (length offs - 1) \<le> fst (scan_indices idx) then None
      else if identity_rows idx (length offs - 1) then Some (VarCol wide offs bytes v)
      else let (offs', bytes') = gather_varwidth wide offs bytes idx in
           Some (VarCol wide offs' bytes' (gather_validity v idx (snd (scan_indices idx)))))"
| "gather_column zero (StructCol n names cs v) idx =
     (if int n \<le> fst (scan_indices idx) then None
      else if identity_rows idx n then Some (StructCol n names cs v)
      else Some (StructCol (length idx) names (map (\<lambda>c. child_ptr (gather_column zero c idx)) cs)
             (gather_validity v idx (snd (scan_indices idx)))))"
| "gather_column zero (ListCol wide offs c v) idx =
     (if int (length offs - 1) \<le> fst (scan_indices idx) then None
      else if identity_rows idx (length offs - 1) then Some (ListCol wide offs c v)
      else Some (ListCol wide (list_offsets wide offs idx) (child_ptr (gather_column zero c (child_rows offs idx)))
             (gather_validity v idx (snd (scan_indices idx)))))"
| "gather_column zero (SelCol idx0 c) idx = None"
| "gather_column zero (DictCol codes c v) idx = None"
| "gather_column zero NullCol idx = None"

text \<open>What keeps the offsets of a gathered column inside their type.\<close>

definition off_limit :: "bool \<Rightarrow> int" where "off_limit wide = (if wide then 2 ^ 63 else 2 ^ 31)"

fun gather_fits :: "'a column \<Rightarrow> int list \<Rightarrow> bool" where
  "gather_fits (VarCol wide offs bytes v) idx =
     (sum_list (map (\<lambda>k. if 0 \<le> k then offs ! Suc (nat k) - offs ! nat k else 0) idx) < off_limit wide)"
| "gather_fits (StructCol n names cs v) idx = list_all (\<lambda>c. gather_fits c idx) cs"
| "gather_fits (ListCol wide offs c v) idx =
     (int (length (child_rows offs idx)) < off_limit wide \<and> gather_fits c (child_rows offs idx))"
| "gather_fits _ idx = True"

lemma offs_ok_bounds:
  assumes "offs_ok offs n" "Suc i < length offs"
  shows "0 \<le> offs ! i" "offs ! i \<le> offs ! Suc i" "offs ! Suc i \<le> int n"
proof -
  have ne: "offs \<noteq> []" and s: "sorted offs" and h: "0 \<le> offs ! 0" and l: "offs ! (length offs - 1) \<le> int n"
    using assms(1) by (auto simp: offs_ok_def hd_conv_nth last_conv_nth)
  show "0 \<le> offs ! i" using h sorted_nth_mono [OF s, of 0 i] assms(2) by simp
  show "offs ! i \<le> offs ! Suc i" using sorted_nth_mono [OF s, of i "Suc i"] assms(2) by simp
  have "offs ! Suc i \<le> offs ! (length offs - 1)" using assms(2) by (intro sorted_nth_mono [OF s]) auto
  then show "offs ! Suc i \<le> int n" using l by simp
qed

lemma length_slice_of:
  "offs_ok offs (length xs) \<Longrightarrow> Suc i < length offs \<Longrightarrow> int (length (slice_of offs i xs)) = offs ! Suc i - offs ! i"
  using offs_ok_bounds [of offs "length xs" i] by (auto simp: slice_of_def min_def)

text \<open>Offsets of segments laid end to end.\<close>

definition seg_offsets :: "'b list list \<Rightarrow> int list" where
  "seg_offsets segs = map (\<lambda>n. int (length (concat (take n segs)))) [0..<Suc (length segs)]"

lemma length_seg_offsets [simp]: "length (seg_offsets segs) = Suc (length segs)" by (simp add: seg_offsets_def)

lemma seg_offsets_nth: "n \<le> length segs \<Longrightarrow> seg_offsets segs ! n = int (length (concat (take n segs)))"
  unfolding seg_offsets_def by (subst nth_map) (simp_all del: upt_Suc)

lemma concat_take_mono: "m \<le> n \<Longrightarrow> length (concat (take m segs)) \<le> length (concat (take n segs))"
  by (metis concat_append length_append le_add1 min.absorb1 take_add take_take le_add_diff_inverse)

lemma seg_offs_ok: "offs_ok (seg_offsets segs) (length (concat segs))"
proof -
  have "sorted (seg_offsets segs)"
    by (auto simp: sorted_iff_nth_mono_less seg_offsets_nth concat_take_mono)
  moreover have "hd (seg_offsets segs) = 0" "List.last (seg_offsets segs) = int (length (concat segs))"
    by (auto simp: hd_conv_nth last_conv_nth seg_offsets_nth simp flip: length_greater_0_conv)
  ultimately show ?thesis by (auto simp: offs_ok_def simp flip: length_greater_0_conv)
qed

lemma seg_slice:
  assumes "i < length segs"
  shows "slice_of (seg_offsets segs) i (concat segs) = segs ! i"
proof -
  have "concat segs = concat (take i segs) @ segs ! i @ concat (drop (Suc i) segs)"
    by (metis assms concat.simps(2) concat_append id_take_nth_drop)
  then show ?thesis using assms by (simp add: slice_of_def seg_offsets_nth take_Suc_conv_app_nth Suc_leI)
qed

lemma wrap_off_id: "0 \<le> i \<Longrightarrow> i < off_limit wide \<Longrightarrow> wrap_off wide i = i"
  by (simp add: wrap_off_def off_limit_def wrap32_id split: if_splits)

lemma sum_offsets_from:
  "0 \<le> pos \<Longrightarrow> pos + int (length (concat segs)) < off_limit wide
     \<Longrightarrow> sum_offsets wide pos (map (\<lambda>s. int (length s)) segs) = map (\<lambda>q. pos + q) (seg_offsets segs)"
proof (induction segs arbitrary: pos)
  case Nil
  then show ?case by (simp add: seg_offsets_def)
next
  case (Cons s segs)
  have "seg_offsets (s # segs) = 0 # map (\<lambda>q. int (length s) + q) (seg_offsets segs)"
    by (simp add: seg_offsets_def upt_conv_Cons map_Suc_upt [symmetric] comp_def del: upt_Suc)
  then show ?case using Cons by (simp add: wrap_off_id comp_def add.assoc)
qed

lemma sum_offsets_seg:
  "int (length (concat segs)) < off_limit wide \<Longrightarrow> sum_offsets wide 0 (map (\<lambda>s. int (length s)) segs) = seg_offsets segs"
  using sum_offsets_from [of 0 segs wide] by simp

lemma scan_top: "fst (scan_indices idx) < int n \<longleftrightarrow> list_all (\<lambda>i. i < int n) idx"
proof -
  have "fold max idx a < int n \<longleftrightarrow> a < int n \<and> list_all (\<lambda>i. i < int n) idx" for a
    by (induction idx arbitrary: a) auto
  then show ?thesis by (simp add: scan_indices_def)
qed

lemma gather_validity_bit:
  "i < length idx \<Longrightarrow> bit_valid (gather_validity v idx (snd (scan_indices idx))) i \<longleftrightarrow> 0 \<le> idx ! i \<and> bit_valid v (nat (idx ! i))"
  by (cases v) (auto simp: gather_validity_def bit_valid_def scan_indices_def list_ex_iff not_less)

lemma gather_validity_ok: "n = length idx \<Longrightarrow> nulls_ok (gather_validity v idx b) n"
  by (simp add: gather_validity_def nulls_ok_def)

lemma is_run_nth: "is_run idx \<Longrightarrow> i < length idx \<Longrightarrow> idx ! i = hd idx + int i"
proof (induction idx arbitrary: i rule: is_run.induct)
  case (3 a b ns)
  then show ?case by (cases i) (auto simp: add.assoc)
qed simp_all

lemma contiguous_nth: "contiguous idx \<Longrightarrow> i < length idx \<Longrightarrow> idx ! i = hd idx + int i"
  by (simp add: contiguous_def is_run_nth)

lemma contiguous_nat: "contiguous idx \<Longrightarrow> i < length idx \<Longrightarrow> nat (idx ! i) = nat (hd idx) + i \<and> 0 \<le> idx ! i"
  using contiguous_nth [of idx i] by (simp add: contiguous_def nat_add_distrib)

lemma contiguous_end:
  assumes "contiguous idx" "list_all (\<lambda>i. i < int n) idx"
  shows "nat (hd idx) + length idx \<le> n"
proof -
  have ne: "idx \<noteq> []" and h: "0 \<le> hd idx" using assms(1) by (simp_all add: contiguous_def)
  then have "idx ! (length idx - 1) < int n" "length idx - 1 < length idx" using assms(2) by (simp_all add: list_all_length)
  then have "hd idx + int (length idx - 1) < int n" using contiguous_nth [OF assms(1)] by metis
  moreover have "int (length idx - 1) = int (length idx) - 1" using ne by (cases idx) simp_all
  ultimately show ?thesis using h by linarith
qed

lemma gather_fixed_nth:
  assumes "i < length idx" "list_all (\<lambda>i. i < int (length xs)) idx" "0 \<le> idx ! i"
  shows "gather_fixed zero xs idx ! i = xs ! nat (idx ! i)"
proof (cases "contiguous idx")
  case True
  then show ?thesis using assms contiguous_nat [OF True, of i] contiguous_end [OF True assms(2)]
    by (simp add: gather_fixed_def)
qed (use assms in \<open>simp add: gather_fixed_def\<close>)

lemma length_gather_fixed:
  assumes "list_all (\<lambda>i. i < int (length xs)) idx"
  shows "length (gather_fixed zero xs idx) = length idx"
  using contiguous_end [OF _ assms] by (auto simp: gather_fixed_def)

definition var_segs :: "int list \<Rightarrow> string \<Rightarrow> int list \<Rightarrow> string list" where
  "var_segs offs bytes idx = map (\<lambda>k. if k < 0 then [] else slice_of offs (nat k) bytes) idx"

lemma var_segs_length:
  assumes "offs_ok offs (length bytes)" "list_all (\<lambda>i. i < int (length offs - 1)) idx"
  shows "map (\<lambda>s. int (length s)) (var_segs offs bytes idx)
       = map (\<lambda>k. if 0 \<le> k then offs ! Suc (nat k) - offs ! nat k else 0) idx"
proof -
  have "int (length (slice_of offs (nat k) bytes)) = offs ! Suc (nat k) - offs ! nat k" if "k \<in> set idx" "0 \<le> k" for k
  proof (rule length_slice_of [OF assms(1)])
    have "k < int (length offs - 1)" using assms(2) that by (simp add: list_all_iff)
    then show "Suc (nat k) < length offs" using that by linarith
  qed
  then show ?thesis by (auto simp: var_segs_def)
qed

lemma length_concat_int: "int (length (concat segs)) = sum_list (map (\<lambda>s. int (length s)) segs)"
  by (induction segs) simp_all

text \<open>The string gather moves the slices.\<close>

lemma gather_varwidth_run:
  assumes ok: "offs_ok offs (length bytes)" and top: "list_all (\<lambda>i. i < int (length offs - 1)) idx" and run: "contiguous idx"
    and g: "gather_varwidth wide offs bytes idx = (offs', bytes')"
  shows "offs_ok offs' (length bytes') \<and> length offs' = Suc (length idx)
       \<and> (\<forall>i < length idx. slice_of offs' i bytes' = slice_of offs (nat (idx ! i)) bytes)"
proof -
  define h where "h = nat (hd idx)"
  define n where "n = length idx"
  have n: "0 < n" using run by (simp add: n_def contiguous_def)
  moreover have "h + n \<le> length offs - 1" using contiguous_end [OF run top] by (simp add: h_def n_def)
  ultimately have hn: "h + n < length offs" by linarith
  have s: "sorted offs" using ok by (simp add: offs_ok_def)
  have mono: "offs ! (h + i) \<le> offs ! (h + j)" if "i \<le> j" "j \<le> n" for i j
    using sorted_nth_mono [OF s] that hn by simp
  have lo: "0 \<le> offs ! h" and hi: "offs ! (h + n) \<le> int (length bytes)"
    using offs_ok_bounds(1) [OF ok, of h] offs_ok_bounds(3) [OF ok, of "h + n - 1"] n hn by simp_all
  have offs': "offs' = map (\<lambda>i. offs ! (h + i) - offs ! h) [0..<Suc n]"
    and bytes': "bytes' = take (nat (offs ! (h + n) - offs ! h)) (drop (nat (offs ! h)) bytes)"
    using g run by (auto simp: gather_varwidth_def Let_def h_def n_def)
  have nth: "offs' ! i = offs ! (h + i) - offs ! h" if "i \<le> n" for i
    unfolding offs' using that by (subst nth_map) (simp_all del: upt_Suc)
  have len: "length offs' = Suc n" by (simp add: offs' del: upt_Suc)
  have "sorted offs'" using mono by (auto simp: sorted_iff_nth_mono_less len nth)
  moreover have "hd offs' = 0" "List.last offs' = offs ! (h + n) - offs ! h"
    using nth [of 0] nth [of n] len by (simp_all add: hd_conv_nth last_conv_nth flip: length_greater_0_conv)
  moreover have "int (length bytes') = offs ! (h + n) - offs ! h"
  proof -
    have up: "offs ! h \<le> offs ! (h + n)" using mono [of 0 n] by simp
    then have "nat (offs ! (h + n) - offs ! h) \<le> length bytes - nat (offs ! h)" using lo hi by linarith
    then show ?thesis using up by (simp add: bytes' min.absorb2)
  qed
  ultimately have "offs_ok offs' (length bytes')" using len by (auto simp: offs_ok_def)
  moreover have "slice_of offs' i bytes' = slice_of offs (nat (idx ! i)) bytes" if "i < n" for i
  proof -
    have "nat (idx ! i) = h + i" using contiguous_nat [OF run] that by (simp add: h_def n_def)
    moreover have "nat (offs ! (h + i) - offs ! h) + nat (offs ! h) = nat (offs ! (h + i))"
      using lo mono [of 0 i] that by simp
    moreover have "nat (offs ! (h + n) - offs ! h) - nat (offs ! (h + i) - offs ! h) = nat (offs ! (h + n) - offs ! (h + i))"
      using mono [of 0 i] mono [of i n] that by simp
    moreover have "nat (offs ! (h + Suc i) - offs ! (h + i)) \<le> nat (offs ! (h + n) - offs ! (h + i))"
      using mono [of "Suc i" n] that by simp
    ultimately show ?thesis using that
      by (simp add: slice_of_def nth bytes' take_drop [symmetric] drop_take add.commute min_def)
  qed
  ultimately show ?thesis using len by (simp add: n_def)
qed

lemma gather_varwidth_slices:
  assumes ok: "offs_ok offs (length bytes)" and top: "list_all (\<lambda>i. i < int (length offs - 1)) idx"
    and fits: "gather_fits (VarCol wide offs bytes v) idx"
    and g: "gather_varwidth wide offs bytes idx = (offs', bytes')"
  shows "offs_ok offs' (length bytes') \<and> length offs' = Suc (length idx)
       \<and> (\<forall>i < length idx. 0 \<le> idx ! i \<longrightarrow> slice_of offs' i bytes' = slice_of offs (nat (idx ! i)) bytes)"
proof (cases "contiguous idx")
  case True
  then show ?thesis using gather_varwidth_run [OF ok top _ g] by blast
next
  case False
  define segs where "segs = var_segs offs bytes idx"
  have lens: "map (\<lambda>s. int (length s)) segs = map (\<lambda>k. if 0 \<le> k then offs ! Suc (nat k) - offs ! nat k else 0) idx"
    unfolding segs_def by (rule var_segs_length [OF ok top])
  have "int (length (concat segs)) < off_limit wide" using fits by (simp add: length_concat_int lens)
  then have "offs' = seg_offsets segs" "bytes' = concat segs"
    using g False by (auto simp: gather_varwidth_def lens [symmetric] sum_offsets_seg) (simp add: segs_def var_segs_def)
  moreover have "length segs = length idx" by (simp add: segs_def var_segs_def)
  moreover have "segs ! i = slice_of offs (nat (idx ! i)) bytes" if "i < length idx" "0 \<le> idx ! i" for i
    using that by (simp add: segs_def var_segs_def)
  ultimately show ?thesis using seg_offs_ok [of segs] seg_slice [of _ segs] by auto
qed

text \<open>The rows of the child that a list gather takes, row by row.\<close>

definition list_segs :: "int list \<Rightarrow> int list \<Rightarrow> int list list" where
  "list_segs offs idx = map (\<lambda>r. if 0 \<le> r then [offs ! nat r..offs ! Suc (nat r) - 1] else []) idx"

lemma child_rows_segs: "child_rows offs idx = concat (list_segs offs idx)"
  by (simp add: child_rows_def list_segs_def)

lemma list_offsets_segs:
  assumes "int (length (child_rows offs idx)) < off_limit wide"
  shows "list_offsets wide offs idx = seg_offsets (list_segs offs idx)"
proof -
  have "wrap_off wide (int (length (child_rows offs (take n idx)))) = int (length (concat (take n (list_segs offs idx))))"
    if "n \<le> length idx" for n
  proof -
    have "child_rows offs (take n idx) = concat (take n (list_segs offs idx))"
      by (simp add: child_rows_segs list_segs_def take_map)
    moreover have "length (concat (take n (list_segs offs idx))) \<le> length (child_rows offs idx)"
      using concat_take_mono [of n "max n (length (list_segs offs idx))" "list_segs offs idx"]
      by (simp add: child_rows_segs)
    ultimately show ?thesis using assms by (simp add: wrap_off_id)
  qed
  then show ?thesis by (auto simp: list_offsets_def seg_offsets_def list_segs_def simp del: upt_Suc)
qed

lemma child_rows_in:
  assumes "offs_ok offs n" "list_all (\<lambda>i. i < int (length offs - 1)) idx"
  shows "list_all (\<lambda>i. 0 \<le> i \<and> i < int n) (child_rows offs idx)"
proof -
  have "0 \<le> j \<and> j < int n" if "r \<in> set idx" "0 \<le> r" "offs ! nat r \<le> j" "j \<le> offs ! Suc (nat r) - 1" for r j
  proof -
    have "r < int (length offs - 1)" using assms(2) that(1) by (simp add: list_all_iff)
    then have "Suc (nat r) < length offs" using that(2) by linarith
    then show ?thesis using offs_ok_bounds [OF assms(1)] that(3,4) by fastforce
  qed
  then show ?thesis by (auto simp: child_rows_def list_all_iff split: if_splits)
qed

lemma child_ptr_all:
  "(\<And>c. c \<in> set cs \<Longrightarrow> \<exists>d. f c = Some d \<and> P c d) \<Longrightarrow> list_all2 P cs (map (\<lambda>c. child_ptr (f c)) cs)"
  by (induction cs) (force simp: child_ptr_def)+

lemma map_nth_range: "b \<le> length xs \<Longrightarrow> map ((!) xs) [a..<b] = take (b - a) (drop a xs)"
  by (intro nth_equalityI) simp_all

lemma map_nat_upto: "0 \<le> x \<Longrightarrow> map nat [x..y - 1] = [nat x..<nat y]"
  by (intro nth_equalityI) (auto simp: nat_diff_distrib nat_add_distrib)

lemma list_seg_cells:
  assumes i: "i < length idx" "0 \<le> idx ! i" and lo: "0 \<le> offs ! nat (idx ! i)"
    and d: "\<And>p. p < length (child_rows offs idx) \<Longrightarrow> cell_at d p = cell_at c (nat (child_rows offs idx ! p))"
  shows "map (cell_at d) [nat (seg_offsets (list_segs offs idx) ! i)..<nat (seg_offsets (list_segs offs idx) ! Suc i)]
       = map (cell_at c) [nat (offs ! nat (idx ! i))..<nat (offs ! Suc (nat (idx ! i)))]"
proof -
  let ?segs = "list_segs offs idx" and ?rows = "child_rows offs idx"
  define a b where "a = nat (seg_offsets ?segs ! i)" and "b = nat (seg_offsets ?segs ! Suc i)"
  have len: "length ?segs = length idx" by (simp add: list_segs_def)
  have bounds: "0 \<le> seg_offsets ?segs ! i" "seg_offsets ?segs ! Suc i \<le> int (length ?rows)"
      "seg_offsets ?segs ! i \<le> seg_offsets ?segs ! Suc i"
    using offs_ok_bounds [OF seg_offs_ok [of ?segs], of i] i(1) len by (simp_all add: child_rows_segs)
  have "map (cell_at d) [a..<b] = map (\<lambda>p. cell_at c (nat (?rows ! p))) [a..<b]"
    using bounds d by (auto simp: a_def b_def)
  also have "\<dots> = map (\<lambda>j. cell_at c (nat j)) (map ((!) ?rows) [a..<b])" by simp
  also have "map ((!) ?rows) [a..<b] = slice_of (seg_offsets ?segs) i ?rows"
    using bounds by (simp add: map_nth_range slice_of_def a_def b_def nat_diff_distrib')
  also have "\<dots> = [offs ! nat (idx ! i)..offs ! Suc (nat (idx ! i)) - 1]"
    using seg_slice [of i ?segs] i len by (simp add: child_rows_segs) (simp add: list_segs_def)
  also have "map (\<lambda>j. cell_at c (nat j)) \<dots> = map (cell_at c) (map nat \<dots>)" by simp
  finally show ?thesis unfolding a_def b_def map_nat_upto [OF lo] .
qed

definition gathers :: "'a column \<Rightarrow> int list \<Rightarrow> 'a column \<Rightarrow> bool" where
  "gathers c idx d \<longleftrightarrow> col_ok d \<and> is_flat d \<and> col_len d = length idx
     \<and> (\<forall>i < length idx. cell_at d i = (if idx ! i < 0 then None else cell_at c (nat (idx ! i))))"

lemma gathers_identity: "col_ok c \<Longrightarrow> is_flat c \<Longrightarrow> identity_rows idx (col_len c) \<Longrightarrow> gathers c idx c"
  by (auto simp: gathers_def identity_rows_def)

lemma gather_column_gathers:
  "col_ok c \<Longrightarrow> is_flat c \<Longrightarrow> list_all (\<lambda>i. i < int (col_len c)) idx \<Longrightarrow> gather_fits c idx
     \<Longrightarrow> \<exists>d. gather_column zero c idx = Some d \<and> gathers c idx d"
proof (induction zero c idx rule: gather_column.induct)
  case (1 zero xs v idx)
  have "\<not> int (length xs) \<le> fst (scan_indices idx)" using scan_top [of idx "length xs"] 1 by simp
  moreover have "gathers (FixedCol xs v) idx
      (FixedCol (gather_fixed zero xs idx) (gather_validity v idx (snd (scan_indices idx))))"
    using 1 by (auto simp: gathers_def length_gather_fixed gather_validity_ok gather_validity_bit gather_fixed_nth)
  ultimately show ?case using 1 gathers_identity [of "FixedCol xs v" idx] by auto
next
  case (2 zero bs v idx)
  have "\<not> int (length bs) \<le> fst (scan_indices idx)" using scan_top [of idx "length bs"] 2 by simp
  moreover have "gathers (BoolCol bs v) idx
      (BoolCol (map (\<lambda>k. 0 \<le> k \<and> bs ! nat k) idx) (gather_validity v idx (snd (scan_indices idx))))"
    using 2 by (auto simp: gathers_def gather_validity_ok gather_validity_bit)
  ultimately show ?case using 2 gathers_identity [of "BoolCol bs v" idx] by auto
next
  case (3 zero wide offs bytes v idx)
  have top: "\<not> int (length offs - 1) \<le> fst (scan_indices idx)" using scan_top [of idx "length offs - 1"] 3 by simp
  obtain offs' bytes' where g: "gather_varwidth wide offs bytes idx = (offs', bytes')" by fastforce
  have "gathers (VarCol wide offs bytes v) idx (VarCol wide offs' bytes' (gather_validity v idx (snd (scan_indices idx))))"
    using gather_varwidth_slices [OF _ _ 3(4) g] 3
    by (auto simp: gathers_def gather_validity_ok gather_validity_bit)
  then show ?case using 3 top g gathers_identity [of "VarCol wide offs bytes v" idx] by auto
next
  case (4 zero n names cs v idx)
  have top: "\<not> int n \<le> fst (scan_indices idx)" using scan_top [of idx n] 4 by simp
  show ?case
  proof (cases "identity_rows idx n")
    case True
    then show ?thesis using 4 top gathers_identity [of "StructCol n names cs v" idx] by auto
  next
    case False
    define ds where "ds = map (\<lambda>c. child_ptr (gather_column zero c idx)) cs"
    have ds: "list_all2 (\<lambda>c d. gathers c idx d) cs ds"
      unfolding ds_def using 4 top False by (intro child_ptr_all "4.IH") (auto simp: list_all_iff)
    have cell: "map (\<lambda>d. cell_at d i) ds = map (\<lambda>c. cell_at c (nat (idx ! i))) cs" if "i < length idx" "0 \<le> idx ! i" for i
      using ds that by (auto simp: list_all2_conv_all_nth gathers_def list_eq_iff_nth_eq)
    have "list_all (\<lambda>d. col_ok d \<and> is_flat d \<and> col_len d = length idx) ds"
      using ds by (auto simp: list_all2_conv_all_nth gathers_def list_all_length)
    then have "gathers (StructCol n names cs v) idx (StructCol (length idx) names ds (gather_validity v idx (snd (scan_indices idx))))"
      using 4 cell list_all2_lengthD [OF ds] by (auto simp: gathers_def gather_validity_ok gather_validity_bit)
    then show ?thesis using top False by (simp add: ds_def)
  qed
next
  case (5 zero wide offs c v idx)
  have top: "\<not> int (length offs - 1) \<le> fst (scan_indices idx)" using scan_top [of idx "length offs - 1"] 5 by simp
  show ?case
  proof (cases "identity_rows idx (length offs - 1)")
    case True
    then show ?thesis using 5 top gathers_identity [of "ListCol wide offs c v" idx] by auto
  next
    case False
    let ?rows = "child_rows offs idx" and ?segs = "list_segs offs idx"
    have offs: "offs_ok offs (col_len c)" and inside: "list_all (\<lambda>i. i < int (length offs - 1)) idx" using 5 by simp_all
    have rows: "list_all (\<lambda>i. 0 \<le> i \<and> i < int (col_len c)) ?rows" by (rule child_rows_in [OF offs inside])
    then have "list_all (\<lambda>i. i < int (col_len c)) ?rows" by (simp add: list_all_iff)
    then obtain d where d: "gather_column zero c ?rows = Some d" "gathers c ?rows d"
      using 5 top False by auto
    have o: "list_offsets wide offs idx = seg_offsets ?segs" using 5 by (intro list_offsets_segs) simp
    have len: "length ?segs = length idx" by (simp add: list_segs_def)
    have "map (cell_at d) [nat (seg_offsets ?segs ! i)..<nat (seg_offsets ?segs ! Suc i)]
        = map (cell_at c) [nat (offs ! nat (idx ! i))..<nat (offs ! Suc (nat (idx ! i)))]" if "i < length idx" "0 \<le> idx ! i" for i
    proof (rule list_seg_cells [OF that])
      have "idx ! i < int (length offs - 1)" using inside that by (simp add: list_all_length)
      then have "Suc (nat (idx ! i)) < length offs" using that by linarith
      then show "0 \<le> offs ! nat (idx ! i)" by (rule offs_ok_bounds(1) [OF offs])
      show "cell_at d p = cell_at c (nat (?rows ! p))" if "p < length ?rows" for p
        using d(2) rows that by (auto simp: gathers_def list_all_length)
    qed
    then have "gathers (ListCol wide offs c v) idx (ListCol wide (seg_offsets ?segs) d (gather_validity v idx (snd (scan_indices idx))))"
      using 5 d(2) seg_offs_ok [of ?segs] len by (auto simp: gathers_def gather_validity_ok gather_validity_bit child_rows_segs)
    then show ?thesis using top False d(1) o by (simp add: child_ptr_def)
  qed
qed simp_all

section \<open>Views: selections, dictionaries, materialising\<close>

fun materialize :: "'a \<Rightarrow> 'a column \<Rightarrow> 'a column option" where
  "materialize zero (SelCol idx c) = (if is_flat c then gather_column zero c idx else None)"
| "materialize zero (DictCol codes c v) = (if is_flat c then gather_column zero c codes else None)"
| "materialize zero c = Some c"

fun make_selection :: "'a \<Rightarrow> 'a column \<Rightarrow> int list \<Rightarrow> 'a column option" where
  "make_selection zero (SelCol inner c) sel =
     make_selection zero c (map (\<lambda>s. if s < 0 then -1 else inner ! nat s) sel)"
| "make_selection zero (DictCol codes c v) sel =
     (case materialize zero (DictCol codes c v) of None \<Rightarrow> None | Some flat \<Rightarrow> Some (SelCol sel flat))"
| "make_selection zero base sel = Some (SelCol sel base)"


text \<open>The rows an index list picks.\<close>

definition picked :: "'b option list \<Rightarrow> int list \<Rightarrow> 'b option list" where
  "picked rows idx = map (\<lambda>i. if i < 0 then None else rows ! nat i) idx"

text \<open>A view whose nulls the base column holds, and whose gather stays inside its offsets.\<close>

fun nulls_below :: "'a column \<Rightarrow> bool" where
  "nulls_below (DictCol codes c v) = (v = None)"
| "nulls_below _ = True"

fun view_fits :: "'a column \<Rightarrow> bool" where
  "view_fits (SelCol idx c) = gather_fits c idx"
| "view_fits (DictCol codes c v) = gather_fits c codes"
| "view_fits _ = True"




lemma cells_len: "cells f = cells v \<Longrightarrow> col_len f = col_len v"
  by (drule arg_cong [where f = length]) simp

lemma cells_selection:
  "list_all (\<lambda>i. i < int (col_len c)) sel \<Longrightarrow> cells (SelCol sel c) = picked (cells c) sel"
  by (intro nth_equalityI) (auto simp: picked_def list_all_length)

lemma materialize_cells:
  assumes "col_ok v" "nulls_below v" "view_fits v"
  shows "\<exists>f. materialize zero v = Some f \<and> col_ok f \<and> is_flat f \<and> cells f = cells v"
proof (cases v)
  case (SelCol idx c)
  then obtain f where "gather_column zero c idx = Some f" "gathers c idx f"
    using assms gather_column_gathers [of c idx zero] by auto
  moreover from this have "cells f = cells v"
    using SelCol assms by (intro nth_equalityI) (auto simp: gathers_def)
  ultimately show ?thesis using SelCol assms by (auto simp: gathers_def)
next
  case (DictCol codes c w)
  then obtain f where "gather_column zero c codes = Some f" "gathers c codes f"
    using assms gather_column_gathers [of c codes zero] by (auto simp: list_all_iff)
  moreover from this have "cells f = cells v"
    using DictCol assms by (intro nth_equalityI) (auto simp: gathers_def bit_valid_def list_all_length not_less)
  ultimately show ?thesis using DictCol assms by (auto simp: gathers_def)
qed (use assms in auto)

lemma make_selection_cells:
  assumes "col_ok base" "nulls_below base" "view_fits base" "list_all (\<lambda>i. i < int (col_len base)) sel"
  shows "\<exists>s. make_selection zero base sel = Some s \<and> col_ok s \<and> cells s = picked (cells base) sel"
proof (cases base)
  case (SelCol inner c)
  let ?comp = "map (\<lambda>s. if s < 0 then -1 else inner ! nat s) sel"
  have c: "col_ok c" "is_flat c" "list_all (\<lambda>i. i < int (col_len c)) inner" using assms SelCol by simp_all
  have "make_selection zero base sel = Some (SelCol ?comp c)" using c(2) SelCol by (cases c) simp_all
  moreover have "col_ok (SelCol ?comp c)" using c assms(4) SelCol by (auto simp: list_all_iff)
  moreover have "cells (SelCol ?comp c) = picked (cells base) sel"
    using assms(4) SelCol by (intro nth_equalityI) (auto simp: picked_def list_all_length)
  ultimately show ?thesis by blast
next
  case (DictCol codes c v)
  obtain f where f: "materialize zero base = Some f" "col_ok f" "is_flat f" "cells f = cells base"
    using materialize_cells [OF assms(1-3), of zero] by blast
  then have "col_len f = col_len base" by (intro cells_len)
  moreover from this have "cells (SelCol sel f) = picked (cells base) sel"
    using cells_selection [of f sel] assms(4) f(4) by simp
  ultimately show ?thesis using f DictCol assms(4) by auto
qed (use assms cells_selection [of base sel] in \<open>simp_all\<close>)


section \<open>Masks\<close>

text \<open>
  \<^verbatim>\<open>mask_to_indices\<close>: the words of the mask go to tasks of \<open>G\<close> words; a first pass counts the bits of every
  task, the counts become the place of each task's rows, and the tasks write them in any \<open>order\<close>. A write
  covers its own positions of the buffer only.
\<close>

definition write_at :: "'b list \<Rightarrow> nat \<Rightarrow> 'b list \<Rightarrow> 'b list" where
  "write_at xs k buf = map (\<lambda>p. if k \<le> p \<and> p < k + length xs then xs ! (p - k) else buf ! p) [0..<length buf]"

definition word_rows :: "bool list \<Rightarrow> nat \<Rightarrow> nat list" where
  "word_rows bits w = filter (\<lambda>i. bits ! i) [64 * w..<64 * w + 64]"

definition chunk_rows :: "nat \<Rightarrow> bool list \<Rightarrow> nat \<Rightarrow> nat list" where
  "chunk_rows G bits c = concat (map (word_rows bits) [c * G..<min (length bits div 64) (c * G + G)])"

definition chunk_count :: "nat \<Rightarrow> bool list \<Rightarrow> nat \<Rightarrow> nat" where
  "chunk_count G bits c = sum_list (map (\<lambda>w. length (word_rows bits w)) [c * G..<min (length bits div 64) (c * G + G)])"

definition mask_chunks :: "nat \<Rightarrow> bool list \<Rightarrow> nat" where
  "mask_chunks G bits = (length bits div 64 + G - 1) div G"

definition mask_to_indices :: "nat \<Rightarrow> nat list \<Rightarrow> bool list \<Rightarrow> nat list" where
  "mask_to_indices G order bits =
     (let words = length bits div 64;
          counts = map (chunk_count G bits) [0..<mask_chunks G bits];
          rest = filter (\<lambda>i. bits ! i) [words * 64..<length bits];
          buf = replicate (sum_list counts + length rest) 0;
          buf' = fold (\<lambda>c. write_at (chunk_rows G bits c) (sum_list (take c counts))) order buf in
      write_at rest (sum_list counts) buf')"

lemma length_write_at [simp]: "length (write_at xs k buf) = length buf" by (simp add: write_at_def)

lemma write_at_nth:
  "p < length buf \<Longrightarrow> write_at xs k buf ! p = (if k \<le> p \<and> p < k + length xs then xs ! (p - k) else buf ! p)"
  by (simp add: write_at_def)

lemma write_at_append:
  assumes "length xs \<le> length B"
  shows "write_at xs (length A) (A @ B) = A @ xs @ drop (length xs) B"
proof (rule nth_equalityI)
  fix p assume "p < length (write_at xs (length A) (A @ B))"
  then show "write_at xs (length A) (A @ B) ! p = (A @ xs @ drop (length xs) B) ! p"
    using assms by (auto simp: write_at_def nth_append less_diff_conv2 diff_diff_left add.commute)
qed (use assms in simp)

lemma write_at_commute:
  assumes "k + length xs \<le> l \<or> l + length ys \<le> k"
  shows "write_at xs k \<circ> write_at ys l = write_at ys l \<circ> write_at xs k"
proof (rule ext, rule nth_equalityI)
  fix buf p assume "p < length ((write_at xs k \<circ> write_at ys l) buf)"
  then have "p < length buf" by simp
  then show "(write_at xs k \<circ> write_at ys l) buf ! p = (write_at ys l \<circ> write_at xs k) buf ! p"
    using assms by (auto simp: write_at_nth)
qed simp

definition seg_start :: "'b list list \<Rightarrow> nat \<Rightarrow> nat" where "seg_start segs c = length (concat (take c segs))"

lemma seg_start_Suc: "c < length segs \<Longrightarrow> seg_start segs (Suc c) = seg_start segs c + length (segs ! c)"
  by (simp add: seg_start_def take_Suc_conv_app_nth)

lemma seg_start_mono: "c \<le> d \<Longrightarrow> seg_start segs c \<le> seg_start segs d"
  unfolding seg_start_def by (rule concat_take_mono)

lemma writes_in_order:
  "m \<le> length segs \<Longrightarrow> seg_start segs m \<le> length buf \<Longrightarrow>
     fold (\<lambda>c. write_at (segs ! c) (seg_start segs c)) [0..<m] buf = concat (take m segs) @ drop (seg_start segs m) buf"
proof (induction m)
  case 0
  then show ?case by (simp add: seg_start_def)
next
  case (Suc m)
  have here: "seg_start segs (Suc m) = seg_start segs m + length (segs ! m)" using Suc.prems by (simp add: seg_start_Suc)
  then have "fold (\<lambda>c. write_at (segs ! c) (seg_start segs c)) [0..<Suc m] buf
      = write_at (segs ! m) (length (concat (take m segs))) (concat (take m segs) @ drop (seg_start segs m) buf)"
    using Suc by (simp add: seg_start_def)
  also have "\<dots> = concat (take m segs) @ segs ! m @ drop (length (segs ! m)) (drop (seg_start segs m) buf)"
    using Suc.prems here by (intro write_at_append) simp
  finally show ?case using Suc.prems here by (simp add: take_Suc_conv_app_nth add.commute)
qed

text \<open>Tasks that write disjoint parts may run in any order.\<close>

lemma writes_any_order:
  assumes "distinct order" "set order = {..<length segs}" "length (concat segs) \<le> length buf"
  shows "fold (\<lambda>c. write_at (segs ! c) (seg_start segs c)) order buf = concat segs @ drop (length (concat segs)) buf"
proof -
  let ?f = "\<lambda>c. write_at (segs ! c) (seg_start segs c)"
  have "?f c \<circ> ?f d = ?f d \<circ> ?f c" if "c \<in> set order" "d \<in> set order" for c d
  proof (cases "c = d")
    case False
    have Suc: "seg_start segs c + length (segs ! c) = seg_start segs (Suc c)"
      "seg_start segs d + length (segs ! d) = seg_start segs (Suc d)"
      using that assms(2) by (simp_all add: seg_start_Suc)
    from False have "Suc c \<le> d \<or> Suc d \<le> c" by linarith
    then have "seg_start segs c + length (segs ! c) \<le> seg_start segs d \<or> seg_start segs d + length (segs ! d) \<le> seg_start segs c"
      unfolding Suc using seg_start_mono by blast
    then show ?thesis by (rule write_at_commute)
  qed simp
  moreover have "mset order = mset [0..<length segs]"
    using assms(1,2) by (subst set_eq_iff_mset_eq_distinct [symmetric]) (auto simp: atLeast0LessThan)
  ultimately have "fold ?f order = fold ?f [0..<length segs]" by (intro fold_multiset_equiv) auto
  then show ?thesis using writes_in_order [of "length segs" segs buf] assms(3) by (simp add: seg_start_def)
qed

lemma upt_chunks:
  assumes "0 < G"
  shows "concat (map (\<lambda>c. [c * G..<min W (c * G + G)]) [0..<(W + G - 1) div G]) = [0..<W]"
proof -
  have step: "concat (map (\<lambda>c. [c * G..<min W (c * G + G)]) [0..<m]) = [0..<min W (m * G)]" for m
  proof (induction m)
    case (Suc m)
    have "[0..<min W (m * G)] @ [m * G..<min W (m * G + G)] = [0..<min W (m * G + G)]"
    proof (cases "m * G \<le> W")
      case True
      then show ?thesis using upt_add_eq_append [of 0 "m * G" "min W (m * G + G) - m * G"] by simp
    qed simp
    then show ?case using Suc by (simp add: add.commute)
  qed simp
  have "W + G - 1 = (W + G - 1) div G * G + (W + G - 1) mod G" by simp
  then have "W \<le> (W + G - 1) div G * G" using mod_less_divisor [OF assms, of "W + G - 1"] by linarith
  then show ?thesis using step [of "(W + G - 1) div G"] by (simp add: min_absorb1)
qed

lemma words_rows: "concat (map (word_rows bits) [0..<n]) = filter (\<lambda>i. bits ! i) [0..<64 * n]"
proof (induction n)
  case (Suc n)
  have "[0..<64 * Suc n] = [0..<64 * n] @ [64 * n..<64 * n + 64]"
    using upt_add_eq_append [of 0 "64 * n" 64] by (simp add: add.commute)
  then show ?case using Suc by (simp add: word_rows_def)
qed simp

lemma concat_map_concat: "concat (map f (concat xss)) = concat (map (\<lambda>xs. concat (map f xs)) xss)"
  by (induction xss) simp_all

lemma chunk_count_length: "chunk_count G bits c = length (chunk_rows G bits c)"
  by (simp add: chunk_count_def chunk_rows_def length_concat comp_def)

lemma mask_to_indices_rows:
  assumes "0 < G" "distinct order" "set order = {..<mask_chunks G bits}"
  shows "mask_to_indices G order bits = filter (\<lambda>i. bits ! i) [0..<length bits]"
proof -
  define words where "words = length bits div 64"
  define segs where "segs = map (chunk_rows G bits) [0..<mask_chunks G bits]"
  define counts where "counts = map (chunk_count G bits) [0..<mask_chunks G bits]"
  define rest where "rest = filter (\<lambda>i. bits ! i) [words * 64..<length bits]"
  have counts: "counts = map length segs" by (simp add: counts_def segs_def chunk_count_length)
  have start: "sum_list (take c counts) = seg_start segs c" for c
    by (simp add: counts seg_start_def length_concat take_map)
  have sum: "sum_list counts = length (concat segs)" by (simp add: counts length_concat)
  have all: "concat segs = filter (\<lambda>i. bits ! i) [0..<64 * words]"
  proof -
    have "concat segs = concat (map (word_rows bits) (concat (map (\<lambda>c. [c * G..<min words (c * G + G)]) [0..<mask_chunks G bits])))"
      by (simp add: segs_def chunk_rows_def [abs_def] words_def concat_map_concat comp_def)
    also have "\<dots> = filter (\<lambda>i. bits ! i) [0..<64 * words]"
      using upt_chunks [OF assms(1), of words] by (simp add: mask_chunks_def words_def words_rows)
    finally show ?thesis .
  qed
  let ?buf = "replicate (sum_list counts + length rest) (0::nat)"
  have "fold (\<lambda>c. write_at (chunk_rows G bits c) (sum_list (take c counts))) order ?buf
      = fold (\<lambda>c. write_at (segs ! c) (seg_start segs c)) order ?buf"
    using assms(3) by (intro fold_cong) (auto simp: segs_def start [unfolded segs_def])
  also have "\<dots> = concat segs @ replicate (length rest) 0"
    using writes_any_order [of order segs ?buf] assms(2,3) by (simp add: sum segs_def)
  finally have "mask_to_indices G order bits = write_at rest (length (concat segs)) (concat segs @ replicate (length rest) 0)"
    unfolding mask_to_indices_def Let_def words_def [symmetric] counts_def [symmetric] rest_def [symmetric] by (simp add: sum)
  also have "\<dots> = concat segs @ rest" using write_at_append [of rest "replicate (length rest) 0" "concat segs"] by simp
  also have "\<dots> = filter (\<lambda>i. bits ! i) [0..<length bits]"
  proof -
    have "64 * words \<le> length bits" by (simp add: words_def)
    then have "[0..<length bits] = [0..<64 * words] @ [64 * words..<length bits]"
      using upt_add_eq_append [of 0 "64 * words" "length bits - 64 * words"] by simp
    then show ?thesis by (simp add: all rest_def mult.commute)
  qed
  finally show ?thesis .
qed

definition MASK_GRAIN :: nat where "MASK_GRAIN = 2 ^ 16"

definition filter_rows :: "'a \<Rightarrow> nat list \<Rightarrow> 'a column \<Rightarrow> 'a column \<Rightarrow> 'a column option" where
  "filter_rows zero order v m =
     (case m of
        BoolCol bits mv \<Rightarrow>
          if length bits \<noteq> col_len v then None
          else make_selection zero v (map int (mask_to_indices MASK_GRAIN order bits))
      | _ \<Rightarrow> None)"

section \<open>Row-wise choice\<close>

datatype col_type = TFixed | TBool | TVar bool | TStruct | TList bool | TNone

fun type_of :: "'a column \<Rightarrow> col_type" where
  "type_of (FixedCol _ _) = TFixed"
| "type_of (BoolCol _ _) = TBool"
| "type_of (VarCol wide _ _ _) = TVar wide"
| "type_of (StructCol _ _ _ _) = TStruct"
| "type_of (ListCol wide _ _ _) = TList wide"
| "type_of (SelCol _ c) = type_of c"
| "type_of (DictCol _ c _) = type_of c"
| "type_of NullCol = TNone"

definition mask_bit :: "bool list \<Rightarrow> nulls \<Rightarrow> nat \<Rightarrow> bool" where
  "mask_bit bits mv i \<longleftrightarrow> bit_valid mv i \<and> bits ! i"

definition where_validity :: "bool list \<Rightarrow> nulls \<Rightarrow> nulls \<Rightarrow> nulls \<Rightarrow> nulls" where
  "where_validity bits mv va vb =
     (if va = None \<and> vb = None then None
      else Some (map (\<lambda>i. if mask_bit bits mv i then bit_valid va i else bit_valid vb i) [0..<length bits]))"

text \<open>Every offset is the length so far, cast to the offset type.\<close>

definition running_offsets :: "bool \<Rightarrow> string list \<Rightarrow> int list" where
  "running_offsets wide parts = map (\<lambda>n. wrap_off wide (int (length (concat (take n parts))))) [0..<Suc (length parts)]"

definition where_parts :: "bool list \<Rightarrow> nulls \<Rightarrow> int list \<Rightarrow> string \<Rightarrow> int list \<Rightarrow> string \<Rightarrow> string list" where
  "where_parts bits mv ao ad bo bd =
     map (\<lambda>i. if mask_bit bits mv i then slice_of ao i ad else slice_of bo i bd) [0..<length bits]"

fun where_flat :: "bool list \<Rightarrow> nulls \<Rightarrow> 'a column \<Rightarrow> 'a column \<Rightarrow> 'a column option" where
  "where_flat bits mv (VarCol wide ao ad va) (VarCol wide' bo bd vb) =
     (let parts = where_parts bits mv ao ad bo bd in
      Some (VarCol wide (running_offsets wide parts) (concat parts) (where_validity bits mv va vb)))"
| "where_flat bits mv (BoolCol xs va) (BoolCol ys vb) =
     Some (BoolCol (map (\<lambda>i. if mask_bit bits mv i then xs ! i else ys ! i) [0..<length bits]) (where_validity bits mv va vb))"
| "where_flat bits mv (FixedCol xs va) (FixedCol ys vb) =
     Some (FixedCol (map (\<lambda>i. if mask_bit bits mv i then xs ! i else ys ! i) [0..<length bits]) (where_validity bits mv va vb))"
| "where_flat bits mv _ _ = None"

definition where_rows :: "'a \<Rightarrow> 'a column \<Rightarrow> 'a column \<Rightarrow> 'a column \<Rightarrow> 'a column option" where
  "where_rows zero m a b =
     (case m of
        BoolCol bits mv \<Rightarrow>
          if col_len a \<noteq> length bits \<or> col_len b \<noteq> length bits \<or> type_of a \<noteq> type_of b then None
          else (case (materialize zero a, materialize zero b) of
                  (Some fa, Some fb) \<Rightarrow> where_flat bits mv fa fb
                | _ \<Rightarrow> None)
      | _ \<Rightarrow> None)"

definition where_fits :: "bool list \<Rightarrow> nulls \<Rightarrow> 'a column \<Rightarrow> 'a column \<Rightarrow> bool" where
  "where_fits bits mv a b \<longleftrightarrow>
     (case (a, b) of
        (VarCol wide ao ad va, VarCol wide' bo bd vb) \<Rightarrow>
          int (length (concat (where_parts bits mv ao ad bo bd))) < off_limit wide
      | _ \<Rightarrow> True)"

lemma running_offsets_seg:
  assumes "int (length (concat parts)) < off_limit wide"
  shows "running_offsets wide parts = seg_offsets parts"
proof -
  have "wrap_off wide (int (length (concat (take n parts)))) = int (length (concat (take n parts)))" for n
    using concat_take_mono [of n "max n (length parts)" parts] assms by (intro wrap_off_id) simp_all
  then show ?thesis by (simp add: running_offsets_def seg_offsets_def del: upt_Suc)
qed

lemma where_validity_bit:
  "i < length bits \<Longrightarrow> bit_valid (where_validity bits mv va vb) i \<longleftrightarrow> (if mask_bit bits mv i then bit_valid va i else bit_valid vb i)"
  by (auto simp: where_validity_def bit_valid_def)

lemma where_validity_ok: "n = length bits \<Longrightarrow> nulls_ok (where_validity bits mv va vb) n"
  by (simp add: where_validity_def nulls_ok_def)

lemma where_flat_cells:
  assumes "where_fits bits mv a b" "col_len a = length bits" "col_len b = length bits" "where_flat bits mv a b = Some d"
  shows "col_ok d \<and> cells d = map (\<lambda>i. if mask_bit bits mv i then cell_at a i else cell_at b i) [0..<length bits]"
  using assms
proof (induction bits mv a b rule: where_flat.induct)
  case (1 bits mv wide ao ad va wide' bo bd vb)
  let ?parts = "where_parts bits mv ao ad bo bd"
  have d: "d = VarCol wide (seg_offsets ?parts) (concat ?parts) (where_validity bits mv va vb)"
    using 1 running_offsets_seg [of ?parts wide] by (simp add: where_fits_def Let_def)
  have len: "length ?parts = length bits" by (simp add: where_parts_def)
  have "slice_of (seg_offsets ?parts) i (concat ?parts) = (if mask_bit bits mv i then slice_of ao i ad else slice_of bo i bd)"
    if "i < length bits" for i
    using seg_slice [of i ?parts] that len by (simp add: where_parts_def)
  then show ?case using len seg_offs_ok [of ?parts]
    by (auto simp: d cells_def where_validity_bit where_validity_ok)
next
  case (2 bits mv xs va ys vb)
  then show ?case by (auto simp: cells_def where_validity_bit where_validity_ok)
next
  case (3 bits mv xs va ys vb)
  then show ?case by (auto simp: cells_def where_validity_bit where_validity_ok)
qed simp_all

section \<open>Properties\<close>


definition sample_column :: "nat column" where
  "sample_column = SelCol [2, -1, 0]
     (StructCol 3 [''n'', ''s'', ''l'']
        [FixedCol [10, 11, 12] (Some [True, False, True]), VarCol False [0, 2, 2, 3] ''abc'' None,
         ListCol False [0, 1, 1, 3] (BoolCol [True, False, True] None) None] None)"


text \<open>
  C39: filtering by a mask keeps exactly the rows where the mask is true, in order, whichever order the
  parallel tasks of the mask scan finish in: the selection built by a filter, over a flat column or over an
  earlier selection, has those cells. The mask is as long as the column, and where it is null its bit is
  clear: the kernel reads the bits alone, so a null over a set bit keeps its row
  (\<open>null_mask_row_kept\<close>). Dictionary columns with nulls of their own are outside (\<open>nulls_below\<close>,
  \<open>dictionary_nulls_lost\<close>), and the rows of a dictionary fit their offsets (\<open>view_fits\<close>).
\<close>

theorem filter_keeps_mask_rows:
  assumes "col_ok v" "nulls_below v" "view_fits v" "length bits = col_len v"
    and "\<forall>i < length bits. bits ! i \<longrightarrow> bit_valid mv i"
    and "distinct order" "set order = {..<mask_chunks MASK_GRAIN bits}"
  shows "\<exists>s. filter_rows zero order v (BoolCol bits mv) = Some s \<and> col_ok s
           \<and> cells s = map (\<lambda>i. cells v ! i) (filter (mask_bit bits mv) [0..<length bits])"
proof -
  let ?rows = "filter (\<lambda>i. bits ! i) [0..<length bits]"
  have rows: "mask_to_indices MASK_GRAIN order bits = ?rows"
    using assms(6,7) by (intro mask_to_indices_rows) (simp_all add: MASK_GRAIN_def)
  have inside: "list_all (\<lambda>i. i < int (col_len v)) (map int ?rows)" using assms(4) by (auto simp: list_all_iff)
  obtain s where "make_selection zero v (map int ?rows) = Some s" "col_ok s" "cells s = picked (cells v) (map int ?rows)"
    using make_selection_cells [OF assms(1-3) inside, of zero] by blast
  moreover have "picked (cells v) (map int ?rows) = map (\<lambda>i. cells v ! i) ?rows" by (simp add: picked_def)
  moreover have "?rows = filter (mask_bit bits mv) [0..<length bits]"
    using assms(5) by (intro filter_cong) (auto simp: mask_bit_def)
  ultimately show ?thesis using assms(4) by (simp add: filter_rows_def rows)
qed

lemma filter_keeps_mask_rows_witness:
  "\<exists>s. filter_rows 0 [] sample_column (BoolCol [False, True, True] (Some [False, True, True])) = Some s \<and> col_ok s
     \<and> cells s = map (\<lambda>i. cells sample_column ! i) [1, 2]"
proof -
  let ?bits = "[False, True, True]" and ?mv = "Some [False, True, True]"
  have ok: "col_ok sample_column" "nulls_below sample_column" "view_fits sample_column"
    "length ?bits = col_len sample_column" by code_simp+
  have "\<forall>i < length ?bits. ?bits ! i \<longrightarrow> bit_valid ?mv i" by (auto simp: bit_valid_def less_Suc_eq)
  moreover have "distinct ([] :: nat list)" "set [] = {..<mask_chunks MASK_GRAIN ?bits}"
    by (simp_all add: mask_chunks_def MASK_GRAIN_def)
  moreover have "filter (mask_bit ?bits ?mv) [0..<length ?bits] = [1, 2]" by code_simp
  ultimately show ?thesis using filter_keeps_mask_rows [OF ok, of ?mv "[]" 0] by simp
qed

text \<open>
  The choice between two columns takes each row, null or not, from the first column where the mask is
  set and valid and from the second where it is clear or null; the result is a well-formed column.
\<close>

theorem where_chooses_rows:
  assumes "where_rows zero (BoolCol bits mv) a b = Some d"
    and "col_ok a" "nulls_below a" "view_fits a" "col_ok b" "nulls_below b" "view_fits b"
    and "\<And>fa fb. materialize zero a = Some fa \<Longrightarrow> materialize zero b = Some fb \<Longrightarrow> where_fits bits mv fa fb"
  shows "col_ok d \<and> cells d = map (\<lambda>i. if mask_bit bits mv i then cells a ! i else cells b ! i) [0..<length bits]"
proof -
  obtain fa where fa: "materialize zero a = Some fa" "cells fa = cells a" using materialize_cells [OF assms(2-4), of zero] by blast
  obtain fb where fb: "materialize zero b = Some fb" "cells fb = cells b" using materialize_cells [OF assms(5-7), of zero] by blast
  have len: "col_len a = length bits" "col_len b = length bits" and w: "where_flat bits mv fa fb = Some d"
    using assms(1) fa(1) fb(1) by (auto simp: where_rows_def split: if_splits)
  have flen: "col_len fa = length bits" "col_len fb = length bits" using len cells_len [OF fa(2)] cells_len [OF fb(2)] by simp_all
  have "cell_at fa i = cells a ! i" "cell_at fb i = cells b ! i" if "i < length bits" for i
    using nth_cells [of i fa] nth_cells [of i fb] that flen fa(2) fb(2) by simp_all
  then show ?thesis using where_flat_cells [OF assms(8) [OF fa(1) fb(1)] flen w] by auto
qed

lemma where_chooses_rows_witness:
  "\<exists>d. where_rows 0 (BoolCol [True, True, False] (Some [True, False, True]))
         (FixedCol [1, 2, 3] (Some [False, True, True])) (SelCol [2, 1, 0] (FixedCol [7, 8, 9] None)) = Some d
     \<and> cells d = [None, Some (Fix 8), Some (Fix (7::nat))]"
proof -
  let ?bits = "[True, True, False]" and ?mv = "Some [True, False, True]"
  let ?a = "FixedCol [1, 2, 3] (Some [False, True, True])" and ?b = "SelCol [2, 1, 0] (FixedCol [7, 8, 9::nat] None)"
  have "where_rows 0 (BoolCol ?bits ?mv) ?a ?b = Some (FixedCol [1, 8, 7] (Some [False, True, True]))" by code_simp
  moreover from this have "cells (FixedCol [1, 8, 7] (Some [False, True, True]))
      = map (\<lambda>i. if mask_bit ?bits ?mv i then cells ?a ! i else cells ?b ! i) [0..<length ?bits]"
  proof (intro where_chooses_rows [THEN conjunct2])
    show "where_fits ?bits ?mv fa fb" if "materialize 0 ?a = Some fa" for fa fb
      using that by (auto simp: where_fits_def)
  qed (simp_all add: nulls_ok_def)
  moreover have "map (\<lambda>i. if mask_bit ?bits ?mv i then cells ?a ! i else cells ?b ! i) [0..<length ?bits]
      = [None, Some (Fix 8), Some (Fix 7)]" by code_simp
  ultimately show ?thesis by simp
qed

text \<open>
  A dictionary column holds its nulls at its own level. Materialising it gathers the entries and takes the
  validity of the entries, so a null row comes back as the entry its code names.
\<close>

definition null_dictionary :: "nat column" where
  "null_dictionary = DictCol [0, 1, 0] (VarCol False [0, 1, 1] ''a'' None) (Some [True, False, True])"

lemma dictionary_nulls_lost:
  "col_ok null_dictionary"
  "cells null_dictionary = [Some (Str ''a''), None, Some (Str ''a'')]"
  "map_option cells (materialize 0 null_dictionary) = Some [Some (Str ''a''), Some (Str ''''), Some (Str ''a'')]"
  by code_simp+

text \<open>A null bit of the mask still keeps its row: \<^verbatim>\<open>dftu_series_filter\<close> reads the data bits only.\<close>

lemma filter_ignores_mask_nulls:
  "filter_rows zero order v (BoolCol bits mv) = filter_rows zero order v (BoolCol bits None)"
  by (simp add: filter_rows_def)

lemma null_mask_row_kept:
  "map_option cells (filter_rows 0 [] (FixedCol [7, 8 :: nat] None) (BoolCol [False, True] (Some [True, False])))
     = Some [Some (Fix 8)]"
proof -
  have "mask_to_indices MASK_GRAIN [] [False, True] = filter (\<lambda>i. [False, True] ! i) [0..<2]"
    using mask_to_indices_rows [of MASK_GRAIN "[]" "[False, True]"] by (simp add: MASK_GRAIN_def mask_chunks_def numeral_2_eq_2)
  then show ?thesis by (simp add: filter_rows_def upt_rec [of _ 2] cells_def bit_valid_def)
qed

end
