(* ===== verification/DictEncode.thy ===== *)
theory DictEncode
  imports SeriesRows
begin

text \<open>
  Dictionary encoding of a string column (\<^verbatim>\<open>dataframe/kernels/dictionary.cpp\<close>): the single pass that
  numbers the strings as it meets them, and the parallel build that numbers them per chunk, merges the
  chunk dictionaries by first appearance and renumbers the rows. Codes are counted without the cast to
  \<^verbatim>\<open>int32\<close>: a column has fewer than \<open>2 ^ 31\<close> distinct strings.
\<close>

section \<open>The single pass\<close>

fun serial_encode :: "(string \<times> nat) list \<Rightarrow> string list \<Rightarrow> (string \<times> nat) list \<times> nat list" where
  "serial_encode codes_of [] = (codes_of, [])"
| "serial_encode codes_of (s # ss) =
     (case map_of codes_of s of
        Some code \<Rightarrow> (let (m, cs) = serial_encode codes_of ss in (m, code # cs))
      | None \<Rightarrow> (let code = length codes_of; (m, cs) = serial_encode (codes_of @ [(s, code)]) ss in (m, code # cs)))"

definition dictionary_encode_serial :: "string list \<Rightarrow> nat list \<times> string list" where
  "dictionary_encode_serial rows = (let (m, codes) = serial_encode [] rows in (codes, map fst m))"

section \<open>The parallel build\<close>

text \<open>
  \<^verbatim>\<open>ShortKey\<close>: a string of at most sixteen bytes as two little-endian words, zero padded, and its length.
\<close>

record short_key =
  key_a :: "64 word"
  key_b :: "64 word"
  key_len :: "32 word"

fun le_value :: "string \<Rightarrow> nat" where
  "le_value [] = 0"
| "le_value (c # cs) = of_char c + 256 * le_value cs"

definition short_key_of :: "string \<Rightarrow> short_key" where
  "short_key_of s =
     (if 8 \<le> length s
      then \<lparr>key_a = of_nat (le_value (take 8 s)), key_b = of_nat (le_value (drop 8 s)), key_len = of_nat (length s)\<rparr>
      else \<lparr>key_a = of_nat (le_value s), key_b = 0, key_len = of_nat (length s)\<rparr>)"

record local_dict =
  shorts :: "(short_key \<times> nat) list"
  longs :: "(string \<times> nat) list"
  first_row :: "nat list"

text \<open>One row of a chunk task: its local code, and the row recorded when the string is new to the chunk.\<close>

definition local_step :: "string \<Rightarrow> nat \<Rightarrow> local_dict \<Rightarrow> nat \<times> local_dict" where
  "local_step s i l =
     (let next_code = length (first_row l) in
      if length s \<le> 16 then
        (case map_of (shorts l) (short_key_of s) of
           Some code \<Rightarrow> (code, l)
         | None \<Rightarrow> (next_code, l\<lparr>shorts := shorts l @ [(short_key_of s, next_code)], first_row := first_row l @ [i]\<rparr>))
      else
        (case map_of (longs l) s of
           Some code \<Rightarrow> (code, l)
         | None \<Rightarrow> (next_code, l\<lparr>longs := longs l @ [(s, next_code)], first_row := first_row l @ [i]\<rparr>)))"

fun local_encode :: "local_dict \<Rightarrow> nat \<Rightarrow> string list \<Rightarrow> local_dict \<times> nat list" where
  "local_encode l i [] = (l, [])"
| "local_encode l i (s # ss) =
     (let (code, l1) = local_step s i l; (l2, codes) = local_encode l1 (Suc i) ss in (l2, code # codes))"

function chunks_of :: "nat \<Rightarrow> 'b list \<Rightarrow> 'b list list" where
  "chunks_of G xs = (if xs = [] \<or> G = 0 then [] else take G xs # chunks_of G (drop G xs))"
  by auto
termination by (relation "measure (\<lambda>(G, xs). length xs)") auto

declare chunks_of.simps [simp del]

fun encode_chunks :: "nat \<Rightarrow> string list list \<Rightarrow> (local_dict \<times> nat list) list" where
  "encode_chunks start [] = []"
| "encode_chunks start (c # cs) =
     local_encode \<lparr>shorts = [], longs = [], first_row = []\<rparr> start c # encode_chunks (start + length c) cs"

text \<open>The first row of every distinct string, over the chunks.\<close>

definition see_row :: "string list \<Rightarrow> nat \<Rightarrow> (string \<times> nat) list \<Rightarrow> (string \<times> nat) list" where
  "see_row rows row seen =
     (case map_of seen (rows ! row) of
        None \<Rightarrow> seen @ [(rows ! row, row)]
      | Some r \<Rightarrow> if row < r then map (\<lambda>(s, q). if s = rows ! row then (s, row) else (s, q)) seen else seen)"

definition merge_order :: "string list \<Rightarrow> nat list \<Rightarrow> string list" where
  "merge_order rows first_rows = map fst (sort_key snd (fold (see_row rows) first_rows []))"

definition dictionary_encode_parallel :: "nat \<Rightarrow> string list \<Rightarrow> nat list \<times> string list" where
  "dictionary_encode_parallel G rows =
     (let locals = encode_chunks 0 (chunks_of G rows);
          ordered = merge_order rows (concat (map (\<lambda>(l, codes). first_row l) locals));
          code_of = zip ordered [0..<length ordered];
          remapped = map (\<lambda>(l, codes).
            let remap = map (\<lambda>row. the (map_of code_of (rows ! row))) (first_row l) in
            map (\<lambda>code. remap ! code) codes) locals in
      (concat remapped, ordered))"

section \<open>Both number the strings by first appearance\<close>

definition dict_add :: "string \<Rightarrow> string list \<Rightarrow> string list" where
  "dict_add s d = (if s \<in> set d then d else d @ [s])"

definition seen_dict :: "string list \<Rightarrow> string list" where "seen_dict xs = fold dict_add xs []"

definition code_in :: "string list \<Rightarrow> string \<Rightarrow> nat" where "code_in d s = length (takeWhile (\<lambda>t. t \<noteq> s) d)"

lemma code_in_nth [simp]: "s \<in> set d \<Longrightarrow> d ! code_in d s = s"
  unfolding code_in_def by (metis (mono_tags, lifting) nth_length_takeWhile takeWhile_eq_all_conv length_takeWhile_le
      linorder_not_less order_le_less takeWhile_eq_take take_all)

lemma code_in_less [simp]: "s \<in> set d \<Longrightarrow> code_in d s < length d"
  unfolding code_in_def by (metis (mono_tags, lifting) length_takeWhile_le nat_less_le takeWhile_eq_all_conv takeWhile_eq_take take_all)

lemma code_in_append [simp]: "s \<in> set d \<Longrightarrow> code_in (d @ e) s = code_in d s"
  unfolding code_in_def by (simp add: takeWhile_append1 [of s])

lemma code_in_new: "s \<notin> set d \<Longrightarrow> code_in (d @ [s]) s = length d"
  unfolding code_in_def by (subst takeWhile_append2) auto

lemma code_in_new2 [simp]: "s \<notin> set d \<Longrightarrow> code_in (d @ s # e) s = length d"
  unfolding code_in_def by (subst takeWhile_append2) auto

lemma dict_add_old: "s \<in> set d \<Longrightarrow> dict_add s d = d" by (simp add: dict_add_def)
lemma dict_add_new: "s \<notin> set d \<Longrightarrow> dict_add s d = d @ [s]" by (simp add: dict_add_def)

lemma zip_codes: "distinct d \<Longrightarrow> map_of (zip d [0..<length d]) s = (if s \<in> set d then Some (code_in d s) else None)"
proof (induction d rule: rev_induct)
  case (snoc t d)
  then show ?case
    by (auto simp: map_add_def code_in_new split: option.splits)
qed simp

lemma fold_dict_set [simp]: "set (fold dict_add xs d) = set d \<union> set xs"
  by (induction xs arbitrary: d) (auto simp: dict_add_def)

lemma fold_dict_distinct [simp]: "distinct d \<Longrightarrow> distinct (fold dict_add xs d)"
  by (induction xs arbitrary: d) (auto simp: dict_add_def)

lemma fold_dict_grows: "\<exists>e. fold dict_add xs d = d @ e"
proof (induction xs arbitrary: d)
  case (Cons x xs)
  then show ?case by (simp add: dict_add_def) (metis append.assoc)
qed simp

lemma code_in_grown [simp]: "s \<in> set d \<Longrightarrow> code_in (fold dict_add xs d) s = code_in d s"
  using fold_dict_grows [of xs d] by auto

lemma seen_dict_set [simp]: "set (seen_dict xs) = set xs" by (simp add: seen_dict_def)
lemma seen_dict_distinct [simp]: "distinct (seen_dict xs)" by (simp add: seen_dict_def)

lemma serial_encode_codes:
  "distinct d \<Longrightarrow> serial_encode (zip d [0..<length d]) xs
     = (let e = fold dict_add xs d in (zip e [0..<length e], map (code_in e) xs))"
proof (induction xs arbitrary: d)
  case (Cons x xs)
  show ?case
  proof (cases "x \<in> set d")
    case True
    then show ?thesis using Cons by (simp add: zip_codes dict_add_old Let_def)
  next
    case False
    then have "zip d [0..<length d] @ [(x, length d)] = zip (d @ [x]) [0..<length (d @ [x])]" by simp
    then show ?thesis using False Cons.IH [of "d @ [x]"] Cons.prems
      by (simp add: zip_codes dict_add_new Let_def code_in_new del: zip_append)
  qed
qed simp

lemma dictionary_encode_serial_codes:
  "dictionary_encode_serial rows = (map (code_in (seen_dict rows)) rows, seen_dict rows)"
  using serial_encode_codes [of "[]" rows] by (simp add: dictionary_encode_serial_def seen_dict_def Let_def)

section \<open>Short keys are injective\<close>

lemma of_char_256: "(of_char c :: nat) < 256"
  by (metis of_char_mod_256 mod_less_divisor zero_less_numeral)

lemma le_value_less: "le_value s < 256 ^ length s"
proof (induction s)
  case (Cons c cs)
  have "(of_char c :: nat) < 256" by (rule of_char_256)
  moreover have "256 * Suc (le_value cs) \<le> 256 * 256 ^ length cs" using Cons by (intro mult_le_mono2) simp
  ultimately show ?case by (simp only: le_value.simps length_Cons power_Suc mult_Suc_right)
qed simp

lemma le_value_inj: "length s = length t \<Longrightarrow> le_value s = le_value t \<Longrightarrow> s = t"
proof (induction s t rule: list_induct2)
  case (Cons x xs y ys)
  have split: "(of_char c + 256 * n) mod 256 = (of_char c :: nat)" "(of_char c + 256 * n) div 256 = n" for c and n :: nat
    using of_char_256 [of c] by simp_all
  have "of_char x + 256 * le_value xs = (of_char y :: nat) + 256 * le_value ys" using Cons by simp
  then have "(of_char x :: nat) = of_char y" "le_value xs = le_value ys" by (metis split(1), metis split(2))
  then show ?case using Cons by simp
qed simp

lemma le_word_inj:
  assumes "length s \<le> 8" "length s = length t" "(of_nat (le_value s) :: 64 word) = of_nat (le_value t)"
  shows "s = t"
proof -
  have bound: "le_value u < 2 ^ LENGTH(64)" if "length u \<le> 8" for u
  proof -
    have "(256 :: nat) ^ length u \<le> 256 ^ 8" by (rule power_increasing [OF that]) simp
    then show ?thesis using le_value_less [of u] by simp
  qed
  have "le_value s = le_value t"
    using arg_cong [OF assms(3), of unat] bound [of s] bound [of t] assms(1,2) by (simp add: unat_of_nat)
  then show ?thesis using le_value_inj assms(2) by blast
qed

lemma short_key_inj:
  assumes "length s \<le> 16" "length t \<le> 16" "short_key_of s = short_key_of t"
  shows "s = t"
proof -
  have "key_len (short_key_of u) = of_nat (length u)" for u by (simp add: short_key_of_def)
  then have "(of_nat (length s) :: 32 word) = of_nat (length t)" using assms(3) by metis
  then have "unat (of_nat (length s) :: 32 word) = unat (of_nat (length t) :: 32 word)" by simp
  then have len: "length s = length t" using assms(1,2) by (simp add: unat_of_nat)
  show ?thesis
  proof (cases "8 \<le> length s")
    case True
    then have "take 8 s = take 8 t" "drop 8 s = drop 8 t"
      using assms len by (auto simp: short_key_of_def intro!: le_word_inj)
    then show ?thesis by (metis append_take_drop_id)
  next
    case False
    then show ?thesis using assms(3) len by (auto simp: short_key_of_def intro!: le_word_inj)
  qed
qed

section \<open>The chunk tasks\<close>

definition local_ok :: "local_dict \<Rightarrow> string list \<Rightarrow> bool" where
  "local_ok l d \<longleftrightarrow> distinct d \<and> length (first_row l) = length d
     \<and> shorts l = map (\<lambda>s. (short_key_of s, code_in d s)) (filter (\<lambda>s. length s \<le> 16) d)
     \<and> longs l = map (\<lambda>s. (s, code_in d s)) (filter (\<lambda>s. \<not> length s \<le> 16) d)"

lemma map_of_keyed:
  "(\<And>t. t \<in> set ts \<Longrightarrow> k t = k s \<Longrightarrow> t = s) \<Longrightarrow> map_of (map (\<lambda>t. (k t, f t)) ts) (k s) = (if s \<in> set ts then Some (f s) else None)"
proof (induction ts)
  case (Cons t ts)
  have "k t = k s \<longleftrightarrow> t = s" using Cons.prems [of t] by auto
  then show ?case using Cons by auto
qed simp

lemma local_ok_lookup:
  assumes "local_ok l d"
  shows "length s \<le> 16 \<Longrightarrow> map_of (shorts l) (short_key_of s) = (if s \<in> set d then Some (code_in d s) else None)"
    and "\<not> length s \<le> 16 \<Longrightarrow> map_of (longs l) s = (if s \<in> set d then Some (code_in d s) else None)"
proof -
  assume "length s \<le> 16"
  then show "map_of (shorts l) (short_key_of s) = (if s \<in> set d then Some (code_in d s) else None)"
    using assms short_key_inj map_of_keyed [of "filter (\<lambda>s. length s \<le> 16) d" short_key_of s "code_in d"]
    by (auto simp: local_ok_def)
next
  assume "\<not> length s \<le> 16"
  then show "map_of (longs l) s = (if s \<in> set d then Some (code_in d s) else None)"
    using assms map_of_keyed [of "filter (\<lambda>s. \<not> length s \<le> 16) d" "\<lambda>s. s" s "code_in d"] by (simp add: local_ok_def)
qed

lemma local_step_old: "local_ok l d \<Longrightarrow> s \<in> set d \<Longrightarrow> local_step s i l = (code_in d s, l)"
  by (cases "length s \<le> 16") (simp_all add: local_step_def Let_def local_ok_lookup [of l d s])

lemma local_step_new:
  assumes "local_ok l d" "s \<notin> set d"
  shows "\<exists>l'. local_step s i l = (length d, l') \<and> local_ok l' (d @ [s]) \<and> first_row l' = first_row l @ [i]"
proof -
  have n: "length (first_row l) = length d" using assms(1) by (simp add: local_ok_def)
  show ?thesis
  proof (cases "length s \<le> 16")
    case True
    let ?l = "l\<lparr>shorts := shorts l @ [(short_key_of s, length d)], first_row := first_row l @ [i]\<rparr>"
    have "local_step s i l = (length d, ?l)" using local_ok_lookup [OF assms(1), of s] assms(2) True n
      by (simp add: local_step_def Let_def)
    moreover have "local_ok ?l (d @ [s])" using assms True by (auto simp: local_ok_def code_in_new)
    ultimately show ?thesis by auto
  next
    case False
    let ?l = "l\<lparr>longs := longs l @ [(s, length d)], first_row := first_row l @ [i]\<rparr>"
    have "local_step s i l = (length d, ?l)" using local_ok_lookup [OF assms(1), of s] assms(2) False n
      by (simp add: local_step_def Let_def)
    moreover have "local_ok ?l (d @ [s])" using assms False by (auto simp: local_ok_def code_in_new)
    ultimately show ?thesis by auto
  qed
qed

definition rows_at :: "string list \<Rightarrow> nat \<Rightarrow> string list \<Rightarrow> bool" where
  "rows_at rows i xs \<longleftrightarrow> (\<forall>j < length xs. rows ! (i + j) = xs ! j)"

lemma local_encode_codes:
  "local_ok l d \<Longrightarrow> rows_at rows i xs \<Longrightarrow>
     \<exists>l' F. local_encode l i xs = (l', map (code_in (fold dict_add xs d)) xs) \<and> local_ok l' (fold dict_add xs d)
       \<and> first_row l' = first_row l @ F \<and> fold dict_add xs d = d @ map ((!) rows) F
       \<and> sorted_wrt (<) F \<and> set F \<subseteq> {i..<i + length xs}"
proof (induction xs arbitrary: l d i)
  case Nil
  then show ?case by simp
next
  case (Cons x xs)
  have rest: "rows_at rows (Suc i) xs" and here: "rows ! i = x"
    using Cons.prems(2) by (auto simp: rows_at_def elim: allE [of _ 0])
  show ?case
  proof (cases "x \<in> set d")
    case True
    obtain l' F where "local_encode l (Suc i) xs = (l', map (code_in (fold dict_add xs d)) xs)" "local_ok l' (fold dict_add xs d)"
      "first_row l' = first_row l @ F" "fold dict_add xs d = d @ map ((!) rows) F" "sorted_wrt (<) F"
      "set F \<subseteq> {Suc i..<Suc i + length xs}" using Cons.IH [OF Cons.prems(1) rest] by blast
    then show ?thesis using True Cons.prems(1) by (intro exI [of _ l'] exI [of _ F]) (auto simp: local_step_old dict_add_old)
  next
    case False
    obtain l1 where l1: "local_step x i l = (length d, l1)" "local_ok l1 (d @ [x])" "first_row l1 = first_row l @ [i]"
      using local_step_new [OF Cons.prems(1) False] by blast
    obtain l' F where "local_encode l1 (Suc i) xs = (l', map (code_in (fold dict_add xs (d @ [x]))) xs)"
      "local_ok l' (fold dict_add xs (d @ [x]))" "first_row l' = first_row l1 @ F"
      "fold dict_add xs (d @ [x]) = (d @ [x]) @ map ((!) rows) F" "sorted_wrt (<) F"
      "set F \<subseteq> {Suc i..<Suc i + length xs}" using Cons.IH [OF l1(2) rest] by blast
    then show ?thesis using False l1 here
      by (intro exI [of _ l'] exI [of _ "i # F"]) (auto simp: dict_add_new code_in_new)
  qed
qed

lemma encode_chunks_codes:
  "rows_at rows start (concat cs) \<Longrightarrow>
     list_all2 (\<lambda>(l, codes) c. codes = map (code_in (seen_dict c)) c \<and> map ((!) rows) (first_row l) = seen_dict c)
       (encode_chunks start cs) cs
   \<and> sorted_wrt (<) (concat (map (\<lambda>(l, codes). first_row l) (encode_chunks start cs)))
   \<and> set (concat (map (\<lambda>(l, codes). first_row l) (encode_chunks start cs))) \<subseteq> {start..<start + length (concat cs)}"
proof (induction cs arbitrary: start)
  case (Cons c cs)
  have c: "rows_at rows start c" and rest: "rows_at rows (start + length c) (concat cs)"
    using Cons.prems by (auto simp: rows_at_def nth_append) (metis add.assoc add_diff_cancel_left' nat_add_left_cancel_less not_add_less1)
  have "local_ok \<lparr>shorts = [], longs = [], first_row = []\<rparr> []" by (simp add: local_ok_def)
  then obtain l F where l: "local_encode \<lparr>shorts = [], longs = [], first_row = []\<rparr> start c = (l, map (code_in (seen_dict c)) c)"
    "first_row l = F" "seen_dict c = map ((!) rows) F" "sorted_wrt (<) F" "set F \<subseteq> {start..<start + length c}"
    using local_encode_codes [OF _ c, of _ "[]"] unfolding seen_dict_def by fastforce
  show ?case using Cons.IH [OF rest] l by (fastforce simp: sorted_wrt_append)
qed simp

section \<open>The merge\<close>

lemma fold_seen_dict: "fold dict_add (seen_dict c) d = fold dict_add c d"
proof (induction c rule: rev_induct)
  case (snoc x c)
  then show ?case by (cases "x \<in> set c") (simp_all add: seen_dict_def [of "c @ [x]"] seen_dict_def [symmetric] dict_add_old dict_add_new)
qed (simp add: seen_dict_def)

lemma seen_dict_chunks: "seen_dict (concat (map seen_dict cs)) = seen_dict (concat cs)"
proof -
  have "fold dict_add (concat (map seen_dict cs)) d = fold dict_add (concat cs) d" for d
    by (induction cs arbitrary: d) (simp_all add: fold_seen_dict)
  then show ?thesis by (simp add: seen_dict_def)
qed

lemma map_of_fst: "map_of ps s = None \<longleftrightarrow> s \<notin> set (map fst ps)"
  by (induction ps) auto

lemma fold_see_row:
  "sorted_wrt (<) (map snd seen @ R) \<Longrightarrow>
     map fst (fold (see_row rows) R seen) = fold dict_add (map ((!) rows) R) (map fst seen)
   \<and> sorted_wrt (<) (map snd (fold (see_row rows) R seen))"
proof (induction R arbitrary: seen)
  case (Cons r R)
  show ?case
  proof (cases "map_of seen (rows ! r)")
    case None
    then have "see_row rows r seen = seen @ [(rows ! r, r)]" by (simp add: see_row_def)
    moreover have "rows ! r \<notin> set (map fst seen)" using None map_of_fst by metis
    ultimately show ?thesis using Cons.IH [of "seen @ [(rows ! r, r)]"] Cons.prems
      by (simp add: dict_add_new)
  next
    case (Some q)
    then have q: "(rows ! r, q) \<in> set seen" by (rule map_of_SomeD)
    then have "q < r" using Cons.prems by (force simp: sorted_wrt_append)
    then have "see_row rows r seen = seen" using Some by (simp add: see_row_def)
    moreover have "rows ! r \<in> set (map fst seen)" using q by force
    moreover have "sorted_wrt (<) (map snd seen @ R)" using Cons.prems by (simp add: sorted_wrt_append)
    ultimately show ?thesis using Cons.IH [of seen] by (simp add: dict_add_old)
  qed
qed simp

lemma merge_order_dict:
  assumes "sorted_wrt (<) R"
  shows "merge_order rows R = seen_dict (map ((!) rows) R)"
proof -
  have m: "map fst (fold (see_row rows) R []) = seen_dict (map ((!) rows) R)"
    "sorted_wrt (<) (map snd (fold (see_row rows) R []))"
    using fold_see_row [of "[]" R rows] assms by (simp_all add: seen_dict_def)
  have "sorted (map snd (fold (see_row rows) R []))" using m(2) by (simp add: strict_sorted_iff)
  then show ?thesis using m(1) by (simp add: merge_order_def sort_key_id_if_sorted)
qed

lemma concat_chunks_of: "0 < G \<Longrightarrow> concat (chunks_of G xs) = xs"
proof (induction G xs rule: chunks_of.induct)
  case (1 G xs)
  then show ?case by (cases "xs = []") (simp_all add: chunks_of.simps [of G xs] chunks_of.simps [of G "[]"])
qed

lemma dictionary_encode_parallel_codes:
  assumes "0 < G"
  shows "dictionary_encode_parallel G rows = (map (code_in (seen_dict rows)) rows, seen_dict rows)"
proof -
  define cs where "cs = chunks_of G rows"
  define locals where "locals = encode_chunks 0 cs"
  define R where "R = concat (map (\<lambda>(l, codes). first_row l) locals)"
  have cs: "concat cs = rows" unfolding cs_def by (rule concat_chunks_of [OF assms])
  have enc: "list_all2 (\<lambda>(l, codes) c. codes = map (code_in (seen_dict c)) c \<and> map ((!) rows) (first_row l) = seen_dict c) locals cs"
    and "sorted_wrt (<) R" using encode_chunks_codes [of rows 0 cs] by (simp_all add: rows_at_def cs locals_def R_def)
  have "map ((!) rows) R = concat (map seen_dict cs)" unfolding R_def using enc
    by (induction rule: list_all2_induct) auto
  then have order: "merge_order rows R = seen_dict rows"
    using merge_order_dict [OF \<open>sorted_wrt (<) R\<close>] seen_dict_chunks [of cs] cs by simp
  define remap where "remap = (\<lambda>(l :: local_dict, codes).
      let remap = map (\<lambda>row. the (map_of (zip (seen_dict rows) [0..<length (seen_dict rows)]) (rows ! row))) (first_row l) in
      map (\<lambda>code. remap ! code) codes)"
  have chunk: "remap (l, map (code_in (seen_dict c)) c) = map (code_in (seen_dict rows)) c"
    if "map ((!) rows) (first_row l) = seen_dict c" "set c \<subseteq> set rows" for l c
  proof -
    have "map (\<lambda>row. the (map_of (zip (seen_dict rows) [0..<length (seen_dict rows)]) (rows ! row))) (first_row l)
        = map (\<lambda>s. the (map_of (zip (seen_dict rows) [0..<length (seen_dict rows)]) s)) (seen_dict c)"
      unfolding that(1) [symmetric] by simp
    then show ?thesis using that(2) by (auto simp: remap_def zip_codes)
  qed
  have "concat (map remap locals) = map (code_in (seen_dict rows)) (concat cs)" if "set (concat cs) \<subseteq> set rows"
    using enc that by (induction rule: list_all2_induct) (auto simp: chunk)
  then have "concat (map remap locals) = map (code_in (seen_dict rows)) rows" using cs by simp
  then show ?thesis
    unfolding dictionary_encode_parallel_def Let_def cs_def [symmetric] locals_def [symmetric] R_def [symmetric] order
      remap_def Let_def by simp
qed

section \<open>Columns\<close>

definition var_rows :: "int list \<Rightarrow> string \<Rightarrow> string list" where
  "var_rows offs bytes = map (\<lambda>i. slice_of offs i bytes) [0..<length offs - 1]"

definition DICT_ENCODE_GRAIN :: nat where "DICT_ENCODE_GRAIN = 2 ^ 16"

definition dictionary_encode_w :: "bool \<Rightarrow> bool \<Rightarrow> int list \<Rightarrow> string \<Rightarrow> nulls \<Rightarrow> 'a column" where
  "dictionary_encode_w parallel_backend wide offs bytes v =
     (let rows = var_rows offs bytes;
          (codes, dict) = (if parallel_backend \<and> DICT_ENCODE_GRAIN < length rows
                           then dictionary_encode_parallel DICT_ENCODE_GRAIN rows
                           else dictionary_encode_serial rows) in
      DictCol (map int codes) (VarCol wide (running_offsets wide dict) (concat dict) None) v)"

definition dictionary_encode :: "bool \<Rightarrow> 'a \<Rightarrow> 'a column \<Rightarrow> 'a column option" where
  "dictionary_encode parallel_backend zero c =
     (case (if is_flat c then Some c else materialize zero c) of
        Some (VarCol wide offs bytes v) \<Rightarrow> Some (dictionary_encode_w parallel_backend wide offs bytes v)
      | _ \<Rightarrow> None)"

text \<open>
  C40: the parallel dictionary build gives the codes and the dictionary of the single pass, for every grain:
  the strings in the order of their first row, and each row the position of its string.
\<close>

theorem parallel_encode_is_serial:
  assumes "0 < G"
  shows "dictionary_encode_parallel G rows = dictionary_encode_serial rows"
  using dictionary_encode_parallel_codes [OF assms] by (simp add: dictionary_encode_serial_codes)

lemma parallel_encode_is_serial_witness:
  "dictionary_encode_parallel 2 [''b'', ''a'', ''a'', ''c'', ''b''] = ([0, 1, 1, 2, 0], [''b'', ''a'', ''c''])"
proof -
  have "dictionary_encode_serial [''b'', ''a'', ''a'', ''c'', ''b''] = ([0, 1, 1, 2, 0], [''b'', ''a'', ''c''])" by code_simp
  then show ?thesis using parallel_encode_is_serial [of 2 "[''b'', ''a'', ''a'', ''c'', ''b'']"] by simp
qed

text \<open>
  A dictionary-encoded column is well formed and has the cells of the string column it encodes, nulls
  included, on either path.
\<close>

theorem dictionary_encode_cells:
  assumes "col_ok (VarCol wide offs bytes v)" "int (length (concat (seen_dict (var_rows offs bytes)))) < off_limit wide"
  shows "\<exists>d. dictionary_encode par zero (VarCol wide offs bytes v) = Some d \<and> col_ok d \<and> cells d = cells (VarCol wide offs bytes v)"
proof -
  let ?rows = "var_rows offs bytes"
  have "(if par \<and> DICT_ENCODE_GRAIN < length ?rows then dictionary_encode_parallel DICT_ENCODE_GRAIN ?rows
         else dictionary_encode_serial ?rows) = (map (code_in (seen_dict ?rows)) ?rows, seen_dict ?rows)"
    by (simp add: dictionary_encode_serial_codes dictionary_encode_parallel_codes DICT_ENCODE_GRAIN_def)
  then have d: "dictionary_encode par zero (VarCol wide offs bytes v)
      = Some (DictCol (map int (map (code_in (seen_dict ?rows)) ?rows))
                (VarCol wide (seg_offsets (seen_dict ?rows)) (concat (seen_dict ?rows)) None) v)" (is "_ = Some ?d")
    by (simp add: dictionary_encode_def dictionary_encode_w_def Let_def running_offsets_seg [OF assms(2)])
  have entry: "slice_of (seg_offsets (seen_dict ?rows)) (code_in (seen_dict ?rows) s) (concat (seen_dict ?rows)) = s" if "s \<in> set ?rows" for s
    using seg_slice [of "code_in (seen_dict ?rows) s" "seen_dict ?rows"] that by simp
  have "col_ok ?d" using assms(1) seg_offs_ok [of "seen_dict ?rows"]
    by (auto simp: list_all_iff nulls_ok_def var_rows_def split: option.splits)
  moreover have "cells ?d = cells (VarCol wide offs bytes v)"
    using entry by (intro nth_equalityI) (auto simp: var_rows_def bit_valid_def)
  ultimately show ?thesis using d by blast
qed

lemma dictionary_encode_cells_witness:
  "\<exists>d. dictionary_encode True 0 (VarCol False [0, 1, 1, 2] ''aa'' (Some [True, False, True]) :: nat column) = Some d
     \<and> cells d = [Some (Str ''a''), None, Some (Str ''a'')]"
proof -
  have "col_ok (VarCol False [0, 1, 1, 2] ''aa'' (Some [True, False, True]) :: nat column)"
    "int (length (concat (seen_dict (var_rows [0, 1, 1, 2] ''aa'')))) < off_limit False" by code_simp+
  note dictionary_encode_cells [OF this, of True 0]
  moreover have "cells (VarCol False [0, 1, 1, 2] ''aa'' (Some [True, False, True]) :: nat column)
     = [Some (Str ''a''), None, Some (Str ''a'')]" by code_simp
  ultimately show ?thesis by metis
qed

text \<open>Materialising the encoded column loses the null again (\<open>dictionary_nulls_lost\<close>).\<close>

lemma encode_then_materialize:
  "map_option cells (Option.bind (dictionary_encode False 0 (VarCol False [0, 1, 1] ''a'' (Some [True, False]) :: nat column)) (materialize 0))
     = Some [Some (Str ''a''), Some (Str '''')]"
  by code_simp

end
