(* ===== verification/PrefixScan.thy ===== *)
theory PrefixScan
  imports DictEncode
begin

text \<open>
  The running scans of the dataframe engine (\<^verbatim>\<open>dataframe/kernels/elementwise.cpp\<close>, \<^verbatim>\<open>dataframe/parallel.h\<close>):
  the log-step scan inside a vector, the block loop that carries the last lane, the two-pass parallel scan,
  and the null-aware scans. The scan's operation is a locale, \<open>scan_monoid\<close>: what the vector steps need of
  it. Integers are words of their width, so sums and products wrap.
\<close>

section \<open>The scans\<close>

text \<open>The scalar loop with its carry; the reference of every other scan.\<close>

fun scan_from :: "('a \<Rightarrow> 'a \<Rightarrow> 'a) \<Rightarrow> 'a \<Rightarrow> 'a list \<Rightarrow> 'a list" where
  "scan_from opr carry [] = []"
| "scan_from opr carry (x # xs) = (let c = opr carry x in c # scan_from opr c xs)"

definition scan_step :: "('a \<Rightarrow> 'a \<Rightarrow> 'a) \<Rightarrow> 'a \<Rightarrow> nat \<Rightarrow> nat \<Rightarrow> 'a list \<Rightarrow> 'a list" where
  "scan_step opr ident max_lanes S v =
     (if S < max_lanes then map (\<lambda>i. opr (v ! i) (if i < S then ident else v ! (i - S))) [0..<length v] else v)"

definition inclusive_scan :: "('a \<Rightarrow> 'a \<Rightarrow> 'a) \<Rightarrow> 'a \<Rightarrow> nat \<Rightarrow> 'a list \<Rightarrow> 'a list" where
  "inclusive_scan opr ident max_lanes v = fold (scan_step opr ident max_lanes) [1, 2, 4, 8, 16, 32] v"

function block_scan :: "('a \<Rightarrow> 'a \<Rightarrow> 'a) \<Rightarrow> 'a \<Rightarrow> nat \<Rightarrow> nat \<Rightarrow> 'a \<Rightarrow> 'a list \<Rightarrow> 'a list" where
  "block_scan opr ident max_lanes lanes carry xs =
     (if 0 < lanes \<and> lanes \<le> length xs then
        let v = map (\<lambda>x. opr x carry) (inclusive_scan opr ident max_lanes (take lanes xs)) in
        v @ block_scan opr ident max_lanes lanes (v ! (lanes - 1)) (drop lanes xs)
      else scan_from opr carry xs)"
  by auto
termination by (relation "measure (\<lambda>(opr, ident, max_lanes, lanes, carry, xs). length xs)") auto

declare block_scan.simps [simp del]

definition SCAN_SIMD_MIN_LANES :: nat where "SCAN_SIMD_MIN_LANES = 8"

definition cum_impl :: "('a \<Rightarrow> 'a \<Rightarrow> 'a) \<Rightarrow> 'a \<Rightarrow> nat \<Rightarrow> nat \<Rightarrow> 'a list \<Rightarrow> 'a list" where
  "cum_impl opr ident max_lanes lanes xs =
     (if lanes < SCAN_SIMD_MIN_LANES then scan_from opr ident xs
      else block_scan opr ident max_lanes lanes ident xs)"

text \<open>\<^verbatim>\<open>parallel_prefix_scan\<close>: every chunk is scanned on its own, then takes what the chunks before it hold.\<close>

fun chunk_offsets :: "('a \<Rightarrow> 'a \<Rightarrow> 'a) \<Rightarrow> 'a \<Rightarrow> 'a list \<Rightarrow> 'a list" where
  "chunk_offsets opr acc [] = []"
| "chunk_offsets opr acc (t # ts) = acc # chunk_offsets opr (opr acc t) ts"

definition parallel_prefix_scan ::
  "bool \<Rightarrow> nat \<Rightarrow> ('a \<Rightarrow> 'a \<Rightarrow> 'a) \<Rightarrow> 'a \<Rightarrow> ('b list \<Rightarrow> 'a list) \<Rightarrow> 'b list \<Rightarrow> 'a list" where
  "parallel_prefix_scan backend grain opr ident chunk_scan xs =
     (if xs = [] then []
      else if \<not> backend \<or> length xs \<le> grain then chunk_scan xs
      else let scanned = map chunk_scan (chunks_of grain xs);
               offs = chunk_offsets opr ident (map List.last scanned) in
           concat (map (\<lambda>(off, c). map (opr off) c) (zip offs scanned)))"

definition CUM_SCAN_GRAIN :: nat where "CUM_SCAN_GRAIN = 2 ^ 20"

definition cum_scan :: "bool \<Rightarrow> ('a \<Rightarrow> 'a \<Rightarrow> 'a) \<Rightarrow> 'a \<Rightarrow> nat \<Rightarrow> nat \<Rightarrow> 'a list \<Rightarrow> 'a list" where
  "cum_scan backend opr ident max_lanes lanes xs =
     parallel_prefix_scan backend CUM_SCAN_GRAIN opr ident (cum_impl opr ident max_lanes lanes) xs"

section \<open>What a scan needs of its operation\<close>

locale scan_monoid =
  fixes opr :: "'a \<Rightarrow> 'a \<Rightarrow> 'a" and ident :: 'a
  assumes assoc: "opr (opr a b) c = opr a (opr b c)"
    and comm: "opr a b = opr b a"
    and left_ident: "opr ident a = a"
begin

lemma right_ident: "opr a ident = a"
  using comm left_ident by metis

lemma foldl_start: "foldl opr a xs = opr a (foldl opr ident xs)"
proof (induction xs rule: rev_induct)
  case (snoc x xs)
  then show ?case by (simp add: assoc)
qed (simp add: right_ident)

definition window :: "'a list \<Rightarrow> nat \<Rightarrow> nat \<Rightarrow> 'a" where
  "window xs a b = foldl opr ident (take (b - a) (drop a xs))"

lemma window_append:
  assumes "a \<le> b" "b \<le> c"
  shows "opr (window xs a b) (window xs b c) = window xs a c"
proof -
  have "take (c - a) (drop a xs) = take (b - a) (drop a xs) @ take (c - b) (drop b xs)"
    using assms take_add [of "b - a" "c - b" "drop a xs"] by simp
  then show ?thesis unfolding window_def by (simp add: foldl_start [of "foldl opr ident (take (b - a) (drop a xs))"])
qed

lemma window_one: "i < length xs \<Longrightarrow> window xs i (Suc i) = xs ! i"
  by (simp add: window_def take_Suc hd_drop_conv_nth left_ident)

lemma scan_from_nth: "i < length xs \<Longrightarrow> scan_from opr c xs ! i = opr c (window xs 0 (Suc i))"
proof (induction xs arbitrary: c i)
  case (Cons x xs)
  show ?case
  proof (cases i)
    case 0
    then show ?thesis by (simp add: window_def Let_def left_ident)
  next
    case (Suc j)
    have "window (x # xs) 0 (Suc (Suc j)) = opr x (window xs 0 (Suc j))"
      using foldl_start [of "opr ident x"] by (simp add: window_def left_ident)
    then show ?thesis using Cons Suc by (simp add: Let_def assoc)
  qed
qed simp

lemma length_scan_from [simp]: "length (scan_from opr c xs) = length xs"
  by (induction xs arbitrary: c) (simp_all add: Let_def)

lemma scan_from_append:
  "scan_from opr c (xs @ ys) = scan_from opr c xs @ scan_from opr (foldl opr c xs) ys"
  by (induction xs arbitrary: c) (simp_all add: Let_def)

lemma scan_from_carry: "scan_from opr c xs = map (opr c) (scan_from opr ident xs)"
  by (intro nth_equalityI) (simp_all add: scan_from_nth left_ident)

lemma last_scan_from: "xs \<noteq> [] \<Longrightarrow> List.last (scan_from opr c xs) = foldl opr c xs"
proof (induction xs arbitrary: c)
  case (Cons x xs)
  then show ?case by (cases xs) (simp_all add: Let_def)
qed simp

text \<open>After the step of distance \<open>S\<close> every lane holds the window of the last \<open>2 * S\<close> inputs.\<close>

definition lanes_hold :: "nat \<Rightarrow> 'a list \<Rightarrow> 'a list \<Rightarrow> bool" where
  "lanes_hold w xs v \<longleftrightarrow> length v = length xs \<and> (\<forall>i < length xs. v ! i = window xs (Suc i - w) (Suc i))"

lemma scan_step_holds:
  assumes "lanes_hold S xs v" "length xs \<le> max_lanes" "0 < S"
  shows "lanes_hold (2 * S) xs (scan_step opr ident max_lanes S v)"
proof (cases "S < max_lanes")
  case False
  then have "Suc i - 2 * S = Suc i - S" if "i < length xs" for i using that assms(2) by simp
  then show ?thesis using assms(1) False by (simp add: lanes_hold_def scan_step_def)
next
  case True
  have "opr (v ! i) (if i < S then ident else v ! (i - S)) = window xs (Suc i - 2 * S) (Suc i)" if i: "i < length xs" for i
  proof (cases "i < S")
    case True
    then show ?thesis using assms(1) i by (simp add: lanes_hold_def right_ident)
  next
    case False
    then have "Suc (i - S) = Suc i - S" "i - S < length xs" using i by linarith+
    then have "opr (v ! i) (v ! (i - S)) = opr (window xs (Suc i - S - S) (Suc i - S)) (window xs (Suc i - S) (Suc i))"
      using assms(1) i by (metis comm lanes_hold_def)
    also have "\<dots> = window xs (Suc i - S - S) (Suc i)" by (rule window_append) simp_all
    also have "Suc i - S - S = Suc i - 2 * S" by simp
    finally show ?thesis using False by simp
  qed
  moreover have "scan_step opr ident max_lanes S v ! i = opr (v ! i) (if i < S then ident else v ! (i - S))"
    if "i < length xs" for i using that True assms(1) by (simp add: scan_step_def lanes_hold_def)
  moreover have "length (scan_step opr ident max_lanes S v) = length xs"
    using assms(1) by (simp add: scan_step_def lanes_hold_def)
  ultimately show ?thesis by (simp add: lanes_hold_def)
qed

lemma inclusive_scan_exact:
  assumes "length xs \<le> max_lanes" "length xs \<le> 64"
  shows "inclusive_scan opr ident max_lanes xs = scan_from opr ident xs"
proof -
  have "lanes_hold 1 xs xs" by (simp add: lanes_hold_def window_one)
  note h1 = scan_step_holds [OF this assms(1), simplified]
  note h2 = scan_step_holds [OF h1 assms(1), simplified]
  note h4 = scan_step_holds [OF h2 assms(1), simplified]
  note h8 = scan_step_holds [OF h4 assms(1), simplified]
  note h16 = scan_step_holds [OF h8 assms(1), simplified]
  have "lanes_hold 64 xs (inclusive_scan opr ident max_lanes xs)"
    using scan_step_holds [OF h16 assms(1)] by (simp add: inclusive_scan_def)
  then show ?thesis using assms(2)
    by (intro nth_equalityI) (simp_all add: lanes_hold_def scan_from_nth left_ident)
qed

lemma block_scan_exact:
  assumes "lanes \<le> max_lanes" "lanes \<le> 64"
  shows "block_scan opr ident max_lanes lanes carry xs = scan_from opr carry xs"
proof (induction xs arbitrary: carry rule: length_induct)
  case (1 xs)
  show ?case
  proof (cases "0 < lanes \<and> lanes \<le> length xs")
    case True
    let ?b = "take lanes xs"
    have "inclusive_scan opr ident max_lanes ?b = scan_from opr ident ?b"
      using assms by (intro inclusive_scan_exact) simp_all
    then have v: "map (\<lambda>x. opr x carry) (inclusive_scan opr ident max_lanes ?b) = scan_from opr carry ?b"
      unfolding scan_from_carry [of carry] by (simp add: comm)
    have "?b \<noteq> []" "length ?b = lanes" using True by auto
    then have "scan_from opr carry ?b ! (lanes - 1) = foldl opr carry ?b"
      using last_scan_from [of ?b carry] last_conv_nth [of "scan_from opr carry ?b"]
      by (metis length_0_conv length_scan_from)
    moreover have "block_scan opr ident max_lanes lanes c (drop lanes xs) = scan_from opr c (drop lanes xs)" for c
    proof -
      have "length (drop lanes xs) < length xs" using True unfolding length_drop by linarith
      then show ?thesis using 1 by blast
    qed
    ultimately show ?thesis using True scan_from_append [of carry ?b "drop lanes xs"]
      by (simp add: block_scan.simps [of opr ident max_lanes lanes carry xs] v Let_def)
  next
    case False
    then show ?thesis by (subst block_scan.simps) auto
  qed
qed

lemma cum_impl_exact:
  "lanes \<le> max_lanes \<Longrightarrow> lanes \<le> 64 \<Longrightarrow> cum_impl opr ident max_lanes lanes xs = scan_from opr ident xs"
  by (simp add: cum_impl_def block_scan_exact)

lemma chunks_scan:
  assumes "list_all (\<lambda>c. c \<noteq> []) cs"
  shows "concat (map (\<lambda>(off, c). map (opr off) c)
           (zip (chunk_offsets opr acc (map List.last (map (scan_from opr ident) cs))) (map (scan_from opr ident) cs)))
       = scan_from opr acc (concat cs)"
  using assms
proof (induction cs arbitrary: acc)
  case (Cons c cs)
  have "opr acc (List.last (scan_from opr ident c)) = foldl opr acc c"
    using Cons.prems last_scan_from [of c ident] foldl_start [of acc c] by simp
  then show ?case using Cons by (simp add: scan_from_append scan_from_carry [of acc c])
qed simp

lemma parallel_scan_exact:
  assumes "0 < grain"
  shows "parallel_prefix_scan backend grain opr ident (scan_from opr ident) xs = scan_from opr ident xs"
proof -
  have "list_all (\<lambda>c. c \<noteq> []) (chunks_of grain xs)"
    using assms by (induction grain xs rule: chunks_of.induct) (simp add: chunks_of.simps)
  then show ?thesis using chunks_scan [of "chunks_of grain xs" ident] concat_chunks_of [OF assms, of xs]
    by (simp add: parallel_prefix_scan_def Let_def)
qed

lemma cum_scan_exact:
  assumes "lanes \<le> max_lanes" "lanes \<le> 64"
  shows "cum_scan backend opr ident max_lanes lanes xs = scan_from opr ident xs"
proof -
  have "cum_impl opr ident max_lanes lanes = scan_from opr ident" using cum_impl_exact [OF assms] by blast
  then show ?thesis using parallel_scan_exact [of CUM_SCAN_GRAIN] by (simp add: cum_scan_def CUM_SCAN_GRAIN_def)
qed

end

section \<open>The scans of the columns\<close>

text \<open>
  \<open>IS_MAX\<close> picks the extreme. The element type is a parameter: \<open>ord\<close> is its order, \<open>ident\<close> the
  \<^verbatim>\<open>lowest()\<close> or \<^verbatim>\<open>max()\<close> that the dense scan starts from, \<open>zero\<close> the value \<^verbatim>\<open>T{}\<close>. For a column of words
  these are the signed or unsigned order and its bounds; for a column of floats (without NaN) the order of the
  floats and the largest finite ones, and \<open>+\<close> and \<open>*\<close> are those of the floats, which round.
\<close>

definition extreme :: "bool \<Rightarrow> ('a \<Rightarrow> 'b::linorder) \<Rightarrow> 'a \<Rightarrow> 'a \<Rightarrow> 'a" where
  "extreme is_max ord a b =
     (if is_max then (if ord a < ord b then b else a) else (if ord b < ord a then b else a))"

definition word_order :: "bool \<Rightarrow> 'a::len word \<Rightarrow> int" where
  "word_order is_signed w = (if is_signed then sint w else uint w)"

definition extreme_ident :: "bool \<Rightarrow> bool \<Rightarrow> 'a::len word" where
  "extreme_ident is_signed is_max =
     (if is_signed then (if is_max then word_of_int (- (2 ^ (LENGTH('a) - 1))) else word_of_int (2 ^ (LENGTH('a) - 1) - 1))
      else (if is_max then 0 else - 1))"

definition cumsum_dense :: "bool \<Rightarrow> nat \<Rightarrow> nat \<Rightarrow> 'a::{plus,zero} list \<Rightarrow> 'a list" where
  "cumsum_dense backend max_lanes lanes xs = cum_scan backend (+) 0 max_lanes lanes xs"

definition cumprod_dense :: "bool \<Rightarrow> nat \<Rightarrow> nat \<Rightarrow> 'a::{times,one} list \<Rightarrow> 'a list" where
  "cumprod_dense backend max_lanes lanes xs = cum_scan backend (*) 1 max_lanes lanes xs"

definition cumextreme_dense ::
  "('a \<Rightarrow> 'b::linorder) \<Rightarrow> 'a \<Rightarrow> bool \<Rightarrow> bool \<Rightarrow> nat \<Rightarrow> nat \<Rightarrow> 'a list \<Rightarrow> 'a list" where
  "cumextreme_dense ord ident is_max backend max_lanes lanes xs =
     cum_scan backend (extreme is_max ord) ident max_lanes lanes xs"

text \<open>The null-aware loops: a null row repeats the accumulator.\<close>

fun acc_valid :: "('a \<Rightarrow> 'a \<Rightarrow> 'a) \<Rightarrow> 'a \<Rightarrow> ('a \<times> bool) list \<Rightarrow> 'a list" where
  "acc_valid opr acc [] = []"
| "acc_valid opr acc ((x, ok) # xs) = (let a = if ok then opr acc x else acc in a # acc_valid opr a xs)"

fun cumextreme_one :: "bool \<Rightarrow> ('a \<Rightarrow> 'b::linorder) \<Rightarrow> 'a \<Rightarrow> bool \<Rightarrow> ('a \<times> bool) list \<Rightarrow> 'a list" where
  "cumextreme_one is_max ord acc seen [] = []"
| "cumextreme_one is_max ord acc seen ((x, ok) # xs) =
     (let (a, s) = (if ok then (if \<not> seen then (x, True)
                               else if is_max then (if ord acc < ord x then (x, True) else (acc, True))
                               else if ord x < ord acc then (x, True) else (acc, True))
                    else (acc, seen)) in
      a # cumextreme_one is_max ord a s xs)"

definition with_valid :: "'a list \<Rightarrow> nulls \<Rightarrow> ('a \<times> bool) list" where
  "with_valid xs v = zip xs (map (bit_valid v) [0..<length xs])"

definition series_cumsum :: "bool \<Rightarrow> nat \<Rightarrow> nat \<Rightarrow> 'a::{plus,zero} list \<Rightarrow> nulls \<Rightarrow> 'a list \<times> nulls" where
  "series_cumsum backend max_lanes lanes xs v =
     (if v = None then cumsum_dense backend max_lanes lanes xs else acc_valid (+) 0 (with_valid xs v), v)"

definition series_cumprod :: "bool \<Rightarrow> nat \<Rightarrow> nat \<Rightarrow> 'a::{times,one} list \<Rightarrow> nulls \<Rightarrow> 'a list \<times> nulls" where
  "series_cumprod backend max_lanes lanes xs v =
     (if v = None then cumprod_dense backend max_lanes lanes xs else acc_valid (*) 1 (with_valid xs v), v)"

definition series_cumextreme ::
  "('a \<Rightarrow> 'b::linorder) \<Rightarrow> 'a \<Rightarrow> 'a \<Rightarrow> bool \<Rightarrow> bool \<Rightarrow> nat \<Rightarrow> nat \<Rightarrow> 'a list \<Rightarrow> nulls \<Rightarrow> 'a list \<times> nulls" where
  "series_cumextreme ord ident zero is_max backend max_lanes lanes xs v =
     (if v = None then cumextreme_dense ord ident is_max backend max_lanes lanes xs
      else cumextreme_one is_max ord zero False (with_valid xs v), v)"

interpretation add_scan: scan_monoid "(+)" "0 :: 'a::len word"
  by unfold_locales (simp_all add: add.assoc add.commute)

interpretation mult_scan: scan_monoid "(*)" "1 :: 'a::len word"
  by unfold_locales (simp_all add: mult.assoc mult.commute)

lemma word_order_inj:
  fixes a b :: "'a::len word"
  shows "word_order is_signed a = word_order is_signed b \<longleftrightarrow> a = b"
proof -
  have "a = b" if "sint a = sint b" using arg_cong [OF that, of "word_of_int :: int \<Rightarrow> 'a word"] by simp
  moreover have "a = b" if "uint a = uint b" using arg_cong [OF that, of "word_of_int :: int \<Rightarrow> 'a word"] by simp
  ultimately show ?thesis by (auto simp: word_order_def)
qed

lemma extreme_ident_bound:
  fixes a :: "'a::len word"
  shows "is_max \<Longrightarrow> word_order is_signed (extreme_ident is_signed is_max :: 'a word) \<le> word_order is_signed a"
    and "\<not> is_max \<Longrightarrow> word_order is_signed a \<le> word_order is_signed (extreme_ident is_signed is_max :: 'a word)"
proof -
  have pos: "(0::int) < 2 ^ (LENGTH('a) - 1)" by simp
  have s: "sint (word_of_int i :: 'a word) = i" if "- (2 ^ (LENGTH('a) - 1)) \<le> i" "i < 2 ^ (LENGTH('a) - 1)" for i :: int
    using that by (simp add: sint_sbintrunc' signed_take_bit_int_eq_self)
  have b: "- (2 ^ (LENGTH('a) - 1)) \<le> sint a" "sint a \<le> 2 ^ (LENGTH('a) - 1) - 1"
    using sint_range_size [of a] by (simp_all add: size_word.rep_eq)
  show "is_max \<Longrightarrow> word_order is_signed (extreme_ident is_signed is_max :: 'a word) \<le> word_order is_signed a"
    using b s [of "- (2 ^ (LENGTH('a) - 1))"] pos by (auto simp: word_order_def extreme_ident_def)
  show "\<not> is_max \<Longrightarrow> word_order is_signed a \<le> word_order is_signed (extreme_ident is_signed is_max :: 'a word)"
    using b s [of "2 ^ (LENGTH('a) - 1) - 1"] pos by (auto simp: word_order_def extreme_ident_def word_le_def [symmetric])
qed

interpretation extreme_scan: scan_monoid "extreme is_max (word_order is_signed)" "extreme_ident is_signed is_max :: 'a::len word"
  for is_signed is_max
proof
  fix a b c :: "'a word"
  show "extreme is_max (word_order is_signed) (extreme is_max (word_order is_signed) a b) c
      = extreme is_max (word_order is_signed) a (extreme is_max (word_order is_signed) b c)"
    by (auto simp: extreme_def)
  show "extreme is_max (word_order is_signed) a b = extreme is_max (word_order is_signed) b a"
    using word_order_inj [of is_signed a b] by (auto simp: extreme_def)
  show "extreme is_max (word_order is_signed) (extreme_ident is_signed is_max) a = a"
    using extreme_ident_bound [where 'a = 'a, of is_max is_signed a] word_order_inj [of is_signed "extreme_ident is_signed is_max" a]
    by (cases is_max) (auto simp: extreme_def)
qed

section \<open>What the scans compute\<close>

lemma acc_valid_nth:
  "i < length ps \<Longrightarrow> acc_valid opr a ps ! i = foldl opr a (map fst (filter snd (take (Suc i) ps)))"
proof (induction opr a ps arbitrary: i rule: acc_valid.induct)
  case (2 opr acc x ok xs)
  then show ?case by (cases i) (auto simp: Let_def)
qed simp

lemma cumextreme_one_nth:
  "i < length ps \<Longrightarrow> cumextreme_one is_max ord a seen ps ! i =
     (case (if seen then a # map fst (filter snd (take (Suc i) ps)) else map fst (filter snd (take (Suc i) ps))) of
        [] \<Rightarrow> a | y # ys \<Rightarrow> foldl (extreme is_max ord) y ys)"
proof (induction is_max ord a seen ps arbitrary: i rule: cumextreme_one.induct)
  case (2 is_max ord acc seen x ok xs)
  show ?case
  proof (cases i)
    case 0
    then show ?thesis by (auto simp: Let_def extreme_def)
  next
    case (Suc j)
    then have j: "j < length xs" using 2(2) by simp
    show ?thesis using 2(1) [OF _ _ j] Suc by (auto simp: Let_def extreme_def split: if_splits list.splits)
  qed
qed simp

lemma with_valid_dense: "with_valid xs None = map (\<lambda>x. (x, True)) xs"
  by (intro nth_equalityI) (simp_all add: with_valid_def bit_valid_def)

lemma length_with_valid [simp]: "length (with_valid xs v) = length xs" by (simp add: with_valid_def)

definition valid_prefix :: "'a list \<Rightarrow> nulls \<Rightarrow> nat \<Rightarrow> 'a list" where
  "valid_prefix xs v i = map fst (filter snd (take (Suc i) (with_valid xs v)))"

lemma valid_prefix_dense: "valid_prefix xs None i = take (Suc i) xs"
  by (simp add: valid_prefix_def with_valid_dense take_map filter_map comp_def)

lemma acc_valid_prefix:
  "i < length xs \<Longrightarrow> acc_valid opr a (with_valid xs v) ! i = foldl opr a (valid_prefix xs v i)"
  by (simp add: acc_valid_nth valid_prefix_def)

lemma scan_from_foldl: "i < length xs \<Longrightarrow> scan_from opr a xs ! i = foldl opr a (take (Suc i) xs)"
proof (induction xs arbitrary: a i)
  case (Cons x xs)
  then show ?case by (cases i) (simp_all add: Let_def)
qed simp

text \<open>
  C11: over a column of machine integers of any width, signed or not, row \<open>i\<close> of a running sum or product
  is the wrapped sum or product of the valid values up to row \<open>i\<close>, and of a running maximum or minimum
  their extreme (zero before the first valid value); the validity is the input's. Columns of floats are
  outside: there the vector and parallel sums associate in another order, with other roundings, and an
  infinity lies below the identity of the extremes (\<open>extreme_below_identity\<close>). It holds of the scalar loop, of the log-step vector scan with its carry, of the
  two-pass parallel scan and of the null-aware loop, whatever the vector length and the backend.
\<close>

theorem running_scans_exact:
  fixes xs :: "'a::len word list"
  assumes "lanes \<le> max_lanes" "lanes \<le> 64" "i < length xs"
  shows "fst (series_cumsum backend max_lanes lanes xs v) ! i = foldl (+) 0 (valid_prefix xs v i)
    \<and> fst (series_cumprod backend max_lanes lanes xs v) ! i = foldl (*) 1 (valid_prefix xs v i)
    \<and> fst (series_cumextreme (word_order is_signed) (extreme_ident is_signed is_max) 0 is_max backend max_lanes lanes xs v) ! i =
        (case valid_prefix xs v i of [] \<Rightarrow> 0 | y # ys \<Rightarrow> foldl (extreme is_max (word_order is_signed)) y ys)
    \<and> snd (series_cumsum backend max_lanes lanes xs v) = v"
proof (cases v)
  case None
  have "take (Suc i) xs \<noteq> []" using assms(3) by auto
  then obtain y ys where y: "take (Suc i) xs = y # ys" by (cases "take (Suc i) xs") auto
  have "foldl (extreme is_max (word_order is_signed)) (extreme_ident is_signed is_max) (y # ys)
      = foldl (extreme is_max (word_order is_signed)) y ys" by (simp add: extreme_scan.left_ident)
  then show ?thesis using None assms y
    by (simp add: series_cumsum_def series_cumprod_def series_cumextreme_def cumsum_dense_def cumprod_dense_def
        cumextreme_dense_def add_scan.cum_scan_exact mult_scan.cum_scan_exact extreme_scan.cum_scan_exact
        scan_from_foldl valid_prefix_dense)
next
  case (Some bm)
  then show ?thesis using assms(3) cumextreme_one_nth [of i "with_valid xs v" is_max "word_order is_signed" 0 False]
    by (simp add: series_cumsum_def series_cumprod_def series_cumextreme_def acc_valid_prefix)
       (simp add: valid_prefix_def)
qed

lemma running_scans_exact_witness:
  "fst (series_cumsum True 16 16 [100, 100, 100 :: 8 word] None) ! 2 = 44
   \<and> fst (series_cumextreme (word_order True) (extreme_ident True True) 0 True True 16 16 [3, -1, 7 :: 8 word] (Some [True, True, False])) ! 2 = 3"
proof -
  have "valid_prefix [100, 100, 100 :: 8 word] None 2 = [100, 100, 100]" by code_simp
  moreover have "valid_prefix [3, -1, 7 :: 8 word] (Some [True, True, False]) 2 = [3, -1]" by code_simp
  moreover have "extreme True (word_order True) (3 :: 8 word) (-1) = 3" by (simp add: extreme_def word_order_def)
  ultimately show ?thesis
    using running_scans_exact [of 16 16 2 "[100, 100, 100 :: 8 word]" True None True True]
      running_scans_exact [of 16 16 2 "[3, -1, 7 :: 8 word]" True "Some [True, True, False]" True True] by simp
qed

text \<open>
  The dense extreme scan starts from the identity of its type. Where a value lies below it, as minus
  infinity lies below \<^verbatim>\<open>numeric_limits<double>::lowest()\<close>, the dense scan yields the identity and the
  null-aware loop the value.
\<close>

lemma extreme_below_identity:
  assumes "ord x < ord ident" "lanes < SCAN_SIMD_MIN_LANES"
  shows "fst (series_cumextreme ord ident zero True backend max_lanes lanes [x] None) = [ident]"
    and "fst (series_cumextreme ord ident zero True backend max_lanes lanes [x] (Some [True])) = [x]"
proof -
  have "\<not> ord ident < ord x" using assms(1) by simp
  note eqs = series_cumextreme_def cumextreme_dense_def cum_scan_def parallel_prefix_scan_def cum_impl_def
      CUM_SCAN_GRAIN_def extreme_def with_valid_def bit_valid_def
  show "fst (series_cumextreme ord ident zero True backend max_lanes lanes [x] None) = [ident]"
    using assms \<open>\<not> ord ident < ord x\<close> by (simp add: eqs)
  show "fst (series_cumextreme ord ident zero True backend max_lanes lanes [x] (Some [True])) = [x]"
    by (simp add: eqs)
qed

section \<open>Counting, differences, filling, clipping\<close>

fun count_chunk :: "nat \<Rightarrow> bool list \<Rightarrow> nat list" where
  "count_chunk acc [] = []"
| "count_chunk acc (ok # oks) = (let a = if ok then Suc acc else acc in a # count_chunk a oks)"

definition cum_count :: "bool \<Rightarrow> nulls \<Rightarrow> nat \<Rightarrow> nat list" where
  "cum_count backend v n =
     parallel_prefix_scan backend CUM_SCAN_GRAIN (+) 0 (count_chunk 0) (map (bit_valid v) [0..<n])"

interpretation count_scan: scan_monoid "(+)" "0 :: nat"
  by unfold_locales simp_all

lemma count_chunk_scan: "count_chunk a oks = scan_from (+) a (map (\<lambda>ok. if ok then 1 else 0) oks)"
  by (induction a oks rule: count_chunk.induct) (simp_all add: Let_def)

lemma chunks_of_map: "chunks_of G (map f xs) = map (map f) (chunks_of G xs)"
proof (induction G xs rule: chunks_of.induct)
  case (1 G xs)
  then show ?case by (cases "xs = [] \<or> G = 0") (auto simp: chunks_of.simps [of G xs] chunks_of.simps [of G "map f xs"] take_map drop_map)
qed

lemma cum_count_exact:
  "i < n \<Longrightarrow> cum_count backend v n ! i = length (filter (bit_valid v) [0..<Suc i])"
proof -
  assume i: "i < n"
  let ?one = "\<lambda>ok. if ok then 1 else (0::nat)" and ?oks = "map (bit_valid v) [0..<n]"
  have "cum_count backend v n = parallel_prefix_scan backend CUM_SCAN_GRAIN (+) 0 (scan_from (+) 0) (map ?one ?oks)"
    unfolding cum_count_def parallel_prefix_scan_def chunks_of_map by (simp add: count_chunk_scan comp_def)
  also have "\<dots> = scan_from (+) 0 (map ?one ?oks)" by (rule count_scan.parallel_scan_exact) (simp add: CUM_SCAN_GRAIN_def)
  finally have "cum_count backend v n ! i = foldl (+) 0 (map (\<lambda>j. ?one (bit_valid v j)) (take (Suc i) [0..<n]))"
    using i by (simp add: scan_from_foldl take_map comp_def)
  also have "take (Suc i) [0..<n] = [0..<Suc i]" using i by (simp del: upt_Suc)
  also have "foldl (+) 0 (map (\<lambda>j. ?one (bit_valid v j)) [0..<Suc i]) = length (filter (bit_valid v) [0..<Suc i])"
    by (induction i) simp_all
  finally show ?thesis .
qed

text \<open>The validity of a dense difference, filled byte by byte.\<close>

definition fill_valid_except_first :: "nat \<Rightarrow> 8 word list" where
  "fill_valid_except_first n =
     (if n = 0 then []
      else let nbytes = (n + 7) div 8;
               v = replicate nbytes (-1);
               v1 = v[0 := and (v ! 0) (not 1)];
               rest = n mod 8 in
           if rest \<noteq> 0 then v1[nbytes - 1 := and (v1 ! (nbytes - 1)) (2 ^ rest - 1)] else v1)"

definition bitmap_bit :: "8 word list \<Rightarrow> nat \<Rightarrow> bool" where
  "bitmap_bit v i \<longleftrightarrow> bit (v ! (i div 8)) (i mod 8)"

fun diff_loop :: "'a::len word option \<Rightarrow> ('a word \<times> bool) list \<Rightarrow> ('a word \<times> bool) list" where
  "diff_loop prev [] = []"
| "diff_loop prev ((x, ok) # xs) =
     (case prev of Some p \<Rightarrow> if ok then (x - p, True) else (0, False) | None \<Rightarrow> (0, False))
       # diff_loop (if ok then Some x else None) xs"

definition diff_data_one :: "'a::len word list \<Rightarrow> 'a word list" where
  "diff_data_one xs = map (\<lambda>i. if i = 0 then 0 else xs ! i - xs ! (i - 1)) [0..<length xs]"

definition fillna :: "'a list \<Rightarrow> nulls \<Rightarrow> 'a \<Rightarrow> 'a list" where
  "fillna xs v fill = map (\<lambda>i. if bit_valid v i then xs ! i else fill) [0..<length xs]"

definition clip_lane :: "'a::linorder \<Rightarrow> 'a \<Rightarrow> 'a \<Rightarrow> 'a" where "clip_lane l h a = min (max a l) h"

definition clip_tail :: "'a::linorder \<Rightarrow> 'a \<Rightarrow> 'a \<Rightarrow> 'a" where
  "clip_tail l h a = (if a < l then l else if h < a then h else a)"

definition clip_kernel :: "nat \<Rightarrow> 'a::linorder \<Rightarrow> 'a \<Rightarrow> 'a list \<Rightarrow> 'a list" where
  "clip_kernel lanes l h xs =
     (let m = length xs div lanes * lanes in map (clip_lane l h) (take m xs) @ map (clip_tail l h) (drop m xs))"

lemma clip_kernel_exact: "l \<le> h \<Longrightarrow> clip_kernel lanes l h xs = map (clip_tail l h) xs"
proof -
  assume "l \<le> h"
  then have "clip_lane l h = clip_tail l h" by (auto simp: clip_lane_def clip_tail_def fun_eq_iff min_def max_def)
  then show ?thesis by (simp add: clip_kernel_def Let_def flip: map_append)
qed

text \<open>With the bounds the wrong way round a row's value depends on whether a vector or the tail holds it.\<close>

lemma clip_kernel_crossed: "clip_kernel 2 10 0 [5, 5, 5 :: int] = [0, 0, 10]"
  by code_simp

lemma diff_dense: "diff_loop prev (map (\<lambda>x. (x, True)) xs) =
   (case xs of [] \<Rightarrow> [] | x # ys \<Rightarrow> (case prev of None \<Rightarrow> (0, False) | Some p \<Rightarrow> (x - p, True)) # map2 (\<lambda>a b. (b - a, True)) xs ys)"
proof (induction xs arbitrary: prev)
  case (Cons x xs)
  then show ?case by (cases xs) (simp_all split: option.splits)
qed simp

lemma byte_update:
  fixes v :: "'a::len word list"
  shows "k < length v \<Longrightarrow> m < length v \<Longrightarrow>
    bit (v[m := and (v ! m) w] ! k) j \<longleftrightarrow> bit (v ! k) j \<and> (k = m \<longrightarrow> bit w j)"
  by (auto simp: nth_list_update bit_and_iff)

lemma fill_valid_bits: "i < 8 * ((n + 7) div 8) \<Longrightarrow> bitmap_bit (fill_valid_except_first n) i \<longleftrightarrow> 0 < i \<and> i < n"
proof -
  assume i: "i < 8 * ((n + 7) div 8)"
  define q r where "q = n div 8" and "r = n mod 8"
  define k j where "k = i div 8" and "j = i mod 8"
  have n: "n = 8 * q + r" "r < 8" and ij: "i = 8 * k + j" "j < 8" by (simp_all add: q_def r_def k_def j_def)
  have nb: "(n + 7) div 8 = (if r = 0 then q else Suc q)" using n by auto
  have k: "k < (n + 7) div 8" using i by (simp add: k_def)
  have mask_bits: "bit (2 ^ r - 1 :: 8 word) j \<longleftrightarrow> j < r" using ij(2) by (simp add: mask_eq_exp_minus_1 [symmetric] bit_mask_iff)
  have first: "bit (not 1 :: 8 word) j \<longleftrightarrow> j \<noteq> 0" using ij(2) by (simp add: bit_not_iff bit_1_iff)
  have all: "bit (-1 :: 8 word) j" using ij(2) by simp
  define N where "N = (n + 7) div 8"
  define v :: "8 word list" where "v = replicate N (-1)"
  define v1 where "v1 = v[0 := and (v ! 0) (not 1)]"
  have N: "k < N" "0 < N" "n \<noteq> 0" and len: "length v = N" "length v1 = N" using k by (auto simp: N_def v_def v1_def)
  have v1: "bit (v1 ! k) j \<longleftrightarrow> (k = 0 \<longrightarrow> j \<noteq> 0)"
    using N len all first unfolding v1_def by (subst byte_update) (simp_all add: v_def)
  have "fill_valid_except_first n = (if r \<noteq> 0 then v1[N - 1 := and (v1 ! (N - 1)) (2 ^ r - 1)] else v1)"
    using N(3) by (simp add: fill_valid_except_first_def Let_def v1_def v_def N_def r_def)
  then have "bitmap_bit (fill_valid_except_first n) i \<longleftrightarrow> (k = 0 \<longrightarrow> j \<noteq> 0) \<and> (r \<noteq> 0 \<and> k = N - 1 \<longrightarrow> j < r)"
    using N len v1 mask_bits by (auto simp: bitmap_bit_def k_def [symmetric] j_def [symmetric] byte_update)
  also have "\<dots> \<longleftrightarrow> (k = 0 \<longrightarrow> j \<noteq> 0) \<and> (r \<noteq> 0 \<and> k = q \<longrightarrow> j < r)" using nb by (simp add: N_def)
  also have "\<dots> \<longleftrightarrow> 0 < i \<and> i < n" using n ij k nb by (auto split: if_splits)
  finally show ?thesis .
qed

end
