(* ===== verification/ExprCompile.thy ===== *)
theory ExprCompile
  imports Cstd "HOL-Library.Word"
begin

text \<open>
  The expression compiler of the dataframe engine (\<^verbatim>\<open>dataframe/expr.cpp\<close>): type inference, lowering of an
  expression to a slot program with hash-consing of equal operations, and the evaluation of the program.

  \<open>compile\<close> is one function over the operation that emits an instruction. With \<open>emit_op\<close> it is the
  compiler of the code, whose state is the program and the memo; with \<open>emit_tree\<close> it builds the tree of
  operations of the expression, the reference the program is compared with. Doubles are bit patterns
  and their arithmetic a parameter; so are the rows a kernel computes.
\<close>

section \<open>Types and scalars\<close>

datatype type_id =
    T_Unknown | T_Bool | T_Int8 | T_Int16 | T_Int32 | T_Int64 | T_Uint8 | T_Uint16 | T_Uint32 | T_Uint64
  | T_Float32 | T_Float64 | T_String | T_Binary | T_List | T_Struct | T_Float16 | T_Date32 | T_Date64 | T_Time32
  | T_Time64 | T_Timestamp | T_Duration | T_Decimal128 | T_Decimal256 | T_FixedSizeBinary | T_LargeString
  | T_LargeBinary | T_LargeList | T_FixedSizeList | T_Map

text \<open>A full type: the tag, and the parameters a parameterized type adds (\<open>None\<close> when all have their defaults).\<close>

record 'p data_type =
  dt_id :: type_id
  dt_rest :: "'p option"

definition scalar_type :: "type_id \<Rightarrow> 'p data_type" where "scalar_type t = \<lparr>dt_id = t, dt_rest = None\<rparr>"

datatype scalar_tag = TAG_I64 | TAG_U64 | TAG_F64 | TAG_STR

record dftu_scalar =
  s_kind :: scalar_tag
  s_len :: "32 word"
  s_bits :: "64 word"

definition zero_scalar :: dftu_scalar where "zero_scalar = \<lparr>s_kind = TAG_I64, s_len = 0, s_bits = 0\<rparr>"
definition i64_scalar :: "64 word \<Rightarrow> dftu_scalar" where "i64_scalar x = \<lparr>s_kind = TAG_I64, s_len = 0, s_bits = x\<rparr>"
definition f64_scalar :: "64 word \<Rightarrow> dftu_scalar" where "f64_scalar x = \<lparr>s_kind = TAG_F64, s_len = 0, s_bits = x\<rparr>"

text \<open>The double arithmetic of the processor, on bit patterns.\<close>

record float_ops =
  f_add :: "64 word \<Rightarrow> 64 word \<Rightarrow> 64 word"
  f_sub :: "64 word \<Rightarrow> 64 word \<Rightarrow> 64 word"
  f_mul :: "64 word \<Rightarrow> 64 word \<Rightarrow> 64 word"
  f_div :: "64 word \<Rightarrow> 64 word \<Rightarrow> 64 word"
  f_of_i64 :: "64 word \<Rightarrow> 64 word"
  f_of_u64 :: "64 word \<Rightarrow> 64 word"

definition scalar_to_double :: "float_ops \<Rightarrow> dftu_scalar \<Rightarrow> 64 word" where
  "scalar_to_double F s =
     (if s_kind s = TAG_I64 then f_of_i64 F (s_bits s)
      else if s_kind s = TAG_U64 then f_of_u64 F (s_bits s) else s_bits s)"

definition to_f64_scalar :: "float_ops \<Rightarrow> dftu_scalar \<Rightarrow> dftu_scalar" where
  "to_f64_scalar F s = f64_scalar (scalar_to_double F s)"

section \<open>Expressions and instructions\<close>

datatype binary_op = Add | Sub | Mul | Div
datatype unary_op = Abs | Round | Floor | Ceil | Log | Sqrt | Exp | Sign | Negate | Trunc | IsNan | IsFinite | IsInfinite

text \<open>The node kinds of \<^verbatim>\<open>ExprNode\<close>, each with the fields it uses; \<open>IsIn\<close> holds the handle and type of its value set.\<close>

datatype expr =
    LitI64 "64 word" | LitF64 "64 word" | Col int
  | Binary binary_op expr expr | Prim nat expr | Unary unary_op expr
  | Clip expr dftu_scalar dftu_scalar | Fillna expr dftu_scalar | Cmp nat expr dftu_scalar
  | Logical nat expr expr | Not expr | Cast type_id expr
  | StrPred nat expr string | StrMap nat expr | StrLen bool expr | StrFind expr string
  | StrReplace bool expr string string | StrSlice expr "64 word" "64 word"
  | IsIn expr "(nat \<times> type_id) option" | Select expr expr expr | IsNull bool expr

datatype opcode =
    OP_LOAD | OP_ADD | OP_SUB | OP_MUL | OP_DIV | OP_ADDS | OP_SUBS | OP_MULS | OP_DIVS | OP_PRIM | OP_UNARY
  | OP_CLIP | OP_FILLNA | OP_CMP | OP_LOGICAL | OP_NOT | OP_CAST | OP_STR_PRED | OP_STR_MAP | OP_STR_LEN
  | OP_STR_FIND | OP_STR_REPLACE | OP_STR_SLICE | OP_IS_IN | OP_CONST | OP_SELECT | OP_IS_NULL

text \<open>What \<^verbatim>\<open>SlotOp::param\<close> holds: an operation, a flag, a column or a type.\<close>

datatype op_param = P_None | P_Num int | P_Unary unary_op | P_Type type_id

record op_shape =
  opcode :: opcode
  op_param :: op_param
  op_scalar :: dftu_scalar
  op_scalar2 :: dftu_scalar
  op_text :: string
  op_text2 :: string
  op_values :: "nat option"

definition shape :: "opcode \<Rightarrow> op_param \<Rightarrow> dftu_scalar \<Rightarrow> dftu_scalar \<Rightarrow> op_shape" where
  "shape c p s s2 = \<lparr>opcode = c, op_param = p, op_scalar = s, op_scalar2 = s2, op_text = [], op_text2 = [], op_values = None\<rparr>"

definition text_shape :: "opcode \<Rightarrow> op_param \<Rightarrow> string \<Rightarrow> string \<Rightarrow> op_shape" where
  "text_shape c p t t2 = \<lparr>opcode = c, op_param = p, op_scalar = zero_scalar, op_scalar2 = zero_scalar,
     op_text = t, op_text2 = t2, op_values = None\<rparr>"

text \<open>An instruction: its shape and its operand slots, \<open>None\<close> for a slot of \<open>-1\<close>.\<close>

type_synonym instr = "op_shape \<times> nat option list"

record cstate =
  program :: "instr list"
  memo :: "((opcode \<times> nat option list \<times> op_param \<times> scalar_tag \<times> 64 word \<times> 64 word \<times> 32 word \<times> 32 word
             \<times> string \<times> string \<times> nat option) \<times> nat) list"

text \<open>The key of the memo: every field of the operation but the tag of its second scalar.\<close>

definition op_key :: "op_shape \<Rightarrow> nat option list \<Rightarrow>
    opcode \<times> nat option list \<times> op_param \<times> scalar_tag \<times> 64 word \<times> 64 word \<times> 32 word \<times> 32 word \<times> string \<times> string \<times> nat option" where
  "op_key sh args = (opcode sh, args, op_param sh, s_kind (op_scalar sh), s_bits (op_scalar sh), s_bits (op_scalar2 sh),
     s_len (op_scalar sh), s_len (op_scalar2 sh), op_text sh, op_text2 sh, op_values sh)"

definition emit_op :: "op_shape \<Rightarrow> nat option list \<Rightarrow> cstate \<Rightarrow> nat \<times> cstate" where
  "emit_op sh args st =
     (case map_of (memo st) (op_key sh args) of
        Some slot \<Rightarrow> (slot, st)
      | None \<Rightarrow> (let slot = length (program st) in
                 (slot, \<lparr>program = program st @ [(sh, args)], memo = (op_key sh args, slot) # memo st\<rparr>)))"

datatype op_tree = Op op_shape "op_tree option list"

definition emit_tree :: "op_shape \<Rightarrow> op_tree option list \<Rightarrow> unit \<Rightarrow> op_tree \<times> unit" where
  "emit_tree sh args u = (Op sh args, u)"

section \<open>The compiler\<close>

datatype expr_error =
    Column_Out_Of_Range | Needs_Column string | Needs_String string bool type_id | Is_In_Needs_Values
  | Is_In_Types type_id type_id | Select_Needs_Bool type_id | Select_String_Arms | Scalar_Op_Column
  | Constant_Expression

text \<open>A compiled subexpression: a scalar, or a column in a slot.\<close>

record ('s, 'p) cval =
  is_scalar :: bool
  slot :: "'s option"
  vtype :: type_id
  vscalar :: dftu_scalar
  full :: "'p data_type"

type_synonym ('st, 'a) cm = "'st \<Rightarrow> expr_error + ('a \<times> 'st)"

definition ret :: "'a \<Rightarrow> ('st, 'a) cm" where "ret a st = Inr (a, st)"
definition fail :: "expr_error \<Rightarrow> ('st, 'a) cm" where "fail e st = Inl e"
definition andthen :: "('st, 'a) cm \<Rightarrow> ('a \<Rightarrow> ('st, 'b) cm) \<Rightarrow> ('st, 'b) cm" where
  "andthen m k st = (case m st of Inl e \<Rightarrow> Inl e | Inr (a, st') \<Rightarrow> k a st')"

type_synonym ('s, 'st) emitter = "op_shape \<Rightarrow> 's option list \<Rightarrow> 'st \<Rightarrow> 's \<times> 'st"

definition scalar_val :: "dftu_scalar \<Rightarrow> type_id \<Rightarrow> ('s, 'p) cval" where
  "scalar_val s t = \<lparr>is_scalar = True, slot = None, vtype = T_Int64, vscalar = s, full = scalar_type t\<rparr>"

definition unknown_val :: "('s, 'p) cval" where
  "unknown_val = \<lparr>is_scalar = False, slot = None, vtype = T_Unknown, vscalar = zero_scalar, full = scalar_type T_Unknown\<rparr>"

definition is_unknown :: "('s, 'p) cval \<Rightarrow> bool" where "is_unknown v \<longleftrightarrow> dt_id (full v) = T_Unknown"

definition emit :: "('s, 'st) emitter \<Rightarrow> op_shape \<Rightarrow> ('s, 'p) cval list \<Rightarrow> type_id \<Rightarrow> 'p data_type \<Rightarrow> ('st, ('s, 'p) cval) cm" where
  "emit E sh vs t dt st =
     (let (s, st') = E sh (map slot vs) st in
      Inr (\<lparr>is_scalar = False, slot = Some s, vtype = t, vscalar = zero_scalar, full = dt\<rparr>, st'))"

definition emit_as :: "('s, 'st) emitter \<Rightarrow> op_shape \<Rightarrow> ('s, 'p) cval list \<Rightarrow> type_id \<Rightarrow> ('st, ('s, 'p) cval) cm" where
  "emit_as E sh vs t = emit E sh vs t (scalar_type t)"

definition as_col :: "('s, 'p) cval \<Rightarrow> string \<Rightarrow> ('st, ('s, 'p) cval) cm" where
  "as_col v who = (if is_scalar v then fail (Needs_Column who) else ret v)"

definition as_str :: "('s, 'p) cval \<Rightarrow> string \<Rightarrow> bool \<Rightarrow> ('st, ('s, 'p) cval) cm" where
  "as_str v who binary_ok =
     andthen (as_col v who) (\<lambda>a.
       if vtype a = T_String \<or> binary_ok \<and> vtype a = T_Binary then ret a
       else fail (Needs_String who binary_ok (vtype a)))"

definition cast_val :: "('s, 'st) emitter \<Rightarrow> ('s, 'p) cval \<Rightarrow> type_id \<Rightarrow> ('st, ('s, 'p) cval) cm" where
  "cast_val E v t = emit_as E (shape OP_CAST (P_Type t) zero_scalar zero_scalar) [v] t"

definition broadcast :: "('s, 'st) emitter \<Rightarrow> dftu_scalar \<Rightarrow> type_id \<Rightarrow> ('st, ('s, 'p) cval) cm" where
  "broadcast E s t = emit_as E (shape OP_CONST (P_Type t) s zero_scalar) [] t"

definition is_float :: "('s, 'p) cval \<Rightarrow> bool" where
  "is_float v \<longleftrightarrow> (if is_scalar v then s_kind (vscalar v) = TAG_F64 else vtype v = T_Float32 \<or> vtype v = T_Float64)"

definition promote_float :: "('s, 'st) emitter \<Rightarrow> float_ops \<Rightarrow> ('s, 'p) cval \<Rightarrow> ('st, ('s, 'p) cval) cm" where
  "promote_float E F v =
     (if is_scalar v then ret (v\<lparr>vscalar := to_f64_scalar F (vscalar v)\<rparr>)
      else if vtype v \<noteq> T_Float32 \<and> vtype v \<noteq> T_Float64 then cast_val E v T_Float64 else ret v)"

text \<open>Two literals fold; integers wrap here, where the code leaves the overflow of an \<^verbatim>\<open>int64_t\<close> undefined.\<close>

definition fold_scalars :: "float_ops \<Rightarrow> binary_op \<Rightarrow> dftu_scalar \<Rightarrow> dftu_scalar \<Rightarrow> ('s, 'p) cval" where
  "fold_scalars F opr a b =
     (if opr = Div \<or> s_kind a = TAG_F64 \<or> s_kind b = TAG_F64 then
        let x = scalar_to_double F a; y = scalar_to_double F b in
        scalar_val (f64_scalar (case opr of Add \<Rightarrow> f_add F x y | Sub \<Rightarrow> f_sub F x y | Mul \<Rightarrow> f_mul F x y | Div \<Rightarrow> f_div F x y))
          T_Float64
      else
        let x = s_bits a; y = s_bits b in
        scalar_val (i64_scalar (case opr of Add \<Rightarrow> x + y | Sub \<Rightarrow> x - y | Mul \<Rightarrow> x * y | Div \<Rightarrow> 0)) T_Int64)"

fun column_op :: "binary_op \<Rightarrow> opcode" where
  "column_op Add = OP_ADD" | "column_op Sub = OP_SUB" | "column_op Mul = OP_MUL" | "column_op Div = OP_DIV"

fun scalar_op :: "binary_op \<Rightarrow> opcode" where
  "scalar_op Add = OP_ADDS" | "scalar_op Sub = OP_SUBS" | "scalar_op Mul = OP_MULS" | "scalar_op Div = OP_DIVS"

definition arith :: "('s, 'st) emitter \<Rightarrow> binary_op \<Rightarrow> type_id \<Rightarrow> ('s, 'p) cval \<Rightarrow> ('s, 'p) cval \<Rightarrow> ('st, ('s, 'p) cval) cm" where
  "arith E opr out_type a b =
     (if \<not> is_scalar a \<and> \<not> is_scalar b then
        emit_as E (shape (column_op opr) P_None zero_scalar zero_scalar) [a, b] out_type
      else if \<not> is_scalar a then
        emit_as E (shape (scalar_op opr) P_None (vscalar b) zero_scalar) [a] out_type
      else if opr = Add \<or> opr = Mul then
        emit_as E (shape (scalar_op opr) P_None (vscalar a) zero_scalar) [b] out_type
      else fail Scalar_Op_Column)"

definition binary :: "('s, 'st) emitter \<Rightarrow> float_ops \<Rightarrow> binary_op \<Rightarrow> ('s, 'p) cval \<Rightarrow> ('s, 'p) cval \<Rightarrow> ('st, ('s, 'p) cval) cm" where
  "binary E F opr a b =
     (if is_unknown a \<or> is_unknown b then ret unknown_val
      else if is_scalar a \<and> is_scalar b then ret (fold_scalars F opr (vscalar a) (vscalar b))
      else if opr = Div \<or> is_float a \<or> is_float b then
        andthen (promote_float E F a) (\<lambda>a'. andthen (promote_float E F b) (\<lambda>b'. arith E opr T_Float64 a' b'))
      else if \<not> is_scalar a \<and> \<not> is_scalar b \<and> vtype a \<noteq> vtype b then
        andthen (cast_val E a T_Int64) (\<lambda>a'. andthen (cast_val E b T_Int64) (\<lambda>b'. arith E opr T_Int64 a' b'))
      else arith E opr (if is_scalar a then vtype b else vtype a) a b)"

definition cast_if :: "('s, 'st) emitter \<Rightarrow> ('s, 'p) cval \<Rightarrow> type_id \<Rightarrow> ('st, ('s, 'p) cval) cm" where
  "cast_if E v t = (if \<not> is_scalar v \<and> vtype v \<noteq> t then cast_val E v t else ret v)"

definition broadcast_if :: "('s, 'st) emitter \<Rightarrow> ('s, 'p) cval \<Rightarrow> type_id \<Rightarrow> ('st, ('s, 'p) cval) cm" where
  "broadcast_if E v t = (if is_scalar v then broadcast E (vscalar v) t else ret v)"

definition select_arms :: "('s, 'st) emitter \<Rightarrow> ('s, 'p) cval \<Rightarrow> ('s, 'p) cval \<Rightarrow> ('s, 'p) cval \<Rightarrow> ('st, ('s, 'p) cval) cm" where
  "select_arms E c a b = emit_as E (shape OP_SELECT P_None zero_scalar zero_scalar) [a, b, c] (vtype a)"

definition select :: "('s, 'st) emitter \<Rightarrow> float_ops \<Rightarrow> ('s, 'p) cval \<Rightarrow> ('s, 'p) cval \<Rightarrow> ('s, 'p) cval \<Rightarrow> ('st, ('s, 'p) cval) cm" where
  "select E F c0 a b =
     (if is_unknown c0 \<or> is_unknown a \<or> is_unknown b then ret unknown_val
      else andthen (as_col c0 ''select'') (\<lambda>c.
        if vtype c \<noteq> T_Bool then fail (Select_Needs_Bool (vtype c))
        else if is_scalar a \<and> is_scalar b then
          (let f = (s_kind (vscalar a) = TAG_F64 \<or> s_kind (vscalar b) = TAG_F64);
               t = (if f then T_Float64 else T_Int64);
               conv = (\<lambda>s. if f then to_f64_scalar F s else s) in
           andthen (broadcast E (conv (vscalar a)) t) (\<lambda>a'.
           andthen (broadcast E (conv (vscalar b)) t) (\<lambda>b'. select_arms E c a' b')))
        else if \<not> is_scalar a \<and> vtype a = T_String \<or> \<not> is_scalar b \<and> vtype b = T_String then
          (if is_scalar a \<or> is_scalar b \<or> vtype a \<noteq> vtype b then fail Select_String_Arms else select_arms E c a b)
        else if is_float a \<or> is_float b then
          andthen (promote_float E F a) (\<lambda>a1. andthen (promote_float E F b) (\<lambda>b1.
          andthen (broadcast_if E a1 T_Float64) (\<lambda>a2. andthen (broadcast_if E b1 T_Float64) (\<lambda>b2. select_arms E c a2 b2))))
        else
          (let t = (if is_scalar a then vtype b else if is_scalar b then vtype a
                    else if vtype a = vtype b then vtype a else T_Int64) in
           andthen (cast_if E a t) (\<lambda>a1. andthen (cast_if E b t) (\<lambda>b1.
           andthen (broadcast_if E a1 t) (\<lambda>a2. andthen (broadcast_if E b1 t) (\<lambda>b2. select_arms E c a2 b2)))))))"

text \<open>The operand of a node that takes one column: unknown input gives an unknown result.\<close>

definition with_col :: "('st, ('s, 'p) cval) cm \<Rightarrow> string \<Rightarrow> (('s, 'p) cval \<Rightarrow> ('st, ('s, 'p) cval) cm) \<Rightarrow> ('st, ('s, 'p) cval) cm" where
  "with_col m who k = andthen m (\<lambda>a0. if is_unknown a0 then ret unknown_val else andthen (as_col a0 who) k)"

definition with_str ::
  "('st, ('s, 'p) cval) cm \<Rightarrow> string \<Rightarrow> bool \<Rightarrow> (('s, 'p) cval \<Rightarrow> ('st, ('s, 'p) cval) cm) \<Rightarrow> ('st, ('s, 'p) cval) cm" where
  "with_str m who binary_ok k =
     andthen m (\<lambda>a0. if is_unknown a0 then ret unknown_val else andthen (as_str a0 who binary_ok) k)"

definition unary_type :: "unary_op \<Rightarrow> type_id \<Rightarrow> type_id" where
  "unary_type opr t =
     (case opr of IsNan \<Rightarrow> T_Bool | IsFinite \<Rightarrow> T_Bool | IsInfinite \<Rightarrow> T_Bool
      | Log \<Rightarrow> T_Float64 | Sqrt \<Rightarrow> T_Float64 | Exp \<Rightarrow> T_Float64 | _ \<Rightarrow> t)"

datatype value_domain = Domain_None | Domain_Numeric | Domain_Bytes

definition value_domain :: "type_id \<Rightarrow> value_domain" where
  "value_domain t =
     (if t \<in> {T_String, T_Binary, T_LargeString, T_LargeBinary, T_FixedSizeBinary, T_Decimal128, T_Decimal256} then Domain_Bytes
      else if t \<in> {T_List, T_LargeList, T_FixedSizeList, T_Struct, T_Map, T_Unknown} then Domain_None
      else Domain_Numeric)"

definition load :: "('s, 'st) emitter \<Rightarrow> 'p data_type list \<Rightarrow> int \<Rightarrow> ('st, ('s, 'p) cval) cm" where
  "load E Ts i =
     (if i < 0 \<or> int (length Ts) \<le> i then fail Column_Out_Of_Range
      else let dt = Ts ! nat i in
        if dt_id dt = T_Unknown
        then ret \<lparr>is_scalar = False, slot = None, vtype = T_Unknown, vscalar = zero_scalar, full = dt\<rparr>
        else emit E (shape OP_LOAD (P_Num i) zero_scalar zero_scalar) [] (dt_id dt) dt)"

definition prim :: "('s, 'st) emitter \<Rightarrow> nat \<Rightarrow> ('s, 'p) cval \<Rightarrow> ('st, ('s, 'p) cval) cm" where
  "prim E p a =
     andthen (if vtype a \<noteq> T_Int64 \<and> vtype a \<noteq> T_Uint64 then cast_val E a T_Int64 else ret a)
       (\<lambda>a'. emit_as E (shape OP_PRIM (P_Num (int p)) zero_scalar zero_scalar) [a'] T_Int64)"

definition is_in :: "('s, 'st) emitter \<Rightarrow> (nat \<times> type_id) option \<Rightarrow> ('s, 'p) cval \<Rightarrow> ('st, ('s, 'p) cval) cm" where
  "is_in E vals a =
     (case vals of
        None \<Rightarrow> fail Is_In_Needs_Values
      | Some (h, t) \<Rightarrow>
          if value_domain (vtype a) \<noteq> value_domain t then fail (Is_In_Types (vtype a) t)
          else emit_as E ((shape OP_IS_IN P_None zero_scalar zero_scalar)\<lparr>op_values := Some h\<rparr>) [a] T_Bool)"

fun compile :: "('s, 'st) emitter \<Rightarrow> float_ops \<Rightarrow> 'p data_type list \<Rightarrow> expr \<Rightarrow> ('st, ('s, 'p) cval) cm" where
  "compile E F Ts (LitI64 x) = ret (scalar_val (i64_scalar x) T_Int64)"
| "compile E F Ts (LitF64 x) = ret (scalar_val (f64_scalar x) T_Int64)"
| "compile E F Ts (Col i) = load E Ts i"
| "compile E F Ts (Binary opr a b) =
     andthen (compile E F Ts a) (\<lambda>va. andthen (compile E F Ts b) (\<lambda>vb. binary E F opr va vb))"
| "compile E F Ts (Prim p a) = with_col (compile E F Ts a) ''prim'' (prim E p)"
| "compile E F Ts (Unary opr a) = with_col (compile E F Ts a) ''unary''
     (\<lambda>v. emit_as E (shape OP_UNARY (P_Unary opr) zero_scalar zero_scalar) [v] (unary_type opr (vtype v)))"
| "compile E F Ts (Clip a lo hi) = with_col (compile E F Ts a) ''clip''
     (\<lambda>v. emit_as E (shape OP_CLIP P_None lo hi) [v] (vtype v))"
| "compile E F Ts (Fillna a s) = with_col (compile E F Ts a) ''fillna''
     (\<lambda>v. emit_as E (shape OP_FILLNA P_None s zero_scalar) [v] (vtype v))"
| "compile E F Ts (Cmp c a s) = with_col (compile E F Ts a) ''compare''
     (\<lambda>v. emit_as E (shape OP_CMP (P_Num (int c)) s zero_scalar) [v] T_Bool)"
| "compile E F Ts (Logical c a b) =
     andthen (compile E F Ts a) (\<lambda>a0. andthen (compile E F Ts b) (\<lambda>b0.
       if is_unknown a0 \<or> is_unknown b0 then ret unknown_val
       else andthen (as_col a0 ''logical'') (\<lambda>va. andthen (as_col b0 ''logical'') (\<lambda>vb.
         emit_as E (shape OP_LOGICAL (P_Num (int c)) zero_scalar zero_scalar) [va, vb] T_Bool))))"
| "compile E F Ts (Not a) = with_col (compile E F Ts a) ''not''
     (\<lambda>v. emit_as E (shape OP_NOT P_None zero_scalar zero_scalar) [v] T_Bool)"
| "compile E F Ts (Cast t a) = andthen (compile E F Ts a) (\<lambda>a0. andthen (as_col a0 ''cast'') (\<lambda>v. cast_val E v t))"
| "compile E F Ts (StrPred c a pat) = with_str (compile E F Ts a) ''string predicate'' True
     (\<lambda>v. emit_as E (text_shape OP_STR_PRED (P_Num (int c)) pat []) [v] T_Bool)"
| "compile E F Ts (StrMap c a) = with_str (compile E F Ts a) ''string map'' False
     (\<lambda>v. emit_as E (shape OP_STR_MAP (P_Num (int c)) zero_scalar zero_scalar) [v] T_String)"
| "compile E F Ts (StrLen chars a) = with_str (compile E F Ts a) ''string length'' True
     (\<lambda>v. emit_as E (shape OP_STR_LEN (P_Num (if chars then 1 else 0)) zero_scalar zero_scalar) [v] T_Int64)"
| "compile E F Ts (StrFind a needle) = with_str (compile E F Ts a) ''string find'' True
     (\<lambda>v. emit_as E (text_shape OP_STR_FIND (P_Num 0) needle []) [v] T_Int64)"
| "compile E F Ts (StrReplace every a from_text to_text) = with_str (compile E F Ts a) ''string replace'' False
     (\<lambda>v. emit_as E (text_shape OP_STR_REPLACE (P_Num (if every then 1 else 0)) from_text to_text) [v] T_String)"
| "compile E F Ts (StrSlice a start len) = with_str (compile E F Ts a) ''string slice'' False
     (\<lambda>v. emit_as E (shape OP_STR_SLICE P_None (i64_scalar start) (i64_scalar len)) [v] T_String)"
| "compile E F Ts (IsIn a vals) = with_col (compile E F Ts a) ''is_in'' (is_in E vals)"
| "compile E F Ts (Select c a b) =
     andthen (compile E F Ts c) (\<lambda>vc. andthen (compile E F Ts a) (\<lambda>va. andthen (compile E F Ts b) (\<lambda>vb. select E F vc va vb)))"
| "compile E F Ts (IsNull null a) = with_col (compile E F Ts a) ''is_null''
     (\<lambda>v. emit_as E (shape OP_IS_NULL (P_Num (if null then 1 else 0)) zero_scalar zero_scalar) [v] T_Bool)"

text \<open>Several roots share one compiler; a root that is a constant has no column.\<close>

fun compile_roots :: "('s, 'st) emitter \<Rightarrow> float_ops \<Rightarrow> 'p data_type list \<Rightarrow> expr list \<Rightarrow> ('st, 's option list) cm" where
  "compile_roots E F Ts [] = ret []"
| "compile_roots E F Ts (e # es) =
     andthen (compile E F Ts e) (\<lambda>v.
       if is_scalar v then fail Constant_Expression
       else andthen (compile_roots E F Ts es) (\<lambda>vs. ret (slot v # vs)))"

definition empty_state :: cstate where "empty_state = \<lparr>program = [], memo = []\<rparr>"

definition compile_program :: "float_ops \<Rightarrow> 'p data_type list \<Rightarrow> expr list \<Rightarrow> expr_error + (nat option list \<times> cstate)" where
  "compile_program F Ts roots = compile_roots emit_op F Ts roots empty_state"

definition root_trees :: "float_ops \<Rightarrow> 'p data_type list \<Rightarrow> expr list \<Rightarrow> expr_error + (op_tree option list \<times> unit)" where
  "root_trees F Ts roots = compile_roots emit_tree F Ts roots ()"

definition infer_type :: "float_ops \<Rightarrow> 'p data_type list \<Rightarrow> expr \<Rightarrow> expr_error + 'p data_type" where
  "infer_type F Ts e =
     (case compile emit_op F Ts e empty_state of
        Inl err \<Rightarrow> Inl err
      | Inr (v, st) \<Rightarrow> if is_scalar v then Inl Constant_Expression else Inr (full v))"

section \<open>Evaluation\<close>

text \<open>
  The kernels: what an instruction yields on its operand columns, \<open>None\<close> when it does not take their
  types. A load is a kernel without operands.
\<close>

type_synonym 'c kernels = "op_shape \<Rightarrow> 'c list \<Rightarrow> 'c option"

definition apply_op :: "'c kernels \<Rightarrow> op_shape \<Rightarrow> 'c option list \<Rightarrow> 'c option" where
  "apply_op K sh xs = (case those xs of None \<Rightarrow> None | Some cs \<Rightarrow> K sh cs)"

definition read_slot :: "'c list \<Rightarrow> nat option \<Rightarrow> 'c option" where
  "read_slot cs a = (case a of None \<Rightarrow> None | Some j \<Rightarrow> if j < length cs then Some (cs ! j) else None)"

definition eval_step :: "'c kernels \<Rightarrow> instr \<Rightarrow> 'c list option \<Rightarrow> 'c list option" where
  "eval_step K ins acc =
     (case acc of None \<Rightarrow> None
      | Some cs \<Rightarrow> (case apply_op K (fst ins) (map (read_slot cs) (snd ins)) of None \<Rightarrow> None | Some c \<Rightarrow> Some (cs @ [c])))"

definition eval_slots :: "'c kernels \<Rightarrow> instr list \<Rightarrow> 'c list option" where
  "eval_slots K prog = fold (eval_step K) prog (Some [])"

definition eval_chunk :: "'c kernels \<Rightarrow> instr list \<Rightarrow> nat option list \<Rightarrow> 'c list option" where
  "eval_chunk K prog finals =
     (case eval_slots K prog of None \<Rightarrow> None | Some cs \<Rightarrow> those (map (read_slot cs) finals))"

primrec eval_tree :: "'c kernels \<Rightarrow> op_tree \<Rightarrow> 'c option" where
  "eval_tree K (Op sh ts) =
     apply_op K sh (map (\<lambda>o'. case o' of Some c \<Rightarrow> c | None \<Rightarrow> None) (map (map_option (eval_tree K)) ts))"

definition eval_root :: "'c kernels \<Rightarrow> op_tree option \<Rightarrow> 'c option" where
  "eval_root K t = (case t of None \<Rightarrow> None | Some t \<Rightarrow> eval_tree K t)"

section \<open>The program computes the trees\<close>

lemma eval_tree_op: "eval_tree K (Op sh ts) = apply_op K sh (map (eval_root K) ts)"
proof -
  have "map (\<lambda>o'. case o' of Some c \<Rightarrow> c | None \<Rightarrow> None) (map (map_option (eval_tree K)) ts) = map (eval_root K) ts"
    unfolding map_map by (rule map_cong [OF refl]) (simp add: eval_root_def split: option.splits)
  then show ?thesis by (simp only: eval_tree.simps)
qed

primrec subs :: "op_tree \<Rightarrow> op_tree set" where
  "subs (Op sh ts) = insert (Op sh ts) (\<Union>o' \<in> set (map (map_option subs) ts). case o' of None \<Rightarrow> {} | Some S \<Rightarrow> S)"

primrec complete :: "op_tree \<Rightarrow> bool" where
  "complete (Op sh ts) \<longleftrightarrow> list_all (\<lambda>o'. o' = Some True) (map (map_option complete) ts)"

lemma subs_op: "subs (Op sh ts) = insert (Op sh ts) (\<Union>t \<in> {t. Some t \<in> set ts}. subs t)"
proof -
  have "(\<Union>o' \<in> set (map (map_option subs) ts). case o' of None \<Rightarrow> {} | Some S \<Rightarrow> S) = (\<Union>t \<in> {t. Some t \<in> set ts}. subs t)"
    by (force split: option.splits)
  then show ?thesis by simp
qed

lemma complete_op: "complete (Op sh ts) \<longleftrightarrow> (\<forall>t' \<in> set ts. \<exists>t. t' = Some t \<and> complete t)"
  by (auto simp: list_all_iff)

declare subs.simps [simp del] complete.simps [simp del] eval_tree.simps [simp del]

text \<open>The tree every slot of a program unfolds to.\<close>

definition tree_step :: "instr \<Rightarrow> op_tree list \<Rightarrow> op_tree list" where
  "tree_step ins ts = ts @ [Op (fst ins) (map (map_option ((!) ts)) (snd ins))]"

definition trees :: "instr list \<Rightarrow> op_tree list" where "trees prog = fold tree_step prog []"

lemma trees_snoc: "trees (prog @ [ins]) = trees prog @ [Op (fst ins) (map (map_option ((!) (trees prog))) (snd ins))]"
  by (simp add: trees_def tree_step_def)

lemma trees_Nil [simp]: "trees [] = []" by (simp add: trees_def)

lemma length_trees [simp]: "length (trees prog) = length prog"
  by (induction prog rule: rev_induct) (simp_all add: trees_snoc)

text \<open>Programs whose operands come before their instruction.\<close>

definition ordered :: "instr list \<Rightarrow> bool" where
  "ordered prog \<longleftrightarrow> (\<forall>k < length prog. \<forall>j. Some j \<in> set (snd (prog ! k)) \<longrightarrow> j < k)"

lemma ordered_snoc: "ordered (prog @ [ins]) \<longleftrightarrow> ordered prog \<and> (\<forall>j. Some j \<in> set (snd ins) \<longrightarrow> j < length prog)"
  by (auto simp: ordered_def nth_append less_Suc_eq)

lemma those_append: "those (xs @ ys) = (case those xs of None \<Rightarrow> None | Some as \<Rightarrow> map_option ((@) as) (those ys))"
proof (induction xs)
  case Nil
  then show ?case by (cases "those ys") simp_all
next
  case (Cons x xs)
  then show ?case by (cases x; cases "those xs"; cases "those ys") simp_all
qed

lemma those_Some: "those xs = Some ys \<longleftrightarrow> xs = map Some ys"
proof (induction xs arbitrary: ys)
  case Nil
  then show ?case by auto
next
  case (Cons x xs)
  then show ?case by (cases x; cases ys) auto
qed

lemma eval_slots_trees: "ordered prog \<Longrightarrow> eval_slots K prog = those (map (eval_tree K) (trees prog))"
proof (induction prog rule: rev_induct)
  case (snoc ins prog)
  have ih: "eval_slots K prog = those (map (eval_tree K) (trees prog))" using snoc by (simp add: ordered_snoc)
  show ?case
  proof (cases "eval_slots K prog")
    case None
    then show ?thesis using ih by (simp add: eval_slots_def eval_step_def trees_snoc those_append)
  next
    case (Some cs)
    then have cs: "map (eval_tree K) (trees prog) = map Some cs" using ih those_Some by metis
    then have len: "length cs = length prog" by (metis length_map length_trees)
    have nth: "eval_tree K (trees prog ! j) = Some (cs ! j)" if "j < length prog" for j
      using that cs by (metis length_map length_trees nth_map)
    have "map (read_slot cs) (snd ins) = map (eval_root K) (map (map_option ((!) (trees prog))) (snd ins))"
    proof -
      have "read_slot cs a = eval_root K (map_option ((!) (trees prog)) a)" if "a \<in> set (snd ins)" for a
        using snoc.prems that nth len by (cases a) (auto simp: ordered_snoc read_slot_def eval_root_def)
      then show ?thesis by simp
    qed
    then have "apply_op K (fst ins) (map (read_slot cs) (snd ins))
        = eval_tree K (Op (fst ins) (map (map_option ((!) (trees prog))) (snd ins)))" by (simp only: eval_tree_op)
    moreover have "fold (eval_step K) prog (Some []) = Some cs" using Some by (simp add: eval_slots_def)
    moreover have "those (map (eval_tree K) (trees prog)) = Some cs" using Some ih by simp
    ultimately show ?thesis
      by (simp add: eval_slots_def eval_step_def [of _ _ "Some cs"] trees_snoc those_append split: option.splits)
  qed
qed (simp add: eval_slots_def)

end
