(* ===== verification/ExprSound.thy ===== *)
theory ExprSound
  imports ExprCompile
begin

text \<open>
  The slot program of an expression computes its operation tree: the compiler with hash-consing simulates
  the compiler that shares nothing.
\<close>

section \<open>The state of the compiler\<close>

text \<open>What the state of the compiler keeps.\<close>

definition op_uniform :: "op_shape \<Rightarrow> bool" where
  "op_uniform sh \<longleftrightarrow> s_kind (op_scalar2 sh) = (if opcode sh = OP_CLIP then s_kind (op_scalar sh) else TAG_I64)"

definition ins_key :: "instr \<Rightarrow>
    opcode \<times> nat option list \<times> op_param \<times> scalar_tag \<times> 64 word \<times> 64 word \<times> 32 word \<times> 32 word \<times> string \<times> string \<times> nat option" where
  "ins_key ins = op_key (fst ins) (snd ins)"

definition state_ok :: "cstate \<Rightarrow> bool" where
  "state_ok st \<longleftrightarrow> ordered (program st)
     \<and> (\<forall>ins \<in> set (program st). op_uniform (fst ins))
     \<and> (\<forall>key k. map_of (memo st) key = Some k \<longrightarrow>
          k < length (program st) \<and> op_key (fst (program st ! k)) (snd (program st ! k)) = key)
     \<and> distinct (map ins_key (program st)) \<and> ins_key ` set (program st) = fst ` set (memo st)"

definition grows :: "cstate \<Rightarrow> cstate \<Rightarrow> bool" where
  "grows st st' \<longleftrightarrow> state_ok st' \<and> (\<exists>ext. program st' = program st @ ext)"

lemma op_key_inj:
  assumes "op_key sh args = op_key sh' args'" "op_uniform sh" "op_uniform sh'"
  shows "sh = sh' \<and> args = args'"
proof -
  have "s_kind (op_scalar2 sh) = s_kind (op_scalar2 sh')" using assms by (auto simp: op_key_def op_uniform_def)
  then have "op_scalar sh = op_scalar sh'" "op_scalar2 sh = op_scalar2 sh'"
    using assms(1) by (auto simp: op_key_def intro!: dftu_scalar.equality)
  then show ?thesis using assms(1) by (auto simp: op_key_def intro!: op_shape.equality)
qed

lemma state_ok_memo:
  "state_ok st \<Longrightarrow> map_of (memo st) key = Some k \<Longrightarrow>
    k < length (program st) \<and> op_key (fst (program st ! k)) (snd (program st ! k)) = key"
  unfolding state_ok_def by blast

lemma state_ok_add:
  assumes ok: "state_ok st" and u: "op_uniform sh" and below: "\<And>j. Some j \<in> set args \<Longrightarrow> j < length (program st)"
    and fresh: "map_of (memo st) (op_key sh args) = None"
  shows "state_ok \<lparr>program = program st @ [(sh, args)], memo = (op_key sh args, length (program st)) # memo st\<rparr>"
proof -
  have "k < length (program st @ [(sh, args)])
      \<and> op_key (fst ((program st @ [(sh, args)]) ! k)) (snd ((program st @ [(sh, args)]) ! k)) = key"
    if "map_of ((op_key sh args, length (program st)) # memo st) key = Some k" for key k
  proof (cases "key = op_key sh args")
    case False
    then have "map_of (memo st) key = Some k" using that by (simp only: map_of.simps fst_conv snd_conv) (simp only: fun_upd_def if_False)
    from state_ok_memo [OF ok this] show ?thesis by (simp only: length_append nth_append_left) simp
  qed (use that in auto)
  moreover have "ordered (program st @ [(sh, args)])" using ok below by (simp add: state_ok_def ordered_snoc)
  moreover have "\<forall>ins \<in> set (program st @ [(sh, args)]). op_uniform (fst ins)" using ok u by (auto simp: state_ok_def)
  moreover have keys: "distinct (map ins_key (program st))" "ins_key ` set (program st) = fst ` set (memo st)"
    using ok unfolding state_ok_def by blast+
  have new: "ins_key (sh, args) \<notin> ins_key ` set (program st)"
    using fresh unfolding keys(2) map_of_eq_None_iff by (simp only: ins_key_def fst_conv snd_conv) blast
  have "distinct (map ins_key (program st @ [(sh, args)]))" using keys(1) new by (simp only: map_append distinct_append) simp
  moreover have "ins_key ` set (program st @ [(sh, args)]) = fst ` set ((op_key sh args, length (program st)) # memo st)"
    using keys(2) by (simp only: set_append image_Un) (simp add: ins_key_def)
  ultimately show ?thesis unfolding state_ok_def by (simp only: cstate.simps) blast
qed

lemma trees_prefix: "k < length prog \<Longrightarrow> trees (prog @ ext) ! k = trees prog ! k"
proof (induction ext rule: rev_induct)
  case (snoc ins ext)
  then show ?case by (simp add: trees_snoc nth_append flip: append_assoc)
qed simp

lemma tree_at: "ordered prog \<Longrightarrow> k < length prog \<Longrightarrow>
    trees prog ! k = Op (fst (prog ! k)) (map (map_option ((!) (trees prog))) (snd (prog ! k)))"
proof (induction prog rule: rev_induct)
  case (snoc ins prog)
  have keep: "map (map_option ((!) (trees (prog @ [ins])))) as = map (map_option ((!) (trees prog))) as"
    if "\<forall>j. Some j \<in> set as \<longrightarrow> j < length prog" for as
    using that by (auto simp: trees_prefix intro: option.map_cong0)
  show ?case
  proof (cases "k = length prog")
    case True
    have ops: "map (map_option ((!) (trees (prog @ [ins])))) (snd ins) = map (map_option ((!) (trees prog))) (snd ins)"
      using snoc.prems by (intro keep) (simp add: ordered_snoc)
    have "trees (prog @ [ins]) ! length prog = Op (fst ins) (map (map_option ((!) (trees prog))) (snd ins))"
      by (simp add: trees_snoc nth_append)
    then show ?thesis unfolding True nth_append_length ops .
  next
    case False
    then have k: "k < length prog" and o: "ordered prog" using snoc.prems by (simp_all add: ordered_snoc)
    have "\<forall>j. Some j \<in> set (snd (prog ! k)) \<longrightarrow> j < length prog" using o k by (auto simp: ordered_def intro: less_trans)
    then show ?thesis using snoc.IH [OF o k] k keep [of "snd (prog ! k)"] by (simp add: trees_prefix nth_append)
  qed
qed simp

text \<open>A value of the compiler and the value of the reference.\<close>

definition slot_tree :: "cstate \<Rightarrow> nat option \<Rightarrow> op_tree option \<Rightarrow> bool" where
  "slot_tree st a t \<longleftrightarrow> rel_option (\<lambda>k t. k < length (program st) \<and> trees (program st) ! k = t) a t"

definition rel_val :: "cstate \<Rightarrow> (nat, 'p) cval \<Rightarrow> (op_tree, 'p) cval \<Rightarrow> bool" where
  "rel_val st v tv \<longleftrightarrow> is_scalar v = is_scalar tv \<and> vtype v = vtype tv \<and> vscalar v = vscalar tv \<and> full v = full tv
     \<and> slot_tree st (slot v) (slot tv) \<and> (is_scalar tv \<longrightarrow> slot tv = None)"

definition fin_slot :: "op_tree option \<Rightarrow> bool" where "fin_slot t \<longleftrightarrow> (\<exists>u. t = Some u \<and> complete u)"
definition fin :: "(op_tree, 'p) cval \<Rightarrow> bool" where "fin tv \<longleftrightarrow> is_scalar tv \<or> fin_slot (slot tv)"
definition slot_subs :: "op_tree option \<Rightarrow> op_tree set" where "slot_subs t = (case t of None \<Rightarrow> {} | Some u \<Rightarrow> subs u)"

text \<open>
  The outcome of a step from \<open>st\<close>: the values correspond, the values in \<open>us\<close> are inside the result,
  and every tree the program gained is part of the result.
\<close>

definition outcome ::
  "cstate \<Rightarrow> (op_tree, 'p) cval list \<Rightarrow> cstate \<Rightarrow> (nat, 'p) cval \<Rightarrow> (op_tree, 'p) cval \<Rightarrow> bool" where
  "outcome st us st' v tv \<longleftrightarrow> rel_val st' v tv
     \<and> (fin tv \<longrightarrow> (\<forall>u \<in> set us. fin u \<and> slot_subs (slot u) \<subseteq> slot_subs (slot tv))
          \<and> set (trees (program st')) \<subseteq> set (trees (program st)) \<union> slot_subs (slot tv))"

definition sim ::
  "cstate \<Rightarrow> (cstate, 'a) cm \<Rightarrow> (unit, 'b) cm \<Rightarrow> (cstate \<Rightarrow> 'a \<Rightarrow> 'b \<Rightarrow> bool) \<Rightarrow> bool" where
  "sim st m mt S \<longleftrightarrow>
     (case mt () of
        Inl e \<Rightarrow> m st = Inl e
      | Inr (b, u) \<Rightarrow> \<exists>a st'. m st = Inr (a, st') \<and> grows st st' \<and> S st' a b)"

lemma grows_refl: "state_ok st \<Longrightarrow> grows st st" by (simp add: grows_def)

lemma grows_trans: "grows st st' \<Longrightarrow> grows st' st'' \<Longrightarrow> grows st st''"
  by (auto simp: grows_def)

lemma rel_val_grows: "grows st st' \<Longrightarrow> rel_val st v tv \<Longrightarrow> rel_val st' v tv"
  by (auto simp: grows_def rel_val_def slot_tree_def trees_prefix elim!: option.rel_mono_strong)

lemma sim_fail [intro]: "sim st (fail e) (fail e) S"
  by (simp add: sim_def fail_def)

lemma sim_ret: "state_ok st \<Longrightarrow> S st a b \<Longrightarrow> sim st (ret a) (ret b) S"
  by (simp add: sim_def ret_def grows_refl)

lemma outcome_trans:
  assumes a: "outcome st used st' a b" and c: "outcome st' (b # others) st'' c d" and us: "set us \<subseteq> set used \<union> set others"
  shows "outcome st us st'' c d"
proof -
  have cover: "(\<forall>u \<in> set us. fin u \<and> slot_subs (slot u) \<subseteq> slot_subs (slot d))
      \<and> set (trees (program st'')) \<subseteq> set (trees (program st)) \<union> slot_subs (slot d)" if d: "fin d"
  proof -
    have b: "fin b" "slot_subs (slot b) \<subseteq> slot_subs (slot d)"
      and u2: "\<forall>u \<in> set others. fin u \<and> slot_subs (slot u) \<subseteq> slot_subs (slot d)"
      and t2: "set (trees (program st'')) \<subseteq> set (trees (program st')) \<union> slot_subs (slot d)"
      using c d by (simp_all add: outcome_def)
    have u1: "\<forall>u \<in> set used. fin u \<and> slot_subs (slot u) \<subseteq> slot_subs (slot b)"
      and t1: "set (trees (program st')) \<subseteq> set (trees (program st)) \<union> slot_subs (slot b)"
      using a b(1) by (simp_all add: outcome_def)
    have "fin u \<and> slot_subs (slot u) \<subseteq> slot_subs (slot d)" if "u \<in> set us" for u
    proof (cases "u \<in> set used")
      case True
      then show ?thesis using u1 b(2) by (meson subset_trans)
    next
      case False
      then show ?thesis using us u2 that by (meson UnE subsetD)
    qed
    moreover have "set (trees (program st'')) \<subseteq> set (trees (program st)) \<union> slot_subs (slot d)"
      by (rule order_trans [OF t2 Un_least [OF order_trans [OF t1 Un_mono [OF order_refl b(2)]] Un_upper2]])
    ultimately show ?thesis by simp
  qed
  have "rel_val st'' c d" using c by (simp only: outcome_def)
  from conjI [OF this impI [OF cover]] show ?thesis unfolding outcome_def .
qed

text \<open>The value \<open>b\<close> of the first step covers \<open>used\<close>; what follows must cover \<open>b\<close> and the rest.\<close>

lemma sim_andthen:
  assumes m: "sim st m mt (outcome st used)"
    and k: "\<And>st' a b. grows st st' \<Longrightarrow> rel_val st' a b \<Longrightarrow> sim st' (k a) (kt b) (outcome st' (b # others))"
    and us: "set us \<subseteq> set used \<union> set others"
  shows "sim st (andthen m k) (andthen mt kt) (outcome st us)"
proof (cases "mt ()")
  case (Inl e)
  then show ?thesis using m by (simp add: sim_def andthen_def)
next
  case (Inr p)
  then obtain b where b: "mt () = Inr (b, ())" by (cases p) simp
  then obtain a st' where a: "m st = Inr (a, st')" "grows st st'" "outcome st used st' a b"
    using m by (auto simp: sim_def)
  then have r: "rel_val st' a b" by (simp add: outcome_def)
  note rest = k [OF a(2) r]
  show ?thesis
  proof (cases "kt b ()")
    case (Inl e)
    then show ?thesis using rest a b by (simp add: sim_def andthen_def)
  next
    case (Inr q)
    then obtain d where d: "kt b () = Inr (d, ())" by (cases q) simp
    then obtain c st'' where c: "k a st' = Inr (c, st'')" "grows st' st''" "outcome st' (b # others) st'' c d"
      using rest by (auto simp: sim_def)
    have "outcome st us st'' c d" using outcome_trans [OF a(3) c(3) us] .
    then show ?thesis using a b c d grows_trans [OF a(2) c(2)] by (simp add: sim_def andthen_def)
  qed
qed

lemma sim_emit:
  assumes ok: "state_ok st" and u: "op_uniform sh" and vs: "list_all2 (rel_val st) vs tvs"
    and us: "\<And>u. u \<in> set us \<Longrightarrow> u \<in> set tvs \<or> is_scalar u \<and> slot u = None"
  shows "sim st (emit emit_op sh vs t dt) (emit emit_tree sh tvs t dt) (outcome st us)"
proof -
  let ?args = "map slot vs" and ?ts = "map slot tvs"
  have args: "map (map_option ((!) (trees (program st)))) ?args = ?ts"
    using vs by (auto simp: list_all2_conv_all_nth rel_val_def slot_tree_def option_rel_Some2 intro!: nth_equalityI)
       (auto elim!: option.rel_cases)
  have below: "j < length (program st)" if "Some j \<in> set ?args" for j
  proof -
    from that obtain v where v: "v \<in> set vs" "Some j = slot v" unfolding set_map by (rule imageE)
    then obtain i where "i < length vs" "slot (vs ! i) = Some j" by (auto simp: in_set_conv_nth)
    then have "slot_tree st (Some j) (slot (tvs ! i))" using vs by (metis list_all2_conv_all_nth rel_val_def)
    then show ?thesis by (auto simp: slot_tree_def option_rel_Some1)
  qed
  obtain k st' where e: "emit_op sh ?args st = (k, st')" by fastforce
  have res: "grows st st' \<and> k < length (program st') \<and> trees (program st') ! k = Op sh ?ts
      \<and> set (trees (program st')) \<subseteq> insert (Op sh ?ts) (set (trees (program st)))"
  proof (cases "map_of (memo st) (op_key sh ?args)")
    case (Some j)
    then have j: "j < length (program st)" "op_key (fst (program st ! j)) (snd (program st ! j)) = op_key sh ?args"
      using state_ok_memo [OF ok] by blast+
    moreover have "op_uniform (fst (program st ! j))" using ok j(1) by (simp add: state_ok_def)
    ultimately have "fst (program st ! j) = sh" "snd (program st ! j) = ?args" using op_key_inj u by blast+
    then have "trees (program st) ! j = Op sh ?ts" using tree_at [of "program st" j] ok j(1) args by (simp add: state_ok_def)
    then show ?thesis using Some e j(1) ok by (auto simp: emit_op_def grows_refl)
  next
    case None
    let ?st = "\<lparr>program = program st @ [(sh, ?args)], memo = (op_key sh ?args, length (program st)) # memo st\<rparr>"
    have "state_ok ?st" using ok u below None by (rule state_ok_add)
    moreover from None e have "k = length (program st) \<and> st' = ?st" unfolding emit_op_def Let_def by simp blast
    moreover have "trees (program st @ [(sh, ?args)]) = trees (program st) @ [Op sh ?ts]" by (simp only: trees_snoc fst_conv snd_conv args)
    ultimately show ?thesis by (simp add: grows_def nth_append)
  qed
  let ?v = "\<lparr>is_scalar = False, slot = Some k, vtype = t, vscalar = zero_scalar, full = dt\<rparr>"
  let ?tv = "\<lparr>is_scalar = False, slot = Some (Op sh ?ts), vtype = t, vscalar = zero_scalar, full = dt\<rparr>"
  have "rel_val st' ?v ?tv" using res by (simp add: rel_val_def slot_tree_def)
  moreover have "fin u \<and> slot_subs (slot u) \<subseteq> slot_subs (slot ?tv)" if "fin ?tv" "u \<in> set us" for u
  proof (cases "u \<in> set tvs")
    case True
    then have "slot u \<in> set ?ts" by simp
    then show ?thesis using that(1) by (force simp: fin_def fin_slot_def complete_op slot_subs_def subs_op)
  next
    case False
    then have "is_scalar u" "slot u = None" using us that(2) by blast+
    then show ?thesis by (simp add: fin_def slot_subs_def)
  qed
  moreover have "set (trees (program st')) \<subseteq> set (trees (program st)) \<union> slot_subs (slot ?tv)"
    using res by (auto simp: slot_subs_def subs_op)
  ultimately have "outcome st us st' ?v ?tv" by (simp add: outcome_def)
  then show ?thesis using e res by (simp add: sim_def emit_def emit_tree_def)
qed

section \<open>The pieces of the compiler\<close>

lemma andthen_ret [simp]: "andthen (ret a) k = k a" by (rule ext) (simp add: andthen_def ret_def)
lemma andthen_fail [simp]: "andthen (fail e) k = fail e" by (rule ext) (simp add: andthen_def fail_def)

lemma andthen_as_col: "andthen (as_col v who) k = (if is_scalar v then fail (Needs_Column who) else k v)"
  by (simp add: as_col_def)

lemma andthen_as_str: "andthen (as_str v who binary_ok) k =
    (if is_scalar v then fail (Needs_Column who)
     else if vtype v = T_String \<or> binary_ok \<and> vtype v = T_Binary then k v
     else fail (Needs_String who binary_ok (vtype v)))"
  by (simp add: as_str_def andthen_as_col)

lemma op_uniform_shape [simp]: "op_uniform (shape c p s s2) \<longleftrightarrow> s_kind s2 = (if c = OP_CLIP then s_kind s else TAG_I64)"
  by (simp add: op_uniform_def shape_def)

lemma op_uniform_text [simp]: "op_uniform (text_shape c p t t2)"
  by (simp add: op_uniform_def text_shape_def zero_scalar_def)

lemma op_uniform_values [simp]: "op_uniform (sh\<lparr>op_values := h\<rparr>) \<longleftrightarrow> op_uniform sh"
  by (simp add: op_uniform_def)

lemma s_kind_consts [simp]: "s_kind zero_scalar = TAG_I64" "s_kind (i64_scalar x) = TAG_I64"
  by (simp_all add: zero_scalar_def i64_scalar_def)

lemma rel_valD:
  assumes "rel_val st v tv"
  shows "is_scalar v = is_scalar tv" "vtype v = vtype tv" "vscalar v = vscalar tv" "is_unknown v = is_unknown tv"
    "is_float v = is_float tv" "is_scalar tv \<Longrightarrow> slot tv = None"
  using assms by (simp_all add: rel_val_def is_unknown_def is_float_def)

lemma grows_ok: "grows st st' \<Longrightarrow> state_ok st'" by (simp add: grows_def)

lemma outcome_mono: "outcome st us st' v tv \<Longrightarrow> set us' \<subseteq> set us \<Longrightarrow> outcome st us' st' v tv"
  unfolding outcome_def by blast

lemma sim_unknown: "state_ok st \<Longrightarrow> sim st (ret unknown_val) (ret unknown_val) (outcome st us)"
  by (rule sim_ret) (simp_all add: outcome_def rel_val_def slot_tree_def unknown_val_def fin_def fin_slot_def)

lemma sim_keep: "state_ok st \<Longrightarrow> rel_val st v tv \<Longrightarrow> set us \<subseteq> {tv} \<Longrightarrow> sim st (ret v) (ret tv) (outcome st us)"
  by (rule sim_ret) (auto simp: outcome_def)

lemma sim_constant:
  assumes "state_ok st" "\<And>u. u \<in> set us \<Longrightarrow> is_scalar u \<and> slot u = None"
  shows "sim st (ret (scalar_val s t)) (ret (scalar_val s t)) (outcome st us)"
  using assms by (intro sim_ret) (auto simp: outcome_def rel_val_def slot_tree_def scalar_val_def fin_def slot_subs_def)

lemma sim_emit_as:
  assumes "state_ok st" "op_uniform sh" "list_all2 (rel_val st) vs tvs"
    and "\<And>u. u \<in> set us \<Longrightarrow> u \<in> set tvs \<or> is_scalar u \<and> slot u = None"
  shows "sim st (emit_as emit_op sh vs t) (emit_as emit_tree sh tvs t) (outcome st us)"
  unfolding emit_as_def using assms by (rule sim_emit)

lemma sim_cast:
  "state_ok st \<Longrightarrow> rel_val st v tv \<Longrightarrow> set us \<subseteq> {tv} \<Longrightarrow> sim st (cast_val emit_op v t) (cast_val emit_tree tv t) (outcome st us)"
  unfolding cast_val_def by (rule sim_emit_as) auto

lemma sim_broadcast:
  "state_ok st \<Longrightarrow> (\<And>u. u \<in> set us \<Longrightarrow> is_scalar u \<and> slot u = None) \<Longrightarrow>
    sim st (broadcast emit_op s t) (broadcast emit_tree s t) (outcome st us)"
  unfolding broadcast_def by (rule sim_emit_as) auto

lemma sim_promote:
  assumes "state_ok st" "rel_val st v tv"
  shows "sim st (promote_float emit_op F v) (promote_float emit_tree F tv) (outcome st [tv])"
proof (cases "is_scalar tv")
  case True
  let ?c = "\<lambda>w. w\<lparr>vscalar := to_f64_scalar F (vscalar w)\<rparr>"
  have "rel_val st (?c v) (?c tv)" using assms(2) by (simp add: rel_val_def)
  moreover have "slot tv = None" using True rel_valD(6) [OF assms(2)] by simp
  ultimately have "outcome st [tv] st (?c v) (?c tv)" using True by (simp add: outcome_def fin_def slot_subs_def)
  then show ?thesis using True rel_valD(1) [OF assms(2)] assms(1) by (simp add: promote_float_def sim_ret)
next
  case False
  then show ?thesis using assms rel_valD(1,2) [OF assms(2)]
    by (simp add: promote_float_def sim_cast sim_keep)
qed

lemma sim_cast_if:
  assumes "state_ok st" "rel_val st v tv"
  shows "sim st (cast_if emit_op v t) (cast_if emit_tree tv t) (outcome st [tv])"
  using assms rel_valD(1,2) [OF assms(2)] by (simp add: cast_if_def sim_cast sim_keep)

lemma sim_broadcast_if:
  assumes "state_ok st" "rel_val st v tv"
  shows "sim st (broadcast_if emit_op v t) (broadcast_if emit_tree tv t) (outcome st [tv])"
  using assms rel_valD(1,3,6) [OF assms(2)] by (cases "is_scalar tv") (auto simp: broadcast_if_def sim_keep intro!: sim_broadcast)

lemma op_not_clip [simp]: "scalar_op opr \<noteq> OP_CLIP" "column_op opr \<noteq> OP_CLIP"
  by (cases opr; simp)+

lemma sim_arith:
  assumes "state_ok st" "rel_val st a ta" "rel_val st b tb" "set us \<subseteq> {ta, tb}"
  shows "sim st (arith emit_op opr t a b) (arith emit_tree opr t ta tb) (outcome st us)"
proof -
  have d: "is_scalar a = is_scalar ta" "is_scalar b = is_scalar tb" "vscalar a = vscalar ta" "vscalar b = vscalar tb"
    using rel_valD [OF assms(2)] rel_valD [OF assms(3)] by simp_all
  consider "\<not> is_scalar ta" "\<not> is_scalar tb" | "\<not> is_scalar ta" "is_scalar tb" | "is_scalar ta" by blast
  then show ?thesis
  proof cases
    case 1
    then show ?thesis unfolding arith_def using d assms by (simp, intro sim_emit_as) auto
  next
    case 2
    then show ?thesis unfolding arith_def using d assms rel_valD(6) [OF assms(3)] by (simp, intro sim_emit_as) auto
  next
    case 3
    then show ?thesis unfolding arith_def using d assms rel_valD(6) [OF assms(2)] by (auto intro!: sim_emit_as)
  qed
qed

text \<open>Two steps, each on a value of its own, and what uses both results.\<close>

lemma sim_both:
  fixes ua ub :: "(op_tree, 'p) cval list" and k :: "(nat, 'p) cval \<Rightarrow> (nat, 'p) cval \<Rightarrow> (cstate, (nat, 'p) cval) cm"
  assumes a: "sim st ma mta (outcome st ua)"
    and b: "\<And>st'. grows st st' \<Longrightarrow> sim st' mb mtb (outcome st' ub)"
    and k: "\<And>st' a' ta' b' tb'. grows st st' \<Longrightarrow> rel_val st' a' ta' \<Longrightarrow> rel_val st' b' tb' \<Longrightarrow>
          sim st' (k a' b') (kt ta' tb') (outcome st' (tb' # ta' # others))"
    and us: "set us \<subseteq> set ua \<union> set ub \<union> set others"
  shows "sim st (andthen ma (\<lambda>a'. andthen mb (\<lambda>b'. k a' b'))) (andthen mta (\<lambda>a'. andthen mtb (\<lambda>b'. kt a' b'))) (outcome st us)"
proof (rule sim_andthen [OF a])
  fix st' and a' :: "(nat, 'p) cval" and ta' assume e: "grows st st'" and ra: "rel_val st' a' ta'"
  show "sim st' (andthen mb (k a')) (andthen mtb (kt ta')) (outcome st' (ta' # ub @ others))"
  proof (rule sim_andthen [OF b [OF e]])
    fix st'' and b' :: "(nat, 'p) cval" and tb' assume e': "grows st' st''" and rb: "rel_val st'' b' tb'"
    show "sim st'' (k a' b') (kt ta' tb') (outcome st'' (tb' # ta' # others))"
      using k [OF grows_trans [OF e e'] rel_val_grows [OF e' ra] rb] .
  qed auto
qed (use us in auto)

lemma sim_mono: "sim st m mt (outcome st us) \<Longrightarrow> set us' \<subseteq> set us \<Longrightarrow> sim st m mt (outcome st us')"
  unfolding sim_def using outcome_mono by (fastforce split: sum.splits)

lemma sim_fold:
  "state_ok st \<Longrightarrow> (\<And>u. u \<in> set us \<Longrightarrow> is_scalar u \<and> slot u = None) \<Longrightarrow>
    sim st (ret (fold_scalars F opr x y)) (ret (fold_scalars F opr x y)) (outcome st us)"
  by (auto simp: fold_scalars_def Let_def intro!: sim_constant)

lemma sim_binary:
  assumes "state_ok st" "rel_val st a ta" "rel_val st b tb"
  shows "sim st (binary emit_op F opr a b) (binary emit_tree F opr ta tb) (outcome st [tb, ta])"
proof -
  note d = rel_valD [OF assms(2)] rel_valD [OF assms(3)]
  consider (unknown) "is_unknown ta \<or> is_unknown tb"
    | (const) "\<not> (is_unknown ta \<or> is_unknown tb)" "is_scalar ta \<and> is_scalar tb"
    | (flt) "\<not> (is_unknown ta \<or> is_unknown tb)" "\<not> (is_scalar ta \<and> is_scalar tb)" "opr = Div \<or> is_float ta \<or> is_float tb"
    | (mixed) "\<not> (is_unknown ta \<or> is_unknown tb)" "\<not> (is_scalar ta \<and> is_scalar tb)" "\<not> (opr = Div \<or> is_float ta \<or> is_float tb)"
        "\<not> is_scalar ta \<and> \<not> is_scalar tb \<and> vtype ta \<noteq> vtype tb"
    | (same) "\<not> (is_unknown ta \<or> is_unknown tb)" "\<not> (is_scalar ta \<and> is_scalar tb)" "\<not> (opr = Div \<or> is_float ta \<or> is_float tb)"
        "\<not> (\<not> is_scalar ta \<and> \<not> is_scalar tb \<and> vtype ta \<noteq> vtype tb)" by blast
  then show ?thesis
  proof cases
    case unknown
    then show ?thesis using d assms(1) by (simp add: binary_def sim_unknown)
  next
    case const
    have "sim st (ret (fold_scalars F opr (vscalar ta) (vscalar tb))) (ret (fold_scalars F opr (vscalar ta) (vscalar tb)))
        (outcome st [tb, ta])"
      using const d assms(1) by (intro sim_fold) auto
    then show ?thesis using const d by (simp add: binary_def)
  next
    case flt
    have "sim st
       (andthen (promote_float emit_op F a) (\<lambda>a'. andthen (promote_float emit_op F b) (\<lambda>b'. arith emit_op opr T_Float64 a' b')))
       (andthen (promote_float emit_tree F ta) (\<lambda>a'. andthen (promote_float emit_tree F tb) (\<lambda>b'. arith emit_tree opr T_Float64 a' b')))
       (outcome st [tb, ta])"
      by (rule sim_both [where others = "[]"], rule sim_promote [OF assms(1,2)], rule sim_promote)
         (auto intro: sim_arith grows_ok rel_val_grows [OF _ assms(3)])
    then show ?thesis using flt d by (auto simp: binary_def)
  next
    case mixed
    have "sim st
       (andthen (cast_val emit_op a T_Int64) (\<lambda>a'. andthen (cast_val emit_op b T_Int64) (\<lambda>b'. arith emit_op opr T_Int64 a' b')))
       (andthen (cast_val emit_tree ta T_Int64) (\<lambda>a'. andthen (cast_val emit_tree tb T_Int64) (\<lambda>b'. arith emit_tree opr T_Int64 a' b')))
       (outcome st [tb, ta])"
      by (rule sim_both [where others = "[]" and ua = "[ta]" and ub = "[tb]"], rule sim_cast [OF assms(1,2)], simp, rule sim_cast)
         (auto intro: sim_arith grows_ok rel_val_grows [OF _ assms(3)])
    then show ?thesis using mixed d by (auto simp: binary_def)
  next
    case same
    have "binary emit_op F opr a b = arith emit_op opr (if is_scalar ta then vtype tb else vtype ta) a b"
      using same d by (auto simp: binary_def)
    moreover have "binary emit_tree F opr ta tb = arith emit_tree opr (if is_scalar ta then vtype tb else vtype ta) ta tb"
      using same by (auto simp: binary_def)
    ultimately show ?thesis using assms by (simp only:) (rule sim_arith, auto)
  qed
qed


lemma sim_arms:
  assumes "state_ok st" "rel_val st c tc" "rel_val st a ta" "rel_val st b tb" "set us \<subseteq> {ta, tb, tc}"
  shows "sim st (select_arms emit_op c a b) (select_arms emit_tree tc ta tb) (outcome st us)"
  unfolding select_arms_def rel_valD(2) [OF assms(3)] using assms by (intro sim_emit_as) auto

lemma sim_select:
  assumes "state_ok st" "rel_val st c tc" "rel_val st a ta" "rel_val st b tb"
  shows "sim st (select emit_op F c a b) (select emit_tree F tc ta tb) (outcome st [tb, ta, tc])"
proof -
  note d = rel_valD(1-5) [OF assms(2)] rel_valD(1-5) [OF assms(3)] rel_valD(1-5) [OF assms(4)]
  have later: "state_ok st'" "rel_val st' c tc" "rel_val st' a ta" "rel_val st' b tb" if "grows st st'" for st'
    using that assms by (auto intro: grows_ok rel_val_grows)
  have staged: "sim st' (andthen (broadcast_if emit_op a1 t) (\<lambda>a2. andthen (broadcast_if emit_op b1 t) (\<lambda>b2. select_arms emit_op c a2 b2)))
       (andthen (broadcast_if emit_tree ta1 t) (\<lambda>a2. andthen (broadcast_if emit_tree tb1 t) (\<lambda>b2. select_arms emit_tree tc a2 b2)))
       (outcome st' [tb1, ta1, tc])"
    if e: "grows st st'" and r: "rel_val st' a1 ta1" "rel_val st' b1 tb1" for st' a1 ta1 b1 tb1 t
    by (rule sim_both [where others = "[tc]"], rule sim_broadcast_if [OF later(1) [OF e] r(1)], rule sim_broadcast_if)
       (auto intro: sim_arms grows_ok rel_val_grows [OF _ r(2)] rel_val_grows [OF _ later(2) [OF e]])
  consider (unknown) "is_unknown tc \<or> is_unknown ta \<or> is_unknown tb"
    | (bad) "\<not> (is_unknown tc \<or> is_unknown ta \<or> is_unknown tb)" "is_scalar tc \<or> vtype tc \<noteq> T_Bool"
    | (ok) "\<not> (is_unknown tc \<or> is_unknown ta \<or> is_unknown tb)" "\<not> is_scalar tc" "vtype tc = T_Bool" by blast
  then show ?thesis
  proof cases
    case unknown
    then show ?thesis using d assms(1) by (simp add: select_def sim_unknown)
  next
    case bad
    then show ?thesis using d by (cases "is_scalar tc") (simp_all add: select_def andthen_as_col sim_fail)
  next
    case ok
    consider (const) "is_scalar ta \<and> is_scalar tb"
      | (str) "\<not> (is_scalar ta \<and> is_scalar tb)" "\<not> is_scalar ta \<and> vtype ta = T_String \<or> \<not> is_scalar tb \<and> vtype tb = T_String"
      | (flt) "\<not> (is_scalar ta \<and> is_scalar tb)" "\<not> (\<not> is_scalar ta \<and> vtype ta = T_String \<or> \<not> is_scalar tb \<and> vtype tb = T_String)"
          "is_float ta \<or> is_float tb"
      | (other) "\<not> (is_scalar ta \<and> is_scalar tb)" "\<not> (\<not> is_scalar ta \<and> vtype ta = T_String \<or> \<not> is_scalar tb \<and> vtype tb = T_String)"
          "\<not> (is_float ta \<or> is_float tb)" by blast
    then show ?thesis
    proof cases
      case const
      then have sc: "is_scalar ta" "slot ta = None" "is_scalar tb" "slot tb = None" using rel_valD(6) [OF assms(3)] rel_valD(6) [OF assms(4)] by simp_all
      have "sim st (andthen (broadcast emit_op x t) (\<lambda>a'. andthen (broadcast emit_op y t) (\<lambda>b'. select_arms emit_op c a' b')))
         (andthen (broadcast emit_tree x t) (\<lambda>a'. andthen (broadcast emit_tree y t) (\<lambda>b'. select_arms emit_tree tc a' b')))
         (outcome st [tb, ta, tc])" for x y t
        by (rule sim_both [where others = "[tc]" and ua = "[ta]" and ub = "[tb]"], rule sim_broadcast [OF assms(1)], simp add: sc, rule sim_broadcast)
           (auto simp: sc intro: sim_arms later grows_ok)
      then show ?thesis using const ok d by (simp add: select_def andthen_as_col Let_def)
    next
      case str
      then show ?thesis using ok d assms by (auto simp: select_def andthen_as_col intro!: sim_arms)
    next
      case flt
      have "sim st (andthen (promote_float emit_op F a) (\<lambda>a1. andthen (promote_float emit_op F b) (\<lambda>b1.
              andthen (broadcast_if emit_op a1 T_Float64) (\<lambda>a2. andthen (broadcast_if emit_op b1 T_Float64) (\<lambda>b2. select_arms emit_op c a2 b2)))))
            (andthen (promote_float emit_tree F ta) (\<lambda>a1. andthen (promote_float emit_tree F tb) (\<lambda>b1.
              andthen (broadcast_if emit_tree a1 T_Float64) (\<lambda>a2. andthen (broadcast_if emit_tree b1 T_Float64) (\<lambda>b2. select_arms emit_tree tc a2 b2)))))
            (outcome st [tb, ta, tc])"
        by (rule sim_both [where others = "[tc]"], rule sim_promote [OF assms(1,3)], rule sim_promote)
           (auto intro: staged later)
      then show ?thesis using flt ok d by (cases "is_scalar ta"; cases "is_scalar tb") (simp_all add: select_def andthen_as_col)
    next
      case other
      have "sim st (andthen (cast_if emit_op a t) (\<lambda>a1. andthen (cast_if emit_op b t) (\<lambda>b1.
              andthen (broadcast_if emit_op a1 t) (\<lambda>a2. andthen (broadcast_if emit_op b1 t) (\<lambda>b2. select_arms emit_op c a2 b2)))))
            (andthen (cast_if emit_tree ta t) (\<lambda>a1. andthen (cast_if emit_tree tb t) (\<lambda>b1.
              andthen (broadcast_if emit_tree a1 t) (\<lambda>a2. andthen (broadcast_if emit_tree b1 t) (\<lambda>b2. select_arms emit_tree tc a2 b2)))))
            (outcome st [tb, ta, tc])" for t
        by (rule sim_both [where others = "[tc]"], rule sim_cast_if [OF assms(1,3)], rule sim_cast_if)
           (auto intro: staged later)
      then show ?thesis using other ok d by (cases "is_scalar ta"; cases "is_scalar tb") (simp_all add: select_def andthen_as_col Let_def)
    qed
  qed
qed


section \<open>The compiler\<close>

fun uniform :: "expr \<Rightarrow> bool" where
  "uniform (LitI64 x) = True" | "uniform (LitF64 x) = True" | "uniform (Col i) = True"
| "uniform (Binary opr a b) = (uniform a \<and> uniform b)" | "uniform (Prim p a) = uniform a"
| "uniform (Unary opr a) = uniform a" | "uniform (Clip a lo hi) = (s_kind lo = s_kind hi \<and> uniform a)"
| "uniform (Fillna a s) = uniform a" | "uniform (Cmp c a s) = uniform a"
| "uniform (Logical c a b) = (uniform a \<and> uniform b)" | "uniform (Not a) = uniform a" | "uniform (Cast t a) = uniform a"
| "uniform (StrPred c a p) = uniform a" | "uniform (StrMap c a) = uniform a" | "uniform (StrLen chars a) = uniform a"
| "uniform (StrFind a n) = uniform a" | "uniform (StrReplace every a f t) = uniform a" | "uniform (StrSlice a b l) = uniform a"
| "uniform (IsIn a vals) = uniform a" | "uniform (Select c a b) = (uniform c \<and> uniform a \<and> uniform b)"
| "uniform (IsNull null a) = uniform a"

lemma sim_with_col:
  fixes k :: "(nat, 'p) cval \<Rightarrow> (cstate, (nat, 'p) cval) cm"
  assumes m: "state_ok st \<Longrightarrow> sim st m mt (outcome st [])" and ok: "state_ok st"
    and k: "\<And>st' v tv. state_ok st' \<Longrightarrow> rel_val st' v tv \<Longrightarrow> sim st' (k v) (kt tv) (outcome st' [tv])"
  shows "sim st (with_col m who k) (with_col mt who kt) (outcome st [])"
  unfolding with_col_def
proof (rule sim_andthen [where others = "[]", OF m [OF ok]])
  fix st' and v :: "(nat, 'p) cval" and tv assume e: "grows st st'" and r: "rel_val st' v tv"
  show "sim st' (if is_unknown v then ret unknown_val else andthen (as_col v who) k)
      (if is_unknown tv then ret unknown_val else andthen (as_col tv who) kt) (outcome st' [tv])"
    using k [OF grows_ok [OF e] r] rel_valD(1,4) [OF r] grows_ok [OF e]
    by (simp add: andthen_as_col sim_unknown sim_fail)
qed simp

lemma sim_with_str:
  fixes k :: "(nat, 'p) cval \<Rightarrow> (cstate, (nat, 'p) cval) cm"
  assumes m: "state_ok st \<Longrightarrow> sim st m mt (outcome st [])" and ok: "state_ok st"
    and k: "\<And>st' v tv. state_ok st' \<Longrightarrow> rel_val st' v tv \<Longrightarrow> sim st' (k v) (kt tv) (outcome st' [tv])"
  shows "sim st (with_str m who binary_ok k) (with_str mt who binary_ok kt) (outcome st [])"
  unfolding with_str_def
proof (rule sim_andthen [where others = "[]", OF m [OF ok]])
  fix st' and v :: "(nat, 'p) cval" and tv assume e: "grows st st'" and r: "rel_val st' v tv"
  show "sim st' (if is_unknown v then ret unknown_val else andthen (as_str v who binary_ok) k)
      (if is_unknown tv then ret unknown_val else andthen (as_str tv who binary_ok) kt) (outcome st' [tv])"
    using k [OF grows_ok [OF e] r] rel_valD(1,2,4) [OF r] grows_ok [OF e]
    by (simp add: andthen_as_str sim_unknown sim_fail)
qed simp

lemma sim_one:
  "state_ok st \<Longrightarrow> rel_val st v tv \<Longrightarrow> op_uniform sh \<Longrightarrow>
    sim st (emit_as emit_op sh [v] t) (emit_as emit_tree sh [tv] t) (outcome st [tv])"
  by (rule sim_emit_as) auto

lemma sim_typed:
  assumes "state_ok st" "rel_val st v tv" "op_uniform sh"
  shows "sim st (emit_as emit_op sh [v] (vtype v)) (emit_as emit_tree sh [tv] (vtype tv)) (outcome st [tv])"
    and "sim st (emit_as emit_op sh [v] (unary_type opr (vtype v))) (emit_as emit_tree sh [tv] (unary_type opr (vtype tv))) (outcome st [tv])"
  unfolding rel_valD(2) [OF assms(2)] using assms by (rule sim_one)+

lemma sim_literal: "state_ok st \<Longrightarrow> sim st (ret (scalar_val s t)) (ret (scalar_val s t)) (outcome st [])"
  by (rule sim_constant) simp_all

lemma sim_load:
  assumes "state_ok st"
  shows "sim st (load emit_op Ts i) (load emit_tree Ts i) (outcome st [])"
proof -
  let ?v = "\<lparr>is_scalar = False, slot = None, vtype = T_Unknown, vscalar = zero_scalar, full = Ts ! nat i\<rparr>"
  have "sim st (ret ?v) (ret ?v) (outcome st [])"
    using assms by (intro sim_ret) (simp_all add: outcome_def rel_val_def slot_tree_def fin_def fin_slot_def)
  then show ?thesis using assms unfolding load_def Let_def by (auto intro!: sim_emit sim_fail)
qed

lemma sim_prim:
  assumes "state_ok st" "rel_val st v tv"
  shows "sim st (prim emit_op p v) (prim emit_tree p tv) (outcome st [tv])"
proof -
  have "sim st (if vtype tv \<noteq> T_Int64 \<and> vtype tv \<noteq> T_Uint64 then cast_val emit_op v T_Int64 else ret v)
      (if vtype tv \<noteq> T_Int64 \<and> vtype tv \<noteq> T_Uint64 then cast_val emit_tree tv T_Int64 else ret tv) (outcome st [tv])"
    using assms by (simp add: sim_cast sim_keep)
  then show ?thesis unfolding prim_def rel_valD(2) [OF assms(2)]
    by (rule sim_andthen [where others = "[]"]) (auto intro!: sim_one grows_ok)
qed

lemma sim_is_in:
  assumes "state_ok st" "rel_val st v tv"
  shows "sim st (is_in emit_op vals v) (is_in emit_tree vals tv) (outcome st [tv])"
  using assms unfolding is_in_def rel_valD(2) [OF assms(2)] by (auto intro!: sim_one sim_fail split: option.split)


lemma sim_compile:
  "uniform e \<Longrightarrow> state_ok st \<Longrightarrow> sim st (compile emit_op F Ts e) (compile emit_tree F Ts e) (outcome st [])"
proof (induction e arbitrary: st)
  case (Binary opr a b)
  have "sim st (andthen (compile emit_op F Ts a) (\<lambda>va. andthen (compile emit_op F Ts b) (\<lambda>vb. binary emit_op F opr va vb)))
      (andthen (compile emit_tree F Ts a) (\<lambda>va. andthen (compile emit_tree F Ts b) (\<lambda>vb. binary emit_tree F opr va vb)))
      (outcome st [])"
    by (rule sim_both [where others = "[]" and ua = "[]" and ub = "[]"]) (use Binary in \<open>auto intro: sim_binary grows_ok\<close>)
  then show ?case by simp
next
  case (Logical c a b)
  let ?k = "\<lambda>E a0 b0. if is_unknown a0 \<or> is_unknown b0 then ret unknown_val
       else andthen (as_col a0 ''logical'') (\<lambda>va. andthen (as_col b0 ''logical'') (\<lambda>vb.
         emit_as E (shape OP_LOGICAL (P_Num (int c)) zero_scalar zero_scalar) [va, vb] T_Bool))"
  have k: "sim st' (?k emit_op v w) (?k emit_tree tv tw) (outcome st' [tw, tv])"
    if "state_ok st'" "rel_val st' v tv" "rel_val st' w tw" for st' v w tv tw
    using that rel_valD(1,4) [OF that(2)] rel_valD(1,4) [OF that(3)]
    by (auto simp: andthen_as_col intro!: sim_unknown sim_fail sim_emit_as)
  have "sim st (andthen (compile emit_op F Ts a) (\<lambda>va. andthen (compile emit_op F Ts b) (\<lambda>vb. ?k emit_op va vb)))
      (andthen (compile emit_tree F Ts a) (\<lambda>va. andthen (compile emit_tree F Ts b) (\<lambda>vb. ?k emit_tree va vb)))
      (outcome st [])"
    by (rule sim_both [where others = "[]" and ua = "[]" and ub = "[]"], use Logical in simp, rule Logical.IH(2),
        use Logical.prems in simp, erule grows_ok, rule k, erule grows_ok, assumption+, simp)
  then show ?case by simp
next
  case (Select c a b)
  show ?case unfolding compile.simps
  proof (rule sim_andthen [where others = "[]" and used = "[]"])
    fix st' and vc :: "(nat, 'a) cval" and tc assume e: "grows st st'" and r: "rel_val st' vc tc"
    show "sim st' (andthen (compile emit_op F Ts a) (\<lambda>va. andthen (compile emit_op F Ts b) (\<lambda>vb. select emit_op F vc va vb)))
      (andthen (compile emit_tree F Ts a) (\<lambda>va. andthen (compile emit_tree F Ts b) (\<lambda>vb. select emit_tree F tc va vb)))
      (outcome st' [tc])"
      by (rule sim_both [where others = "[tc]" and ua = "[]" and ub = "[]"])
         (use Select grows_ok [OF e] r in \<open>auto intro: sim_select grows_ok rel_val_grows\<close>)
  qed (use Select in auto)
next
  case (Cast t a)
  have "sim st (andthen (compile emit_op F Ts a) (\<lambda>a0. andthen (as_col a0 ''cast'') (\<lambda>v. cast_val emit_op v t)))
      (andthen (compile emit_tree F Ts a) (\<lambda>a0. andthen (as_col a0 ''cast'') (\<lambda>v. cast_val emit_tree v t))) (outcome st [])"
  proof (rule sim_andthen [where others = "[]" and used = "[]"])
    fix st' and v :: "(nat, 'a) cval" and tv assume e: "grows st st'" and r: "rel_val st' v tv"
    show "sim st' (andthen (as_col v ''cast'') (\<lambda>v. cast_val emit_op v t))
        (andthen (as_col tv ''cast'') (\<lambda>v. cast_val emit_tree v t)) (outcome st' [tv])"
      using rel_valD(1) [OF r] r grows_ok [OF e] by (simp add: andthen_as_col sim_fail sim_cast)
  qed (use Cast in auto)
  then show ?case by simp
qed (simp_all add: sim_literal sim_typed sim_load sim_with_col sim_with_str sim_one sim_prim sim_is_in)


section \<open>The roots\<close>

definition roots_outcome :: "cstate \<Rightarrow> cstate \<Rightarrow> nat option list \<Rightarrow> op_tree option list \<Rightarrow> bool" where
  "roots_outcome st st' vs ts \<longleftrightarrow> list_all2 (slot_tree st') vs ts
     \<and> (list_all fin_slot ts \<longrightarrow> set (trees (program st')) \<subseteq> set (trees (program st)) \<union> (\<Union>t \<in> set ts. slot_subs t))"

lemma slot_tree_grows: "grows st st' \<Longrightarrow> slot_tree st a t \<Longrightarrow> slot_tree st' a t"
  by (auto simp: grows_def slot_tree_def trees_prefix elim!: option.rel_mono_strong)

lemma sim_roots:
  "list_all uniform es \<Longrightarrow> state_ok st \<Longrightarrow>
    sim st (compile_roots emit_op F Ts es) (compile_roots emit_tree F Ts es) (roots_outcome st)"
proof (induction es arbitrary: st)
  case Nil
  then show ?case by (simp add: sim_ret roots_outcome_def)
next
  case (Cons e es)
  have s: "sim st (compile emit_op F Ts e) (compile emit_tree F Ts e) (outcome st [])"
    using Cons.prems by (intro sim_compile) simp_all
  show ?case
  proof (cases "compile emit_tree F Ts e ()")
    case (Inl err)
    then show ?thesis using s by (simp add: sim_def andthen_def)
  next
    case (Inr p)
    then obtain tv where tv: "compile emit_tree F Ts e () = Inr (tv, ())" by (cases p) simp
    then obtain v st1 where v: "compile emit_op F Ts e st = Inr (v, st1)" "grows st st1" "outcome st [] st1 v tv"
      using s by (auto simp: sim_def)
    then have r: "rel_val st1 v tv" by (simp add: outcome_def)
    show ?thesis
    proof (cases "is_scalar tv")
      case True
      then show ?thesis using tv v(1) rel_valD(1) [OF r] by (simp add: sim_def andthen_def fail_def)
    next
      case False
      then have nsc: "\<not> is_scalar v" using rel_valD(1) [OF r] by simp
      have t: "sim st1 (compile_roots emit_op F Ts es) (compile_roots emit_tree F Ts es) (roots_outcome st1)"
        using Cons grows_ok [OF v(2)] by simp
      show ?thesis
      proof (cases "compile_roots emit_tree F Ts es ()")
        case (Inl err)
        then show ?thesis using t tv v(1) False nsc by (simp add: sim_def andthen_def ret_def)
      next
        case (Inr q)
        then obtain ts where ts: "compile_roots emit_tree F Ts es () = Inr (ts, ())" by (cases q) simp
        then obtain vs st2 where vs: "compile_roots emit_op F Ts es st1 = Inr (vs, st2)" "grows st1 st2" "roots_outcome st1 st2 vs ts"
          using t by (auto simp: sim_def)
        have "slot_tree st1 (slot v) (slot tv)" using r by (simp add: rel_val_def)
        then have "list_all2 (slot_tree st2) (slot v # vs) (slot tv # ts)"
          using slot_tree_grows [OF vs(2)] vs(3) by (simp add: roots_outcome_def)
        moreover have "set (trees (program st2)) \<subseteq> set (trees (program st)) \<union> (\<Union>t \<in> set (slot tv # ts). slot_subs t)"
          if "list_all fin_slot (slot tv # ts)"
        proof -
          have "fin tv" using that by (simp add: fin_def)
          then have one: "set (trees (program st1)) \<subseteq> set (trees (program st)) \<union> slot_subs (slot tv)"
            using v(3) by (simp add: outcome_def)
          have "set (trees (program st2)) \<subseteq> set (trees (program st1)) \<union> (\<Union>t \<in> set ts. slot_subs t)"
            using vs(3) that by (simp add: roots_outcome_def)
          also have "\<dots> \<subseteq> (set (trees (program st)) \<union> slot_subs (slot tv)) \<union> (\<Union>t \<in> set ts. slot_subs t)"
            using one by (rule Un_mono) simp
          finally show ?thesis by (simp add: Un_assoc)
        qed
        ultimately have o: "roots_outcome st st2 (slot v # vs) (slot tv # ts)" by (simp add: roots_outcome_def)
        have "compile_roots emit_op F Ts (e # es) st = Inr (slot v # vs, st2)"
          using v(1) vs(1) nsc by (simp add: andthen_def ret_def)
        moreover have "compile_roots emit_tree F Ts (e # es) () = Inr (slot tv # ts, ())"
          using tv ts False by (simp add: andthen_def ret_def)
        ultimately show ?thesis using o grows_trans [OF v(2) vs(2)] by (simp add: sim_def)
      qed
    qed
  qed
qed

section \<open>Evaluating the program\<close>

lemma those_None: "those xs = None \<longleftrightarrow> None \<in> set xs"
  by (induction xs) (auto split: option.splits)

lemma eval_sub_None: "s \<in> subs t \<Longrightarrow> eval_tree K s = None \<Longrightarrow> eval_tree K t = None"
proof (induction t)
  case (Op sh ts)
  show ?case
  proof (cases "s = Op sh ts")
    case False
    then obtain u where u: "Some u \<in> set ts" "s \<in> subs u" using Op.prems(1) by (auto simp: subs_op)
    then have "eval_tree K u = None" using Op.IH [of "Some u" u] Op.prems(2) by simp
    then have "None \<in> set (map (eval_root K) ts)" using u(1) by (force simp: eval_root_def)
    then have "those (map (eval_root K) ts) = None" by (simp only: those_None)
    then show ?thesis by (simp add: eval_tree_op apply_op_def)
  qed (use Op in simp)
qed

lemma program_computes_trees:
  assumes "ordered prog" "list_all2 (rel_option (\<lambda>k t. k < length prog \<and> trees prog ! k = t)) slots ts"
    and cover: "set (trees prog) \<subseteq> (\<Union>t \<in> set ts. slot_subs t)"
  shows "eval_chunk K prog slots = those (map (eval_root K) ts)"
proof (cases "eval_slots K prog")
  case None
  then have "those (map (eval_tree K) (trees prog)) = None" using eval_slots_trees [OF assms(1)] by metis
  then obtain s where s: "s \<in> set (trees prog)" "eval_tree K s = None"
    unfolding those_None by force
  then obtain t where t: "t \<in> set ts" "s \<in> slot_subs t" using cover by blast
  then have "eval_root K t = None" using eval_sub_None [OF _ s(2)] by (auto simp: slot_subs_def eval_root_def split: option.splits)
  then have "None \<in> set (map (eval_root K) ts)" using t(1) by force
  then have "those (map (eval_root K) ts) = None" by (simp only: those_None)
  then show ?thesis using None by (simp add: eval_chunk_def)
next
  case (Some cs)
  then have cs: "map (eval_tree K) (trees prog) = map Some cs" using eval_slots_trees [OF assms(1)] those_Some by metis
  then have len: "length cs = length prog" by (metis length_map length_trees)
  have nth: "eval_tree K (trees prog ! j) = Some (cs ! j)" if "j < length prog" for j
    using that cs by (metis length_map length_trees nth_map)
  have "read_slot cs a = eval_root K t" if "rel_option (\<lambda>k t. k < length prog \<and> trees prog ! k = t) a t" for a t
    using that nth len by (cases a; cases t) (auto simp: read_slot_def eval_root_def)
  then have "map (read_slot cs) slots = map (eval_root K) ts"
    using assms(2) by (auto simp: list_all2_conv_all_nth intro!: nth_equalityI)
  then show ?thesis using Some by (simp add: eval_chunk_def)
qed

text \<open>
  C12: the slot program of several expressions computes them, when in every clip of the expressions the two
  bounds carry the same tag (\<open>uniform\<close>): two clips whose upper bounds
  have the same bits under different tags share a slot otherwise, and the second is wrong
  (\<open>clips_share_a_slot\<close>). When moreover every root reads known columns only (\<open>fin_slot\<close>), the
  program evaluates to the columns that the expressions' own operation trees evaluate to, and fails exactly
  when one of them fails, for any kernels. It holds no instruction twice. Compiling fails with the same
  error as the expressions do on their own.
\<close>

theorem shared_program_exact:
  assumes "list_all uniform roots"
  shows "case root_trees F Ts roots of
      Inl e \<Rightarrow> compile_program F Ts roots = Inl e
    | Inr (ts, u) \<Rightarrow> \<exists>slots st. compile_program F Ts roots = Inr (slots, st) \<and> distinct (program st)
        \<and> (list_all fin_slot ts \<longrightarrow> eval_chunk K (program st) slots = those (map (eval_root K) ts))"
proof -
  have "state_ok empty_state" by (simp add: state_ok_def empty_state_def ordered_def)
  then have s: "sim empty_state (compile_roots emit_op F Ts roots) (compile_roots emit_tree F Ts roots) (roots_outcome empty_state)"
    by (rule sim_roots [OF assms])
  show ?thesis
  proof (cases "root_trees F Ts roots")
    case (Inl e)
    then show ?thesis using s by (simp add: sim_def root_trees_def compile_program_def)
  next
    case (Inr p)
    then obtain ts where ts: "root_trees F Ts roots = Inr (ts, ())" by (cases p) simp
    then obtain slots st where st: "compile_program F Ts roots = Inr (slots, st)" "grows empty_state st"
        "roots_outcome empty_state st slots ts"
      using s by (auto simp: sim_def root_trees_def compile_program_def)
    have "state_ok st" using st(2) by (rule grows_ok)
    then have ok: "ordered (program st)" "distinct (program st)" by (auto simp: state_ok_def distinct_map)
    have "eval_chunk K (program st) slots = those (map (eval_root K) ts)" if "list_all fin_slot ts"
      using st(3) that ok(1) by (intro program_computes_trees)
        (auto simp: roots_outcome_def slot_tree_def [abs_def] empty_state_def)
    then show ?thesis using ts st(1) ok(2) by simp
  qed
qed

definition ex_floats :: float_ops where
  "ex_floats = \<lparr>f_add = (\<lambda>x y. x), f_sub = (\<lambda>x y. x), f_mul = (\<lambda>x y. x), f_div = (\<lambda>x y. x), f_of_i64 = id, f_of_u64 = id\<rparr>"

definition ex_kernel :: "int list kernels" where
  "ex_kernel sh cs =
     (case (opcode sh, cs) of
        (OP_LOAD, []) \<Rightarrow> (case op_param sh of P_Num i \<Rightarrow> Some [i, i + 10] | _ \<Rightarrow> None)
      | (OP_ADD, [x, y]) \<Rightarrow> Some (map2 (+) x y)
      | (OP_CMP, [x]) \<Rightarrow> Some (map (\<lambda>v. if uint (s_bits (op_scalar sh)) < v then 1 else 0) x)
      | _ \<Rightarrow> None)"

definition ex_roots :: "expr list" where
  "ex_roots = [Binary Add (Col 0) (Col 1), Cmp 0 (Binary Add (Col 0) (Col 1)) (i64_scalar 5)]"

lemma shared_program_exact_witness:
  "\<exists>slots st. compile_program ex_floats (replicate 2 (scalar_type T_Int64 :: unit data_type)) ex_roots = Inr (slots, st)
     \<and> distinct (program st) \<and> eval_chunk ex_kernel (program st) slots = Some [[1, 21], [0, 1]]"
proof -
  let ?Ts = "replicate 2 (scalar_type T_Int64 :: unit data_type)"
  let ?sum = "Op (shape OP_ADD P_None zero_scalar zero_scalar)
    [Some (Op (shape OP_LOAD (P_Num 0) zero_scalar zero_scalar) []), Some (Op (shape OP_LOAD (P_Num 1) zero_scalar zero_scalar) [])]"
  let ?ts = "[Some ?sum, Some (Op (shape OP_CMP (P_Num 0) (i64_scalar 5) zero_scalar) [Some ?sum])]"
  have "list_all uniform ex_roots" by (simp add: ex_roots_def)
  moreover have "root_trees ex_floats ?Ts ex_roots = Inr (?ts, ())" by code_simp
  moreover have "list_all fin_slot ?ts" by (simp add: fin_slot_def complete_op)
  moreover have "those (map (eval_root ex_kernel) ?ts) = Some [[1, 21], [0, 1]]" by code_simp
  ultimately show ?thesis using shared_program_exact [of ex_roots ex_floats ?Ts ex_kernel] by auto
qed

text \<open>
  The memo leaves the tag of the second scalar out of its key, so of two clips whose upper bounds have the
  same bits under different tags only the first is in the program.
\<close>

lemma clips_share_a_slot:
  "compile_program ex_floats [scalar_type T_Float64 :: unit data_type]
     [Clip (Col 0) (i64_scalar 0) (i64_scalar 5), Clip (Col 0) (i64_scalar 0) (f64_scalar 5)]
   = Inr ([Some 1, Some 1], \<lparr>program = [(shape OP_LOAD (P_Num 0) zero_scalar zero_scalar, []),
       (shape OP_CLIP P_None (i64_scalar 0) (i64_scalar 5), [Some 0])],
       memo = [(op_key (shape OP_CLIP P_None (i64_scalar 0) (i64_scalar 5)) [Some 0], 1),
               (op_key (shape OP_LOAD (P_Num 0) zero_scalar zero_scalar) [], 0)]\<rparr>)"
  by code_simp

end
