(* ===== verification/ExprTypes.thy ===== *)
theory ExprTypes
  imports ExprSound
begin

text \<open>
  The type an expression is given before it runs, against the types its kernels yield. \<open>kernel_type\<close> reads
  the guards of the kernels; on plain columns the inferred type is the type of the evaluated column.
\<close>

section \<open>The types of the kernels\<close>

definition is_arithmetic_type :: "type_id \<Rightarrow> bool" where
  "is_arithmetic_type t \<longleftrightarrow> t \<in> {T_Int8, T_Int16, T_Int32, T_Int64, T_Uint8, T_Uint16, T_Uint32, T_Uint64, T_Float32, T_Float64,
     T_Float16, T_Decimal128, T_Decimal256}"

definition is_numeric_dispatchable :: "type_id \<Rightarrow> bool" where
  "is_numeric_dispatchable t \<longleftrightarrow>
     t \<in> {T_Int8, T_Int16, T_Int32, T_Int64, T_Uint8, T_Uint16, T_Uint32, T_Uint64, T_Float32, T_Float64}"

definition is_float_type :: "type_id \<Rightarrow> bool" where "is_float_type t \<longleftrightarrow> t = T_Float32 \<or> t = T_Float64"
definition is_signed_int_type :: "type_id \<Rightarrow> bool" where "is_signed_int_type t \<longleftrightarrow> t \<in> {T_Int8, T_Int16, T_Int32, T_Int64}"
definition is_unsigned_int_type :: "type_id \<Rightarrow> bool" where "is_unsigned_int_type t \<longleftrightarrow> t \<in> {T_Uint8, T_Uint16, T_Uint32, T_Uint64}"

definition int_width :: "type_id \<Rightarrow> nat" where
  "int_width t = (if t \<in> {T_Int8, T_Uint8} then 1 else if t \<in> {T_Int16, T_Uint16} then 2 else if t \<in> {T_Int32, T_Uint32} then 4 else 8)"

definition promote_common :: "type_id \<Rightarrow> type_id \<Rightarrow> type_id" where
  "promote_common a b =
     (if a = b then a
      else if is_float_type a \<or> is_float_type b then T_Float64
      else if is_signed_int_type a \<and> is_signed_int_type b \<or> is_unsigned_int_type a \<and> is_unsigned_int_type b
      then (if int_width b \<le> int_width a then a else b)
      else let s = (if is_signed_int_type a then a else b); u = (if is_unsigned_int_type a then a else b) in
           if int_width u < int_width s then s else T_Float64)"

text \<open>The plain types: no temporal, decimal, half, nested or wide type, and no \<^verbatim>\<open>Float32\<close>.\<close>

definition plain :: "type_id \<Rightarrow> bool" where
  "plain t \<longleftrightarrow> t \<in> {T_Bool, T_Int8, T_Int16, T_Int32, T_Int64, T_Uint8, T_Uint16, T_Uint32, T_Uint64, T_Float64, T_String, T_Binary}"

text \<open>
  What each kernel yields on columns of the plain types, \<open>None\<close> where it refuses them. Every kernel
  flattens its operands first, so the layout of a column plays no part.
\<close>

definition on_one :: "type_id list \<Rightarrow> (type_id \<Rightarrow> type_id option) \<Rightarrow> type_id option" where
  "on_one tys f = (case tys of [a] \<Rightarrow> f a | _ \<Rightarrow> None)"

definition on_two :: "type_id list \<Rightarrow> (type_id \<Rightarrow> type_id \<Rightarrow> type_id option) \<Rightarrow> type_id option" where
  "on_two tys f = (case tys of [a, b] \<Rightarrow> f a b | _ \<Rightarrow> None)"

definition when_type :: "bool \<Rightarrow> type_id \<Rightarrow> type_id option" where "when_type ok t = (if ok then Some t else None)"

definition binop_type :: "type_id \<Rightarrow> type_id \<Rightarrow> type_id option" where
  "binop_type a b = when_type (is_numeric_dispatchable a \<and> is_numeric_dispatchable b) (promote_common a b)"

definition scalar_op_type :: "scalar_tag \<Rightarrow> type_id \<Rightarrow> type_id option" where
  "scalar_op_type k a =
     when_type (is_numeric_dispatchable a) (if k = TAG_F64 \<and> \<not> is_float_type a then T_Float64 else a)"

definition unary_op_type :: "unary_op \<Rightarrow> type_id \<Rightarrow> type_id option" where
  "unary_op_type opr a =
     (if opr \<in> {IsNan, IsFinite, IsInfinite} then when_type (a \<notin> {T_String, T_Binary, T_List, T_Struct}) T_Bool
      else if opr \<in> {Log, Sqrt, Exp} then when_type (is_numeric_dispatchable a) T_Float64
      else when_type (is_numeric_dispatchable a) a)"

text \<open>A cast reads a temporal column as its ticks and a decimal one as a double; it yields no decimal.\<close>

definition ticks_type :: "type_id \<Rightarrow> type_id" where
  "ticks_type t =
     (if t \<in> {T_Timestamp, T_Duration, T_Date64, T_Time64} then T_Int64
      else if t \<in> {T_Date32, T_Time32} then T_Int32 else t)"

definition is_decimal_type :: "type_id \<Rightarrow> bool" where "is_decimal_type t \<longleftrightarrow> t = T_Decimal128 \<or> t = T_Decimal256"

definition cast_type :: "type_id \<Rightarrow> type_id \<Rightarrow> type_id option" where
  "cast_type dst a =
     (if (a = T_Bool \<or> a = T_String \<or> a = T_LargeString) \<and> is_arithmetic_type dst then when_type (\<not> is_decimal_type dst) dst
      else let src = ticks_type a in
           if \<not> is_arithmetic_type src \<or> \<not> is_arithmetic_type dst then None
           else if is_decimal_type src \<and> dst \<noteq> T_Float64 then None
           else when_type (\<not> is_decimal_type dst) dst)"

definition is_bytes :: "type_id \<Rightarrow> bool" where "is_bytes t \<longleftrightarrow> t \<in> {T_String, T_Binary, T_LargeString, T_LargeBinary}"

definition compare_type :: "scalar_tag \<Rightarrow> type_id \<Rightarrow> type_id option" where
  "compare_type k a = when_type (if k = TAG_STR then is_bytes a else is_numeric_dispatchable a) T_Bool"

text \<open>The case maps rewrite the bytes of a column in place and keep its type; the others build a new string column.\<close>

definition str_map_type :: "op_param \<Rightarrow> type_id \<Rightarrow> type_id option" where
  "str_map_type p a = when_type (is_bytes a) (if p = P_Num 0 \<or> p = P_Num 1 then a else T_String)"

definition const_type :: "type_id \<Rightarrow> type_id option" where
  "const_type t = when_type (t = T_Bool \<or> is_numeric_dispatchable t) t"

definition kernel_type :: "'p data_type list \<Rightarrow> op_shape \<Rightarrow> type_id list \<Rightarrow> type_id option" where
  "kernel_type Ts sh tys =
     (case opcode sh of
        OP_LOAD \<Rightarrow> (case op_param sh of P_Num i \<Rightarrow> when_type (tys = []) (dt_id (Ts ! nat i)) | _ \<Rightarrow> None)
      | OP_ADD \<Rightarrow> on_two tys binop_type | OP_SUB \<Rightarrow> on_two tys binop_type
      | OP_MUL \<Rightarrow> on_two tys binop_type | OP_DIV \<Rightarrow> on_two tys binop_type
      | OP_ADDS \<Rightarrow> on_one tys (scalar_op_type (s_kind (op_scalar sh))) | OP_SUBS \<Rightarrow> on_one tys (scalar_op_type (s_kind (op_scalar sh)))
      | OP_MULS \<Rightarrow> on_one tys (scalar_op_type (s_kind (op_scalar sh))) | OP_DIVS \<Rightarrow> on_one tys (scalar_op_type (s_kind (op_scalar sh)))
      | OP_PRIM \<Rightarrow> on_one tys (\<lambda>a. when_type (a = T_Int64 \<or> a = T_Uint64) T_Int64)
      | OP_UNARY \<Rightarrow> (case op_param sh of P_Unary u \<Rightarrow> on_one tys (unary_op_type u) | _ \<Rightarrow> None)
      | OP_CLIP \<Rightarrow> on_one tys (\<lambda>a. when_type (is_numeric_dispatchable a) a)
      | OP_FILLNA \<Rightarrow> on_one tys (\<lambda>a. when_type (is_numeric_dispatchable a) a)
      | OP_CMP \<Rightarrow> on_one tys (compare_type (s_kind (op_scalar sh)))
      | OP_LOGICAL \<Rightarrow> on_two tys (\<lambda>a b. when_type (a = T_Bool \<and> b = T_Bool) T_Bool)
      | OP_NOT \<Rightarrow> on_one tys (\<lambda>a. when_type (a = T_Bool) T_Bool)
      | OP_CAST \<Rightarrow> (case op_param sh of P_Type t \<Rightarrow> on_one tys (cast_type t) | _ \<Rightarrow> None)
      | OP_STR_PRED \<Rightarrow> on_one tys (\<lambda>a. when_type (is_bytes a) T_Bool)
      | OP_STR_MAP \<Rightarrow> on_one tys (str_map_type (op_param sh))
      | OP_STR_LEN \<Rightarrow> on_one tys (\<lambda>a. when_type (is_bytes a) T_Int64)
      | OP_STR_FIND \<Rightarrow> on_one tys (\<lambda>a. when_type (is_bytes a) T_Int64)
      | OP_STR_REPLACE \<Rightarrow> on_one tys (\<lambda>a. when_type (is_bytes a) T_String)
      | OP_STR_SLICE \<Rightarrow> on_one tys (\<lambda>a. when_type (is_bytes a) T_String)
      | OP_IS_IN \<Rightarrow> on_one tys (\<lambda>a. Some T_Bool)
      | OP_CONST \<Rightarrow> (case op_param sh of P_Type t \<Rightarrow> if tys = [] then const_type t else None | _ \<Rightarrow> None)
      | OP_SELECT \<Rightarrow> (case tys of [a, b, c] \<Rightarrow> when_type (c = T_Bool \<and> a = b) a | _ \<Rightarrow> None)
      | OP_IS_NULL \<Rightarrow> on_one tys (\<lambda>a. Some T_Bool))"

text \<open>The kernels keep to these types: a column that a kernel yields on plain columns has the type its guards give.\<close>

definition kernels_typed :: "'p data_type list \<Rightarrow> 'c kernels \<Rightarrow> ('c \<Rightarrow> type_id) \<Rightarrow> bool" where
  "kernels_typed Ts K ty \<longleftrightarrow>
     (\<forall>sh cs c. K sh cs = Some c \<longrightarrow> list_all (\<lambda>x. plain (ty x)) cs \<longrightarrow> kernel_type Ts sh (map ty cs) = Some (ty c))"

section \<open>Every value of the compiler has its type\<close>

definition gives :: "(unit, 'b) cm \<Rightarrow> ('b \<Rightarrow> bool) \<Rightarrow> bool" where
  "gives m P \<longleftrightarrow> (\<forall>b. m () = Inr (b, ()) \<longrightarrow> P b)"

lemma gives_ret [simp]: "gives (ret a) P \<longleftrightarrow> P a" by (auto simp: gives_def ret_def)
lemma gives_fail [simp]: "gives (fail e) P" by (simp add: gives_def fail_def)

lemma gives_andthen: "gives m Q \<Longrightarrow> (\<And>a. Q a \<Longrightarrow> gives (k a) P) \<Longrightarrow> gives (andthen m k) P"
  by (auto simp: gives_def andthen_def split: sum.splits)

definition val_typed :: "'c kernels \<Rightarrow> ('c \<Rightarrow> type_id) \<Rightarrow> (op_tree, 'p) cval \<Rightarrow> bool" where
  "val_typed K ty v \<longleftrightarrow>
     (if is_scalar v then slot v = None
      else dt_id (full v) = vtype v \<and> (plain (vtype v) \<or> vtype v = T_Unknown \<and> slot v = None)
        \<and> (\<forall>t c. slot v = Some t \<longrightarrow> eval_tree K t = Some c \<longrightarrow> ty c = vtype v))"

definition col_typed :: "'c kernels \<Rightarrow> ('c \<Rightarrow> type_id) \<Rightarrow> (op_tree, 'p) cval \<Rightarrow> bool" where
  "col_typed K ty v \<longleftrightarrow> val_typed K ty v \<and> \<not> is_scalar v"

lemma gives_emit:
  assumes K: "kernels_typed Ts K ty" and vs: "\<And>v. v \<in> set vs \<Longrightarrow> val_typed K ty v"
    and t: "plain (dt_id dt)" and k: "\<And>u. kernel_type Ts sh (map vtype vs) = Some u \<Longrightarrow> u = dt_id dt"
  shows "gives (emit emit_tree sh vs (dt_id dt) dt) (col_typed K ty)"
proof -
  let ?t = "Op sh (map slot vs)"
  have "ty c = dt_id dt" if c: "eval_tree K ?t = Some c" for c
  proof -
    obtain cs where cs: "those (map (eval_root K) (map slot vs)) = Some cs" "K sh cs = Some c"
      using c by (auto simp: eval_tree_op apply_op_def split: option.splits)
    then have root: "map (eval_root K) (map slot vs) = map Some cs" using those_Some by blast
    have len: "length cs = length vs" using arg_cong [OF root, of length] by simp
    have each: "ty (cs ! i) = vtype (vs ! i) \<and> plain (vtype (vs ! i))" if i: "i < length vs" for i
    proof -
      have "eval_root K (slot (vs ! i)) = Some (cs ! i)" using arg_cong [OF root, of "\<lambda>xs. xs ! i"] i len by simp
      moreover have "val_typed K ty (vs ! i)" using vs i by simp
      ultimately show ?thesis by (auto simp: val_typed_def eval_root_def split: option.splits if_splits)
    qed
    have "map ty cs = map vtype vs" using each len by (intro nth_equalityI) simp_all
    moreover have "list_all (\<lambda>x. plain (ty x)) cs" using each len by (simp add: list_all_length)
    ultimately have "kernel_type Ts sh (map vtype vs) = Some (ty c)" using K cs(2) by (metis kernels_typed_def)
    then show ?thesis by (rule k)
  qed
  then show ?thesis using t by (simp add: gives_def emit_def emit_tree_def col_typed_def val_typed_def)
qed

lemma gives_emit_as:
  assumes "kernels_typed Ts K ty" "\<And>v. v \<in> set vs \<Longrightarrow> val_typed K ty v" "plain t"
    and "\<And>u. kernel_type Ts sh (map vtype vs) = Some u \<Longrightarrow> u = t"
  shows "gives (emit_as emit_tree sh vs t) (col_typed K ty)"
  using gives_emit [OF assms(1,2), of vs "scalar_type t" sh] assms(3,4) by (simp add: emit_as_def scalar_type_def)

lemma val_typedD:
  assumes "val_typed K ty v"
  shows "is_scalar v \<Longrightarrow> slot v = None" "\<not> is_scalar v \<Longrightarrow> dt_id (full v) = vtype v"
    "\<not> is_scalar v \<Longrightarrow> \<not> is_unknown v \<Longrightarrow> plain (vtype v)"
  using assms by (auto simp: val_typed_def is_unknown_def)

lemma col_typedD: "col_typed K ty v \<Longrightarrow> val_typed K ty v" "col_typed K ty v \<Longrightarrow> \<not> is_scalar v"
  by (simp_all add: col_typed_def)

lemma plain_types [simp]: "plain T_Bool" "plain T_Int64" "plain T_Float64" "plain T_String" "\<not> plain T_Float32" "\<not> plain T_Unknown"
  by (simp_all add: plain_def)

lemmas kernel_simps = kernel_type_def shape_def text_shape_def on_one_def on_two_def when_type_def

lemma when_type_Some: "when_type ok t = Some u \<longleftrightarrow> ok \<and> u = t" by (auto simp: when_type_def)

lemma cast_type_Some: "cast_type dst a = Some u \<Longrightarrow> u = dst"
  by (auto simp: cast_type_def Let_def when_type_Some split: if_splits)

lemma gives_cast:
  assumes K: "kernels_typed Ts K ty" and v: "val_typed K ty v" and t: "plain t"
  shows "gives (cast_val emit_tree v t) (\<lambda>w. col_typed K ty w \<and> vtype w = t)"
proof -
  have "gives (cast_val emit_tree v t) (col_typed K ty)" unfolding cast_val_def
    by (rule gives_emit_as [OF K]) (use v t in \<open>auto simp: kernel_type_def shape_def on_one_def dest: cast_type_Some\<close>)
  then show ?thesis by (auto simp: gives_def cast_val_def emit_as_def emit_def emit_tree_def)
qed

lemma gives_broadcast:
  assumes K: "kernels_typed Ts K ty" and t: "plain t"
  shows "gives (broadcast emit_tree s t) (\<lambda>w. col_typed K ty w \<and> vtype w = t)"
proof -
  have "gives (broadcast emit_tree s t) (col_typed K ty)" unfolding broadcast_def
    by (rule gives_emit_as [OF K]) (use t in \<open>auto simp: kernel_type_def shape_def const_type_def when_type_Some\<close>)
  then show ?thesis by (auto simp: gives_def broadcast_def emit_as_def emit_def emit_tree_def)
qed

lemma gives_mono: "gives m P \<Longrightarrow> (\<And>a. P a \<Longrightarrow> Q a) \<Longrightarrow> gives m Q" by (simp add: gives_def)

lemma unknown_typed: "val_typed K ty unknown_val" by (simp add: val_typed_def unknown_val_def scalar_type_def)

lemma constant_typed: "val_typed K ty (scalar_val s t)" by (simp add: val_typed_def scalar_val_def)

lemma fold_typed: "val_typed K ty (fold_scalars F opr x y) \<and> is_scalar (fold_scalars F opr x y)"
  unfolding fold_scalars_def Let_def by (simp add: constant_typed) (simp add: scalar_val_def)

definition promoted :: "'c kernels \<Rightarrow> ('c \<Rightarrow> type_id) \<Rightarrow> type_id \<Rightarrow> (op_tree, 'p) cval \<Rightarrow> bool" where
  "promoted K ty t w \<longleftrightarrow> val_typed K ty w \<and> (\<not> is_scalar w \<longrightarrow> vtype w = t)
     \<and> (is_scalar w \<and> s_kind (vscalar w) = TAG_F64 \<longrightarrow> t = T_Float64)"

lemma promotedD: "promoted K ty t w \<Longrightarrow> val_typed K ty w" "promoted K ty t w \<Longrightarrow> \<not> is_scalar w \<Longrightarrow> vtype w = t"
  by (simp_all add: promoted_def)

lemma col_promoted: "col_typed K ty w \<Longrightarrow> vtype w = t \<Longrightarrow> promoted K ty t w"
  by (simp add: col_typed_def promoted_def)

lemma gives_promote:
  assumes K: "kernels_typed Ts K ty" and v: "val_typed K ty v" "\<not> is_unknown v"
  shows "gives (promote_float emit_tree F v) (\<lambda>w. promoted K ty T_Float64 w \<and> is_scalar w = is_scalar v)"
proof (cases "is_scalar v")
  case True
  then show ?thesis using v by (simp add: promote_float_def promoted_def val_typed_def)
next
  case False
  then have "vtype v \<noteq> T_Float32" using val_typedD(3) [OF v(1)] v(2) by auto
  moreover have "gives (cast_val emit_tree v T_Float64) (\<lambda>w. promoted K ty T_Float64 w \<and> is_scalar w = is_scalar v)"
    by (rule gives_mono [OF gives_cast [OF K v(1), of T_Float64]]) (use False in \<open>auto simp: promoted_def dest: col_typedD\<close>)
  ultimately show ?thesis using False v(1) by (simp add: promote_float_def promoted_def)
qed

lemma binop_same: "binop_type t t = Some u \<Longrightarrow> u = t"
  by (simp add: binop_type_def promote_common_def when_type_Some)

lemma gives_arith:
  assumes K: "kernels_typed Ts K ty" and a: "promoted K ty t a" and b: "promoted K ty t b" and t: "plain t"
    and one: "\<not> (is_scalar a \<and> is_scalar b)"
  shows "gives (arith emit_tree opr t a b) (col_typed K ty)"
proof -
  have cols: "u = t" if "\<not> is_scalar a" "\<not> is_scalar b"
    "kernel_type Ts (shape (column_op opr) P_None zero_scalar zero_scalar) (map vtype [a, b]) = Some u" for u
    using that a b by (cases opr) (auto simp: kernel_type_def shape_def on_two_def promoted_def dest: binop_same)
  have scalar: "u = t" if "\<not> is_scalar v" "is_scalar w" "promoted K ty t v" "promoted K ty t w"
    "kernel_type Ts (shape (scalar_op opr) P_None (vscalar w) zero_scalar) (map vtype [v]) = Some u" for u v w
    using that by (cases opr) (auto simp: kernel_type_def shape_def on_one_def promoted_def scalar_op_type_def when_type_Some)
  have v: "val_typed K ty a" "val_typed K ty b" using a b by (simp_all add: promotedD)
  consider "\<not> is_scalar a" "\<not> is_scalar b" | "\<not> is_scalar a" "is_scalar b" | "is_scalar a" "\<not> is_scalar b" using one by blast
  then show ?thesis
  proof cases
    case 1
    then have "gives (emit_as emit_tree (shape (column_op opr) P_None zero_scalar zero_scalar) [a, b] t) (col_typed K ty)"
      using v by (intro gives_emit_as [OF K _ t] cols) auto
    then show ?thesis using 1 by (simp add: arith_def)
  next
    case 2
    then have "gives (emit_as emit_tree (shape (scalar_op opr) P_None (vscalar b) zero_scalar) [a] t) (col_typed K ty)"
      using v a b by (intro gives_emit_as [OF K _ t] scalar [OF 2]) auto
    then show ?thesis using 2 by (simp add: arith_def)
  next
    case 3
    then have "gives (emit_as emit_tree (shape (scalar_op opr) P_None (vscalar a) zero_scalar) [b] t) (col_typed K ty)"
      using v a b by (intro gives_emit_as [OF K _ t] scalar [OF 3(2,1)]) auto
    then show ?thesis using 3 by (simp add: arith_def)
  qed
qed

text \<open>Two prepared operands and what joins them.\<close>

lemma gives_both:
  assumes "gives ma P" "gives mb Q" "\<And>x y. P x \<Longrightarrow> Q y \<Longrightarrow> gives (k x y) R"
  shows "gives (andthen ma (\<lambda>x. andthen mb (\<lambda>y. k x y))) R"
  using assms by (intro gives_andthen [OF assms(1)] gives_andthen [OF assms(2)])

lemma gives_binary:
  assumes K: "kernels_typed Ts K ty" and a: "val_typed K ty a" and b: "val_typed K ty b"
  shows "gives (binary emit_tree F opr a b) (val_typed K ty)"
proof -
  consider (unknown) "is_unknown a \<or> is_unknown b"
    | (const) "\<not> (is_unknown a \<or> is_unknown b)" "is_scalar a \<and> is_scalar b"
    | (flt) "\<not> (is_unknown a \<or> is_unknown b)" "\<not> (is_scalar a \<and> is_scalar b)" "opr = Div \<or> is_float a \<or> is_float b"
    | (mixed) "\<not> (is_unknown a \<or> is_unknown b)" "\<not> (is_scalar a \<and> is_scalar b)" "\<not> (opr = Div \<or> is_float a \<or> is_float b)"
        "\<not> is_scalar a \<and> \<not> is_scalar b \<and> vtype a \<noteq> vtype b"
    | (same) "\<not> (is_unknown a \<or> is_unknown b)" "\<not> (is_scalar a \<and> is_scalar b)" "\<not> (opr = Div \<or> is_float a \<or> is_float b)"
        "\<not> (\<not> is_scalar a \<and> \<not> is_scalar b \<and> vtype a \<noteq> vtype b)" by blast
  then show ?thesis
  proof cases
    case unknown
    then show ?thesis by (simp add: binary_def unknown_typed)
  next
    case const
    then show ?thesis by (simp add: binary_def fold_typed)
  next
    case flt
    have "gives (andthen (promote_float emit_tree F a) (\<lambda>a'. andthen (promote_float emit_tree F b) (\<lambda>b'. arith emit_tree opr T_Float64 a' b')))
        (val_typed K ty)"
      by (rule gives_both [OF gives_promote [OF K a] gives_promote [OF K b]])
         (use flt in \<open>auto intro: gives_mono [OF gives_arith [OF K]] dest: col_typedD\<close>)
    then show ?thesis using flt by (auto simp: binary_def)
  next
    case mixed
    have "gives (andthen (cast_val emit_tree a T_Int64) (\<lambda>a'. andthen (cast_val emit_tree b T_Int64) (\<lambda>b'. arith emit_tree opr T_Int64 a' b')))
        (val_typed K ty)"
      by (rule gives_both [OF gives_cast [OF K a] gives_cast [OF K b]])
         (auto intro!: gives_mono [OF gives_arith [OF K col_promoted col_promoted]] dest: col_typedD)
    then show ?thesis using mixed by (auto simp: binary_def)
  next
    case same
    let ?t = "if is_scalar a then vtype b else vtype a"
    have p: "promoted K ty ?t a" "promoted K ty ?t b" using same a b by (auto simp: promoted_def is_float_def)
    have "plain ?t" using same val_typedD(3) [OF a] val_typedD(3) [OF b] by auto
    from gives_arith [OF K p this same(2)] have "gives (arith emit_tree opr ?t a b) (val_typed K ty)"
      by (rule gives_mono) (rule col_typedD)
    moreover have "binary emit_tree F opr a b = arith emit_tree opr ?t a b" using same by (auto simp: binary_def)
    ultimately show ?thesis by simp
  qed
qed


lemma gives_arms:
  assumes K: "kernels_typed Ts K ty" and c: "val_typed K ty c" and a: "col_typed K ty a" and b: "col_typed K ty b"
    and t: "plain (vtype a)"
  shows "gives (select_arms emit_tree c a b) (val_typed K ty)"
proof -
  have "gives (select_arms emit_tree c a b) (col_typed K ty)" unfolding select_arms_def
    by (rule gives_emit_as [OF K _ t])
       (use c a b in \<open>auto simp: kernel_type_def shape_def when_type_Some dest: col_typedD\<close>)
  then show ?thesis by (rule gives_mono) (rule col_typedD)
qed

lemma gives_broadcast_if:
  assumes K: "kernels_typed Ts K ty" and v: "promoted K ty t v" and t: "plain t"
  shows "gives (broadcast_if emit_tree v t) (\<lambda>w. col_typed K ty w \<and> vtype w = t)"
  using v gives_broadcast [OF K t] by (auto simp: broadcast_if_def promoted_def col_typed_def)

lemma gives_cast_if:
  assumes K: "kernels_typed Ts K ty" and v: "val_typed K ty v" and t: "plain t"
    and f: "is_scalar v \<and> s_kind (vscalar v) = TAG_F64 \<longrightarrow> t = T_Float64"
  shows "gives (cast_if emit_tree v t) (promoted K ty t)"
proof (cases "\<not> is_scalar v \<and> vtype v \<noteq> t")
  case True
  have "gives (cast_val emit_tree v t) (promoted K ty t)"
    by (rule gives_mono [OF gives_cast [OF K v t]]) (auto intro: col_promoted)
  then show ?thesis using True by (simp add: cast_if_def)
next
  case False
  then show ?thesis using v f by (auto simp: cast_if_def promoted_def)
qed

lemma gives_staged:
  fixes c :: "(op_tree, 'p) cval"
  assumes K: "kernels_typed Ts K ty" and c: "val_typed K ty c" and t: "plain t"
    and a: "gives ma (promoted K ty t)" and b: "gives mb (promoted K ty t)"
  shows "gives (andthen ma (\<lambda>a1. andthen mb (\<lambda>b1. andthen (broadcast_if emit_tree a1 t)
      (\<lambda>a2. andthen (broadcast_if emit_tree b1 t) (\<lambda>b2. select_arms emit_tree c a2 b2))))) (val_typed K ty)"
proof (rule gives_both [OF a b])
  fix a1 b1 :: "(op_tree, 'p) cval" assume "promoted K ty t a1" "promoted K ty t b1"
  then show "gives (andthen (broadcast_if emit_tree a1 t) (\<lambda>a2. andthen (broadcast_if emit_tree b1 t) (\<lambda>b2. select_arms emit_tree c a2 b2)))
      (val_typed K ty)"
    by (intro gives_both [OF gives_broadcast_if [OF K _ t] gives_broadcast_if [OF K _ t]])
       (use t in \<open>auto intro!: gives_arms [OF K c]\<close>)
qed

lemma gives_select:
  assumes K: "kernels_typed Ts K ty" and c: "val_typed K ty c" and a: "val_typed K ty a" and b: "val_typed K ty b"
  shows "gives (select emit_tree F c a b) (val_typed K ty)"
proof -
  consider (unknown) "is_unknown c \<or> is_unknown a \<or> is_unknown b"
    | (bad) "\<not> (is_unknown c \<or> is_unknown a \<or> is_unknown b)" "is_scalar c \<or> vtype c \<noteq> T_Bool"
    | (ok) "\<not> (is_unknown c \<or> is_unknown a \<or> is_unknown b)" "\<not> is_scalar c" "vtype c = T_Bool" by blast
  then show ?thesis
  proof cases
    case unknown
    then show ?thesis by (simp add: select_def unknown_typed)
  next
    case bad
    then show ?thesis by (cases "is_scalar c") (simp_all add: select_def andthen_as_col)
  next
    case ok
    consider (const) "is_scalar a" "is_scalar b"
      | (str) "\<not> (is_scalar a \<and> is_scalar b)" "\<not> is_scalar a \<and> vtype a = T_String \<or> \<not> is_scalar b \<and> vtype b = T_String"
      | (flt) "\<not> (is_scalar a \<and> is_scalar b)" "\<not> (\<not> is_scalar a \<and> vtype a = T_String \<or> \<not> is_scalar b \<and> vtype b = T_String)"
          "is_float a \<or> is_float b"
      | (other) "\<not> (is_scalar a \<and> is_scalar b)" "\<not> (\<not> is_scalar a \<and> vtype a = T_String \<or> \<not> is_scalar b \<and> vtype b = T_String)"
          "\<not> (is_float a \<or> is_float b)" by blast
    then show ?thesis
    proof cases
      case const
      have "gives (andthen (broadcast emit_tree x t) (\<lambda>a'. andthen (broadcast emit_tree y t) (\<lambda>b'. select_arms emit_tree c a' b'))) (val_typed K ty)"
        if t: "plain t" for x y t
        by (rule gives_both [OF gives_broadcast [OF K t] gives_broadcast [OF K t]]) (use t in \<open>auto intro!: gives_arms [OF K c]\<close>)
      then show ?thesis using const ok by (simp add: select_def andthen_as_col Let_def)
    next
      case str
      have "gives (select_arms emit_tree c a b) (val_typed K ty)" if "\<not> is_scalar a" "\<not> is_scalar b"
        using that a b ok(1) by (intro gives_arms [OF K c]) (auto simp: col_typed_def dest: val_typedD)
      then show ?thesis using str ok by (cases "is_scalar a"; cases "is_scalar b") (simp_all add: select_def andthen_as_col)
    next
      case flt
      have "gives (promote_float emit_tree F a) (promoted K ty T_Float64)" "gives (promote_float emit_tree F b) (promoted K ty T_Float64)"
        using gives_mono [OF gives_promote [OF K a]] gives_mono [OF gives_promote [OF K b]] ok(1) by blast+
      from gives_staged [OF K c _ this] show ?thesis using flt ok
        by (cases "is_scalar a"; cases "is_scalar b") (simp_all add: select_def andthen_as_col)
    next
      case other
      let ?t = "if is_scalar a then vtype b else if is_scalar b then vtype a else if vtype a = vtype b then vtype a else T_Int64"
      have t: "plain ?t" using other ok(1) val_typedD(3) [OF a] val_typedD(3) [OF b] by auto
      have "is_scalar a \<and> s_kind (vscalar a) = TAG_F64 \<longrightarrow> ?t = T_Float64" "is_scalar b \<and> s_kind (vscalar b) = TAG_F64 \<longrightarrow> ?t = T_Float64"
        using other(3) by (auto simp: is_float_def)
      note tags = this
      have "gives (cast_if emit_tree a ?t) (promoted K ty ?t)" by (rule gives_cast_if [OF K a t tags(1)])
      moreover have "gives (cast_if emit_tree b ?t) (promoted K ty ?t)" by (rule gives_cast_if [OF K b t tags(2)])
      note this = calculation this
      from gives_staged [OF K c t this] show ?thesis using other ok
        by (cases "is_scalar a"; cases "is_scalar b") (simp_all add: select_def andthen_as_col Let_def)
    qed
  qed
qed


section \<open>The inferred type\<close>

fun plain_casts :: "expr \<Rightarrow> bool" where
  "plain_casts (LitI64 x) = True" | "plain_casts (LitF64 x) = True" | "plain_casts (Col i) = True"
| "plain_casts (Binary opr a b) = (plain_casts a \<and> plain_casts b)" | "plain_casts (Prim p a) = plain_casts a"
| "plain_casts (Unary opr a) = plain_casts a" | "plain_casts (Clip a lo hi) = plain_casts a"
| "plain_casts (Fillna a s) = plain_casts a" | "plain_casts (Cmp c a s) = plain_casts a"
| "plain_casts (Logical c a b) = (plain_casts a \<and> plain_casts b)" | "plain_casts (Not a) = plain_casts a"
| "plain_casts (Cast t a) = (plain t \<and> plain_casts a)"
| "plain_casts (StrPred c a p) = plain_casts a" | "plain_casts (StrMap c a) = plain_casts a" | "plain_casts (StrLen chars a) = plain_casts a"
| "plain_casts (StrFind a n) = plain_casts a" | "plain_casts (StrReplace every a f t) = plain_casts a" | "plain_casts (StrSlice a b l) = plain_casts a"
| "plain_casts (IsIn a vals) = plain_casts a" | "plain_casts (Select c a b) = (plain_casts c \<and> plain_casts a \<and> plain_casts b)"
| "plain_casts (IsNull null a) = plain_casts a"

lemma gives_with_col:
  assumes m: "gives m (val_typed K ty)" and k: "\<And>v. val_typed K ty v \<Longrightarrow> plain (vtype v) \<Longrightarrow> gives (k v) (val_typed K ty)"
  shows "gives (with_col m who k) (val_typed K ty)"
  unfolding with_col_def by (rule gives_andthen [OF m]) (auto simp: andthen_as_col unknown_typed intro: k val_typedD)

lemma gives_with_str:
  assumes m: "gives m (val_typed K ty)"
    and k: "\<And>v. val_typed K ty v \<Longrightarrow> plain (vtype v) \<Longrightarrow> vtype v = T_String \<or> binary_ok \<and> vtype v = T_Binary \<Longrightarrow> gives (k v) (val_typed K ty)"
  shows "gives (with_str m who binary_ok k) (val_typed K ty)"
  unfolding with_str_def by (rule gives_andthen [OF m]) (auto simp: andthen_as_str unknown_typed intro: k val_typedD)

lemma gives_one:
  assumes K: "kernels_typed Ts K ty" and v: "val_typed K ty v" and t: "plain t"
    and k: "\<And>u. kernel_type Ts sh [vtype v] = Some u \<Longrightarrow> u = t"
  shows "gives (emit_as emit_tree sh [v] t) (val_typed K ty)"
proof -
  have "gives (emit_as emit_tree sh [v] t) (col_typed K ty)" by (rule gives_emit_as [OF K _ t]) (use v k in auto)
  then show ?thesis by (rule gives_mono) (rule col_typedD)
qed

lemma unary_type_kernel: "unary_op_type opr t = Some u \<Longrightarrow> u = unary_type opr t"
  by (cases opr) (auto simp: unary_op_type_def unary_type_def when_type_Some)

lemma plain_unary: "plain t \<Longrightarrow> plain (unary_type opr t)"
  by (cases opr) (simp_all add: unary_type_def)

lemma gives_load:
  assumes "kernels_typed Ts K ty" "list_all (\<lambda>dt. plain (dt_id dt)) Ts"
  shows "gives (load emit_tree Ts i) (val_typed K ty)"
proof (cases "i < 0 \<or> int (length Ts) \<le> i")
  case False
  then have "nat i < length Ts" by auto
  then have "plain (dt_id (Ts ! nat i))" using assms(2) by (simp add: list_all_length)
  moreover from this have "gives (emit emit_tree (shape OP_LOAD (P_Num i) zero_scalar zero_scalar) [] (dt_id (Ts ! nat i)) (Ts ! nat i)) (val_typed K ty)"
    by (intro gives_mono [OF gives_emit [OF assms(1)] col_typedD(1)]) (auto simp: kernel_type_def shape_def when_type_Some)
  moreover have "dt_id (Ts ! nat i) \<noteq> T_Unknown" using calculation(1) by auto
  ultimately show ?thesis using False by (auto simp: load_def Let_def)
qed (simp add: load_def)

lemma gives_prim:
  assumes K: "kernels_typed Ts K ty" and v: "val_typed K ty v"
  shows "gives (prim emit_tree p v) (val_typed K ty)"
proof -
  have "gives (if vtype v \<noteq> T_Int64 \<and> vtype v \<noteq> T_Uint64 then cast_val emit_tree v T_Int64 else ret v) (val_typed K ty)"
    using v gives_mono [OF gives_cast [OF K v, of T_Int64], of "val_typed K ty"] by (auto dest: col_typedD)
  then show ?thesis unfolding prim_def
    by (rule gives_andthen) (auto intro!: gives_one [OF K] simp: kernel_type_def shape_def on_one_def when_type_Some)
qed

lemma gives_is_in:
  assumes K: "kernels_typed Ts K ty" and v: "val_typed K ty v"
  shows "gives (is_in emit_tree vals v) (val_typed K ty)"
  unfolding is_in_def
  by (auto intro!: gives_one [OF K v] simp: kernel_type_def shape_def on_one_def split: option.split)

lemmas one_simps = kernel_type_def shape_def text_shape_def on_one_def when_type_Some

lemma gives_compile:
  assumes K: "kernels_typed Ts K ty" and Ts: "list_all (\<lambda>dt. plain (dt_id dt)) Ts"
  shows "plain_casts e \<Longrightarrow> gives (compile emit_tree F Ts e) (val_typed K ty)"
proof (induction e)
  case (Binary opr a b)
  then show ?case by (auto intro!: gives_both gives_binary [OF K])
next
  case (Select c a b)
  then show ?case by (auto intro!: gives_andthen gives_select [OF K])
next
  case (Logical c a b)
  have "gives (if is_unknown a0 \<or> is_unknown b0 then ret unknown_val
       else andthen (as_col a0 ''logical'') (\<lambda>va. andthen (as_col b0 ''logical'') (\<lambda>vb.
         emit_as emit_tree (shape OP_LOGICAL (P_Num (int c)) zero_scalar zero_scalar) [va, vb] T_Bool))) (val_typed K ty)"
    if "val_typed K ty a0" "val_typed K ty b0" for a0 b0
    using that
    by (auto simp: andthen_as_col unknown_typed kernel_type_def shape_def on_two_def when_type_Some
        intro!: gives_mono [OF gives_emit_as [OF K] col_typedD(1)])
  then show ?case using Logical by (auto intro!: gives_both)
next
  case (Cast t a)
  have k: "gives (andthen (as_col v ''cast'') (\<lambda>v. cast_val emit_tree v t)) (val_typed K ty)" if "val_typed K ty v" for v
    using gives_mono [OF gives_cast [OF K that, of t], of "val_typed K ty"] Cast.prems
    by (auto simp: andthen_as_col dest: col_typedD)
  have m: "gives (compile emit_tree F Ts a) (val_typed K ty)" using Cast by simp
  show ?case unfolding compile.simps by (rule gives_andthen [OF m k])
next
  case (Unary opr a)
  then show ?case by (auto intro!: gives_with_col gives_one [OF K] simp: one_simps plain_unary dest: unary_type_kernel)
next
  case (Cmp c a s)
  then show ?case by (auto intro!: gives_with_col gives_one [OF K] simp: one_simps compare_type_def)
next
  case (IsIn a vals)
  then show ?case by (auto intro!: gives_with_col gives_is_in [OF K])
next
  case (Prim p a)
  then show ?case by (auto intro!: gives_with_col gives_prim [OF K])
qed (auto intro!: gives_with_col gives_with_str gives_one [OF K] gives_load [OF K Ts] simp: one_simps str_map_type_def constant_typed)


text \<open>
  C13: the type inferred for an expression is the type of the column its program evaluates to. The columns
  are of the plain types: bits, integers, \<^verbatim>\<open>Float64\<close> and byte strings. The expression casts to plain types
  only and clips between bounds of one kind (\<open>uniform\<close>); the kernels yield the types that their guards give
  on plain columns (\<open>kernels_typed\<close>). Two \<^verbatim>\<open>Float32\<close> columns are outside: \<open>float32_sum_disagrees\<close>.
\<close>

theorem inferred_type_exact:
  assumes K: "kernels_typed Ts K ty" and Ts: "list_all (\<lambda>dt. plain (dt_id dt)) Ts" and e: "plain_casts e" "uniform e"
    and inferred: "infer_type F Ts e = Inr dt"
    and run: "compile_program F Ts [e] = Inr (slots, st)" "eval_chunk K (program st) slots = Some [c]"
  shows "ty c = dt_id dt"
proof -
  have ok: "state_ok empty_state" by (simp add: state_ok_def empty_state_def ordered_def)
  obtain v st' where v: "compile emit_op F Ts e empty_state = Inr (v, st')" "\<not> is_scalar v" "full v = dt"
    using inferred by (auto simp: infer_type_def split: sum.splits if_splits)
  have p: "slots = [slot v]" "st = st'" using run(1) v by (auto simp: compile_program_def andthen_def ret_def)
  obtain tv where tv: "compile emit_tree F Ts e () = Inr (tv, ())" "grows empty_state st'" "rel_val st' v tv"
  proof (cases "compile emit_tree F Ts e ()")
    case (Inl err)
    then show thesis using sim_compile [OF e(2) ok, of F Ts] v(1) by (simp add: sim_def)
  next
    case (Inr q)
    then obtain tv where "compile emit_tree F Ts e () = Inr (tv, ())" by (cases q) simp
    then show thesis using that [of tv] sim_compile [OF e(2) ok, of F Ts] v(1) by (auto simp: sim_def outcome_def)
  qed
  have typed: "val_typed K ty tv" using gives_compile [OF K Ts e(1), of F] tv(1) by (simp add: gives_def)
  obtain cs where cs: "eval_slots K (program st') = Some cs" "read_slot cs (slot v) = Some c"
    using run(2) p by (auto simp: eval_chunk_def split: option.splits)
  have "ordered (program st')" using grows_ok [OF tv(2)] by (simp add: state_ok_def)
  then have all: "map (eval_tree K) (trees (program st')) = map Some cs" using cs(1) eval_slots_trees those_Some by metis
  obtain k where k: "slot v = Some k" "k < length cs" "cs ! k = c" using cs(2) by (auto simp: read_slot_def split: option.splits if_splits)
  have "eval_tree K (trees (program st') ! k) = Some c"
    using arg_cong [OF all, of "\<lambda>xs. xs ! k"] k arg_cong [OF all, of length] by simp
  moreover have "slot tv = Some (trees (program st') ! k)"
    using tv(3) k(1) by (auto simp: rel_val_def slot_tree_def option_rel_Some1)
  ultimately have "ty c = vtype tv" using typed v(2) tv(3) by (auto simp: val_typed_def rel_val_def)
  moreover have "dt_id (full tv) = vtype tv" using typed v(2) tv(3) by (auto simp: val_typed_def rel_val_def)
  ultimately show ?thesis using v(3) tv(3) by (simp add: rel_val_def)
qed

definition ex_columns :: "unit data_type list" where "ex_columns = [scalar_type T_Int32, scalar_type T_Uint8]"

definition ex_mean :: expr where "ex_mean = Select (Cmp 0 (Col 0) (i64_scalar 7)) (Binary Div (Col 0) (LitI64 2)) (Col 1)"

text \<open>Kernels over the bare types, which the guards themselves give.\<close>

lemma inferred_type_exact_witness:
  "infer_type ex_floats ex_columns ex_mean = Inr (scalar_type T_Float64)
   \<and> (\<exists>slots st c. compile_program ex_floats ex_columns [ex_mean] = Inr (slots, st)
        \<and> eval_chunk (kernel_type ex_columns) (program st) slots = Some [c] \<and> c = T_Float64)"
proof -
  have K: "kernels_typed ex_columns (kernel_type ex_columns) id" by (simp add: kernels_typed_def)
  have Ts: "list_all (\<lambda>dt. plain (dt_id dt)) ex_columns" by code_simp
  have e: "plain_casts ex_mean" "uniform ex_mean" by (simp_all add: ex_mean_def)
  have t: "infer_type ex_floats ex_columns ex_mean = Inr (scalar_type T_Float64)" by code_simp
  obtain slots st c where run: "compile_program ex_floats ex_columns [ex_mean] = Inr (slots, st)"
      "eval_chunk (kernel_type ex_columns) (program st) slots = Some [c]"
  proof -
    have "case compile_program ex_floats ex_columns [ex_mean] of
        Inr (slots, st) \<Rightarrow> map_option length (eval_chunk (kernel_type ex_columns) (program st) slots) = Some 1 | Inl e \<Rightarrow> False"
      by code_simp
    then show thesis using that by (auto simp: length_Suc_conv split: sum.splits)
  qed
  have "c = T_Float64" using inferred_type_exact [OF K Ts e t run] by (simp add: scalar_type_def)
  then show ?thesis using t run by blast
qed

text \<open>A cast to half floats succeeds and leaves the plain types; the case maps keep a binary column binary.\<close>

lemma outside_plain:
  "kernel_type Ts (shape OP_CAST (P_Type T_Float16) zero_scalar zero_scalar) [T_Int64] = Some T_Float16" "\<not> plain T_Float16"
  "kernel_type Ts (shape OP_STR_MAP (P_Num 0) zero_scalar zero_scalar) [T_Binary] = Some T_Binary"
  "kernel_type Ts (shape OP_STR_MAP (P_Num 2) zero_scalar zero_scalar) [T_Binary] = Some T_String"
  by (simp_all add: kernel_type_def shape_def on_one_def cast_type_def str_map_type_def is_bytes_def is_arithmetic_type_def
      is_decimal_type_def ticks_type_def when_type_def plain_def)

text \<open>Two \<^verbatim>\<open>Float32\<close> columns: the sum is inferred to be \<^verbatim>\<open>Float64\<close>, and the kernel adds them as \<^verbatim>\<open>Float32\<close>.\<close>

lemma float32_sum_disagrees:
  "infer_type ex_floats (replicate 2 (scalar_type T_Float32 :: unit data_type)) (Binary Add (Col 0) (Col 1)) = Inr (scalar_type T_Float64)"
  "kernel_type (replicate 2 (scalar_type T_Float32 :: unit data_type)) (shape OP_ADD P_None zero_scalar zero_scalar) [T_Float32, T_Float32] = Some T_Float32"
  by code_simp+

end
