(* ===== verification/Spec2Isabelle.thy ===== *)
theory Spec2Isabelle
  imports BatchPrune HttpServer AggKey WorkItems ReadFilter PrefixScan ExprTypes
begin

text \<open>
  A verification library for dftracer-utils: its query language, the statistics and filters of the
  index, chunk pruning, the index database, reading (gzip streams, work items, filters), the trace
  events, the aggregation keys, the HTTP front end and the column kernels of the dataframe. Paths below
  are under \<^verbatim>\<open>src/src/dftracer/utils\<close> and \<^verbatim>\<open>src/include/dftracer/utils\<close>.

  \<^bold>\<open>The program.\<close> A trace is a gzip file of JSON events, cut into chunks (checkpoints). Indexing visits
  every event and leaves, per chunk and per file, statistics of each dimension (\<^verbatim>\<open>trace/indexing\<close>):
  numeric bounds, a dictionary of value counts, Bloom filters, a timestamp histogram. They are stored in
  RocksDB column families (\<^verbatim>\<open>utilities/indexer\<close>). A query (\<^verbatim>\<open>query\<close>) is parsed once, evaluated on
  events, and used before that by the pruner (\<^verbatim>\<open>trace/indexing/chunk_pruner_utility.cpp\<close>) to leave out
  chunks that cannot match; a stored view may answer a query it subsumes. A read (\<^verbatim>\<open>utilities/reader\<close>)
  plans work items from the chunks the pruner keeps, inflates their bytes, cuts them into lines, skips
  sub-chunks, and filters the lines and the events. Aggregations are keyed by
  interned strings (\<^verbatim>\<open>core/common/string_intern.h\<close>, \<^verbatim>\<open>trace/aggregators\<close>). A server (\<^verbatim>\<open>server\<close>) offers
  the same over HTTP.

  The results of a read are columns (\<^verbatim>\<open>dataframe\<close>): buffers with offsets and a validity bitmap, or
  views over them, that kernels filter, gather, encode and scan.

  \<^bold>\<open>The theories\<close>, in the order they build on one another:
  \<^item> \<^verbatim>\<open>Prelude\<close>: the error monad over sums, generic facts on lists and association lists, collections.
  \<^item> \<^verbatim>\<open>Cstd\<close>: what the sources use of the C and C++ library: character classes, \<^verbatim>\<open>from_chars\<close>, \<^verbatim>\<open>stoull\<close>,
    \<^verbatim>\<open>stod\<close>, number rendering, rounding of integers to doubles.
  \<^item> \<^verbatim>\<open>Bytes\<close>, \<^verbatim>\<open>Codec\<close>: little-endian words and FNV-1a; big-endian integers, blobs and varints of
    \<^verbatim>\<open>binary_codec.h\<close> and \<^verbatim>\<open>key_codec.cpp\<close>. Locale \<open>prefix_codec\<close> is the contract of a writer and a
    reader; sequences and pairs of codecs are codecs.
  \<^item> \<^verbatim>\<open>Json\<close>: values, accessors and the dotted-path walk (\<^verbatim>\<open>json/json_value.cpp\<close>).
  \<^item> \<^verbatim>\<open>Query\<close>, \<^verbatim>\<open>QueryLexer\<close>, \<^verbatim>\<open>QueryParser\<close>, \<^verbatim>\<open>QueryRoundtrip\<close>: the AST and its text, the tokenizer, the
    parser; rendering and parsing are inverse, every text has a result, parsed queries are well formed.
  \<^item> \<^verbatim>\<open>QueryEval\<close>, \<^verbatim>\<open>QueryAgreement\<close>: evaluation on JSON events and on typed maps; the two agree.
  \<^item> \<^verbatim>\<open>Subsumption\<close>: the view test of \<^verbatim>\<open>query/subsumption.cpp\<close> is sound.
  \<^item> \<^verbatim>\<open>Histograms\<close>, \<^verbatim>\<open>Bloom\<close>, \<^verbatim>\<open>DimStats\<close>: the statistics. Locales \<open>counting_sketch\<close> (a summary counts by
    key and merging adds), \<open>membership_filter\<close> and \<open>mergeable_filter\<close> (nothing added is ever denied).
  \<^item> \<^verbatim>\<open>ChunkPruner\<close>, \<^verbatim>\<open>PrunerSound\<close>, \<^verbatim>\<open>PrunerFile\<close>: the pruner, what the index must say of the events, and
    that no chunk with a matching event is dropped. An index read that throws is \<open>None\<close> in \<open>index_db\<close>;
    \<open>node_throws\<close> and \<open>prune_loaded\<close> say when the pruner gives up and keeps the file. A dictionary blob that does
    not inflate does not throw: it decodes as empty (\<open>corrupt_dictionary_is_evidence\<close>).
  \<^item> \<^verbatim>\<open>HttpParser\<close>, \<^verbatim>\<open>HttpRouter\<close>, \<^verbatim>\<open>HttpServer\<close>: the incremental request parser, routing, cursors and cache
    keys, and the connection loop against a specification that reads the whole stream.
  \<^item> \<^verbatim>\<open>Intern\<close>, \<^verbatim>\<open>AggKey\<close>: the intern table (locale \<open>naming_table\<close> is what its clients rely on) and the
    aggregation keys with their shards, bytes and readers.
  \<^item> \<^verbatim>\<open>IndexKeys\<close>, \<^verbatim>\<open>IndexStore\<close>, \<^verbatim>\<open>IndexRegistry\<close>: the keys and rows of the index, the writer and the
    queries over a parameter for RocksDB, and the registry of files. Locale \<open>file_keys\<close> is the contract
    of a key scheme: distinct keys, and a prefix per file that no key of another file starts with.
  \<^item> \<^verbatim>\<open>BatchPrune\<close>: pruning many files with one scan per column family (\<^verbatim>\<open>index_database.cpp\<close>,
    \<^verbatim>\<open>chunk_pruner_utility.cpp\<close>): \<open>open_index\<close> builds the pruner's \<open>index_db\<close> from the store of \<open>IndexStore\<close>, and
    the batch gives the answers of the single calls.
  \<^item> \<^verbatim>\<open>GzipStream\<close>, \<^verbatim>\<open>LineBytes\<close>: random access to the bytes of a gzip trace and the line-aligned stream;
    reading a range gives exactly its lines, and adjacent ranges give every line once.
  \<^item> \<^verbatim>\<open>TraceEvent\<close>: phases, types and the parsers of an event (\<^verbatim>\<open>trace/event.h\<close>, \<^verbatim>\<open>schema.h\<close>); flattening
    keeps every scalar under its path.
  \<^item> \<^verbatim>\<open>SubChunk\<close>, \<^verbatim>\<open>WorkItems\<close>: zone maps and keep masks (\<^verbatim>\<open>sub_chunk_prune.h\<close>), the planner
    (\<^verbatim>\<open>chunk_geometry.cpp\<close>) and the reader's skip: from the pruner over the planner of many files to the
    reader no matching event of a sound query is lost, and the items cover the kept chunks in order.
  \<^item> \<^verbatim>\<open>ReadFilter\<close>: the prefilter, the compiled probes and the collected map
    (\<^verbatim>\<open>trace_reader_prefilter.cpp\<close>, \<^verbatim>\<open>trace_reader_shared.h\<close>), lines and their numbers. \<open>json_text\<close> is the compact
    line of an event, a specification; it escapes as \<^verbatim>\<open>json/json_escape.h\<close> does.
  \<^item> \<^verbatim>\<open>StringOps\<close>: the row functions of \<^verbatim>\<open>dataframe/kernels/string_ops.cpp\<close> (LIKE, search, split, case,
    padding) and the column around them; the vector search of \<^verbatim>\<open>substr_simd.cpp\<close> against its specification.
  \<^item> \<^verbatim>\<open>SeriesRows\<close>: columns of every layout as buffers and as cells, gathering, selections, the mask scan and
    the row-wise choice (\<^verbatim>\<open>kernels/filter.cpp\<close>). \<open>cells\<close> is the abstraction; each kernel is shown to
    move cells.
  \<^item> \<^verbatim>\<open>DictEncode\<close>: dictionary encoding (\<^verbatim>\<open>kernels/dictionary.cpp\<close>), single pass and chunked.
  \<^item> \<^verbatim>\<open>PrefixScan\<close>: running scans, counts and differences (\<^verbatim>\<open>kernels/elementwise.cpp\<close>, \<^verbatim>\<open>parallel.h\<close>).
    Locale \<open>scan_monoid\<close> is what the scans ask of an operation; sums, products, extremes and counts give it.
    The definitions take any element type; the theorem is about words, since floating sums reassociate.
  \<^item> \<^verbatim>\<open>ExprCompile\<close>, \<^verbatim>\<open>ExprSound\<close>, \<^verbatim>\<open>ExprTypes\<close>: the expression compiler (\<^verbatim>\<open>dataframe/expr.cpp\<close>).
    \<open>compile\<close> takes the operation that emits an instruction: with \<open>emit_op\<close> it is the compiler, with
    \<open>emit_tree\<close> the tree semantics it is compared with. A simulation shows that the program with shared
    slots computes the trees; a typing of every compiled value shows that inference is exact. Kernels are
    a parameter; \<open>kernels_typed\<close> says that on plain columns they yield the types their guards give
    (\<open>kernel_type\<close>).

  A property whose statement needs a condition under which the code behaves names it in the text above it,
  with the lemma that shows what the code does outside.

  A \<^verbatim>\<open>parallel_for\<close> is a list of chunks; where tasks write one buffer, they do so in any order. Without
  a backend one call covers all rows, which is the case of a single chunk.

  \<^bold>\<open>Correspondence.\<close> Functions, fields and enumerators keep their names. A C++ exception or an error
  return is \<open>None\<close> or \<open>Inl\<close>; a member function that changes its object returns the new record. Unsigned
  integers that wrap are words; \<^verbatim>\<open>int64_t\<close> and \<^verbatim>\<open>uint64_t\<close> values that are only compared are \<open>int\<close> and
  \<open>nat\<close> with their range as an invariant. Doubles are extended rationals rounded as IEEE 754 does where
  the code converts an integer; other floating results are parameters. Ordered maps are sorted
  association lists, hash tables whose order the code does not use are maps or association lists.

  \<^bold>\<open>Parameters.\<close> What is not under \<^verbatim>\<open>src\<close> or is a system service is an argument with named laws:
  \<^verbatim>\<open>std::regex_search\<close>, libdeflate (\<open>gz_decode\<close>), the gzip container of dictionaries, libm, RocksDB (\<open>rocks_ok\<close>: point reads see
  the commits, iterators are sorted and complete, a batch is atomic and in order), the file system
  (\<open>file_system\<close>), sockets (the pieces a connection receives), route handlers. Each law is discharged
  for a concrete instance in the witness of the property that uses it, such as \<open>list_store\<close> for RocksDB.

  \<^bold>\<open>Fuel and termination.\<close> Only the mutually recursive query parser takes fuel; \<open>parse_returns\<close> shows
  that six units a token and four more are always enough. Probing in the intern table and its growth are total on
  tables reached by inserts (\<open>interning_total\<close>). The matcher of LIKE is a partial function; that it returns
  is part of \<open>str_like_exact\<close>. Everything else is structurally recursive or has a
  measure.

  \<^bold>\<open>Not modelled.\<close> The rest of the dataframe engine (lazy plans, joins, grouping, sorting, floating
  kernels), views and folds (coroutines over Arrow buffers), the coroutine runtime and I/O backends
  (threads and system calls), Python bindings, plugins and command-line tools (glue), the comparator and the sketches (floating statistics), SST
  ingestion, replay, MPI and DLIO helpers. Concurrency is left out: objects that several threads share
  are modelled one call at a time.
\<close>

end
